(* ===== verification/Prelude.thy ===== *)
theory Prelude
  imports Main "HOL-Library.Word" "HOL-Library.Monad_Syntax"
begin

unbundle bit_operations_syntax

text \<open>
  Shared vocabulary of the development: the machine types of the 32-bit C target, the byte
  memory in which the string routines of \<^verbatim>\<open>src/src/libc\<close> run, NUL-terminated strings in that
  memory, and the list, option and map facts that the component theories share.

  A memory is a list of bytes and an address an index into it. Address 0 is the null pointer;
  reading or writing it, or an address outside the memory, faults, which is the value
  \<^term>\<open>None\<close>. A result \<^term>\<open>Some\<close> of a routine therefore also says that the routine only
  touched memory it may touch.
\<close>

type_synonym byte = "8 word"
type_synonym mem = "byte list"
type_synonym addr = nat

named_theorems mem_simps \<open>reading and writing the byte memory\<close>
named_theorems cstr_rules \<open>facts on NUL-terminated strings in memory\<close>

abbreviation (input) NULL :: addr where "NULL \<equiv> 0"

section \<open>Byte memory\<close>

definition rd :: "mem \<Rightarrow> addr \<Rightarrow> byte option" where
  "rd m p = (if 0 < p \<and> p < length m then Some (m ! p) else None)"

definition wr :: "mem \<Rightarrow> addr \<Rightarrow> byte \<Rightarrow> mem option" where
  "wr m p b = (if 0 < p \<and> p < length m then Some (m[p := b]) else None)"

lemma rd_Some_iff: "rd m p = Some b \<longleftrightarrow> 0 < p \<and> p < length m \<and> m ! p = b"
  by (auto simp: rd_def)

lemma rd_SomeD: "rd m p = Some b \<Longrightarrow> 0 < p \<and> p < length m \<and> m ! p = b"
  by (simp add: rd_Some_iff)

lemma wr_Some_iff: "wr m p b = Some m' \<longleftrightarrow> 0 < p \<and> p < length m \<and> m' = m[p := b]"
  by (auto simp: wr_def)

lemma wr_length [mem_simps]: "wr m p b = Some m' \<Longrightarrow> length m' = length m"
  by (auto simp: wr_Some_iff)

lemma rd_wr_same [mem_simps]: "wr m p b = Some m' \<Longrightarrow> rd m' p = Some b"
  by (auto simp: wr_Some_iff rd_def)

lemma rd_wr_other [mem_simps]: "wr m p b = Some m' \<Longrightarrow> q \<noteq> p \<Longrightarrow> rd m' q = rd m q"
  by (auto simp: wr_Some_iff rd_def)

lemma wr_defined: "0 < p \<Longrightarrow> p < length m \<Longrightarrow> wr m p b = Some (m[p := b])"
  by (simp add: wr_def)

lemma rd_defined: "0 < p \<Longrightarrow> p < length m \<Longrightarrow> rd m p = Some (m ! p)"
  by (simp add: rd_def)

lemma rd_update: "rd (m[p := b]) q = (if q = p \<and> 0 < p \<and> p < length m then Some b else rd m q)"
  by (auto simp: rd_def)

text \<open>A block of \<open>n\<close> bytes at \<open>p\<close> lies inside the memory and does not hold the null pointer.\<close>

definition valid_block :: "mem \<Rightarrow> addr \<Rightarrow> nat \<Rightarrow> bool" where
  "valid_block m p n \<longleftrightarrow> 0 < p \<and> p + n \<le> length m"

section \<open>NUL-terminated strings in memory\<close>

text \<open>\<open>cstr m p s\<close>: the bytes \<open>s\<close>, none of them NUL, are at \<open>p\<close> and a NUL follows them.\<close>

fun cstr :: "mem \<Rightarrow> addr \<Rightarrow> byte list \<Rightarrow> bool" where
  "cstr m p [] \<longleftrightarrow> rd m p = Some 0"
| "cstr m p (c # s) \<longleftrightarrow> rd m p = Some c \<and> c \<noteq> 0 \<and> cstr m (Suc p) s"

lemma cstr_nonzero [cstr_rules]: "cstr m p s \<Longrightarrow> 0 \<notin> set s"
  by (induction s arbitrary: p) auto

lemma cstr_positive [cstr_rules]: "cstr m p s \<Longrightarrow> 0 < p"
  by (cases s) (auto simp: rd_Some_iff)

lemma cstr_bound [cstr_rules]: "cstr m p s \<Longrightarrow> p + length s < length m"
  by (induction s arbitrary: p) (fastforce simp: rd_Some_iff)+

lemma cstr_rd: "cstr m p s \<Longrightarrow> i < length s \<Longrightarrow> rd m (p + i) = Some (s ! i)"
proof (induction s arbitrary: p i)
  case (Cons c s)
  then show ?case using Cons.IH [of "Suc p" "i - 1"] by (cases i) auto
qed simp

lemma cstr_nth_nonzero: "cstr m p s \<Longrightarrow> i < length s \<Longrightarrow> s ! i \<noteq> 0"
  using cstr_nonzero [of m p s] by (metis nth_mem)

lemma cstr_rd_end: "cstr m p s \<Longrightarrow> rd m (p + length s) = Some 0"
proof (induction s arbitrary: p)
  case (Cons c s)
  then show ?case using Cons.IH [of "Suc p"] by simp
qed simp

lemma cstr_append: "cstr m p (s @ t) \<longleftrightarrow>
    (\<forall>i < length s. rd m (p + i) = Some (s ! i) \<and> s ! i \<noteq> 0) \<and> cstr m (p + length s) t"
proof (induction s arbitrary: p)
  case (Cons c s)
  show ?case
    by (auto simp: Cons less_Suc_eq_0_disj)
qed simp

lemma cstr_unique: "cstr m p s \<Longrightarrow> cstr m p t \<Longrightarrow> s = t"
proof (induction s arbitrary: p t)
  case Nil
  then show ?case by (cases t) auto
next
  case (Cons c s)
  then show ?case by (cases t) auto
qed

text \<open>A string is kept by any change outside the bytes it occupies, its NUL included.\<close>

lemma cstr_frame:
  assumes "cstr m p s"
    and "\<And>i. i \<le> length s \<Longrightarrow> rd m' (p + i) = rd m (p + i)"
  shows "cstr m' p s"
  using assms
proof (induction s arbitrary: p)
  case Nil
  then show ?case using Nil.prems(2) [of 0] by simp
next
  case (Cons c s)
  have "rd m' (Suc p + i) = rd m (Suc p + i)" if "i \<le> length s" for i
    using Cons.prems(2) [of "Suc i"] that by simp
  then show ?case using Cons.IH [of "Suc p"] Cons.prems(1) Cons.prems(2) [of 0] by simp
qed

lemma cstr_drop: "cstr m p (s @ t) \<Longrightarrow> cstr m (p + length s) t"
  by (simp add: cstr_append)

section \<open>Lists and options\<close>

lemma takeWhile_not_NUL: "0 \<notin> set s \<Longrightarrow> takeWhile (\<lambda>c. c \<noteq> 0) s = s"
  by (induction s) auto

lemma list_all_upto_int:
  "list_all P [a..b] \<longleftrightarrow> (\<forall>c. a \<le> c \<and> c \<le> b \<longrightarrow> P c)"
  by (auto simp: list_all_iff)

section \<open>Words\<close>

lemma unat_of_nat_small: "n < 2 ^ LENGTH('a) \<Longrightarrow> unat (of_nat n :: 'a::len word) = n"
  by (simp add: unsigned_of_nat take_bit_nat_eq_self)

lemma uint_of_int_small: "0 \<le> k \<Longrightarrow> k < 2 ^ LENGTH('a) \<Longrightarrow> uint (word_of_int k :: 'a::len word) = k"
  by (simp add: unsigned_of_int take_bit_int_eq_self)

lemma sint_of_int_small:
  "- (2 ^ (LENGTH('a) - 1)) \<le> k \<Longrightarrow> k < 2 ^ (LENGTH('a) - 1) \<Longrightarrow> sint (word_of_int k :: 'a::len word) = k"
  by (simp add: sint_sbintrunc' signed_take_bit_int_eq_self)

lemma sint_small: "unat (w :: 'a::len word) < 2 ^ (LENGTH('a) - 1) \<Longrightarrow> sint w = int (unat w)"
proof -
  assume w: "unat w < 2 ^ (LENGTH('a) - 1)"
  have "sint (word_of_int (int (unat w)) :: 'a word) = int (unat w)"
  proof (rule sint_of_int_small)
    show "int (unat w) < 2 ^ (LENGTH('a) - 1)"
      using w by (metis of_nat_less_iff of_nat_numeral of_nat_power)
    have "- (2 ^ (LENGTH('a) - 1)) \<le> (0 :: int)" by simp
    also have "0 \<le> int (unat w)" by simp
    finally show "- (2 ^ (LENGTH('a) - 1)) \<le> int (unat w)" .
  qed
  then show ?thesis by simp
qed

end
