(* ===== verification/Ctype.thy ===== *)
theory Ctype
  imports Prelude
begin

text \<open>
  Character classification and case conversion: the tables of
  \<^verbatim>\<open>src/src/libc/ansi/ctype/ct_flags.c\<close>, \<^verbatim>\<open>ct_upper.c\<close> and \<^verbatim>\<open>ct_lower.c\<close>, the macros of
  \<^verbatim>\<open>include/inlines/ctype.ha\<close> and \<^verbatim>\<open>ctype.hd\<close>, and the functions that wrap them. The tables have one
  entry per value of an \<^verbatim>\<open>unsigned char\<close> and a first one for \<^verbatim>\<open>EOF\<close>; a macro applied to any other
  \<^verbatim>\<open>int\<close> reads outside the table, which is \<^term>\<open>None\<close> here.
\<close>

section \<open>The tables\<close>

definition dj_ISALNUM :: "16 word" where "dj_ISALNUM = 0x0001"
definition dj_ISALPHA :: "16 word" where "dj_ISALPHA = 0x0002"
definition dj_ISCNTRL :: "16 word" where "dj_ISCNTRL = 0x0004"
definition dj_ISDIGIT :: "16 word" where "dj_ISDIGIT = 0x0008"
definition dj_ISGRAPH :: "16 word" where "dj_ISGRAPH = 0x0010"
definition dj_ISLOWER :: "16 word" where "dj_ISLOWER = 0x0020"
definition dj_ISPRINT :: "16 word" where "dj_ISPRINT = 0x0040"
definition dj_ISPUNCT :: "16 word" where "dj_ISPUNCT = 0x0080"
definition dj_ISSPACE :: "16 word" where "dj_ISSPACE = 0x0100"
definition dj_ISUPPER :: "16 word" where "dj_ISUPPER = 0x0200"
definition dj_ISXDIGIT :: "16 word" where "dj_ISXDIGIT = 0x0400"
definition dj_ISBLANK :: "16 word" where "dj_ISBLANK = 0x0800"

lemmas dj_IS_defs =
  dj_ISALNUM_def
  dj_ISALPHA_def
  dj_ISCNTRL_def
  dj_ISDIGIT_def
  dj_ISGRAPH_def
  dj_ISLOWER_def
  dj_ISPRINT_def
  dj_ISPUNCT_def
  dj_ISSPACE_def
  dj_ISUPPER_def
  dj_ISXDIGIT_def
  dj_ISBLANK_def

definition dj_ctype_flags_lo :: "16 word list" where
  "dj_ctype_flags_lo = [
     0,
     dj_ISCNTRL,
     dj_ISCNTRL,
     dj_ISCNTRL,
     dj_ISCNTRL,
     dj_ISCNTRL,
     dj_ISCNTRL,
     dj_ISCNTRL,
     dj_ISCNTRL,
     dj_ISCNTRL,
     dj_ISCNTRL OR dj_ISSPACE OR dj_ISBLANK,
     dj_ISCNTRL OR dj_ISSPACE,
     dj_ISCNTRL OR dj_ISSPACE,
     dj_ISCNTRL OR dj_ISSPACE,
     dj_ISCNTRL OR dj_ISSPACE,
     dj_ISCNTRL,
     dj_ISCNTRL,
     dj_ISCNTRL,
     dj_ISCNTRL,
     dj_ISCNTRL,
     dj_ISCNTRL,
     dj_ISCNTRL,
     dj_ISCNTRL,
     dj_ISCNTRL,
     dj_ISCNTRL,
     dj_ISCNTRL,
     dj_ISCNTRL,
     dj_ISCNTRL,
     dj_ISCNTRL,
     dj_ISCNTRL,
     dj_ISCNTRL,
     dj_ISCNTRL,
     dj_ISCNTRL,
     dj_ISPRINT OR dj_ISSPACE OR dj_ISBLANK,
     dj_ISGRAPH OR dj_ISPRINT OR dj_ISPUNCT,
     dj_ISGRAPH OR dj_ISPRINT OR dj_ISPUNCT,
     dj_ISGRAPH OR dj_ISPRINT OR dj_ISPUNCT,
     dj_ISGRAPH OR dj_ISPRINT OR dj_ISPUNCT,
     dj_ISGRAPH OR dj_ISPRINT OR dj_ISPUNCT,
     dj_ISGRAPH OR dj_ISPRINT OR dj_ISPUNCT,
     dj_ISGRAPH OR dj_ISPRINT OR dj_ISPUNCT,
     dj_ISGRAPH OR dj_ISPRINT OR dj_ISPUNCT,
     dj_ISGRAPH OR dj_ISPRINT OR dj_ISPUNCT,
     dj_ISGRAPH OR dj_ISPRINT OR dj_ISPUNCT,
     dj_ISGRAPH OR dj_ISPRINT OR dj_ISPUNCT,
     dj_ISGRAPH OR dj_ISPRINT OR dj_ISPUNCT,
     dj_ISGRAPH OR dj_ISPRINT OR dj_ISPUNCT,
     dj_ISGRAPH OR dj_ISPRINT OR dj_ISPUNCT,
     dj_ISGRAPH OR dj_ISPRINT OR dj_ISPUNCT,
     dj_ISALNUM OR dj_ISDIGIT OR dj_ISGRAPH OR dj_ISPRINT OR dj_ISXDIGIT,
     dj_ISALNUM OR dj_ISDIGIT OR dj_ISGRAPH OR dj_ISPRINT OR dj_ISXDIGIT,
     dj_ISALNUM OR dj_ISDIGIT OR dj_ISGRAPH OR dj_ISPRINT OR dj_ISXDIGIT,
     dj_ISALNUM OR dj_ISDIGIT OR dj_ISGRAPH OR dj_ISPRINT OR dj_ISXDIGIT,
     dj_ISALNUM OR dj_ISDIGIT OR dj_ISGRAPH OR dj_ISPRINT OR dj_ISXDIGIT,
     dj_ISALNUM OR dj_ISDIGIT OR dj_ISGRAPH OR dj_ISPRINT OR dj_ISXDIGIT,
     dj_ISALNUM OR dj_ISDIGIT OR dj_ISGRAPH OR dj_ISPRINT OR dj_ISXDIGIT,
     dj_ISALNUM OR dj_ISDIGIT OR dj_ISGRAPH OR dj_ISPRINT OR dj_ISXDIGIT,
     dj_ISALNUM OR dj_ISDIGIT OR dj_ISGRAPH OR dj_ISPRINT OR dj_ISXDIGIT,
     dj_ISALNUM OR dj_ISDIGIT OR dj_ISGRAPH OR dj_ISPRINT OR dj_ISXDIGIT,
     dj_ISGRAPH OR dj_ISPRINT OR dj_ISPUNCT,
     dj_ISGRAPH OR dj_ISPRINT OR dj_ISPUNCT,
     dj_ISGRAPH OR dj_ISPRINT OR dj_ISPUNCT,
     dj_ISGRAPH OR dj_ISPRINT OR dj_ISPUNCT,
     dj_ISGRAPH OR dj_ISPRINT OR dj_ISPUNCT,
     dj_ISGRAPH OR dj_ISPRINT OR dj_ISPUNCT,
     dj_ISGRAPH OR dj_ISPRINT OR dj_ISPUNCT,
     dj_ISALNUM OR dj_ISALPHA OR dj_ISGRAPH OR dj_ISPRINT OR dj_ISUPPER OR dj_ISXDIGIT,
     dj_ISALNUM OR dj_ISALPHA OR dj_ISGRAPH OR dj_ISPRINT OR dj_ISUPPER OR dj_ISXDIGIT,
     dj_ISALNUM OR dj_ISALPHA OR dj_ISGRAPH OR dj_ISPRINT OR dj_ISUPPER OR dj_ISXDIGIT,
     dj_ISALNUM OR dj_ISALPHA OR dj_ISGRAPH OR dj_ISPRINT OR dj_ISUPPER OR dj_ISXDIGIT,
     dj_ISALNUM OR dj_ISALPHA OR dj_ISGRAPH OR dj_ISPRINT OR dj_ISUPPER OR dj_ISXDIGIT,
     dj_ISALNUM OR dj_ISALPHA OR dj_ISGRAPH OR dj_ISPRINT OR dj_ISUPPER OR dj_ISXDIGIT,
     dj_ISALNUM OR dj_ISALPHA OR dj_ISGRAPH OR dj_ISPRINT OR dj_ISUPPER,
     dj_ISALNUM OR dj_ISALPHA OR dj_ISGRAPH OR dj_ISPRINT OR dj_ISUPPER,
     dj_ISALNUM OR dj_ISALPHA OR dj_ISGRAPH OR dj_ISPRINT OR dj_ISUPPER,
     dj_ISALNUM OR dj_ISALPHA OR dj_ISGRAPH OR dj_ISPRINT OR dj_ISUPPER,
     dj_ISALNUM OR dj_ISALPHA OR dj_ISGRAPH OR dj_ISPRINT OR dj_ISUPPER,
     dj_ISALNUM OR dj_ISALPHA OR dj_ISGRAPH OR dj_ISPRINT OR dj_ISUPPER,
     dj_ISALNUM OR dj_ISALPHA OR dj_ISGRAPH OR dj_ISPRINT OR dj_ISUPPER,
     dj_ISALNUM OR dj_ISALPHA OR dj_ISGRAPH OR dj_ISPRINT OR dj_ISUPPER,
     dj_ISALNUM OR dj_ISALPHA OR dj_ISGRAPH OR dj_ISPRINT OR dj_ISUPPER,
     dj_ISALNUM OR dj_ISALPHA OR dj_ISGRAPH OR dj_ISPRINT OR dj_ISUPPER,
     dj_ISALNUM OR dj_ISALPHA OR dj_ISGRAPH OR dj_ISPRINT OR dj_ISUPPER,
     dj_ISALNUM OR dj_ISALPHA OR dj_ISGRAPH OR dj_ISPRINT OR dj_ISUPPER,
     dj_ISALNUM OR dj_ISALPHA OR dj_ISGRAPH OR dj_ISPRINT OR dj_ISUPPER,
     dj_ISALNUM OR dj_ISALPHA OR dj_ISGRAPH OR dj_ISPRINT OR dj_ISUPPER,
     dj_ISALNUM OR dj_ISALPHA OR dj_ISGRAPH OR dj_ISPRINT OR dj_ISUPPER,
     dj_ISALNUM OR dj_ISALPHA OR dj_ISGRAPH OR dj_ISPRINT OR dj_ISUPPER,
     dj_ISALNUM OR dj_ISALPHA OR dj_ISGRAPH OR dj_ISPRINT OR dj_ISUPPER,
     dj_ISALNUM OR dj_ISALPHA OR dj_ISGRAPH OR dj_ISPRINT OR dj_ISUPPER,
     dj_ISALNUM OR dj_ISALPHA OR dj_ISGRAPH OR dj_ISPRINT OR dj_ISUPPER,
     dj_ISALNUM OR dj_ISALPHA OR dj_ISGRAPH OR dj_ISPRINT OR dj_ISUPPER,
     dj_ISGRAPH OR dj_ISPRINT OR dj_ISPUNCT,
     dj_ISGRAPH OR dj_ISPRINT OR dj_ISPUNCT,
     dj_ISGRAPH OR dj_ISPRINT OR dj_ISPUNCT,
     dj_ISGRAPH OR dj_ISPRINT OR dj_ISPUNCT,
     dj_ISGRAPH OR dj_ISPRINT OR dj_ISPUNCT,
     dj_ISGRAPH OR dj_ISPRINT OR dj_ISPUNCT,
     dj_ISALNUM OR dj_ISALPHA OR dj_ISGRAPH OR dj_ISLOWER OR dj_ISPRINT OR dj_ISXDIGIT,
     dj_ISALNUM OR dj_ISALPHA OR dj_ISGRAPH OR dj_ISLOWER OR dj_ISPRINT OR dj_ISXDIGIT,
     dj_ISALNUM OR dj_ISALPHA OR dj_ISGRAPH OR dj_ISLOWER OR dj_ISPRINT OR dj_ISXDIGIT,
     dj_ISALNUM OR dj_ISALPHA OR dj_ISGRAPH OR dj_ISLOWER OR dj_ISPRINT OR dj_ISXDIGIT,
     dj_ISALNUM OR dj_ISALPHA OR dj_ISGRAPH OR dj_ISLOWER OR dj_ISPRINT OR dj_ISXDIGIT,
     dj_ISALNUM OR dj_ISALPHA OR dj_ISGRAPH OR dj_ISLOWER OR dj_ISPRINT OR dj_ISXDIGIT,
     dj_ISALNUM OR dj_ISALPHA OR dj_ISGRAPH OR dj_ISLOWER OR dj_ISPRINT,
     dj_ISALNUM OR dj_ISALPHA OR dj_ISGRAPH OR dj_ISLOWER OR dj_ISPRINT,
     dj_ISALNUM OR dj_ISALPHA OR dj_ISGRAPH OR dj_ISLOWER OR dj_ISPRINT,
     dj_ISALNUM OR dj_ISALPHA OR dj_ISGRAPH OR dj_ISLOWER OR dj_ISPRINT,
     dj_ISALNUM OR dj_ISALPHA OR dj_ISGRAPH OR dj_ISLOWER OR dj_ISPRINT,
     dj_ISALNUM OR dj_ISALPHA OR dj_ISGRAPH OR dj_ISLOWER OR dj_ISPRINT,
     dj_ISALNUM OR dj_ISALPHA OR dj_ISGRAPH OR dj_ISLOWER OR dj_ISPRINT,
     dj_ISALNUM OR dj_ISALPHA OR dj_ISGRAPH OR dj_ISLOWER OR dj_ISPRINT,
     dj_ISALNUM OR dj_ISALPHA OR dj_ISGRAPH OR dj_ISLOWER OR dj_ISPRINT,
     dj_ISALNUM OR dj_ISALPHA OR dj_ISGRAPH OR dj_ISLOWER OR dj_ISPRINT,
     dj_ISALNUM OR dj_ISALPHA OR dj_ISGRAPH OR dj_ISLOWER OR dj_ISPRINT,
     dj_ISALNUM OR dj_ISALPHA OR dj_ISGRAPH OR dj_ISLOWER OR dj_ISPRINT,
     dj_ISALNUM OR dj_ISALPHA OR dj_ISGRAPH OR dj_ISLOWER OR dj_ISPRINT,
     dj_ISALNUM OR dj_ISALPHA OR dj_ISGRAPH OR dj_ISLOWER OR dj_ISPRINT,
     dj_ISALNUM OR dj_ISALPHA OR dj_ISGRAPH OR dj_ISLOWER OR dj_ISPRINT,
     dj_ISALNUM OR dj_ISALPHA OR dj_ISGRAPH OR dj_ISLOWER OR dj_ISPRINT,
     dj_ISALNUM OR dj_ISALPHA OR dj_ISGRAPH OR dj_ISLOWER OR dj_ISPRINT,
     dj_ISALNUM OR dj_ISALPHA OR dj_ISGRAPH OR dj_ISLOWER OR dj_ISPRINT,
     dj_ISALNUM OR dj_ISALPHA OR dj_ISGRAPH OR dj_ISLOWER OR dj_ISPRINT,
     dj_ISALNUM OR dj_ISALPHA OR dj_ISGRAPH OR dj_ISLOWER OR dj_ISPRINT,
     dj_ISGRAPH OR dj_ISPRINT OR dj_ISPUNCT,
     dj_ISGRAPH OR dj_ISPRINT OR dj_ISPUNCT,
     dj_ISGRAPH OR dj_ISPRINT OR dj_ISPUNCT,
     dj_ISGRAPH OR dj_ISPRINT OR dj_ISPUNCT,
     dj_ISCNTRL]"

definition dj_ctype_flags_hi :: "16 word list" where
  "dj_ctype_flags_hi = replicate 128 0"

definition dj_ctype_flags :: "16 word list" where
  "dj_ctype_flags = dj_ctype_flags_lo @ dj_ctype_flags_hi"

definition dj_ctype_toupper :: "byte list" where
  "dj_ctype_toupper = [
     0,
     0, 1, 2, 3, 4, 5, 6, 7, 8, 9, 10, 11, 12, 13, 14, 15,
     16, 17, 18, 19, 20, 21, 22, 23, 24, 25, 26, 27, 28, 29, 30, 31,
     32, 33, 34, 35, 36, 37, 38, 39, 40, 41, 42, 43, 44, 45, 46, 47,
     48, 49, 50, 51, 52, 53, 54, 55, 56, 57, 58, 59, 60, 61, 62, 63,
     64, 65, 66, 67, 68, 69, 70, 71, 72, 73, 74, 75, 76, 77, 78, 79,
     80, 81, 82, 83, 84, 85, 86, 87, 88, 89, 90, 91, 92, 93, 94, 95,
     96, 65, 66, 67, 68, 69, 70, 71, 72, 73, 74, 75, 76, 77, 78, 79,
     80, 81, 82, 83, 84, 85, 86, 87, 88, 89, 90, 123, 124, 125, 126, 127,
     128, 129, 130, 131, 132, 133, 134, 135, 136, 137, 138, 139, 140, 141, 142, 143,
     144, 145, 146, 147, 148, 149, 150, 151, 152, 153, 154, 155, 156, 157, 158, 159,
     160, 161, 162, 163, 164, 165, 166, 167, 168, 169, 170, 171, 172, 173, 174, 175,
     176, 177, 178, 179, 180, 181, 182, 183, 184, 185, 186, 187, 188, 189, 190, 191,
     192, 193, 194, 195, 196, 197, 198, 199, 200, 201, 202, 203, 204, 205, 206, 207,
     208, 209, 210, 211, 212, 213, 214, 215, 216, 217, 218, 219, 220, 221, 222, 223,
     224, 225, 226, 227, 228, 229, 230, 231, 232, 233, 234, 235, 236, 237, 238, 239,
     240, 241, 242, 243, 244, 245, 246, 247, 248, 249, 250, 251, 252, 253, 254, 255]"

definition dj_ctype_tolower :: "byte list" where
  "dj_ctype_tolower = [
     0,
     0, 1, 2, 3, 4, 5, 6, 7, 8, 9, 10, 11, 12, 13, 14, 15,
     16, 17, 18, 19, 20, 21, 22, 23, 24, 25, 26, 27, 28, 29, 30, 31,
     32, 33, 34, 35, 36, 37, 38, 39, 40, 41, 42, 43, 44, 45, 46, 47,
     48, 49, 50, 51, 52, 53, 54, 55, 56, 57, 58, 59, 60, 61, 62, 63,
     64, 97, 98, 99, 100, 101, 102, 103, 104, 105, 106, 107, 108, 109, 110, 111,
     112, 113, 114, 115, 116, 117, 118, 119, 120, 121, 122, 91, 92, 93, 94, 95,
     96, 97, 98, 99, 100, 101, 102, 103, 104, 105, 106, 107, 108, 109, 110, 111,
     112, 113, 114, 115, 116, 117, 118, 119, 120, 121, 122, 123, 124, 125, 126, 127,
     128, 129, 130, 131, 132, 133, 134, 135, 136, 137, 138, 139, 140, 141, 142, 143,
     144, 145, 146, 147, 148, 149, 150, 151, 152, 153, 154, 155, 156, 157, 158, 159,
     160, 161, 162, 163, 164, 165, 166, 167, 168, 169, 170, 171, 172, 173, 174, 175,
     176, 177, 178, 179, 180, 181, 182, 183, 184, 185, 186, 187, 188, 189, 190, 191,
     192, 193, 194, 195, 196, 197, 198, 199, 200, 201, 202, 203, 204, 205, 206, 207,
     208, 209, 210, 211, 212, 213, 214, 215, 216, 217, 218, 219, 220, 221, 222, 223,
     224, 225, 226, 227, 228, 229, 230, 231, 232, 233, 234, 235, 236, 237, 238, 239,
     240, 241, 242, 243, 244, 245, 246, 247, 248, 249, 250, 251, 252, 253, 254, 255]"

section \<open>Classification\<close>

text \<open>\<^verbatim>\<open>__dj_ctype_flags[(int)(c)+1] & mask\<close>, the expression behind every classification macro.\<close>

definition ctype_test :: "16 word \<Rightarrow> int \<Rightarrow> int option" where
  "ctype_test fl c =
     (if -1 \<le> c \<and> c \<le> 255 then Some (uint (dj_ctype_flags ! nat (c + 1) AND fl)) else None)"

definition isalnum :: "int \<Rightarrow> int option" where "isalnum c = ctype_test dj_ISALNUM c"
definition isalpha :: "int \<Rightarrow> int option" where "isalpha c = ctype_test dj_ISALPHA c"
definition iscntrl :: "int \<Rightarrow> int option" where "iscntrl c = ctype_test dj_ISCNTRL c"
definition isdigit :: "int \<Rightarrow> int option" where "isdigit c = ctype_test dj_ISDIGIT c"
definition isgraph :: "int \<Rightarrow> int option" where "isgraph c = ctype_test dj_ISGRAPH c"
definition islower :: "int \<Rightarrow> int option" where "islower c = ctype_test dj_ISLOWER c"
definition isprint :: "int \<Rightarrow> int option" where "isprint c = ctype_test dj_ISPRINT c"
definition ispunct :: "int \<Rightarrow> int option" where "ispunct c = ctype_test dj_ISPUNCT c"
definition isspace :: "int \<Rightarrow> int option" where "isspace c = ctype_test dj_ISSPACE c"
definition isupper :: "int \<Rightarrow> int option" where "isupper c = ctype_test dj_ISUPPER c"
definition isxdigit :: "int \<Rightarrow> int option" where "isxdigit c = ctype_test dj_ISXDIGIT c"
definition isblank :: "int \<Rightarrow> int option" where "isblank c = ctype_test dj_ISBLANK c"

definition toupper :: "int \<Rightarrow> int option" where
  "toupper c = (if -1 \<le> c \<and> c \<le> 255 then Some (uint (dj_ctype_toupper ! nat (c + 1))) else None)"

definition tolower :: "int \<Rightarrow> int option" where
  "tolower c = (if -1 \<le> c \<and> c \<le> 255 then Some (uint (dj_ctype_tolower ! nat (c + 1))) else None)"

text \<open>\<^verbatim>\<open>(!((c)&(~0x7f)))\<close> and \<^verbatim>\<open>((c)&0x7f)\<close>.\<close>

definition isascii :: "int \<Rightarrow> int" where
  "isascii c = (if c AND NOT 0x7f = 0 then 1 else 0)"

definition toascii :: "int \<Rightarrow> int" where
  "toascii c = c AND 0x7f"

text \<open>What a caller reads off a classification result: the C truth value of the returned \<^verbatim>\<open>int\<close>.\<close>

definition ctrue :: "int option \<Rightarrow> bool" where
  "ctrue r = (case r of Some v \<Rightarrow> v \<noteq> 0 | None \<Rightarrow> False)"

text \<open>Case conversion of a \<^verbatim>\<open>char\<close> as the string routines use it: \<^verbatim>\<open>tolower((unsigned char)*s)\<close>.\<close>

definition tolower_byte :: "byte \<Rightarrow> byte" where
  "tolower_byte b = dj_ctype_tolower ! (unat b + 1)"

definition toupper_byte :: "byte \<Rightarrow> byte" where
  "toupper_byte b = dj_ctype_toupper ! (unat b + 1)"

section \<open>What the tables say\<close>

lemma forall_char_range:
  assumes "list_all P [-1..255]" "-1 \<le> c" "c \<le> 255"
  shows "P c"
  using assms by (auto simp: list_all_iff)

text \<open>The flags of a character, as one number computed from the ranges of ASCII.\<close>

definition flag_class :: "int \<Rightarrow> int" where
  "flag_class c =
     (if c < 0 then 0
      else if c = 9 then 4 + 256 + 2048
      else if 10 \<le> c \<and> c \<le> 13 then 4 + 256
      else if c < 32 then 4
      else if c = 32 then 64 + 256 + 2048
      else if 48 \<le> c \<and> c \<le> 57 then 1 + 8 + 16 + 64 + 1024
      else if 65 \<le> c \<and> c \<le> 70 then 1 + 2 + 16 + 64 + 512 + 1024
      else if 71 \<le> c \<and> c \<le> 90 then 1 + 2 + 16 + 64 + 512
      else if 97 \<le> c \<and> c \<le> 102 then 1 + 2 + 16 + 32 + 64 + 1024
      else if 103 \<le> c \<and> c \<le> 122 then 1 + 2 + 16 + 32 + 64
      else if c < 127 then 16 + 64 + 128
      else if c = 127 then 4
      else 0)"

lemma flags_table:
  "list_all (\<lambda>c. uint (dj_ctype_flags ! nat (c + 1)) = flag_class c) [-1..255]"
  by code_simp

lemma ctrue_test:
  assumes "-1 \<le> c" "c \<le> 255"
  shows "ctrue (ctype_test fl c) \<longleftrightarrow> flag_class c AND uint fl \<noteq> 0"
  using forall_char_range [OF flags_table assms] assms
  by (simp add: ctrue_def ctype_test_def uint_and)

lemmas is_defs = isalnum_def isalpha_def iscntrl_def isdigit_def isgraph_def islower_def
  isprint_def ispunct_def isspace_def isupper_def isxdigit_def isblank_def

definition is_char :: "int \<Rightarrow> bool" where
  "is_char c \<longleftrightarrow> -1 \<le> c \<and> c \<le> 255"

lemma ctrue_is_test:
  "is_char c \<Longrightarrow> ctrue (ctype_test fl c) \<longleftrightarrow> flag_class c AND uint fl \<noteq> 0"
  by (simp add: is_char_def ctrue_test)

lemmas class_defs = is_defs ctrue_is_test flag_class_def dj_IS_defs

lemma isupper_iff: "is_char c \<Longrightarrow> ctrue (isupper c) \<longleftrightarrow> 65 \<le> c \<and> c \<le> 90"
  by (auto simp: class_defs split: if_splits)

lemma islower_iff: "is_char c \<Longrightarrow> ctrue (islower c) \<longleftrightarrow> 97 \<le> c \<and> c \<le> 122"
  by (auto simp: class_defs split: if_splits)

lemma isdigit_iff: "is_char c \<Longrightarrow> ctrue (isdigit c) \<longleftrightarrow> 48 \<le> c \<and> c \<le> 57"
  by (auto simp: class_defs split: if_splits)

lemma isxdigit_iff: "is_char c \<Longrightarrow> ctrue (isxdigit c) \<longleftrightarrow> 48 \<le> c \<and> c \<le> 57 \<or> 65 \<le> c \<and> c \<le> 70 \<or> 97 \<le> c \<and> c \<le> 102"
  by (auto simp: class_defs split: if_splits)

lemma isspace_iff: "is_char c \<Longrightarrow> ctrue (isspace c) \<longleftrightarrow> 9 \<le> c \<and> c \<le> 13 \<or> c = 32"
  by (auto simp: class_defs split: if_splits)

lemma isblank_iff: "is_char c \<Longrightarrow> ctrue (isblank c) \<longleftrightarrow> c = 9 \<or> c = 32"
  by (auto simp: class_defs split: if_splits)

lemma iscntrl_iff: "is_char c \<Longrightarrow> ctrue (iscntrl c) \<longleftrightarrow> 0 \<le> c \<and> c \<le> 31 \<or> c = 127"
  by (auto simp: class_defs split: if_splits)

lemma isprint_iff: "is_char c \<Longrightarrow> ctrue (isprint c) \<longleftrightarrow> 32 \<le> c \<and> c \<le> 126"
  by (auto simp: class_defs split: if_splits)

lemma isalpha_iff: "is_char c \<Longrightarrow> ctrue (isalpha c) \<longleftrightarrow> 65 \<le> c \<and> c \<le> 90 \<or> 97 \<le> c \<and> c \<le> 122"
  by (auto simp: class_defs split: if_splits)

lemma isalnum_iff: "is_char c \<Longrightarrow> ctrue (isalnum c) \<longleftrightarrow> 48 \<le> c \<and> c \<le> 57 \<or> 65 \<le> c \<and> c \<le> 90 \<or> 97 \<le> c \<and> c \<le> 122"
  by (auto simp: class_defs split: if_splits)

lemma isgraph_iff: "is_char c \<Longrightarrow> ctrue (isgraph c) \<longleftrightarrow> 33 \<le> c \<and> c \<le> 126"
  by (auto simp: class_defs split: if_splits)

lemma ispunct_iff: "is_char c \<Longrightarrow> ctrue (ispunct c) \<longleftrightarrow> 33 \<le> c \<and> c \<le> 47 \<or> 58 \<le> c \<and> c \<le> 64 \<or> 91 \<le> c \<and> c \<le> 96
      \<or> 123 \<le> c \<and> c \<le> 126"
  by (auto simp: class_defs split: if_splits)

lemmas is_iffs = isupper_iff islower_iff isdigit_iff isxdigit_iff isspace_iff isblank_iff iscntrl_iff isprint_iff isalpha_iff isalnum_iff isgraph_iff ispunct_iff

lemma ctype_case_tables:
  "list_all (\<lambda>c. toupper c = Some (if 97 \<le> c \<and> c \<le> 122 then c - 32 else if c < 0 then 0 else c)
     \<and> tolower c = Some (if 65 \<le> c \<and> c \<le> 90 then c + 32 else if c < 0 then 0 else c)) [-1..255]"
  by code_simp

lemma uint_byte_range: "0 \<le> uint (b :: byte)" "uint b < 256"
  using uint_range_size [of b] by (simp_all add: word_size)

lemma uint_tolower_byte:
  "uint (tolower_byte b) = (if 65 \<le> uint b \<and> uint b \<le> 90 then uint b + 32 else uint b)"
  using forall_char_range [OF ctype_case_tables, of "uint b"] uint_byte_range [of b]
  by (simp add: tolower_def tolower_byte_def nat_add_distrib split: if_splits)

lemma uint_toupper_byte:
  "uint (toupper_byte b) = (if 97 \<le> uint b \<and> uint b \<le> 122 then uint b - 32 else uint b)"
  using forall_char_range [OF ctype_case_tables, of "uint b"] uint_byte_range [of b]
  by (simp add: toupper_def toupper_byte_def nat_add_distrib split: if_splits)

lemmas uint_case_byte = word_uint_eq_iff uint_tolower_byte uint_toupper_byte

lemma tolower_byte_0 [simp]: "tolower_byte b = 0 \<longleftrightarrow> b = 0"
  by (auto simp: uint_case_byte)

lemma toupper_byte_0 [simp]: "toupper_byte b = 0 \<longleftrightarrow> b = 0"
  by (auto simp: uint_case_byte)

lemma tolower_byte_idem [simp]: "tolower_byte (tolower_byte b) = tolower_byte b"
  by (auto simp: uint_case_byte)

lemma toupper_tolower_byte [simp]: "toupper_byte (tolower_byte b) = toupper_byte b"
  by (auto simp: uint_case_byte)

section \<open>Properties\<close>

text \<open>
  C25. On every value of an \<^verbatim>\<open>unsigned char\<close> and on \<^verbatim>\<open>EOF\<close>, each of the twelve classification macros is true exactly on
  the characters of its class in the C locale with ASCII: letters, digits, white space and control characters by their
  codes; printing characters are those from 0x20 to 0x7e, graphic ones from 0x21 to 0x7e, and punctuation the graphic
  ones that are neither letters nor digits. \<^verbatim>\<open>EOF\<close> and the codes above 0x7f are in no class.
\<close>

theorem ctype_classes:
  assumes "-1 \<le> c" "c \<le> 255"
  shows "(ctrue (isupper c) \<longleftrightarrow> 0x41 \<le> c \<and> c \<le> 0x5a) \<and> (ctrue (islower c) \<longleftrightarrow> 0x61 \<le> c \<and> c \<le> 0x7a)
    \<and> (ctrue (isalpha c) \<longleftrightarrow> 0x41 \<le> c \<and> c \<le> 0x5a \<or> 0x61 \<le> c \<and> c \<le> 0x7a)
    \<and> (ctrue (isdigit c) \<longleftrightarrow> 0x30 \<le> c \<and> c \<le> 0x39)
    \<and> (ctrue (isxdigit c) \<longleftrightarrow> 0x30 \<le> c \<and> c \<le> 0x39 \<or> 0x41 \<le> c \<and> c \<le> 0x46 \<or> 0x61 \<le> c \<and> c \<le> 0x66)
    \<and> (ctrue (isalnum c) \<longleftrightarrow> 0x30 \<le> c \<and> c \<le> 0x39 \<or> 0x41 \<le> c \<and> c \<le> 0x5a \<or> 0x61 \<le> c \<and> c \<le> 0x7a)
    \<and> (ctrue (isspace c) \<longleftrightarrow> 9 \<le> c \<and> c \<le> 13 \<or> c = 0x20) \<and> (ctrue (isblank c) \<longleftrightarrow> c = 9 \<or> c = 0x20)
    \<and> (ctrue (iscntrl c) \<longleftrightarrow> 0 \<le> c \<and> c \<le> 0x1f \<or> c = 0x7f)
    \<and> (ctrue (isprint c) \<longleftrightarrow> 0x20 \<le> c \<and> c \<le> 0x7e) \<and> (ctrue (isgraph c) \<longleftrightarrow> 0x21 \<le> c \<and> c \<le> 0x7e)
    \<and> (ctrue (ispunct c) \<longleftrightarrow> 0x21 \<le> c \<and> c \<le> 0x2f \<or> 0x3a \<le> c \<and> c \<le> 0x40 \<or> 0x5b \<le> c \<and> c \<le> 0x60 \<or> 0x7b \<le> c \<and> c \<le> 0x7e)"
proof -
  have c: "is_char c" using assms by (simp add: is_char_def)
  show ?thesis by (simp add: is_iffs [OF c])
qed

theorem ctype_classes_witness:
  "ctrue (isxdigit 0x46) \<and> ctrue (isalpha 0x46) \<and> \<not> ctrue (isspace 0x46)"
  using ctype_classes [of "0x46"] by simp

text \<open>
  Case conversion on the whole domain of the tables: only the 26 letters change, each by 32;
  converting to the other case and back gives what one conversion gives; a value that is not a
  character (outside \<^verbatim>\<open>-1..255\<close>) reads outside the table, and \<^verbatim>\<open>EOF\<close> itself is mapped to 0.
\<close>

theorem ctype_case_conversion:
  "toupper c = (if c < -1 \<or> 255 < c then None
                else Some (if ctrue (islower c) then c - 32 else max 0 c))
   \<and> tolower c = (if c < -1 \<or> 255 < c then None
                else Some (if ctrue (isupper c) then c + 32 else max 0 c))
   \<and> Option.bind (tolower c) toupper = toupper c \<and> Option.bind (toupper c) tolower = tolower c"
proof (cases "c < -1 \<or> 255 < c")
  case True
  then show ?thesis by (auto simp: toupper_def tolower_def)
next
  case False
  have up: "toupper d = Some (if 97 \<le> d \<and> d \<le> 122 then d - 32 else max 0 d)"
    and low: "tolower d = Some (if 65 \<le> d \<and> d \<le> 90 then d + 32 else max 0 d)"
    if "-1 \<le> d" "d \<le> 255" for d
    using forall_char_range [OF ctype_case_tables that] by auto
  show ?thesis
    using False by (simp add: up low islower_iff isupper_iff is_char_def) linarith
qed

end
