(* ===== verification/Cstring.thy ===== *)
theory Cstring
  imports Ctype
begin

text \<open>
  The string and memory routines that only read: \<^verbatim>\<open>strlen\<close>, the comparisons, the searches and
  the spans of \<^verbatim>\<open>src/src/libc/ansi/string\<close>, \<^verbatim>\<open>compat/string\<close>, \<^verbatim>\<open>posix/string\<close> and \<^verbatim>\<open>compat/bsd\<close>.
  Each loop of the source is a recursive function over the byte memory of theory \<^verbatim>\<open>Prelude\<close>; a pointer
  that runs off the memory makes the routine fault (\<^term>\<open>None\<close>). A routine that returns a pointer
  returns \<^term>\<open>Some 0\<close> where the source returns the null pointer.
\<close>

lemma rd_less: "rd m p = Some b \<Longrightarrow> p < length m"
  by (simp add: rd_Some_iff)

section \<open>Length\<close>

function strlen_loop :: "mem \<Rightarrow> addr \<Rightarrow> addr option" where
  "strlen_loop m s = do { c \<leftarrow> rd m s; if c = 0 then Some s else strlen_loop m (s + 1) }"
  by pat_completeness auto
termination
  by (relation "measure (\<lambda>(m, s). length m - s)") (auto dest: rd_less)

definition strlen :: "mem \<Rightarrow> addr \<Rightarrow> nat option" where
  "strlen m str = (if str = NULL then Some 0 else do { s \<leftarrow> strlen_loop m str; Some (s - str) })"

text \<open>\<^verbatim>\<open>for (i = 1; _str[i] && i < _n; i++);\<close>: the byte is read before the bound is tested.\<close>

function strnlen_loop :: "mem \<Rightarrow> addr \<Rightarrow> nat \<Rightarrow> nat \<Rightarrow> nat option" where
  "strnlen_loop m s n i =
     do { c \<leftarrow> rd m (s + i); if c \<noteq> 0 \<and> i < n then strnlen_loop m s n (i + 1) else Some i }"
  by pat_completeness auto
termination
  by (relation "measure (\<lambda>(m, s, n, i). n - i)") auto

definition strnlen :: "mem \<Rightarrow> addr \<Rightarrow> nat \<Rightarrow> nat option" where
  "strnlen m s n =
     (if s = NULL then Some 0
      else do { c \<leftarrow> rd m s; if c = 0 \<or> n = 0 then Some 0 else strnlen_loop m s n 1 })"

section \<open>Comparison\<close>

function strcmp :: "mem \<Rightarrow> addr \<Rightarrow> addr \<Rightarrow> int option" where
  "strcmp m s1 s2 =
     do { a \<leftarrow> rd m s1; b \<leftarrow> rd m s2;
          if a = b then (if a = 0 then Some 0 else strcmp m (s1 + 1) (s2 + 1))
          else Some (uint a - uint b) }"
  by pat_completeness auto
termination
  by (relation "measure (\<lambda>(m, s1, s2). length m - s1)") (auto dest: rd_less)

function stricmp :: "mem \<Rightarrow> addr \<Rightarrow> addr \<Rightarrow> int option" where
  "stricmp m s1 s2 =
     do { a \<leftarrow> rd m s1; b \<leftarrow> rd m s2;
          if tolower_byte a = tolower_byte b
          then (if a = 0 then Some 0 else stricmp m (s1 + 1) (s2 + 1))
          else Some (uint (tolower_byte a) - uint (tolower_byte b)) }"
  by pat_completeness auto
termination
  by (relation "measure (\<lambda>(m, s1, s2). length m - s1)") (auto dest: rd_less)

definition dj_collate_table :: "byte list" where
  "dj_collate_table = [
     0, 1, 2, 3, 4, 5, 6, 7, 8, 9, 10, 11, 12, 13, 14, 15,
     16, 17, 18, 19, 20, 21, 22, 23, 24, 25, 26, 27, 28, 29, 30, 31,
     32, 33, 34, 35, 36, 37, 38, 39, 40, 41, 42, 43, 44, 45, 46, 47,
     48, 49, 50, 51, 52, 53, 54, 55, 56, 57, 58, 59, 60, 61, 62, 63,
     64, 65, 66, 67, 68, 69, 70, 71, 72, 73, 74, 75, 76, 77, 78, 79,
     80, 81, 82, 83, 84, 85, 86, 87, 88, 89, 90, 91, 92, 93, 94, 95,
     96, 97, 98, 99, 100, 101, 102, 103, 104, 105, 106, 107, 108, 109, 110, 111,
     112, 113, 114, 115, 116, 117, 118, 119, 120, 121, 122, 123, 124, 125, 126, 127,
     128, 129, 130, 131, 132, 133, 134, 135, 136, 137, 138, 139, 140, 141, 142, 143,
     144, 145, 146, 147, 148, 149, 150, 151, 152, 153, 154, 155, 156, 157, 158, 159,
     160, 161, 162, 163, 164, 165, 166, 167, 168, 169, 170, 171, 172, 173, 174, 175,
     176, 177, 178, 179, 180, 181, 182, 183, 184, 185, 186, 187, 188, 189, 190, 191,
     192, 193, 194, 195, 196, 197, 198, 199, 200, 201, 202, 203, 204, 205, 206, 207,
     208, 209, 210, 211, 212, 213, 214, 215, 216, 217, 218, 219, 220, 221, 222, 223,
     224, 225, 226, 227, 228, 229, 230, 231, 232, 233, 234, 235, 236, 237, 238, 239,
     240, 241, 242, 243, 244, 245, 246, 247, 248, 249, 250, 251, 252, 253, 254, 255]"

definition coll :: "byte \<Rightarrow> byte" where
  "coll c = dj_collate_table ! unat c"

function strcoll :: "mem \<Rightarrow> addr \<Rightarrow> addr \<Rightarrow> int option" where
  "strcoll m s1 s2 =
     do { a \<leftarrow> rd m s1; b \<leftarrow> rd m s2;
          if coll a = coll b then (if a = 0 then Some 0 else strcoll m (s1 + 1) (s2 + 1))
          else Some (uint (coll a) - uint (coll b)) }"
  by pat_completeness auto
termination
  by (relation "measure (\<lambda>(m, s1, s2). length m - s1)") (auto dest: rd_less)

fun strncmp :: "mem \<Rightarrow> addr \<Rightarrow> addr \<Rightarrow> nat \<Rightarrow> int option" where
  "strncmp m s1 s2 0 = Some 0"
| "strncmp m s1 s2 (Suc n) =
     do { a \<leftarrow> rd m s1; b \<leftarrow> rd m s2;
          if a \<noteq> b then Some (uint a - uint b)
          else if a = 0 then Some 0 else strncmp m (s1 + 1) (s2 + 1) n }"

fun strnicmp :: "mem \<Rightarrow> addr \<Rightarrow> addr \<Rightarrow> nat \<Rightarrow> int option" where
  "strnicmp m s1 s2 0 = Some 0"
| "strnicmp m s1 s2 (Suc n) =
     do { a \<leftarrow> rd m s1; b \<leftarrow> rd m s2;
          if tolower_byte a \<noteq> tolower_byte b
          then Some (uint (tolower_byte a) - uint (tolower_byte b))
          else if a = 0 then Some 0 else strnicmp m (s1 + 1) (s2 + 1) n }"

fun memcmp :: "mem \<Rightarrow> addr \<Rightarrow> addr \<Rightarrow> nat \<Rightarrow> int option" where
  "memcmp m p1 p2 0 = Some 0"
| "memcmp m p1 p2 (Suc n) =
     do { a \<leftarrow> rd m p1; b \<leftarrow> rd m p2;
          if a \<noteq> b then Some (uint a - uint b) else memcmp m (p1 + 1) (p2 + 1) n }"

fun memicmp :: "mem \<Rightarrow> addr \<Rightarrow> addr \<Rightarrow> nat \<Rightarrow> int option" where
  "memicmp m p1 p2 0 = Some 0"
| "memicmp m p1 p2 (Suc n) =
     do { a \<leftarrow> rd m p1; b \<leftarrow> rd m p2;
          let c = uint (toupper_byte a) - uint (toupper_byte b) in
          if a \<noteq> b \<and> c \<noteq> 0 then Some c else memicmp m (p1 + 1) (p2 + 1) n }"

text \<open>\<^verbatim>\<open>bcmp\<close> returns the number of bytes left to compare, converted from \<^verbatim>\<open>size_t\<close> to \<^verbatim>\<open>int\<close>.\<close>

fun bcmp_loop :: "mem \<Rightarrow> addr \<Rightarrow> addr \<Rightarrow> nat \<Rightarrow> int option" where
  "bcmp_loop m p1 p2 0 = Some 0"
| "bcmp_loop m p1 p2 (Suc n) =
     do { a \<leftarrow> rd m p1; b \<leftarrow> rd m p2;
          if a \<noteq> b then Some (sint (of_nat (Suc n) :: 32 word)) else bcmp_loop m (p1 + 1) (p2 + 1) n }"

definition bcmp :: "mem \<Rightarrow> addr \<Rightarrow> addr \<Rightarrow> nat \<Rightarrow> int option" where
  "bcmp m p1 p2 len =
     (if p1 = p2 then Some 0 else if p1 = NULL \<or> p2 = NULL then Some (-1) else bcmp_loop m p1 p2 len)"

section \<open>Searching for a byte\<close>

text \<open>\<^verbatim>\<open>char cc = c\<close> keeps the low eight bits of the argument.\<close>

definition char_of_int :: "int \<Rightarrow> byte" where
  "char_of_int c = word_of_int c"

fun memchr_loop :: "mem \<Rightarrow> addr \<Rightarrow> byte \<Rightarrow> nat \<Rightarrow> addr option" where
  "memchr_loop m p cc 0 = Some NULL"
| "memchr_loop m p cc (Suc n) =
     do { b \<leftarrow> rd m p; if b = cc then Some p else memchr_loop m (p + 1) cc n }"

definition memchr :: "mem \<Rightarrow> addr \<Rightarrow> int \<Rightarrow> nat \<Rightarrow> addr option" where
  "memchr m s c n = memchr_loop m s (char_of_int c) n"

function strchr_loop :: "mem \<Rightarrow> addr \<Rightarrow> byte \<Rightarrow> addr option" where
  "strchr_loop m s cc =
     do { b \<leftarrow> rd m s;
          if b \<noteq> 0 then (if b = cc then Some s else strchr_loop m (s + 1) cc)
          else if cc = 0 then Some s else Some NULL }"
  by pat_completeness auto
termination
  by (relation "measure (\<lambda>(m, s, cc). length m - s)") (auto dest: rd_less)

definition strchr :: "mem \<Rightarrow> addr \<Rightarrow> int \<Rightarrow> addr option" where
  "strchr m s c = strchr_loop m s (char_of_int c)"

function strrchr_loop :: "mem \<Rightarrow> addr \<Rightarrow> byte \<Rightarrow> addr \<Rightarrow> addr option" where
  "strrchr_loop m s cc sp =
     do { b \<leftarrow> rd m s;
          if b \<noteq> 0 then strrchr_loop m (s + 1) cc (if b = cc then s else sp)
          else if cc = 0 then Some s else Some sp }"
  by pat_completeness auto
termination
  by (relation "measure (\<lambda>(m, s, cc, sp). length m - s)") (auto dest: rd_less)

definition strrchr :: "mem \<Rightarrow> addr \<Rightarrow> int \<Rightarrow> addr option" where
  "strrchr m s c = strrchr_loop m s (char_of_int c) NULL"

section \<open>Spans\<close>

text \<open>
  The two inner loops over the set of bytes. \<open>span_in\<close> is \<^verbatim>\<open>for (; (sc = *spanp++) != 0;) if (sc == c)\<close>:
  the NUL that ends the set is not a member. \<open>span_to\<close> is the \<^verbatim>\<open>do { if ((sc = *spanp++) == c) }
  while (sc != 0)\<close> form, which also matches that NUL.
\<close>

function span_in :: "mem \<Rightarrow> byte \<Rightarrow> addr \<Rightarrow> bool option" where
  "span_in m c spanp =
     do { sc \<leftarrow> rd m spanp;
          if sc = 0 then Some False else if sc = c then Some True else span_in m c (spanp + 1) }"
  by pat_completeness auto
termination
  by (relation "measure (\<lambda>(m, c, spanp). length m - spanp)") (auto dest: rd_less)

function span_to :: "mem \<Rightarrow> byte \<Rightarrow> addr \<Rightarrow> bool option" where
  "span_to m c spanp =
     do { sc \<leftarrow> rd m spanp;
          if sc = c then Some True else if sc = 0 then Some False else span_to m c (spanp + 1) }"
  by pat_completeness auto
termination
  by (relation "measure (\<lambda>(m, c, spanp). length m - spanp)") (auto dest: rd_less)

function strspn_loop :: "mem \<Rightarrow> addr \<Rightarrow> addr \<Rightarrow> addr option" where
  "strspn_loop m p s2 =
     do { c \<leftarrow> rd m p; found \<leftarrow> span_in m c s2;
          if found then strspn_loop m (p + 1) s2 else Some p }"
  by pat_completeness auto
termination
  by (relation "measure (\<lambda>(m, p, s2). length m - p)") (auto dest: rd_less)

definition strspn :: "mem \<Rightarrow> addr \<Rightarrow> addr \<Rightarrow> nat option" where
  "strspn m s1 s2 = do { p \<leftarrow> strspn_loop m s1 s2; Some (p - s1) }"

function strcspn_loop :: "mem \<Rightarrow> addr \<Rightarrow> addr \<Rightarrow> addr option" where
  "strcspn_loop m p s2 =
     do { c \<leftarrow> rd m p; found \<leftarrow> span_to m c s2;
          if found then Some p else strcspn_loop m (p + 1) s2 }"
  by pat_completeness auto
termination
  by (relation "measure (\<lambda>(m, p, s2). length m - p)") (auto dest: rd_less)

definition strcspn :: "mem \<Rightarrow> addr \<Rightarrow> addr \<Rightarrow> nat option" where
  "strcspn m s1 s2 = do { p \<leftarrow> strcspn_loop m s1 s2; Some (p - s1) }"

function strpbrk :: "mem \<Rightarrow> addr \<Rightarrow> addr \<Rightarrow> addr option" where
  "strpbrk m s1 s2 =
     do { c \<leftarrow> rd m s1;
          if c = 0 then Some NULL
          else do { found \<leftarrow> span_in m c s2; if found then Some s1 else strpbrk m (s1 + 1) s2 } }"
  by pat_completeness auto
termination
  by (relation "measure (\<lambda>(m, s1, s2). length m - s1)") (auto dest: rd_less)

section \<open>Substring search\<close>

text \<open>
  The two nested \<^verbatim>\<open>do\<close> loops of \<^verbatim>\<open>strstr\<close>: \<open>s\<close> advances past every byte, and at a byte equal to the
  first one of the pattern the rest of the pattern is compared by \<^verbatim>\<open>strncmp\<close>.
\<close>

function strstr_loop :: "mem \<Rightarrow> addr \<Rightarrow> byte \<Rightarrow> addr \<Rightarrow> nat \<Rightarrow> addr option" where
  "strstr_loop m s c fnd len =
     do { sc \<leftarrow> rd m s;
          if sc = 0 then Some NULL
          else if sc \<noteq> c then strstr_loop m (s + 1) c fnd len
          else do { r \<leftarrow> strncmp m (s + 1) fnd len;
                    if r \<noteq> 0 then strstr_loop m (s + 1) c fnd len else Some s } }"
  by pat_completeness auto
termination
  by (relation "measure (\<lambda>(m, s, c, fnd, len). length m - s)") (auto dest: rd_less)

definition strstr :: "mem \<Rightarrow> addr \<Rightarrow> addr \<Rightarrow> addr option" where
  "strstr m s fnd =
     do { c \<leftarrow> rd m fnd;
          if c = 0 then Some s
          else do { len \<leftarrow> strlen m (fnd + 1); strstr_loop m s c (fnd + 1) len } }"

declare strlen_loop.simps [simp del] strnlen_loop.simps [simp del] strcmp.simps [simp del]
  stricmp.simps [simp del] strcoll.simps [simp del] strchr_loop.simps [simp del]
  strrchr_loop.simps [simp del] span_in.simps [simp del] span_to.simps [simp del]
  strspn_loop.simps [simp del] strcspn_loop.simps [simp del] strpbrk.simps [simp del]
  strstr_loop.simps [simp del]


section \<open>Lengths of strings\<close>

lemma strlen_loop_cstr: "cstr m p s \<Longrightarrow> strlen_loop m p = Some (p + length s)"
proof (induction s arbitrary: p)
  case Nil
  then show ?case by (simp add: strlen_loop.simps)
next
  case (Cons c s)
  then show ?case by (simp add: strlen_loop.simps [of m p])
qed

lemma strlen_cstr: "cstr m p s \<Longrightarrow> strlen m p = Some (length s)"
  using cstr_positive [of m p s] by (simp add: strlen_def strlen_loop_cstr)

lemma strlen_loop_Some: "strlen_loop m p = Some q \<Longrightarrow> \<exists>s. cstr m p s \<and> q = p + length s"
proof (induction m p rule: strlen_loop.induct)
  case (1 m p)
  show ?case
  proof (cases "rd m p")
    case None
    with 1 show ?thesis by (simp add: strlen_loop.simps [of m p])
  next
    case (Some c)
    show ?thesis
    proof (cases "c = 0")
      case True
      with 1 Some have "cstr m p [] \<and> q = p + length ([] :: byte list)"
        by (simp add: strlen_loop.simps [of m p])
      then show ?thesis by blast
    next
      case False
      with 1 Some obtain s where "cstr m (p + 1) s \<and> q = p + 1 + length s"
        by (auto simp: strlen_loop.simps [of m p])
      with Some False have "cstr m p (c # s) \<and> q = p + length (c # s)" by simp
      then show ?thesis by blast
    qed
  qed
qed

section \<open>The comparison contract\<close>

text \<open>
  \<open>strcmp\<close>, \<open>stricmp\<close> and \<open>strcoll\<close> are one loop over a translation of the bytes: they stop at the first
  pair of bytes whose translations differ, or at a common NUL. What a comparison returns is stated
  once, over the translation, and holds for each of them by interpretation.
\<close>

fun first_diff :: "byte list \<Rightarrow> byte list \<Rightarrow> int" where
  "first_diff [] [] = 0"
| "first_diff [] (b # t) = - uint b"
| "first_diff (a # s) [] = uint a"
| "first_diff (a # s) (b # t) = (if a = b then first_diff s t else uint a - uint b)"

lemma first_diff_0: "0 \<notin> set s \<Longrightarrow> 0 \<notin> set t \<Longrightarrow> first_diff s t = 0 \<longleftrightarrow> s = t"
  by (induction s t rule: first_diff.induct) (auto simp: word_uint_eq_iff)

lemma first_diff_neg:
  "0 \<notin> set s \<Longrightarrow> 0 \<notin> set t \<Longrightarrow> first_diff s t < 0 \<longleftrightarrow> (s, t) \<in> lexord {(a, b). a < b}"
  by (induction s t rule: first_diff.induct) (auto simp: word_less_def word_neq_0_conv)

lemma first_diff_swap: "first_diff t s = - first_diff s t"
  by (induction s t rule: first_diff.induct) auto

lemma first_diff_take_self: "first_diff (take n s) (take n s) = 0"
  by (induction s "take n s" arbitrary: n rule: first_diff.induct) (auto simp: take_Cons' split: if_splits)

locale key_compare =
  fixes key :: "byte \<Rightarrow> byte" and cmp :: "mem \<Rightarrow> addr \<Rightarrow> addr \<Rightarrow> int option"
  assumes cmp_unfold: "cmp m p q =
      Option.bind (rd m p) (\<lambda>a. Option.bind (rd m q) (\<lambda>b.
        if key a = key b then (if a = 0 then Some 0 else cmp m (p + 1) (q + 1))
        else Some (uint (key a) - uint (key b))))"
    and key_0: "key a = 0 \<longleftrightarrow> a = 0"
begin

lemma key_zero: "key 0 = 0"
  using key_0 by blast

lemma key_not_in: "0 \<notin> set s \<Longrightarrow> 0 \<notin> set (map key s)"
  by (auto simp: key_0)

lemma cmp_cstr:
  "cstr m p s \<Longrightarrow> cstr m q t \<Longrightarrow> cmp m p q = Some (first_diff (map key s) (map key t))"
proof (induction s arbitrary: p q t)
  case Nil
  then show ?case by (cases t) (simp_all add: cmp_unfold [of m p q] key_0 key_zero)
next
  case (Cons a s)
  then show ?case by (cases t) (simp_all add: cmp_unfold [of m p q] key_0 key_zero)
qed

lemma cmp_sign:
  assumes "cstr m p s" "cstr m q t"
  shows "\<exists>r. cmp m p q = Some r \<and> (r = 0 \<longleftrightarrow> map key s = map key t)
      \<and> (r < 0 \<longleftrightarrow> (map key s, map key t) \<in> lexord {(a, b). a < b})"
  using cmp_cstr [OF assms] key_not_in [OF cstr_nonzero [OF assms(1)]]
    key_not_in [OF cstr_nonzero [OF assms(2)]]
  by (simp add: first_diff_0 first_diff_neg)

lemma cmp_antisym:
  assumes "cstr m p s" "cstr m q t"
  shows "cmp m q p = map_option uminus (cmp m p q)"
  using assms by (simp add: cmp_cstr first_diff_swap [of "map key s"])

end

lemma coll_table: "list_all (\<lambda>c. uint (dj_collate_table ! nat c) = c) [0..255]"
  by code_simp

lemma coll_id: "coll b = b"
proof -
  have "uint (dj_collate_table ! nat (uint b)) = uint b"
    using coll_table uint_byte_range [of b]
    by (auto simp: list_all_iff simp del: nat_uint_eq dest: bspec [where x = "uint b"])
  then show ?thesis by (simp add: coll_def word_uint_eq_iff)
qed

lemma map_coll: "map coll s = s"
  by (simp add: coll_id map_idI)

interpretation cmp_id: key_compare "\<lambda>b. b" strcmp
  by unfold_locales (rule strcmp.simps, simp)

interpretation cmp_lower: key_compare tolower_byte stricmp
  by unfold_locales (rule stricmp.simps, simp)

interpretation cmp_coll: key_compare coll strcoll
  by unfold_locales (rule strcoll.simps, simp add: coll_id)


section \<open>The bounded comparisons\<close>

text \<open>
  The same loop with a count: at most \<open>n\<close> bytes of each side take part. A block comparison has no
  terminator and reads exactly the bytes up to the first difference.
\<close>

locale key_compare_n = key_compare key cmp
  for key :: "byte \<Rightarrow> byte" and cmp :: "mem \<Rightarrow> addr \<Rightarrow> addr \<Rightarrow> int option" +
  fixes cmpn :: "mem \<Rightarrow> addr \<Rightarrow> addr \<Rightarrow> nat \<Rightarrow> int option"
  assumes cmpn_0: "cmpn m p q 0 = Some 0"
    and cmpn_Suc: "cmpn m p q (Suc n) =
      Option.bind (rd m p) (\<lambda>a. Option.bind (rd m q) (\<lambda>b.
        if key a \<noteq> key b then Some (uint (key a) - uint (key b))
        else if a = 0 then Some 0 else cmpn m (p + 1) (q + 1) n))"
begin

lemma cmpn_cstr:
  "cstr m p s \<Longrightarrow> cstr m q t \<Longrightarrow>
     cmpn m p q n = Some (first_diff (map key (take n s)) (map key (take n t)))"
proof (induction n arbitrary: p q s t)
  case 0
  then show ?case by (simp add: cmpn_0)
next
  case (Suc n)
  then show ?case by (cases s; cases t) (simp_all add: cmpn_Suc key_0 key_zero)
qed

text \<open>With a count past both lengths the bounded comparison is the unbounded one.\<close>

lemma cmpn_cmp:
  "cstr m p s \<Longrightarrow> cstr m q t \<Longrightarrow> length s \<le> n \<Longrightarrow> length t \<le> n \<Longrightarrow> cmpn m p q n = cmp m p q"
  by (simp add: cmpn_cstr cmp_cstr)

text \<open>Only a prefix equal to the pattern compares equal; nothing past it is looked at.\<close>

lemma cmpn_prefix:
  assumes "cstr m p s" "cstr m q t" "length t = n"
  shows "cmpn m p q n = Some 0 \<longleftrightarrow> map key (take n s) = map key t"
proof -
  have "0 \<notin> set (map key (take n s))" "0 \<notin> set (map key (take n t))"
    using assms(1,2) key_0 by (auto dest!: in_set_takeD cstr_nonzero)
  then show ?thesis using assms by (simp add: cmpn_cstr first_diff_0 key_0)
qed

end

interpretation cmpn_id: key_compare_n "\<lambda>b. b" strcmp strncmp
  by unfold_locales (simp_all only: strncmp.simps)

interpretation cmpn_lower: key_compare_n tolower_byte stricmp strnicmp
  by unfold_locales (simp_all only: strnicmp.simps)

lemma memcmp_blocks:
  assumes "valid_block m p n" "valid_block m q n"
  shows "memcmp m p q n = Some (first_diff (take n (drop p m)) (take n (drop q m)))"
  using assms
proof (induction n arbitrary: p q)
  case (Suc n)
  have "rd m p = Some (m ! p)" "rd m q = Some (m ! q)"
    using Suc.prems by (auto simp: valid_block_def rd_def)
  moreover have "take (Suc n) (drop p m) = m ! p # take n (drop (Suc p) m)"
    "take (Suc n) (drop q m) = m ! q # take n (drop (Suc q) m)"
    using Suc.prems by (auto simp: valid_block_def Cons_nth_drop_Suc [symmetric])
  moreover have "valid_block m (Suc p) n" "valid_block m (Suc q) n"
    using Suc.prems by (auto simp: valid_block_def)
  ultimately show ?case by (simp add: Suc.IH)
qed simp

section \<open>Searches and spans\<close>

lemma span_in_cstr: "cstr m q t \<Longrightarrow> span_in m c q = Some (c \<in> set t)"
proof (induction t arbitrary: q)
  case Nil
  then show ?case by (simp add: span_in.simps)
next
  case (Cons a t)
  then show ?case by (auto simp: span_in.simps [of m c q])
qed

lemma span_to_cstr: "cstr m q t \<Longrightarrow> span_to m c q = Some (c = 0 \<or> c \<in> set t)"
proof (induction t arbitrary: q)
  case Nil
  then show ?case by (auto simp: span_to.simps)
next
  case (Cons a t)
  then show ?case by (auto simp: span_to.simps [of m c q])
qed

lemma strspn_loop_cstr:
  "cstr m p s \<Longrightarrow> cstr m q t \<Longrightarrow>
     strspn_loop m p q = Some (p + length (takeWhile (\<lambda>c. c \<in> set t) s))"
proof (induction s arbitrary: p)
  case Nil
  then show ?case by (simp add: strspn_loop.simps [of m p] span_in_cstr cstr_nonzero)
next
  case (Cons a s)
  then show ?case by (simp add: strspn_loop.simps [of m p] span_in_cstr)
qed

lemma strcspn_loop_cstr:
  "cstr m p s \<Longrightarrow> cstr m q t \<Longrightarrow>
     strcspn_loop m p q = Some (p + length (takeWhile (\<lambda>c. c \<notin> set t) s))"
proof (induction s arbitrary: p)
  case Nil
  then show ?case by (simp add: strcspn_loop.simps [of m p] span_to_cstr)
next
  case (Cons a s)
  then show ?case by (simp add: strcspn_loop.simps [of m p] span_to_cstr)
qed

lemma strpbrk_cstr:
  "cstr m p s \<Longrightarrow> cstr m q t \<Longrightarrow>
     strpbrk m p q = Some (if set s \<inter> set t = {} then 0
                           else p + length (takeWhile (\<lambda>c. c \<notin> set t) s))"
proof (induction s arbitrary: p)
  case Nil
  then show ?case by (simp add: strpbrk.simps [of m p])
next
  case (Cons a s)
  then show ?case by (auto simp: strpbrk.simps [of m p] span_in_cstr)
qed

lemma strchr_loop_cstr:
  "cstr m p s \<Longrightarrow>
     strchr_loop m p c = Some (if c = 0 \<or> c \<in> set s then p + length (takeWhile (\<lambda>b. b \<noteq> c) s) else 0)"
proof (induction s arbitrary: p)
  case Nil
  then show ?case by (simp add: strchr_loop.simps [of m p])
next
  case (Cons a s)
  then show ?case by (auto simp: strchr_loop.simps [of m p])
qed

lemma strrchr_loop_absent:
  "cstr m p s \<Longrightarrow> c \<notin> set s \<Longrightarrow> c \<noteq> 0 \<Longrightarrow> strrchr_loop m p c sp = Some sp"
proof (induction s arbitrary: p)
  case Nil
  then show ?case by (simp add: strrchr_loop.simps [of m p])
next
  case (Cons a s)
  then show ?case by (auto simp: strrchr_loop.simps [of m p])
qed

lemma strrchr_loop_last:
  "cstr m p (u @ c # v) \<Longrightarrow> c \<notin> set v \<Longrightarrow> strrchr_loop m p c sp = Some (p + length u)"
proof (induction u arbitrary: p sp)
  case Nil
  then show ?case by (auto simp: strrchr_loop.simps [of m p] strrchr_loop_absent [where s = v])
next
  case (Cons a u)
  then have "c \<noteq> 0" by (auto simp: cstr_append)
  with Cons show ?case by (simp add: strrchr_loop.simps [of m p])
qed

lemma strrchr_loop_NUL: "cstr m p s \<Longrightarrow> strrchr_loop m p 0 sp = Some (p + length s)"
proof (induction s arbitrary: p sp)
  case Nil
  then show ?case by (simp add: strrchr_loop.simps [of m p])
next
  case (Cons a s)
  then show ?case by (simp add: strrchr_loop.simps [of m p])
qed

lemma memchr_loop_block:
  "valid_block m p n \<Longrightarrow>
     memchr_loop m p c n = Some (if c \<in> set (take n (drop p m))
       then p + length (takeWhile (\<lambda>b. b \<noteq> c) (take n (drop p m))) else 0)"
proof (induction n arbitrary: p)
  case (Suc n)
  have "rd m p = Some (m ! p)"
    using Suc.prems by (auto simp: valid_block_def rd_def)
  moreover have "take (Suc n) (drop p m) = m ! p # take n (drop (Suc p) m)"
    using Suc.prems by (auto simp: valid_block_def Cons_nth_drop_Suc [symmetric])
  moreover have "valid_block m (Suc p) n"
    using Suc.prems by (auto simp: valid_block_def)
  ultimately show ?case by (auto simp: Suc.IH)
qed simp

section \<open>Substrings\<close>

definition occurs_at :: "byte list \<Rightarrow> byte list \<Rightarrow> nat \<Rightarrow> bool" where
  "occurs_at t s i \<longleftrightarrow> i + length t \<le> length s \<and> take (length t) (drop i s) = t"

lemma occurs_at_Suc: "occurs_at t (a # s) (Suc i) \<longleftrightarrow> occurs_at t s i"
  by (simp add: occurs_at_def)

lemma occurs_at_0: "occurs_at (c # t) (a # s) 0 \<longleftrightarrow> c = a \<and> take (length t) s = t"
  by (auto simp: occurs_at_def) (metis length_take min.absorb_iff2)

lemma first_occurrence_Suc:
  assumes "\<not> occurs_at t (a # s) 0"
  shows "(\<forall>i. \<not> occurs_at t (a # s) i) \<longleftrightarrow> (\<forall>i. \<not> occurs_at t s i)"
    and "(occurs_at t (a # s) (Suc i) \<and> (\<forall>j < Suc i. \<not> occurs_at t (a # s) j)) \<longleftrightarrow>
         (occurs_at t s i \<and> (\<forall>j < i. \<not> occurs_at t s j))"
proof -
  show "(\<forall>i. \<not> occurs_at t (a # s) i) \<longleftrightarrow> (\<forall>i. \<not> occurs_at t s i)"
    using assms by (metis occurs_at_Suc not0_implies_Suc)
  show "(occurs_at t (a # s) (Suc i) \<and> (\<forall>j < Suc i. \<not> occurs_at t (a # s) j)) \<longleftrightarrow>
         (occurs_at t s i \<and> (\<forall>j < i. \<not> occurs_at t s j))"
    using assms by (auto simp: occurs_at_Suc less_Suc_eq_0_disj)
qed

definition first_occurrence :: "byte list \<Rightarrow> byte list \<Rightarrow> addr \<Rightarrow> addr \<Rightarrow> bool" where
  "first_occurrence t s p r \<longleftrightarrow>
     r = 0 \<and> (\<forall>i. \<not> occurs_at t s i)
     \<or> (\<exists>i. r = p + i \<and> occurs_at t s i \<and> (\<forall>j < i. \<not> occurs_at t s j))"

lemma first_occurrence_step:
  assumes "\<not> occurs_at t (a # s) 0" "first_occurrence t s (Suc p) r"
  shows "first_occurrence t (a # s) p r"
proof -
  consider "r = 0" "\<forall>i. \<not> occurs_at t s i"
    | i where "r = Suc p + i" "occurs_at t s i" "\<forall>j < i. \<not> occurs_at t s j"
    using assms(2) by (auto simp: first_occurrence_def)
  then show ?thesis
  proof cases
    case 1
    then show ?thesis using first_occurrence_Suc(1) [OF assms(1)] by (simp add: first_occurrence_def)
  next
    case 2
    then have "r = p + Suc i" "occurs_at t (a # s) (Suc i) \<and> (\<forall>j < Suc i. \<not> occurs_at t (a # s) j)"
      using first_occurrence_Suc(2) [OF assms(1), of i] by simp_all
    then show ?thesis unfolding first_occurrence_def by blast
  qed
qed

lemma strstr_loop_cstr:
  assumes t: "cstr m q t" and "c \<noteq> 0"
  shows "cstr m p s \<Longrightarrow>
    \<exists>r. strstr_loop m p c q (length t) = Some r \<and> first_occurrence (c # t) s p r"
proof (induction s arbitrary: p)
  case Nil
  then show ?case by (simp add: strstr_loop.simps [of m p] first_occurrence_def occurs_at_def)
next
  case (Cons a s)
  from Cons.prems have rd: "rd m p = Some a" and "a \<noteq> 0" and s: "cstr m (Suc p) s" by auto
  obtain r where r: "strstr_loop m (Suc p) c q (length t) = Some r"
    "first_occurrence (c # t) s (Suc p) r"
    using Cons.IH [OF s] by blast
  obtain d where d: "strncmp m (Suc p) q (length t) = Some d" "d = 0 \<longleftrightarrow> take (length t) s = t"
    using cmpn_id.cmpn_cstr [OF s t, of "length t"] cmpn_id.cmpn_prefix [OF s t refl] by auto
  show ?case
  proof (cases "a = c \<and> d = 0")
    case True
    then have "occurs_at (c # t) (a # s) 0" using d by (simp add: occurs_at_0)
    then have "first_occurrence (c # t) (a # s) p p" by (auto simp: first_occurrence_def)
    then show ?thesis using True rd d \<open>a \<noteq> 0\<close> by (simp add: strstr_loop.simps [of m p])
  next
    case False
    then have "\<not> occurs_at (c # t) (a # s) 0" using d by (auto simp: occurs_at_0)
    from first_occurrence_step [OF this r(2)]
    show ?thesis using False rd d r(1) \<open>a \<noteq> 0\<close> by (auto simp: strstr_loop.simps [of m p])
  qed
qed

section \<open>Properties\<close>

text \<open>
  C31. Comparing two NUL-terminated strings never faults, and the sign of the result is the
  lexicographic order of their bytes taken as unsigned: zero exactly for equal strings, negative
  exactly when the first comes first; swapping the arguments negates it. \<^verbatim>\<open>strcoll\<close> with the
  C locale's table gives the same result.
\<close>

theorem strcmp_order:
  assumes "cstr m p s" "cstr m q t"
  shows "\<exists>r. strcmp m p q = Some r \<and> strcmp m q p = Some (- r) \<and> strcoll m p q = Some r
    \<and> (r = 0 \<longleftrightarrow> s = t) \<and> (r < 0 \<longleftrightarrow> (s, t) \<in> lexord {(a, b). a < b})"
  using cmp_id.cmp_sign [OF assms] cmp_id.cmp_antisym [OF assms] cmp_id.cmp_cstr [OF assms]
    cmp_coll.cmp_cstr [OF assms]
  by (auto simp: map_coll)

theorem strcmp_order_witness:
  "\<exists>r. strcmp [0, 97, 98, 0, 97, 99, 0] 1 4 = Some r \<and> r < 0"
proof -
  have "cstr [0, 97, 98, 0, 97, 99, 0] 1 [97, 98]" "cstr [0, 97, 98, 0, 97, 99, 0] 4 [97, 99]"
    by (simp_all add: rd_def)
  from strcmp_order [OF this] show ?thesis by auto
qed

text \<open>
  The comparisons that ignore case return zero exactly when the strings agree after lower-case
  conversion; the bounded ones compare at most \<open>n\<close> bytes of each string, and with a bound past both
  lengths they give the unbounded result.
\<close>

theorem case_and_bounded_compare:
  assumes "cstr m p s" "cstr m q t"
  shows "(stricmp m p q = Some 0 \<longleftrightarrow> map tolower_byte s = map tolower_byte t)
    \<and> (strncmp m p q n = Some 0 \<longleftrightarrow> take n s = take n t)
    \<and> (strnicmp m p q n = Some 0 \<longleftrightarrow> map tolower_byte (take n s) = map tolower_byte (take n t))
    \<and> strncmp m p q (length s + length t) = strcmp m p q
    \<and> strnicmp m p q (length s + length t) = stricmp m p q"
proof -
  have z: "0 \<notin> set (take n s)" "0 \<notin> set (take n t)"
    using cstr_nonzero [OF assms(1)] cstr_nonzero [OF assms(2)] by (auto dest: in_set_takeD)
  show ?thesis
    using cmp_lower.cmp_sign [OF assms] z
      first_diff_0 [OF cmp_lower.key_not_in [OF z(1)] cmp_lower.key_not_in [OF z(2)]]
      cmpn_id.cmpn_cmp [OF assms, of "length s + length t"]
      cmpn_lower.cmpn_cmp [OF assms, of "length s + length t"]
    by (auto simp: cmpn_id.cmpn_cstr [OF assms] cmpn_lower.cmpn_cstr [OF assms] first_diff_0)
qed

theorem case_and_bounded_compare_witness:
  "stricmp [0, 65, 98, 0, 97, 66, 0] 1 4 = Some 0"
proof -
  have "cstr [0, 65, 98, 0, 97, 66, 0] 1 [65, 98]" "cstr [0, 65, 98, 0, 97, 66, 0] 4 [97, 66]"
    by (simp_all add: rd_def)
  from case_and_bounded_compare [OF this] show ?thesis
    by (simp add: uint_case_byte)
qed

text \<open>
  \<^verbatim>\<open>strstr\<close> on NUL-terminated strings never faults and returns the first position at which the
  pattern occurs, or the null pointer when it occurs nowhere.
\<close>

theorem strstr_first_occurrence:
  assumes "cstr m p s" "cstr m q t"
  shows "\<exists>r. strstr m p q = Some r \<and>
    (r = 0 \<and> (\<forall>i. \<not> occurs_at t s i)
     \<or> (\<exists>i. r = p + i \<and> occurs_at t s i \<and> (\<forall>j < i. \<not> occurs_at t s j)))"
proof (cases t)
  case Nil
  then show ?thesis using assms by (auto simp: strstr_def occurs_at_def)
next
  case (Cons c t')
  then have t': "cstr m (Suc q) t'" and c: "c \<noteq> 0" "rd m q = Some c" using assms(2) by auto
  then have "strstr m p q = strstr_loop m p c (Suc q) (length t')"
    by (simp add: strstr_def strlen_cstr [OF t'])
  with strstr_loop_cstr [OF t' c(1) assms(1)] Cons show ?thesis
    by (simp add: first_occurrence_def)
qed

theorem strstr_first_occurrence_witness:
  "\<exists>r. strstr [0, 97, 97, 98, 0, 97, 98, 0] 1 5 = Some r \<and> r = 2"
proof -
  have *: "cstr [0, 97, 97, 98, 0, 97, 98, 0] 1 [97, 97, 98]"
    "cstr [0, 97, 97, 98, 0, 97, 98, 0] 5 [97, 98]"
    by (simp_all add: rd_def)
  obtain r i where r: "strstr [0, 97, 97, 98, 0, 97, 98, 0] 1 5 = Some r" "r = 1 + i"
    "occurs_at [97, 98] [97, 97, 98] i"
    using strstr_first_occurrence [OF *] by (auto simp: occurs_at_def dest: spec [where x = 1])
  then have "i = 1"
    by (cases i) (auto simp: occurs_at_def)
  with r show ?thesis by simp
qed

text \<open>
  \<^verbatim>\<open>strspn\<close> and \<^verbatim>\<open>strcspn\<close> return the length of the longest prefix made of bytes of the set and of
  bytes not of the set; \<^verbatim>\<open>strpbrk\<close> and \<^verbatim>\<open>strchr\<close> return the first position they search for, and
  \<^verbatim>\<open>strrchr\<close> the last. None of them faults on NUL-terminated strings.
\<close>

theorem spans_and_searches:
  assumes "cstr m p s" "cstr m q t"
  shows "strspn m p q = Some (length (takeWhile (\<lambda>b. b \<in> set t) s))
    \<and> strcspn m p q = Some (length (takeWhile (\<lambda>b. b \<notin> set t) s))
    \<and> strpbrk m p q = Some (if set s \<inter> set t = {} then 0 else p + length (takeWhile (\<lambda>b. b \<notin> set t) s))
    \<and> strchr m p c = Some (if char_of_int c = 0 \<or> char_of_int c \<in> set s
         then p + length (takeWhile (\<lambda>b. b \<noteq> char_of_int c) s) else 0)
    \<and> (\<forall>u v. s = u @ char_of_int c # v \<and> char_of_int c \<notin> set v \<longrightarrow> strrchr m p c = Some (p + length u))
    \<and> (char_of_int c = 0 \<longrightarrow> strrchr m p c = Some (p + length s))
    \<and> (char_of_int c \<notin> set s \<and> char_of_int c \<noteq> 0 \<longrightarrow> strrchr m p c = Some 0)"
  using assms
  by (auto simp: strspn_def strcspn_def strchr_def strrchr_def strspn_loop_cstr strcspn_loop_cstr
      strpbrk_cstr strchr_loop_cstr strrchr_loop_last strrchr_loop_NUL strrchr_loop_absent)

theorem spans_and_searches_witness:
  "strspn [0, 97, 98, 97, 0, 97, 0] 1 5 = Some 1 \<and> strrchr [0, 97, 98, 97, 0, 97, 0] 1 97 = Some 3"
proof -
  have *: "cstr [0, 97, 98, 97, 0, 97, 0] 1 [97, 98, 97]" "cstr [0, 97, 98, 97, 0, 97, 0] 5 [97]"
    by (simp_all add: rd_def)
  have "[97, 98, 97] = [97, 98] @ char_of_int 97 # [] \<and> char_of_int 97 \<notin> set []"
    by (simp add: char_of_int_def)
  then have "strrchr [0, 97, 98, 97, 0, 97, 0] 1 97 = Some (1 + length [97 :: byte, 98])"
    using spans_and_searches [OF *, of 97] by blast
  then show ?thesis using spans_and_searches [OF *, of 97] by simp
qed

lemma strnlen_loop_nonzero:
  assumes "\<And>j. j < n \<Longrightarrow> \<exists>b. rd m (p + j) = Some b \<and> b \<noteq> 0" "i \<le> n"
  shows "strnlen_loop m p n i = do { b \<leftarrow> rd m (p + n); Some n }"
  using assms(2)
proof (induction "n - i" arbitrary: i)
  case 0
  then show ?case by (subst strnlen_loop.simps) simp
next
  case (Suc k)
  then have "i < n" by simp
  then obtain b where "rd m (p + i) = Some b" "b \<noteq> 0" using assms(1) by blast
  then show ?case using Suc \<open>i < n\<close> by (simp add: strnlen_loop.simps [of m p n i])
qed

text \<open>
  \<^verbatim>\<open>strnlen\<close> tests the bound only after it has read the byte, so it reads the byte at index \<open>n\<close>:
  on a block of exactly \<open>n\<close> non-NUL bytes at the end of memory it faults, for every \<open>n > 0\<close>. With
  one more readable byte after the block it returns \<open>n\<close>.
\<close>

theorem strnlen_reads_past_bound:
  assumes "0 < n" "\<And>j. j < n \<Longrightarrow> \<exists>b. rd m (p + j) = Some b \<and> b \<noteq> 0"
  shows "(length m = p + n \<longrightarrow> strnlen m p n = None) \<and> (p + n < length m \<longrightarrow> strnlen m p n = Some n)"
proof -
  obtain b where b: "rd m p = Some b" "b \<noteq> 0" using assms(2) [of 0] assms(1) by auto
  then have "0 < p" by (simp add: rd_Some_iff)
  then have "strnlen m p n = do { b \<leftarrow> rd m (p + n); Some n }"
    using b assms strnlen_loop_nonzero [of n m p 1] by (simp add: strnlen_def)
  with \<open>0 < p\<close> show ?thesis by (simp add: rd_def)
qed

theorem strnlen_reads_past_bound_witness: "strnlen [0, 65, 66] 1 2 = None"
proof -
  have "\<And>j. j < 2 \<Longrightarrow> \<exists>b. rd [0, 65, 66] (1 + j) = Some b \<and> b \<noteq> 0"
    by (auto simp: rd_def less_2_cases_iff)
  from strnlen_reads_past_bound [OF _ this] show ?thesis by simp
qed

end
