(* ===== verification/Cstring_Write.thy ===== *)
theory Cstring_Write
  imports Cstring
begin

text \<open>
  The string routines that write: copying, appending, bounded copying, case conversion in place
  and \<^verbatim>\<open>strxfrm\<close>. Each returns the new memory and the pointer or count that the source returns. The
  effect of a routine is stated as one block write, \<open>put m p bs\<close>, so that every byte outside the
  block is known to be unchanged.
\<close>

section \<open>Block writes\<close>

fun put :: "mem \<Rightarrow> addr \<Rightarrow> byte list \<Rightarrow> mem" where
  "put m p [] = m"
| "put m p (b # bs) = put (m[p := b]) (Suc p) bs"

lemma put_length [simp]: "length (put m p bs) = length m"
  by (induction bs arbitrary: m p) auto

lemma put_append: "put m p (bs @ cs) = put (put m p bs) (p + length bs) cs"
  by (induction bs arbitrary: m p) auto

lemma put_nth:
  "p + length bs \<le> length m \<Longrightarrow>
     put m p bs ! x = (if p \<le> x \<and> x < p + length bs then bs ! (x - p) else m ! x)"
proof (induction bs arbitrary: m p)
  case (Cons b bs)
  then have "put (m[p := b]) (Suc p) bs ! x =
      (if Suc p \<le> x \<and> x < Suc p + length bs then bs ! (x - Suc p) else m[p := b] ! x)"
    by (simp only: length_list_update list.size add_Suc_right add_Suc Cons.IH)
  then show ?case using Cons.prems by (auto simp: nth_Cons' nth_list_update)
qed auto

lemma rd_put:
  "valid_block m p (length bs) \<Longrightarrow>
     rd (put m p bs) x = (if p \<le> x \<and> x < p + length bs then Some (bs ! (x - p)) else rd m x)"
  by (auto simp: rd_def put_nth valid_block_def)

lemma rd_put_outside:
  "valid_block m p (length bs) \<Longrightarrow> x < p \<or> p + length bs \<le> x \<Longrightarrow> rd (put m p bs) x = rd m x"
  by (auto simp: rd_put)

lemma cstr_put_same:
  assumes "valid_block m p (length s + 1)" "0 \<notin> set s"
  shows "cstr (put m p (s @ [0])) p s"
  using assms
proof (induction s arbitrary: m p)
  case Nil
  then show ?case by (simp add: rd_def valid_block_def)
next
  case (Cons c s)
  then have v: "valid_block (m[p := c]) (Suc p) (length (s @ [0]))" "0 < p" "p < length m"
    by (auto simp: valid_block_def)
  then have "rd (put m p ((c # s) @ [0])) p = Some c"
    using rd_put_outside [OF v(1), of p] by (simp add: rd_def)
  then show ?case using Cons v by (simp add: valid_block_def)
qed

lemma cstr_put_other:
  assumes "cstr m q s" "valid_block m p (length bs)" "p + length bs \<le> q \<or> q + length s < p"
  shows "cstr (put m p bs) q s"
  using assms(1) by (rule cstr_frame) (use assms(2,3) in \<open>auto simp: rd_put_outside\<close>)

lemma cstr_upd_other: "cstr m q s \<Longrightarrow> p < q \<or> q + length s < p \<Longrightarrow> cstr (m[p := b]) q s"
  by (erule cstr_frame) (auto simp: rd_update)

section \<open>Unbounded copies\<close>

text \<open>\<^verbatim>\<open>for (; (*to = *from); ++from, ++to);\<close>, and the same loop as \<^verbatim>\<open>while ((*s++ = *append++));\<close>.
  The result carries the address at which the NUL was stored.\<close>

function copy_loop :: "mem \<Rightarrow> addr \<Rightarrow> addr \<Rightarrow> (mem \<times> addr) option" where
  "copy_loop m to from =
     do { c \<leftarrow> rd m from; m' \<leftarrow> wr m to c;
          if c = 0 then Some (m', to) else copy_loop m' (to + 1) (from + 1) }"
  by pat_completeness auto
termination
  by (relation "measure (\<lambda>(m, to, from). length m - from)") (auto dest: rd_less simp: wr_length)

declare copy_loop.simps [simp del]

definition strcpy :: "mem \<Rightarrow> addr \<Rightarrow> addr \<Rightarrow> (mem \<times> addr) option" where
  "strcpy m to from = do { (m', _) \<leftarrow> copy_loop m to from; Some (m', to) }"

definition strcat :: "mem \<Rightarrow> addr \<Rightarrow> addr \<Rightarrow> (mem \<times> addr) option" where
  "strcat m s app =
     do { e \<leftarrow> strlen_loop m s; (m', _) \<leftarrow> copy_loop m e app; Some (m', s) }"

definition stpcpy :: "mem \<Rightarrow> addr \<Rightarrow> addr \<Rightarrow> (mem \<times> addr) option" where
  "stpcpy m dest src =
     (if dest = NULL \<or> src = NULL then Some (m, NULL) else copy_loop m dest src)"

section \<open>Bounded copies\<close>

text \<open>\<^verbatim>\<open>while (--n != 0) *d++ = 0;\<close>, with the count already decremented.\<close>

fun zero_fill :: "mem \<Rightarrow> addr \<Rightarrow> nat \<Rightarrow> mem option" where
  "zero_fill m d 0 = Some m"
| "zero_fill m d (Suc n) = do { m' \<leftarrow> wr m d 0; zero_fill m' (d + 1) n }"

fun strncpy_loop :: "mem \<Rightarrow> addr \<Rightarrow> addr \<Rightarrow> nat \<Rightarrow> mem option" where
  "strncpy_loop m d s 0 = Some m"
| "strncpy_loop m d s (Suc n) =
     do { c \<leftarrow> rd m s; m' \<leftarrow> wr m d c;
          if c = 0 then zero_fill m' (d + 1) n else strncpy_loop m' (d + 1) (s + 1) n }"

definition strncpy :: "mem \<Rightarrow> addr \<Rightarrow> addr \<Rightarrow> nat \<Rightarrow> (mem \<times> addr) option" where
  "strncpy m dst src n = do { m' \<leftarrow> strncpy_loop m dst src n; Some (m', dst) }"

fun strncat_loop :: "mem \<Rightarrow> addr \<Rightarrow> addr \<Rightarrow> nat \<Rightarrow> (mem \<times> addr) option" where
  "strncat_loop m d s 0 = Some (m, d)"
| "strncat_loop m d s (Suc n) =
     do { c \<leftarrow> rd m s; m' \<leftarrow> wr m d c;
          if c = 0 then Some (m', d) else strncat_loop m' (d + 1) (s + 1) n }"

definition strncat :: "mem \<Rightarrow> addr \<Rightarrow> addr \<Rightarrow> nat \<Rightarrow> (mem \<times> addr) option" where
  "strncat m dst src n =
     (if n = 0 then Some (m, dst)
      else do { d \<leftarrow> strlen_loop m dst; (m1, d') \<leftarrow> strncat_loop m d src n;
                m2 \<leftarrow> wr m1 d' 0; Some (m2, dst) })"

text \<open>\<^verbatim>\<open>dst += n - 1; do { *--dst = 0; } while (--n != 0);\<close>: the padding is written backwards.\<close>

fun back_fill :: "mem \<Rightarrow> addr \<Rightarrow> nat \<Rightarrow> (mem \<times> addr) option" where
  "back_fill m d 0 = Some (m, d)"
| "back_fill m d (Suc n) = do { m' \<leftarrow> wr m (d - 1) 0; back_fill m' (d - 1) n }"

fun stpncpy_loop :: "mem \<Rightarrow> addr \<Rightarrow> addr \<Rightarrow> nat \<Rightarrow> (mem \<times> addr) option" where
  "stpncpy_loop m d s 0 = Some (m, d)"
| "stpncpy_loop m d s (Suc n) =
     do { c \<leftarrow> rd m s; m' \<leftarrow> wr m d c;
          if c = 0 then back_fill m' (d + 1 + n) (Suc n) else stpncpy_loop m' (d + 1) (s + 1) n }"

definition stpncpy :: "mem \<Rightarrow> addr \<Rightarrow> addr \<Rightarrow> nat \<Rightarrow> (mem \<times> addr) option" where
  "stpncpy m dst src n =
     (if dst = NULL \<or> src = NULL then Some (m, NULL) else stpncpy_loop m dst src n)"

text \<open>\<^verbatim>\<open>memcpy\<close> of the standard library, byte by byte upwards.\<close>

fun memcpy :: "mem \<Rightarrow> addr \<Rightarrow> addr \<Rightarrow> nat \<Rightarrow> mem option" where
  "memcpy m d s 0 = Some m"
| "memcpy m d s (Suc n) = do { c \<leftarrow> rd m s; m' \<leftarrow> wr m d c; memcpy m' (d + 1) (s + 1) n }"

text \<open>\<open>size_t\<close> arithmetic of the return values wraps at 32 bits.\<close>

definition size_t :: "nat \<Rightarrow> nat" where
  "size_t n = n mod 2 ^ 32"

definition strlcpy :: "mem \<Rightarrow> addr \<Rightarrow> addr \<Rightarrow> nat \<Rightarrow> (mem \<times> nat) option" where
  "strlcpy m dst src siz =
     do { srclen \<leftarrow> strlen m src;
          if siz = 0 then Some (m, srclen)
          else if srclen < siz then do { (m', _) \<leftarrow> strcpy m dst src; Some (m', srclen) }
          else do { m1 \<leftarrow> memcpy m dst src (siz - 1); m2 \<leftarrow> wr m1 (dst + (siz - 1)) 0;
                    Some (m2, srclen) } }"

text \<open>\<^verbatim>\<open>for (i = 0; i < siz; i++) if (dst[i] == 0) break;\<close>\<close>

function strlcat_scan :: "mem \<Rightarrow> addr \<Rightarrow> nat \<Rightarrow> nat \<Rightarrow> nat option" where
  "strlcat_scan m dst siz i =
     (if i < siz then do { c \<leftarrow> rd m (dst + i); if c = 0 then Some i else strlcat_scan m dst siz (i + 1) }
      else Some i)"
  by pat_completeness auto
termination
  by (relation "measure (\<lambda>(m, dst, siz, i). siz - i)") auto

declare strlcat_scan.simps [simp del]

definition strlcat :: "mem \<Rightarrow> addr \<Rightarrow> addr \<Rightarrow> nat \<Rightarrow> (mem \<times> nat) option" where
  "strlcat m dst src siz =
     do { srclen \<leftarrow> strlen m src; i \<leftarrow> strlcat_scan m dst siz 0;
          if i = siz then Some (m, size_t (siz + srclen))
          else if size_t (i + srclen) < siz
          then do { (m', _) \<leftarrow> strcpy m (dst + i) src; Some (m', size_t (i + srclen)) }
          else do { m1 \<leftarrow> memcpy m (dst + i) src (siz - i - 1); m2 \<leftarrow> wr m1 (dst + (siz - 1)) 0;
                    Some (m2, size_t (i + srclen)) } }"

text \<open>\<open>memccpy\<close> returns the address after the copied \<open>c\<close>, or the null pointer.\<close>

fun memccpy_loop :: "mem \<Rightarrow> addr \<Rightarrow> addr \<Rightarrow> byte \<Rightarrow> nat \<Rightarrow> (mem \<times> addr) option" where
  "memccpy_loop m t f c 0 = Some (m, NULL)"
| "memccpy_loop m t f c (Suc n) =
     do { b \<leftarrow> rd m f; m' \<leftarrow> wr m t b;
          if b = c then Some (m', t + 1) else memccpy_loop m' (t + 1) (f + 1) c n }"

definition memccpy :: "mem \<Rightarrow> addr \<Rightarrow> addr \<Rightarrow> int \<Rightarrow> nat \<Rightarrow> (mem \<times> addr) option" where
  "memccpy m t f c n = memccpy_loop m t f (word_of_int (c AND 0xff)) n"

section \<open>In-place conversion and transformation\<close>

function strlwr_loop :: "mem \<Rightarrow> addr \<Rightarrow> mem option" where
  "strlwr_loop m s =
     do { c \<leftarrow> rd m s;
          if c = 0 then Some m else do { m' \<leftarrow> wr m s (tolower_byte c); strlwr_loop m' (s + 1) } }"
  by pat_completeness auto
termination
  by (relation "measure (\<lambda>(m, s). length m - s)") (auto dest: rd_less simp: wr_length)

definition strlwr :: "mem \<Rightarrow> addr \<Rightarrow> (mem \<times> addr) option" where
  "strlwr m s = do { m' \<leftarrow> strlwr_loop m s; Some (m', s) }"

function strupr_loop :: "mem \<Rightarrow> addr \<Rightarrow> mem option" where
  "strupr_loop m s =
     do { c \<leftarrow> rd m s;
          if c = 0 then Some m else do { m' \<leftarrow> wr m s (toupper_byte c); strupr_loop m' (s + 1) } }"
  by pat_completeness auto
termination
  by (relation "measure (\<lambda>(m, s). length m - s)") (auto dest: rd_less simp: wr_length)

definition strupr :: "mem \<Rightarrow> addr \<Rightarrow> (mem \<times> addr) option" where
  "strupr m s = do { m' \<leftarrow> strupr_loop m s; Some (m', s) }"

text \<open>
  \<^verbatim>\<open>strxfrm\<close>: when the count reaches zero the rest of the source is only counted
  (\<^verbatim>\<open>while (*src++ != 0) r++;\<close>), and a NUL is stored at the last destination address.
\<close>

fun strxfrm_loop :: "mem \<Rightarrow> addr \<Rightarrow> addr \<Rightarrow> nat \<Rightarrow> nat \<Rightarrow> (mem \<times> addr \<times> nat) option" where
  "strxfrm_loop m dst src 0 r =
     do { e \<leftarrow> strlen_loop m src; Some (m, dst, r + (e - src)) }"
| "strxfrm_loop m dst src (Suc n) r =
     do { c \<leftarrow> rd m src;
          if c = 0 then Some (m, dst, r)
          else if n = 0 then strxfrm_loop m dst (src + 1) 0 (r + 1)
          else do { m' \<leftarrow> wr m dst c; strxfrm_loop m' (dst + 1) (src + 1) n (r + 1) } }"

definition strxfrm :: "mem \<Rightarrow> addr \<Rightarrow> addr \<Rightarrow> nat \<Rightarrow> (mem \<times> nat) option" where
  "strxfrm m dst src n =
     (if n = 0 then Some (m, 0)
      else do { (m1, d, r) \<leftarrow> strxfrm_loop m dst src n 0; m2 \<leftarrow> wr m1 d 0; Some (m2, r) })"

declare strlwr_loop.simps [simp del] strupr_loop.simps [simp del]

section \<open>Effects as block writes\<close>

text \<open>
  The copying loops run upwards, so they are right whenever the destination starts below the
  source or past its end. \<open>disj_up p q n\<close> says so for a source of \<open>n + 1\<close> bytes at \<open>q\<close>.
\<close>

definition disj_up :: "addr \<Rightarrow> addr \<Rightarrow> nat \<Rightarrow> bool" where
  "disj_up p q n \<longleftrightarrow> p < q \<or> q + n < p"

lemma disj_up_Suc: "disj_up p q (Suc n) \<Longrightarrow> disj_up (Suc p) (Suc q) n"
  by (auto simp: disj_up_def)

lemma valid_block_Suc: "valid_block m p (Suc n) \<Longrightarrow> valid_block (m[p := b]) (Suc p) n"
  by (auto simp: valid_block_def)

lemma wr_valid: "valid_block m p (Suc n) \<Longrightarrow> wr m p b = Some (m[p := b])"
  by (simp add: valid_block_def wr_def)

lemma cstr_up_Suc:
  "cstr m q (c # s) \<Longrightarrow> disj_up p q (length (c # s)) \<Longrightarrow> cstr (m[p := c]) (Suc q) s"
  by (rule cstr_upd_other) (auto simp: disj_up_def)

lemmas up_step = disj_up_Suc valid_block_Suc wr_valid cstr_up_Suc

lemma copy_loop_put:
  "cstr m q s \<Longrightarrow> valid_block m p (Suc (length s)) \<Longrightarrow> disj_up p q (length s) \<Longrightarrow>
     copy_loop m p q = Some (put m p (s @ [0]), p + length s)"
proof (induction s arbitrary: m p q)
  case Nil
  then show ?case by (simp add: copy_loop.simps [of m p] up_step)
next
  case (Cons c s)
  have "copy_loop (m[p := c]) (Suc p) (Suc q) = Some (put (m[p := c]) (Suc p) (s @ [0]), Suc p + length s)"
    using Cons.prems by (intro Cons.IH) (auto intro: up_step simp del: cstr.simps)
  then show ?case using Cons.prems by (simp add: copy_loop.simps [of m p] wr_valid)
qed

lemma zero_fill_put: "valid_block m p n \<Longrightarrow> zero_fill m p n = Some (put m p (replicate n 0))"
  by (induction n arbitrary: m p) (auto simp: wr_valid valid_block_Suc)

lemma strncpy_loop_put:
  "cstr m q s \<Longrightarrow> valid_block m p n \<Longrightarrow> disj_up p q (length s) \<Longrightarrow>
     strncpy_loop m p q n = Some (put m p (take n s @ replicate (n - length s) 0))"
proof (induction n arbitrary: m p q s)
  case (Suc n)
  show ?case
  proof (cases s)
    case Nil
    then show ?thesis using Suc.prems by (simp add: wr_valid zero_fill_put valid_block_Suc)
  next
    case (Cons c s')
    then have "strncpy_loop (m[p := c]) (Suc p) (Suc q) n =
        Some (put (m[p := c]) (Suc p) (take n s' @ replicate (n - length s') 0))"
      using Suc.prems by (intro Suc.IH) (auto intro: up_step simp del: cstr.simps)
    then show ?thesis using Suc.prems Cons by (simp add: wr_valid)
  qed
qed simp

lemma memcpy_put:
  "cstr m q s \<Longrightarrow> valid_block m p n \<Longrightarrow> disj_up p q (length s) \<Longrightarrow> n \<le> length s \<Longrightarrow>
     memcpy m p q n = Some (put m p (take n s))"
proof (induction n arbitrary: m p q s)
  case (Suc n)
  then obtain c s' where s: "s = c # s'" by (cases s) auto
  then have "memcpy (m[p := c]) (Suc p) (Suc q) n = Some (put (m[p := c]) (Suc p) (take n s'))"
    using Suc.prems by (intro Suc.IH) (auto intro: up_step simp del: cstr.simps)
  then show ?case using Suc.prems s by (simp add: wr_valid)
qed simp

lemma strncat_loop_put:
  "cstr m q s \<Longrightarrow> valid_block m p (Suc (length s)) \<Longrightarrow> disj_up p q (length s) \<Longrightarrow>
     \<exists>m'. strncat_loop m p q n = Some (m', p + length (take n s)) \<and>
       m'[p + length (take n s) := 0] = put m p (take n s @ [0])"
proof (induction n arbitrary: m p q s)
  case (Suc n)
  show ?case
  proof (cases s)
    case Nil
    then show ?thesis using Suc.prems by (simp add: wr_valid)
  next
    case (Cons c s')
    have "\<exists>m'. strncat_loop (m[p := c]) (Suc p) (Suc q) n = Some (m', Suc p + length (take n s')) \<and>
       m'[Suc p + length (take n s') := 0] = put (m[p := c]) (Suc p) (take n s' @ [0])"
      using Suc.prems Cons by (intro Suc.IH) (auto intro: up_step simp del: cstr.simps)
    then show ?thesis using Suc.prems Cons by (simp add: wr_valid)
  qed
qed simp

lemma put_upd_comm: "p + length bs \<le> x \<Longrightarrow> put (m[x := b]) p bs = (put m p bs)[x := b]"
  by (induction bs arbitrary: m p) (auto simp: list_update_swap)

lemma back_fill_put: "valid_block m p n \<Longrightarrow> back_fill m (p + n) n = Some (put m p (replicate n 0), p)"
proof (induction n arbitrary: m)
  case (Suc n)
  then have "wr m (p + n) 0 = Some (m[p + n := 0])"
    by (simp add: wr_def valid_block_def)
  moreover have "back_fill (m[p + n := 0]) (p + n) n = Some (put (m[p + n := 0]) p (replicate n 0), p)"
    using Suc.prems by (intro Suc.IH) (simp add: valid_block_def)
  moreover have "put (m[p + n := 0]) p (replicate n 0) = put m p (replicate (Suc n) 0)"
    by (simp only: replicate.simps(2) replicate_append_same [symmetric] put_append) (simp add: put_upd_comm)
  ultimately show ?case by simp
qed simp

lemma stpncpy_loop_put:
  "cstr m q s \<Longrightarrow> valid_block m p n \<Longrightarrow> disj_up p q (length s) \<Longrightarrow>
     stpncpy_loop m p q n = Some (put m p (take n s @ replicate (n - length s) 0), p + length (take n s))"
proof (induction n arbitrary: m p q s)
  case (Suc n)
  show ?case
  proof (cases s)
    case Nil
    have "back_fill (m[p := 0]) (p + Suc n) (Suc n) = Some (put (m[p := 0]) p (replicate (Suc n) 0), p)"
      using Suc.prems by (intro back_fill_put) (simp add: valid_block_def)
    then show ?thesis using Suc.prems Nil by (simp add: wr_valid)
  next
    case (Cons c s')
    then have "stpncpy_loop (m[p := c]) (Suc p) (Suc q) n =
        Some (put (m[p := c]) (Suc p) (take n s' @ replicate (n - length s') 0), Suc p + length (take n s'))"
      using Suc.prems by (intro Suc.IH) (auto intro: up_step simp del: cstr.simps)
    then show ?thesis using Suc.prems Cons by (simp add: wr_valid)
  qed
qed simp

lemma strlcat_scan_found:
  assumes "cstr m p d" "length d < siz" "i \<le> length d"
  shows "strlcat_scan m p siz i = Some (length d)"
  using assms(3)
proof (induction "length d - i" arbitrary: i)
  case 0
  then show ?case using assms(2) cstr_rd_end [OF assms(1)] by (simp add: strlcat_scan.simps [of m p siz i])
next
  case (Suc k)
  then have i: "i < length d" by simp
  then have "rd m (p + i) = Some (d ! i)" "d ! i \<noteq> 0"
    by (auto simp: cstr_rd [OF assms(1)] cstr_nth_nonzero [OF assms(1)])
  then show ?case using Suc assms(2) by (simp add: strlcat_scan.simps [of m p siz i])
qed

lemma strlcat_scan_missing:
  assumes "\<And>j. j < siz \<Longrightarrow> \<exists>b. rd m (p + j) = Some b \<and> b \<noteq> 0" "i \<le> siz"
  shows "strlcat_scan m p siz i = Some siz"
  using assms(2)
proof (induction "siz - i" arbitrary: i)
  case 0
  then show ?case by (simp add: strlcat_scan.simps)
next
  case (Suc k)
  then have "i < siz" by simp
  then obtain b where "rd m (p + i) = Some b" "b \<noteq> 0" using assms(1) by blast
  then show ?case using Suc \<open>i < siz\<close> by (simp add: strlcat_scan.simps [of m p siz i])
qed

text \<open>The two branches of \<^verbatim>\<open>strlcpy\<close> and \<^verbatim>\<open>strlcat\<close>: a block of \<open>k\<close> bytes receives what fits and a NUL.\<close>

lemma bounded_copy:
  assumes src: "cstr m q s" and k: "valid_block m b k" "0 < k" "disj_up b q (length s)"
  shows "\<exists>m'. (if length s < k then do { (m', _) \<leftarrow> strcpy m b q; Some m' }
        else do { m1 \<leftarrow> memcpy m b q (k - 1); wr m1 (b + (k - 1)) 0 }) = Some m'
      \<and> m' = put m b (take (k - 1) s @ [0])"
proof (cases "length s < k")
  case True
  then have "valid_block m b (Suc (length s))" using k by (auto simp: valid_block_def)
  then show ?thesis using True k by (simp add: strcpy_def copy_loop_put [OF src])
next
  case False
  have "memcpy m b q (k - 1) = Some (put m b (take (k - 1) s))"
    using False k by (intro memcpy_put [OF src]) (auto simp: valid_block_def)
  moreover have "wr (put m b (take (k - 1) s)) (b + (k - 1)) 0 =
      Some ((put m b (take (k - 1) s))[b + (k - 1) := 0])"
    using k by (auto simp: wr_def valid_block_def)
  ultimately show ?thesis using False by (simp add: put_append)
qed

lemma cstr_put_append:
  assumes "cstr m p d" "valid_block m (p + length d) (Suc (length s))" "0 \<notin> set s"
  shows "cstr (put m (p + length d) (s @ [0])) p (d @ s)"
  unfolding cstr_append
proof (intro conjI allI impI)
  fix i assume "i < length d"
  then show "rd (put m (p + length d) (s @ [0])) (p + i) = Some (d ! i)"
    using assms(2) cstr_rd [OF assms(1)] by (subst rd_put_outside) auto
  show "d ! i \<noteq> 0" using \<open>i < length d\<close> cstr_nonzero [OF assms(1)] by (auto dest: nth_mem)
next
  show "cstr (put m (p + length d) (s @ [0])) (p + length d) s"
    using assms(2,3) by (intro cstr_put_same) auto
qed

lemma strlcpy_fits:
  assumes src: "cstr m q s" and blk: "valid_block m p siz" "0 < siz" and disj: "p + siz \<le> q \<or> q + length s < p"
  obtains m' where "strlcpy m p q siz = Some (m', length s)" "cstr m' p (take (siz - 1) s)"
    "\<And>x. x < p \<or> p + siz \<le> x \<Longrightarrow> rd m' x = rd m x"
proof -
  let ?m = "put m p (take (siz - 1) s @ [0])"
  have nz: "0 \<notin> set (take (siz - 1) s)" using cstr_nonzero [OF src] by (auto dest: in_set_takeD)
  have v: "valid_block m p (Suc (length (take (siz - 1) s)))" using blk by (auto simp: valid_block_def)
  have u: "disj_up p q (length s)" using disj blk(2) by (auto simp: disj_up_def)
  have "strlcpy m p q siz = Some (?m, length s)"
    using bounded_copy [OF src blk u] blk(2) by (auto simp: strlcpy_def strlen_cstr [OF src] split: if_splits bind_splits)
  moreover have "cstr ?m p (take (siz - 1) s)" using v nz by (intro cstr_put_same) auto
  moreover have "rd ?m x = rd m x" if "x < p \<or> p + siz \<le> x" for x
    using that v blk(2) by (subst rd_put_outside) auto
  ultimately show ?thesis by (rule that)
qed

lemma strlcat_fits:
  assumes src: "cstr m q s" and blk: "valid_block m p siz" and d: "cstr m p d" "length d < siz"
    and disj: "p + siz \<le> q \<or> q + length s < p" and fits: "length d + length s < 2 ^ 32"
  obtains m' where "strlcat m p q siz = Some (m', length d + length s)" "cstr m' p (take (siz - 1) (d @ s))"
    "\<And>x. x < p \<or> p + siz \<le> x \<Longrightarrow> rd m' x = rd m x"
proof -
  let ?k = "siz - length d" let ?b = "p + length d"
  let ?m = "put m ?b (take (?k - 1) s @ [0])"
  have nz: "0 \<notin> set (take (?k - 1) s)" using cstr_nonzero [OF src] by (auto dest: in_set_takeD)
  have b: "valid_block m ?b ?k" "0 < ?k" using blk d(2) by (auto simp: valid_block_def)
  have v: "valid_block m ?b (Suc (length (take (?k - 1) s)))" using blk d(2) by (auto simp: valid_block_def)
  have u: "disj_up ?b q (length s)" using disj d(2) by (auto simp: disj_up_def)
  have "strlcat m p q siz = Some (?m, length d + length s)"
    using bounded_copy [OF src b u] d(2) fits
    by (auto simp: strlcat_def strlen_cstr [OF src] strlcat_scan_found [OF d] size_t_def
        split: if_splits bind_splits)
  moreover have "cstr ?m p (take (siz - 1) (d @ s))"
    using cstr_put_append [OF d(1) v nz] d(2) by simp
  moreover have "rd ?m x = rd m x" if "x < p \<or> p + siz \<le> x" for x
    using that v d(2) by (subst rd_put_outside) auto
  ultimately show ?thesis by (rule that)
qed

text \<open>Case conversion in place, over the conversion of one byte.\<close>

locale in_place =
  fixes conv :: "byte \<Rightarrow> byte" and loop :: "mem \<Rightarrow> addr \<Rightarrow> mem option"
  assumes loop_unfold: "loop m s =
      Option.bind (rd m s) (\<lambda>c. if c = 0 then Some m
        else Option.bind (wr m s (conv c)) (\<lambda>m'. loop m' (s + 1)))"
    and conv_0: "conv c = 0 \<longleftrightarrow> c = 0"
begin

lemma loop_put: "cstr m p s \<Longrightarrow> loop m p = Some (put m p (map conv s))"
proof (induction s arbitrary: m p)
  case Nil
  then show ?case by (simp add: loop_unfold [of m p])
next
  case (Cons c s)
  then have "loop (m[p := conv c]) (Suc p) = Some (put (m[p := conv c]) (Suc p) (map conv s))"
    by (intro Cons.IH) (auto intro: cstr_upd_other)
  moreover have "wr m p (conv c) = Some (m[p := conv c])"
    using Cons.prems by (simp add: wr_def rd_Some_iff)
  ultimately show ?case using Cons.prems by (simp add: loop_unfold [of m p])
qed

lemma conv_string:
  assumes "cstr m p s"
  shows "cstr (put m p (map conv s)) p (map conv s)"
  using assms
proof (induction s arbitrary: m p)
  case (Cons c s)
  then have c: "0 < p" "p < length m" "c \<noteq> 0" "cstr (m[p := conv c]) (Suc p) s"
    by (auto simp: rd_Some_iff intro: cstr_upd_other)
  have "valid_block (m[p := conv c]) (Suc p) (length (map conv s))"
    using cstr_bound [OF c(4)] by (simp add: valid_block_def)
  then have "rd (put m p (map conv (c # s))) p = Some (conv c)"
    using c by (simp add: rd_put_outside) (simp add: rd_def)
  then show ?case using Cons.IH [OF c(4)] c(3) conv_0 by simp
qed simp

end

interpretation lower: in_place tolower_byte strlwr_loop
  by unfold_locales (rule strlwr_loop.simps, simp)

interpretation upper: in_place toupper_byte strupr_loop
  by unfold_locales (rule strupr_loop.simps, simp)

lemma strxfrm_loop_put:
  "cstr m q s \<Longrightarrow> valid_block m p (Suc n) \<Longrightarrow> disj_up p q (length s) \<Longrightarrow>
     strxfrm_loop m p q (Suc n) r = Some (put m p (take n s), p + length (take n s), r + length s)"
proof (induction n arbitrary: m p q s r)
  case 0
  show ?case
  proof (cases s)
    case (Cons c s')
    then have "strlen_loop m (Suc q) = Some (Suc q + length s')" "rd m q = Some c" "c \<noteq> 0"
      using 0 strlen_loop_cstr [of m "Suc q" s'] by auto
    then show ?thesis using Cons by simp
  qed (use 0 in simp)
next
  case (Suc n)
  show ?case
  proof (cases s)
    case (Cons c s')
    then have "strxfrm_loop (m[p := c]) (Suc p) (Suc q) (Suc n) (Suc r) =
        Some (put (m[p := c]) (Suc p) (take n s'), Suc p + length (take n s'), Suc r + length s')"
      using Suc.prems by (intro Suc.IH) (auto intro: up_step simp del: cstr.simps)
    then show ?thesis using Suc.prems Cons by (simp add: wr_valid)
  qed (use Suc.prems in simp)
qed

section \<open>Properties\<close>

text \<open>
  \<^verbatim>\<open>strcpy\<close> and \<^verbatim>\<open>stpcpy\<close>, with room for the result and a destination that does not run into the
  source from above: the destination then holds a string equal to the source, the returned pointers
  are the destination and the address of the new NUL, and no byte outside the written block changes.
\<close>

theorem strcpy_copies:
  assumes "cstr m q s" "valid_block m p (Suc (length s))" "disj_up p q (length s)"
  shows "\<exists>m'. strcpy m p q = Some (m', p) \<and> stpcpy m p q = Some (m', p + length s) \<and> cstr m' p s
      \<and> length m' = length m \<and> (\<forall>x. x < p \<or> p + length s < x \<longrightarrow> rd m' x = rd m x)"
proof -
  have "0 < p" "0 < q" using assms by (auto simp: valid_block_def dest: cstr_positive)
  moreover have "cstr (put m p (s @ [0])) p s"
    using assms(2) cstr_nonzero [OF assms(1)] by (intro cstr_put_same) auto
  ultimately show ?thesis
    using assms(2) by (auto simp: strcpy_def stpcpy_def copy_loop_put [OF assms] rd_put_outside)
qed

theorem strcpy_copies_witness:
  "\<exists>m'. strcpy [0, 97, 98, 0, 1, 1, 1] 4 1 = Some (m', 4) \<and> cstr m' 4 [97, 98]"
proof -
  have "cstr [0, 97, 98, 0, 1, 1, 1] 1 [97, 98]"
    "valid_block [0, 97, 98, 0, 1, 1, 1] 4 (Suc (length [97 :: byte, 98]))"
    "disj_up 4 1 (length [97 :: byte, 98])"
    by (simp_all add: rd_def valid_block_def disj_up_def)
  from strcpy_copies [OF this] show ?thesis by blast
qed

text \<open>
  \<^verbatim>\<open>strcat\<close> and \<^verbatim>\<open>strncat\<close> append the source, or its first \<open>n\<close> bytes, to the destination string and
  terminate the result; nothing but the bytes from the old terminator on is written.
\<close>

theorem strcat_appends:
  assumes "cstr m q s" "cstr m e d" "valid_block m (e + length d) (Suc (length s))"
    and "disj_up (e + length d) q (length s)"
  shows "\<exists>m' m''. strcat m e q = Some (m', e) \<and> cstr m' e (d @ s)
      \<and> strncat m e q n = Some (m'', e) \<and> cstr m'' e (d @ take n s)
      \<and> (\<forall>x. x < e + length d \<or> e + length d + length s < x \<longrightarrow> rd m' x = rd m x \<and> rd m'' x = rd m x)"
proof -
  let ?m' = "put m (e + length d) (s @ [0])"
  have cat: "strcat m e q = Some (?m', e)" "cstr ?m' e (d @ s)"
    using cstr_put_append [OF assms(2,3) cstr_nonzero [OF assms(1)]]
    by (simp_all add: strcat_def strlen_loop_cstr [OF assms(2)] copy_loop_put [OF assms(1,3,4)])
  have "\<exists>m''. strncat m e q n = Some (m'', e) \<and> cstr m'' e (d @ take n s)
      \<and> (\<forall>x. x < e + length d \<or> e + length d + length s < x \<longrightarrow> rd m'' x = rd m x)"
  proof (cases "n = 0")
    case True
    then show ?thesis using assms(2) by (simp add: strncat_def)
  next
    case False
    obtain m1 where m1: "strncat_loop m (e + length d) q n = Some (m1, e + length d + length (take n s))"
      "m1[e + length d + length (take n s) := 0] = put m (e + length d) (take n s @ [0])"
      using strncat_loop_put [OF assms(1,3,4), of n] by auto
    have "length m1 = length m"
      using m1(2) by (metis length_list_update put_length)
    then have "wr m1 (e + length d + length (take n s)) 0 = Some (put m (e + length d) (take n s @ [0]))"
      using assms(3) m1(2) by (auto simp: wr_def valid_block_def)
    moreover have v: "valid_block m (e + length d) (Suc (length (take n s)))"
      using assms(3) by (auto simp: valid_block_def)
    moreover have "cstr (put m (e + length d) (take n s @ [0])) e (d @ take n s)"
      using cstr_put_append [OF assms(2) v] cstr_nonzero [OF assms(1)] by (auto dest: in_set_takeD)
    ultimately show ?thesis
      using False m1 by (auto simp: strncat_def strlen_loop_cstr [OF assms(2)] rd_put_outside)
  qed
  with cat assms(3) show ?thesis by (force simp: rd_put_outside)
qed

theorem strcat_appends_witness:
  "\<exists>m'. strcat [0, 97, 0, 98, 99, 0, 0, 0] 3 1 = Some (m', 3) \<and> cstr m' 3 [98, 99, 97]"
proof -
  have "cstr [0, 97, 0, 98, 99, 0, 0, 0] 1 [97]" "cstr [0, 97, 0, 98, 99, 0, 0, 0] 3 [98, 99]"
    "valid_block [0, 97, 0, 98, 99, 0, 0, 0] (3 + length [98 :: byte, 99]) (Suc (length [97 :: byte]))"
    "disj_up (3 + length [98 :: byte, 99]) 1 (length [97 :: byte])"
    by (simp_all add: rd_def valid_block_def disj_up_def)
  from strcat_appends [OF this, of 0] show ?thesis by auto
qed

text \<open>
  \<^verbatim>\<open>strncpy\<close> and \<^verbatim>\<open>stpncpy\<close> write exactly \<open>n\<close> bytes: the first \<open>n\<close> bytes of the source, padded with
  NULs, and no terminator when the source has \<open>n\<close> or more bytes. \<^verbatim>\<open>stpncpy\<close>, which writes its padding
  backwards, leaves the same memory and returns the address of the first NUL, or the end of the block.
\<close>

theorem strncpy_pads:
  assumes "cstr m q s" "valid_block m p n" "disj_up p q (length s)"
  shows "\<exists>m'. strncpy m p q n = Some (m', p) \<and> stpncpy m p q n = Some (m', p + min n (length s))
      \<and> (\<forall>i < n. rd m' (p + i) = Some (if i < length s then s ! i else 0))
      \<and> (\<forall>x. x < p \<or> p + n \<le> x \<longrightarrow> rd m' x = rd m x)"
proof -
  let ?bs = "take n s @ replicate (n - length s) 0"
  have len: "length ?bs = n" by simp
  have "0 < p" "0 < q" using assms by (auto simp: valid_block_def dest: cstr_positive)
  moreover have "rd (put m p ?bs) (p + i) = Some (if i < length s then s ! i else 0)" if "i < n" for i
    using that assms(2) len by (subst rd_put) (auto simp: nth_append)
  moreover have "rd (put m p ?bs) x = rd m x" if "x < p \<or> p + n \<le> x" for x
    using that assms(2) len by (subst rd_put_outside) auto
  ultimately show ?thesis
    by (simp add: strncpy_def stpncpy_def strncpy_loop_put [OF assms] stpncpy_loop_put [OF assms] min.commute)
qed

theorem strncpy_pads_witness:
  "\<exists>m'. stpncpy [0, 97, 0, 1, 1, 1] 3 1 3 = Some (m', 4) \<and> rd m' 5 = Some 0"
proof -
  have "cstr [0, 97, 0, 1, 1, 1] 1 [97]" "valid_block [0, 97, 0, 1, 1, 1] 3 3"
    "disj_up 3 1 (length [97 :: byte])"
    by (simp_all add: rd_def valid_block_def disj_up_def)
  from strncpy_pads [OF this] obtain m' where
    "stpncpy [0, 97, 0, 1, 1, 1] 3 1 3 = Some (m', 3 + min 3 (length [97 :: byte]))"
    "\<forall>i < 3. rd m' (3 + i) = Some (if i < length [97 :: byte] then [97] ! i else 0)" by blast
  then show ?thesis by (auto dest: spec [where x = 2])
qed

text \<open>
  C32. \<^verbatim>\<open>strlcpy\<close> and \<^verbatim>\<open>strlcat\<close> with a buffer of \<open>siz\<close> bytes that does not overlap the source never write outside the
  buffer. \<^verbatim>\<open>strlcpy\<close> stores as much of the source as fits, terminated, and with a size of zero writes nothing; it returns
  the length of the source. If there is a string in the buffer, \<^verbatim>\<open>strlcat\<close> appends as much of the source as fits,
  terminated, and returns the length of the two strings, so that a result below \<open>siz\<close> means that nothing was lost. If
  none of the \<open>siz\<close> bytes is a NUL, \<^verbatim>\<open>strlcat\<close> changes nothing and returns \<open>siz\<close> plus the length of the source.
\<close>

theorem strl_truncate:
  assumes src: "cstr m q s" and blk: "valid_block m p siz"
    and disj: "p + siz \<le> q \<or> q + length s < p" and fits: "siz + length s < 2 ^ 32"
  shows "(if siz = 0 then strlcpy m p q siz = Some (m, length s)
     else \<exists>m'. strlcpy m p q siz = Some (m', length s) \<and> cstr m' p (take (siz - 1) s) \<and>
       (\<forall>x. x < p \<or> p + siz \<le> x \<longrightarrow> rd m' x = rd m x)) \<and>
   (\<forall>d. cstr m p d \<and> length d < siz \<longrightarrow>
     (\<exists>m'. strlcat m p q siz = Some (m', length d + length s) \<and> cstr m' p (take (siz - 1) (d @ s)) \<and>
       (\<forall>x. x < p \<or> p + siz \<le> x \<longrightarrow> rd m' x = rd m x))) \<and>
   ((\<forall>i < siz. rd m (p + i) \<noteq> Some 0) \<longrightarrow> strlcat m p q siz = Some (m, siz + length s))"
proof (intro conjI allI impI)
  show "if siz = 0 then strlcpy m p q siz = Some (m, length s)
     else \<exists>m'. strlcpy m p q siz = Some (m', length s) \<and> cstr m' p (take (siz - 1) s) \<and>
       (\<forall>x. x < p \<or> p + siz \<le> x \<longrightarrow> rd m' x = rd m x)"
  proof (cases "siz = 0")
    case True
    then show ?thesis by (simp add: strlcpy_def strlen_cstr [OF src])
  next
    case False
    then show ?thesis by (auto intro: strlcpy_fits [OF src blk _ disj])
  qed
next
  fix d assume d: "cstr m p d \<and> length d < siz"
  then show "\<exists>m'. strlcat m p q siz = Some (m', length d + length s) \<and> cstr m' p (take (siz - 1) (d @ s)) \<and>
       (\<forall>x. x < p \<or> p + siz \<le> x \<longrightarrow> rd m' x = rd m x)"
    using fits by (auto intro: strlcat_fits [OF src blk _ _ disj, of d])
next
  assume "\<forall>i < siz. rd m (p + i) \<noteq> Some 0"
  then have "strlcat_scan m p siz 0 = Some siz"
    using blk by (intro strlcat_scan_missing) (auto simp: rd_def valid_block_def split: if_splits)
  then show "strlcat m p q siz = Some (m, siz + length s)"
    using fits by (simp add: strlcat_def strlen_cstr [OF src] size_t_def)
qed

theorem strl_truncate_witness:
  "(\<exists>m'. strlcpy [0, 97, 98, 99, 0, 120, 0, 0] 5 1 3 = Some (m', 3) \<and> cstr m' 5 [97, 98])
     \<and> (\<exists>m'. strlcat [0, 97, 98, 99, 0, 120, 0, 0] 5 1 3 = Some (m', 4) \<and> cstr m' 5 [120, 97])
     \<and> strlcat [0, 97, 98, 99, 0, 120, 0, 0] 5 1 1 = Some ([0, 97, 98, 99, 0, 120, 0, 0], 4)"
proof -
  let ?m = "[0, 97, 98, 99, 0, 120, 0, 0] :: mem"
  have c: "cstr ?m 1 [97, 98, 99]" "valid_block ?m 5 3" "valid_block ?m 5 1" "cstr ?m 5 [120]"
    by (simp_all add: rd_def valid_block_def)
  have n: "length [97 :: byte, 98, 99] = 3" "(5 :: nat) + 3 \<le> 1 \<or> 1 + 3 < (5 :: nat)" "(3 :: nat) + 3 < 2 ^ 32" "length [120 :: byte] < 3"
    "\<forall>i < 1. rd ?m (5 + i) \<noteq> Some 0" by (simp_all add: rd_def)
  note a = strl_truncate [OF c(1,2), unfolded n(1), OF n(2,3)]
  have "\<exists>m'. strlcpy ?m 5 1 3 = Some (m', 3) \<and> cstr m' 5 (take (3 - 1) [97, 98, 99])"
    using conjunct1 [OF a] by (simp del: cstr.simps) blast
  moreover have "\<exists>m'. strlcat ?m 5 1 3 = Some (m', length [120 :: byte] + 3) \<and> cstr m' 5 (take (3 - 1) ([120] @ [97, 98, 99]))"
    using spec [OF conjunct1 [OF conjunct2 [OF a]], of "[120]"] c(4) n(4) by blast
  moreover have "strlcat ?m 5 1 1 = Some (?m, 1 + 3)" using strl_truncate [OF c(1,3), unfolded n(1)] n(5) by simp
  ultimately show ?thesis by simp
qed

text \<open>
  \<^verbatim>\<open>strlwr\<close> and \<^verbatim>\<open>strupr\<close> turn the string in place into its conversion, byte by byte. \<^verbatim>\<open>strxfrm\<close>
  with \<open>n > 0\<close> stores the first \<open>n - 1\<close> bytes of the source and a NUL and returns the whole length;
  with \<open>n = 0\<close>, where the standard asks for the length as well, it returns 0.
\<close>

theorem conversions_in_place:
  assumes "cstr m q s" "valid_block m p (Suc n)" "disj_up p q (length s)"
  shows "\<exists>m1 m2 m3. strlwr m q = Some (m1, q) \<and> cstr m1 q (map tolower_byte s)
      \<and> strupr m q = Some (m2, q) \<and> cstr m2 q (map toupper_byte s)
      \<and> strxfrm m p q (Suc n) = Some (m3, length s) \<and> cstr m3 p (take n s)
      \<and> strxfrm m p q 0 = Some (m, 0)"
proof -
  have nz: "0 \<notin> set (take n s)" using cstr_nonzero [OF assms(1)] by (auto dest: in_set_takeD)
  have v: "valid_block m p (Suc (length (take n s)))" using assms(2) by (auto simp: valid_block_def)
  then have "wr (put m p (take n s)) (p + length (take n s)) 0 = Some (put m p (take n s @ [0]))"
    by (auto simp: wr_def valid_block_def put_append)
  moreover have "cstr (put m p (take n s @ [0])) p (take n s)"
    using v nz by (intro cstr_put_same) auto
  ultimately show ?thesis
    using lower.conv_string [OF assms(1)] upper.conv_string [OF assms(1)]
    by (simp add: strlwr_def strupr_def strxfrm_def lower.loop_put [OF assms(1)]
        upper.loop_put [OF assms(1)] strxfrm_loop_put [OF assms] del: strxfrm_loop.simps)
qed

theorem conversions_in_place_witness:
  "\<exists>m1. strlwr [0, 65, 98, 0, 0, 0, 0] 1 = Some (m1, 1) \<and> cstr m1 1 [97, 98]
     \<and> strxfrm [0, 65, 98, 0, 0, 0, 0] 4 1 0 = Some ([0, 65, 98, 0, 0, 0, 0], 0)"
proof -
  have "cstr [0, 65, 98, 0, 0, 0, 0] 1 [65, 98]" "valid_block [0, 65, 98, 0, 0, 0, 0] 4 (Suc 2)"
    "disj_up 4 1 (length [65 :: byte, 98])"
    by (simp_all add: rd_def valid_block_def disj_up_def)
  moreover have "map tolower_byte [65, 98] = [97, 98]"
    by (simp add: uint_case_byte)
  ultimately show ?thesis using conversions_in_place [of _ 1 "[65, 98]" 4 2] by auto
qed

end
