(* ===== verification/Strtok.thy ===== *)
theory Strtok
  imports Cstring_Write
begin

text \<open>
  Tokenisers that cut a string in place: \<^verbatim>\<open>strsep\<close> of \<^verbatim>\<open>compat/string\<close>, \<^verbatim>\<open>strtok_r\<close> of \<^verbatim>\<open>posix/string\<close> and
  \<^verbatim>\<open>strtok\<close> of \<^verbatim>\<open>ansi/string\<close>, whose static variable \<open>last\<close> is passed explicitly. A call returns the new
  memory, the token and the saved pointer.
\<close>

section \<open>Definitions\<close>

text \<open>The loop that both routines run over the token: find the first byte that is a delimiter or NUL.\<close>

function strsep_scan :: "mem \<Rightarrow> addr \<Rightarrow> addr \<Rightarrow> (addr \<times> byte) option" where
  "strsep_scan m s delim =
     do { c \<leftarrow> rd m s; found \<leftarrow> span_to m c delim;
          if found then Some (s, c) else strsep_scan m (s + 1) delim }"
  by pat_completeness auto
termination
  by (relation "measure (\<lambda>(m, s, delim). length m - s)") (auto dest: rd_less)

definition strsep :: "mem \<Rightarrow> addr \<Rightarrow> addr \<Rightarrow> (mem \<times> addr \<times> addr) option" where
  "strsep m stringp delim =
     (if stringp = NULL then Some (m, NULL, stringp)
      else do { (e, c) \<leftarrow> strsep_scan m stringp delim;
                if c = 0 then Some (m, stringp, NULL)
                else do { m' \<leftarrow> wr m e 0; Some (m', stringp, e + 1) } })"

text \<open>\<^verbatim>\<open>cont: c = *s++; for (spanp = delim; (sc = *spanp++) != 0;) if (c == sc) goto cont;\<close>\<close>

function strtok_skip :: "mem \<Rightarrow> addr \<Rightarrow> addr \<Rightarrow> (addr \<times> byte) option" where
  "strtok_skip m s delim =
     do { c \<leftarrow> rd m s; found \<leftarrow> span_in m c delim;
          if found then strtok_skip m (s + 1) delim else Some (s, c) }"
  by pat_completeness auto
termination
  by (relation "measure (\<lambda>(m, s, delim). length m - s)") (auto dest: rd_less)

definition strtok_r :: "mem \<Rightarrow> addr \<Rightarrow> addr \<Rightarrow> addr \<Rightarrow> (mem \<times> addr \<times> addr) option" where
  "strtok_r m s delim lst =
     (let s = (if s = NULL then lst else s) in
      if s = NULL then Some (m, NULL, lst)
      else do { (tok, c) \<leftarrow> strtok_skip m s delim;
                if c = 0 then Some (m, NULL, NULL)
                else do { (e, c) \<leftarrow> strsep_scan m (tok + 1) delim;
                          if c = 0 then Some (m, tok, NULL)
                          else do { m' \<leftarrow> wr m e 0; Some (m', tok, e + 1) } } })"

text \<open>The process-wide state of \<^verbatim>\<open>strtok\<close> is its static \<open>last\<close>.\<close>

definition strtok :: "mem \<Rightarrow> addr \<Rightarrow> addr \<Rightarrow> addr \<Rightarrow> (mem \<times> addr \<times> addr) option" where
  "strtok m s delim static_last = strtok_r m s delim static_last"

text \<open>
  A caller's loop: the first call passes the string, each following one the null pointer, until the
  null pointer comes back. At most \<open>k\<close> calls are made.
\<close>

fun strtok_run :: "nat \<Rightarrow> mem \<Rightarrow> addr \<Rightarrow> addr \<Rightarrow> addr \<Rightarrow> (mem \<times> addr list) option" where
  "strtok_run 0 m s delim lst = None"
| "strtok_run (Suc k) m s delim lst =
     do { (m', tok, lst') \<leftarrow> strtok m s delim lst;
          if tok = NULL then Some (m', [])
          else do { (m'', toks) \<leftarrow> strtok_run k m' NULL delim lst'; Some (m'', tok # toks) } }"

fun strsep_run :: "nat \<Rightarrow> mem \<Rightarrow> addr \<Rightarrow> addr \<Rightarrow> (mem \<times> addr list) option" where
  "strsep_run 0 m stringp delim = None"
| "strsep_run (Suc k) m stringp delim =
     do { (m', tok, stringp') \<leftarrow> strsep m stringp delim;
          if tok = NULL then Some (m', [])
          else do { (m'', toks) \<leftarrow> strsep_run k m' stringp' delim; Some (m'', tok # toks) } }"

declare strsep_scan.simps [simp del] strtok_skip.simps [simp del]

section \<open>What a call computes\<close>

lemma strsep_scan_cstr:
  "cstr m p s \<Longrightarrow> cstr m q t \<Longrightarrow>
     strsep_scan m p q = (let w = takeWhile (\<lambda>c. c \<notin> set t) s in
       Some (p + length w, if length w < length s then s ! length w else 0))"
proof (induction s arbitrary: p)
  case Nil
  then show ?case by (simp add: strsep_scan.simps [of m p] span_to_cstr)
next
  case (Cons a s)
  then show ?case by (simp add: strsep_scan.simps [of m p] span_to_cstr Let_def)
qed

lemma strtok_skip_cstr:
  "cstr m p s \<Longrightarrow> cstr m q t \<Longrightarrow>
     strtok_skip m p q = (let u = takeWhile (\<lambda>c. c \<in> set t) s in
       Some (p + length u, if length u < length s then s ! length u else 0))"
proof (induction s arbitrary: p)
  case Nil
  then show ?case by (simp add: strtok_skip.simps [of m p] span_in_cstr cstr_nonzero)
next
  case (Cons a s)
  then show ?case by (simp add: strtok_skip.simps [of m p] span_in_cstr Let_def)
qed

text \<open>Cutting a string at a byte leaves its two parts as strings.\<close>

lemma cstr_cut:
  assumes "cstr m p (w @ c # r)"
  shows "wr m (p + length w) 0 = Some (m[p + length w := 0])"
    and "cstr (m[p + length w := 0]) p w" and "cstr (m[p + length w := 0]) (Suc (p + length w)) r"
proof -
  have c: "cstr m (p + length w) (c # r)" and w: "\<forall>i < length w. rd m (p + i) = Some (w ! i) \<and> w ! i \<noteq> 0"
    using assms by (simp_all add: cstr_append)
  then have bound: "0 < p + length w" "p + length w < length m" by (auto simp: rd_Some_iff)
  then show "wr m (p + length w) 0 = Some (m[p + length w := 0])" by (simp add: wr_def)
  have "cstr (m[p + length w := 0]) p (w @ [])"
    unfolding cstr_append using w bound by (auto simp: rd_update)
  then show "cstr (m[p + length w := 0]) p w" by simp
  from c have "cstr m (Suc (p + length w)) r" by simp
  then show "cstr (m[p + length w := 0]) (Suc (p + length w)) r"
    by (rule cstr_upd_other) simp
qed

text \<open>The fields of a string, and its tokens: the non-empty runs of bytes that are no delimiters.\<close>

fun fields :: "byte set \<Rightarrow> byte list \<Rightarrow> byte list list" where
  "fields D [] = [[]]"
| "fields D (c # s) =
     (if c \<in> D then [] # fields D s
      else case fields D s of f # fs \<Rightarrow> (c # f) # fs | [] \<Rightarrow> [[c]])"

definition tokens :: "byte set \<Rightarrow> byte list \<Rightarrow> byte list list" where
  "tokens D s = filter (\<lambda>f. f \<noteq> []) (fields D s)"

lemma fields_nonempty [simp]: "fields D s \<noteq> []"
  by (induction s) (auto split: list.splits)

lemma fields_word: "\<forall>c \<in> set w. c \<notin> D \<Longrightarrow> fields D w = [w]"
  by (induction w) auto

lemma fields_cut: "\<forall>c \<in> set w. c \<notin> D \<Longrightarrow> d \<in> D \<Longrightarrow> fields D (w @ d # r) = w # fields D r"
  by (induction w) auto

lemma tokens_skip: "\<forall>c \<in> set u. c \<in> D \<Longrightarrow> tokens D (u @ s) = tokens D s"
  by (induction u) (auto simp: tokens_def)

lemma tokens_word: "\<forall>c \<in> set w. c \<notin> D \<Longrightarrow> tokens D w = (if w = [] then [] else [w])"
  by (simp add: tokens_def fields_word)

lemma tokens_cut: "w \<noteq> [] \<Longrightarrow> \<forall>c \<in> set w. c \<notin> D \<Longrightarrow> d \<in> D \<Longrightarrow> tokens D (w @ d # r) = w # tokens D r"
  by (simp add: tokens_def fields_cut)

text \<open>Every string starts with a field: either it is all of the string, or a delimiter follows it.\<close>

lemma field_cases:
  obtains (all) "\<forall>c \<in> set s. c \<notin> D"
  | (cut) w d r where "s = w @ d # r" "\<forall>c \<in> set w. c \<notin> D" "d \<in> D"
proof (cases "\<exists>d \<in> set s. d \<in> D")
  case True
  then obtain w d r where "s = w @ d # r" "d \<in> D" "\<forall>c \<in> set w. c \<notin> D"
    using split_list_first_prop [OF True] by blast
  then show ?thesis using cut by blast
qed (use all in blast)

lemma takeWhile_field [simp]:
  "\<forall>c \<in> set w. c \<notin> D \<Longrightarrow> d \<in> D \<Longrightarrow> takeWhile (\<lambda>c. c \<notin> D) (w @ d # r) = w"
  by (induction w) auto

lemma takeWhile_word [simp]: "\<forall>c \<in> set w. c \<notin> D \<Longrightarrow> takeWhile (\<lambda>c. c \<notin> D) w = w"
  by (induction w) auto

lemma scan_word:
  assumes "cstr m p v" "cstr m q t" "\<forall>c \<in> set v. c \<notin> set t"
  shows "strsep_scan m p q = Some (p + length v, 0)"
  using assms(3) by (simp add: strsep_scan_cstr [OF assms(1,2)] Let_def)

lemma scan_cut:
  assumes "cstr m p (w @ d # r)" "cstr m q t" "\<forall>c \<in> set w. c \<notin> set t" "d \<in> set t"
  shows "strsep_scan m p q = Some (p + length w, d)"
  using assms(3,4) by (simp add: strsep_scan_cstr [OF assms(1,2)] Let_def)

lemma strsep_all:
  assumes "cstr m p s" "cstr m q t" "\<forall>c \<in> set s. c \<notin> set t"
  shows "strsep m p q = Some (m, p, 0)"
  using scan_word [OF assms] cstr_positive [OF assms(1)] by (simp add: strsep_def)

lemma strsep_cut:
  assumes "cstr m p (w @ d # r)" "cstr m q t" "\<forall>c \<in> set w. c \<notin> set t" "d \<in> set t"
  shows "strsep m p q = Some (m[p + length w := 0], p, Suc (p + length w))"
  using scan_cut [OF assms] assms(4) cstr_positive [OF assms(1)] cstr_nonzero [OF assms(2)]
    cstr_cut(1) [OF assms(1)]
  by (auto simp: strsep_def)

lemma skip_delims:
  assumes "cstr m p (u @ s)" "cstr m q t" "\<forall>c \<in> set u. c \<in> set t" "s = [] \<or> hd s \<notin> set t"
  shows "strtok_skip m p q = Some (p + length u, if s = [] then 0 else hd s)"
proof -
  have *: "takeWhile (\<lambda>c. c \<in> set t) (u @ s) = u"
    using assms(3,4) by (cases s) (auto simp: takeWhile_append2)
  show ?thesis
    unfolding strtok_skip_cstr [OF assms(1,2)] Let_def * by (cases s) simp_all
qed

lemma tok_first:
  assumes "cstr m p (u @ c # v)" "cstr m q t" "\<forall>c \<in> set u. c \<in> set t" "c \<notin> set t"
  shows "strtok_skip m p q = Some (p + length u, c)" "c \<noteq> 0" "cstr m (p + length u) (c # v)"
  using skip_delims [OF assms(1-3)] assms(1,4) by (auto simp: cstr_append)

lemma strtok_none:
  assumes "cstr m p u" "cstr m q t" "\<forall>c \<in> set u. c \<in> set t"
  shows "strtok_r m p q l = Some (m, 0, 0)"
  using skip_delims [of m p u "[]" q t] assms cstr_positive [OF assms(1)]
  by (simp add: strtok_r_def)

lemma strtok_last:
  assumes "cstr m p (u @ w)" "cstr m q t" "\<forall>c \<in> set u. c \<in> set t" "\<forall>c \<in> set w. c \<notin> set t" "w \<noteq> []"
  shows "strtok_r m p q l = Some (m, p + length u, 0)"
proof -
  obtain c v where w: "w = c # v" using assms(5) by (cases w) auto
  note tok = tok_first [OF assms(1) [unfolded w] assms(2,3)]
  have "strsep_scan m (Suc (p + length u)) q = Some (Suc (p + length u) + length v, 0)"
    using assms(4) tok w by (intro scan_word [OF _ assms(2)]) auto
  then show ?thesis
    using tok assms(4) w cstr_positive [OF assms(1)] by (simp add: strtok_r_def)
qed

lemma strtok_cut:
  assumes "cstr m p (u @ w @ d # r)" "cstr m q t" "\<forall>c \<in> set u. c \<in> set t" "\<forall>c \<in> set w. c \<notin> set t"
    "w \<noteq> []" "d \<in> set t"
  shows "strtok_r m p q l = Some (m[p + length u + length w := 0], p + length u, Suc (p + length u + length w))"
proof -
  obtain c v where w: "w = c # v" using assms(5) by (cases w) auto
  have cut: "cstr m p (u @ c # (v @ d # r))" using assms(1) w by simp
  note tok = tok_first [OF cut assms(2,3)]
  have nt: "c \<notin> set t" "d \<noteq> 0" using assms(4,6) w cstr_nonzero [OF assms(2)] by auto
  have "strsep_scan m (Suc (p + length u)) q = Some (Suc (p + length u) + length v, d)"
    using assms(4,6) tok(3) nt w by (intro scan_cut [OF _ assms(2)]) auto
  moreover have "wr m (p + length u + length w) 0 = Some (m[p + length u + length w := 0])"
    using cstr_cut(1) [of m "p + length u" w d r] assms(1) by (simp add: cstr_append add.assoc)
  ultimately show ?thesis
    using tok nt w cstr_positive [OF assms(1)] by (simp add: strtok_r_def add.assoc)
qed

section \<open>Whole runs\<close>

lemma token_cases:
  obtains (none) "\<forall>c \<in> set s. c \<in> D"
  | (final) u w where "s = u @ w" "\<forall>c \<in> set u. c \<in> D" "w \<noteq> []" "\<forall>c \<in> set w. c \<notin> D"
  | (cut) u w d r where "s = u @ w @ d # r" "\<forall>c \<in> set u. c \<in> D" "w \<noteq> []" "\<forall>c \<in> set w. c \<notin> D" "d \<in> D"
proof (cases "\<forall>c \<in> set s. c \<in> D")
  case False
  then obtain u a v where s: "s = u @ a # v" "\<forall>c \<in> set u. c \<in> D" "a \<notin> D"
    using split_list_first_prop [of s "\<lambda>c. c \<notin> D"] by blast
  show ?thesis
  proof (cases rule: field_cases [of v D])
    case all
    then show ?thesis using final [of u "a # v"] s by simp
  next
    case (cut w d r)
    then show ?thesis using that(3) [of u "a # w" d r] s by simp
  qed
qed (use none in blast)

lemma strtok_NULL: "strtok_r m 0 q l = strtok_r m l q l"
  by (simp add: strtok_r_def Let_def)

lemma strtok_first: "p \<noteq> 0 \<Longrightarrow> strtok_r m p q l = strtok_r m p q l'"
  by (simp add: strtok_r_def)

text \<open>
  The state between two calls: the rest of the text at the saved pointer, and the delimiters outside
  of it. A run only writes inside the text, and finds its tokens in order.
\<close>

lemma strtok_run_tokens:
  "cstr m p s \<Longrightarrow> cstr m q t \<Longrightarrow> q + length t < p \<or> p + length s < q \<Longrightarrow> length s < k \<Longrightarrow>
     \<exists>m' ts. strtok_run k m (if first then p else 0) q (if first then l else p) = Some (m', ts)
       \<and> list_all2 (cstr m') ts (tokens (set t) s)
       \<and> (\<forall>x. x < p \<or> p + length s \<le> x \<longrightarrow> rd m' x = rd m x)"
proof (induction k arbitrary: m p s first l)
  case (Suc k)
  have call: "strtok m (if first then p else 0) q (if first then l else p) = strtok_r m p q p"
    using cstr_positive [OF Suc.prems(1)] by (auto simp: strtok_def strtok_NULL strtok_first [of p m q l p])
  show ?case
  proof (cases rule: token_cases [of s "set t"])
    case none
    then show ?thesis
      using call strtok_none [OF Suc.prems(1,2) none] tokens_skip [of s "set t" "[]"]
      by (auto simp: tokens_def)
  next
    case (final u w)
    have "strtok_r m p q p = Some (m, p + length u, 0)"
      using Suc.prems(1) final by (intro strtok_last [OF _ Suc.prems(2)]) auto
    moreover have "strtok_run k m 0 q 0 = Some (m, [])"
      using Suc.prems(4) final by (cases k) (auto simp: strtok_def strtok_r_def)
    moreover have "cstr m (p + length u) w" "0 < p"
      using Suc.prems(1) final cstr_positive [OF Suc.prems(1)] by (auto simp: cstr_append)
    ultimately show ?thesis
      using call final by (auto simp: tokens_skip tokens_word)
  next
    case (cut u w d r)
    let ?e = "p + length u + length w" let ?m = "m[p + length u + length w := 0]"
    have s1: "cstr m (p + length u) (w @ d # r)"
      using Suc.prems(1) cut(1) by (auto simp: cstr_append add.assoc)
    have r: "strtok_r m p q p = Some (?m, p + length u, Suc ?e)"
      using Suc.prems(1) cut by (intro strtok_cut [OF _ Suc.prems(2)]) auto
    have len: "length s = length u + length w + Suc (length r)" using cut(1) by simp
    have t': "cstr ?m q t" using Suc.prems(2,3) len by (intro cstr_upd_other) auto
    obtain m' ts where IH: "strtok_run k ?m 0 q (Suc ?e) = Some (m', ts)"
      "list_all2 (cstr m') ts (tokens (set t) r)"
      "\<forall>x. x < Suc ?e \<or> Suc ?e + length r \<le> x \<longrightarrow> rd m' x = rd ?m x"
      using Suc.IH [OF cstr_cut(3) [OF s1] t', of False] Suc.prems(3,4) len by auto
    have w': "cstr m' (p + length u) w"
      using cstr_cut(2) [OF s1] by (rule cstr_frame) (use IH(3) in auto)
    have frame: "rd m' x = rd m x" if "x < p \<or> p + length s \<le> x" for x
      using that IH(3) len by (auto simp: rd_update)
    have "tokens (set t) s = w # tokens (set t) r"
      using cut by (simp add: tokens_skip tokens_cut)
    then show ?thesis
      using call r IH(1,2) w' frame cstr_positive [OF Suc.prems(1)] by auto
  qed
qed simp

lemma strsep_run_fields:
  "cstr m p s \<Longrightarrow> cstr m q t \<Longrightarrow> q + length t < p \<or> p + length s < q \<Longrightarrow> Suc (length s) < k \<Longrightarrow>
     \<exists>m' ts. strsep_run k m p q = Some (m', ts) \<and> list_all2 (cstr m') ts (fields (set t) s)
       \<and> (\<forall>x. x < p \<or> p + length s \<le> x \<longrightarrow> rd m' x = rd m x)"
proof (induction k arbitrary: m p s)
  case (Suc k)
  have p: "0 < p" using cstr_positive [OF Suc.prems(1)] .
  show ?case
  proof (cases rule: field_cases [of s "set t"])
    case all
    have "strsep_run k m 0 q = Some (m, [])"
      using Suc.prems(4) by (cases k) (auto simp: strsep_def)
    then show ?thesis
      using strsep_all [OF Suc.prems(1,2) all] Suc.prems(1) p all by (auto simp: fields_word)
  next
    case (cut w d r)
    let ?e = "p + length w" let ?m = "m[p + length w := 0]"
    note s1 = Suc.prems(1) [unfolded cut(1)]
    have len: "length s = length w + Suc (length r)" using cut(1) by simp
    have t': "cstr ?m q t" using Suc.prems(2,3) len by (intro cstr_upd_other) auto
    obtain m' ts where IH: "strsep_run k ?m (Suc ?e) q = Some (m', ts)"
      "list_all2 (cstr m') ts (fields (set t) r)"
      "\<forall>x. x < Suc ?e \<or> Suc ?e + length r \<le> x \<longrightarrow> rd m' x = rd ?m x"
      using Suc.IH [OF cstr_cut(3) [OF s1] t'] Suc.prems(3,4) len by auto
    have w': "cstr m' p w"
      using cstr_cut(2) [OF s1] by (rule cstr_frame) (use IH(3) in auto)
    have frame: "rd m' x = rd m x" if "x < p \<or> p + length s \<le> x" for x
      using that IH(3) len by (auto simp: rd_update)
    have "fields (set t) s = w # fields (set t) r" using cut by (simp add: fields_cut)
    then show ?thesis
      using strsep_cut [OF s1 Suc.prems(2) cut(2,3)] IH(1,2) w' frame p by auto
  qed
qed simp

section \<open>Properties\<close>

text \<open>
  C33. Calling \<^verbatim>\<open>strtok\<close> on a string and then on the null pointer until it returns the null pointer
  yields exactly the tokens of the string, in order and each as a string of its own, for any set of
  delimiters kept outside the string; nothing outside the string is changed. One call more than the
  length of the string is always enough.
\<close>

theorem strtok_all_tokens:
  assumes "cstr m p s" "cstr m q t" "q + length t < p \<or> p + length s < q"
  shows "\<exists>m' ts. strtok_run (Suc (length s)) m p q l = Some (m', ts)
    \<and> list_all2 (cstr m') ts (tokens (set t) s)
    \<and> (\<forall>x. x < p \<or> p + length s \<le> x \<longrightarrow> rd m' x = rd m x)"
  using strtok_run_tokens [OF assms, of "Suc (length s)" True l] by simp

theorem strtok_all_tokens_witness:
  "\<exists>m' ts. strtok_run 6 [0, 44, 97, 44, 98, 99, 0, 44, 0] 1 7 0 = Some (m', ts)
     \<and> list_all2 (cstr m') ts [[97], [98, 99]]"
proof -
  let ?m = "[0, 44, 97, 44, 98, 99, 0, 44, 0] :: mem"
  have "cstr ?m 1 [44, 97, 44, 98, 99]" "cstr ?m 7 [44]"
    "7 + length [44 :: byte] < 1 \<or> 1 + length [44 :: byte, 97, 44, 98, 99] < 7"
    by (simp_all add: rd_def)
  moreover have "Suc (length [44 :: byte, 97, 44, 98, 99]) = 6" by simp
  ultimately show ?thesis
    using strtok_all_tokens [of ?m 1 "[44, 97, 44, 98, 99]" 7 "[44]" 0]
    by (auto simp: tokens_def simp del: strtok_run.simps list.size)
qed

text \<open>
  \<^verbatim>\<open>strsep\<close>, called until it returns the null pointer, yields every field between two delimiters,
  empty ones included, in order; nothing outside the string is changed.
\<close>

theorem strsep_all_fields:
  assumes "cstr m p s" "cstr m q t" "q + length t < p \<or> p + length s < q"
  shows "\<exists>m' ts. strsep_run (length s + 2) m p q = Some (m', ts)
    \<and> list_all2 (cstr m') ts (fields (set t) s)
    \<and> (\<forall>x. x < p \<or> p + length s \<le> x \<longrightarrow> rd m' x = rd m x)"
  using strsep_run_fields [OF assms, of "length s + 2"] by simp

theorem strsep_all_fields_witness:
  "\<exists>m' ts. strsep_run 5 [0, 44, 97, 44, 0, 44, 0] 1 5 = Some (m', ts)
     \<and> list_all2 (cstr m') ts [[], [97], []]"
proof -
  let ?m = "[0, 44, 97, 44, 0, 44, 0] :: mem"
  have "cstr ?m 1 [44, 97, 44]" "cstr ?m 5 [44]"
    "5 + length [44 :: byte] < 1 \<or> 1 + length [44 :: byte, 97, 44] < 5"
    by (simp_all add: rd_def)
  moreover have "length [44 :: byte, 97, 44] + 2 = 5" by simp
  ultimately show ?thesis
    using strsep_all_fields [of ?m 1 "[44, 97, 44]" 5 "[44]"]
    by (auto simp del: strsep_run.simps list.size)
qed

end
