(* ===== verification/Nmalloc.thy ===== *)
theory Nmalloc
  imports Prelude
begin

text \<open>
  The allocator of \<^verbatim>\<open>ansi/stdlib/nmalloc.c\<close>, in the configuration that is built (\<^verbatim>\<open>SAVEMEMORY\<close>, no debugging output,
  no hooks installed). The memory is a function from addresses to bytes, in which the fields of a block header are
  stored as four bytes each; the last of them, \<^verbatim>\<open>prevfree\<close>, shares its place with the data of an allocated block.

  \<open>none\<close> is the address \<^verbatim>\<open>NONE\<close> of \<^verbatim>\<open>freehdrs[1]\<close>, which ends a free list. \<^verbatim>\<open>sbrk\<close> is an argument: what it answers to a request
  for so many bytes. A call of \<^verbatim>\<open>badcallabort\<close> is the value \<^term>\<open>None\<close>.
\<close>

section \<open>Memory and headers\<close>

definition rd32 :: "(nat \<Rightarrow> byte) \<Rightarrow> nat \<Rightarrow> nat" where
  "rd32 m a = unat (m a) + 256 * (unat (m (a + 1)) + 256 * (unat (m (a + 2)) + 256 * unat (m (a + 3))))"

definition wr32 :: "(nat \<Rightarrow> byte) \<Rightarrow> nat \<Rightarrow> nat \<Rightarrow> nat \<Rightarrow> byte" where
  "wr32 m a v = m(a := of_nat v, a + 1 := of_nat (v div 256), a + 2 := of_nat (v div 65536),
     a + 3 := of_nat (v div 16777216))"

definition copy_bytes :: "nat \<Rightarrow> nat \<Rightarrow> nat \<Rightarrow> (nat \<Rightarrow> byte) \<Rightarrow> nat \<Rightarrow> byte" where
  "copy_bytes dst src n m a = (if dst \<le> a \<and> a < dst + n then m (src + (a - dst)) else m a)"

datatype field = Prev | Next | Sz | NextFree | PrevFree

fun offset :: "field \<Rightarrow> nat" where
  "offset Prev = 0"
| "offset Next = 4"
| "offset Sz = 8"
| "offset NextFree = 12"
| "offset PrevFree = 16"

definition DATAOFFSET :: nat where "DATAOFFSET = 16"

definition ALIGN :: nat where "ALIGN = 8"

definition MINSAVE :: nat where "MINSAVE = ALIGN + DATAOFFSET"

definition NFLISTS :: nat where "NFLISTS = 32"

definition MINSBRK :: nat where "MINSBRK = 1024"

definition MAXSBRKS :: nat where "MAXSBRKS = 100"

record nheap =
  bytes :: "nat \<Rightarrow> byte"
  freehdrs :: "nat \<Rightarrow> nat"
  sbrkbgn :: "nat list"

definition fld :: "field \<Rightarrow> nat \<Rightarrow> nheap \<Rightarrow> nat" where
  "fld f m h = rd32 (bytes h) (m + offset f)"

definition setf :: "field \<Rightarrow> nat \<Rightarrow> nat \<Rightarrow> nheap \<Rightarrow> nheap" where
  "setf f m v h = h\<lparr>bytes := wr32 (bytes h) (m + offset f) v\<rparr>"

definition sethdr :: "nat \<Rightarrow> nat \<Rightarrow> nheap \<Rightarrow> nheap" where
  "sethdr b v h = h\<lparr>freehdrs := (freehdrs h)(b := v)\<rparr>"

abbreviation lastsbrk :: "nheap \<Rightarrow> nat" where "lastsbrk h \<equiv> freehdrs h 0"

definition PTR :: "nat \<Rightarrow> nat" where "PTR m = m + DATAOFFSET"

definition MEMBLKp :: "nat \<Rightarrow> nat" where "MEMBLKp p = p - DATAOFFSET"

definition roundup :: "nat \<Rightarrow> nat" where
  "roundup sz = ((sz + 7) mod 2 ^ 32 div 8 * 8 + DATAOFFSET) mod 2 ^ 32"

section \<open>Operations\<close>

definition recordnewsbrk :: "nat \<Rightarrow> nheap \<Rightarrow> nheap" where
  "recordnewsbrk bk h =
     (if length (sbrkbgn h) < MAXSBRKS - 1 \<and> bk \<notin> set (sbrkbgn h) then h\<lparr>sbrkbgn := sbrkbgn h @ [bk]\<rparr> else h)"

fun size2bucket :: "nat \<Rightarrow> nat" where
  "size2bucket sz = (if sz = 0 then 0 else Suc (size2bucket (sz div 2)))"

declare size2bucket.simps [simp del]

definition isfree :: "nat \<Rightarrow> nat \<Rightarrow> nheap \<Rightarrow> bool" where
  "isfree none m h \<longleftrightarrow> m \<noteq> NULL \<and> m \<noteq> none \<and> fld NextFree m h \<noteq> NULL \<and> fld PrevFree m h \<noteq> NULL"

definition fouled :: "nat \<Rightarrow> nheap \<Rightarrow> bool" where
  "fouled m h \<longleftrightarrow> lastsbrk h = NULL \<or> fld NextFree m h \<noteq> NULL"

definition extractfree :: "nat \<Rightarrow> nat \<Rightarrow> nheap \<Rightarrow> nheap" where
  "extractfree none m h =
     (if m = NULL then h
      else
        let b = size2bucket (fld Sz m h);
            mnxtf = fld NextFree m h;
            h = (if mnxtf = none then setf NextFree m NULL h else h);
            mprvf = fld PrevFree m h;
            h = (if mprvf = none then setf PrevFree m NULL h else h);
            h = (if fld NextFree m h \<noteq> NULL then setf PrevFree (fld NextFree m h) mprvf h else h);
            h = (if fld PrevFree m h \<noteq> NULL then setf NextFree (fld PrevFree m h) mnxtf h
                 else if fld NextFree m h \<noteq> NULL then sethdr b mnxtf h
                 else sethdr b NULL h) in
        setf NextFree m NULL (setf PrevFree m NULL h))"

definition combinelo :: "nat \<Rightarrow> nat \<Rightarrow> nheap \<Rightarrow> (nat \<times> nheap) option" where
  "combinelo none m h =
     (if isfree none (fld Prev m h) h then
        if fld Next (fld Prev m h) h \<noteq> m then None
        else
          let m1 = fld Prev m h;
              h = extractfree none m1 h;
              h = setf Next m1 (fld Next m h) h;
              h = (if fld Next m1 h \<noteq> NULL then setf Prev (fld Next m1 h) m1 h else h) in
          Some (m1, setf Sz m1 (fld Sz m1 h + fld Sz m h) h)
      else Some (m, h))"

definition combinehi :: "nat \<Rightarrow> nat \<Rightarrow> nheap \<Rightarrow> (nat \<times> nheap) option" where
  "combinehi none m h =
     (if m \<noteq> NULL \<and> fld Next m h \<noteq> NULL then
        if fld Prev (fld Next m h) h \<noteq> m then None
        else
          let m1 = fld Next m h;
              h = (if m1 \<noteq> lastsbrk h then extractfree none m1 h else h);
              h = setf Next m (fld Next (fld Next m h) h) h;
              h = (if fld Next m h \<noteq> NULL then setf Prev (fld Next m h) m h else h) in
          Some (m, setf Sz m (fld Sz m h + fld Sz m1 h) h)
      else Some (m, h))"

text \<open>The end of \<^verbatim>\<open>mv2freelist\<close>: the block becomes the head of the list for its size.\<close>

definition link_free :: "nat \<Rightarrow> nat \<Rightarrow> nheap \<Rightarrow> nheap" where
  "link_free none m h =
     (let b = size2bucket (fld Sz m h);
          h = (if freehdrs h b \<noteq> NULL then setf PrevFree (freehdrs h b) m (setf NextFree m (freehdrs h b) h)
               else setf NextFree m none h);
          h = setf PrevFree m none h;
          h = (if freehdrs h b \<noteq> NULL then setf PrevFree (freehdrs h b) m h else h) in
      sethdr b m h)"

definition mv2freelist :: "nat \<Rightarrow> nat \<Rightarrow> nheap \<Rightarrow> nheap option" where
  "mv2freelist none m h =
     (if m = NULL then Some h
      else do {
        (m, h) \<leftarrow> (if isfree none (fld Next m h) h then combinehi none m h else Some (m, h));
        if lastsbrk h \<noteq> NULL \<and> fld Next m h = lastsbrk h then do {
          (l, h) \<leftarrow> combinehi none m h;
          Some (setf NextFree l NULL (setf PrevFree l NULL (sethdr 0 l h)))
        } else Some (link_free none m h)
      })"

definition rmvfromfree :: "nat \<Rightarrow> nat \<Rightarrow> nheap \<Rightarrow> nheap option" where
  "rmvfromfree none m h =
     (if m = NULL then Some h
      else
        let b = size2bucket (fld Sz m h) in
        if m \<noteq> freehdrs h b then None
        else
          let h = (if fld NextFree m h = none then sethdr b NULL h
                   else setf PrevFree (fld NextFree m h) none (sethdr b (fld NextFree m h) h)) in
          Some (setf NextFree m NULL h))"

fun searchup :: "(nat \<Rightarrow> nat) \<Rightarrow> nat list \<Rightarrow> nat" where
  "searchup hdr [] = NFLISTS"
| "searchup hdr (b # bs) = (if hdr b \<noteq> NULL then b else searchup hdr bs)"

definition searchfree :: "nat \<Rightarrow> nheap \<Rightarrow> nat" where
  "searchfree szneed h =
     (let b = size2bucket szneed;
          b = (if freehdrs h b = NULL \<or> fld Sz (freehdrs h b) h < szneed
               then searchup (freehdrs h) [Suc b..<NFLISTS] else b) in
      if b < NFLISTS then b else 0)"

text \<open>The result of \<^verbatim>\<open>__nmalloc_split\<close> is the lower part, which it returns, and the higher one, which it stores.\<close>

definition nmalloc_split :: "nat \<Rightarrow> nat \<Rightarrow> nheap \<Rightarrow> (nat \<times> nat \<times> nheap) option" where
  "nmalloc_split m sz h =
     (let m1 = m + sz in
      if fld Sz m h < sz + DATAOFFSET then None
      else
        let h = h\<lparr>bytes := copy_bytes m1 m DATAOFFSET (bytes h)\<rparr>;
            h = setf Prev m1 m h;
            h = setf Sz m1 (fld Sz m h - sz) h;
            h = setf Next m m1 h;
            h = setf Sz m sz h;
            h = setf NextFree m NULL h in
        if fld Next m1 h \<noteq> NULL then
          if fld Prev (fld Next m1 h) h \<noteq> m then None else Some (m, m1, setf Prev (fld Next m1 h) m1 h)
        else Some (m, m1, h))"

definition split_lastsbrk :: "nat \<Rightarrow> nheap \<Rightarrow> (nat \<times> nheap) option" where
  "split_lastsbrk sz h = do { (m, m1, h) \<leftarrow> nmalloc_split (lastsbrk h) sz h; Some (m, sethdr 0 m1 h) }"

definition extendsbrk :: "nat \<Rightarrow> (nat \<Rightarrow> nat option) \<Rightarrow> nat \<Rightarrow> nheap \<Rightarrow> (nat \<times> nheap) option" where
  "extendsbrk none sbrk szxtra h =
     (let szxtra = szxtra + (2 * ALIGN + DATAOFFSET);
          szxtra = (if szxtra < MINSBRK then MINSBRK else szxtra);
          expected = (if lastsbrk h \<noteq> NULL then lastsbrk h + fld Sz (lastsbrk h) h else NULL);
          szxtra = (if expected mod ALIGN \<noteq> 0 then szxtra + (ALIGN - expected mod ALIGN) else szxtra) in
      case sbrk szxtra of
        None \<Rightarrow> Some (NULL, h)
      | Some m \<Rightarrow>
          if m = expected
          then Some (lastsbrk h, setf Sz (lastsbrk h) (fld Sz (lastsbrk h) h + szxtra) h)
          else
            let aligndelta = (if m mod ALIGN \<noteq> 0 then ALIGN - m mod ALIGN else 0);
                m = m + aligndelta;
                h = setf Sz m (szxtra - aligndelta) h;
                h = setf Prev m NULL (setf Next m NULL h);
                h = setf NextFree m NULL h in
            do { h \<leftarrow> mv2freelist none (lastsbrk h) h; Some (m, recordnewsbrk m (sethdr 0 m h)) })"

definition take_free :: "nat \<Rightarrow> nat \<Rightarrow> nat \<Rightarrow> nheap \<Rightarrow> (nat \<times> nheap) option" where
  "take_free none b szneed h =
     (let m1 = freehdrs h b in
      do {
        h \<leftarrow> rmvfromfree none m1 h;
        if fld Sz m1 h < szneed + MINSAVE then Some (m1, h)
        else do {
          (m, m1, h) \<leftarrow> nmalloc_split m1 szneed h;
          h \<leftarrow> mv2freelist none m1 h;
          Some (m, h)
        }
      })"

definition nmalloc :: "nat \<Rightarrow> (nat \<Rightarrow> nat option) \<Rightarrow> nat \<Rightarrow> nheap \<Rightarrow> (nat \<times> nheap) option" where
  "nmalloc none sbrk nbytes h =
     (let sz = (if nbytes = 0 then 1 else nbytes);
          szneed = roundup sz in
      if szneed < 2147483647 - 65536 then do {
        let b = searchfree szneed h;
        (m, h) \<leftarrow> (if b \<noteq> 0 then take_free none b szneed h
                   else if lastsbrk h \<noteq> NULL \<and> fld Sz (lastsbrk h) h \<ge> szneed + DATAOFFSET
                   then split_lastsbrk szneed h
                   else do {
                     (m1, h) \<leftarrow> extendsbrk none sbrk szneed h;
                     if m1 \<noteq> NULL then
                       (if fld Sz m1 h < szneed + MINSAVE then Some (m1, h) else split_lastsbrk szneed h)
                     else Some (NULL, h)
                   });
        Some (if m \<noteq> NULL then PTR m else NULL, h)
      } else Some (NULL, h))"

definition dofree :: "nat \<Rightarrow> nat \<Rightarrow> nheap \<Rightarrow> nheap option" where
  "dofree none m h =
     (let h = setf NextFree m none (setf PrevFree m none h) in
      do {
        (m, h) \<leftarrow> (if isfree none (fld Next m h) h then combinehi none m h else Some (m, h));
        (m, h) \<leftarrow> (if isfree none (fld Prev m h) h then combinelo none m h else Some (m, h));
        if lastsbrk h \<noteq> NULL \<and> lastsbrk h = fld Prev m h then Some h else mv2freelist none m h
      })"

definition nfree :: "nat \<Rightarrow> nat \<Rightarrow> nheap \<Rightarrow> nheap option" where
  "nfree none ptr h =
     (if ptr \<noteq> NULL then
        let m = MEMBLKp ptr in
        if isfree none m h \<or> fouled m h then None else dofree none m h
      else Some h)"

definition mv2lastsbrk :: "nat \<Rightarrow> nat \<Rightarrow> nat \<Rightarrow> nheap \<Rightarrow> (nat \<times> nheap) option" where
  "mv2lastsbrk none m szneed h = do {
     (m1, h) \<leftarrow> split_lastsbrk szneed h;
     let h = h\<lparr>bytes := copy_bytes (PTR m1) (PTR m) (fld Sz m h - DATAOFFSET) (bytes h)\<rparr>;
     h \<leftarrow> dofree none m h;
     Some (m1, h)
   }"

definition trim :: "nat \<Rightarrow> nat \<Rightarrow> nat \<Rightarrow> nheap \<Rightarrow> (nat \<times> nheap) option" where
  "trim none m szneed h =
     (if fld Sz m h - szneed \<ge> MINSAVE then do {
        (m, m1, h) \<leftarrow> nmalloc_split m szneed h;
        h \<leftarrow> mv2freelist none m1 h;
        Some (m, h)
      } else Some (m, h))"

definition use_lastsbrk :: "nat \<Rightarrow> nat \<Rightarrow> nat \<Rightarrow> nheap \<Rightarrow> (nat \<times> nheap) option" where
  "use_lastsbrk none m szneed h = do {
     (m1, h) \<leftarrow> combinehi none m h;
     (m, m1, h) \<leftarrow> nmalloc_split m1 szneed h;
     Some (m, sethdr 0 m1 h)
   }"

definition use_prev :: "nat \<Rightarrow> nat \<Rightarrow> nat \<Rightarrow> nheap \<Rightarrow> (nat \<times> nheap) option" where
  "use_prev none m szneed h =
     (let m1 = fld Prev m h;
          h = extractfree none m1 h;
          h = setf Sz m1 (fld Sz m1 h + fld Sz m h) h;
          h = setf Next m1 (fld Next m h) h;
          h = (if fld Next m1 h \<noteq> NULL then setf Prev (fld Next m1 h) m1 h else h);
          h = h\<lparr>bytes := copy_bytes (PTR m1) (PTR m) (fld Sz m h - DATAOFFSET) (bytes h)\<rparr> in
      trim none m1 szneed h)"

text \<open>The last branches of \<^verbatim>\<open>nrealloc\<close>, which find a new block and copy the data.\<close>

definition realloc_elsewhere :: "nat \<Rightarrow> (nat \<Rightarrow> nat option) \<Rightarrow> nat \<Rightarrow> nat \<Rightarrow> nheap \<Rightarrow> (nat \<times> nheap) option" where
  "realloc_elsewhere none sbrk m szneed h =
     (if searchfree szneed h \<noteq> 0 then do {
        (m2, h) \<leftarrow> take_free none (searchfree szneed h) szneed h;
        let h = h\<lparr>bytes := copy_bytes (PTR m2) (PTR m) (fld Sz m h - DATAOFFSET) (bytes h)\<rparr>;
        h \<leftarrow> dofree none m h;
        Some (m2, h)
      }
      else if lastsbrk h \<noteq> NULL \<and> szneed + MINSAVE \<le> fld Sz (lastsbrk h) h
      then mv2lastsbrk none m szneed h
      else do {
        (m1, h) \<leftarrow> extendsbrk none sbrk szneed h;
        if m1 \<noteq> NULL then
          (if lastsbrk h = fld Next m h then use_lastsbrk none m szneed h else mv2lastsbrk none m szneed h)
        else Some (NULL, h)
      })"

definition realloc_block :: "nat \<Rightarrow> (nat \<Rightarrow> nat option) \<Rightarrow> nat \<Rightarrow> nat \<Rightarrow> nheap \<Rightarrow> (nat \<times> nheap) option" where
  "realloc_block none sbrk m szneed h =
     (if szneed \<le> fld Sz m h then trim none m szneed h
      else if szneed > 2147483647 - 65536 then Some (NULL, h)
      else if isfree none (fld Next m h) h \<and> szneed \<le> fld Sz m h + fld Sz (fld Next m h) h
      then do { (m, h) \<leftarrow> combinehi none m h; trim none m szneed h }
      else if lastsbrk h = fld Next m h \<and> szneed + MINSAVE \<le> fld Sz m h + fld Sz (lastsbrk h) h
      then use_lastsbrk none m szneed h
      else if isfree none (fld Prev m h) h \<and> szneed \<le> fld Sz m h + fld Sz (fld Prev m h) h
      then use_prev none m szneed h
      else realloc_elsewhere none sbrk m szneed h)"

definition nrealloc :: "nat \<Rightarrow> (nat \<Rightarrow> nat option) \<Rightarrow> nat \<Rightarrow> nat \<Rightarrow> nheap \<Rightarrow> (nat \<times> nheap) option" where
  "nrealloc none sbrk ptr nbytes h =
     (if ptr = NULL then nmalloc none sbrk nbytes h
      else
        let m = MEMBLKp ptr;
            sz = (if nbytes = 0 then 1 else nbytes);
            szneed = roundup sz in
        if isfree none m h \<or> fouled m h then None
        else do {
          (m, h) \<leftarrow> realloc_block none sbrk m szneed h;
          Some (if m \<noteq> NULL then PTR m else NULL, h)
        })"

definition ncalloc :: "nat \<Rightarrow> (nat \<Rightarrow> nat option) \<Rightarrow> nat \<Rightarrow> nat \<Rightarrow> nheap \<Rightarrow> (nat \<times> nheap) option" where
  "ncalloc none sbrk n s h =
     (if n = 0 \<or> (2 ^ 32 - 1) div n > s then do {
        let sz = n * s mod 2 ^ 32;
        (p, h) \<leftarrow> nmalloc none sbrk sz h;
        Some (p, if p \<noteq> NULL then h\<lparr>bytes := \<lambda>a. if p \<le> a \<and> a < p + sz then 0 else bytes h a\<rparr> else h)
      } else Some (NULL, h))"

end
