(* ===== verification/Nheap.thy ===== *)
theory Nheap
  imports Nmalloc
begin

text \<open>
  The consistency of the heap of \<^verbatim>\<open>ansi/stdlib/nmalloc.c\<close>: what the block headers and the free lists promise each other, and
  how unlinking, linking, joining and splitting blocks keep it.
\<close>

section \<open>Fields in memory\<close>

lemma unat_byte: "unat (of_nat v :: byte) = v mod 256"
  by (simp add: unat_of_nat)

lemma rd32_wr32:
  assumes "v < 2 ^ 32"
  shows "rd32 (wr32 m a v) a = v"
proof -
  have split_byte: "x = x mod 256 + 256 * (x div 256)" for x :: nat
    by simp
  have "v div 256 = v div 256 mod 256 + 256 * (v div 65536)"
      "v div 65536 = v div 65536 mod 256 + 256 * (v div 16777216)"
    using split_byte [of "v div 256"] split_byte [of "v div 65536"] by (simp_all add: div_mult2_eq [symmetric])
  moreover have "v div 16777216 mod 256 = v div 16777216"
    using assms by (simp add: less_mult_imp_div_less)
  moreover have "rd32 (wr32 m a v) a =
      v mod 256 + 256 * (v div 256 mod 256 + 256 * (v div 65536 mod 256 + 256 * (v div 16777216 mod 256)))"
    unfolding rd32_def wr32_def by (simp add: unat_byte)
  ultimately show ?thesis
    using split_byte [of v] by presburger
qed

lemma rd32_wr32_other: "a + 4 \<le> b \<or> b + 4 \<le> a \<Longrightarrow> rd32 (wr32 m a v) b = rd32 m b"
  by (auto simp: rd32_def wr32_def)

lemma wr32_other: "c < a \<or> a + 4 \<le> c \<Longrightarrow> wr32 m a v c = m c"
  by (auto simp: wr32_def)

lemma rd32_copy_in: "dst \<le> b \<Longrightarrow> b + 4 \<le> dst + n \<Longrightarrow> rd32 (copy_bytes dst src n m) b = rd32 m (src + (b - dst))"
  by (simp add: rd32_def copy_bytes_def add_diff_assoc2 Suc_diff_le add.assoc)

lemma rd32_copy_out: "b + 4 \<le> dst \<or> dst + n \<le> b \<Longrightarrow> rd32 (copy_bytes dst src n m) b = rd32 m b"
  by (auto simp: rd32_def copy_bytes_def)

text \<open>Headers of two blocks do not overlap when they are at least 24 bytes apart.\<close>

definition spaced :: "nat set \<Rightarrow> bool" where
  "spaced S \<longleftrightarrow> (\<forall>m \<in> S. \<forall>m' \<in> S. m < m' \<longrightarrow> m + 24 \<le> m')"

lemma fld_setf:
  assumes "spaced S" "m \<in> S" "m' \<in> S" "v < 2 ^ 32"
  shows "fld f m' (setf g m v h) = (if m' = m \<and> f = g then v else fld f m' h)"
proof -
  have "m' = m \<or> m + 24 \<le> m' \<or> m' + 24 \<le> m"
    using assms by (metis spaced_def linorder_neqE_nat)
  moreover have "offset f + 4 \<le> 20" "offset g + 4 \<le> 20" "f \<noteq> g \<Longrightarrow> offset f + 4 \<le> offset g \<or> offset g + 4 \<le> offset f"
    by (cases f; cases g; simp)+
  ultimately show ?thesis
    using assms(4) rd32_wr32 [of v] rd32_wr32_other [of "m + offset g" "m' + offset f"]
    by (auto simp: fld_def setf_def)
qed

section \<open>Consistent heaps\<close>

text \<open>
  The invariant is stated on the header fields of a set \<open>B\<close> of blocks, as a function \<open>V\<close> from addresses and fields to
  values, and on the list heads \<open>H\<close>. Blocks are aligned, disjoint and in order, the last one is the block that \<^verbatim>\<open>sbrk\<close>
  extends; \<^verbatim>\<open>next\<close> and \<^verbatim>\<open>prev\<close> link neighbours; the free blocks form doubly linked lists, one for each bucket. The
  blocks of \<open>X\<close> are being moved and are not in a list.

  Headers are 24 bytes apart, but a block may have only 16 bytes: \<^verbatim>\<open>nmalloc\<close> splits the last block when 16 bytes are left of
  it. If \<^verbatim>\<open>sbrk\<close> does not extend such a rest but gives memory further up, the rest goes to a free list with its field
  \<^verbatim>\<open>prevfree\<close> stored behind its end, in the gap between the two areas. The new area starts at least 24 bytes above the
  start of the rest, because it is aligned and not adjacent, so that no block is damaged; but the gap is memory that \<^verbatim>\<open>sbrk\<close>
  did not give.
\<close>

type_synonym view = "nat \<Rightarrow> field \<Rightarrow> nat"

abbreviation (input) bkt :: "view \<Rightarrow> nat \<Rightarrow> nat" where "bkt V m \<equiv> size2bucket (V m Sz)"

definition geom :: "nat set \<Rightarrow> view \<Rightarrow> nat \<Rightarrow> bool" where
  "geom B V L \<longleftrightarrow>
     (\<forall>m \<in> B. 0 < m \<and> m mod 8 = 0 \<and> 16 \<le> V m Sz \<and> m + V m Sz < 2 ^ 32 \<and> m \<le> L) \<and>
     (\<forall>m \<in> B. \<forall>m' \<in> B. m < m' \<longrightarrow> m + V m Sz \<le> m' \<and> m + 24 \<le> m')"

definition linked :: "nat set \<Rightarrow> view \<Rightarrow> bool" where
  "linked B V \<longleftrightarrow> (\<forall>m \<in> B.
     (V m Next = 0 \<or> V m Next \<in> B \<and> V m Next = m + V m Sz \<and> V (V m Next) Prev = m) \<and>
     (V m Prev = 0 \<or> V m Prev \<in> B \<and> V (V m Prev) Next = m))"

definition frees :: "nat set \<Rightarrow> nat set \<Rightarrow> view \<Rightarrow> nat set" where
  "frees B X V = {m \<in> B. m \<notin> X \<and> V m NextFree \<noteq> 0}"

definition listed :: "nat \<Rightarrow> nat set \<Rightarrow> view \<Rightarrow> (nat \<Rightarrow> nat) \<Rightarrow> bool" where
  "listed none F V H \<longleftrightarrow>
     (\<forall>m \<in> F.
        (V m NextFree = none \<or> V m NextFree \<in> F \<and> V (V m NextFree) PrevFree = m \<and> bkt V (V m NextFree) = bkt V m) \<and>
        (V m PrevFree = none \<and> H (bkt V m) = m \<or>
         V m PrevFree \<in> F \<and> V (V m PrevFree) NextFree = m \<and> bkt V (V m PrevFree) = bkt V m)) \<and>
     (\<forall>b > 0. H b = 0 \<or> H b \<in> F \<and> bkt V (H b) = b \<and> V (H b) PrevFree = none)"

definition last_ok :: "nat set \<Rightarrow> nat set \<Rightarrow> view \<Rightarrow> nat \<Rightarrow> bool" where
  "last_ok B X V L \<longleftrightarrow> L = 0 \<and> B = {} \<or> L \<in> B \<and> V L NextFree = 0 \<and> V L Next = 0 \<and> L \<notin> X"

text \<open>The address that ends a list is not inside a block.\<close>

definition clear :: "nat \<Rightarrow> nat set \<Rightarrow> view \<Rightarrow> bool" where
  "clear none B V \<longleftrightarrow> (\<forall>m \<in> B. none < m \<or> m + V m Sz \<le> none)"

definition hinv :: "nat \<Rightarrow> nat set \<Rightarrow> nat set \<Rightarrow> view \<Rightarrow> (nat \<Rightarrow> nat) \<Rightarrow> bool" where
  "hinv none B X V H \<longleftrightarrow> none \<noteq> 0 \<and> none < 2 ^ 32 \<and> none \<notin> B \<and> clear none B V \<and> geom B V (H 0) \<and> linked B V \<and>
     listed none (frees B X V) V H \<and> last_ok B X V (H 0)"

lemma size2bucket_0: "size2bucket n = 0 \<longleftrightarrow> n = 0"
  by (subst size2bucket.simps) simp

lemma listed_unlink:
  assumes l: "listed none F V H" and m: "m \<in> F" and z: "none \<notin> F" "\<And>x. x \<in> F \<Longrightarrow> V x Sz \<noteq> 0"
    and nf: "\<And>x. x \<in> F - {m} \<Longrightarrow> V' x NextFree = (if x = V m PrevFree then V m NextFree else V x NextFree)"
    and pf: "\<And>x. x \<in> F - {m} \<Longrightarrow> V' x PrevFree = (if x = V m NextFree then V m PrevFree else V x PrevFree)"
    and sz: "\<And>x. x \<in> F - {m} \<Longrightarrow> V' x Sz = V x Sz"
    and H: "\<And>b. 0 < b \<Longrightarrow> H' b = (if V m PrevFree = none \<and> b = bkt V m
              then (if V m NextFree = none then 0 else V m NextFree) else H b)"
  shows "listed none (F - {m}) V' H'"
proof -
  have bp: "0 < bkt V x" if "x \<in> F" for x using z(2) [OF that] size2bucket_0 [of "V x Sz"] by simp
  have F: "V x NextFree = none \<or> V x NextFree \<in> F \<and> V (V x NextFree) PrevFree = x \<and> bkt V (V x NextFree) = bkt V x"
      "V x PrevFree = none \<and> H (bkt V x) = x \<or>
         V x PrevFree \<in> F \<and> V (V x PrevFree) NextFree = x \<and> bkt V (V x PrevFree) = bkt V x" if "x \<in> F" for x
    using l that by (auto simp: listed_def)
  have Hb: "H b = 0 \<or> H b \<in> F \<and> bkt V (H b) = b \<and> V (H b) PrevFree = none" if "0 < b" for b
    using l that by (auto simp: listed_def)
  show ?thesis
    unfolding listed_def
  proof (intro conjI ballI allI impI)
    fix x assume x: "x \<in> F - {m}"
    show "V' x NextFree = none \<or> V' x NextFree \<in> F - {m} \<and> V' (V' x NextFree) PrevFree = x \<and>
        bkt V' (V' x NextFree) = bkt V' x"
    proof (cases "x = V m PrevFree")
      case True
      then have "V m NextFree \<noteq> none \<Longrightarrow> V m NextFree \<in> F - {m}"
        using F [OF m] x by auto
      then show ?thesis
        using True F [OF m] x z(1) by (auto simp: nf pf sz)
    next
      case False
      then have "V x NextFree \<noteq> none \<Longrightarrow> V x NextFree \<in> F - {m} \<and> V x NextFree \<noteq> V m NextFree"
        using F [OF m] F [of x] x by auto
      then show ?thesis
        using False F [of x] x by (auto simp: nf pf sz)
    qed
    show "V' x PrevFree = none \<and> H' (bkt V' x) = x \<or> V' x PrevFree \<in> F - {m} \<and>
        V' (V' x PrevFree) NextFree = x \<and> bkt V' (V' x PrevFree) = bkt V' x"
    proof (cases "x = V m NextFree")
      case True
      then have xm: "V x PrevFree = m" "bkt V x = bkt V m"
        using F(1) [OF m] x z(1) by auto
      show ?thesis
      proof (cases "V m PrevFree = none")
        case prev_none: True
        then show ?thesis
          using True x xm H [OF bp [OF m]] z(1) by (auto simp: pf sz)
      next
        case False
        then have "V m PrevFree \<in> F - {m}"
          using F(2) [OF m] True x by auto
        then show ?thesis
          using True False F(2) [OF m] x xm by (auto simp: nf pf sz)
      qed
    next
      case False
      have "V x PrevFree \<in> F - {m} \<and> V x PrevFree \<noteq> V m PrevFree" if "V x PrevFree \<in> F" "V (V x PrevFree) NextFree = x"
        using F [OF m] False that x z(1) by auto
      moreover have "bkt V x \<noteq> bkt V m" if "V x PrevFree = none" "H (bkt V x) = x" "V m PrevFree = none"
        using F(2) [OF m] z(1) that x by auto
      ultimately show ?thesis
        using False F(2) [of x] x bp [of x] by (auto simp: nf pf sz H)
    qed
  next
    fix b :: nat assume b: "0 < b"
    show "H' b = 0 \<or> H' b \<in> F - {m} \<and> bkt V' (H' b) = b \<and> V' (H' b) PrevFree = none"
    proof (cases "V m PrevFree = none \<and> b = bkt V m")
      case True
      then have "V m NextFree \<noteq> none \<Longrightarrow> V m NextFree \<in> F - {m}"
        using F [OF m] z(1) by auto
      then show ?thesis
        using True F [OF m] b by (auto simp: H pf sz)
    next
      case False
      have "H b \<noteq> 0 \<Longrightarrow> H b \<in> F - {m} \<and> H b \<noteq> V m NextFree"
        using Hb [OF b] F(1) [OF m] m False z(1) by (metis Diff_iff singletonD)
      then show ?thesis
        using Hb [OF b] False b by (auto simp: H pf sz)
    qed
  qed
qed

lemma listed_push:
  assumes l: "listed none F V H" and m: "m \<notin> F" "m \<noteq> 0" and z: "0 \<notin> F" "none \<notin> F" "\<And>x. x \<in> F \<Longrightarrow> V x Sz \<noteq> 0"
    and b: "b = bkt V' m" "0 < b"
    and nf: "\<And>x. x \<in> F \<Longrightarrow> V' x NextFree = V x NextFree"
    and pf: "\<And>x. x \<in> F \<Longrightarrow> V' x PrevFree = (if x = H b then m else V x PrevFree)"
    and sz: "\<And>x. x \<in> F \<Longrightarrow> V' x Sz = V x Sz"
    and new: "V' m NextFree = (if H b \<noteq> 0 then H b else none)" "V' m PrevFree = none"
    and H: "\<And>c. 0 < c \<Longrightarrow> H' c = (if c = b then m else H c)"
  shows "listed none (insert m F) V' H'"
proof -
  have bp: "0 < bkt V x" if "x \<in> F" for x using z(3) [OF that] size2bucket_0 [of "V x Sz"] by simp
  have F: "V x NextFree = none \<or> V x NextFree \<in> F \<and> V (V x NextFree) PrevFree = x \<and> bkt V (V x NextFree) = bkt V x"
      "V x PrevFree = none \<and> H (bkt V x) = x \<or>
         V x PrevFree \<in> F \<and> V (V x PrevFree) NextFree = x \<and> bkt V (V x PrevFree) = bkt V x" if "x \<in> F" for x
    using l that by (auto simp: listed_def)
  have Hb: "H c = 0 \<or> H c \<in> F \<and> bkt V (H c) = c \<and> V (H c) PrevFree = none" if "0 < c" for c
    using l that by (auto simp: listed_def)
  show ?thesis
    unfolding listed_def
  proof (intro conjI ballI allI impI)
    fix x assume x: "x \<in> insert m F"
    show "V' x NextFree = none \<or> V' x NextFree \<in> insert m F \<and> V' (V' x NextFree) PrevFree = x \<and>
        bkt V' (V' x NextFree) = bkt V' x"
    proof (cases "x = m")
      case True
      then show ?thesis using Hb [OF b(2)] b(1) by (auto simp: new pf sz)
    next
      case False
      then have "x \<in> F" using x by simp
      moreover have "V x NextFree \<noteq> H b" if "V x NextFree \<in> F" "V (V x NextFree) PrevFree = x"
        using Hb [OF b(2)] that \<open>x \<in> F\<close> z by auto
      ultimately show ?thesis using F(1) [of x] by (auto simp: nf pf sz)
    qed
    show "V' x PrevFree = none \<and> H' (bkt V' x) = x \<or> V' x PrevFree \<in> insert m F \<and>
        V' (V' x PrevFree) NextFree = x \<and> bkt V' (V' x PrevFree) = bkt V' x"
    proof (cases "x = m")
      case True
      then show ?thesis using b H [OF b(2)] by (auto simp: new)
    next
      case False
      then have xF: "x \<in> F" using x by simp
      show ?thesis
      proof (cases "x = H b")
        case True
        then show ?thesis using xF z(1) Hb [OF b(2)] b(1) by (auto simp: pf sz new)
      next
        case False
        then show ?thesis using xF F(2) [OF xF] bp [OF xF] by (auto simp: pf sz nf H)
      qed
    qed
  next
    fix c :: nat assume c: "0 < c"
    show "H' c = 0 \<or> H' c \<in> insert m F \<and> bkt V' (H' c) = c \<and> V' (H' c) PrevFree = none"
    proof (cases "c = b \<or> H c = 0")
      case True
      then show ?thesis using b(1) c by (auto simp: H new)
    next
      case False
      then have "H c \<noteq> H b" using Hb [OF c] Hb [OF b(2)] by metis
      then show ?thesis using Hb [OF c] c False by (simp add: H pf sz)
    qed
  qed
qed

section \<open>Lists in memory\<close>

abbreviation view :: "nheap \<Rightarrow> view" where "view h \<equiv> \<lambda>m f. fld f m h"

definition nok :: "nat \<Rightarrow> nat set \<Rightarrow> nat set \<Rightarrow> nheap \<Rightarrow> bool" where
  "nok none B X h \<longleftrightarrow> hinv none B X (view h) (freehdrs h)"

lemma hdr_simps [simp]:
  "freehdrs (setf f m v h) = freehdrs h" "fld f m (sethdr b v h) = fld f m h"
  "freehdrs (sethdr b v h) = (freehdrs h)(b := v)" "sbrkbgn (setf f m v h) = sbrkbgn h"
  "bytes (sethdr b v h) = bytes h"
  by (simp_all add: setf_def sethdr_def fld_def)

lemma geom_spaced: "geom B V L \<Longrightarrow> spaced B"
  by (simp add: geom_def spaced_def)

lemma nok_spaced: "nok none B X h \<Longrightarrow> spaced B"
  by (auto simp: nok_def hinv_def intro: geom_spaced)

lemma fld_bound: "fld f m h < 2 ^ 32"
proof -
  have "a + 256 * (c + 256 * (d + 256 * e)) < 2 ^ 32" if "a < 256" "c < 256" "d < 256" "e < 256" for a c d e :: nat
    using that by simp
  moreover have "unat b < 256" for b :: byte
    using unsigned_less [of b] by simp
  ultimately show ?thesis unfolding fld_def rd32_def by blast
qed

text \<open>
  \<open>frame P Q\<close>: only the headers of the blocks in \<open>P\<close> were written, and those of the blocks in \<open>Q\<close> without their last
  field.
\<close>

definition frame :: "nat set \<Rightarrow> nat set \<Rightarrow> nheap \<Rightarrow> nheap \<Rightarrow> bool" where
  "frame P Q h h' \<longleftrightarrow>
     (\<forall>a. (\<forall>x \<in> P. a < x \<or> x + 20 \<le> a) \<and> (\<forall>x \<in> Q. a < x \<or> x + 16 \<le> a) \<longrightarrow> bytes h' a = bytes h a)"

lemma frame_refl: "frame P Q h h"
  by (simp add: frame_def)

lemma frame_trans: "frame P Q h h' \<Longrightarrow> frame P Q h' h'' \<Longrightarrow> frame P Q h h''"
  by (auto simp: frame_def)

lemma frame_mono: "frame P Q h h' \<Longrightarrow> P \<subseteq> P' \<Longrightarrow> Q \<subseteq> Q' \<Longrightarrow> frame P' Q' h h'"
  unfolding frame_def by (meson subsetD)

lemma frame_sethdr: "frame P Q h h' \<Longrightarrow> frame P Q h (sethdr b v h')"
  by (simp add: frame_def)

lemma frame_setf:
  assumes "frame P Q h h'" "m \<in> P \<or> m \<in> Q \<and> f \<noteq> PrevFree"
  shows "frame P Q h (setf f m v h')"
proof -
  have o: "offset f + 4 \<le> 20" "f \<noteq> PrevFree \<Longrightarrow> offset f + 4 \<le> 16" by (cases f; simp)+
  have "bytes (setf f m v h') a = bytes h' a"
    if "\<forall>x \<in> P. a < x \<or> x + 20 \<le> a" "\<forall>x \<in> Q. a < x \<or> x + 16 \<le> a" for a
  proof -
    have "a < m \<or> m + offset f + 4 \<le> a"
    proof (cases "m \<in> P")
      case True
      then show ?thesis using bspec [OF that(1) True] o by linarith
    next
      case False
      then have "m \<in> Q" "f \<noteq> PrevFree" using assms(2) by auto
      then show ?thesis using bspec [OF that(2), of m] o by linarith
    qed
    then show ?thesis by (auto simp: setf_def intro: wr32_other)
  qed
  then show ?thesis using assms(1) by (auto simp: frame_def)
qed

lemmas frame_intros = frame_setf frame_sethdr frame_refl

lemma hinv_geomD:
  assumes "hinv none B X V H" "m \<in> B"
  shows "0 < m" "m mod 8 = 0" "16 \<le> V m Sz" "m' \<in> B \<Longrightarrow> m < m' \<Longrightarrow> m + 24 \<le> m'" "m + V m Sz < 2 ^ 32" "m \<le> H 0"
    "m' \<in> B \<Longrightarrow> m < m' \<Longrightarrow> m + V m Sz \<le> m'" "m \<noteq> none"
  using assms by (auto simp: hinv_def geom_def)

lemma freesD:
  assumes "hinv none B X V H" "m \<in> frees B X V"
  shows "m \<in> B" "m \<notin> X" "V m NextFree \<noteq> 0" "V m PrevFree \<noteq> 0" "m \<noteq> H 0" "16 \<le> V m Sz" "m \<noteq> none" "m \<noteq> 0"
    "V m NextFree = none \<or> V m NextFree \<in> frees B X V" "V m PrevFree = none \<or> V m PrevFree \<in> frees B X V"
proof -
  show m: "m \<in> B" "m \<notin> X" "V m NextFree \<noteq> 0" using assms(2) by (auto simp: frees_def)
  have l: "listed none (frees B X V) V H" "last_ok B X V (H 0)" "none \<noteq> 0" using assms(1) by (auto simp: hinv_def)
  show "V m NextFree = none \<or> V m NextFree \<in> frees B X V" "V m PrevFree = none \<or> V m PrevFree \<in> frees B X V"
    using l(1) assms(2) by (auto simp: listed_def)
  moreover have "0 \<notin> frees B X V"
    using hinv_geomD(1) [OF assms(1), of 0] by (auto simp: frees_def)
  ultimately show "V m PrevFree \<noteq> 0" using l(3) by metis
  show "m \<noteq> H 0" using l(2) m by (auto simp: last_ok_def)
  then show "16 \<le> V m Sz" "m \<noteq> none" "m \<noteq> 0" using hinv_geomD [OF assms(1) m(1)] by auto
qed

lemma headsD:
  assumes "hinv none B X V H" "0 < b" "H b \<noteq> 0"
  shows "H b \<in> frees B X V" "bkt V (H b) = b" "V (H b) PrevFree = none"
proof -
  have "\<forall>b > 0. H b = 0 \<or> H b \<in> frees B X V \<and> bkt V (H b) = b \<and> V (H b) PrevFree = none"
    using assms(1) by (simp add: hinv_def listed_def)
  from this [rule_format, OF assms(2)] assms(3)
  show "H b \<in> frees B X V" "bkt V (H b) = b" "V (H b) PrevFree = none"
    by simp_all
qed

lemma frees_pos:
  assumes "hinv none B X V H"
  shows "0 \<notin> frees B X V" "none \<notin> frees B X V" "\<And>x. x \<in> frees B X V \<Longrightarrow> V x Sz \<noteq> 0"
  using freesD(6-8) [OF assms] by fastforce+

definition unlinked :: "nat \<Rightarrow> view \<Rightarrow> view" where
  "unlinked m V x f =
     (if x = m then (if f = NextFree \<or> f = PrevFree then 0 else V x f)
      else if f = NextFree \<and> x = V m PrevFree then V m NextFree
      else if f = PrevFree \<and> x = V m NextFree then V m PrevFree
      else V x f)"

definition unlinked_hdrs :: "nat \<Rightarrow> nat \<Rightarrow> view \<Rightarrow> (nat \<Rightarrow> nat) \<Rightarrow> nat \<Rightarrow> nat" where
  "unlinked_hdrs none m V H =
     (if V m PrevFree = none then H(bkt V m := if V m NextFree = none then 0 else V m NextFree) else H)"

lemma hinv_unlinked:
  assumes i: "hinv none B X V H" and m: "m \<in> frees B X V"
  shows "hinv none B X (unlinked m V) (unlinked_hdrs none m V H)" "frees B X (unlinked m V) = frees B X V - {m}"
proof -
  let ?V = "unlinked m V" and ?H = "unlinked_hdrs none m V H"
  have b: "bkt V m \<noteq> 0" using freesD(6) [OF i m] size2bucket_0 [of "V m Sz"] by simp
  have H0: "?H 0 = H 0" using b by (simp add: unlinked_hdrs_def)
  have same: "?V x Prev = V x Prev" "?V x Next = V x Next" "?V x Sz = V x Sz" for x
    by (simp_all add: unlinked_def)
  show F: "frees B X ?V = frees B X V - {m}"
    using freesD [OF i m] hinv_geomD(8) [OF i] by (auto simp: frees_def unlinked_def)
  have "listed none (frees B X V - {m}) ?V ?H"
    using i m frees_pos [OF i] b
    by (intro listed_unlink [where V = V and H = H]) (auto simp: hinv_def unlinked_def unlinked_hdrs_def)
  moreover have "last_ok B X ?V (H 0)"
    using i freesD [OF i m] by (auto simp: hinv_def last_ok_def unlinked_def frees_def)
  ultimately show "hinv none B X ?V ?H"
    using i by (simp add: hinv_def F H0 geom_def linked_def clear_def same)
qed

definition pushed :: "nat \<Rightarrow> nat \<Rightarrow> (nat \<Rightarrow> nat) \<Rightarrow> view \<Rightarrow> view" where
  "pushed none m H V x f =
     (if x = m \<and> f = NextFree then (if H (bkt V m) \<noteq> 0 then H (bkt V m) else none)
      else if x = m \<and> f = PrevFree then none
      else if f = PrevFree \<and> x = H (bkt V m) then m
      else V x f)"

lemma hinv_pushed:
  assumes i: "hinv none B X V H" and m: "m \<in> B" "m \<noteq> H 0" "m \<in> X \<or> V m NextFree = 0"
  shows "hinv none B (X - {m}) (pushed none m H V) (H(bkt V m := m))"
    "frees B (X - {m}) (pushed none m H V) = insert m (frees B X V)"
proof -
  let ?V = "pushed none m H V" and ?H = "H(bkt V m := m)"
  have b: "bkt V m \<noteq> 0" using hinv_geomD(3) [OF i m(1)] size2bucket_0 [of "V m Sz"] by simp
  have mF: "m \<notin> frees B X V" using m(3) by (auto simp: frees_def)
  have same: "?V x Prev = V x Prev" "?V x Next = V x Next" "?V x Sz = V x Sz" for x
    by (simp_all add: pushed_def)
  have Hb: "H (bkt V m) = 0 \<or> H (bkt V m) \<in> frees B X V" "none \<noteq> 0"
    using i b by (auto simp: hinv_def listed_def)
  show F: "frees B (X - {m}) ?V = insert m (frees B X V)"
    using m Hb by (auto simp: frees_def pushed_def)
  have "listed none (insert m (frees B X V)) ?V ?H"
    using i m mF frees_pos [OF i] b hinv_geomD(1) [OF i m(1)]
    by (intro listed_push [where V = V and H = H and b = "bkt V m"]) (auto simp: hinv_def pushed_def)
  moreover have "last_ok B (X - {m}) ?V (H 0)"
    using i m by (auto simp: hinv_def last_ok_def pushed_def)
  ultimately show "hinv none B (X - {m}) ?V ?H"
    using i b by (simp add: hinv_def F geom_def linked_def clear_def same)
qed

text \<open>The invariant does not depend on the last header field of blocks that are not free: data of the program.\<close>

lemma hinv_cong:
  assumes c: "\<And>x f. x \<in> B \<Longrightarrow> f \<noteq> PrevFree \<or> x \<in> frees B X V \<Longrightarrow> V' x f = V x f" and i: "hinv none B X V H"
  shows "hinv none B X V' H" "frees B X V' = frees B X V"
proof -
  have e: "V' x f = V x f" if "x \<in> B" "f \<noteq> PrevFree" for x f using c that by auto
  have s: "V' x f = V x f" if "x \<in> frees B X V" for x f using c [of x f] that by (auto simp: frees_def)
  show F: "frees B X V' = frees B X V" using e by (auto simp: frees_def)
  have g: "geom B V (H 0)" "linked B V" "last_ok B X V (H 0)" "listed none (frees B X V) V H" using i by (auto simp: hinv_def)
  have "geom B V' (H 0)" using g(1) e by (simp add: geom_def)
  moreover have "clear none B V'" using i e by (simp add: hinv_def clear_def)
  moreover have "linked B V'"
    unfolding linked_def
  proof
    fix m assume m: "m \<in> B"
    then show "(V' m Next = 0 \<or> V' m Next \<in> B \<and> V' m Next = m + V' m Sz \<and> V' (V' m Next) Prev = m) \<and>
        (V' m Prev = 0 \<or> V' m Prev \<in> B \<and> V' (V' m Prev) Next = m)"
      using bspec [OF g(2) [unfolded linked_def] m] e [OF m] e [of "V m Next"] e [of "V m Prev"] by auto
  qed
  moreover have "last_ok B X V' (H 0)" using g(3) e by (auto simp: last_ok_def)
  moreover have "listed none (frees B X V) V' H"
    unfolding listed_def
  proof (intro conjI ballI allI impI)
    fix m assume m: "m \<in> frees B X V"
    show "V' m NextFree = none \<or> V' m NextFree \<in> frees B X V \<and> V' (V' m NextFree) PrevFree = m \<and>
        bkt V' (V' m NextFree) = bkt V' m"
      using g(4) m s [OF m] s [of "V m NextFree"] by (auto simp: listed_def)
    show "V' m PrevFree = none \<and> H (bkt V' m) = m \<or> V' m PrevFree \<in> frees B X V \<and>
        V' (V' m PrevFree) NextFree = m \<and> bkt V' (V' m PrevFree) = bkt V' m"
      using g(4) m s [OF m] s [of "V m PrevFree"] by (auto simp: listed_def)
  next
    fix b :: nat assume "0 < b"
    then have "H b = 0 \<or> H b \<in> frees B X V \<and> bkt V (H b) = b \<and> V (H b) PrevFree = none"
      using g(4) unfolding listed_def by blast
    then show "H b = 0 \<or> H b \<in> frees B X V \<and> bkt V' (H b) = b \<and> V' (H b) PrevFree = none"
      using s [of "H b"] by auto
  qed
  ultimately show "hinv none B X V' H"
    using i by (simp add: hinv_def F)
qed

abbreviation free_blocks :: "nat set \<Rightarrow> nat set \<Rightarrow> nheap \<Rightarrow> nat set" where
  "free_blocks B X h \<equiv> frees B X (view h)"

text \<open>\<^verbatim>\<open>extractfree\<close> unlinks a free block, wherever it is in its list.\<close>

lemma extractfree_view:
  assumes i: "nok none B X h" and m: "m \<in> free_blocks B X h"
  shows "x \<in> B \<Longrightarrow> fld f x (extractfree none m h) = unlinked m (view h) x f"
    and "freehdrs (extractfree none m h) = unlinked_hdrs none m (view h) (freehdrs h)"
    and "frame (free_blocks B X h) {} h (extractfree none m h)"
proof -
  have i': "hinv none B X (view h) (freehdrs h)" using i by (simp add: nok_def)
  note d = freesD [OF i' m]
  note fs = fld_setf [OF nok_spaced [OF i]]
  have n: "none < 2 ^ 32" "none \<notin> B" "none \<noteq> 0" using i' by (auto simp: hinv_def)
  obtain n p where np: "fld NextFree m h = n" "fld PrevFree m h = p" by blast
  have nf: "n = none \<or> n \<in> free_blocks B X h \<and> n \<in> B \<and> n \<noteq> 0 \<and> n \<noteq> none"
    and pf: "p = none \<or> p \<in> free_blocks B X h \<and> p \<in> B \<and> p \<noteq> 0 \<and> p \<noteq> none"
    and mm: "m \<in> B" "m \<noteq> 0" "m \<noteq> none" "n \<noteq> 0" "p \<noteq> 0"
    using d freesD(1,7,8) [OF i'] np by auto
  have self: "n = m \<longleftrightarrow> p = m"
    using i' m np mm unfolding hinv_def listed_def by metis
  have bound: "n < 2 ^ 32" "p < 2 ^ 32" "m < 2 ^ 32"
    using fld_bound [of NextFree m h] fld_bound [of PrevFree m h] hinv_geomD(5) [OF i' mm(1)] np by auto
  let ?b = "size2bucket (fld Sz m h)"
  have ex: "extractfree none m h =
     (if n = none then
        if p = none then setf NextFree m 0 (setf PrevFree m 0 (sethdr ?b 0 (setf PrevFree m 0 (setf NextFree m 0 h))))
        else setf NextFree m 0 (setf PrevFree m 0 (setf NextFree p none (setf NextFree m 0 h)))
      else
        if p = none then setf NextFree m 0 (setf PrevFree m 0 (sethdr ?b n (setf PrevFree n none (setf PrevFree m 0 h))))
        else setf NextFree m 0 (setf PrevFree m 0 (setf NextFree p n (setf PrevFree n p h))))"
    using nf pf mm self n bound by (auto simp: extractfree_def Let_def fs np)
  show "fld f x (extractfree none m h) = unlinked m (view h) x f" if "x \<in> B"
  proof -
    have "x \<noteq> none" using that n by auto
    then show ?thesis
      using that nf pf mm self n bound by (auto simp: ex fs np unlinked_def)
  qed
  show "freehdrs (extractfree none m h) = unlinked_hdrs none m (view h) (freehdrs h)"
    by (simp add: ex np unlinked_hdrs_def)
  show "frame (free_blocks B X h) {} h (extractfree none m h)"
    using nf pf m by (auto simp: ex intro!: frame_intros)
qed

lemma extractfree_ok:
  assumes i: "nok none B X h" and m: "m \<in> free_blocks B X h"
  shows "nok none B X (extractfree none m h)"
    and "free_blocks B X (extractfree none m h) = free_blocks B X h - {m}"
    and "x \<in> B \<Longrightarrow> f \<noteq> NextFree \<Longrightarrow> f \<noteq> PrevFree \<Longrightarrow> fld f x (extractfree none m h) = fld f x h"
    and "freehdrs (extractfree none m h) 0 = freehdrs h 0"
    and "fld NextFree m (extractfree none m h) = 0"
proof -
  have i': "hinv none B X (view h) (freehdrs h)" using i by (simp add: nok_def)
  note v = extractfree_view [OF i m]
  note u = hinv_unlinked [OF i' m]
  have "hinv none B X (view (extractfree none m h)) (unlinked_hdrs none m (view h) (freehdrs h))"
    using u(1) by (rule hinv_cong(1) [rotated]) (simp add: v)
  then show "nok none B X (extractfree none m h)" by (simp add: nok_def v)
  have "free_blocks B X (extractfree none m h) = frees B X (unlinked m (view h))"
    using u(1) by (rule hinv_cong(2) [rotated]) (simp add: v)
  then show "free_blocks B X (extractfree none m h) = free_blocks B X h - {m}" by (simp add: u(2))
  show "fld f x (extractfree none m h) = fld f x h" if "x \<in> B" "f \<noteq> NextFree" "f \<noteq> PrevFree"
    using that by (simp add: v unlinked_def)
  show "fld NextFree m (extractfree none m h) = 0"
    using freesD(1) [OF i' m] by (simp add: v unlinked_def)
  have "size2bucket (fld Sz m h) \<noteq> 0"
    using freesD(6) [OF i' m] size2bucket_0 [of "fld Sz m h"] by simp
  then show "freehdrs (extractfree none m h) 0 = freehdrs h 0"
    by (simp add: v unlinked_hdrs_def)
qed

text \<open>\<^verbatim>\<open>rmvfromfree\<close> unlinks the head of a list.\<close>

lemma rmvfromfree_ok:
  assumes i: "nok none B X h" and b: "0 < b" "freehdrs h b \<noteq> 0"
  obtains h' where "rmvfromfree none (freehdrs h b) h = Some h'" "nok none B X h'"
    "free_blocks B X h' = free_blocks B X h - {freehdrs h b}" "fld NextFree (freehdrs h b) h' = 0"
    "\<And>x f. x \<in> B \<Longrightarrow> f \<noteq> NextFree \<Longrightarrow> f \<noteq> PrevFree \<Longrightarrow> fld f x h' = fld f x h"
    "freehdrs h' 0 = freehdrs h 0" "frame (free_blocks B X h) {} h h'" "freehdrs h b \<in> free_blocks B X h"
proof -
  let ?m = "freehdrs h b"
  have i': "hinv none B X (view h) (freehdrs h)" using i by (simp add: nok_def)
  have m: "?m \<in> free_blocks B X h" "size2bucket (fld Sz ?m h) = b" "fld PrevFree ?m h = none"
    using headsD [OF i' b] by auto
  note d = freesD [OF i' m(1)]
  note fs = fld_setf [OF nok_spaced [OF i]]
  note u = hinv_unlinked [OF i' m(1)]
  have n: "none < 2 ^ 32" "none \<notin> B" using i' by (auto simp: hinv_def)
  obtain n where nf: "fld NextFree ?m h = n" by blast
  have nn: "n = none \<or> n \<in> free_blocks B X h \<and> n \<in> B \<and> n \<noteq> none"
    using d freesD(1,7) [OF i'] nf by auto
  have self: "n \<noteq> ?m"
    using i' m d nf unfolding hinv_def listed_def by metis
  define h' where "h' = setf NextFree ?m 0
     (if n = none then sethdr b 0 h else setf PrevFree n none (sethdr b n h))"
  have r: "rmvfromfree none ?m h = Some h'"
    using b(2) m(2) by (simp add: rmvfromfree_def h'_def nf Let_def)
  have v: "fld f x h' = unlinked ?m (view h) x f" if "x \<in> B" "f \<noteq> PrevFree \<or> x \<noteq> ?m" for x f
  proof -
    have "x \<noteq> none" using that n by auto
    then show ?thesis
      using that nn self n d(1) by (auto simp: h'_def fs nf m(3) unlinked_def)
  qed
  have H: "freehdrs h' = unlinked_hdrs none ?m (view h) (freehdrs h)"
    by (simp add: h'_def unlinked_hdrs_def m nf)
  have mU: "?m \<notin> frees B X (unlinked ?m (view h))" using u(2) by simp
  have c: "fld f x h' = unlinked ?m (view h) x f" if "x \<in> B" "f \<noteq> PrevFree \<or> x \<in> frees B X (unlinked ?m (view h))" for x f
    using v [of x f] that mU by auto
  show ?thesis
  proof (rule that [OF r])
    show "nok none B X h'"
      using hinv_cong(1) [OF c u(1)] by (simp add: nok_def H)
    show "free_blocks B X h' = free_blocks B X h - {?m}"
      using hinv_cong(2) [OF c u(1)] u(2) by simp
    show "fld NextFree ?m h' = 0" using v [OF d(1), of NextFree] by (simp add: unlinked_def)
    show "fld f x h' = fld f x h" if "x \<in> B" "f \<noteq> NextFree" "f \<noteq> PrevFree" for x f
      using v [of x f] that by (simp add: unlinked_def)
    show "freehdrs h' 0 = freehdrs h 0" using b by (simp add: h'_def)
    show "frame (free_blocks B X h) {} h h'"
      using nn m(1) by (auto simp: h'_def intro!: frame_intros)
    show "?m \<in> free_blocks B X h" by (rule m(1))
  qed
qed

lemma link_free_ok:
  assumes i: "nok none B X h" and m: "m \<in> B" "m \<noteq> lastsbrk h" "m \<in> X \<or> fld NextFree m h = 0"
  shows "nok none B (X - {m}) (link_free none m h)"
    and "free_blocks B (X - {m}) (link_free none m h) = insert m (free_blocks B X h)"
    and "x \<in> B \<Longrightarrow> f \<noteq> NextFree \<Longrightarrow> f \<noteq> PrevFree \<Longrightarrow> fld f x (link_free none m h) = fld f x h"
    and "freehdrs (link_free none m h) 0 = freehdrs h 0"
    and "frame (insert m (free_blocks B X h)) {} h (link_free none m h)"
proof -
  have i': "hinv none B X (view h) (freehdrs h)" using i by (simp add: nok_def)
  note fs = fld_setf [OF nok_spaced [OF i]]
  note p = hinv_pushed [OF i' m]
  let ?b = "size2bucket (fld Sz m h)"
  have b: "?b \<noteq> 0" using hinv_geomD(3) [OF i' m(1)] size2bucket_0 [of "fld Sz m h"] by simp
  obtain k where k: "freehdrs h ?b = k" by blast
  have kk: "k = 0 \<or> k \<in> free_blocks B X h \<and> k \<in> B \<and> k \<noteq> m \<and> k \<noteq> 0"
    using headsD(1) [OF i', of ?b] b k m(3) by (auto simp: frees_def)
  have bound: "none < 2 ^ 32" "m < 2 ^ 32" "k < 2 ^ 32"
    using i' hinv_geomD(5) [OF i' m(1)] hinv_geomD(5) [OF i', of k] kk by (auto simp: hinv_def)
  have l: "link_free none m h = sethdr ?b m
      (if k \<noteq> 0 then setf PrevFree k m (setf PrevFree m none (setf PrevFree k m (setf NextFree m k h)))
       else setf PrevFree m none (setf NextFree m none h))"
    by (simp add: link_free_def Let_def k)
  have v: "fld f x (link_free none m h) = pushed none m (freehdrs h) (view h) x f" if "x \<in> B" for x f
    using that kk m(1) bound hinv_geomD(1) [OF i' that] by (auto simp: l fs pushed_def k)
  have H: "freehdrs (link_free none m h) = (freehdrs h)(?b := m)"
    by (simp add: l)
  show "nok none B (X - {m}) (link_free none m h)"
    using hinv_cong(1) [OF v p(1)] by (simp add: nok_def H)
  show "free_blocks B (X - {m}) (link_free none m h) = insert m (free_blocks B X h)"
    using hinv_cong(2) [OF v p(1)] p(2) by simp
  show "fld f x (link_free none m h) = fld f x h" if "x \<in> B" "f \<noteq> NextFree" "f \<noteq> PrevFree"
    using that by (simp add: v pushed_def)
  show "freehdrs (link_free none m h) 0 = freehdrs h 0" using b by (simp add: H)
  show "frame (insert m (free_blocks B X h)) {} h (link_free none m h)"
    using kk by (auto simp: l intro!: frame_intros)
qed

section \<open>Joining and splitting blocks\<close>

definition joined :: "nat \<Rightarrow> nat \<Rightarrow> view \<Rightarrow> view" where
  "joined m n V x f =
     (if x = m \<and> f = Sz then V m Sz + V n Sz
      else if x = m \<and> f = Next then V n Next
      else if x = V n Next \<and> f = Prev then m
      else V x f)"

text \<open>Free lists only depend on the free blocks.\<close>

lemma listed_cong:
  assumes l: "listed none F V H" and V: "\<And>x f. x \<in> F \<Longrightarrow> f \<noteq> Prev \<Longrightarrow> f \<noteq> Next \<Longrightarrow> V' x f = V x f"
    and H: "\<And>b. 0 < b \<Longrightarrow> H' b = H b" and z: "\<And>x. x \<in> F \<Longrightarrow> V x Sz \<noteq> 0"
  shows "listed none F V' H'"
proof -
  have bp: "0 < bkt V x" if "x \<in> F" for x using z [OF that] size2bucket_0 [of "V x Sz"] by simp
  have s: "V' x NextFree = V x NextFree" "V' x PrevFree = V x PrevFree" "V' x Sz = V x Sz" if "x \<in> F" for x
    using V [OF that] by auto
  show ?thesis
    unfolding listed_def
  proof (intro conjI ballI allI impI)
    fix m assume m: "m \<in> F"
    show "V' m NextFree = none \<or> V' m NextFree \<in> F \<and> V' (V' m NextFree) PrevFree = m \<and>
        bkt V' (V' m NextFree) = bkt V' m"
      using l m s [OF m] s [of "V m NextFree"] by (auto simp: listed_def)
    show "V' m PrevFree = none \<and> H' (bkt V' m) = m \<or> V' m PrevFree \<in> F \<and>
        V' (V' m PrevFree) NextFree = m \<and> bkt V' (V' m PrevFree) = bkt V' m"
      using l m s [OF m] s [of "V m PrevFree"] H [OF bp [OF m]] by (auto simp: listed_def)
  next
    fix b :: nat assume b: "0 < b"
    then have "H b = 0 \<or> H b \<in> F \<and> bkt V (H b) = b \<and> V (H b) PrevFree = none"
      using l unfolding listed_def by blast
    then show "H' b = 0 \<or> H' b \<in> F \<and> bkt V' (H' b) = b \<and> V' (H' b) PrevFree = none"
      using s [of "H b"] H [OF b] by auto
  qed
qed

lemma clearD: "hinv none B X V H \<Longrightarrow> m \<in> B \<Longrightarrow> none < m \<or> m + V m Sz \<le> none"
  by (simp add: hinv_def clear_def)

lemma linkedD:
  assumes "hinv none B X V H" "m \<in> B"
  shows "V m Next = 0 \<or> V m Next \<in> B \<and> V m Next = m + V m Sz \<and> V (V m Next) Prev = m"
    "V m Prev = 0 \<or> V m Prev \<in> B \<and> V (V m Prev) Next = m"
  using assms by (auto simp: hinv_def linked_def)

lemma hinv_joined:
  assumes i: "hinv none B X V H" and m: "m \<in> B" "m \<in> X \<or> V m NextFree = 0"
    and n: "V m Next = n" "n \<noteq> 0" "V n NextFree = 0" "n \<notin> X"
    and V': "\<And>x f. x \<in> B - {n} \<Longrightarrow> x = m \<longrightarrow> f \<noteq> NextFree \<and> f \<noteq> PrevFree \<Longrightarrow> V' x f = joined m n V x f"
    and X': "X' - {m} = X - {m}" "m \<in> X' \<or> V' m NextFree = 0" "n = H 0 \<Longrightarrow> V' m NextFree = 0 \<and> m \<notin> X'"
    and H': "\<And>b. 0 < b \<Longrightarrow> H' b = H b" "H' 0 = (if n = H 0 then m else H 0)"
  shows "hinv none (B - {n}) X' V' H'" "frees (B - {n}) X' V' = frees B X V"
proof -
  let ?B = "B - {n}"
  note g = hinv_geomD [OF i]
  have nB: "n \<in> B" "n = m + V m Sz" "V n Prev = m" using linkedD(1) [OF i m(1)] n by auto
  have mn: "m < n" "m \<noteq> n" using g(3) [OF m(1)] nB(2) by auto
  have nn: "V n Next = 0 \<or> V n Next \<in> B \<and> V n Next = n + V n Sz \<and> V (V n Next) Prev = n"
    using linkedD(1) [OF i nB(1)] .
  have nn': "V n Next \<noteq> n" "V n Next \<noteq> m" using nn g(3) [OF nB(1)] g(1) [OF nB(1)] g(1) [OF m(1)] mn by auto
  have f: "V' x Sz = (if x = m then V m Sz + V n Sz else V x Sz)" "V' x Next = (if x = m then V n Next else V x Next)"
      "V' x Prev = (if x = V n Next then m else V x Prev)" if "x \<in> ?B" for x
    using V' [OF that] nn' by (auto simp: joined_def)
  have o: "V' x NextFree = V x NextFree" "V' x PrevFree = V x PrevFree" if "x \<in> ?B" "x \<noteq> m" for x
    using V' [OF that(1)] that(2) by (auto simp: joined_def)
  have XX: "x \<in> X' \<longleftrightarrow> x \<in> X" if "x \<noteq> m" for x using X'(1) that by blast
  show F: "frees ?B X' V' = frees B X V"
  proof (rule set_eqI)
    fix x
    show "x \<in> frees ?B X' V' \<longleftrightarrow> x \<in> frees B X V"
    proof (cases "x = m \<or> x = n \<or> x \<notin> B")
      case True
      then show ?thesis using m(2) n(3) X'(2) by (auto simp: frees_def)
    next
      case False
      then show ?thesis using o(1) [of x] XX [of x] by (simp add: frees_def)
    qed
  qed
  have top: "x \<le> m" if "x \<in> ?B" "n = H 0" for x
    using g(7) [OF m(1), of x] g(6) [of x] that nB(2) by (cases "m < x") auto
  have "geom ?B V' (H' 0)"
    unfolding geom_def
  proof (intro conjI ballI impI)
    fix x assume x: "x \<in> ?B"
    then show "0 < x" "x mod 8 = 0" "16 \<le> V' x Sz" "x + V' x Sz < 2 ^ 32"
      using g(1,2,3,5) [of x] g(5) [OF nB(1)] nB(2) by (auto simp: f)
    show "x \<le> H' 0"
      using top [OF x] x g(6) [of x] by (auto simp: H'(2))
  next
    fix x y assume xy: "x \<in> ?B" "y \<in> ?B" "x < y"
    show "x + 24 \<le> y" using xy g(4) [of x y] by auto
    show "x + V' x Sz \<le> y"
    proof (cases "x = m")
      case True
      then have "n < y" using xy g(7) [OF m(1), of y] nB(2) by auto
      then show ?thesis using True xy g(7) [OF nB(1), of y] nB(2) by (auto simp: f)
    next
      case False
      then show ?thesis using xy g(7) [of x y] by (auto simp: f)
    qed
  qed
  moreover have "linked ?B V'"
    unfolding linked_def
  proof (intro ballI conjI)
    fix x assume x: "x \<in> ?B"
    show "V' x Next = 0 \<or> V' x Next \<in> ?B \<and> V' x Next = x + V' x Sz \<and> V' (V' x Next) Prev = x"
    proof (cases "x = m")
      case True
      then show ?thesis using x nn nn' nB(2) by (auto simp: f)
    next
      case False
      have "V x Next \<noteq> n" "V x Next \<noteq> 0 \<Longrightarrow> V x Next \<noteq> V n Next"
        using linkedD(1) [OF i, of x] x nn nB False n(2) by auto
      then show ?thesis using linkedD(1) [OF i, of x] x False by (auto simp: f)
    qed
    show "V' x Prev = 0 \<or> V' x Prev \<in> ?B \<and> V' (V' x Prev) Next = x"
    proof (cases "x = V n Next")
      case True
      then show ?thesis using x m(1) mn by (auto simp: f)
    next
      case False
      have "V x Prev \<noteq> 0 \<Longrightarrow> V x Prev \<noteq> n \<and> V x Prev \<noteq> m"
        using linkedD(2) [OF i, of x] x False n(1) by auto
      then show ?thesis using linkedD(2) [OF i, of x] x False by (auto simp: f)
    qed
  qed
  moreover have "listed none (frees B X V) V' H'"
  proof (rule listed_cong [where V = V and H = H])
    show "listed none (frees B X V) V H" using i by (simp add: hinv_def)
    show "V x Sz \<noteq> 0" if "x \<in> frees B X V" for x using frees_pos(3) [OF i that] .
    show "V' x k = V x k" if "x \<in> frees B X V" "k \<noteq> Prev" "k \<noteq> Next" for x k
    proof -
      have "x \<in> ?B" "x \<noteq> m" using that(1) m n by (auto simp: frees_def)
      then show ?thesis using V' [of x k] that(2,3) by (auto simp: joined_def)
    qed
  qed (simp add: H'(1))
  moreover have "clear none ?B V'"
    unfolding clear_def
  proof
    fix x assume "x \<in> ?B"
    then show "none < x \<or> x + V' x Sz \<le> none"
      using clearD [OF i, of x] clearD [OF i nB(1)] nB(2) by (auto simp: f)
  qed
  moreover have "last_ok ?B X' V' (H' 0)"
  proof (cases "n = H 0")
    case True
    then have "V n Next = 0" using i nB by (auto simp: hinv_def last_ok_def)
    then show ?thesis using True m mn X'(3) H'(2) by (auto simp: last_ok_def f)
  next
    case False
    then have L: "H 0 \<in> ?B" "V (H 0) NextFree = 0" "V (H 0) Next = 0" "H 0 \<notin> X"
      using i nB by (auto simp: hinv_def last_ok_def)
    then have "H 0 \<noteq> m" using n by auto
    then show ?thesis using L False H'(2) XX [of "H 0"] by (auto simp: last_ok_def f o)
  qed
  ultimately show "hinv none ?B X' V' H'"
    using i by (simp add: hinv_def F)
qed

definition split_at :: "nat \<Rightarrow> nat \<Rightarrow> view \<Rightarrow> view" where
  "split_at m sz V x f =
     (if x = m then (case f of Sz \<Rightarrow> sz | Next \<Rightarrow> m + sz | NextFree \<Rightarrow> 0 | _ \<Rightarrow> V m f)
      else if x = m + sz then (case f of Prev \<Rightarrow> m | Sz \<Rightarrow> V m Sz - sz | _ \<Rightarrow> V m f)
      else if x = V m Next \<and> f = Prev then m + sz
      else V x f)"

lemma split_at_simps:
  "split_at m sz V m Sz = sz" "split_at m sz V m Next = m + sz" "split_at m sz V m NextFree = 0"
  "split_at m sz V m Prev = V m Prev"
  "0 < sz \<Longrightarrow> split_at m sz V (m + sz) Prev = m" "0 < sz \<Longrightarrow> split_at m sz V (m + sz) Sz = V m Sz - sz"
  "0 < sz \<Longrightarrow> split_at m sz V (m + sz) Next = V m Next" "0 < sz \<Longrightarrow> split_at m sz V (m + sz) NextFree = V m NextFree"
  "x \<noteq> m \<Longrightarrow> x \<noteq> m + sz \<Longrightarrow> f \<noteq> Prev \<Longrightarrow> split_at m sz V x f = V x f"
  "x \<noteq> m \<Longrightarrow> x \<noteq> m + sz \<Longrightarrow> split_at m sz V x Prev = (if x = V m Next then m + sz else V x Prev)"
  by (auto simp: split_at_def)

lemma hinv_split:
  assumes i: "hinv none B X V H" and m: "m \<in> B" "V m NextFree = 0" "m \<notin> X"
    and sz: "24 \<le> sz" "sz mod 8 = 0" "sz + (if m = H 0 then 16 else 24) \<le> V m Sz"
    and V': "\<And>x f. x \<in> insert (m + sz) B \<Longrightarrow> f \<noteq> PrevFree \<or> x \<in> frees B X V \<Longrightarrow> V' x f = split_at m sz V x f"
    and H': "\<And>b. 0 < b \<Longrightarrow> H' b = H b" "H' 0 = (if m = H 0 then m + sz else H 0)" and X': "m + sz \<notin> X"
  shows "hinv none (insert (m + sz) B) X V' H'" "frees (insert (m + sz) B) X V' = frees B X V" "m + sz \<notin> B"
proof -
  let ?m = "m + sz" and ?B = "insert (m + sz) B"
  note g = hinv_geomD [OF i]
  have bound: "sz < V m Sz" using sz by (auto split: if_splits)
  show new: "?m \<notin> B" using g(7) [OF m(1), of ?m] sz(1) bound by auto
  have mm: "?m \<noteq> m" using sz(1) by simp
  have nm: "V m Next \<noteq> m" "V m Next \<noteq> ?m" using linkedD(1) [OF i m(1)] bound g(1) [OF m(1)] sz(1) by auto
  have s: "V' m Sz = sz" "V' m Next = ?m" "V' m NextFree = 0" "V' m Prev = V m Prev"
      "V' ?m Prev = m" "V' ?m Sz = V m Sz - sz" "V' ?m Next = V m Next" "V' ?m NextFree = 0"
    using m sz(1) by (simp_all add: V' split_at_simps)
  have t: "V' x Sz = V x Sz" "V' x Next = V x Next" "V' x NextFree = V x NextFree"
      "V' x Prev = (if x = V m Next then ?m else V x Prev)" if "x \<in> B" "x \<noteq> m" for x
  proof -
    have "x \<noteq> ?m" using that new by auto
    then show "V' x Sz = V x Sz" "V' x Next = V x Next" "V' x NextFree = V x NextFree"
      "V' x Prev = (if x = V m Next then ?m else V x Prev)"
      using that by (simp_all add: V' split_at_simps)
  qed
  show F: "frees ?B X V' = frees B X V"
  proof (rule set_eqI)
    fix x
    show "x \<in> frees ?B X V' \<longleftrightarrow> x \<in> frees B X V"
      using s(3,8) t(3) [of x] m(2) new by (cases "x = m \<or> x = ?m") (auto simp: frees_def)
  qed
  have "geom ?B V' (H' 0)"
    unfolding geom_def
  proof (intro conjI ballI impI)
    fix x assume x: "x \<in> ?B"
    show "0 < x" using x g(1) sz(1) by auto
    show "x mod 8 = 0" using x g(2) sz(2) m(1) by (auto simp: mod_add_eq [symmetric])
    show "16 \<le> V' x Sz"
      using x sz g(3) [of x] by (cases "x = m"; cases "x = ?m") (auto simp: s t split: if_splits)
    show "x + V' x Sz < 2 ^ 32"
      using x bound g(5) [of x] g(5) [OF m(1)] by (cases "x = m"; cases "x = ?m") (auto simp: s t)
    show "x \<le> H' 0"
      using x g(6) [of x] g(6) [OF m(1)] g(7) [OF m(1), of "H 0"] bound i m(1)
      by (auto simp: H'(2) hinv_def last_ok_def)
  next
    fix x y assume xy: "x \<in> ?B" "y \<in> ?B" "x < y"
    consider "x = m" "y = ?m" | "x = m" "y \<in> B" "y \<noteq> m" | "x = ?m" "y \<in> B" "y \<noteq> m" | "x \<in> B" "x \<noteq> m" "y = ?m" | "x \<in> B" "x \<noteq> m" "y \<in> B"
      using xy mm by auto
    then have "x + V' x Sz \<le> y \<and> x + 24 \<le> y"
    proof cases
      case 1
      then show ?thesis using sz(1) by (simp add: s)
    next
      case 2
      then show ?thesis using g(7) [OF m(1), of y] g(4) [OF m(1), of y] xy(3) bound by (simp add: s)
    next
      case 3
      then have "m \<noteq> H 0" using g(6) [of y] xy(3) by auto
      then show ?thesis using 3 g(7) [OF m(1), of y] xy(3) bound sz(3) by (simp add: s)
    next
      case 4
      then have "x < m" using g(7) [OF m(1), of x] xy(3) bound by (cases "m < x") auto
      then show ?thesis using 4 g(7) [of x m] g(4) [of x m] m(1) by (simp add: t)
    next
      case 5
      then show ?thesis using g(7) [of x y] g(4) [of x y] xy(3) by (simp add: t)
    qed
    then show "x + V' x Sz \<le> y" "x + 24 \<le> y" by simp_all
  qed
  moreover have "linked ?B V'"
    unfolding linked_def
  proof (intro ballI conjI)
    fix x assume x: "x \<in> ?B"
    show "V' x Next = 0 \<or> V' x Next \<in> ?B \<and> V' x Next = x + V' x Sz \<and> V' (V' x Next) Prev = x"
    proof (cases "x = m \<or> x = ?m")
      case True
      then show ?thesis using linkedD(1) [OF i m(1)] nm bound by (auto simp: s t)
    next
      case False
      then have "V x Next \<noteq> 0 \<Longrightarrow> V x Next \<noteq> V m Next" "V x Next \<noteq> 0 \<Longrightarrow> V x Next \<in> B"
        using linkedD(1) [OF i, of x] linkedD(1) [OF i m(1)] x by auto
      then show ?thesis
        using linkedD(1) [OF i, of x] x False by (cases "V x Next = m") (auto simp: s t)
    qed
    show "V' x Prev = 0 \<or> V' x Prev \<in> ?B \<and> V' (V' x Prev) Next = x"
    proof (cases "x = m \<or> x = ?m \<or> x = V m Next")
      case True
      moreover have "V m Prev \<noteq> 0 \<Longrightarrow> V m Prev \<noteq> m" using linkedD(2) [OF i m(1)] nm(1) by auto
      ultimately show ?thesis
        using linkedD(2) [OF i m(1)] nm m(1) x g(1) [of "V m Next"] by (auto simp: s t)
    next
      case False
      then have "V x Prev \<noteq> m" using linkedD(2) [OF i, of x] x g(1) [OF m(1)] by auto
      then show ?thesis using linkedD(2) [OF i, of x] x False by (auto simp: t)
    qed
  qed
  moreover have "clear none ?B V'"
    unfolding clear_def
  proof
    fix x assume x: "x \<in> ?B"
    then show "none < x \<or> x + V' x Sz \<le> none"
      using clearD [OF i, of x] clearD [OF i m(1)] bound by (cases "x = m"; cases "x = ?m") (auto simp: s t)
  qed
  moreover have "none \<noteq> ?m" using clearD [OF i m(1)] bound by auto
  moreover have "listed none (frees B X V) V' H'"
  proof (rule listed_cong [where V = V and H = H])
    show "listed none (frees B X V) V H" using i by (simp add: hinv_def)
    show "V x Sz \<noteq> 0" if "x \<in> frees B X V" for x using frees_pos(3) [OF i that] .
    show "V' x k = V x k" if x: "x \<in> frees B X V" and "k \<noteq> Prev" "k \<noteq> Next" for x k
    proof -
      have "x \<in> B" "x \<noteq> m" "x \<noteq> ?m" using x m new by (auto simp: frees_def)
      then show ?thesis using V' [of x k] that by (simp add: split_at_simps)
    qed
  qed (simp add: H'(1))
  moreover have "last_ok ?B X V' (H' 0)"
  proof (cases "m = H 0")
    case True
    then have "V m Next = 0" using i m(1) by (auto simp: hinv_def last_ok_def)
    then have "V' ?m Next = 0" "V' ?m NextFree = 0" "H' 0 = ?m" using s(7,8) True H'(2) by auto
    then show ?thesis using X' by (simp add: last_ok_def)
  next
    case False
    then have "H 0 \<in> B" "V (H 0) NextFree = 0" "V (H 0) Next = 0" "H 0 \<notin> X"
      using i m(1) by (auto simp: hinv_def last_ok_def)
    then show ?thesis using False H'(2) by (simp add: last_ok_def t)
  qed
  ultimately show "hinv none ?B X V' H'"
    using i by (simp add: hinv_def F)
qed

lemma fld_copy_header:
  assumes "spaced S" "m1 \<in> S" "x \<in> S" "f \<noteq> PrevFree \<or> x \<noteq> m1"
  shows "fld f x (h\<lparr>bytes := copy_bytes m1 m 16 (bytes h)\<rparr>) = (if x = m1 then fld f m h else fld f x h)"
proof -
  have o: "offset f + 4 \<le> 20" "f \<noteq> PrevFree \<Longrightarrow> offset f + 4 \<le> 16" by (cases f; simp)+
  have x: "x = m1 \<or> x + 24 \<le> m1 \<or> m1 + 24 \<le> x"
    using assms(1-3) by (metis spaced_def linorder_neqE_nat)
  show ?thesis
  proof (cases "x = m1")
    case True
    then show ?thesis using o assms(4) by (simp add: fld_def rd32_copy_in)
  next
    case False
    then show ?thesis using o x by (auto simp: fld_def intro!: rd32_copy_out)
  qed
qed

lemma frame_copy_header: "m1 \<in> Q \<Longrightarrow> frame P Q h (h\<lparr>bytes := copy_bytes m1 m 16 (bytes h)\<rparr>)"
  by (auto simp: frame_def copy_bytes_def)

lemma nmalloc_split_ok:
  assumes i: "nok none B X h" and m: "m \<in> B" "fld NextFree m h = 0" "m \<notin> X"
    and sz: "24 \<le> sz" "sz mod 8 = 0" "sz + (if m = lastsbrk h then 16 else 24) \<le> fld Sz m h" and X: "m + sz \<notin> X"
  obtains h' where "nmalloc_split m sz h = Some (m, m + sz, h')"
    "nok none (insert (m + sz) B) X (if m = lastsbrk h then sethdr 0 (m + sz) h' else h')"
    "free_blocks (insert (m + sz) B) X h' = free_blocks B X h" "m + sz \<notin> B"
    "\<And>x f. x \<in> insert (m + sz) B \<Longrightarrow> f \<noteq> PrevFree \<Longrightarrow> fld f x h' = split_at m sz (view h) x f"
    "freehdrs h' = freehdrs h" "frame {} (insert (m + sz) B) h h'"
proof -
  let ?m = "m + sz" and ?B = "insert (m + sz) B"
  have i': "hinv none B X (view h) (freehdrs h)" using i by (simp add: nok_def)
  let ?H = "if m = lastsbrk h then (freehdrs h)(0 := ?m) else freehdrs h"
  note sp = hinv_split [OF i' m sz, where H' = ?H]
  have hs: "hinv none ?B X (split_at m sz (view h)) ?H" "frees ?B X (split_at m sz (view h)) = free_blocks B X h" "?m \<notin> B"
    using sp [where V' = "split_at m sz (view h)"] X by auto
  have S: "spaced ?B" using hs(1) geom_spaced by (auto simp: hinv_def)
  note fs = fld_setf [OF S]
  note g = hinv_geomD [OF i' m(1)]
  obtain n where n: "fld Next m h = n" by blast
  have nn: "n = 0 \<or> n \<in> B \<and> n \<noteq> m \<and> n \<noteq> ?m \<and> fld Prev n h = m"
    using linkedD(1) [OF i' m(1)] n g(1,3) hs(3) by auto
  have bound: "m < 2 ^ 32" "?m < 2 ^ 32" "fld Sz m h - sz < 2 ^ 32" "sz < 2 ^ 32" "(0 :: nat) < 2 ^ 32" "0 < sz"
    using g(5) sz by (auto split: if_splits)
  define k where "k = h\<lparr>bytes := copy_bytes ?m m 16 (bytes h)\<rparr>"
  have kf: "fld f x k = (if x = ?m then fld f m h else fld f x h)" if "x \<in> ?B" "f \<noteq> PrevFree \<or> x \<noteq> ?m" for x f
    unfolding k_def using that by (intro fld_copy_header [OF S]) auto
  have kh: "freehdrs k = freehdrs h" by (simp add: k_def)
  define k' where "k' = setf NextFree m 0 (setf Sz m sz (setf Next m ?m (setf Sz ?m (fld Sz m h - sz) (setf Prev ?m m k))))"
  define h' where "h' = (if n \<noteq> 0 then setf Prev n ?m k' else k')"
  have k'n: "fld Next ?m k' = n" "n \<noteq> 0 \<Longrightarrow> fld Prev n k' = m"
    using nn bound m(1) n by (auto simp: k'_def fs kf)
  have "fld Sz m (setf Prev ?m m k) = fld Sz m h"
    using m(1) bound by (simp add: fs kf)
  then have r: "nmalloc_split m sz h = Some (m, ?m, h')"
    using sz k'n unfolding nmalloc_split_def Let_def DATAOFFSET_def k_def [symmetric]
    by (auto simp: k'_def [symmetric] h'_def split: if_splits)
  have v: "fld f x h' = split_at m sz (view h) x f" if x: "x \<in> ?B" "f \<noteq> PrevFree \<or> x \<noteq> ?m" for x f
  proof -
    have p: "fld f x h' = (if n \<noteq> 0 \<and> x = n \<and> f = Prev then ?m else fld f x k')"
      using x(1) nn bound by (auto simp: h'_def fs)
    consider "x = m" | "x = ?m" | "x \<in> B" "x \<noteq> m" "x \<noteq> ?m" using x(1) by auto
    then show ?thesis
    proof cases
      case 1
      then show ?thesis using m(1) nn bound unfolding p by (cases f) (auto simp: k'_def fs kf split_at_def)
    next
      case 2
      then have "f \<noteq> PrevFree" using x(2) by simp
      then show ?thesis using 2 m nn bound n unfolding p by (cases f) (auto simp: k'_def fs kf split_at_def)
    next
      case 3
      then have "fld f x k' = fld f x h" using m(1) bound by (simp add: k'_def fs kf)
      then show ?thesis using 3 n hinv_geomD(1) [OF i' 3(1)] unfolding p by (auto simp: split_at_def)
    qed
  qed
  have nf: "?m \<notin> free_blocks B X h" using hs(3) by (auto simp: frees_def)
  have c: "fld f x h' = split_at m sz (view h) x f" if "x \<in> ?B" "f \<noteq> PrevFree \<or> x \<in> free_blocks B X h" for x f
    using v [of x f] that nf by auto
  have H: "freehdrs h' = freehdrs h" by (simp add: h'_def k'_def kh)
  show ?thesis
  proof (rule that [OF r])
    have "hinv none ?B X (view h') ?H" "frees ?B X (view h') = free_blocks B X h"
      using sp [where V' = "view h'"] c X by auto
    then show "nok none ?B X (if m = lastsbrk h then sethdr 0 ?m h' else h')" "free_blocks ?B X h' = free_blocks B X h"
      by (auto simp: nok_def H)
    show "?m \<notin> B" by (rule hs(3))
    show "fld f x h' = split_at m sz (view h) x f" if "x \<in> ?B" "f \<noteq> PrevFree" for x f using v that by auto
    show "freehdrs h' = freehdrs h" by (rule H)
    show "frame {} ?B h h'"
      using m(1) nn by (auto simp: h'_def k'_def k_def intro!: frame_setf frame_copy_header)
  qed
qed

end
