(* ===== verification/Nmalloc_Props.thy ===== *)
theory Nmalloc_Props
  imports Nheap
begin

text \<open>
  The operations of \<^verbatim>\<open>ansi/stdlib/nmalloc.c\<close> on consistent heaps.
\<close>

section \<open>Data of allocated blocks\<close>

definition same_data :: "nat \<Rightarrow> nat \<Rightarrow> nheap \<Rightarrow> nheap \<Rightarrow> bool" where
  "same_data u n h h' \<longleftrightarrow> (\<forall>a. u + DATAOFFSET \<le> a \<and> a < u + n \<longrightarrow> bytes h' a = bytes h a)"

definition untouched :: "nat \<Rightarrow> nheap \<Rightarrow> nheap \<Rightarrow> bool" where
  "untouched u h h' \<longleftrightarrow> fld Sz u h' = fld Sz u h \<and> same_data u (fld Sz u h) h h'"

definition used :: "nat set \<Rightarrow> nat set \<Rightarrow> nheap \<Rightarrow> nat set" where
  "used B X h = B - free_blocks B X h - X - {lastsbrk h}"

lemma same_data_refl [simp]: "same_data u n h h"
  by (simp add: same_data_def)

lemma same_data_trans: "same_data u n h h' \<Longrightarrow> same_data u n h' h'' \<Longrightarrow> same_data u n h h''"
  by (simp add: same_data_def)

lemma same_data_mono: "same_data u n h h' \<Longrightarrow> k \<le> n \<Longrightarrow> same_data u k h h'"
  by (simp add: same_data_def)

lemma untouched_refl [simp]: "untouched u h h"
  by (simp add: untouched_def)

lemma untouched_trans: "untouched u h h' \<Longrightarrow> untouched u h' h'' \<Longrightarrow> untouched u h h''"
  by (auto simp: untouched_def intro: same_data_trans)

lemma untouched_sethdr [simp]: "untouched u h (sethdr b v h') \<longleftrightarrow> untouched u h h'"
  "same_data u n h (sethdr b v h') \<longleftrightarrow> same_data u n h h'"
  by (simp_all add: untouched_def same_data_def)

text \<open>A block that is not in \<open>P\<close> keeps its data when only headers of \<open>P\<close> and \<open>Q\<close> are written.\<close>

lemma frame_same_data:
  assumes f: "frame P Q h h'" and i: "nok none B X h" and u: "u \<in> B" "u \<notin> P" and P: "P \<subseteq> B - {lastsbrk h}"
    and Q: "\<And>x. x \<in> Q \<Longrightarrow> x \<in> B \<or> x \<le> u \<or> u + n \<le> x" and n: "n \<le> fld Sz u h"
  shows "same_data u n h h'"
proof -
  have i': "hinv none B X (view h) (freehdrs h)" using i by (simp add: nok_def)
  note g = hinv_geomD [OF i']
  have "a < x \<or> x + 20 \<le> a" if a: "u + 16 \<le> a" "a < u + n" and "x \<in> P" for a x
  proof -
    have x: "x \<in> B" "x \<noteq> lastsbrk h" "x \<noteq> u" using \<open>x \<in> P\<close> u P by auto
    have "x + 24 \<le> u \<or> u + fld Sz u h \<le> x"
      using g(7) [OF u(1) x(1)] g(4) [OF x(1) u(1)] x by (metis linorder_neqE_nat)
    then show ?thesis using a n by linarith
  qed
  moreover have "a < x \<or> x + 16 \<le> a" if a: "u + 16 \<le> a" "a < u + n" and "x \<in> Q" for a x
  proof -
    have "x \<le> u \<or> u + n \<le> x"
      using Q [OF \<open>x \<in> Q\<close>] g(7) [OF u(1), of x] n by (cases "x \<le> u") auto
    then show ?thesis using a by linarith
  qed
  ultimately show ?thesis
    using f by (auto simp: frame_def same_data_def DATAOFFSET_def)
qed

lemma frees_sub: "nok none B X h \<Longrightarrow> free_blocks B X h \<subseteq> B - {lastsbrk h}"
  using freesD(1,5) [of none B X "view h" "freehdrs h"] by (auto simp: nok_def)

section \<open>Combining neighbours\<close>

text \<open>\<^verbatim>\<open>combinehi\<close> after the upper neighbour has been taken from its list, if it was in one.\<close>

lemma combinehi_view:
  assumes i: "nok none B X h" and m: "m \<in> B" "m \<in> X \<or> fld NextFree m h = 0"
    and n: "fld Next m h = n" "n \<noteq> 0" "n \<in> free_blocks B X h \<or> n = lastsbrk h" "n \<notin> X"
  obtains e h' where "combinehi none m h = Some (m, h')"
    "nok none B X e" "free_blocks B X e = free_blocks B X h - {n}" "lastsbrk e = lastsbrk h"
    "\<And>x f. x \<in> B \<Longrightarrow> f \<noteq> NextFree \<Longrightarrow> f \<noteq> PrevFree \<Longrightarrow> fld f x e = fld f x h"
    "\<And>x f. x \<in> B \<Longrightarrow> fld f x h' = joined m n (view e) x f" "freehdrs h' = freehdrs e" "fld NextFree n e = 0"
    "frame (free_blocks B X h) B h h'" "fld Next m e = n" "m \<notin> free_blocks B X h"
proof -
  define e where "e = (if n = lastsbrk h then h else extractfree none n h)"
  have i': "hinv none B X (view h) (freehdrs h)" using i by (simp add: nok_def)
  have l0: "n = lastsbrk h \<Longrightarrow> fld NextFree n h = 0 \<and> n \<notin> free_blocks B X h"
    using i' n(2) by (auto simp: hinv_def last_ok_def frees_def)
  have e: "nok none B X e" "free_blocks B X e = free_blocks B X h - {n}" "lastsbrk e = lastsbrk h"
      "fld NextFree n e = 0" "frame (free_blocks B X h) {} h e"
      "\<And>x f. x \<in> B \<Longrightarrow> f \<noteq> NextFree \<Longrightarrow> f \<noteq> PrevFree \<Longrightarrow> fld f x e = fld f x h"
    using i n l0 extractfree_ok [OF i, of n] extractfree_view(3) [OF i, of n]
    by (cases "n = lastsbrk h"; simp add: e_def frame_refl)+
  have em: "fld Next m e = n" using e(6) [OF m(1)] n by simp
  have ie: "hinv none B X (view e) (freehdrs e)" using e(1) by (simp add: nok_def)
  note l = linkedD(1) [OF ie m(1)]
  have nB: "n \<in> B" "fld Prev n e = m" "fld Prev n h = m" "n = m + fld Sz m e" using l em n(2) e(6) [of n Prev] by auto
  note g = hinv_geomD [OF ie]
  have mn: "m < n" using nB g(3) [OF m(1)] by simp
  obtain k where k: "fld Next n e = k" by blast
  have kk: "k = 0 \<or> k \<in> B \<and> k \<noteq> n \<and> k \<noteq> m" using linkedD(1) [OF ie nB(1)] g(3) [OF nB(1)] k mn by auto
  have bound: "m < 2 ^ 32" "k < 2 ^ 32" "fld Sz m e + fld Sz n e < 2 ^ 32"
    using g(5) [OF m(1)] g(5) [OF nB(1)] fld_bound [of Next n e] k nB(4) by auto
  note fs = fld_setf [OF nok_spaced [OF i]]
  define h' where "h' = setf Sz m (fld Sz m e + fld Sz n e) ((if k \<noteq> 0 then setf Prev k m else id) (setf Next m k e))"
  have c: "(if fld Next m h \<noteq> lastsbrk h then extractfree none (fld Next m h) h else h) = e" using n(1) by (simp add: e_def)
  have "combinehi none m h = (let h = setf Next m (fld Next (fld Next m e) e) e;
      h = (if fld Next m h \<noteq> NULL then setf Prev (fld Next m h) m h else h) in Some (m, setf Sz m (fld Sz m h + fld Sz n h) h))"
    using n(1,2) nB(3) g(1) [OF m(1)] unfolding combinehi_def Let_def c by simp
  then have r: "combinehi none m h = Some (m, h')"
    using m(1) kk bound mn nB(1) by (auto simp: Let_def h'_def fs k em)
  have v: "fld f x h' = joined m n (view e) x f" if "x \<in> B" for x f
    using that m(1) kk bound g(1) [OF that] by (auto simp: h'_def fs joined_def k)
  have mF: "m \<notin> free_blocks B X h" using m(2) by (auto simp: frees_def)
  have fr: "frame (free_blocks B X h) B h h'"
    using frame_mono [OF e(5), of "free_blocks B X h" B] m(1) kk
    by (auto simp: h'_def intro!: frame_setf)
  show ?thesis
    by (rule that [OF r e(1-3) e(6) v _ e(4) fr em mF]) (simp_all add: h'_def)
qed

lemma combinehi_free:
  assumes i: "nok none B X h" and m: "m \<in> B" "m \<in> X \<or> fld NextFree m h = 0"
    and n: "fld Next m h = n" "n \<in> free_blocks B X h"
  obtains h' where "combinehi none m h = Some (m, h')" "nok none (B - {n}) X h'"
    "free_blocks (B - {n}) X h' = free_blocks B X h - {n}" "lastsbrk h' = lastsbrk h"
    "fld Sz m h' = fld Sz m h + fld Sz n h" "m \<notin> X \<Longrightarrow> fld NextFree m h' = 0"
    "fld Prev m h' = fld Prev m h" "same_data m (fld Sz m h) h h'" "m \<noteq> n"
    "\<And>u. u \<in> B - free_blocks B X h - {m} \<Longrightarrow> untouched u h h'"
proof -
  have i': "hinv none B X (view h) (freehdrs h)" using i by (simp add: nok_def)
  note d = freesD [OF i' n(2)]
  obtain e h' where c: "combinehi none m h = Some (m, h')" "nok none B X e" "free_blocks B X e = free_blocks B X h - {n}"
      "lastsbrk e = lastsbrk h" "\<And>x f. x \<in> B \<Longrightarrow> f \<noteq> NextFree \<Longrightarrow> f \<noteq> PrevFree \<Longrightarrow> fld f x e = fld f x h"
      "\<And>x f. x \<in> B \<Longrightarrow> fld f x h' = joined m n (view e) x f" "freehdrs h' = freehdrs e" "fld NextFree n e = 0"
      "frame (free_blocks B X h) B h h'" "fld Next m e = n" "m \<notin> free_blocks B X h"
    by (rule combinehi_view [OF i m n(1) d(8) disjI1 [OF n(2)] d(2)]) (rule that)
  have ie: "hinv none B X (view e) (freehdrs e)" using c(2) by (simp add: nok_def)
  have mn: "m \<noteq> n" using c(11) n(2) by auto
  have me: "m \<in> X \<or> fld NextFree m e = 0"
  proof -
    have "m \<notin> free_blocks B X e" using c(3,11) by simp
    then show ?thesis using m(1) by (auto simp: frees_def)
  qed
  have me': "m \<in> X \<or> fld NextFree m h' = 0"
    using me c(6) [OF m(1)] by (simp add: joined_def)
  note j = hinv_joined [OF ie m(1) me c(10) d(8) c(8) d(2), where V' = "view h'" and X' = X and H' = "freehdrs h'"]
  have j': "hinv none (B - {n}) X (view h') (freehdrs h')" "frees (B - {n}) X (view h') = free_blocks B X e"
    using j c(4,6,7) me' d(5) by auto
  show ?thesis
  proof (rule that [OF c(1)])
    show "nok none (B - {n}) X h'" "free_blocks (B - {n}) X h' = free_blocks B X h - {n}"
      using j' c(3) by (simp_all add: nok_def)
    show "lastsbrk h' = lastsbrk h" using c by simp
    show "fld Sz m h' = fld Sz m h + fld Sz n h"
      using c(6) [OF m(1)] c(5) [OF m(1)] c(5) [OF d(1)] by (simp add: joined_def)
    show "m \<notin> X \<Longrightarrow> fld NextFree m h' = 0" using me' by simp
    have "fld Next n h \<noteq> m"
      using linkedD(1) [OF i' d(1)] linkedD(1) [OF i' m(1)] n(1) d(8) hinv_geomD(1,3) [OF i' m(1)] by auto
    then show "fld Prev m h' = fld Prev m h"
      using c(6) [OF m(1)] c(5) [OF m(1)] c(5) [OF d(1)] by (simp add: joined_def)
    show "same_data m (fld Sz m h) h h'"
      by (rule frame_same_data [OF c(9) i m(1) c(11) frees_sub [OF i]]) auto
    show "m \<noteq> n" by (rule mn)
    show "untouched u h h'" if "u \<in> B - free_blocks B X h - {m}" for u
    proof -
      have "same_data u (fld Sz u h) h h'"
        by (rule frame_same_data [OF c(9) i _ _ frees_sub [OF i]]) (use that in auto)
      then show ?thesis
        using that c(5,6) by (simp add: untouched_def joined_def)
    qed
  qed
qed

text \<open>
  Combining with the block that \<^verbatim>\<open>sbrk\<close> extends leaves a consistent heap once the list head and, for a block that was being
  freed, its list fields are stored.
\<close>

lemma combinehi_last:
  assumes i: "nok none B X h" and m: "m \<in> B" "m \<in> X \<or> fld NextFree m h = 0"
    and n: "fld Next m h = n" "n \<noteq> 0" "n = lastsbrk h"
    and k: "\<And>h'. k h' = h' \<and> m \<notin> X \<or> k h' = setf NextFree m 0 (setf PrevFree m 0 h')"
  obtains h' where "combinehi none m h = Some (m, h')" "nok none (B - {n}) (X - {m}) (k (sethdr 0 m h'))"
    "free_blocks (B - {n}) (X - {m}) (k (sethdr 0 m h')) = free_blocks B X h"
    "fld Sz m h' = fld Sz m h + fld Sz n h" "same_data m (fld Sz m h) h h'" "m \<noteq> n"
    "\<And>u. u \<in> B - free_blocks B X h - {m} \<Longrightarrow> untouched u h (k (sethdr 0 m h'))"
    "lastsbrk (k (sethdr 0 m h')) = m" "fld Prev m (k (sethdr 0 m h')) = fld Prev m h"
proof -
  have i': "hinv none B X (view h) (freehdrs h)" using i by (simp add: nok_def)
  have nX: "n \<notin> X" using i' n by (auto simp: hinv_def last_ok_def)
  have nB: "n \<in> B" "n = m + fld Sz m h" using linkedD(1) [OF i' m(1)] n by auto
  obtain e h' where c: "combinehi none m h = Some (m, h')" "nok none B X e" "free_blocks B X e = free_blocks B X h - {n}"
      "lastsbrk e = lastsbrk h" "\<And>x f. x \<in> B \<Longrightarrow> f \<noteq> NextFree \<Longrightarrow> f \<noteq> PrevFree \<Longrightarrow> fld f x e = fld f x h"
      "\<And>x f. x \<in> B \<Longrightarrow> fld f x h' = joined m n (view e) x f" "freehdrs h' = freehdrs e" "fld NextFree n e = 0"
      "frame (free_blocks B X h) B h h'" "fld Next m e = n" "m \<notin> free_blocks B X h"
    by (rule combinehi_view [OF i m n(1,2) disjI2 [OF n(3)] nX]) (rule that)
  have ie: "hinv none B X (view e) (freehdrs e)" using c(2) by (simp add: nok_def)
  have mn: "m \<noteq> n" using nB hinv_geomD(3) [OF i' m(1)] by auto
  have me: "m \<in> X \<or> fld NextFree m e = 0"
  proof -
    have "m \<notin> free_blocks B X e" using c(3,11) by simp
    then show ?thesis using m(1) by (auto simp: frees_def)
  qed
  have nF: "n \<notin> free_blocks B X h" using i' n by (auto simp: hinv_def last_ok_def frees_def)
  let ?k = "k (sethdr 0 m h')"
  note fs = fld_setf [OF nok_spaced [OF i]]
  have kv: "fld f x ?k = joined m n (view e) x f" if "x \<in> B" "x = m \<longrightarrow> f \<noteq> NextFree \<and> f \<noteq> PrevFree" for x f
    using k [of "sethdr 0 m h'"] that m(1) c(6) [OF that(1)] by (auto simp: fs)
  have km: "fld NextFree m ?k = 0"
    using k [of "sethdr 0 m h'"] m(1) me c(6) [OF m(1), of NextFree] by (auto simp: fs joined_def)
  have kh: "freehdrs ?k = (freehdrs e)(0 := m)" using k [of "sethdr 0 m h'"] c(7) by auto
  note j = hinv_joined [OF ie m(1) me c(10) n(2) c(8) nX, where V' = "view ?k" and X' = "X - {m}" and H' = "freehdrs ?k"]
  have j': "hinv none (B - {n}) (X - {m}) (view ?k) (freehdrs ?k)" "frees (B - {n}) (X - {m}) (view ?k) = free_blocks B X e"
    using j c(4) kv km kh n(3) by auto
  show ?thesis
  proof (rule that [OF c(1)])
    show "nok none (B - {n}) (X - {m}) ?k" "free_blocks (B - {n}) (X - {m}) ?k = free_blocks B X h"
      using j' c(3) nF by (simp_all add: nok_def)
    show "fld Sz m h' = fld Sz m h + fld Sz n h"
      using c(6) [OF m(1)] c(5) [OF m(1)] c(5) [OF nB(1)] by (simp add: joined_def)
    show "same_data m (fld Sz m h) h h'"
      by (rule frame_same_data [OF c(9) i m(1) c(11) frees_sub [OF i]]) auto
    show "m \<noteq> n" by (rule mn)
    show "lastsbrk ?k = m" by (simp add: kh)
    have "fld Next n e = 0" using c(5) [OF nB(1), of Next] i' n nB(1) by (auto simp: hinv_def last_ok_def)
    then show "fld Prev m ?k = fld Prev m h"
      using kv [OF m(1), of Prev] c(5) [OF m(1), of Prev] hinv_geomD(1) [OF i' m(1)] by (simp add: joined_def)
    show "untouched u h ?k" if u: "u \<in> B - free_blocks B X h - {m}" for u
    proof -
      have fr: "frame (insert m (free_blocks B X h)) B h ?k"
        using k [of "sethdr 0 m h'"] frame_mono [OF c(9) subset_insertI subset_refl, of m]
        by (auto intro!: frame_intros)
      have "same_data u (fld Sz u h) h ?k"
        using u m(1) n(3) mn frees_sub [OF i] by (intro frame_same_data [OF fr i]) auto
      then show ?thesis
        using u kv [of u Sz] c(5) by (simp add: untouched_def joined_def)
    qed
  qed
qed

section \<open>Freeing\<close>

lemma isfree_iff:
  assumes "nok none B X h" "n = 0 \<or> n \<in> B" "n \<notin> X"
  shows "isfree none n h \<longleftrightarrow> n \<in> free_blocks B X h"
proof
  assume "isfree none n h"
  then show "n \<in> free_blocks B X h" using assms by (auto simp: isfree_def frees_def)
next
  assume "n \<in> free_blocks B X h"
  then show "isfree none n h"
    using freesD [of none B X "view h" "freehdrs h" n] assms(1) by (simp add: isfree_def nok_def)
qed

lemma link_free_used:
  assumes i: "nok none B X h" and m: "m \<in> B" "m \<noteq> lastsbrk h" "m \<in> X \<or> fld NextFree m h = 0" and X: "X \<subseteq> {m}"
  shows "nok none B {} (link_free none m h)" "used B {} (link_free none m h) = used B X h - {m}"
    "u \<in> used B X h - {m} \<Longrightarrow> untouched u h (link_free none m h)"
proof -
  note l = link_free_ok [OF i m]
  have X': "X - {m} = {}" using X by auto
  show "nok none B {} (link_free none m h)" using l(1) X' by simp
  show "used B {} (link_free none m h) = used B X h - {m}"
    using l(2,4) X X' by (auto simp: used_def)
  show "untouched u h (link_free none m h)" if u: "u \<in> used B X h - {m}"
  proof -
    have "same_data u (fld Sz u h) h (link_free none m h)"
      using u m(1,2) frees_sub [OF i] by (intro frame_same_data [OF l(5) i]) (auto simp: used_def)
    then show ?thesis using u l(3) [of u Sz] by (simp add: untouched_def used_def)
  qed
qed

lemma mv2freelist_ok:
  assumes i: "nok none B X h" and m: "m \<in> B" "m \<noteq> lastsbrk h" "m \<in> X \<or> fld NextFree m h = 0" and X: "X \<subseteq> {m}"
  obtains h' B' where "mv2freelist none m h = Some h'" "nok none B' {} h'" "used B' {} h' = used B X h - {m}"
    "\<And>u. u \<in> used B X h - {m} \<Longrightarrow> untouched u h h'"
proof -
  have i': "hinv none B X (view h) (freehdrs h)" using i by (simp add: nok_def)
  obtain n where n: "fld Next m h = n" by blast
  have m0: "m \<noteq> 0" using hinv_geomD(1) [OF i' m(1)] by simp
  have nB: "n = 0 \<or> n \<in> B" "n \<notin> X"
    using linkedD(1) [OF i' m(1)] n m0 hinv_geomD(3) [OF i' m(1)] X by auto
  note fr = isfree_iff [OF i nB]
  have mF: "m \<notin> free_blocks B X h" using m(3) by (auto simp: frees_def)
  obtain h1 B1 where h1: "(if isfree none n h then combinehi none m h else Some (m, h)) = Some (m, h1)"
      "nok none B1 X h1" "m \<in> B1" "m \<in> X \<or> fld NextFree m h1 = 0" "lastsbrk h1 = lastsbrk h"
      "used B1 X h1 = used B X h" "\<And>u. u \<in> used B X h - {m} \<Longrightarrow> untouched u h h1"
  proof (cases "isfree none n h")
    case False
    show ?thesis by (rule that [OF _ i m(1) m(3)]) (simp_all add: False)
  next
    case True
    then have nF: "n \<in> free_blocks B X h" using fr by simp
    obtain h1 where c: "combinehi none m h = Some (m, h1)" "nok none (B - {n}) X h1"
      "free_blocks (B - {n}) X h1 = free_blocks B X h - {n}" "lastsbrk h1 = lastsbrk h"
      "m \<notin> X \<Longrightarrow> fld NextFree m h1 = 0" "m \<noteq> n"
      "\<And>u. u \<in> B - free_blocks B X h - {m} \<Longrightarrow> untouched u h h1"
      by (rule combinehi_free [OF i m(1,3) n nF]) (rule that)
    show ?thesis
    proof (rule that [OF _ c(2) _ _ c(4)])
      show "used (B - {n}) X h1 = used B X h" unfolding used_def c(3,4) using nF by auto
      show "untouched u h h1" if "u \<in> used B X h - {m}" for u using c(7) that by (auto simp: used_def)
    qed (use True c m(1) in auto)
  qed
  show ?thesis
  proof (cases "lastsbrk h1 \<noteq> 0 \<and> fld Next m h1 = lastsbrk h1")
    case False
    have "mv2freelist none m h = Some (link_free none m h1)"
      using False m0 h1(1) n by (auto simp: mv2freelist_def)
    moreover note l = link_free_used [OF h1(2,3) _ h1(4) X]
    ultimately show ?thesis
      using m(2) h1(5,6,7) by (intro that [of "link_free none m h1" B1]) (auto intro: untouched_trans [of _ h h1])
  next
    case True
    let ?k = "\<lambda>h. setf NextFree m 0 (setf PrevFree m 0 h)"
    have X': "X - {m} = {}" using X by auto
    obtain h2 where c: "combinehi none m h1 = Some (m, h2)" "nok none (B1 - {lastsbrk h1}) (X - {m}) (?k (sethdr 0 m h2))"
      "free_blocks (B1 - {lastsbrk h1}) (X - {m}) (?k (sethdr 0 m h2)) = free_blocks B1 X h1"
      "\<And>u. u \<in> B1 - free_blocks B1 X h1 - {m} \<Longrightarrow> untouched u h1 (?k (sethdr 0 m h2))"
      "lastsbrk (?k (sethdr 0 m h2)) = m"
      by (rule combinehi_last [OF h1(2,3,4) conjunct2 [OF True] conjunct1 [OF True] refl, of ?k]) (auto intro: that)
    have "mv2freelist none m h = Some (?k (sethdr 0 m h2))"
      using True m0 h1(1) n c(1) by (simp add: mv2freelist_def)
    moreover have U: "used (B1 - {lastsbrk h1}) {} (?k (sethdr 0 m h2)) = used B1 X h1 - {m}"
      using c(3,5) X unfolding used_def X' by auto
    moreover have "untouched u h (?k (sethdr 0 m h2))" if u: "u \<in> used B X h - {m}" for u
      using untouched_trans [OF h1(7) [OF u] c(4)] u h1(6) by (auto simp: used_def)
    ultimately show ?thesis
      using c(2) h1(6) X' by (intro that [of "?k (sethdr 0 m h2)" "B1 - {lastsbrk h1}"]) auto
  qed
qed

text \<open>A block that is not in a list may enter or leave the set of blocks being moved.\<close>

lemma hinv_mark:
  assumes i: "hinv none B X V H" and m: "m \<noteq> H 0" "m \<in> X \<or> V m NextFree = 0" "m \<in> X' \<or> V' m NextFree = 0"
    and X': "X' - {m} = X - {m}" and V': "\<And>x f. x \<in> B \<Longrightarrow> x \<noteq> m \<or> f \<noteq> NextFree \<and> f \<noteq> PrevFree \<Longrightarrow> V' x f = V x f"
  shows "hinv none B X' V' H" "frees B X' V' = frees B X V"
proof -
  have XX: "x \<in> X' \<longleftrightarrow> x \<in> X" if "x \<noteq> m" for x using X' that by blast
  have s: "V' x Prev = V x Prev" "V' x Next = V x Next" "V' x Sz = V x Sz" if "x \<in> B" for x using V' that by auto
  show F: "frees B X' V' = frees B X V"
  proof (rule set_eqI)
    fix x
    show "x \<in> frees B X' V' \<longleftrightarrow> x \<in> frees B X V"
      using m(2,3) V' [of x NextFree] XX [of x] by (cases "x = m") (auto simp: frees_def)
  qed
  have "linked B V'"
    unfolding linked_def
  proof
    fix x assume x: "x \<in> B"
    show "(V' x Next = 0 \<or> V' x Next \<in> B \<and> V' x Next = x + V' x Sz \<and> V' (V' x Next) Prev = x) \<and>
        (V' x Prev = 0 \<or> V' x Prev \<in> B \<and> V' (V' x Prev) Next = x)"
      using linkedD [OF i x] s [OF x] s [of "V x Next"] s [of "V x Prev"] by auto
  qed
  moreover have "listed none (frees B X V) V' H"
  proof (rule listed_cong [where V = V and H = H])
    show "listed none (frees B X V) V H" using i by (simp add: hinv_def)
    show "V x Sz \<noteq> 0" if "x \<in> frees B X V" for x using frees_pos(3) [OF i that] .
    show "V' x k = V x k" if "x \<in> frees B X V" for x k
    proof -
      have "x \<in> B" "x \<noteq> m" using that m(2) by (auto simp: frees_def)
      then show ?thesis by (simp add: V')
    qed
  qed simp
  moreover have "last_ok B X' V' (H 0)"
    using i m(1) XX [of "H 0"] V' [of "H 0"] by (auto simp: hinv_def last_ok_def)
  moreover have "geom B V' (H 0)" "clear none B V'" using i s by (simp_all add: hinv_def geom_def clear_def)
  ultimately show "hinv none B X' V' H" using i by (simp add: hinv_def F)
qed

text \<open>\<^verbatim>\<open>combinelo\<close> joins the block that is being freed to its free lower neighbour.\<close>

lemma combinelo_ok:
  assumes i: "nok none B {m} h" and m: "m \<in> B" "m \<noteq> lastsbrk h"
    and p: "fld Prev m h = p" "p \<in> free_blocks B {m} h"
  obtains h' where "combinelo none m h = Some (p, h')" "nok none (B - {m}) {} h'"
    "free_blocks (B - {m}) {} h' = free_blocks B {m} h - {p}" "lastsbrk h' = lastsbrk h" "fld NextFree p h' = 0"
    "\<And>u. u \<in> B - free_blocks B {m} h - {m} \<Longrightarrow> untouched u h h'"
    "fld Sz p h' = fld Sz p h + fld Sz m h"
proof -
  have i': "hinv none B {m} (view h) (freehdrs h)" using i by (simp add: nok_def)
  note d = freesD [OF i' p(2)]
  have isf: "isfree none p h" using isfree_iff [OF i, of p] d(1,2) p(2) by simp
  define e where "e = extractfree none p h"
  note e = extractfree_ok [OF i p(2), folded e_def]
  have pm: "fld Next p h = m" using linkedD(2) [OF i' m(1)] p d(8) by auto
  have ie: "hinv none B {m} (view e) (freehdrs e)" using e(1) by (simp add: nok_def)
  note g = hinv_geomD [OF ie]
  have em: "fld Next p e = m" using e(3) [OF d(1)] pm by simp
  have nB: "m = p + fld Sz p e" using linkedD(1) [OF ie d(1)] em g(1) [OF m(1)] by auto
  have pm': "p < m" using nB g(3) [OF d(1)] by simp
  obtain k where k: "fld Next m e = k" by blast
  have kk: "k = 0 \<or> k \<in> B \<and> k \<noteq> p \<and> k \<noteq> m" using linkedD(1) [OF ie m(1)] g(3) [OF m(1)] k pm' by auto
  have bound: "p < 2 ^ 32" "k < 2 ^ 32" "fld Sz p e + fld Sz m e < 2 ^ 32"
    using g(5) [OF d(1)] g(5) [OF m(1)] fld_bound [of Next m e] k nB by auto
  note fs = fld_setf [OF nok_spaced [OF i]]
  define h' where "h' = setf Sz p (fld Sz p e + fld Sz m e) ((if k \<noteq> 0 then setf Prev k p else id) (setf Next p k e))"
  have "combinelo none m h = (let h = setf Next p (fld Next m e) e;
      h = (if fld Next p h \<noteq> NULL then setf Prev (fld Next p h) p h else h) in Some (p, setf Sz p (fld Sz p h + fld Sz m h) h))"
    using isf pm unfolding combinelo_def Let_def p(1) e_def by simp
  then have r: "combinelo none m h = Some (p, h')"
    using d(1) m(1) kk bound pm' by (auto simp: Let_def h'_def fs k em)
  have v: "fld f x h' = joined p m (view e) x f" if "x \<in> B" for x f
    using that d(1) kk bound g(1) [OF that] by (auto simp: h'_def fs joined_def k)
  define W where "W = (\<lambda>x f. if x = m \<and> f = NextFree then 0 else view e x f)"
  have W: "W m NextFree = 0" "\<And>x f. x \<noteq> m \<or> f \<noteq> NextFree \<and> f \<noteq> PrevFree \<Longrightarrow> W x f = view e x f"
    by (auto simp: W_def)
  have "m \<noteq> freehdrs e 0" "{} - {m} = {m} - {m}" using m(2) e(4) by auto
  note w = hinv_mark [OF ie this(1) disjI1 [OF singletonI] disjI2 [OF W(1)] this(2) W(2)]
  have we: "W p NextFree = 0" "W p Next = m" "W m NextFree = 0" using pm' e(5) em by (auto simp: W_def)
  have jw: "joined p m W x f = joined p m (view e) x f" if "x \<noteq> m" for x f
    using that by (auto simp: joined_def W_def)
  have j: "hinv none (B - {m}) {} (view h') (freehdrs h')" "frees (B - {m}) {} (view h') = frees B {} W"
    using hinv_joined [OF w(1) d(1) disjI2 [OF we(1)] we(2) _ we(3), where V' = "view h'" and X' = "{}" and H' = "freehdrs h'"]
      g(1) [OF m(1)] m(2) v jw e(4,5) pm' d(1) by (auto simp: h'_def joined_def)
  have fr: "frame (free_blocks B {m} h) B h h'"
    using frame_mono [OF extractfree_view(3) [OF i p(2), folded e_def] subset_refl, of B] d(1) kk
    by (auto simp: h'_def intro!: frame_setf)
  show ?thesis
  proof (rule that [OF r])
    show "nok none (B - {m}) {} h'" "free_blocks (B - {m}) {} h' = free_blocks B {m} h - {p}"
      using j w(2) e(2) by (simp_all add: nok_def)
    show "lastsbrk h' = lastsbrk h" using e(4) by (simp add: h'_def)
    show "fld NextFree p h' = 0" using v [OF d(1)] e(5) by (simp add: joined_def)
    show "fld Sz p h' = fld Sz p h + fld Sz m h"
      using v [OF d(1)] e(3) [OF d(1)] e(3) [OF m(1)] by (simp add: joined_def)
    show "untouched u h h'" if u: "u \<in> B - free_blocks B {m} h - {m}" for u
    proof -
      have "same_data u (fld Sz u h) h h'"
        using u frees_sub [OF i] by (intro frame_same_data [OF fr i]) auto
      moreover have "u \<noteq> p" using u p(2) by auto
      ultimately show ?thesis using u v [of u Sz] e(3) [of u Sz] by (simp add: untouched_def joined_def)
    qed
  qed
qed

lemma usedD:
  assumes "m \<in> used B X h"
  shows "m \<in> B" "m \<notin> free_blocks B X h" "m \<noteq> lastsbrk h" "m \<notin> X" "fld NextFree m h = 0"
  using assms by (auto simp: used_def frees_def)

text \<open>The first step of \<^verbatim>\<open>dofree\<close> marks the block; it is then in no list and not allocated.\<close>

lemma mark_ok:
  assumes i: "nok none B {} h" and m: "m \<in> used B {} h"
  defines "h0 \<equiv> setf NextFree m none (setf PrevFree m none h)"
  shows "nok none B {m} h0" "used B {m} h0 = used B {} h - {m}" "lastsbrk h0 = lastsbrk h"
    "\<And>u. u \<in> used B {} h - {m} \<Longrightarrow> untouched u h h0"
proof -
  have i': "hinv none B {} (view h) (freehdrs h)" using i by (simp add: nok_def)
  note d = usedD [OF m]
  note fs = fld_setf [OF nok_spaced [OF i]]
  have n: "none < 2 ^ 32" using i' by (simp add: hinv_def)
  have v: "fld f x h0 = fld f x h" if "x \<in> B" "x \<noteq> m \<or> f \<noteq> NextFree \<and> f \<noteq> PrevFree" for x f
    using that d(1) n by (auto simp: h0_def fs)
  have X: "{m} - {m} = {} - {m}" by simp
  note k = hinv_mark [OF i' d(3) disjI2 [OF d(5)] disjI1 [OF singletonI] X v]
  show "nok none B {m} h0" using k(1) by (simp add: nok_def h0_def)
  show l: "lastsbrk h0 = lastsbrk h" by (simp add: h0_def)
  show "used B {m} h0 = used B {} h - {m}" using k(2) l by (auto simp: used_def)
  show "untouched u h h0" if u: "u \<in> used B {} h - {m}" for u
  proof -
    have fr: "frame {m} {} h h0" by (auto simp: h0_def intro!: frame_intros)
    have "same_data u (fld Sz u h) h h0"
      using u d by (intro frame_same_data [OF fr i]) (auto simp: used_def)
    then show ?thesis using u v [of u Sz] by (simp add: untouched_def used_def)
  qed
qed

lemma dofree_ok:
  assumes i: "nok none B {} h" and m: "m \<in> used B {} h"
  obtains h' B' where "dofree none m h = Some h'" "nok none B' {} h'" "used B' {} h' = used B {} h - {m}"
    "\<And>u. u \<in> used B {} h - {m} \<Longrightarrow> untouched u h h'"
proof -
  define h0 where "h0 = setf NextFree m none (setf PrevFree m none h)"
  note k = mark_ok [OF i m, folded h0_def]
  have i0: "hinv none B {m} (view h0) (freehdrs h0)" using k(1) by (simp add: nok_def)
  note d = usedD [OF m]
  have m0: "m \<noteq> 0" using hinv_geomD(1) [OF i0 d(1)] by simp
  obtain h1 B1 where h1: "(if isfree none (fld Next m h0) h0 then combinehi none m h0 else Some (m, h0)) = Some (m, h1)"
      "nok none B1 {m} h1" "m \<in> B1" "lastsbrk h1 = lastsbrk h" "used B1 {m} h1 = used B {m} h0"
      "\<And>u. u \<in> used B {m} h0 \<Longrightarrow> untouched u h0 h1"
  proof -
    obtain n where n: "fld Next m h0 = n" by blast
    have "n = 0 \<or> n \<in> B" "n \<notin> {m}" using linkedD(1) [OF i0 d(1)] n m0 hinv_geomD(3) [OF i0 d(1)] by auto
    note fr = isfree_iff [OF k(1) this]
    show ?thesis
    proof (cases "isfree none n h0")
      case False
      show ?thesis by (rule that [OF _ k(1) d(1)]) (simp_all add: False n k(3))
    next
      case True
      then have nF: "n \<in> free_blocks B {m} h0" using fr by simp
      obtain h1 where c: "combinehi none m h0 = Some (m, h1)" "nok none (B - {n}) {m} h1"
        "free_blocks (B - {n}) {m} h1 = free_blocks B {m} h0 - {n}" "lastsbrk h1 = lastsbrk h0" "m \<noteq> n"
        "\<And>u. u \<in> B - free_blocks B {m} h0 - {m} \<Longrightarrow> untouched u h0 h1"
        by (rule combinehi_free [OF k(1) d(1) disjI1 [OF singletonI] n nF]) (rule that)
      show ?thesis
      proof (rule that [OF _ c(2)])
        show "used (B - {n}) {m} h1 = used B {m} h0" unfolding used_def c(3,4) using nF by auto
        show "untouched u h0 h1" if "u \<in> used B {m} h0" for u using c(6) that by (auto simp: used_def)
      qed (use True c d k(3) n in auto)
    qed
  qed
  have i1: "hinv none B1 {m} (view h1) (freehdrs h1)" using h1(2) by (simp add: nok_def)
  obtain m2 h2 B2 X2 where h2: "(if isfree none (fld Prev m h1) h1 then combinelo none m h1 else Some (m, h1)) = Some (m2, h2)"
      "nok none B2 X2 h2" "m2 \<in> B2" "m2 \<noteq> lastsbrk h2" "m2 \<in> X2 \<or> fld NextFree m2 h2 = 0" "X2 \<subseteq> {m2}"
      "used B2 X2 h2 - {m2} = used B1 {m} h1" "\<And>u. u \<in> used B1 {m} h1 \<Longrightarrow> untouched u h1 h2"
  proof -
    obtain p where p: "fld Prev m h1 = p" by blast
    have "p = 0 \<or> p \<in> B1" "p \<notin> {m}" using linkedD [OF i1 h1(3)] p m0 hinv_geomD(3) [OF i1 h1(3)] by auto
    note fr = isfree_iff [OF h1(2) this]
    show ?thesis
    proof (cases "isfree none p h1")
      case False
      show ?thesis
        using False p h1(4) d(3) by (intro that [OF _ h1(2,3)]) (auto simp: used_def)
    next
      case True
      then have pF: "p \<in> free_blocks B1 {m} h1" using fr by simp
      have ml: "m \<noteq> lastsbrk h1" using d(3) h1(4) by simp
      obtain h2 where c: "combinelo none m h1 = Some (p, h2)" "nok none (B1 - {m}) {} h2"
        "free_blocks (B1 - {m}) {} h2 = free_blocks B1 {m} h1 - {p}" "lastsbrk h2 = lastsbrk h1" "fld NextFree p h2 = 0"
        "\<And>u. u \<in> B1 - free_blocks B1 {m} h1 - {m} \<Longrightarrow> untouched u h1 h2"
        by (rule combinelo_ok [OF h1(2,3) ml p pF]) (rule that)
      note q = freesD [OF i1 pF]
      show ?thesis
      proof (rule that [OF _ c(2)])
        show "used (B1 - {m}) {} h2 - {p} = used B1 {m} h1" unfolding used_def c(3,4) using pF by auto
        show "untouched u h1 h2" if "u \<in> used B1 {m} h1" for u using c(6) that by (auto simp: used_def)
      qed (use True c q p in auto)
    qed
  qed
  have i2: "hinv none B2 X2 (view h2) (freehdrs h2)" using h2(2) by (simp add: nok_def)
  have np: "\<not> (lastsbrk h2 \<noteq> 0 \<and> lastsbrk h2 = fld Prev m2 h2)"
    using linkedD(2) [OF i2 h2(3)] i2 hinv_geomD(1) [OF i2 h2(3)] by (auto simp: hinv_def last_ok_def)
  obtain h' B' where f: "mv2freelist none m2 h2 = Some h'" "nok none B' {} h'" "used B' {} h' = used B2 X2 h2 - {m2}"
    "\<And>u. u \<in> used B2 X2 h2 - {m2} \<Longrightarrow> untouched u h2 h'"
    by (rule mv2freelist_ok [OF h2(2-6)]) (rule that)
  show ?thesis
  proof (rule that [OF _ f(2)])
    show "dofree none m h = Some h'"
      using h1(1) h2(1) f(1) np by (auto simp: dofree_def h0_def [symmetric])
    show "used B' {} h' = used B {} h - {m}" using f(3) h2(7) h1(5) k(2) by simp
    show "untouched u h h'" if u: "u \<in> used B {} h - {m}" for u
      using k(4) [OF u] h1(6) [of u] h2(8) [of u] f(4) [of u] u k(2) h1(5) h2(7) by (metis untouched_trans)
  qed
qed

theorem nfree_ok:
  assumes i: "nok none B {} h" and m: "m \<in> used B {} h"
  obtains h' B' where "nfree none (PTR m) h = Some h'" "nok none B' {} h'" "used B' {} h' = used B {} h - {m}"
    "\<And>u. u \<in> used B {} h - {m} \<Longrightarrow> untouched u h h'"
proof -
  note d = usedD [OF m]
  have "lastsbrk h \<noteq> 0" using i d(1) hinv_geomD(1,6) [of none B "{}" "view h" "freehdrs h" m] by (simp add: nok_def)
  then have "nfree none (PTR m) h = dofree none m h"
    using d(5) by (simp add: nfree_def PTR_def MEMBLKp_def DATAOFFSET_def isfree_def fouled_def)
  then show ?thesis using dofree_ok [OF i m] that by metis
qed

section \<open>Growing the heap\<close>

lemma hinv_last:
  assumes "hinv none B X V H" "m \<in> B"
  shows "H 0 \<in> B" "V (H 0) NextFree = 0" "V (H 0) Next = 0" "H 0 \<notin> X" "m + V m Sz \<le> H 0 + V (H 0) Sz"
proof -
  show "H 0 \<in> B" "V (H 0) NextFree = 0" "V (H 0) Next = 0" "H 0 \<notin> X"
    using assms by (auto simp: hinv_def last_ok_def)
  then show "m + V m Sz \<le> H 0 + V (H 0) Sz"
    using hinv_geomD(6) [OF assms] hinv_geomD(7) [OF assms, of "H 0"] by (cases "m = H 0") auto
qed

lemma hinv_grown:
  assumes i: "hinv none B X V H" and L: "H 0 \<noteq> 0" "V' (H 0) Sz = V (H 0) Sz + n" "H 0 + V (H 0) Sz + n < 2 ^ 32"
    and none: "none < H 0 + V (H 0) Sz \<or> H 0 + V (H 0) Sz + n \<le> none"
    and V': "\<And>x f. x \<in> B \<Longrightarrow> x \<noteq> H 0 \<or> f \<noteq> Sz \<Longrightarrow> V' x f = V x f"
  shows "hinv none B X V' H" "frees B X V' = frees B X V"
proof -
  have LB: "H 0 \<in> B" using i L(1) by (auto simp: hinv_def last_ok_def)
  note l = hinv_last [OF i LB]
  note g = hinv_geomD [OF i]
  have s: "V' x Prev = V x Prev" "V' x Next = V x Next" "V' x NextFree = V x NextFree"
      "V' x Sz = V x Sz + (if x = H 0 then n else 0)" if "x \<in> B" for x using V' that L(2) by auto
  show F: "frees B X V' = frees B X V"
    using s(3) by (auto simp: frees_def)
  have "geom B V' (H 0)"
    unfolding geom_def
  proof (intro conjI ballI impI)
    fix x assume x: "x \<in> B"
    show "0 < x" "x mod 8 = 0" "x \<le> H 0" "16 \<le> V' x Sz" using g(1,2,3,6) [OF x] s(4) [OF x] by auto
    show "x + V' x Sz < 2 ^ 32" using g(5) [OF x] s(4) [OF x] L(3) by auto
  next
    fix x y assume "x \<in> B" "y \<in> B" "x < y"
    then show "x + V' x Sz \<le> y" "x + 24 \<le> y" using g(7) [of x y] g(4) [of x y] g(6) [of y] s(4) [of x] by auto
  qed
  moreover have "linked B V'"
    unfolding linked_def
  proof
    fix x assume x: "x \<in> B"
    show "(V' x Next = 0 \<or> V' x Next \<in> B \<and> V' x Next = x + V' x Sz \<and> V' (V' x Next) Prev = x) \<and>
        (V' x Prev = 0 \<or> V' x Prev \<in> B \<and> V' (V' x Prev) Next = x)"
      using linkedD [OF i x] s [OF x] s [of "V x Next"] s [of "V x Prev"] l(3) by (cases "x = H 0") auto
  qed
  moreover have "clear none B V'"
    unfolding clear_def
  proof
    fix x assume x: "x \<in> B"
    show "none < x \<or> x + V' x Sz \<le> none" using clearD [OF i x] s(4) [OF x] none by auto
  qed
  moreover have "listed none (frees B X V) V' H"
  proof (rule listed_cong [where V = V and H = H])
    show "listed none (frees B X V) V H" using i by (simp add: hinv_def)
    show "V x Sz \<noteq> 0" if "x \<in> frees B X V" for x using frees_pos(3) [OF i that] .
    show "V' x k = V x k" if "x \<in> frees B X V" for x k using freesD(1,5) [OF i that] by (simp add: V')
  qed simp
  moreover have "last_ok B X V' (H 0)" using i s L(1) by (auto simp: hinv_def last_ok_def)
  ultimately show "hinv none B X V' H" using i by (simp add: hinv_def F)
qed

lemma hinv_added:
  assumes i: "hinv none B {} V H"
    and nw: "0 < nw" "nw mod 8 = 0" "24 \<le> V' nw Sz" "nw + V' nw Sz < 2 ^ 32" "none < nw \<or> nw + V' nw Sz \<le> none"
      "V' nw Next = 0" "V' nw Prev = 0" "V' nw NextFree = 0"
    and L: "H 0 \<noteq> 0 \<Longrightarrow> H 0 + V (H 0) Sz \<le> nw \<and> H 0 + 24 \<le> nw"
    and V': "\<And>x f. x \<in> B \<Longrightarrow> V' x f = V x f"
    and H': "\<And>b. 0 < b \<Longrightarrow> H' b = H b" "H' 0 = nw"
  shows "hinv none (insert nw B) {} V' H'" "frees (insert nw B) {} V' = frees B {} V" "nw \<notin> B"
proof -
  note g = hinv_geomD [OF i]
  have below: "x + V x Sz \<le> nw" "x < nw" "x + 24 \<le> nw" if "x \<in> B" for x
  proof -
    have "H 0 \<noteq> 0" using g(1,6) [OF that] by simp
    then have L: "H 0 + V (H 0) Sz \<le> nw" "H 0 + 24 \<le> nw" using L by simp_all
    show "x + V x Sz \<le> nw" "x < nw" "x + 24 \<le> nw"
      using L hinv_last(5) [OF i that] g(6) [OF that] by auto
  qed
  then show nB: "nw \<notin> B" by blast
  show F: "frees (insert nw B) {} V' = frees B {} V" using V' nw(8) by (auto simp: frees_def)
  have "geom (insert nw B) V' (H' 0)"
    unfolding geom_def
  proof (intro conjI ballI impI)
    fix x assume "x \<in> insert nw B"
    then consider "x = nw" | "x \<in> B" by auto
    then show "0 < x" "x mod 8 = 0" "16 \<le> V' x Sz" "x + V' x Sz < 2 ^ 32" "x \<le> H' 0"
      using nw(1-4) g(1,2,3,5) [of x] below [of x] H'(2) V' [of x Sz] by (cases; simp)+
  next
    fix x y assume "x \<in> insert nw B" "y \<in> insert nw B" "x < y"
    then show "x + V' x Sz \<le> y" "x + 24 \<le> y"
      using below [of x] below(2) [of y] g(7) [of x y] g(4) [of x y] V' [of x Sz] by auto
  qed
  moreover have "linked (insert nw B) V'"
    unfolding linked_def
  proof
    fix x assume x: "x \<in> insert nw B"
    show "(V' x Next = 0 \<or> V' x Next \<in> insert nw B \<and> V' x Next = x + V' x Sz \<and> V' (V' x Next) Prev = x) \<and>
        (V' x Prev = 0 \<or> V' x Prev \<in> insert nw B \<and> V' (V' x Prev) Next = x)"
      using linkedD [OF i, of x] x nw(6,7) nB by (cases "x = nw") (auto simp: V')
  qed
  moreover have "clear none (insert nw B) V'"
    using clearD [OF i] nw(5) by (auto simp: clear_def V')
  moreover have "listed none (frees B {} V) V' H'"
  proof (rule listed_cong [where V = V and H = H])
    show "listed none (frees B {} V) V H" using i by (simp add: hinv_def)
    show "V x Sz \<noteq> 0" if "x \<in> frees B {} V" for x using frees_pos(3) [OF i that] .
    show "V' x k = V x k" if "x \<in> frees B {} V" for x k using freesD(1) [OF i that] by (simp add: V')
  qed (simp add: H')
  moreover have "none \<noteq> nw" using nw by auto
  ultimately show "hinv none (insert nw B) {} V' H'"
    using i nw by (simp add: hinv_def F last_ok_def H')
qed

text \<open>
  What \<^verbatim>\<open>sbrk\<close> promises. The memory it gives is not at the null address, does not go beyond the end of the address space
  and does not contain the mark \<^verbatim>\<open>NONE\<close>, a static variable; and it is not below the end of the memory that it gave
  before, the end of the block \<^verbatim>\<open>lastsbrk\<close>. The last point is the assumption that the comment of \<^verbatim>\<open>nmalloc\<close> states
  (\<^verbatim>\<open>sbrk\<close> will never return a lower address than did a previous \<^verbatim>\<open>sbrk\<close>); it follows from \<^verbatim>\<open>crt0.txh\<close>, where \<^verbatim>\<open>sbrk\<close> raises
  the break and returns the old one. Gaps between two areas are allowed.
\<close>

definition sbrk_ok :: "nat \<Rightarrow> (nat \<Rightarrow> nat option) \<Rightarrow> nheap \<Rightarrow> bool" where
  "sbrk_ok none sbrk h \<longleftrightarrow> (\<forall>n a. sbrk n = Some a \<longrightarrow>
     a \<noteq> 0 \<and> a + n < 2 ^ 32 \<and> (none < a \<or> a + n \<le> none) \<and>
     (lastsbrk h \<noteq> 0 \<longrightarrow> lastsbrk h + fld Sz (lastsbrk h) h \<le> a))"

lemma record_simps [simp]:
  "fld f m (recordnewsbrk k h) = fld f m h" "freehdrs (recordnewsbrk k h) = freehdrs h"
  "bytes (recordnewsbrk k h) = bytes h"
  by (simp_all add: recordnewsbrk_def fld_def)

lemma setf_sethdr: "setf f m v (sethdr b w h) = sethdr b w (setf f m v h)"
  by (simp add: setf_def sethdr_def)

lemma sethdr_swap: "b \<noteq> c \<Longrightarrow> sethdr b v (sethdr c w h) = sethdr c w (sethdr b v h)"
  by (simp add: sethdr_def fun_upd_twist)

lemma link_free_sethdr:
  "fld Sz m h \<noteq> 0 \<Longrightarrow> link_free none m (sethdr 0 v h) = sethdr 0 v (link_free none m h)"
  using size2bucket_0 [of "fld Sz m h"] by (simp add: link_free_def Let_def setf_sethdr sethdr_swap)

lemma grow_last:
  assumes i: "nok none B {} h" and L: "lastsbrk h \<noteq> 0" "lastsbrk h + fld Sz (lastsbrk h) h + n < 2 ^ 32"
    and none: "none < lastsbrk h + fld Sz (lastsbrk h) h \<or> lastsbrk h + fld Sz (lastsbrk h) h + n \<le> none"
  defines "h' \<equiv> setf Sz (lastsbrk h) (fld Sz (lastsbrk h) h + n) h"
  shows "nok none B {} h'" "used B {} h' = used B {} h" "\<And>u. u \<in> used B {} h \<Longrightarrow> untouched u h h'"
    "fld Sz (lastsbrk h) h' = fld Sz (lastsbrk h) h + n"
proof -
  have i': "hinv none B {} (view h) (freehdrs h)" using i by (simp add: nok_def)
  have LB: "lastsbrk h \<in> B" using i' L(1) by (auto simp: hinv_def last_ok_def)
  note fs = fld_setf [OF nok_spaced [OF i]]
  have v: "fld f x h' = (if x = lastsbrk h \<and> f = Sz then fld Sz (lastsbrk h) h + n else fld f x h)" if "x \<in> B" for x f
    using that LB L(2) by (simp add: h'_def fs)
  show z: "fld Sz (lastsbrk h) h' = fld Sz (lastsbrk h) h + n" using v [OF LB] by simp
  have "x \<noteq> lastsbrk h \<or> f \<noteq> Sz \<Longrightarrow> fld f x h' = fld f x h" if "x \<in> B" for x f using v [OF that] by auto
  note k = hinv_grown [OF i' L(1) z L(2) none this]
  show "nok none B {} h'" using k(1) by (simp add: nok_def h'_def)
  show "used B {} h' = used B {} h" using k(2) by (simp add: used_def h'_def)
  show "untouched u h h'" if u: "u \<in> used B {} h" for u
  proof -
    have fr: "frame {} {lastsbrk h} h h'" by (auto simp: h'_def intro!: frame_intros)
    have "same_data u (fld Sz u h) h h'"
      using usedD [OF u] LB by (intro frame_same_data [OF fr i]) auto
    then show ?thesis using usedD [OF u] v [of u Sz] by (simp add: untouched_def)
  qed
qed

lemma new_area:
  assumes i: "nok none B {} h" and nw: "0 < nw" "nw mod 8 = 0" "24 \<le> n" "nw + n < 2 ^ 32" "none < nw \<or> nw + n \<le> none"
    and L: "lastsbrk h \<noteq> 0 \<Longrightarrow> lastsbrk h + fld Sz (lastsbrk h) h \<le> nw \<and> lastsbrk h + 24 \<le> nw"
  defines "h1 \<equiv> setf NextFree nw 0 (setf Prev nw 0 (setf Next nw 0 (setf Sz nw n h)))"
  obtains h' where "mv2freelist none (lastsbrk h) h1 = Some h'" "nok none (insert nw B) {} (sethdr 0 nw h')"
    "used (insert nw B) {} (sethdr 0 nw h') = used B {} h" "\<And>u. u \<in> used B {} h \<Longrightarrow> untouched u h h'" "fld Sz nw h' = n"
proof -
  have i': "hinv none B {} (view h) (freehdrs h)" using i by (simp add: nok_def)
  define V where "V x f = (if x = nw then (if f = Sz then n else 0) else fld f x h)" for x f
  have below: "x < nw" if "x \<in> B" for x
    using L hinv_last(5) [OF i' that] hinv_geomD(1,3,6) [OF i' that] by fastforce
  have Vn: "V nw Sz = n" "V nw Next = 0" "V nw Prev = 0" "V nw NextFree = 0" by (simp_all add: V_def)
  have VB: "\<And>x f. x \<in> B \<Longrightarrow> V x f = view h x f" using below by (auto simp: V_def)
  define H1 where "H1 = (freehdrs h)(0 := nw)"
  have H1: "\<And>b. 0 < b \<Longrightarrow> H1 b = freehdrs h b" "H1 0 = nw" by (simp_all add: H1_def)
  note a = hinv_added [where V' = V, OF i' nw(1,2) _ _ _ Vn(2-4) L VB H1, unfolded Vn(1), OF nw(3-5)]
  have S: "spaced (insert nw B)" using a(1) geom_spaced by (auto simp: hinv_def)
  note fs = fld_setf [OF S]
  have v: "fld f x h1 = V x f" if "x \<in> insert nw B" "f \<noteq> PrevFree \<or> x \<noteq> nw" for x f
    using that nw(4) by (cases f) (auto simp: h1_def fs V_def)
  have nF: "nw \<notin> frees (insert nw B) {} V" by (simp add: frees_def V_def)
  have c: "fld f x h1 = V x f" if "x \<in> insert nw B" "f \<noteq> PrevFree \<or> x \<in> frees (insert nw B) {} V" for x f
    using v [of x f] that nF by auto
  have ok1: "nok none (insert nw B) {} (sethdr 0 nw h1)"
    using hinv_cong(1) [OF c a(1)] by (simp add: nok_def h1_def H1_def fun_upd_def)
  have F1: "free_blocks (insert nw B) {} (sethdr 0 nw h1) = free_blocks B {} h"
    using hinv_cong(2) [OF c a(1)] a(2) by simp
  have U1: "used (insert nw B) {} (sethdr 0 nw h1) - {lastsbrk h} = used B {} h"
    unfolding used_def F1 using a(3) by auto
  have t1: "untouched u h (sethdr 0 nw h1)" if u: "u \<in> used B {} h" for u
  proof -
    have fr: "frame {} {nw} h h1" by (auto simp: h1_def intro!: frame_intros)
    note d = usedD [OF u]
    have "lastsbrk h \<noteq> 0" using hinv_geomD(1,6) [OF i' d(1)] by simp
    then have "u + fld Sz u h \<le> nw" using L hinv_last(5) [OF i' d(1)] by simp
    then have "same_data u (fld Sz u h) h h1"
      using d by (intro frame_same_data [OF fr i]) auto
    then show ?thesis using d(1) v [of u Sz] below [of u] by (auto simp: untouched_def V_def)
  qed
  have z1: "fld Sz nw h1 = n" using v [of nw Sz] by (simp add: V_def)
  show ?thesis
  proof (cases "lastsbrk h = 0")
    case True
    then show ?thesis
      using ok1 U1 t1 z1 a(3) hinv_geomD(1) [OF i', of 0]
      by (intro that [of h1]) (auto simp: mv2freelist_def used_def)
  next
    case False
    have LB: "lastsbrk h \<in> B" using i' False by (auto simp: hinv_def last_ok_def)
    note l = hinv_last [OF i' LB]
    have L1: "fld Next (lastsbrk h) h1 = 0" "fld NextFree (lastsbrk h) h1 = 0" "fld Sz (lastsbrk h) h1 \<noteq> 0" "lastsbrk h \<noteq> nw"
      using v [of "lastsbrk h"] LB l(2,3) below [OF LB] hinv_geomD(3) [OF i' LB] by (auto simp: V_def)
    have m: "mv2freelist none (lastsbrk h) h1 = Some (link_free none (lastsbrk h) h1)"
      using False L1(1) by (auto simp: mv2freelist_def isfree_def h1_def)
    note k = link_free_used [OF ok1, of "lastsbrk h", unfolded link_free_sethdr [OF L1(3)]]
    have nw': "nw \<in> insert nw B" by simp
    have "fld Sz nw (link_free none (lastsbrk h) h1) = n"
      using link_free_ok(3) [OF ok1, of "lastsbrk h" nw Sz, unfolded link_free_sethdr [OF L1(3)]] LB L1 z1 by simp
    then show ?thesis
      using k LB L1 U1 t1 m by (intro that [OF m]) (auto intro: untouched_trans [of _ h "sethdr 0 nw h1"])
  qed
qed

lemma extendsbrk_ok:
  assumes i: "nok none B {} h" and s: "sbrk_ok none sbrk h"
  obtains (fails) k where "extendsbrk none sbrk sz h = Some (0, h)" "k \<le> sz + 1040" "sbrk k = None"
    | (grows) h' B' where "extendsbrk none sbrk sz h = Some (lastsbrk h', h')" "lastsbrk h' \<noteq> 0" "nok none B' {} h'"
        "used B' {} h' = used B {} h" "\<And>u. u \<in> used B {} h \<Longrightarrow> untouched u h h'" "sz + 24 \<le> fld Sz (lastsbrk h') h'"
proof -
  define expected where "expected = (if lastsbrk h \<noteq> NULL then lastsbrk h + fld Sz (lastsbrk h) h else NULL)"
  define x where "x = (let x = sz + (2 * ALIGN + DATAOFFSET); x = (if x < MINSBRK then MINSBRK else x)
    in if expected mod ALIGN \<noteq> 0 then x + (ALIGN - expected mod ALIGN) else x)"
  have x: "sz + 32 \<le> x" "x \<le> sz + 1040"
    using mod_less_divisor [of 8 expected] by (auto simp: x_def Let_def ALIGN_def DATAOFFSET_def MINSBRK_def)
  have i': "hinv none B {} (view h) (freehdrs h)" using i by (simp add: nok_def)
  have ex: "extendsbrk none sbrk sz h = (case sbrk x of
        None \<Rightarrow> Some (NULL, h)
      | Some m \<Rightarrow>
          if m = expected
          then Some (lastsbrk h, setf Sz (lastsbrk h) (fld Sz (lastsbrk h) h + x) h)
          else
            let aligndelta = (if m mod ALIGN \<noteq> 0 then ALIGN - m mod ALIGN else 0);
                m = m + aligndelta;
                h = setf NextFree m NULL (setf Prev m NULL (setf Next m NULL (setf Sz m (x - aligndelta) h))) in
            do { h \<leftarrow> mv2freelist none (lastsbrk h) h; Some (m, recordnewsbrk m (sethdr 0 m h)) })"
    unfolding extendsbrk_def Let_def x_def expected_def by (rule refl)
  show ?thesis
  proof (cases "sbrk x")
    case None
    then show ?thesis using fails [OF _ x(2)] by (simp add: ex)
  next
    case (Some a)
    then have a: "a \<noteq> 0" "a + x < 2 ^ 32" "none < a \<or> a + x \<le> none"
        "lastsbrk h \<noteq> 0 \<Longrightarrow> expected \<le> a"
      using s by (auto simp: sbrk_ok_def expected_def)
    show ?thesis
    proof (cases "a = expected")
      case True
      then have L: "lastsbrk h \<noteq> 0" "lastsbrk h + fld Sz (lastsbrk h) h = a" using a(1) by (auto simp: expected_def split: if_splits)
      note g = grow_last [OF i L(1), of x, unfolded L(2), OF a(2,3)]
      show ?thesis using True Some g L x 
        by (intro grows [of "setf Sz (lastsbrk h) (fld Sz (lastsbrk h) h + x) h" B]) (auto simp: ex)
    next
      case False
      define d where "d = (if a mod ALIGN \<noteq> 0 then ALIGN - a mod ALIGN else 0)"
      have d: "d < 8" "(a + d) mod 8 = 0" by (simp_all add: d_def ALIGN_def) presburger
      have L: "lastsbrk h + fld Sz (lastsbrk h) h \<le> a + d \<and> lastsbrk h + 24 \<le> a + d" if l: "lastsbrk h \<noteq> 0"
      proof -
        have LB: "lastsbrk h \<in> B" using i' l by (auto simp: hinv_def last_ok_def)
        have "lastsbrk h + fld Sz (lastsbrk h) h < a" using a(4) [OF l] l False by (simp add: expected_def)
        moreover have "lastsbrk h mod 8 = 0" "16 \<le> fld Sz (lastsbrk h) h" using hinv_geomD(2,3) [OF i' LB] by simp_all
        ultimately show ?thesis using d(2) by presburger
      qed
      have nw: "0 < a + d" "24 \<le> x - d" "a + d + (x - d) < 2 ^ 32" "none < a + d \<or> a + d + (x - d) \<le> none"
        using a d x by auto
      obtain h' where h': "mv2freelist none (lastsbrk h)
          (setf NextFree (a + d) 0 (setf Prev (a + d) 0 (setf Next (a + d) 0 (setf Sz (a + d) (x - d) h)))) = Some h'"
          "nok none (insert (a + d) B) {} (sethdr 0 (a + d) h')"
          "used (insert (a + d) B) {} (sethdr 0 (a + d) h') = used B {} h" "\<And>u. u \<in> used B {} h \<Longrightarrow> untouched u h h'"
          "fld Sz (a + d) h' = x - d"
        by (rule new_area [OF i nw(1) d(2) nw(2-4) L]) (auto intro: that)
      have e: "extendsbrk none sbrk sz h = Some (a + d, recordnewsbrk (a + d) (sethdr 0 (a + d) h'))"
        using False Some h'(1) by (cases "a mod ALIGN = 0") (simp_all add: ex d_def Let_def)
      show ?thesis
        using e h' nw x d by (intro grows [of "recordnewsbrk (a + d) (sethdr 0 (a + d) h')" "insert (a + d) B"])
          (auto simp: nok_def used_def untouched_def same_data_def)
    qed
  qed
qed

section \<open>Allocating\<close>

lemma size2bucket_mono: "x \<le> y \<Longrightarrow> size2bucket x \<le> size2bucket y"
proof (induction x arbitrary: y rule: size2bucket.induct)
  case (1 x)
  show ?case
  proof (cases "x = 0")
    case False
    then have "size2bucket (x div 2) \<le> size2bucket (y div 2)" using 1 div_le_mono by simp
    then show ?thesis using False 1(2) by (subst (1 2) size2bucket.simps) simp
  qed (simp add: size2bucket.simps)
qed

lemma size2bucket_bound: "n < 2 ^ k \<Longrightarrow> size2bucket n \<le> k"
proof (induction k arbitrary: n)
  case 0
  then show ?case by (simp add: size2bucket.simps)
next
  case (Suc k)
  then have "size2bucket (n div 2) \<le> k" by (simp add: less_mult_imp_div_less)
  then show ?case by (subst size2bucket.simps) simp
qed

lemma searchup_found: "searchup H bs = b \<Longrightarrow> b < NFLISTS \<Longrightarrow> b \<in> set bs \<and> H b \<noteq> 0"
  by (induction H bs rule: searchup.induct) (auto split: if_splits)

text \<open>\<^verbatim>\<open>searchfree\<close> answers a list whose first block is large enough, without walking the list.\<close>

lemma searchfree_found:
  assumes i: "nok none B X h" and b: "searchfree sz h = b" "b \<noteq> 0"
  shows "freehdrs h b \<noteq> 0" "sz \<le> fld Sz (freehdrs h b) h"
proof -
  have i': "hinv none B X (view h) (freehdrs h)" using i by (simp add: nok_def)
  consider "b = size2bucket sz" "freehdrs h b \<noteq> 0" "sz \<le> fld Sz (freehdrs h b) h"
    | "searchup (freehdrs h) [Suc (size2bucket sz)..<NFLISTS] = b" "b < NFLISTS"
    using b by (auto simp: searchfree_def Let_def split: if_splits)
  then show "freehdrs h b \<noteq> 0" "sz \<le> fld Sz (freehdrs h b) h"
  proof (atomize (full), cases)
    case 2
    have s: "size2bucket sz < b" "freehdrs h b \<noteq> 0" using searchup_found [OF 2] by auto
    then have "size2bucket (fld Sz (freehdrs h b) h) = b" using headsD(2) [OF i'] by simp
    then have "sz \<le> fld Sz (freehdrs h b) h"
      using s(1) size2bucket_mono [of "fld Sz (freehdrs h b) h" sz] by (cases "sz \<le> fld Sz (freehdrs h b) h") auto
    then show "freehdrs h b \<noteq> 0 \<and> sz \<le> fld Sz (freehdrs h b) h" using s(2) by simp
  qed simp
qed

lemma split_used:
  assumes i: "nok none B {} h" and m: "m \<in> used B {} h"
    and sz: "24 \<le> sz" "sz mod 8 = 0" "sz + 24 \<le> fld Sz m h"
  obtains h' where "nmalloc_split m sz h = Some (m, m + sz, h')" "nok none (insert (m + sz) B) {} h'"
    "used (insert (m + sz) B) {} h' = insert (m + sz) (used B {} h)" "m + sz \<notin> used B {} h"
    "fld Sz m h' = sz" "same_data m sz h h'" "\<And>u. u \<in> used B {} h - {m} \<Longrightarrow> untouched u h h'"
    "fld Sz (m + sz) h' = fld Sz m h - sz"
proof -
  note d = usedD [OF m]
  have z: "sz + (if m = lastsbrk h then 16 else 24) \<le> fld Sz m h" using sz(3) d(3) by simp
  have i': "hinv none B {} (view h) (freehdrs h)" using i by (simp add: nok_def)
  obtain h' where s: "nmalloc_split m sz h = Some (m, m + sz, h')" "nok none (insert (m + sz) B) {} h'"
    "free_blocks (insert (m + sz) B) {} h' = free_blocks B {} h" "m + sz \<notin> B"
    "\<And>x f. x \<in> insert (m + sz) B \<Longrightarrow> f \<noteq> PrevFree \<Longrightarrow> fld f x h' = split_at m sz (view h) x f"
    "freehdrs h' = freehdrs h" "frame {} (insert (m + sz) B) h h'"
    by (rule nmalloc_split_ok [OF i d(1,5,4) sz(1,2) z]) (use d(3) in \<open>auto intro: that\<close>)
  have l: "lastsbrk h \<in> B" using hinv_last(1) [OF i' d(1)] .
  show ?thesis
  proof (rule that [OF s(1,2)])
    show "used (insert (m + sz) B) {} h' = insert (m + sz) (used B {} h)"
      unfolding used_def s(3,6) using s(4) l by (auto simp: frees_def)
    show "m + sz \<notin> used B {} h" using s(4) by (auto simp: used_def)
    show "fld Sz m h' = sz" using s(5) [of m Sz] d(1) by (simp add: split_at_simps)
    show "fld Sz (m + sz) h' = fld Sz m h - sz" using s(5) [of "m + sz" Sz] sz(1) by (simp add: split_at_simps)
    show "same_data m sz h h'"
      using d(1) sz(3) by (intro frame_same_data [OF s(7) i]) auto
    show "untouched u h h'" if u: "u \<in> used B {} h - {m}" for u
    proof -
      have uB: "u \<in> B" "u \<noteq> m" "u \<noteq> m + sz" using u s(4) by (auto simp: used_def)
      have "m + sz \<le> u \<or> u + fld Sz u h \<le> m + sz"
        using hinv_geomD(7) [OF i' uB(1) d(1)] hinv_geomD(7) [OF i' d(1) uB(1)] uB(2) sz(3) by linarith
      then have "same_data u (fld Sz u h) h h'"
        using uB(1) by (intro frame_same_data [OF s(7) i]) auto
      then show ?thesis using s(5) [of u Sz] uB by (simp add: untouched_def split_at_simps)
    qed
  qed
qed

lemma split_lastsbrk_ok:
  assumes i: "nok none B {} h" and L: "lastsbrk h \<noteq> 0" and sz: "24 \<le> sz" "sz mod 8 = 0" "sz + 16 \<le> fld Sz (lastsbrk h) h"
  obtains h' B' where "split_lastsbrk sz h = Some (lastsbrk h, h')" "nok none B' {} h'"
    "used B' {} h' = insert (lastsbrk h) (used B {} h)" "fld Sz (lastsbrk h) h' = sz"
    "\<And>u. u \<in> used B {} h \<Longrightarrow> untouched u h h'" "same_data (lastsbrk h) sz h h'"
proof -
  let ?m = "lastsbrk h"
  have i': "hinv none B {} (view h) (freehdrs h)" using i by (simp add: nok_def)
  have LB: "?m \<in> B" using i' L(1) by (auto simp: hinv_def last_ok_def)
  note l = hinv_last [OF i' LB]
  have z: "sz + (if ?m = lastsbrk h then 16 else 24) \<le> fld Sz ?m h" using sz(3) by simp
  obtain h' where s: "nmalloc_split ?m sz h = Some (?m, ?m + sz, h')" "nok none (insert (?m + sz) B) {} (sethdr 0 (?m + sz) h')"
    "free_blocks (insert (?m + sz) B) {} h' = free_blocks B {} h" "?m + sz \<notin> B"
    "\<And>x f. x \<in> insert (?m + sz) B \<Longrightarrow> f \<noteq> PrevFree \<Longrightarrow> fld f x h' = split_at ?m sz (view h) x f"
    "freehdrs h' = freehdrs h" "frame {} (insert (?m + sz) B) h h'"
    by (rule nmalloc_split_ok [OF i LB l(2,4) sz(1,2) z]) (auto intro: that)
  show ?thesis
  proof (rule that [OF _ s(2)])
    show "split_lastsbrk sz h = Some (?m, sethdr 0 (?m + sz) h')" using s(1) by (simp add: split_lastsbrk_def)
    have F: "free_blocks (insert (?m + sz) B) {} (sethdr 0 (?m + sz) h') = free_blocks B {} h" using s(3) by simp
    show "used (insert (?m + sz) B) {} (sethdr 0 (?m + sz) h') = insert ?m (used B {} h)"
      unfolding used_def F using s(4) LB frees_sub [OF i] by auto
    show "fld Sz ?m (sethdr 0 (?m + sz) h') = sz" using s(5) [of ?m Sz] LB by (simp add: split_at_simps)
    have "same_data ?m sz h h'" using LB sz(3) by (intro frame_same_data [OF s(7) i]) auto
    then show "same_data ?m sz h (sethdr 0 (?m + sz) h')" by simp
    show "untouched u h (sethdr 0 (?m + sz) h')" if u: "u \<in> used B {} h" for u
    proof -
      note d = usedD [OF u]
      have ne: "u \<noteq> ?m + sz" using d(1) s(4) by auto
      have "u + fld Sz u h \<le> ?m + sz" using hinv_geomD(6,7) [OF i' d(1)] LB d(3) by fastforce
      then have "same_data u (fld Sz u h) h h'"
        using d(1) by (intro frame_same_data [OF s(7) i]) auto
      then show ?thesis using s(5) [of u Sz] d ne by (simp add: untouched_def split_at_simps)
    qed
  qed
qed

text \<open>What a step that hands out a block \<open>m\<close> of \<open>sz\<close> bytes or more does to the allocated blocks.\<close>

definition gives :: "nat \<Rightarrow> nat set \<Rightarrow> nheap \<Rightarrow> nat \<Rightarrow> nat \<Rightarrow> nheap \<Rightarrow> bool" where
  "gives none B h sz m h' \<longleftrightarrow> (\<exists>B'. nok none B' {} h' \<and> m \<notin> used B {} h \<and> used B' {} h' = insert m (used B {} h)) \<and>
     sz \<le> fld Sz m h' \<and> (\<forall>u \<in> used B {} h. untouched u h h')"

lemma take_free_ok:
  assumes i: "nok none B {} h" and b: "b \<noteq> 0" "freehdrs h b \<noteq> 0"
    and sz: "24 \<le> sz" "sz mod 8 = 0" "sz \<le> fld Sz (freehdrs h b) h"
  obtains h' where "take_free none b sz h = Some (freehdrs h b, h')" "gives none B h sz (freehdrs h b) h'"
proof -
  let ?m = "freehdrs h b"
  obtain h1 where r: "rmvfromfree none ?m h = Some h1" "nok none B {} h1"
    "free_blocks B {} h1 = free_blocks B {} h - {?m}" "fld NextFree ?m h1 = 0"
    "\<And>x f. x \<in> B \<Longrightarrow> f \<noteq> NextFree \<Longrightarrow> f \<noteq> PrevFree \<Longrightarrow> fld f x h1 = fld f x h"
    "freehdrs h1 0 = freehdrs h 0" "frame (free_blocks B {} h) {} h h1" "?m \<in> free_blocks B {} h"
    using rmvfromfree_ok [OF i _ b(2)] b(1) by blast
  have mB: "?m \<in> B" "?m \<noteq> lastsbrk h" using frees_sub [OF i] r(8) by auto
  have mU: "?m \<notin> used B {} h" using r(8) by (auto simp: used_def)
  have U1: "used B {} h1 = insert ?m (used B {} h)" unfolding used_def r(3,6) using mB by auto
  have t1: "untouched u h h1" if u: "u \<in> used B {} h" for u
  proof -
    have "same_data u (fld Sz u h) h h1"
      using usedD [OF u] frees_sub [OF i] by (intro frame_same_data [OF r(7) i]) auto
    then show ?thesis using usedD [OF u] r(5) [of u Sz] by (simp add: untouched_def)
  qed
  show ?thesis
  proof (cases "fld Sz ?m h1 < sz + MINSAVE")
    case True
    then have "take_free none b sz h = Some (?m, h1)" using r(1) by (simp add: take_free_def Let_def)
    then show ?thesis
      using that r(2) U1 t1 mU r(5) [OF mB(1), of Sz] sz(3) unfolding gives_def by auto
  next
    case False
    then have z: "sz + 24 \<le> fld Sz ?m h1" by (simp add: MINSAVE_def ALIGN_def DATAOFFSET_def)
    have m1: "?m \<in> used B {} h1" using U1 by simp
    obtain h2 where s: "nmalloc_split ?m sz h1 = Some (?m, ?m + sz, h2)" "nok none (insert (?m + sz) B) {} h2"
      "used (insert (?m + sz) B) {} h2 = insert (?m + sz) (used B {} h1)" "?m + sz \<notin> used B {} h1"
      "fld Sz ?m h2 = sz" "\<And>u. u \<in> used B {} h1 - {?m} \<Longrightarrow> untouched u h1 h2"
      by (rule split_used [OF r(2) m1 sz(1,2) z]) (auto intro: that)
    have k: "?m + sz \<in> used (insert (?m + sz) B) {} h2" using s(3) by simp
    note d = usedD [OF k]
    obtain h3 B3 where f: "mv2freelist none (?m + sz) h2 = Some h3" "nok none B3 {} h3"
      "used B3 {} h3 = used (insert (?m + sz) B) {} h2 - {?m + sz}"
      "\<And>u. u \<in> used (insert (?m + sz) B) {} h2 - {?m + sz} \<Longrightarrow> untouched u h2 h3"
      by (rule mv2freelist_ok [OF s(2) d(1,3) disjI2 [OF d(5)]]) (auto intro: that)
    have U3: "used B3 {} h3 = insert ?m (used B {} h)" using f(3) s(3,4) U1 by auto
    have t3: "untouched u h h3" if u: "u \<in> used B {} h" for u
    proof -
      have "u \<noteq> ?m" "u \<noteq> ?m + sz" using u mU s(4) U1 by auto
      then show ?thesis
        using t1 [OF u] s(6) [of u] f(4) [of u] u s(3) U1 by (auto intro: untouched_trans [of _ h h1] untouched_trans [of _ h1 h2])
    qed
    have "?m \<noteq> ?m + sz" using sz(1) by simp
    then have "untouched ?m h2 h3" using f(4) [of ?m] s(3) U1 by auto
    then have "fld Sz ?m h3 = sz" using s(5) by (simp add: untouched_def)
    moreover have "take_free none b sz h = Some (?m, h3)" using r(1) s(1) f(1) False by (simp add: take_free_def Let_def)
    ultimately show ?thesis
      using that f(2) U3 t3 mU unfolding gives_def by auto
  qed
qed

lemma roundup_bounds:
  assumes "0 < n" "n \<le> 2 ^ 32 - 24"
  shows "n + 16 \<le> roundup n" "roundup n mod 8 = 0" "24 \<le> roundup n" "roundup n \<le> n + 23"
proof -
  have r: "roundup n = (n + 7) div 8 * 8 + 16"
    using assms unfolding roundup_def DATAOFFSET_def by simp
  show "n + 16 \<le> roundup n" "24 \<le> roundup n" "roundup n \<le> n + 23" using assms(1) unfolding r by presburger+
  show "roundup n mod 8 = 0" unfolding r by presburger
qed

lemma nmalloc_block:
  assumes i: "nok none B {} h" and s: "sbrk_ok none sbrk h" and n: "nbytes \<le> 2 ^ 32 - 24"
  defines "szneed \<equiv> roundup (if nbytes = 0 then 1 else nbytes)"
  obtains (fails) "nmalloc none sbrk nbytes h = Some (0, h)" "szneed < 2147483647 - 65536 \<Longrightarrow> \<exists>k \<le> szneed + 1040. sbrk k = None"
    | (gives) m h' where "nmalloc none sbrk nbytes h = Some (PTR m, h')" "gives none B h szneed m h'"
proof -
  have r: "nbytes + 16 \<le> szneed" "szneed mod 8 = 0" "24 \<le> szneed"
    using roundup_bounds [of "if nbytes = 0 then 1 else nbytes"] n by (auto simp: szneed_def split: if_splits)
  have nm: "nmalloc none sbrk nbytes h =
     (if szneed < 2147483647 - 65536 then do {
        (m, h) \<leftarrow> (if searchfree szneed h \<noteq> 0 then take_free none (searchfree szneed h) szneed h
                   else if lastsbrk h \<noteq> NULL \<and> fld Sz (lastsbrk h) h \<ge> szneed + DATAOFFSET
                   then split_lastsbrk szneed h
                   else do {
                     (m1, h) \<leftarrow> extendsbrk none sbrk szneed h;
                     if m1 \<noteq> NULL then
                       (if fld Sz m1 h < szneed + MINSAVE then Some (m1, h) else split_lastsbrk szneed h)
                     else Some (NULL, h)
                   });
        Some (if m \<noteq> NULL then PTR m else NULL, h)
      } else Some (NULL, h))"
    unfolding nmalloc_def Let_def szneed_def by (rule refl)
  consider "\<not> szneed < 2147483647 - 65536"
    | "szneed < 2147483647 - 65536" "searchfree szneed h \<noteq> 0"
    | "szneed < 2147483647 - 65536" "searchfree szneed h = 0" "lastsbrk h \<noteq> 0" "szneed + 16 \<le> fld Sz (lastsbrk h) h"
    | "szneed < 2147483647 - 65536" "searchfree szneed h = 0" "\<not> (lastsbrk h \<noteq> 0 \<and> szneed + 16 \<le> fld Sz (lastsbrk h) h)"
    by blast
  then show ?thesis
  proof cases
    case 1
    then show ?thesis by (intro fails) (auto simp: nm)
  next
    case 2
    note f = searchfree_found [OF i refl 2(2)]
    obtain h' where "take_free none (searchfree szneed h) szneed h = Some (freehdrs h (searchfree szneed h), h')"
      "gives none B h szneed (freehdrs h (searchfree szneed h)) h'"
      by (rule take_free_ok [OF i 2(2) f(1) r(3,2) f(2)]) (rule that)
    then show ?thesis using gives 2 f(1) by (simp add: nm)
  next
    case 3
    obtain h' B' where k: "split_lastsbrk szneed h = Some (lastsbrk h, h')" "nok none B' {} h'"
      "used B' {} h' = insert (lastsbrk h) (used B {} h)" "fld Sz (lastsbrk h) h' = szneed"
      "\<And>u. u \<in> used B {} h \<Longrightarrow> untouched u h h'"
      by (rule split_lastsbrk_ok [OF i 3(3) r(3,2) 3(4)]) (rule that)
    then have "gives none B h szneed (lastsbrk h) h'" by (auto simp: gives_def used_def)
    then show ?thesis using gives 3 k(1) by (simp add: nm DATAOFFSET_def)
  next
    case 4
    then have nm4: "nmalloc none sbrk nbytes h = do {
        (m, h) \<leftarrow> do {
                     (m1, h) \<leftarrow> extendsbrk none sbrk szneed h;
                     if m1 \<noteq> NULL then
                       (if fld Sz m1 h < szneed + MINSAVE then Some (m1, h) else split_lastsbrk szneed h)
                     else Some (NULL, h)
                   };
        Some (if m \<noteq> NULL then PTR m else NULL, h) }"
      unfolding nm DATAOFFSET_def by (simp only: if_True if_False simp_thms)
    show ?thesis
    proof (cases rule: extendsbrk_ok [OF i s, of szneed])
      case (1 k)
      then show ?thesis by (intro fails) (auto simp: nm4)
    next
      case (2 h1 B1)
      have z: "szneed + 16 \<le> fld Sz (lastsbrk h1) h1" using 2(6) by simp
      obtain h' B' where k: "split_lastsbrk szneed h1 = Some (lastsbrk h1, h')" "nok none B' {} h'"
        "used B' {} h' = insert (lastsbrk h1) (used B1 {} h1)" "fld Sz (lastsbrk h1) h' = szneed"
        "\<And>u. u \<in> used B1 {} h1 \<Longrightarrow> untouched u h1 h'"
        by (rule split_lastsbrk_ok [OF 2(3,2) r(3,2) z]) (rule that)
      have "lastsbrk h1 \<notin> used B1 {} h1" by (simp add: used_def)
      moreover have "untouched u h h'" if "u \<in> used B {} h" for u
        using untouched_trans [OF 2(5) [OF that] k(5)] that 2(4) by simp
      ultimately have "gives none B h szneed (lastsbrk h1) h'"
        using k 2(4) unfolding gives_def by auto
      moreover have "nmalloc none sbrk nbytes h = Some (PTR (lastsbrk h1), h')"
        using 2(1,2,6) k(1) by (simp add: nm4 MINSAVE_def ALIGN_def DATAOFFSET_def)
      ultimately show ?thesis using gives by blast
    qed
  qed
qed

section \<open>Writing to allocated blocks\<close>

text \<open>
  The heap stays consistent when the program writes to the data of allocated blocks, and only there. This includes the
  place of the last header field.
\<close>

definition in_data :: "nat set \<Rightarrow> nheap \<Rightarrow> nat \<Rightarrow> bool" where
  "in_data U h a \<longleftrightarrow> (\<exists>u \<in> U. u + DATAOFFSET \<le> a \<and> a < u + fld Sz u h)"

lemma data_writes:
  assumes i: "nok none B {} h" and U: "U \<subseteq> used B {} h"
    and w: "\<And>a. \<not> in_data U h a \<Longrightarrow> bytes h' a = bytes h a" and H: "freehdrs h' = freehdrs h"
  shows "nok none B {} h'" "used B {} h' = used B {} h" "u \<in> used B {} h - U \<Longrightarrow> untouched u h h'"
    "u \<in> used B {} h \<Longrightarrow> fld Sz u h' = fld Sz u h"
proof -
  have i': "hinv none B {} (view h) (freehdrs h)" using i by (simp add: nok_def)
  note g = hinv_geomD [OF i']
  have out: "\<not> in_data U h a" if x: "x \<in> B" "x \<le> a" "a < x + 16 \<or> x \<notin> U \<and> (a < x + 24 \<or> a < x + fld Sz x h)" for x a
  proof
    assume "in_data U h a"
    then obtain u where u: "u \<in> U" "u + 16 \<le> a" "a < u + fld Sz u h" by (auto simp: in_data_def DATAOFFSET_def)
    then have uB: "u \<in> B" using U usedD(1) by blast
    show False
      using g(7) [OF uB x(1)] g(7) [OF x(1) uB] g(4) [OF x(1) uB] x u by (cases u x rule: linorder_cases) auto
  qed
  have v: "fld f x h' = fld f x h" if x: "x \<in> B" "f \<noteq> PrevFree \<or> x \<in> free_blocks B {} h" for x f
  proof -
    have "bytes h' (x + offset f + k) = bytes h (x + offset f + k)" if "k < 4" for k
    proof (rule w, rule out [OF x(1)])
      show "x + offset f + k < x + 16 \<or> x \<notin> U \<and> (x + offset f + k < x + 24 \<or> x + offset f + k < x + fld Sz x h)"
      proof (cases "x \<in> free_blocks B {} h")
        case True
        then have "x \<notin> U" using U usedD(2) by blast
        moreover have "offset f + k < 24" using that by (cases f) auto
        ultimately show ?thesis by auto
      next
        case False
        then have "offset f + k < 16" using x(2) that by (cases f) auto
        then show ?thesis by simp
      qed
    qed simp
    from this [of 0] this [of 1] this [of 2] this [of 3] show ?thesis by (simp add: fld_def rd32_def)
  qed
  note c = hinv_cong [OF v i']
  show "nok none B {} h'" using c(1) by (simp add: nok_def H)
  show "used B {} h' = used B {} h" using c(2) by (simp add: used_def H)
  show z: "fld Sz u h' = fld Sz u h" if "u \<in> used B {} h" for u using v [of u Sz] usedD(1) [OF that] by simp
  show "untouched u h h'" if u: "u \<in> used B {} h - U"
  proof -
    have "bytes h' a = bytes h a" if "u + 16 \<le> a" "a < u + fld Sz u h" for a
      by (rule w, rule out [of u]) (use u that usedD(1) [of u] in auto)
    then show ?thesis using z u by (simp add: untouched_def same_data_def DATAOFFSET_def)
  qed
qed

lemma copy_data:
  fixes src :: nat
  assumes i: "nok none B {} h" and m: "m \<in> used B {} h" "n + 16 \<le> fld Sz m h"
  defines "h' \<equiv> h\<lparr>bytes := copy_bytes (PTR m) src n (bytes h)\<rparr>"
  shows "nok none B {} h'" "used B {} h' = used B {} h" "fld Sz m h' = fld Sz m h"
    "\<And>u. u \<in> used B {} h - {m} \<Longrightarrow> untouched u h h'" "\<And>k. k < n \<Longrightarrow> bytes h' (PTR m + k) = bytes h (src + k)"
proof -
  have w: "bytes h' a = bytes h a" if "\<not> in_data {m} h a" for a
    using that m(2) by (auto simp: h'_def copy_bytes_def in_data_def PTR_def DATAOFFSET_def)
  have U: "{m} \<subseteq> used B {} h" using m(1) by simp
  have H: "freehdrs h' = freehdrs h" by (simp add: h'_def)
  note d = data_writes [OF i U w H]
  show "nok none B {} h'" "used B {} h' = used B {} h" "fld Sz m h' = fld Sz m h" using d m(1) by auto
  show "untouched u h h'" if "u \<in> used B {} h - {m}" for u using d(3) [OF _ that] by simp
  show "bytes h' (PTR m + k) = bytes h (src + k)" if "k < n" for k using that by (simp add: h'_def copy_bytes_def)
qed

section \<open>Reallocating\<close>

text \<open>What a step that replaces the block \<open>m\<close> by \<open>m'\<close> does: the data of \<open>m\<close> is found in \<open>m'\<close>, other blocks are untouched.\<close>

definition moves :: "nat \<Rightarrow> nat set \<Rightarrow> nheap \<Rightarrow> nat \<Rightarrow> nat \<Rightarrow> nat \<Rightarrow> nheap \<Rightarrow> bool" where
  "moves none B h m sz m' h' \<longleftrightarrow>
     (\<exists>B'. nok none B' {} h' \<and> m' \<notin> used B {} h - {m} \<and> used B' {} h' = insert m' (used B {} h - {m})) \<and> sz \<le> fld Sz m' h' \<and>
     (\<forall>k. DATAOFFSET + k < min sz (fld Sz m h) \<longrightarrow> bytes h' (PTR m' + k) = bytes h (PTR m + k)) \<and>
     (\<forall>u \<in> used B {} h - {m}. untouched u h h')"

lemma moves_in_place:
  assumes "nok none B' {} h'" "used B' {} h' = used B {} h" "m \<in> used B {} h" "sz \<le> fld Sz m h'"
    "same_data m (min sz (fld Sz m h)) h h'" "\<And>u. u \<in> used B {} h - {m} \<Longrightarrow> untouched u h h'"
  shows "moves none B h m sz m h'"
  using assms unfolding moves_def same_data_def by (auto simp: PTR_def insert_absorb intro!: exI [of _ B'])

text \<open>Cutting off what a block has in excess.\<close>

lemma trim_ok:
  assumes i: "nok none B {} h" and m: "m \<in> used B {} h" and sz: "24 \<le> sz" "sz mod 8 = 0" "sz \<le> fld Sz m h"
  obtains h' B' where "trim none m sz h = Some (m, h')" "nok none B' {} h'" "used B' {} h' = used B {} h" "sz \<le> fld Sz m h'"
    "same_data m sz h h'" "\<And>u. u \<in> used B {} h - {m} \<Longrightarrow> untouched u h h'"
proof (cases "fld Sz m h - sz \<ge> MINSAVE")
  case False
  then show ?thesis using that [OF _ i] sz by (simp add: trim_def)
next
  case True
  then have z: "sz + 24 \<le> fld Sz m h" using sz(3) by (simp add: MINSAVE_def ALIGN_def DATAOFFSET_def)
  obtain h1 where s: "nmalloc_split m sz h = Some (m, m + sz, h1)" "nok none (insert (m + sz) B) {} h1"
    "used (insert (m + sz) B) {} h1 = insert (m + sz) (used B {} h)" "m + sz \<notin> used B {} h"
    "fld Sz m h1 = sz" "same_data m sz h h1" "\<And>u. u \<in> used B {} h - {m} \<Longrightarrow> untouched u h h1"
    by (rule split_used [OF i m sz(1,2) z]) (rule that)
  have k: "m + sz \<in> used (insert (m + sz) B) {} h1" using s(3) by simp
  note d = usedD [OF k]
  obtain h2 B2 where f: "mv2freelist none (m + sz) h1 = Some h2" "nok none B2 {} h2"
    "used B2 {} h2 = used (insert (m + sz) B) {} h1 - {m + sz}"
    "\<And>u. u \<in> used (insert (m + sz) B) {} h1 - {m + sz} \<Longrightarrow> untouched u h1 h2"
    by (rule mv2freelist_ok [OF s(2) d(1,3) disjI2 [OF d(5)]]) (auto intro: that)
  have U: "used (insert (m + sz) B) {} h1 - {m + sz} = used B {} h" using s(3,4) by auto
  have mt: "untouched m h1 h2" using f(4) [unfolded U, OF m] .
  show ?thesis
  proof (rule that [OF _ f(2)])
    show "trim none m sz h = Some (m, h2)" using True s(1) f(1) by (simp add: trim_def)
    show "used B2 {} h2 = used B {} h" using f(3) U by simp
    show "sz \<le> fld Sz m h2" "same_data m sz h h2"
      using mt s(5) same_data_trans [OF s(6)] by (auto simp: untouched_def)
    show "untouched u h h2" if "u \<in> used B {} h - {m}" for u
      using untouched_trans [OF s(7) [OF that] f(4) [unfolded U]] that by simp
  qed
qed

text \<open>The new block is found first, the data copied, the old block freed.\<close>

lemma copy_and_free:
  assumes i: "nok none B {} h" and m: "m \<in> used B {} h" and g: "gives none B h sz m2 h1" and sz: "fld Sz m h \<le> sz"
  obtains h' where "dofree none m (h1\<lparr>bytes := copy_bytes (PTR m2) (PTR m) (fld Sz m h1 - DATAOFFSET) (bytes h1)\<rparr>) = Some h'"
    "moves none B h m sz m2 h'"
proof -
  obtain B1 where g1: "nok none B1 {} h1" "m2 \<notin> used B {} h" "used B1 {} h1 = insert m2 (used B {} h)" "sz \<le> fld Sz m2 h1"
      "\<And>u. u \<in> used B {} h \<Longrightarrow> untouched u h h1"
    using g by (auto simp: gives_def)
  have S: "fld Sz m h1 = fld Sz m h" "16 \<le> fld Sz m h" "m2 \<noteq> m"
    using g1(2,5) m hinv_geomD(3) [of none B "{}" "view h" "freehdrs h" m] i usedD(1) [OF m] by (auto simp: untouched_def nok_def)
  define h2 where "h2 = h1\<lparr>bytes := copy_bytes (PTR m2) (PTR m) (fld Sz m h1 - DATAOFFSET) (bytes h1)\<rparr>"
  have m2: "m2 \<in> used B1 {} h1" "fld Sz m h1 - DATAOFFSET + 16 \<le> fld Sz m2 h1"
    using g1(3,4) sz S by (auto simp: DATAOFFSET_def)
  note c = copy_data [OF g1(1) m2, where src = "PTR m", folded h2_def]
  have mU: "m \<in> used B1 {} h2" using c(2) g1(3) m by simp
  obtain h' B' where f: "dofree none m h2 = Some h'" "nok none B' {} h'" "used B' {} h' = used B1 {} h2 - {m}"
    "\<And>u. u \<in> used B1 {} h2 - {m} \<Longrightarrow> untouched u h2 h'"
    by (rule dofree_ok [OF c(1) mU]) (rule that)
  have t2: "untouched m2 h2 h'" using f(4) [of m2] c(2) g1(3) S(3) by simp
  show ?thesis
  proof (rule that)
    show "dofree none m (h1\<lparr>bytes := copy_bytes (PTR m2) (PTR m) (fld Sz m h1 - DATAOFFSET) (bytes h1)\<rparr>) = Some h'"
      using f(1) by (simp add: h2_def)
    have "bytes h' (PTR m2 + k) = bytes h (PTR m + k)" if k: "DATAOFFSET + k < min sz (fld Sz m h)" for k
    proof -
      have "bytes h' (PTR m2 + k) = bytes h2 (PTR m2 + k)"
        using t2 k c(3) g1(4) unfolding untouched_def same_data_def PTR_def DATAOFFSET_def by auto
      also have "\<dots> = bytes h1 (PTR m + k)" using c(5) [of k] k S(1) by (simp add: less_diff_conv)
      also have "\<dots> = bytes h (PTR m + k)"
        using g1(5) [OF m] k unfolding untouched_def same_data_def PTR_def DATAOFFSET_def by auto
      finally show ?thesis .
    qed
    moreover have "untouched u h h'" if u: "u \<in> used B {} h - {m}" for u
    proof -
      have "u \<noteq> m2" using u g1(2) by auto
      then have "untouched u h1 h2" "untouched u h2 h'" using c(2,4) f(4) g1(3) u by auto
      then show ?thesis using g1(5) [of u] u by (auto intro: untouched_trans)
    qed
    moreover have "used B' {} h' = insert m2 (used B {} h - {m})" using f(3) c(2) g1(3) S(3) by auto
    moreover have "sz \<le> fld Sz m2 h'" using t2 c(3) g1(4) by (simp add: untouched_def)
    ultimately show "moves none B h m sz m2 h'"
      using f(2) g1(2) unfolding moves_def by auto
  qed
qed

lemma nmalloc_split_sethdr:
  "nmalloc_split m sz (sethdr b v h) = map_option (\<lambda>(m, m1, h). (m, m1, sethdr b v h)) (nmalloc_split m sz h)"
proof -
  have c: "(sethdr b v h)\<lparr>bytes := c\<rparr> = sethdr b v (h\<lparr>bytes := c\<rparr>)" for c by (simp add: sethdr_def)
  show ?thesis by (simp add: nmalloc_split_def Let_def setf_sethdr c)
qed

lemma sethdr_sethdr: "sethdr b v (sethdr b w h) = sethdr b v h"
  by (simp add: sethdr_def)

text \<open>A block below the one that \<^verbatim>\<open>sbrk\<close> extends grows in place.\<close>

lemma use_lastsbrk_ok:
  assumes i: "nok none B {} h" and m: "m \<in> used B {} h" and sz: "24 \<le> sz" "sz mod 8 = 0" "fld Sz m h \<le> sz"
    and n: "lastsbrk h = fld Next m h" "sz + 16 \<le> fld Sz m h + fld Sz (lastsbrk h) h"
  obtains h' where "use_lastsbrk none m sz h = Some (m, h')" "moves none B h m sz m h'"
proof -
  note d = usedD [OF m]
  let ?n = "lastsbrk h"
  have i': "hinv none B {} (view h) (freehdrs h)" using i by (simp add: nok_def)
  have n0: "?n \<noteq> 0" using hinv_geomD(1,6) [OF i' d(1)] by simp
  obtain h1 where c: "combinehi none m h = Some (m, h1)" "nok none (B - {?n}) ({} - {m}) (sethdr 0 m h1)"
    "free_blocks (B - {?n}) ({} - {m}) (sethdr 0 m h1) = free_blocks B {} h"
    "fld Sz m h1 = fld Sz m h + fld Sz ?n h" "same_data m (fld Sz m h) h h1" "m \<noteq> ?n"
    "\<And>u. u \<in> B - free_blocks B {} h - {m} \<Longrightarrow> untouched u h (sethdr 0 m h1)"
    by (rule combinehi_last [OF i d(1) disjI2 [OF d(5)] n(1) [symmetric] n0 refl, of "\<lambda>h. h"]) (auto intro: that)
  let ?B = "B - {?n}" and ?h = "sethdr 0 m h1"
  have ok: "nok none ?B {} ?h" using c(2) by simp
  have U: "used ?B {} ?h = used B {} h - {m}" using c(3) by (auto simp: used_def)
  have m0: "m \<noteq> 0" using hinv_geomD(1) [OF i' d(1)] by simp
  obtain h' B' where s: "split_lastsbrk sz ?h = Some (m, h')" "nok none B' {} h'" "used B' {} h' = insert m (used ?B {} ?h)"
    "fld Sz m h' = sz" "\<And>u. u \<in> used ?B {} ?h \<Longrightarrow> untouched u ?h h'" "same_data m sz ?h h'"
    using split_lastsbrk_ok [OF ok _ sz(1,2)] m0 c(4) n(2) by (auto simp del: untouched_sethdr)
  have r: "use_lastsbrk none m sz h = Some (m, h')"
    using s(1) c(1) by (auto simp: use_lastsbrk_def split_lastsbrk_def nmalloc_split_sethdr sethdr_sethdr
        split: Option.bind_splits)
  have "same_data m (fld Sz m h) h h'"
    using c(5) same_data_mono [OF s(6) sz(3)] by (auto intro: same_data_trans simp: same_data_def)
  moreover have "untouched u h h'" if u: "u \<in> used B {} h - {m}" for u
    using untouched_trans [OF c(7) s(5)] u U by (auto simp: used_def)
  ultimately show ?thesis
    using that [OF r] s U m sz(3) by (intro that [OF r] moves_in_place [OF s(2)]) (auto simp: min_def insert_absorb)
qed

text \<open>A block grows downwards into its free lower neighbour, to which its data is moved.\<close>

lemma join_prev:
  assumes i: "nok none B {} h" and m: "m \<in> used B {} h" and p: "fld Prev m h = p" "p \<in> free_blocks B {} h"
  obtains h1 where "nok none (B - {m}) {} h1" "used (B - {m}) {} h1 = insert p (used B {} h - {m})"
    "fld Sz p h1 = fld Sz p h + fld Sz m h" "fld Sz m h1 = fld Sz m h" "same_data m (fld Sz m h) h h1"
    "\<And>u. u \<in> used B {} h - {m} \<Longrightarrow> untouched u h h1"
    "\<And>sz. use_prev none m sz h = trim none p sz (h1\<lparr>bytes := copy_bytes (PTR p) (PTR m) (fld Sz m h1 - DATAOFFSET) (bytes h1)\<rparr>)"
proof -
  have i': "hinv none B {} (view h) (freehdrs h)" using i by (simp add: nok_def)
  note d = freesD [OF i' p(2)] and u = usedD [OF m]
  define e where "e = extractfree none p h"
  note e = extractfree_ok [OF i p(2), folded e_def]
  have ie: "hinv none B {} (view e) (freehdrs e)" using e(1) by (simp add: nok_def)
  note g = hinv_geomD [OF ie]
  have em: "fld Next p e = m" using e(3) [OF d(1)] linkedD(2) [OF i' u(1)] p d(8) by auto
  have nB: "m = p + fld Sz p e" using linkedD(1) [OF ie d(1)] em g(1) [OF u(1)] by auto
  have pm': "p < m" using nB g(3) [OF d(1)] by simp
  obtain k where k: "fld Next m e = k" by blast
  have kk: "k = 0 \<or> k \<in> B \<and> k \<noteq> p \<and> k \<noteq> m" using linkedD(1) [OF ie u(1)] g(3) [OF u(1)] k pm' by auto
  have bound: "p < 2 ^ 32" "k < 2 ^ 32" "fld Sz p e + fld Sz m e < 2 ^ 32"
    using g(5) [OF d(1)] g(5) [OF u(1)] fld_bound [of Next m e] k nB by auto
  note fs = fld_setf [OF nok_spaced [OF i]]
  define h1 where "h1 = (if k \<noteq> 0 then setf Prev k p else id) (setf Next p k (setf Sz p (fld Sz p e + fld Sz m e) e))"
  have v: "fld f x h1 = joined p m (view e) x f" if "x \<in> B" for x f
    using that d(1) kk bound g(1) [OF that] by (auto simp: h1_def fs joined_def k)
  have me: "fld NextFree m e = 0"
  proof -
    have "m \<notin> free_blocks B {} e" using e(2) u(2) by simp
    then show ?thesis using u(1) by (auto simp: frees_def)
  qed
  have j: "hinv none (B - {m}) {} (view h1) (freehdrs h1)" "frees (B - {m}) {} (view h1) = free_blocks B {} e"
    using hinv_joined [OF ie d(1) disjI2 [OF e(5)] em _ me, where V' = "view h1" and X' = "{}" and H' = "freehdrs h1"]
      g(1) [OF u(1)] u(3) v e(4,5) d(1) by (auto simp: h1_def joined_def)
  have fr: "frame (free_blocks B {} h) B h h1"
    using frame_mono [OF extractfree_view(3) [OF i p(2), folded e_def] subset_refl, of B] d(1) kk
    by (auto simp: h1_def intro!: frame_setf)
  have h1: "use_prev none m sz h =
      trim none p sz (h1\<lparr>bytes := copy_bytes (PTR p) (PTR m) (fld Sz m h1 - DATAOFFSET) (bytes h1)\<rparr>)" for sz
    using d(1) u(1) kk bound pm' unfolding use_prev_def Let_def p(1) e_def [symmetric] by (simp add: h1_def fs k)
  show ?thesis
  proof (rule that [OF _ _ _ _ _ _ h1])
    show "nok none (B - {m}) {} h1" using j by (simp add: nok_def)
    show "used (B - {m}) {} h1 = insert p (used B {} h - {m})"
      using j(2) e(2,4) d(1,5) pm' u(2) unfolding used_def by (auto simp: h1_def)
    show "fld Sz p h1 = fld Sz p h + fld Sz m h"
      using v [OF d(1)] e(3) [OF d(1)] e(3) [OF u(1)] by (simp add: joined_def)
    show "fld Sz m h1 = fld Sz m h" using v [OF u(1)] e(3) [OF u(1)] pm' by (simp add: joined_def)
    show "same_data m (fld Sz m h) h h1"
      using u(1,2) frees_sub [OF i] by (intro frame_same_data [OF fr i]) auto
    show "untouched x h h1" if x: "x \<in> used B {} h - {m}" for x
    proof -
      have xB: "x \<in> B" "x \<notin> free_blocks B {} h" "x \<noteq> p" using x p(2) by (auto simp: used_def)
      have "same_data x (fld Sz x h) h h1"
        using xB frees_sub [OF i] by (intro frame_same_data [OF fr i]) auto
      then show ?thesis using v [OF xB(1), of Sz] e(3) [OF xB(1), of Sz] xB by (simp add: untouched_def joined_def)
    qed
  qed
qed

lemma use_prev_ok:
  assumes i: "nok none B {} h" and m: "m \<in> used B {} h" and sz: "24 \<le> sz" "sz mod 8 = 0" "fld Sz m h \<le> sz"
    and p: "fld Prev m h = p" "p \<in> free_blocks B {} h" "sz \<le> fld Sz m h + fld Sz p h"
  obtains h' where "use_prev none m sz h = Some (p, h')" "moves none B h m sz p h'"
proof -
  have i': "hinv none B {} (view h) (freehdrs h)" using i by (simp add: nok_def)
  obtain h1 where j: "nok none (B - {m}) {} h1" "used (B - {m}) {} h1 = insert p (used B {} h - {m})"
    "fld Sz p h1 = fld Sz p h + fld Sz m h" "fld Sz m h1 = fld Sz m h" "same_data m (fld Sz m h) h h1"
    "\<And>u. u \<in> used B {} h - {m} \<Longrightarrow> untouched u h h1"
    "\<And>sz. use_prev none m sz h = trim none p sz (h1\<lparr>bytes := copy_bytes (PTR p) (PTR m) (fld Sz m h1 - DATAOFFSET) (bytes h1)\<rparr>)"
    by (rule join_prev [OF i m p(1,2)]) (rule that)
  define h2 where "h2 = h1\<lparr>bytes := copy_bytes (PTR p) (PTR m) (fld Sz m h1 - DATAOFFSET) (bytes h1)\<rparr>"
  have S: "16 \<le> fld Sz m h" using hinv_geomD(3) [OF i' usedD(1) [OF m]] .
  have pU: "p \<in> used (B - {m}) {} h1" "fld Sz m h1 - DATAOFFSET + 16 \<le> fld Sz p h1" "p \<notin> used B {} h"
    using j(2,3,4) S p(2) by (auto simp: DATAOFFSET_def used_def)
  note c = copy_data [OF j(1) pU(1,2), where src = "PTR m", folded h2_def]
  have z: "sz \<le> fld Sz p h2" using c(3) j(3) p(3) by simp
  have pU2: "p \<in> used (B - {m}) {} h2" using pU c(2) by simp
  obtain h' B' where t: "trim none p sz h2 = Some (p, h')" "nok none B' {} h'" "used B' {} h' = used (B - {m}) {} h2"
    "sz \<le> fld Sz p h'" "same_data p sz h2 h'" "\<And>u. u \<in> used (B - {m}) {} h2 - {p} \<Longrightarrow> untouched u h2 h'"
    by (rule trim_ok [OF c(1) pU2 sz(1,2) z]) (rule that)
  show ?thesis
  proof (rule that)
    show "use_prev none m sz h = Some (p, h')" using j(7) t(1) by (simp add: h2_def)
    have "bytes h' (PTR p + k) = bytes h (PTR m + k)" if k: "DATAOFFSET + k < min sz (fld Sz m h)" for k
    proof -
      have "bytes h' (PTR p + k) = bytes h2 (PTR p + k)"
        using t(5) k unfolding same_data_def PTR_def DATAOFFSET_def by auto
      also have "\<dots> = bytes h1 (PTR m + k)" using c(5) [of k] k j(4) by (simp add: less_diff_conv)
      also have "\<dots> = bytes h (PTR m + k)"
        using j(5) k unfolding same_data_def PTR_def DATAOFFSET_def by auto
      finally show ?thesis .
    qed
    moreover have "untouched u h h'" if u: "u \<in> used B {} h - {m}" for u
    proof -
      have "u \<noteq> p" using u pU(3) by auto
      then have "untouched u h1 h2" "untouched u h2 h'" using c(2,4) t(6) j(2) u by auto
      then show ?thesis using j(6) [OF u] by (auto intro: untouched_trans)
    qed
    ultimately show "moves none B h m sz p h'"
      using t(2,3,4) c(2) j(2) pU(3) unfolding moves_def by auto
  qed
qed

lemma used_last:
  assumes "nok none B {} h" "m \<in> used B {} h"
  shows "lastsbrk h \<noteq> 0"
  using hinv_geomD(1,6) [of none B "{}" "view h" "freehdrs h" m] assms usedD(1) by (fastforce simp: nok_def)

lemma mv2lastsbrk_ok:
  assumes i: "nok none B {} h" and m: "m \<in> used B {} h" and sz: "24 \<le> sz" "sz mod 8 = 0" "fld Sz m h \<le> sz"
    and n: "sz + 16 \<le> fld Sz (lastsbrk h) h"
  obtains m' h' where "mv2lastsbrk none m sz h = Some (m', h')" "moves none B h m sz m' h'"
proof -
  obtain h1 B1 where s: "split_lastsbrk sz h = Some (lastsbrk h, h1)" "nok none B1 {} h1"
    "used B1 {} h1 = insert (lastsbrk h) (used B {} h)" "fld Sz (lastsbrk h) h1 = sz"
    "\<And>u. u \<in> used B {} h \<Longrightarrow> untouched u h h1"
    by (rule split_lastsbrk_ok [OF i used_last [OF i m] sz(1,2) n]) (rule that)
  have g: "gives none B h sz (lastsbrk h) h1" using s(2-5) by (auto simp: gives_def used_def)
  show ?thesis
    by (rule copy_and_free [OF i m g sz(3)]) (rule that, simp_all add: mv2lastsbrk_def s(1))
qed

lemma moves_after:
  assumes "moves none B1 h1 m sz m' h'" "used B1 {} h1 = used B {} h" "m \<in> used B {} h"
    "\<And>u. u \<in> used B {} h \<Longrightarrow> untouched u h h1"
  shows "moves none B h m sz m' h'"
proof -
  have z: "fld Sz m h1 = fld Sz m h" and d: "same_data m (fld Sz m h) h h1" using assms(3,4) by (auto simp: untouched_def)
  have "bytes h1 (PTR m + k) = bytes h (PTR m + k)" if "DATAOFFSET + k < min sz (fld Sz m h)" for k
    using d that unfolding same_data_def PTR_def DATAOFFSET_def by auto
  moreover have "untouched u h h'" if "u \<in> used B {} h - {m}" "untouched u h1 h'" for u
    using untouched_trans [OF assms(4) that(2)] that(1) by simp
  ultimately show ?thesis using assms(1) unfolding moves_def assms(2) z by auto
qed

lemma realloc_elsewhere_ok:
  assumes i: "nok none B {} h" and m: "m \<in> used B {} h" and s: "sbrk_ok none sbrk h"
    and sz: "24 \<le> sz" "sz mod 8 = 0" "fld Sz m h \<le> sz"
  obtains (fails) "realloc_elsewhere none sbrk m sz h = Some (0, h)"
    | (moves) m' h' where "realloc_elsewhere none sbrk m sz h = Some (m', h')" "moves none B h m sz m' h'"
proof -
  note r = realloc_elsewhere_def [of none sbrk m sz h]
  consider (search) "searchfree sz h \<noteq> 0"
    | (last) "searchfree sz h = 0" "lastsbrk h \<noteq> 0 \<and> sz + MINSAVE \<le> fld Sz (lastsbrk h) h"
    | (extend) "searchfree sz h = 0" "\<not> (lastsbrk h \<noteq> 0 \<and> sz + MINSAVE \<le> fld Sz (lastsbrk h) h)"
    by blast
  then show ?thesis
  proof cases
    case search
    let ?m2 = "freehdrs h (searchfree sz h)"
    note f = searchfree_found [OF i refl search]
    obtain h1 where t: "take_free none (searchfree sz h) sz h = Some (?m2, h1)" "gives none B h sz ?m2 h1"
      by (rule take_free_ok [OF i search f(1) sz(1,2) f(2)]) (rule that)
    show ?thesis
      by (rule copy_and_free [OF i m t(2) sz(3)]) (rule moves, simp_all add: r search t(1))
  next
    case last
    then have z: "sz + 16 \<le> fld Sz (lastsbrk h) h" by (simp add: MINSAVE_def ALIGN_def DATAOFFSET_def)
    show ?thesis
      by (rule mv2lastsbrk_ok [OF i m sz z]) (rule moves, simp_all add: r last)
  next
    case extend
    then have r': "realloc_elsewhere none sbrk m sz h = do {
        (m1, h) \<leftarrow> extendsbrk none sbrk sz h;
        if m1 \<noteq> NULL then
          (if lastsbrk h = fld Next m h then use_lastsbrk none m sz h else mv2lastsbrk none m sz h)
        else Some (NULL, h) }"
      unfolding r by (simp only: if_False if_True simp_thms)
    show ?thesis
    proof (rule extendsbrk_ok [OF i s, of sz])
      fix k assume "extendsbrk none sbrk sz h = Some (0, h)"
      then show ?thesis using fails by (simp add: r')
    next
      fix h1 B1 assume 2: "extendsbrk none sbrk sz h = Some (lastsbrk h1, h1)" "lastsbrk h1 \<noteq> 0" "nok none B1 {} h1"
        "used B1 {} h1 = used B {} h" "\<And>u. u \<in> used B {} h \<Longrightarrow> untouched u h h1" "sz + 24 \<le> fld Sz (lastsbrk h1) h1"
      have m1: "m \<in> used B1 {} h1" using 2(4) m by simp
      have z: "fld Sz m h1 \<le> sz" using 2(5) [OF m] sz(3) by (simp add: untouched_def)
      have z': "sz + 16 \<le> fld Sz (lastsbrk h1) h1" "sz + 16 \<le> fld Sz m h1 + fld Sz (lastsbrk h1) h1" using 2(6) by simp_all
      obtain m' h' where k: "(if lastsbrk h1 = fld Next m h1 then use_lastsbrk none m sz h1 else mv2lastsbrk none m sz h1) =
          Some (m', h')" "moves none B1 h1 m sz m' h'"
      proof (cases "lastsbrk h1 = fld Next m h1")
        case True
        show ?thesis by (rule use_lastsbrk_ok [OF 2(3) m1 sz(1,2) z True z'(2)]) (use that True in auto)
      next
        case False
        show ?thesis by (rule mv2lastsbrk_ok [OF 2(3) m1 sz(1,2) z z'(1)]) (use that False in auto)
      qed
      then show ?thesis
        using moves_after [OF k(2) 2(4) m 2(5)] 2(1,2) by (intro moves) (auto simp: r')
    qed
  qed
qed

lemma realloc_block_ok:
  assumes i: "nok none B {} h" and m: "m \<in> used B {} h" and s: "sbrk_ok none sbrk h" and sz: "24 \<le> sz" "sz mod 8 = 0"
  obtains (fails) "realloc_block none sbrk m sz h = Some (0, h)"
    | (moves) m' h' where "realloc_block none sbrk m sz h = Some (m', h')" "moves none B h m sz m' h'"
proof -
  have i': "hinv none B {} (view h) (freehdrs h)" using i by (simp add: nok_def)
  note d = usedD [OF m]
  have nb: "fld Next m h = 0 \<or> fld Next m h \<in> B" "fld Prev m h = 0 \<or> fld Prev m h \<in> B"
    using linkedD [OF i' d(1)] by auto
  have fr: "isfree none (fld Next m h) h \<longleftrightarrow> fld Next m h \<in> free_blocks B {} h"
      "isfree none (fld Prev m h) h \<longleftrightarrow> fld Prev m h \<in> free_blocks B {} h"
    using isfree_iff [OF i nb(1)] isfree_iff [OF i nb(2)] by auto
  note r = realloc_block_def [of none sbrk m sz h, unfolded fr]
  let ?hi = "fld Next m h \<in> free_blocks B {} h \<and> sz \<le> fld Sz m h + fld Sz (fld Next m h) h"
  let ?last = "lastsbrk h = fld Next m h \<and> sz + MINSAVE \<le> fld Sz m h + fld Sz (lastsbrk h) h"
  let ?lo = "fld Prev m h \<in> free_blocks B {} h \<and> sz \<le> fld Sz m h + fld Sz (fld Prev m h) h"
  let ?big = "sz > 2147483647 - 65536"
  consider (shrink) "sz \<le> fld Sz m h" | (big) "\<not> sz \<le> fld Sz m h" ?big
    | (hi) "\<not> sz \<le> fld Sz m h" "\<not> ?big" ?hi
    | (last) "\<not> sz \<le> fld Sz m h" "\<not> ?big" "\<not> ?hi" ?last
    | (lo) "\<not> sz \<le> fld Sz m h" "\<not> ?big" "\<not> ?hi" "\<not> ?last" ?lo
    | (other) "\<not> sz \<le> fld Sz m h" "\<not> ?big" "\<not> ?hi" "\<not> ?last" "\<not> ?lo"
    by blast
  then show ?thesis
  proof cases
    case shrink
    obtain h' B' where t: "trim none m sz h = Some (m, h')" "nok none B' {} h'" "used B' {} h' = used B {} h"
      "sz \<le> fld Sz m h'" "same_data m sz h h'" "\<And>u. u \<in> used B {} h - {m} \<Longrightarrow> untouched u h h'"
      by (rule trim_ok [OF i m sz shrink]) (rule that)
    then have "moves none B h m sz m h'" using m shrink by (intro moves_in_place [OF t(2)]) (auto simp: min_def)
    then show ?thesis using moves shrink t(1) by (simp add: r)
  next
    case big
    then show ?thesis using fails by (simp add: r)
  next
    case hi
    obtain h1 where c: "combinehi none m h = Some (m, h1)" "nok none (B - {fld Next m h}) {} h1"
      "free_blocks (B - {fld Next m h}) {} h1 = free_blocks B {} h - {fld Next m h}" "lastsbrk h1 = lastsbrk h"
      "fld Sz m h1 = fld Sz m h + fld Sz (fld Next m h) h" "same_data m (fld Sz m h) h h1"
      "\<And>u. u \<in> B - free_blocks B {} h - {m} \<Longrightarrow> untouched u h h1"
      by (rule combinehi_free [OF i d(1) disjI2 [OF d(5)] refl conjunct1 [OF hi(3)]]) (rule that)
    have U: "used (B - {fld Next m h}) {} h1 = used B {} h" unfolding used_def c(3,4) using hi(3) by auto
    have m1: "m \<in> used (B - {fld Next m h}) {} h1" "sz \<le> fld Sz m h1" using U m hi(3) c(5) by auto
    obtain h' B' where t: "trim none m sz h1 = Some (m, h')" "nok none B' {} h'" "used B' {} h' = used B {} h"
      "sz \<le> fld Sz m h'" "same_data m sz h1 h'" "\<And>u. u \<in> used B {} h - {m} \<Longrightarrow> untouched u h1 h'"
      by (rule trim_ok [OF c(2) m1(1) sz m1(2), unfolded U]) (rule that)
    have "same_data m (fld Sz m h) h h'"
      using same_data_trans [OF c(6) same_data_mono [OF t(5)]] hi(1) by simp
    moreover have "untouched u h h'" if "u \<in> used B {} h - {m}" for u
      using untouched_trans [OF c(7) t(6) [OF that]] that by (auto simp: used_def)
    ultimately have "moves none B h m sz m h'"
      using t m hi(1) by (intro moves_in_place [OF t(2)]) (auto simp: min_def)
    then show ?thesis using moves hi c(1) t(1) by (simp add: r)
  next
    case last
    have z: "fld Sz m h \<le> sz" "sz + 16 \<le> fld Sz m h + fld Sz (lastsbrk h) h"
      using last(1) conjunct2 [OF last(4)] unfolding MINSAVE_def ALIGN_def DATAOFFSET_def by linarith+
    show ?thesis
      by (rule use_lastsbrk_ok [OF i m sz z(1) conjunct1 [OF last(4)] z(2)]) 
        (rule moves, unfold r if_not_P [OF last(1)] if_not_P [OF last(2)] if_not_P [OF last(3)] if_P [OF last(4)])
  next
    case lo
    then have z: "fld Sz m h \<le> sz" by simp
    show ?thesis
      by (rule use_prev_ok [OF i m sz z refl conjunct1 [OF lo(5)] conjunct2 [OF lo(5)]]) 
        (rule moves, unfold r if_not_P [OF lo(1)] if_not_P [OF lo(2)] if_not_P [OF lo(3)] if_not_P [OF lo(4)] if_P [OF lo(5)])
  next
    case other
    then have z: "fld Sz m h \<le> sz" and r': "realloc_block none sbrk m sz h = realloc_elsewhere none sbrk m sz h"
      unfolding r if_not_P [OF other(1)] if_not_P [OF other(2)] if_not_P [OF other(3)] if_not_P [OF other(4)]
        if_not_P [OF other(5)] by simp_all
    show ?thesis
      by (rule realloc_elsewhere_ok [OF i m s sz z]) (use fails moves in \<open>auto simp: r'\<close>)
  qed
qed

end
