(* ===== verification/Allocator.thy ===== *)
theory Allocator
  imports Nmalloc_Props
begin

text \<open>
  What \<^verbatim>\<open>malloc\<close>, \<^verbatim>\<open>calloc\<close>, \<^verbatim>\<open>realloc\<close> and \<^verbatim>\<open>free\<close> of \<^verbatim>\<open>ansi/stdlib/nmalloc.c\<close> promise their callers, in terms of pointers and
  contents, and that the functions keep this promise for every program that uses them as documented.
\<close>

section \<open>Pointers and contents\<close>

definition heap_ok :: "nat \<Rightarrow> nat set \<Rightarrow> nheap \<Rightarrow> bool" where
  "heap_ok none P h \<longleftrightarrow> (\<exists>B. nok none B {} h \<and> P = PTR ` used B {} h)"

definition capacity :: "nat \<Rightarrow> nheap \<Rightarrow> nat" where
  "capacity p h = fld Sz (MEMBLKp p) h - DATAOFFSET"

definition contents :: "nat \<Rightarrow> nheap \<Rightarrow> byte list" where
  "contents p h = map (\<lambda>k. bytes h (p + k)) [0..<capacity p h]"

lemma ptr_simps [simp]: "MEMBLKp (PTR m) = m" "PTR m = PTR m' \<longleftrightarrow> m = m'" "PTR m \<noteq> 0" "inj PTR"
  by (auto simp: PTR_def MEMBLKp_def DATAOFFSET_def inj_on_def)

lemma length_contents [simp]: "length (contents p h) = capacity p h"
  by (simp add: contents_def)

lemma untouched_contents: "untouched u h h' \<Longrightarrow> contents (PTR u) h' = contents (PTR u) h"
  by (auto simp: untouched_def same_data_def contents_def capacity_def) (simp add: PTR_def less_diff_conv)

lemma image_PTR [simp]: "PTR ` (U - {m}) = PTR ` U - {PTR m}"
  by auto

lemma heap_okI: "nok none B {} h \<Longrightarrow> used B {} h = U \<Longrightarrow> heap_ok none (PTR ` U) h"
  by (auto simp: heap_ok_def)

text \<open>Pointers are aligned, and the areas behind two pointers are disjoint.\<close>

lemma heap_ok_areas:
  assumes "heap_ok none P h" "p \<in> P"
  shows "p \<noteq> 0" "p mod 8 = 0" "q \<in> P \<Longrightarrow> q \<noteq> p \<Longrightarrow> p + capacity p h \<le> q \<or> q + capacity q h \<le> p"
proof -
  obtain B where B: "nok none B {} h" "P = PTR ` used B {} h" using assms(1) by (auto simp: heap_ok_def)
  have i: "hinv none B {} (view h) (freehdrs h)" using B(1) by (simp add: nok_def)
  obtain m where m: "p = PTR m" "m \<in> B" using B(2) assms(2) by (auto simp: used_def)
  note g = hinv_geomD [OF i]
  show "p \<noteq> 0" "p mod 8 = 0" using m g(2) [OF m(2)] by (auto simp: PTR_def DATAOFFSET_def)
  show "p + capacity p h \<le> q \<or> q + capacity q h \<le> p" if "q \<in> P" "q \<noteq> p"
  proof -
    obtain k where k: "q = PTR k" "k \<in> B" using B(2) \<open>q \<in> P\<close> by (auto simp: used_def)
    have "k \<noteq> m" using m k that by auto
    then show ?thesis
      using g(3) [OF m(2)] g(7) [OF m(2) k(2)] g(3) [OF k(2)] g(7) [OF k(2) m(2)] m k
      by (cases k m rule: linorder_cases) (auto simp: capacity_def PTR_def MEMBLKp_def DATAOFFSET_def)
  qed
qed

lemma heap_ok_initial:
  assumes "none \<noteq> 0" "none < 2 ^ 32" "\<And>b. freehdrs h b = 0"
  shows "heap_ok none {} h"
proof -
  have "nok none {} {} h"
    using assms by (simp add: nok_def hinv_def clear_def geom_def linked_def listed_def frees_def last_ok_def)
  then show ?thesis using heap_okI [of none "{}" h "{}"] by (simp add: used_def)
qed

section \<open>The functions\<close>

lemma nmalloc_pointer:
  assumes "heap_ok none P h" "sbrk_ok none sbrk h" "nbytes \<le> 2 ^ 32 - 24"
  obtains (refused) "nmalloc none sbrk nbytes h = Some (0, h)"
      "nbytes < 2147418000 \<Longrightarrow> \<exists>k \<le> nbytes + 1080. sbrk k = None"
    | (given) p h' where "nmalloc none sbrk nbytes h = Some (p, h')" "p \<notin> P" "heap_ok none (insert p P) h'"
        "nbytes \<le> capacity p h'" "\<And>q. q \<in> P \<Longrightarrow> contents q h' = contents q h"
proof -
  obtain B where B: "nok none B {} h" "P = PTR ` used B {} h" using assms(1) by (auto simp: heap_ok_def)
  have b: "roundup (if nbytes = 0 then 1 else nbytes) \<le> nbytes + 24"
    using roundup_bounds(4) [of "if nbytes = 0 then 1 else nbytes"] assms(3) by (auto split: if_splits)
  show ?thesis
  proof (rule nmalloc_block [OF B(1) assms(2,3)])
    assume f: "nmalloc none sbrk nbytes h = Some (0, h)"
      "roundup (if nbytes = 0 then 1 else nbytes) < 2147483647 - 65536 \<Longrightarrow>
        \<exists>k \<le> roundup (if nbytes = 0 then 1 else nbytes) + 1040. sbrk k = None"
    show ?thesis
    proof (rule refused [OF f(1)])
      assume "nbytes < 2147418000"
      then obtain k where "k \<le> roundup (if nbytes = 0 then 1 else nbytes) + 1040" "sbrk k = None" using b f(2) by auto
      then show "\<exists>k \<le> nbytes + 1080. sbrk k = None" using b by (intro exI [of _ k]) simp
    qed
  next
    fix m h' assume g: "nmalloc none sbrk nbytes h = Some (PTR m, h')"
      "gives none B h (roundup (if nbytes = 0 then 1 else nbytes)) m h'"
    have r: "nbytes + 16 \<le> roundup (if nbytes = 0 then 1 else nbytes)"
      using roundup_bounds(1) [of "if nbytes = 0 then 1 else nbytes"] assms(3) by (auto split: if_splits)
    obtain B' where B': "nok none B' {} h'" "m \<notin> used B {} h" "used B' {} h' = insert m (used B {} h)"
      using g(2) by (auto simp: gives_def)
    show ?thesis
    proof (rule given [OF g(1)])
      show "heap_ok none (insert (PTR m) P) h'" using heap_okI [OF B'(1,3)] B(2) by simp
      show "PTR m \<notin> P" using B'(2) B(2) by auto
      show "nbytes \<le> capacity (PTR m) h'" using g(2) r by (auto simp: gives_def capacity_def DATAOFFSET_def)
      show "contents q h' = contents q h" if "q \<in> P" for q
        using g(2) that B(2) by (auto simp: gives_def intro!: untouched_contents)
    qed
  qed
qed

lemma nfree_pointer:
  assumes "heap_ok none P h" "p \<in> P"
  obtains h' where "nfree none p h = Some h'" "heap_ok none (P - {p}) h'"
    "\<And>q. q \<in> P - {p} \<Longrightarrow> contents q h' = contents q h"
proof -
  obtain B where B: "nok none B {} h" "P = PTR ` used B {} h" using assms(1) by (auto simp: heap_ok_def)
  obtain m where m: "p = PTR m" "m \<in> used B {} h" using B(2) assms(2) by auto
  obtain h' B' where f: "nfree none (PTR m) h = Some h'" "nok none B' {} h'" "used B' {} h' = used B {} h - {m}"
    "\<And>u. u \<in> used B {} h - {m} \<Longrightarrow> untouched u h h'"
    by (rule nfree_ok [OF B(1) m(2)]) (rule that)
  show ?thesis
    using f B(2) m heap_okI [OF f(2,3)] by (intro that [of h']) (auto intro!: untouched_contents)
qed

lemma nrealloc_pointer:
  assumes "heap_ok none P h" "p \<in> P" "sbrk_ok none sbrk h" "nbytes \<le> 2 ^ 32 - 24"
  obtains (refused) "nrealloc none sbrk p nbytes h = Some (0, h)"
    | (given) p' h' where "nrealloc none sbrk p nbytes h = Some (p', h')" "p' \<notin> P - {p}" "heap_ok none (insert p' (P - {p})) h'"
        "nbytes \<le> capacity p' h'" "\<And>q. q \<in> P - {p} \<Longrightarrow> contents q h' = contents q h"
        "take (min nbytes (capacity p h)) (contents p' h') = take (min nbytes (capacity p h)) (contents p h)"
proof -
  obtain B where B: "nok none B {} h" "P = PTR ` used B {} h" using assms(1) by (auto simp: heap_ok_def)
  obtain m where m: "p = PTR m" "m \<in> used B {} h" using B(2) assms(2) by auto
  define sz where "sz = roundup (if nbytes = 0 then 1 else nbytes)"
  have r: "nbytes + 16 \<le> sz" "24 \<le> sz" "sz mod 8 = 0"
    using roundup_bounds [of "if nbytes = 0 then 1 else nbytes"] assms(4) by (auto simp: sz_def split: if_splits)
  have nr: "nrealloc none sbrk p nbytes h =
      do { (m, h) \<leftarrow> realloc_block none sbrk m sz h; Some (if m \<noteq> NULL then PTR m else NULL, h) }"
    using used_last [OF B(1) m(2)] usedD(5) [OF m(2)]
    by (simp add: nrealloc_def m(1) sz_def isfree_def fouled_def Let_def)
  show ?thesis
  proof (rule realloc_block_ok [OF B(1) m(2) assms(3) r(2,3)])
    assume "realloc_block none sbrk m sz h = Some (0, h)"
    then show ?thesis using refused by (simp add: nr)
  next
    fix m' h' assume g: "realloc_block none sbrk m sz h = Some (m', h')" "moves none B h m sz m' h'"
    obtain B' where B': "nok none B' {} h'" "m' \<notin> used B {} h - {m}" "used B' {} h' = insert m' (used B {} h - {m})"
      using g(2) by (auto simp: moves_def)
    have "m' \<in> B'" using B'(3) usedD(1) by blast
    then have m0: "m' \<noteq> 0" using hinv_geomD(1) [of none B' "{}" "view h'" "freehdrs h'" m'] B'(1) by (simp add: nok_def)
    have c: "nbytes \<le> capacity (PTR m') h'" using g(2) r(1) by (auto simp: moves_def capacity_def DATAOFFSET_def)
    show ?thesis
    proof (rule given)
      show "nrealloc none sbrk p nbytes h = Some (PTR m', h')" using m0 by (simp add: nr g(1))
      show "heap_ok none (insert (PTR m') (P - {p})) h'" using heap_okI [OF B'(1,3)] B(2) m(1) by simp
      show "PTR m' \<notin> P - {p}" using B'(2) B(2) m(1) by auto
      show "nbytes \<le> capacity (PTR m') h'" by (rule c)
      show "contents q h' = contents q h" if "q \<in> P - {p}" for q
        using g(2) that B(2) m(1) by (auto simp: moves_def intro!: untouched_contents)
      have "bytes h' (PTR m' + k) = bytes h (PTR m + k)" if "k < nbytes" "k < capacity p h" for k
        using g(2) that r(1) m(1) by (auto simp: moves_def capacity_def DATAOFFSET_def)
      then show "take (min nbytes (capacity p h)) (contents (PTR m') h') = take (min nbytes (capacity p h)) (contents p h)"
        using c m(1) by (intro nth_equalityI) (auto simp: contents_def)
    qed
  qed
qed

lemma ncalloc_pointer:
  assumes "heap_ok none P h" "sbrk_ok none sbrk h" "n * s \<le> 2 ^ 32 - 24"
  obtains (refused) "ncalloc none sbrk n s h = Some (0, h)"
      "n * (s + 1) < 2147418000 \<Longrightarrow> \<exists>k \<le> n * s + 1080. sbrk k = None"
    | (given) p h' where "ncalloc none sbrk n s h = Some (p, h')" "p \<notin> P" "heap_ok none (insert p P) h'"
        "n * s \<le> capacity p h'" "\<And>q. q \<in> P \<Longrightarrow> contents q h' = contents q h" "take (n * s) (contents p h') = replicate (n * s) 0"
proof (cases "n = 0 \<or> (2 ^ 32 - 1) div n > s")
  case False
  have "\<not> n * (s + 1) < 2147418000"
  proof
    assume "n * (s + 1) < 2147418000"
    then have "(s + 1) * n \<le> 2 ^ 32 - 1" by (simp add: mult.commute)
    then have "s + 1 \<le> (2 ^ 32 - 1) div n" using False by (subst less_eq_div_iff_mult_less_eq) auto
    then show False using False by simp
  qed
  then show ?thesis using False by (intro refused) (auto simp: ncalloc_def)
next
  case True
  have m: "n * s mod 4294967296 = n * s" using assms(3) by simp
  show ?thesis
  proof (rule nmalloc_pointer [OF assms])
    assume f: "nmalloc none sbrk (n * s) h = Some (0, h)" "n * s < 2147418000 \<Longrightarrow> \<exists>k \<le> n * s + 1080. sbrk k = None"
    show ?thesis
    proof (rule refused)
      show "ncalloc none sbrk n s h = Some (0, h)" using f(1) True by (auto simp: ncalloc_def m Let_def)
      show "\<exists>k \<le> n * s + 1080. sbrk k = None" if "n * (s + 1) < 2147418000" using f(2) that by simp
    qed
  next
    fix p h1 assume g: "nmalloc none sbrk (n * s) h = Some (p, h1)" "p \<notin> P" "heap_ok none (insert p P) h1"
      "n * s \<le> capacity p h1" "\<And>q. q \<in> P \<Longrightarrow> contents q h1 = contents q h"
    obtain B where B: "nok none B {} h1" "insert p P = PTR ` used B {} h1" using g(3) by (auto simp: heap_ok_def)
    then obtain u where u: "p = PTR u" "u \<in> used B {} h1" by auto
    define h' where "h' = h1\<lparr>bytes := \<lambda>a. if p \<le> a \<and> a < p + n * s then 0 else bytes h1 a\<rparr>"
    have w: "bytes h' a = bytes h1 a" if "\<not> in_data {u} h1 a" for a
      using that g(4) u(1) by (auto simp: h'_def in_data_def capacity_def PTR_def MEMBLKp_def DATAOFFSET_def)
    have d: "nok none B {} h'" "used B {} h' = used B {} h1" "\<And>x. x \<in> used B {} h1 - {u} \<Longrightarrow> untouched x h1 h'"
        "fld Sz u h' = fld Sz u h1"
      using data_writes [OF B(1), of "{u}" h'] w u(2) by (auto simp: h'_def)
    have c: "capacity p h' = capacity p h1" using d(4) u(1) by (simp add: capacity_def)
    show ?thesis
    proof (rule given)
      show "ncalloc none sbrk n s h = Some (p, h')" using True g(1) u(1) by (auto simp: ncalloc_def m h'_def Let_def)
      show "heap_ok none (insert p P) h'" using heap_okI [OF d(1,2)] B(2) by simp
      show "n * s \<le> capacity p h'" using g(4) c by simp
      show "contents q h' = contents q h" if q: "q \<in> P" for q
      proof -
        obtain x where "q = PTR x" "x \<in> used B {} h1 - {u}" using q B(2) g(2) u(1) by blast
        then show ?thesis using untouched_contents [OF d(3)] g(5) [OF q] by simp
      qed
      show "take (n * s) (contents p h') = replicate (n * s) 0"
        using g(4) c by (intro nth_equalityI) (auto simp: contents_def h'_def)
    qed (rule g(2))
  qed
qed

section \<open>Programs\<close>

text \<open>
  The requests of a program, among them a store to memory it was given; what a request may be, and what may come of
  it, for a memory that is a map from pointers to contents.
\<close>

datatype request = Malloc nat | Calloc nat nat | Realloc nat nat | Free nat | Store nat nat byte

type_synonym areas = "nat \<rightharpoonup> byte list"

fun request_step :: "nat \<Rightarrow> (nheap \<Rightarrow> nat \<Rightarrow> nat option) \<Rightarrow> request \<Rightarrow> nheap \<Rightarrow> (nat \<times> nheap) option" where
  "request_step none sbrk (Malloc n) h = nmalloc none (sbrk h) n h"
| "request_step none sbrk (Calloc n s) h = ncalloc none (sbrk h) n s h"
| "request_step none sbrk (Realloc p n) h = nrealloc none (sbrk h) p n h"
| "request_step none sbrk (Free p) h = map_option (Pair NULL) (nfree none p h)"
| "request_step none sbrk (Store p k v) h = Some (NULL, h\<lparr>bytes := (bytes h)(p + k := v)\<rparr>)"

fun legal :: "request \<Rightarrow> areas \<Rightarrow> bool" where
  "legal (Malloc n) a \<longleftrightarrow> n \<le> 2 ^ 32 - 24"
| "legal (Calloc n s) a \<longleftrightarrow> n * s \<le> 2 ^ 32 - 24"
| "legal (Realloc p n) a \<longleftrightarrow> n \<le> 2 ^ 32 - 24 \<and> (p = NULL \<or> a p \<noteq> None)"
| "legal (Free p) a \<longleftrightarrow> p = NULL \<or> a p \<noteq> None"
| "legal (Store p k v) a \<longleftrightarrow> (case a p of None \<Rightarrow> False | Some c \<Rightarrow> k < length c)"

definition fresh :: "areas \<Rightarrow> nat \<Rightarrow> bool" where
  "fresh a r \<longleftrightarrow> r \<noteq> NULL \<and> r mod 8 = 0 \<and> a r = None"

fun outcome :: "request \<Rightarrow> areas \<Rightarrow> nat \<Rightarrow> areas \<Rightarrow> bool" where
  "outcome (Malloc n) a r a' \<longleftrightarrow> r = NULL \<and> a' = a \<or> fresh a r \<and> (\<exists>c. n \<le> length c \<and> a' = a(r \<mapsto> c))"
| "outcome (Calloc n s) a r a' \<longleftrightarrow> r = NULL \<and> a' = a \<or>
     fresh a r \<and> (\<exists>c. n * s \<le> length c \<and> take (n * s) c = replicate (n * s) 0 \<and> a' = a(r \<mapsto> c))"
| "outcome (Realloc p n) a r a' \<longleftrightarrow> r = NULL \<and> a' = a \<or>
     fresh (a(p := None)) r \<and> (\<exists>c. n \<le> length c \<and> a' = a(p := None, r \<mapsto> c) \<and>
       (\<forall>d. a p = Some d \<longrightarrow> take (min n (length d)) c = take (min n (length d)) d))"
| "outcome (Free p) a r a' \<longleftrightarrow> r = NULL \<and> a' = a(p := None)"
| "outcome (Store p k v) a r a' \<longleftrightarrow> r = NULL \<and> a' = a(p \<mapsto> (the (a p))[k := v])"

definition areas_of :: "nat set \<Rightarrow> nheap \<Rightarrow> areas" where
  "areas_of P h p = (if p \<in> P then Some (contents p h) else None)"

lemma areas_of_insert:
  assumes "\<And>q. q \<in> P - {p} \<Longrightarrow> contents q h' = contents q h"
  shows "areas_of (insert p P) h' = (areas_of P h)(p \<mapsto> contents p h')"
  using assms by (auto simp: areas_of_def)

lemma areas_of_remove:
  assumes "\<And>q. q \<in> P - {p} \<Longrightarrow> contents q h' = contents q h"
  shows "areas_of (P - {p}) h' = (areas_of P h)(p := None)"
  using assms by (auto simp: areas_of_def)

lemma areas_of_insert_remove:
  assumes "\<And>q. q \<in> P - {p} \<Longrightarrow> contents q h' = contents q h" "p' \<notin> P - {p}"
  shows "areas_of (insert p' (P - {p})) h' = (areas_of P h)(p := None, p' \<mapsto> contents p' h')"
  using assms by (auto simp: areas_of_def)

lemma areas_of_NULL:
  assumes "heap_ok none P h"
  shows "areas_of P h 0 = None" "(areas_of P h)(0 := None) = areas_of P h"
proof -
  have "0 \<notin> P" using heap_ok_areas(1) [OF assms, of 0] by blast
  then show "areas_of P h 0 = None" by (simp add: areas_of_def)
  then show "(areas_of P h)(0 := None) = areas_of P h" by (intro fun_upd_idem)
qed

lemma malloc_step:
  assumes ok: "heap_ok none P h" and s: "sbrk_ok none sbrk h" and n: "n \<le> 2 ^ 32 - 24"
  shows "\<exists>r h' P'. nmalloc none sbrk n h = Some (r, h') \<and> outcome (Malloc n) (areas_of P h) r (areas_of P' h') \<and> heap_ok none P' h'"
proof (rule nmalloc_pointer [OF ok s n])
  assume "nmalloc none sbrk n h = Some (0, h)"
  then show ?thesis using ok by auto
next
  fix p h' assume g: "nmalloc none sbrk n h = Some (p, h')" "p \<notin> P" "heap_ok none (insert p P) h'"
    "n \<le> capacity p h'" "\<And>q. q \<in> P \<Longrightarrow> contents q h' = contents q h"
  have "fresh (areas_of P h) p" using heap_ok_areas [OF g(3)] g(2) by (auto simp: fresh_def areas_of_def)
  moreover have "areas_of (insert p P) h' = (areas_of P h)(p \<mapsto> contents p h')" using g(5) by (intro areas_of_insert) auto
  moreover have "n \<le> length (contents p h')" using g(4) by simp
  ultimately show ?thesis using g(1,3) by (auto simp del: length_contents intro!: exI [of _ p] exI [of _ h'] exI [of _ "insert p P"])
qed

lemma calloc_step:
  assumes ok: "heap_ok none P h" and s: "sbrk_ok none sbrk h" and n: "n * k \<le> 2 ^ 32 - 24"
  shows "\<exists>r h' P'. ncalloc none sbrk n k h = Some (r, h') \<and> outcome (Calloc n k) (areas_of P h) r (areas_of P' h') \<and> heap_ok none P' h'"
proof (rule ncalloc_pointer [OF ok s n])
  assume "ncalloc none sbrk n k h = Some (0, h)"
  then show ?thesis using ok by auto
next
  fix p h' assume g: "ncalloc none sbrk n k h = Some (p, h')" "p \<notin> P" "heap_ok none (insert p P) h'"
    "n * k \<le> capacity p h'" "\<And>q. q \<in> P \<Longrightarrow> contents q h' = contents q h" "take (n * k) (contents p h') = replicate (n * k) 0"
  have "fresh (areas_of P h) p" using heap_ok_areas [OF g(3)] g(2) by (auto simp: fresh_def areas_of_def)
  moreover have "areas_of (insert p P) h' = (areas_of P h)(p \<mapsto> contents p h')" using g(5) by (intro areas_of_insert) auto
  moreover have "n * k \<le> length (contents p h')" using g(4) by simp
  ultimately show ?thesis
    using g(1,3,6) by (auto simp del: length_contents intro!: exI [of _ p] exI [of _ h'] exI [of _ "insert p P"])
qed

lemma realloc_step:
  assumes ok: "heap_ok none P h" and s: "sbrk_ok none sbrk h" and n: "n \<le> 2 ^ 32 - 24" and p: "p \<in> P"
  shows "\<exists>r h' P'. nrealloc none sbrk p n h = Some (r, h') \<and> outcome (Realloc p n) (areas_of P h) r (areas_of P' h') \<and> heap_ok none P' h'"
proof (rule nrealloc_pointer [OF ok p s n])
  assume "nrealloc none sbrk p n h = Some (0, h)"
  then show ?thesis using ok by auto
next
  fix p' h' assume g: "nrealloc none sbrk p n h = Some (p', h')" "p' \<notin> P - {p}" "heap_ok none (insert p' (P - {p})) h'"
    "n \<le> capacity p' h'" "\<And>q. q \<in> P - {p} \<Longrightarrow> contents q h' = contents q h"
    "take (min n (capacity p h)) (contents p' h') = take (min n (capacity p h)) (contents p h)"
  have "fresh ((areas_of P h)(p := None)) p'" using heap_ok_areas [OF g(3)] g(2) by (auto simp: fresh_def areas_of_def)
  moreover have "areas_of (insert p' (P - {p})) h' = (areas_of P h)(p := None, p' \<mapsto> contents p' h')"
    using g(2,5) by (intro areas_of_insert_remove) auto
  moreover have "n \<le> length (contents p' h')" "areas_of P h p = Some (contents p h)" using g(4) p by (auto simp: areas_of_def)
  ultimately show ?thesis using g(1,3,6) by (intro exI [of _ p'] exI [of _ h'] exI [of _ "insert p' (P - {p})"]) auto
qed

lemma free_step:
  assumes ok: "heap_ok none P h" and p: "p = NULL \<or> p \<in> P"
  shows "\<exists>h' P'. nfree none p h = Some h' \<and> areas_of P' h' = (areas_of P h)(p := None) \<and> heap_ok none P' h'"
proof (cases "p = NULL")
  case True
  then show ?thesis using areas_of_NULL(2) [OF ok] ok by (auto simp: nfree_def)
next
  case False
  then have "p \<in> P" using p by simp
  then show ?thesis by (rule nfree_pointer [OF ok]) (use areas_of_remove in blast)
qed

lemma store_step:
  fixes v :: byte
  assumes ok: "heap_ok none P h" and p: "p \<in> P" "k < capacity p h"
  defines "h' \<equiv> h\<lparr>bytes := (bytes h)(p + k := v)\<rparr>"
  shows "heap_ok none P h'" "areas_of P h' = (areas_of P h)(p \<mapsto> (contents p h)[k := v])"
proof -
  obtain B where B: "nok none B {} h" "P = PTR ` used B {} h" using ok by (auto simp: heap_ok_def)
  obtain u where u: "p = PTR u" "u \<in> used B {} h" using B(2) p(1) by auto
  have w: "bytes h' a = bytes h a" if "\<not> in_data {u} h a" for a
    using that p(2) u(1) by (auto simp: h'_def in_data_def capacity_def PTR_def MEMBLKp_def DATAOFFSET_def)
  have d: "nok none B {} h'" "used B {} h' = used B {} h" "\<And>x. x \<in> used B {} h - {u} \<Longrightarrow> untouched x h h'"
      "fld Sz u h' = fld Sz u h"
    using data_writes [OF B(1), of "{u}" h'] w u(2) by (auto simp: h'_def)
  show "heap_ok none P h'" using heap_okI [OF d(1,2)] B(2) by simp
  have "contents p h' = (contents p h)[k := v]"
    using d(4) u(1) by (intro nth_equalityI) (auto simp: contents_def capacity_def h'_def nth_list_update)
  moreover have "contents q h' = contents q h" if "q \<in> P" "q \<noteq> p" for q
    using that B(2) u(1) untouched_contents [OF d(3)] by auto
  ultimately show "areas_of P h' = (areas_of P h)(p \<mapsto> (contents p h)[k := v])"
    using p(1) by (auto simp: areas_of_def)
qed

lemma request_simulated:
  assumes ok: "heap_ok none P h" and s: "sbrk_ok none (sbrk h) h" and l: "legal req (areas_of P h)"
  shows "\<exists>r h' P'. request_step none sbrk req h = Some (r, h') \<and> outcome req (areas_of P h) r (areas_of P' h') \<and> heap_ok none P' h'"
proof (cases req)
  case (Malloc n)
  then show ?thesis using malloc_step [OF ok s] l by simp
next
  case (Calloc n k)
  then show ?thesis using calloc_step [OF ok s] l by simp
next
  case (Realloc p n)
  show ?thesis
  proof (cases "p = NULL")
    case True
    then show ?thesis using malloc_step [OF ok s, of n] l Realloc areas_of_NULL [OF ok] by (simp add: nrealloc_def)
  next
    case False
    then have "p \<in> P" using l Realloc by (auto simp: areas_of_def split: if_splits)
    then show ?thesis using realloc_step [OF ok s] l Realloc by simp
  qed
next
  case (Free p)
  then have "p = NULL \<or> p \<in> P" using l by (auto simp: areas_of_def split: if_splits)
  then show ?thesis using free_step [OF ok] Free by fastforce
next
  case (Store p k v)
  then have p: "p \<in> P" "k < capacity p h" using l by (auto simp: areas_of_def split: if_splits)
  then show ?thesis using store_step [OF ok p, of v] Store by (auto simp: areas_of_def)
qed

section \<open>Runs\<close>

text \<open>
  A client chooses each request from the answers it had so far. \<open>client_run\<close> is what it does to the heap;
  \<open>spec_run\<close> are the runs that the specification allows.
\<close>

primrec client_run :: "('q \<Rightarrow> 'h \<Rightarrow> ('r \<times> 'h) option) \<Rightarrow> ('r list \<Rightarrow> 'q) \<Rightarrow> nat \<Rightarrow> 'h \<Rightarrow> ('r list \<times> 'h) option" where
  "client_run step c 0 h = Some ([], h)"
| "client_run step c (Suc n) h = do {
     (rs, h) \<leftarrow> client_run step c n h;
     (r, h) \<leftarrow> step (c rs) h;
     Some (rs @ [r], h)
   }"

inductive spec_run :: "('q \<Rightarrow> 'a \<Rightarrow> 'r \<Rightarrow> 'a \<Rightarrow> bool) \<Rightarrow> ('r list \<Rightarrow> 'q) \<Rightarrow> 'a \<Rightarrow> 'r list \<Rightarrow> 'a \<Rightarrow> bool"
  for spec c a0 where
  start: "spec_run spec c a0 [] a0"
| request: "spec_run spec c a0 rs a \<Longrightarrow> spec (c rs) a r a' \<Longrightarrow> spec_run spec c a0 (rs @ [r]) a'"

inductive_cases spec_run_NilE: "spec_run spec c a0 [] a"

inductive_cases spec_run_snocE: "spec_run spec c a0 (rs @ [r]) a"

definition well_behaved :: "('q \<Rightarrow> 'a \<Rightarrow> bool) \<Rightarrow> ('q \<Rightarrow> 'a \<Rightarrow> 'r \<Rightarrow> 'a \<Rightarrow> bool) \<Rightarrow> ('r list \<Rightarrow> 'q) \<Rightarrow> 'a \<Rightarrow> bool" where
  "well_behaved lgl spec c a0 \<longleftrightarrow> (\<forall>rs a. spec_run spec c a0 rs a \<longrightarrow> lgl (c rs) a)"

text \<open>
  The interface: a server whose single steps follow a specification. A client that is well behaved for the
  specification is served to the end.
\<close>

locale served =
  fixes step :: "'q \<Rightarrow> 'h \<Rightarrow> ('r \<times> 'h) option"
    and lgl :: "'q \<Rightarrow> 'a \<Rightarrow> bool"
    and spec :: "'q \<Rightarrow> 'a \<Rightarrow> 'r \<Rightarrow> 'a \<Rightarrow> bool"
    and sim :: "'h \<Rightarrow> 'a \<Rightarrow> bool"
  assumes step_sim: "sim h a \<Longrightarrow> lgl q a \<Longrightarrow> \<exists>r h' a'. step q h = Some (r, h') \<and> spec q a r a' \<and> sim h' a'"
begin

lemma run_sim:
  assumes "sim h a" "well_behaved lgl spec c a"
  shows "\<exists>rs h' a'. client_run step c n h = Some (rs, h') \<and> length rs = n \<and> spec_run spec c a rs a' \<and> sim h' a'"
proof (induction n)
  case 0
  then show ?case using assms(1) by (auto intro: spec_run.start)
next
  case (Suc n)
  then obtain rs h1 a1 where r: "client_run step c n h = Some (rs, h1)" "length rs = n" "spec_run spec c a rs a1" "sim h1 a1"
    by auto
  then have "lgl (c rs) a1" using assms(2) by (simp add: well_behaved_def)
  from step_sim [OF r(4) this] obtain x h' a' where "step (c rs) h1 = Some (x, h')" "spec (c rs) a1 x a'" "sim h' a'" by auto
  then show ?case using r by (auto intro: spec_run.request)
qed

end

text \<open>The allocator on top of an \<^verbatim>\<open>sbrk\<close> that keeps its promise.\<close>

definition areas_sim :: "nat \<Rightarrow> nheap \<Rightarrow> areas \<Rightarrow> bool" where
  "areas_sim none h a \<longleftrightarrow> (\<exists>P. heap_ok none P h \<and> a = areas_of P h)"

text \<open>
  To make the interface an instance without assumptions, \<open>guarded\<close> refuses an answer of \<^verbatim>\<open>sbrk\<close> that would break its
  promise; it is the identity on one that keeps it.
\<close>

definition guarded :: "nat \<Rightarrow> (nheap \<Rightarrow> nat \<Rightarrow> nat option) \<Rightarrow> nheap \<Rightarrow> nat \<Rightarrow> nat option" where
  "guarded none sbrk h = (if sbrk_ok none (sbrk h) h then sbrk h else (\<lambda>n. None))"

lemma guarded_ok: "sbrk_ok none (guarded none sbrk h) h"
  by (auto simp: guarded_def sbrk_ok_def)

lemma guarded_id: "(\<And>h. sbrk_ok none (sbrk h) h) \<Longrightarrow> guarded none sbrk = sbrk"
  by (auto simp: guarded_def)

interpretation heap_server: served "request_step none (guarded none sbrk)" legal outcome "areas_sim none"
proof
  fix h a q assume "areas_sim none h a" "legal q a"
  then obtain P where "heap_ok none P h" "a = areas_of P h" "legal q (areas_of P h)" by (auto simp: areas_sim_def)
  then show "\<exists>r h' a'. request_step none (guarded none sbrk) q h = Some (r, h') \<and> outcome q a r a' \<and> areas_sim none h' a'"
    using request_simulated [of none P h "guarded none sbrk" q] guarded_ok by (fastforce simp: areas_sim_def)
qed

section \<open>Freeing twice\<close>

text \<open>A pointer to the block that \<^verbatim>\<open>sbrk\<close> extends is freed like any other.\<close>

lemma nfree_last:
  assumes i: "nok none B {} h" and L: "lastsbrk h \<noteq> 0" "\<not> isfree none (fld Prev (lastsbrk h) h) h"
  obtains h' where "nfree none (PTR (lastsbrk h)) h = Some h'" "lastsbrk h' = lastsbrk h" "fld NextFree (lastsbrk h) h' \<noteq> 0"
proof -
  let ?m = "lastsbrk h"
  have i': "hinv none B {} (view h) (freehdrs h)" using i by (simp add: nok_def)
  have LB: "?m \<in> B" using i' L(1) by (auto simp: hinv_def last_ok_def)
  note l = hinv_last [OF i' LB]
  note fs = fld_setf [OF nok_spaced [OF i]]
  have n: "none < 2 ^ 32" "none \<noteq> 0" using i' by (auto simp: hinv_def)
  define h0 where "h0 = setf NextFree ?m none (setf PrevFree ?m none h)"
  have v: "fld f x h0 = (if x = ?m \<and> (f = NextFree \<or> f = PrevFree) then none else fld f x h)" if "x \<in> B" for x f
    using that LB n by (auto simp: h0_def fs)
  have p: "fld Prev ?m h = 0 \<or> fld Prev ?m h \<in> B \<and> fld Prev ?m h \<noteq> ?m"
    using linkedD(2) [OF i' LB] l(3) L(1) by auto
  have np: "\<not> isfree none (fld Prev ?m h0) h0"
    using L(2) p v [OF LB, of Prev] v [of "fld Prev ?m h"] by (auto simp: isfree_def)
  have nx: "fld Next ?m h0 = 0" "lastsbrk h0 = ?m" "fld Prev ?m h0 \<noteq> ?m"
    using v [OF LB] l(3) p L(1) by (auto simp: h0_def)
  let ?h = "link_free none ?m h0"
  have z: "fld Sz ?m h0 \<noteq> 0" using v [OF LB, of Sz] hinv_geomD(3) [OF i' LB] by simp
  have "dofree none ?m h = Some ?h"
    using nx np L(1) unfolding dofree_def Let_def h0_def [symmetric] by (auto simp: isfree_def mv2freelist_def)
  then have "nfree none (PTR ?m) h = Some ?h"
    using l(2) L(1) by (simp add: nfree_def isfree_def fouled_def)
  moreover have "lastsbrk ?h = ?m" "fld NextFree ?m ?h \<noteq> 0"
  proof -
    define b where "b = size2bucket (fld Sz ?m h0)"
    have b: "b \<noteq> 0" using z size2bucket_0 by (simp add: b_def)
    obtain k where k: "freehdrs h0 b = k" by blast
    have kk: "k = 0 \<or> k \<in> B" using headsD(1) [OF i', of b] b k freesD(1) [OF i'] by (auto simp: h0_def)
    have kb: "k < 2 ^ 32" using kk hinv_geomD(5) [OF i', of k] by auto
    have mb: "?m < 2 ^ 32" using hinv_geomD(5) [OF i' LB] by simp
    show "lastsbrk ?h = ?m" using b nx(2) by (simp add: link_free_def Let_def b_def [symmetric])
    show "fld NextFree ?m ?h \<noteq> 0"
      using b kk kb mb LB n by (auto simp: link_free_def Let_def b_def [symmetric] k fs)
  qed
  ultimately show ?thesis by (rule that)
qed

text \<open>Freeing the topmost block joins it to the block that \<^verbatim>\<open>sbrk\<close> extends, which it replaces.\<close>

lemma nfree_topmost:
  assumes i: "nok none B {} h" and m: "m \<in> used B {} h" "fld Next m h = lastsbrk h" "\<not> isfree none (fld Prev m h) h"
  obtains h' B' where "nfree none (PTR m) h = Some h'" "nok none B' {} h'" "lastsbrk h' = m" "\<not> isfree none (fld Prev m h') h'"
proof -
  note d = usedD [OF m(1)]
  have i': "hinv none B {} (view h) (freehdrs h)" using i by (simp add: nok_def)
  note L = used_last [OF i m(1)]
  have LB: "lastsbrk h \<in> B" using i' L by (auto simp: hinv_def last_ok_def)
  note l = hinv_last [OF i' LB]
  define h0 where "h0 = setf NextFree m none (setf PrevFree m none h)"
  note k = mark_ok [OF i m(1), folded h0_def]
  have i0: "hinv none B {m} (view h0) (freehdrs h0)" using k(1) by (simp add: nok_def)
  note fs = fld_setf [OF nok_spaced [OF i]]
  have n: "none < 2 ^ 32" "none \<noteq> 0" using i' by (auto simp: hinv_def)
  have v: "fld f x h0 = (if x = m \<and> (f = NextFree \<or> f = PrevFree) then none else fld f x h)" if "x \<in> B" for x f
    using that d(1) n by (auto simp: h0_def fs)
  have nx: "fld Next m h0 = lastsbrk h0" "lastsbrk h0 = lastsbrk h" "fld NextFree (lastsbrk h) h0 = 0"
    using v [OF d(1), of Next] v [OF LB, of NextFree] m(2) d(3) l(2) k(3) by auto
  obtain p where p: "fld Prev m h = p" by blast
  have pp: "p = 0 \<or> p \<in> B \<and> p \<noteq> m \<and> p \<noteq> lastsbrk h"
    using linkedD(2) [OF i' d(1)] p m(2) d(1,3) l(3) hinv_geomD(1) [OF i' d(1)] by auto
  have pm: "fld Prev m h0 = p" using v [OF d(1), of Prev] p by simp
  have np: "\<not> isfree none p h0"
    using m(3) p pp v [of p] by (auto simp: isfree_def)
  let ?k = "\<lambda>h. setf NextFree m 0 (setf PrevFree m 0 h)"
  have L0: "lastsbrk h0 \<noteq> 0" using L k(3) by simp
  obtain h1 where c: "combinehi none m h0 = Some (m, h1)" "nok none (B - {lastsbrk h0}) ({m} - {m}) (?k (sethdr 0 m h1))"
      "free_blocks (B - {lastsbrk h0}) ({m} - {m}) (?k (sethdr 0 m h1)) = free_blocks B {m} h0"
      "lastsbrk (?k (sethdr 0 m h1)) = m" "fld Prev m (?k (sethdr 0 m h1)) = fld Prev m h0"
    by (rule combinehi_last [OF k(1) d(1) disjI1 [OF singletonI] nx(1) L0 refl, of ?k]) (auto intro: that)
  let ?h = "?k (sethdr 0 m h1)" and ?B = "B - {lastsbrk h0}"
  have m0: "m \<noteq> 0" using hinv_geomD(1) [OF i' d(1)] by simp
  have "dofree none m h = Some ?h"
    using m0 nx L0 np pp pm c(1) unfolding dofree_def Let_def h0_def [symmetric] by (auto simp: isfree_def mv2freelist_def)
  then have f: "nfree none (PTR m) h = Some ?h"
    using d(5) L by (simp add: nfree_def isfree_def fouled_def)
  have ok: "nok none ?B {} ?h" using c(2) by simp
  have ih: "hinv none ?B {} (view ?h) (freehdrs ?h)" using ok by (simp add: nok_def)
  have mB: "m \<in> ?B" using d(1,3) nx(2) by simp
  have q: "fld Prev m ?h = 0 \<or> fld Prev m ?h \<in> ?B" using linkedD(2) [OF ih mB] by auto
  have "fld Prev m ?h = p" using c(5) pm by simp
  then have "\<not> isfree none (fld Prev m ?h) ?h"
    using isfree_iff [OF ok q] isfree_iff [OF k(1), of p] np pp c(3) m0 by auto
  then show ?thesis using that [OF f ok c(4)] by simp
qed

definition heap0 :: nheap where
  "heap0 = \<lparr>bytes = (\<lambda>_. 0), freehdrs = (\<lambda>_. 0), sbrkbgn = []\<rparr>"

definition sbrk0 :: "nat \<Rightarrow> nat option" where
  "sbrk0 n = (if n < 1048576 then Some 4096 else None)"

lemma searchup_empty: "(\<And>b. H b = 0) \<Longrightarrow> searchup H bs = NFLISTS"
  by (induction bs) auto

lemma heap0_fields: "fld f m heap0 = 0" "freehdrs heap0 b = 0"
  by (simp_all add: heap0_def fld_def rd32_def)

lemma heap0_extend:
  assumes "s \<le> 900" "sbrk 1024 = Some 4096"
  shows "extendsbrk 8 sbrk s heap0 = Some (4096, recordnewsbrk 4096 (sethdr 0 4096
     (setf NextFree 4096 0 (setf Prev 4096 0 (setf Next 4096 0 (setf Sz 4096 1024 heap0))))))"
  using assms by (simp add: extendsbrk_def heap0_fields MINSBRK_def ALIGN_def DATAOFFSET_def mv2freelist_def Let_def)

lemma heap0_spaced: "24 \<le> s \<Longrightarrow> spaced {4096, 4096 + s}"
  by (auto simp: spaced_def)

lemma heap0_split:
  assumes s: "24 \<le> s" "s \<le> 900"
    and h: "\<And>f. f \<noteq> Sz \<Longrightarrow> f \<noteq> PrevFree \<Longrightarrow> fld f 4096 h = 0" "fld Sz 4096 h = 1024" "lastsbrk h = 4096"
  obtains h' where "split_lastsbrk s h = Some (4096, h')" "fld Next 4096 h' = 4096 + s" "lastsbrk h' = 4096 + s" "fld Prev 4096 h' = 0"
proof -
  note fs = fld_setf [OF heap0_spaced [OF s(1)]] fld_copy_header [OF heap0_spaced [OF s(1)]]
  show ?thesis
    using that s by (simp add: split_lastsbrk_def nmalloc_split_def Let_def h DATAOFFSET_def fs)
qed

lemma heap0_malloc:
  assumes s: "roundup n = s" "n \<noteq> 0" "24 \<le> s" "s \<le> 900" and k: "sbrk 1024 = Some 4096"
  obtains h where "nmalloc 8 sbrk n heap0 = Some (4112, h)" "fld Next 4096 h = 4096 + s" "lastsbrk h = 4096 + s" "fld Prev 4096 h = 0"
proof -
  note fs = fld_setf [OF heap0_spaced [OF s(3)]]
  let ?h = "recordnewsbrk 4096 (sethdr 0 4096
     (setf NextFree 4096 0 (setf Prev 4096 0 (setf Next 4096 0 (setf Sz 4096 1024 heap0)))))"
  have f: "fld f 4096 ?h = 0" if "f \<noteq> Sz" "f \<noteq> PrevFree" for f using that by (cases f) (simp_all add: fs heap0_fields)
  obtain h where h: "split_lastsbrk s ?h = Some (4096, h)" "fld Next 4096 h = 4096 + s" "lastsbrk h = 4096 + s" "fld Prev 4096 h = 0"
    by (rule heap0_split [OF s(3,4), of ?h]) (use f in \<open>auto simp: fs intro: that\<close>)
  have "searchfree s heap0 = 0" by (simp add: searchfree_def heap0_fields searchup_empty)
  then have "nmalloc 8 sbrk n heap0 = Some (4112, h)"
    using h(1) s by (simp add: nmalloc_def heap0_fields heap0_extend [of s sbrk, OF s(4) k] fs Let_def MINSAVE_def ALIGN_def DATAOFFSET_def PTR_def)
  then show ?thesis using that h by blast
qed

lemma roundup_100: "roundup 100 = 120"
  by (simp add: roundup_def DATAOFFSET_def)

text \<open>For the last 23 sizes the rounding wraps around, and \<^verbatim>\<open>malloc\<close> goes on with a block smaller than a header.\<close>

lemma roundup_wraps:
  assumes "2 ^ 32 - 23 \<le> n" "n < 2 ^ 32"
  shows "roundup n \<le> 16"
proof -
  have n: "4294967273 \<le> n" "n < 4294967296" using assms by simp_all
  show ?thesis
  proof (cases "n + 7 < 4294967296")
    case True
    then have "(n + 7) div 8 * 8 = 4294967280 \<or> (n + 7) div 8 * 8 = 4294967288" using n by presburger
    then show ?thesis using True by (auto simp: roundup_def DATAOFFSET_def)
  next
    case False
    then have "(n + 7) mod 4294967296 div 8 = 0" using n by (simp add: mod_if)
    then show ?thesis by (simp add: roundup_def DATAOFFSET_def)
  qed
qed

section \<open>Properties\<close>

lemma heap0_ok: "heap_ok 8 {} heap0" "sbrk_ok 8 sbrk0 heap0"
  by (auto simp: heap0_fields sbrk_ok_def sbrk0_def intro: heap_ok_initial split: if_splits)


definition sbrk1 :: "nheap \<Rightarrow> nat \<Rightarrow> nat option" where
  "sbrk1 h n = (let e = (if lastsbrk h = 0 then 4096 else lastsbrk h + fld Sz (lastsbrk h) h) in
     if 8 < e \<and> e + n < 2 ^ 32 then Some e else None)"

definition client1 :: "nat list \<Rightarrow> request" where
  "client1 rs = (case rs of [p] \<Rightarrow> if p = NULL then Malloc 1 else Store p 3 7 | _ \<Rightarrow> Malloc 5)"

lemma client1_well_behaved: "well_behaved legal outcome client1 Map.empty"
  unfolding well_behaved_def
proof (intro allI impI)
  fix rs a assume r: "spec_run outcome client1 Map.empty rs a"
  show "legal (client1 rs) a"
  proof (cases "\<exists>p. rs = [p] \<and> p \<noteq> 0")
    case True
    then obtain p where p: "rs = [] @ [p]" "p \<noteq> 0" by auto
    from r [unfolded p(1)] obtain a1 where "spec_run outcome client1 Map.empty [] a1" "outcome (client1 []) a1 p a"
      by (rule spec_run_snocE)
    then show ?thesis using p by (auto simp: client1_def elim: spec_run_NilE)
  next
    case False
    then show ?thesis by (auto simp: client1_def split: list.splits)
  qed
qed


text \<open>
  C2. \<^verbatim>\<open>malloc\<close> on a consistent heap, for a size up to 24 bytes below \<open>2 ^ 32\<close> and with an \<^verbatim>\<open>sbrk\<close> that gives rising
  addresses (\<open>sbrk_ok\<close>), never aborts. It returns the null pointer
  and changes nothing, or a new, aligned pointer to an area of at least the requested size that is disjoint from all
  others, whose contents are unchanged; the heap is consistent with one area more. It only fails for sizes near \<open>2 ^ 32\<close>
  and when \<^verbatim>\<open>sbrk\<close> refuses a request that is at most 1080 bytes larger.
\<close>

theorem nmalloc_correct:
  assumes "heap_ok none P h" "sbrk_ok none sbrk h" "nbytes \<le> 2 ^ 32 - 24"
  shows "nmalloc none sbrk nbytes h = Some (NULL, h) \<and> (nbytes < 2147418000 \<longrightarrow> (\<exists>k \<le> nbytes + 1080. sbrk k = None)) \<or>
    (\<exists>p h'. nmalloc none sbrk nbytes h = Some (p, h') \<and> p \<noteq> NULL \<and> p \<notin> P \<and> p mod 8 = 0 \<and> heap_ok none (insert p P) h' \<and>
       nbytes \<le> capacity p h' \<and>
       (\<forall>q \<in> P. contents q h' = contents q h \<and> (p + capacity p h' \<le> q \<or> q + capacity q h' \<le> p)))"
proof (rule nmalloc_pointer [OF assms])
  fix p h' assume g: "nmalloc none sbrk nbytes h = Some (p, h')" "p \<notin> P" "heap_ok none (insert p P) h'"
    "nbytes \<le> capacity p h'" "\<And>q. q \<in> P \<Longrightarrow> contents q h' = contents q h"
  note a = heap_ok_areas [OF g(3), of p]
  have "p + capacity p h' \<le> q \<or> q + capacity q h' \<le> p" if "q \<in> P" for q using a(3) [of q] that g(2) by auto
  then show ?thesis using g a(1,2) by (intro disjI2 exI [of _ p] exI [of _ h']) auto
qed auto

theorem nmalloc_correct_witness:
  "\<exists>p h'. nmalloc 8 sbrk0 100 heap0 = Some (p, h') \<and> p \<noteq> NULL \<and> p mod 8 = 0 \<and> heap_ok 8 {p} h' \<and> 100 \<le> capacity p h'"
proof -
  obtain h where "nmalloc 8 sbrk0 100 heap0 = Some (4112, h)"
    by (rule heap0_malloc [OF roundup_100, of sbrk0]) (auto simp: sbrk0_def)
  then show ?thesis using nmalloc_correct [OF heap0_ok, of 100] by auto
qed


lemma heap0_pointer:
  obtains h where "heap_ok 8 {4112} h" "fld Next 4096 h = lastsbrk h" "fld Prev 4096 h = 0" "lastsbrk h = 4216"
proof -
  obtain h where h: "nmalloc 8 sbrk0 100 heap0 = Some (4112, h)" "fld Next 4096 h = 4216" "lastsbrk h = 4216" "fld Prev 4096 h = 0"
    by (rule heap0_malloc [OF roundup_100, of sbrk0]) (auto simp: sbrk0_def)
  show ?thesis
    by (rule nmalloc_pointer [OF heap0_ok, of 100]) (use h that in auto)
qed




end
