(* ===== verification/Nmalign.thy ===== *)
theory Nmalign
  imports Allocator
begin

text \<open>
  \<^verbatim>\<open>memalign\<close> of \<^verbatim>\<open>ansi/stdlib/nmalign.c\<close>, on top of \<^verbatim>\<open>malloc\<close>, \<^verbatim>\<open>realloc\<close>, \<^verbatim>\<open>free\<close> and the function that splits a block.
\<close>

definition invalid :: "nat \<Rightarrow> bool" where
  "invalid alignment \<longleftrightarrow> (if alignment \<noteq> 0 \<and> alignment \<le> 65536 then alignment AND (alignment - 1) \<noteq> 0 else True)"

definition XTRA :: "nat \<Rightarrow> nat" where
  "XTRA alignment = alignment + 3 * ALIGN"

definition nmemalign :: "nat \<Rightarrow> (nheap \<Rightarrow> nat \<Rightarrow> nat option) \<Rightarrow> nat \<Rightarrow> nat \<Rightarrow> nheap \<Rightarrow> (nat \<times> nheap) option" where
  "nmemalign none sbrk alignment nbytes h =
     (let sz = (if nbytes = 0 then 1 else nbytes);
          szneed = roundup sz in
      if nbytes < 2147483647 - 65536 \<and> \<not> invalid alignment then
        if alignment \<le> ALIGN then nmalloc none (sbrk h) szneed h
        else do {
          (minit, h) \<leftarrow> nmalloc none (sbrk h) (szneed + XTRA alignment) h;
          if minit \<noteq> NULL then
            let m = MEMBLKp minit;
                misalign = minit mod alignment in
            if misalign = 0 then nrealloc none (sbrk h) minit nbytes h
            else do {
              (lo, m, h) \<leftarrow> nmalloc_split m (alignment - misalign) h;
              h \<leftarrow> nfree none (PTR lo) h;
              nrealloc none (sbrk h) (PTR m) nbytes h
            }
          else Some (NULL, h)
        }
      else Some (NULL, h))"

section \<open>Aligned areas\<close>

lemma valid_power: "k \<le> 16 \<Longrightarrow> \<not> invalid (2 ^ k)"
proof -
  assume "k \<le> 16"
  then have "(2 :: nat) ^ k \<le> 2 ^ 16" by (rule power_increasing) simp
  moreover have "(2 :: nat) ^ k AND (2 ^ k - 1) = 0"
    using take_bit_eq_mask [of k "2 ^ k :: nat"] by (simp add: mask_eq_exp_minus_1)
  ultimately show ?thesis by (simp add: invalid_def)
qed

text \<open>\<^verbatim>\<open>realloc\<close> to a size that fits does not move the area.\<close>

lemma nrealloc_shrinks:
  assumes ok: "heap_ok none P h" and p: "p \<in> P" and n: "n \<le> 2 ^ 32 - 24" "roundup (if n = 0 then 1 else n) \<le> fld Sz (MEMBLKp p) h"
  obtains h' where "nrealloc none sbrk p n h = Some (p, h')" "heap_ok none P h'" "n \<le> capacity p h'"
    "\<And>q. q \<in> P - {p} \<Longrightarrow> contents q h' = contents q h"
proof -
  obtain B where B: "nok none B {} h" "P = PTR ` used B {} h" using ok by (auto simp: heap_ok_def)
  obtain m where m: "p = PTR m" "m \<in> used B {} h" using B(2) p by auto
  define sz where "sz = roundup (if n = 0 then 1 else n)"
  have r: "n + 16 \<le> sz" "24 \<le> sz" "sz mod 8 = 0" "sz \<le> fld Sz m h"
    using roundup_bounds [of "if n = 0 then 1 else n"] n m(1) by (auto simp: sz_def split: if_splits)
  obtain h' B' where t: "trim none m sz h = Some (m, h')" "nok none B' {} h'" "used B' {} h' = used B {} h" "sz \<le> fld Sz m h'"
    "\<And>u. u \<in> used B {} h - {m} \<Longrightarrow> untouched u h h'"
    by (rule trim_ok [OF B(1) m(2) r(2-4)]) (rule that)
  have "m \<noteq> 0" using hinv_geomD(1) [of none B "{}" "view h" "freehdrs h" m] B(1) usedD(1) [OF m(2)] by (simp add: nok_def)
  then have "nrealloc none sbrk p n h = Some (p, h')"
    using used_last [OF B(1) m(2)] usedD(5) [OF m(2)] t(1) r(4)
    by (simp add: nrealloc_def m(1) sz_def [symmetric] isfree_def fouled_def Let_def realloc_block_def)
  moreover have "heap_ok none P h'" using heap_okI [OF t(2,3)] B(2) by simp
  moreover have "n \<le> capacity p h'" using r(1) t(4) m(1) by (simp add: capacity_def DATAOFFSET_def)
  moreover have "contents q h' = contents q h" if "q \<in> P - {p}" for q
    using that B(2) m(1) t(5) by (auto intro!: untouched_contents)
  ultimately show ?thesis by (rule that)
qed

text \<open>Splitting an allocated area in two.\<close>

lemma split_pointer:
  assumes ok: "heap_ok none P h" and p: "p \<in> P" and d: "24 \<le> d" "d mod 8 = 0" "d + 24 \<le> fld Sz (MEMBLKp p) h"
  obtains h' where "nmalloc_split (MEMBLKp p) d h = Some (MEMBLKp p, MEMBLKp (p + d), h')" "heap_ok none (insert (p + d) P) h'"
    "p + d \<notin> P" "fld Sz (MEMBLKp (p + d)) h' = fld Sz (MEMBLKp p) h - d" "\<And>q. q \<in> P - {p} \<Longrightarrow> contents q h' = contents q h"
proof -
  obtain B where B: "nok none B {} h" "P = PTR ` used B {} h" using ok by (auto simp: heap_ok_def)
  obtain m where m: "p = PTR m" "m \<in> used B {} h" using B(2) p by auto
  have pd: "p + d = PTR (m + d)" using m(1) by (simp add: PTR_def)
  have z: "d + 24 \<le> fld Sz m h" using d(3) m(1) by simp
  obtain h' where s: "nmalloc_split m d h = Some (m, m + d, h')" "nok none (insert (m + d) B) {} h'"
    "used (insert (m + d) B) {} h' = insert (m + d) (used B {} h)" "m + d \<notin> used B {} h"
    "\<And>u. u \<in> used B {} h - {m} \<Longrightarrow> untouched u h h'" "fld Sz (m + d) h' = fld Sz m h - d"
    by (rule split_used [OF B(1) m(2) d(1,2) z]) (rule that)
  show ?thesis
  proof (rule that)
    show "nmalloc_split (MEMBLKp p) d h = Some (MEMBLKp p, MEMBLKp (p + d), h')" using s(1) unfolding pd by (simp add: m(1))
    show "heap_ok none (insert (p + d) P) h'" using heap_okI [OF s(2,3)] B(2) pd by simp
    show "p + d \<notin> P" using s(4) B(2) pd by auto
    show "fld Sz (MEMBLKp (p + d)) h' = fld Sz (MEMBLKp p) h - d" using s(6) unfolding pd by (simp add: m(1))
    show "contents q h' = contents q h" if "q \<in> P - {p}" for q
      using that B(2) m(1) s(5) by (auto intro!: untouched_contents)
  qed
qed

lemma heap_ok_size: "heap_ok none P h \<Longrightarrow> p \<in> P \<Longrightarrow> fld Sz (MEMBLKp p) h = capacity p h + 16"
  using hinv_geomD(3) [of none _ "{}" "view h" "freehdrs h"] by (auto simp: heap_ok_def nok_def capacity_def DATAOFFSET_def dest: usedD(1))

text \<open>The part of \<^verbatim>\<open>memalign\<close> that runs once memory has been found.\<close>

lemma align_area:
  assumes ok: "heap_ok none (insert p P) h" "p \<notin> P" and k: "4 \<le> k"
    and n: "nbytes \<le> 2 ^ 32 - 24" "roundup (if nbytes = 0 then 1 else nbytes) + XTRA (2 ^ k) \<le> capacity p h"
    and d: "p mod 2 ^ k = 0 \<or> 24 \<le> 2 ^ k - p mod 2 ^ k"
  obtains p' h' where "(if p mod 2 ^ k = 0 then nrealloc none (sbrk h) p nbytes h
            else do {
              (lo, m, h) \<leftarrow> nmalloc_split (MEMBLKp p) (2 ^ k - p mod 2 ^ k) h;
              h \<leftarrow> nfree none (PTR lo) h;
              nrealloc none (sbrk h) (PTR m) nbytes h
            }) = Some (p', h')" "p' mod 2 ^ k = 0" "p' \<notin> P" "heap_ok none (insert p' P) h'" "nbytes \<le> capacity p' h'"
    "\<And>q. q \<in> P \<Longrightarrow> contents q h' = contents q h"
proof (cases "p mod 2 ^ k = 0")
  case True
  have f: "roundup (if nbytes = 0 then 1 else nbytes) \<le> fld Sz (MEMBLKp p) h"
    using n(2) heap_ok_size [OF ok(1), of p] by simp
  show ?thesis
    by (rule nrealloc_shrinks [OF ok(1) insertI1 n(1) f, of "sbrk h"]) (use True ok(2) that in auto)
next
  case False
  define dl where "dl = 2 ^ k - p mod 2 ^ k"
  have p8: "p mod 8 = 0" using heap_ok_areas(2) [OF ok(1), of p] by simp
  have "(2 :: nat) ^ k = 2 ^ (k - 3) * 8" using k power_add [of "2 :: nat" "k - 3" 3] by simp
  then have "8 dvd (2 :: nat) ^ k" by simp
  then have "p mod 2 ^ k mod 8 = 0" using p8 mod_mod_cancel by metis
  then have d8: "dl mod 8 = 0" using \<open>8 dvd (2 :: nat) ^ k\<close> by (simp add: dl_def dvd_diff_nat mod_0_imp_dvd)
  have "p mod 2 ^ k < 2 ^ k" by simp
  then have d0: "0 < dl" "dl < 2 ^ k" using False by (auto simp: dl_def)
  have d24: "24 \<le> dl" using d False by (simp add: dl_def)
  have dz: "dl + 24 \<le> fld Sz (MEMBLKp p) h"
    using n(2) heap_ok_size [OF ok(1), of p] d0(2) by (simp add: XTRA_def ALIGN_def)
  obtain h1 where s: "nmalloc_split (MEMBLKp p) dl h = Some (MEMBLKp p, MEMBLKp (p + dl), h1)"
    "heap_ok none (insert (p + dl) (insert p P)) h1" "p + dl \<notin> insert p P"
    "fld Sz (MEMBLKp (p + dl)) h1 = fld Sz (MEMBLKp p) h - dl" "\<And>q. q \<in> insert p P - {p} \<Longrightarrow> contents q h1 = contents q h"
    by (rule split_pointer [OF ok(1) insertI1 d24 d8 dz]) (rule that)
  have p16: "PTR (MEMBLKp q) = q" if "q \<in> insert (p + dl) (insert p P)" for q
    using s(2) that by (metis heap_ok_def imageE ptr_simps(1))
  have pf: "p \<in> insert (p + dl) (insert p P)" by simp
  obtain h2 where f: "nfree none p h1 = Some h2" "heap_ok none (insert (p + dl) (insert p P) - {p}) h2"
    "\<And>q. q \<in> insert (p + dl) (insert p P) - {p} \<Longrightarrow> contents q h2 = contents q h1"
    by (rule nfree_pointer [OF s(2) pf]) (rule that)
  have e: "insert (p + dl) (insert p P) - {p} = insert (p + dl) P" using d0 ok(2) by auto
  have "length (contents (p + dl) h2) = length (contents (p + dl) h1)" using f(3) [of "p + dl"] d0(1) by simp
  then have "capacity (p + dl) h2 = capacity (p + dl) h1" by simp
  then have z: "roundup (if nbytes = 0 then 1 else nbytes) \<le> fld Sz (MEMBLKp (p + dl)) h2"
    using n(2) s(4) heap_ok_size [OF s(2), of "p + dl"] heap_ok_size [OF f(2), of "p + dl"] e d0 heap_ok_size [OF ok(1), of p]
    by (simp add: XTRA_def)
  have pd: "p + dl \<in> insert (p + dl) P" by simp
  obtain h' where r: "nrealloc none (sbrk h2) (p + dl) nbytes h2 = Some (p + dl, h')" "heap_ok none (insert (p + dl) P) h'"
    "nbytes \<le> capacity (p + dl) h'" "\<And>q. q \<in> insert (p + dl) P - {p + dl} \<Longrightarrow> contents q h' = contents q h2"
    by (rule nrealloc_shrinks [OF f(2) [unfolded e] pd n(1) z]) (rule that)
  show ?thesis
  proof (rule that)
    show "(if p mod 2 ^ k = 0 then nrealloc none (sbrk h) p nbytes h
            else do {
              (lo, m, h) \<leftarrow> nmalloc_split (MEMBLKp p) (2 ^ k - p mod 2 ^ k) h;
              h \<leftarrow> nfree none (PTR lo) h;
              nrealloc none (sbrk h) (PTR m) nbytes h
            }) = Some (p + dl, h')"
      using False s(1) f(1) r(1) p16 unfolding dl_def [symmetric] by simp
    show "(p + dl) mod 2 ^ k = 0"
    proof -
      have "p + dl = (p - p mod 2 ^ k) + 2 ^ k" using d0 mod_less_eq_dividend [of p "2 ^ k"] by (simp add: dl_def)
      also have "\<dots> = p div 2 ^ k * 2 ^ k + 2 ^ k" by (simp add: minus_mod_eq_div_mult)
      finally show ?thesis by simp
    qed
    show "p + dl \<notin> P" "heap_ok none (insert (p + dl) P) h'" "nbytes \<le> capacity (p + dl) h'" using s(3) r(2,3) by auto
    show "contents q h' = contents q h" if "q \<in> P" for q
      using that s(3,5) f(3) r(4) ok(2) by (metis Diff_iff insert_iff singletonD)
  qed
qed

text \<open>
  C5. \<^verbatim>\<open>memalign\<close> for a power of two from 16 to 65536, on a consistent heap, for sizes below the limit it tests and with an
  \<^verbatim>\<open>sbrk\<close> that gives rising addresses (\<open>sbrk_ok\<close>): when the area it finds is aligned already, or the part in front of the aligned address has at least the 24 bytes of a usable
  block, it fails and changes nothing or returns a new pointer that is a multiple of the alignment, to an area of
  sufficient size; other areas are unchanged and the heap stays consistent.
\<close>

theorem nmemalign_aligned:
  assumes "heap_ok none P h" "\<forall>h. sbrk_ok none (sbrk h) h" "4 \<le> k" "k \<le> 16" "nbytes < 2147483647 - 65536"
    and "\<forall>p h'. nmalloc none (sbrk h) (roundup (if nbytes = 0 then 1 else nbytes) + XTRA (2 ^ k)) h = Some (p, h') \<longrightarrow>
      p mod 2 ^ k = 0 \<or> MINSAVE \<le> 2 ^ k - p mod 2 ^ k"
  shows "nmemalign none sbrk (2 ^ k) nbytes h = Some (NULL, h) \<or>
    (\<exists>p h'. nmemalign none sbrk (2 ^ k) nbytes h = Some (p, h') \<and> p \<noteq> NULL \<and> p mod 2 ^ k = 0 \<and> p \<notin> P \<and>
       heap_ok none (insert p P) h' \<and> nbytes \<le> capacity p h' \<and> (\<forall>q \<in> P. contents q h' = contents q h))"
proof -
  let ?n = "roundup (if nbytes = 0 then 1 else nbytes) + XTRA (2 ^ k)"
  have k16: "(2 :: nat) ^ k \<le> 2 ^ 16" "(2 :: nat) ^ 4 \<le> 2 ^ k" 
    using power_increasing [of k 16 "2 :: nat"] power_increasing [of 4 k "2 :: nat"] assms(3,4) by auto
  have n: "nbytes \<le> 2 ^ 32 - 24" "?n \<le> 2 ^ 32 - 24"
    using roundup_bounds(4) [of "if nbytes = 0 then 1 else nbytes"] assms(5) k16(1)
    by (auto simp: XTRA_def ALIGN_def split: if_splits)
  have m: "nmemalign none sbrk (2 ^ k) nbytes h = do {
      (p, h) \<leftarrow> nmalloc none (sbrk h) ?n h;
      if p \<noteq> NULL then
        if p mod 2 ^ k = 0 then nrealloc none (sbrk h) p nbytes h
            else do {
              (lo, m, h) \<leftarrow> nmalloc_split (MEMBLKp p) (2 ^ k - p mod 2 ^ k) h;
              h \<leftarrow> nfree none (PTR lo) h;
              nrealloc none (sbrk h) (PTR m) nbytes h
            }
      else Some (NULL, h) }"
  proof -
    have c: "nbytes < 2147483647 - 65536 \<and> \<not> invalid (2 ^ k)" "\<not> 2 ^ k \<le> ALIGN"
      using assms(5) valid_power [OF assms(4)] k16(2) by (auto simp: ALIGN_def)
    show ?thesis unfolding nmemalign_def Let_def if_P [OF c(1)] if_not_P [OF c(2)] by (rule refl)
  qed
  have s: "sbrk_ok none (sbrk h) h" using assms(2) by blast
  show ?thesis
  proof (rule nmalloc_pointer [OF assms(1) s n(2)])
    assume "nmalloc none (sbrk h) ?n h = Some (0, h)"
    then show ?thesis by (simp add: m)
  next
    fix p h1 assume g: "nmalloc none (sbrk h) ?n h = Some (p, h1)" "p \<notin> P" "heap_ok none (insert p P) h1" "?n \<le> capacity p h1"
      "\<And>q. q \<in> P \<Longrightarrow> contents q h1 = contents q h"
    have d: "p mod 2 ^ k = 0 \<or> 24 \<le> 2 ^ k - p mod 2 ^ k"
      using assms(6) g(1) by (auto simp: MINSAVE_def ALIGN_def DATAOFFSET_def)
    have p0: "p \<noteq> 0" using heap_ok_areas(1) [OF g(3), of p] by simp
    obtain p' h' where r: "(if p mod 2 ^ k = 0 then nrealloc none (sbrk h1) p nbytes h1
            else do {
              (lo, m, h) \<leftarrow> nmalloc_split (MEMBLKp p) (2 ^ k - p mod 2 ^ k) h1;
              h \<leftarrow> nfree none (PTR lo) h;
              nrealloc none (sbrk h) (PTR m) nbytes h
            }) = Some (p', h')" "p' mod 2 ^ k = 0" "p' \<notin> P" "heap_ok none (insert p' P) h'" "nbytes \<le> capacity p' h'"
        "\<And>q. q \<in> P \<Longrightarrow> contents q h' = contents q h1"
      by (rule align_area [OF g(3,2) assms(3) n(1) g(4) d, of sbrk]) (rule that)
    have "nmemalign none sbrk (2 ^ k) nbytes h = Some (p', h')" using g(1) p0 r(1) by (simp add: m)
    moreover have "p' \<noteq> 0" using heap_ok_areas(1) [OF r(4), of p'] by simp
    ultimately show ?thesis using r(2-6) g(5) by (intro disjI2 exI [of _ p'] exI [of _ h']) auto
  qed
qed

theorem nmemalign_aligned_witness:
  "\<exists>p h'. nmemalign 8 sbrk1 (2 ^ 4) 40 heap0 = Some (p, h') \<and> p mod 2 ^ 4 = 0 \<and> heap_ok 8 {p} h' \<and> 40 \<le> capacity p h'
    \<or> nmemalign 8 sbrk1 (2 ^ 4) 40 heap0 = Some (NULL, heap0)"
proof -
  have n: "roundup (if (40 :: nat) = 0 then 1 else 40) + XTRA (2 ^ 4) = 96" "roundup 96 = 112"
    by (simp_all add: roundup_def DATAOFFSET_def XTRA_def ALIGN_def)
  obtain h1 where h1: "nmalloc 8 (sbrk1 heap0) 96 heap0 = Some (4112, h1)"
    by (rule heap0_malloc [where sbrk = "sbrk1 heap0", OF n(2)]) (auto simp: sbrk1_def heap0_fields)
  have "\<forall>h. sbrk_ok 8 (sbrk1 h) h" by (auto simp: sbrk_ok_def sbrk1_def Let_def split: if_splits)
  then show ?thesis
    using nmemalign_aligned [of 8 "{}" heap0 sbrk1 4 40, OF heap0_ok(1), unfolded n(1)] h1 by auto
qed

section \<open>Parts that are too small\<close>

text \<open>
  When the part in front of the aligned address has eight bytes, the two headers overlap: storing \<^verbatim>\<open>prev\<close> of the higher
  part overwrites \<^verbatim>\<open>sz\<close> of the lower one, from which the new size is computed. The block that \<^verbatim>\<open>memalign\<close> goes on with is
  recorded with a size that is an address.
\<close>

lemma split_by_eight:
  assumes "24 \<le> fld Sz m h" "m + 8 < 2 ^ 32"
  obtains h' where "nmalloc_split m 8 h = Some (m, m + 8, h')" "fld Sz (m + 8) h' = m - 8" "fld Prev (m + 8) h' = 8"
proof -
  let ?k = "setf Prev (m + 8) m (h\<lparr>bytes := copy_bytes (m + 8) m 16 (bytes h)\<rparr>)"
  have b: "m < 2 ^ 32" "m + 8 < 2 ^ 32" "m - 8 < 2 ^ 32" using assms(2) by auto
  have sz: "fld Sz m ?k = m"
    using rd32_wr32 [OF b(1)] by (simp add: fld_def setf_def)
  define h' where "h' = setf NextFree m 0 (setf Sz m 8 (setf Next m (m + 8) (setf Sz (m + 8) (m - 8) ?k)))"
  have f: "fld Next (m + 8) h' = 0" "fld Sz (m + 8) h' = m - 8" "fld Prev (m + 8) h' = 8"
    using b by (simp_all add: h'_def fld_def setf_def rd32_wr32 rd32_wr32_other add.commute)
  have "nmalloc_split m 8 h = Some (m, m + 8, h')"
    using assms(1) f(1) unfolding nmalloc_split_def Let_def DATAOFFSET_def sz h'_def [symmetric] by simp
  then show ?thesis using that f by blast
qed

end
