(* ===== verification/Hash2v.thy ===== *)
theory Hash2v
  imports Cstring
begin

text \<open>
  The string hash of \<^verbatim>\<open>posix/search/_hash2v.c\<close>: \<^verbatim>\<open>_hash2v\<close>, which finds the end of the key while it hashes and yields
  two values, and the original function \<^verbatim>\<open>hash\<close> of the same file, which is told the length. Both are shown to compute
  the same digest of the bytes of the key; the test program in that file compares them on sample lines.
\<close>

section \<open>Mixing\<close>

type_synonym ub4 = "32 word"

text \<open>The nine lines of the macro are three rounds of three lines that differ in the shift counts only.\<close>

definition mix_round :: "nat \<Rightarrow> nat \<Rightarrow> nat \<Rightarrow> ub4 \<times> ub4 \<times> ub4 \<Rightarrow> ub4 \<times> ub4 \<times> ub4" where
  "mix_round p q r = (\<lambda>(a, b, c).
     let a = a - b; a = a - c; a = a XOR drop_bit p c;
         b = b - c; b = b - a; b = b XOR push_bit q a;
         c = c - a; c = c - b; c = c XOR drop_bit r b
     in (a, b, c))"

definition mix :: "ub4 \<times> ub4 \<times> ub4 \<Rightarrow> ub4 \<times> ub4 \<times> ub4" where
  "mix abc = mix_round 3 10 15 (mix_round 12 16 5 (mix_round 13 8 13 abc))"

section \<open>Routines\<close>

text \<open>Four bytes of the key as a little-endian number.\<close>

definition ub4_at :: "mem \<Rightarrow> addr \<Rightarrow> ub4 option" where
  "ub4_at m k = do { b0 \<leftarrow> rd m k; b1 \<leftarrow> rd m (k + 1); b2 \<leftarrow> rd m (k + 2); b3 \<leftarrow> rd m (k + 3);
     Some (ucast b0 + push_bit 8 (ucast b1) + push_bit 16 (ucast b2) + push_bit 24 (ucast b3)) }"

definition mix_block :: "mem \<Rightarrow> addr \<Rightarrow> ub4 \<times> ub4 \<times> ub4 \<Rightarrow> (ub4 \<times> ub4 \<times> ub4) option" where
  "mix_block m k = (\<lambda>(a, b, c). do { x \<leftarrow> ub4_at m k; y \<leftarrow> ub4_at m (k + 4); z \<leftarrow> ub4_at m (k + 8);
     Some (mix (a + x, b + y, c + z)) })"

text \<open>One label of the \<^verbatim>\<open>switch\<close>, which is reached when it is not above the number of bytes left.\<close>

definition case_add :: "mem \<Rightarrow> addr \<Rightarrow> nat \<Rightarrow> nat \<Rightarrow> nat \<Rightarrow> ub4 \<Rightarrow> ub4 option" where
  "case_add m k which n sh x = (if n \<le> which then do { b \<leftarrow> rd m (k + (n - 1)); Some (x + push_bit sh (ucast b)) } else Some x)"

definition last_bytes :: "mem \<Rightarrow> addr \<Rightarrow> nat \<Rightarrow> ub4 \<times> ub4 \<times> ub4 \<Rightarrow> (ub4 \<times> ub4 \<times> ub4) option" where
  "last_bytes m k which = (\<lambda>(a, b, c). do {
     c \<leftarrow> case_add m k which 11 24 c;
     c \<leftarrow> case_add m k which 10 16 c;
     c \<leftarrow> case_add m k which 9 8 c;
     b \<leftarrow> case_add m k which 8 24 b;
     b \<leftarrow> case_add m k which 7 16 b;
     b \<leftarrow> case_add m k which 6 8 b;
     b \<leftarrow> case_add m k which 5 0 b;
     a \<leftarrow> case_add m k which 4 24 a;
     a \<leftarrow> case_add m k which 3 16 a;
     a \<leftarrow> case_add m k which 2 8 a;
     a \<leftarrow> case_add m k which 1 0 a;
     Some (mix (a, b, c)) })"

text \<open>The loop that looks for a NUL in the next twelve bytes; 12 if there is none.\<close>

function hash2v_which :: "mem \<Rightarrow> addr \<Rightarrow> nat \<Rightarrow> nat option" where
  "hash2v_which m k which =
     (if which < 12 then do { x \<leftarrow> rd m (k + which); if x = 0 then Some which else hash2v_which m k (which + 1) }
      else Some which)"
  by pat_completeness auto
termination by (relation "measure (\<lambda>(m, k, which). 12 - which)") auto

declare hash2v_which.simps [simp del]

lemma hash2v_which_12: "hash2v_which m k i = Some 12 \<Longrightarrow> i < 12 \<Longrightarrow> k + i < length m"
  by (subst (asm) hash2v_which.simps) (auto split: Option.bind_splits simp: rd_Some_iff)

function hash2v_loop :: "mem \<Rightarrow> addr \<Rightarrow> ub4 \<Rightarrow> ub4 \<times> ub4 \<times> ub4 \<Rightarrow> (ub4 \<times> ub4 \<times> ub4) option" where
  "hash2v_loop m k len abc = do {
     which \<leftarrow> hash2v_which m k 0;
     if which = 12 then do { abc \<leftarrow> mix_block m k abc; hash2v_loop m (k + 12) (len + 12) abc }
     else (let len = len + of_nat which; (a, b, c) = abc in last_bytes m k which (a, b, c + len)) }"
  by pat_completeness auto
termination
  by (relation "measure (\<lambda>(m, k, len, abc). length m - k)") (auto dest!: hash2v_which_12)

declare hash2v_loop.simps [simp del]

text \<open>The result \<open>c\<close> and the second value \<^verbatim>\<open>*v2\<close>.\<close>

definition hash2v :: "mem \<Rightarrow> addr \<Rightarrow> (ub4 \<times> ub4) option" where
  "hash2v m k = do { (a, b, c) \<leftarrow> hash2v_loop m k 0 (0x9e3779b9, 0x9e3779b9, 0); Some (c, b) }"

text \<open>The original function; its name is taken by the table of \<^verbatim>\<open>hcreate.c\<close>.\<close>

function hash_orig_loop :: "mem \<Rightarrow> addr \<Rightarrow> ub4 \<Rightarrow> ub4 \<times> ub4 \<times> ub4 \<Rightarrow> (addr \<times> ub4 \<times> ub4 \<times> ub4 \<times> ub4) option" where
  "hash_orig_loop m k len abc =
     (if len \<ge> 12 then do { abc \<leftarrow> mix_block m k abc; hash_orig_loop m (k + 12) (len - 12) abc }
      else Some (k, len, abc))"
  by pat_completeness auto
termination
  by (relation "measure (\<lambda>(m, k, len, abc). unat len)") (auto simp: word_le_nat_alt unat_sub)

declare hash_orig_loop.simps [simp del]

definition hash_orig :: "mem \<Rightarrow> addr \<Rightarrow> ub4 \<Rightarrow> ub4 \<Rightarrow> ub4 option" where
  "hash_orig m k len initval = do {
     (k, left, a, b, c) \<leftarrow> hash_orig_loop m k len (0x9e3779b9, 0x9e3779b9, initval);
     (a, b, c) \<leftarrow> last_bytes m k (unat left) (a, b, c + len);
     Some c }"

section \<open>The digest of a string\<close>

text \<open>The same on the bytes of the key, those behind its end taken as 0.\<close>

definition nth0 :: "byte list \<Rightarrow> nat \<Rightarrow> ub4" where
  "nth0 s i = (if i < length s then ucast (s ! i) else 0)"

definition le32 :: "byte list \<Rightarrow> nat \<Rightarrow> ub4" where
  "le32 s i = nth0 s i + push_bit 8 (nth0 s (i + 1)) + push_bit 16 (nth0 s (i + 2)) + push_bit 24 (nth0 s (i + 3))"

function digest :: "ub4 \<Rightarrow> byte list \<Rightarrow> ub4 \<times> ub4 \<times> ub4 \<Rightarrow> ub4 \<times> ub4 \<times> ub4" where
  "digest len s (a, b, c) =
     (if 12 \<le> length s then digest len (drop 12 s) (mix (a + le32 s 0, b + le32 s 4, c + le32 s 8))
      else mix (a + le32 s 0, b + le32 s 4,
        c + len + push_bit 8 (nth0 s 8) + push_bit 16 (nth0 s 9) + push_bit 24 (nth0 s 10)))"
  by pat_completeness auto
termination by (relation "measure (\<lambda>(len, s, abc). length s)") auto

declare digest.simps [simp del]

definition hash_of :: "byte list \<Rightarrow> ub4 \<times> ub4" where
  "hash_of s = (let (a, b, c) = digest (of_nat (length s)) s (0x9e3779b9, 0x9e3779b9, 0) in (c, b))"

lemma cstr_ub4: "cstr m k s \<Longrightarrow> i + 3 < length s \<Longrightarrow> ub4_at m (k + i) = Some (le32 s i)"
  using cstr_rd [of m k s i] cstr_rd [of m k s "i + 1"] cstr_rd [of m k s "i + 2"] cstr_rd [of m k s "i + 3"]
  by (simp add: ub4_at_def le32_def nth0_def add.assoc)

lemma cstr_mix_block:
  "cstr m k s \<Longrightarrow> 12 \<le> length s \<Longrightarrow> mix_block m k (a, b, c) = Some (mix (a + le32 s 0, b + le32 s 4, c + le32 s 8))"
  using cstr_ub4 [of m k s 0] cstr_ub4 [of m k s 4] cstr_ub4 [of m k s 8] by (simp add: mix_block_def)

lemma cstr_case_add:
  "cstr m k s \<Longrightarrow> 1 \<le> n \<Longrightarrow> case_add m k (length s) n sh x = Some (x + push_bit sh (nth0 s (n - 1)))"
  using cstr_rd [of m k s "n - 1"] by (auto simp: case_add_def nth0_def)

lemma cstr_last_bytes:
  "cstr m k s \<Longrightarrow> last_bytes m k (length s) (a, b, c) = Some (mix (a + le32 s 0, b + le32 s 4,
     c + push_bit 8 (nth0 s 8) + push_bit 16 (nth0 s 9) + push_bit 24 (nth0 s 10)))"
  by (simp add: last_bytes_def cstr_case_add le32_def algebra_simps numeral_2_eq_2)

lemma cstr_which:
  assumes "cstr m k s" "i \<le> length s" "i \<le> 12"
  shows "hash2v_which m k i = Some (min 12 (length s))"
  using assms
proof (induction "12 - i" arbitrary: i)
  case 0
  then show ?case by (subst hash2v_which.simps) auto
next
  case (Suc d)
  show ?case
  proof (cases "i < length s")
    case True
    then show ?thesis using Suc(1) [of "i + 1"] Suc(2-) cstr_rd [OF assms(1) True] cstr_nth_nonzero [OF assms(1) True]
      by (subst hash2v_which.simps) auto
  next
    case False
    then show ?thesis using Suc(2-) cstr_rd_end [OF assms(1)] by (subst hash2v_which.simps) auto
  qed
qed

lemma cstr_drop_n: "cstr m k s \<Longrightarrow> n \<le> length s \<Longrightarrow> cstr m (k + n) (drop n s)"
  using cstr_drop [of m k "take n s" "drop n s"] by simp

lemma hash2v_loop_digest:
  "cstr m k s \<Longrightarrow> hash2v_loop m k len abc = Some (digest (len + of_nat (length s)) s abc)"
proof (induction "length s" arbitrary: s k len abc rule: less_induct)
  case less
  obtain a b c where abc: "abc = (a, b, c)" by (cases abc)
  have w: "hash2v_which m k 0 = Some (min 12 (length s))" using cstr_which [OF less(2)] by simp
  show ?case
  proof (cases "12 \<le> length s")
    case True
    have l: "len + 12 + of_nat (length (drop 12 s)) = len + of_nat (length s)" using True by (simp add: of_nat_diff)
    have "hash2v_loop m k len abc = hash2v_loop m (k + 12) (len + 12) (mix (a + le32 s 0, b + le32 s 4, c + le32 s 8))"
      using w True cstr_mix_block [OF less(2) True] by (subst hash2v_loop.simps) (simp add: abc)
    also have "\<dots> = Some (digest (len + of_nat (length s)) s abc)"
      using less(1) [OF _ cstr_drop_n [OF less(2) True], of "len + 12", unfolded l] True
      by (simp add: abc digest.simps [of _ s a b c])
    finally show ?thesis .
  next
    case False
    then show ?thesis using w cstr_last_bytes [OF less(2)]
      by (subst hash2v_loop.simps) (simp add: abc digest.simps [of _ s a b c] add.assoc)
  qed
qed

lemma hash_orig_loop_digest:
  assumes "cstr m k s" "length s < 2 ^ 32"
  shows "do { (k, left, a, b, c) \<leftarrow> hash_orig_loop m k (of_nat (length s)) abc; last_bytes m k (unat left) (a, b, c + len) } =
    Some (digest len s abc)"
  using assms
proof (induction "length s" arbitrary: s k abc rule: less_induct)
  case less
  obtain a b c where abc: "abc = (a, b, c)" by (cases abc)
  have u: "unat (of_nat (length s) :: ub4) = length s" using less(3) by (intro unat_of_nat_small) simp
  then have g: "(12 :: ub4) \<le> of_nat (length s) \<longleftrightarrow> 12 \<le> length s" by (simp add: word_le_nat_alt)
  show ?case
  proof (cases "12 \<le> length s")
    case True
    have l: "(of_nat (length s) - 12 :: ub4) = of_nat (length (drop 12 s))" using True by (simp add: of_nat_diff)
    have "hash_orig_loop m k (of_nat (length s)) abc =
        hash_orig_loop m (k + 12) (of_nat (length (drop 12 s))) (mix (a + le32 s 0, b + le32 s 4, c + le32 s 8))"
      using True g cstr_mix_block [OF less(2) True] by (subst hash_orig_loop.simps) (simp add: abc l del: length_drop)
    moreover have "digest len s abc = digest len (drop 12 s) (mix (a + le32 s 0, b + le32 s 4, c + le32 s 8))"
      using True by (simp add: abc digest.simps [of _ s a b c])
    moreover have "length (drop 12 s) < length s" "length (drop 12 s) < 2 ^ 32" using True less(3) by auto
    ultimately show ?thesis
      using less(1) [OF _ cstr_drop_n [OF less(2) True]] by (simp only:)
  next
    case False
    then have "hash_orig_loop m k (of_nat (length s)) abc = Some (k, of_nat (length s), abc)"
      using g by (subst hash_orig_loop.simps) (simp only: if_False)
    then show ?thesis using cstr_last_bytes [OF less(2)] False
      by (simp add: u abc digest.simps [of _ s a b c] del: unat_of_nat)
  qed
qed

lemma hash_orig_cstr:
  "cstr m k s \<Longrightarrow> length s < 2 ^ 32 \<Longrightarrow> hash_orig m k (of_nat (length s)) 0 = Some (fst (hash_of s))"
proof -
  assume "cstr m k s" "length s < 2 ^ 32"
  note d = hash_orig_loop_digest [OF this, of "(0x9e3779b9, 0x9e3779b9, 0)" "of_nat (length s)"]
  then show ?thesis by (auto simp: hash_orig_def hash_of_def split: Option.bind_splits prod.splits)
qed

text \<open>A round of \<^verbatim>\<open>mix\<close> can be undone, from its last line to its first.\<close>

definition unmix_round :: "nat \<Rightarrow> nat \<Rightarrow> nat \<Rightarrow> ub4 \<times> ub4 \<times> ub4 \<Rightarrow> ub4 \<times> ub4 \<times> ub4" where
  "unmix_round p q r = (\<lambda>(a, b, c).
     let c = (c XOR drop_bit r b) + b + a; b = (b XOR push_bit q a) + a + c; a = (a XOR drop_bit p c) + c + b
     in (a, b, c))"

lemma bij_mix_round: "bij (mix_round p q r)"
  by (rule o_bij [of "unmix_round p q r"])
    (auto simp: fun_eq_iff mix_round_def unmix_round_def Let_def xor.assoc)

lemma bij_mix: "bij mix"
proof -
  have e: "mix = mix_round 3 10 15 \<circ> mix_round 12 16 5 \<circ> mix_round 13 8 13" by (simp add: fun_eq_iff mix_def)
  show ?thesis unfolding e by (intro bij_comp bij_mix_round)
qed

lemma hash2v_cstr: "cstr m k s \<Longrightarrow> hash2v m k = Some (hash_of s)"
  by (simp add: hash2v_def hash2v_loop_digest hash_of_def split: prod.split)

section \<open>Properties\<close>

text \<open>
  C28. \<^verbatim>\<open>_hash2v\<close> never reads beyond the NUL of its key and gives the same value as the original \<^verbatim>\<open>hash\<close> with the length of
  the key and the initial value 0: the digest of the bytes, wherever they are in memory. \<^verbatim>\<open>mix\<close> is reversible, as its
  comment says: it is a bijection of the triples of 32-bit values.
\<close>

theorem hash2v_is_hash:
  assumes "cstr m k s" "length s < 2 ^ 32"
  shows "hash2v m k = Some (hash_of s) \<and> hash_orig m k (of_nat (length s)) 0 = map_option fst (hash2v m k) \<and> bij mix"
  using hash2v_cstr [OF assms(1)] hash_orig_cstr [OF assms] bij_mix by simp

theorem hash2v_is_hash_witness:
  "\<exists>v. hash2v [0, 97, 98, 99, 0] 1 = Some v \<and> hash_orig [0, 97, 98, 99, 0] 1 3 0 = Some (fst v)"
proof -
  have "cstr [0, 97, 98, 99, 0] 1 [97, 98, 99]" by (simp add: rd_def)
  then show ?thesis using hash2v_is_hash [of "[0, 97, 98, 99, 0]" 1 "[97, 98, 99]"] by simp
qed

end
