(* ===== verification/Hsearch.thy ===== *)
theory Hsearch
  imports Hash2v Allocator
begin

text \<open>
  The hash table of \<^verbatim>\<open>posix/search/hcreate.c\<close>: \<^verbatim>\<open>hcreate\<close>, \<^verbatim>\<open>hdestroy\<close> and \<^verbatim>\<open>hsearch\<close>. The table is an array of pairs of pointers
  in memory that the allocator hands out, so that the three functions work on the heap of \<^verbatim>\<open>nmalloc.c\<close>; the keys are
  strings of the program, in a memory that the functions only read. Dereferencing the null table is the value
  \<^term>\<open>None\<close>, as is an abort of the allocator.
\<close>

section \<open>Data\<close>

datatype ACTION = FIND | ENTER

record ENTRY =
  key :: nat
  data :: nat

record htable =
  heap :: nheap
  hash :: nat
  buckets :: ub4
  hmask :: ub4

definition MAX_BUCKETS :: ub4 where "MAX_BUCKETS = 0x20000000"

text \<open>\<^verbatim>\<open>sizeof(ENTRY)\<close> is 8; the key is at offset 0 and the data at offset 4.\<close>

definition ent_addr :: "htable \<Rightarrow> nat \<Rightarrow> nat" where
  "ent_addr t i = hash t + 8 * i"

definition entry_at :: "htable \<Rightarrow> nat \<Rightarrow> ENTRY" where
  "entry_at t i = \<lparr>key = rd32 (bytes (heap t)) (ent_addr t i), data = rd32 (bytes (heap t)) (ent_addr t i + 4)\<rparr>"

definition get_hash :: "htable \<Rightarrow> nat \<Rightarrow> ENTRY option" where
  "get_hash t i = (if hash t = NULL then None else Some (entry_at t i))"

definition put_hash :: "nat \<Rightarrow> ENTRY \<Rightarrow> htable \<Rightarrow> htable" where
  "put_hash i e t = t\<lparr>heap := (heap t)\<lparr>bytes :=
     wr32 (wr32 (bytes (heap t)) (ent_addr t i) (key e)) (ent_addr t i + 4) (data e)\<rparr>\<rparr>"

section \<open>Routines\<close>

text \<open>The loop that rounds up to a power of two would not end for sizes above \<open>2 ^ 31\<close>.\<close>

partial_function (option) round_up :: "ub4 \<Rightarrow> nat \<Rightarrow> nat option" where
  [code]: "round_up nel i = (if push_bit i 1 < nel then round_up nel (i + 1) else Some i)"

definition hcreate :: "nat \<Rightarrow> (nat \<Rightarrow> nat option) \<Rightarrow> ub4 \<Rightarrow> htable \<Rightarrow> (bool \<times> htable) option" where
  "hcreate none sbrk nel t =
     (if MAX_BUCKETS < nel then Some (False, t)
      else let nel = nel + nel div 3;
               nel = (if MAX_BUCKETS < nel then MAX_BUCKETS else nel);
               nel = (if nel < 0x80 then 0x80 else nel) in
      do { i \<leftarrow> round_up nel 7;
           let n = push_bit i 1;
           (p, h) \<leftarrow> ncalloc none sbrk (unat n) 8 (heap t);
           Some (p \<noteq> NULL, t\<lparr>heap := h, hash := p, buckets := n, hmask := n - 1\<rparr>) })"

definition hdestroy :: "nat \<Rightarrow> htable \<Rightarrow> htable option" where
  "hdestroy none t = do { h \<leftarrow> nfree none (hash t) (heap t); Some (t\<lparr>heap := h, hash := NULL\<rparr>) }"

text \<open>The loop of \<^verbatim>\<open>hsearch\<close>; \<open>v\<close> is \<^verbatim>\<open>hash_value\<close>.\<close>

partial_function (option) hsearch_loop :: "mem \<Rightarrow> ENTRY \<times> ACTION \<times> ub4 \<times> ub4 \<Rightarrow> htable \<times> ub4 \<Rightarrow> (nat \<times> htable) option" where
  [code]: "hsearch_loop m x y = (case (x, y) of ((item, action, increment, start), (t, v)) \<Rightarrow>
     do { e \<leftarrow> get_hash t (unat v);
          if key e = NULL then
            Some (case action of FIND \<Rightarrow> (NULL, t) | ENTER \<Rightarrow> (ent_addr t (unat v), put_hash (unat v) item t))
          else do {
            r \<leftarrow> strcmp m (key e) (key item);
            if r = 0 then Some (ent_addr t (unat v), t)
            else let v = (v + increment) AND hmask t in
              if v \<noteq> start then hsearch_loop m x (t, v) else Some (NULL, t) } })"

definition hsearch :: "mem \<Rightarrow> ENTRY \<Rightarrow> ACTION \<Rightarrow> htable \<Rightarrow> (nat \<times> htable) option" where
  "hsearch m item action t =
     do { (v, increment) \<leftarrow> hash2v m (key item);
          let v = v AND hmask t;
          hsearch_loop m (item, action, 2 * increment + 1, v) (t, v) }"

section \<open>Open addressing\<close>

text \<open>
  A table of \<open>N\<close> slots is a function to the key in a slot. Keys are placed so that the slots which the search for a key
  visits first, up to its own, are taken by other keys.
\<close>

definition others :: "('k \<Rightarrow> nat \<Rightarrow> nat) \<Rightarrow> (nat \<Rightarrow> 'k option) \<Rightarrow> 'k \<Rightarrow> nat \<Rightarrow> bool" where
  "others slot tab s n \<longleftrightarrow> (\<forall>i < n. tab (slot s i) \<noteq> None \<and> tab (slot s i) \<noteq> Some s)"

definition placed :: "('k \<Rightarrow> nat \<Rightarrow> nat) \<Rightarrow> nat \<Rightarrow> (nat \<Rightarrow> 'k option) \<Rightarrow> bool" where
  "placed slot N tab \<longleftrightarrow> (\<forall>j < N. \<forall>s. tab j = Some s \<longrightarrow> (\<exists>n < N. slot s n = j \<and> others slot tab s n))"

lemma others_Suc: "others slot tab s (Suc n) \<longleftrightarrow> others slot tab s n \<and> tab (slot s n) \<noteq> None \<and> tab (slot s n) \<noteq> Some s"
  by (auto simp: others_def less_Suc_eq)

locale probing =
  fixes slot :: "'k \<Rightarrow> nat \<Rightarrow> nat" and N :: nat
  assumes slot_onto: "j < N \<Longrightarrow> \<exists>n < N. slot s n = j"
    and slot_less: "slot s n < N"
begin

text \<open>A key has one place, and a search that comes to a free slot, or has visited all, proves its absence.\<close>

lemma placed_unique: "placed slot N tab \<Longrightarrow> i < N \<Longrightarrow> j < N \<Longrightarrow> tab i = Some s \<Longrightarrow> tab j = Some s \<Longrightarrow> i = j"
  unfolding placed_def others_def by (metis linorder_neqE_nat)

lemma free_slot_absent:
  assumes "placed slot N tab" "others slot tab s n" "tab (slot s n) = None" "j < N"
  shows "tab j \<noteq> Some s"
proof
  assume "tab j = Some s"
  then obtain k where k: "k < N" "slot s k = j" "others slot tab s k" using assms(1,4) by (auto simp: placed_def)
  then show False using assms(2,3) \<open>tab j = Some s\<close> by (cases k n rule: linorder_cases) (auto simp: others_def)
qed

lemma all_others_full:
  assumes "others slot tab s N" "j < N"
  shows "tab j \<noteq> None" "tab j \<noteq> Some s"
  using slot_onto [OF assms(2), of s] assms(1) by (auto simp: others_def)

lemma placed_insert:
  assumes p: "placed slot N tab" and o: "others slot tab s n" and e: "tab (slot s n) = None" and n: "n < N"
  shows "placed slot N (tab(slot s n := Some s))"
  unfolding placed_def
proof (intro allI impI)
  let ?tab = "tab(slot s n := Some s)"
  fix j t assume j: "j < N" "?tab j = Some t"
  show "\<exists>n < N. slot t n = j \<and> others slot ?tab t n"
  proof (cases "j = slot s n")
    case True
    then have "others slot ?tab t n" "t = s" using j(2) o e by (auto simp: others_def)
    then show ?thesis using True n by blast
  next
    case False
    then have t: "tab j = Some t" using j(2) by simp
    then have "t \<noteq> s" using free_slot_absent [OF p o e j(1)] by auto
    obtain k where k: "k < N" "slot t k = j" "others slot tab t k" using p j(1) t by (auto simp: placed_def)
    have "others slot ?tab t k" using k(3) e \<open>t \<noteq> s\<close> by (auto simp: others_def)
    then show ?thesis using k by blast
  qed
qed

end

section \<open>The sequence of slots of a key\<close>

definition slot :: "nat \<Rightarrow> byte list \<Rightarrow> nat \<Rightarrow> nat" where
  "slot b s n = (unat (fst (hash_of s)) + n * unat (2 * snd (hash_of s) + 1)) mod 2 ^ b"

text \<open>The increment is odd and the number of slots a power of two, so that every slot is visited.\<close>

lemma odd_increment: "odd (unat (2 * x + 1 :: ub4))"
  by (simp only: unat_word_ariths dvd_mod_iff [of 2 "2 ^ LENGTH(32)"] len_num1) (simp add: dvd_mod_iff)

lemma slot_cycle:
  assumes "odd d"
  shows "(h + n * d) mod 2 ^ b = h mod 2 ^ b \<longleftrightarrow> 2 ^ b dvd (n :: nat)"
proof -
  have "coprime (2 ^ b) d" using assms by simp
  then have "2 ^ b dvd n * d \<longleftrightarrow> 2 ^ b dvd n" by (simp add: coprime_dvd_mult_left_iff)
  moreover have "(h + n * d) mod 2 ^ b = h mod 2 ^ b \<longleftrightarrow> 2 ^ b dvd n * d"
    using mod_eq_dvd_iff_nat [of h "h + n * d" "2 ^ b"] by simp
  ultimately show ?thesis by simp
qed

lemma slot_inj: "inj_on (slot b s) {..<2 ^ b}"
proof (rule linorder_inj_onI)
  fix i j :: nat assume l: "i < j" "i \<in> {..<2 ^ b}" "j \<in> {..<2 ^ b}"
  let ?h = "unat (fst (hash_of s))" and ?d = "unat (2 * snd (hash_of s) + 1)"
  have "?h + j * ?d = (?h + i * ?d) + (j - i) * ?d" using l(1) by (simp add: diff_mult_distrib)
  then have "(?h + j * ?d) mod 2 ^ b = (?h + i * ?d + (j - i) * ?d) mod 2 ^ b" by (rule arg_cong)
  moreover have "\<not> 2 ^ b dvd j - i" using l by (auto dest!: dvd_imp_le)
  ultimately show "slot b s i \<noteq> slot b s j"
    using slot_cycle [OF odd_increment, of "?h + i * ?d" "j - i" "snd (hash_of s)" b] unfolding slot_def by metis
qed auto

interpretation slots: probing "slot b" "2 ^ b" for b
proof
  show "slot b s n < 2 ^ b" for s n by (simp add: slot_def)
  then have "slot b s ` {..<2 ^ b} = {..<2 ^ b}" for s
    by (intro card_subset_eq) (auto simp: card_image [OF slot_inj])
  then show "\<exists>n < 2 ^ b. slot b s n = j" if "j < 2 ^ b" for j s using that by (metis imageE lessThan_iff)
qed

lemma power2_dvd: "b \<le> 32 \<Longrightarrow> (2 ^ b :: nat) dvd 2 ^ LENGTH(32)"
  using le_imp_power_dvd [of b 32 "2 :: nat"] by simp

lemma unat_and_mask: "unat (w AND (2 ^ b - 1)) = unat w mod 2 ^ b" for w :: ub4
  by (simp add: take_bit_eq_mod [symmetric] mask_eq_exp_minus_1 [symmetric] take_bit_eq_mask [symmetric] unsigned_take_bit_eq)

lemma unat_add_mod: "b \<le> 32 \<Longrightarrow> unat (x + y) mod 2 ^ b = (unat x + unat y mod 2 ^ b) mod 2 ^ b" for x y :: ub4
  using power2_dvd [of b] by (simp only: unat_word_ariths mod_mod_cancel mod_add_right_eq)

lemma slot_word:
  assumes "b \<le> 32"
  shows "unat ((fst (hash_of s) + of_nat n * (2 * snd (hash_of s) + 1)) AND (2 ^ b - 1)) = slot b s n"
proof -
  have t: "unat (of_nat n * d) mod 2 ^ b = n * unat d mod 2 ^ b" for d :: ub4
    using power2_dvd [OF assms] by (simp only: unat_word_ariths unat_of_nat mod_mult_left_eq mod_mod_cancel)
  show ?thesis unfolding unat_and_mask unat_add_mod [OF assms] t slot_def by (simp only: mod_add_right_eq)
qed

section \<open>The table\<close>

definition str_at :: "mem \<Rightarrow> addr \<Rightarrow> byte list" where
  "str_at m p = takeWhile (\<lambda>c. c \<noteq> 0) (drop p m)"

definition keys :: "mem \<Rightarrow> htable \<Rightarrow> nat \<Rightarrow> byte list option" where
  "keys m t j = (if key (entry_at t j) = NULL then None else Some (str_at m (key (entry_at t j))))"

text \<open>
  A table of \<open>2 ^ b\<close> slots, in an area of the heap that is large enough for it. The map which it represents sends the
  strings of the keys to their slots.
\<close>

definition hash_table_ok :: "nat \<Rightarrow> nat set \<Rightarrow> nat \<Rightarrow> mem \<Rightarrow> htable \<Rightarrow> bool" where
  "hash_table_ok none P b m t \<longleftrightarrow>
     heap_ok none P (heap t) \<and> hash t \<in> P \<and> b \<le> 28 \<and> buckets t = 2 ^ b \<and> hmask t = 2 ^ b - 1 \<and>
     8 * 2 ^ b \<le> capacity (hash t) (heap t) \<and>
     (\<forall>j < 2 ^ b. key (entry_at t j) \<noteq> NULL \<longrightarrow> (\<exists>s. cstr m (key (entry_at t j)) s)) \<and>
     placed (slot b) (2 ^ b) (keys m t)"

definition lookup :: "nat \<Rightarrow> mem \<Rightarrow> htable \<Rightarrow> byte list \<Rightarrow> nat option" where
  "lookup b m t s = List.find (\<lambda>j. keys m t j = Some s) [0..<2 ^ b]"

definition table_full :: "nat \<Rightarrow> mem \<Rightarrow> htable \<Rightarrow> bool" where
  "table_full b m t = list_all (\<lambda>j. keys m t j \<noteq> None) [0..<2 ^ b]"

lemma str_at_cstr: "cstr m p s \<Longrightarrow> str_at m p = s"
proof -
  assume c: "cstr m p s"
  have l: "p + length s < length m" by (rule cstr_bound [OF c])
  have "drop p m = s @ 0 # drop (p + length s + 1) m"
  proof (rule nth_equalityI)
    fix i assume "i < length (drop p m)"
    then show "drop p m ! i = (s @ 0 # drop (p + length s + 1) m) ! i"
      using cstr_rd [OF c, of i] cstr_rd_end [OF c] l
      by (cases "i < length s"; cases "i = length s") (auto simp: nth_append nth_Cons' rd_Some_iff)
  qed (use l in auto)
  then show ?thesis using cstr_nonzero [OF c] by (simp add: str_at_def takeWhile_tail takeWhile_not_NUL)
qed

lemma keys_Some: "keys m t j = Some s \<Longrightarrow> key (entry_at t j) \<noteq> NULL \<and> str_at m (key (entry_at t j)) = s"
  by (auto simp: keys_def split: if_splits)

lemma lookup_Some:
  assumes "hash_table_ok none P b m t"
  shows "lookup b m t s = Some j \<longleftrightarrow> j < 2 ^ b \<and> keys m t j = Some s"
proof
  assume "lookup b m t s = Some j"
  then show "j < 2 ^ b \<and> keys m t j = Some s" unfolding lookup_def find_Some_iff by auto
next
  assume j: "j < 2 ^ b \<and> keys m t j = Some s"
  have p: "placed (slot b) (2 ^ b) (keys m t)" using assms by (simp add: hash_table_ok_def)
  have "keys m t i \<noteq> Some s" if "i < j" for i using slots.placed_unique [OF p, of i j s] that j by auto
  then show "lookup b m t s = Some j" using j unfolding lookup_def find_Some_iff by (intro exI [of _ j]) simp
qed

lemma lookup_None: "lookup b m t s = None \<longleftrightarrow> (\<forall>j < 2 ^ b. keys m t j \<noteq> Some s)"
  by (auto simp: lookup_def find_None_iff)

lemma table_full_iff: "table_full b m t \<longleftrightarrow> (\<forall>j < 2 ^ b. keys m t j \<noteq> None)"
  by (auto simp: table_full_def list_all_iff)

subsection \<open>Storing an entry\<close>

lemma area_writes:
  assumes "heap_ok none P h" "p \<in> P" "freehdrs h' = freehdrs h"
    and w: "\<And>a. a < p \<or> p + capacity p h \<le> a \<Longrightarrow> bytes h' a = bytes h a"
  shows "heap_ok none P h'" "capacity p h' = capacity p h" "q \<in> P - {p} \<Longrightarrow> contents q h' = contents q h"
proof -
  obtain B where B: "nok none B {} h" "P = PTR ` used B {} h" using assms(1) by (auto simp: heap_ok_def)
  then obtain u where u: "p = PTR u" "u \<in> used B {} h" using assms(2) by auto
  have i: "bytes h' a = bytes h a" if "\<not> in_data {u} h a" for a
    by (rule w) (use that u(1) in \<open>auto simp: in_data_def capacity_def PTR_def MEMBLKp_def DATAOFFSET_def\<close>)
  have d: "nok none B {} h'" "used B {} h' = used B {} h" "\<And>x. x \<in> used B {} h - {u} \<Longrightarrow> untouched x h h'"
      "fld Sz u h' = fld Sz u h"
    using data_writes [OF B(1), of "{u}" h'] i u(2) assms(3) by auto
  show "heap_ok none P h'" using heap_okI [OF d(1,2)] B(2) by simp
  show "capacity p h' = capacity p h" using d(4) u(1) by (simp add: capacity_def)
  show "contents q h' = contents q h" if "q \<in> P - {p}"
    using that B(2) u(1) d(3) by (auto intro!: untouched_contents)
qed

lemma put_hash_fields [simp]:
  "hash (put_hash i e t) = hash t" "buckets (put_hash i e t) = buckets t" "hmask (put_hash i e t) = hmask t"
  "freehdrs (heap (put_hash i e t)) = freehdrs (heap t)" "ent_addr (put_hash i e t) j = ent_addr t j"
  by (simp_all add: put_hash_def ent_addr_def)

lemma entry_put:
  assumes "key e < 2 ^ 32" "data e < 2 ^ 32"
  shows "entry_at (put_hash i e t) j = (if j = i then e else entry_at t j)"
proof (cases "j = i")
  case True
  then show ?thesis using assms by (simp add: entry_at_def put_hash_def ent_addr_def rd32_wr32 rd32_wr32_other)
next
  case False
  then have "8 * i + 8 \<le> 8 * j \<or> 8 * j + 8 \<le> 8 * i" by (cases i j rule: linorder_cases) auto
  then show ?thesis using False by (elim disjE) (simp_all add: entry_at_def put_hash_def ent_addr_def rd32_wr32_other)
qed

lemma put_hash_area:
  assumes "hash_table_ok none P b m t" "i < 2 ^ b"
  shows "heap_ok none P (heap (put_hash i e t))" "capacity (hash t) (heap (put_hash i e t)) = capacity (hash t) (heap t)"
    "q \<in> P - {hash t} \<Longrightarrow> contents q (heap (put_hash i e t)) = contents q (heap t)"
proof -
  have t: "heap_ok none P (heap t)" "hash t \<in> P" "8 * 2 ^ b \<le> capacity (hash t) (heap t)" using assms(1) by (auto simp: hash_table_ok_def)
  have l: "8 * i + 8 \<le> capacity (hash t) (heap t)" using t(3) assms(2) by linarith
  have w: "bytes (heap (put_hash i e t)) a = bytes (heap t) a" if "a < hash t \<or> hash t + capacity (hash t) (heap t) \<le> a" for a
    using that l by (simp add: put_hash_def ent_addr_def) (subst wr32_other, linarith, subst wr32_other, linarith, rule refl)
  note a = area_writes [OF t(1,2), of "heap (put_hash i e t)", OF _ w]
  show "heap_ok none P (heap (put_hash i e t))" "capacity (hash t) (heap (put_hash i e t)) = capacity (hash t) (heap t)"
    "q \<in> P - {hash t} \<Longrightarrow> contents q (heap (put_hash i e t)) = contents q (heap t)"
    using a by simp_all
qed

lemma keys_put:
  assumes "key e < 2 ^ 32" "data e < 2 ^ 32" "cstr m (key e) s"
  shows "keys m (put_hash i e t) = (keys m t)(i := Some s)"
  using assms cstr_positive [OF assms(3)] by (auto simp: keys_def fun_eq_iff entry_put str_at_cstr)

text \<open>An entry stored in the free slot at which its search ends.\<close>

lemma hash_table_ok_put:
  assumes t: "hash_table_ok none P b m t" and e: "key e < 2 ^ 32" "data e < 2 ^ 32" "cstr m (key e) s"
    and n: "n < 2 ^ b" "others (slot b) (keys m t) s n" "keys m t (slot b s n) = None"
  shows "hash_table_ok none P b m (put_hash (slot b s n) e t)"
    "lookup b m (put_hash (slot b s n) e t) = (lookup b m t)(s \<mapsto> slot b s n)"
proof -
  let ?t = "put_hash (slot b s n) e t"
  have p: "placed (slot b) (2 ^ b) (keys m t)" using t by (simp add: hash_table_ok_def)
  note a = put_hash_area [OF t slots.slot_less [where b = b and s = s and n = n], where e = e] and k = keys_put [OF e]
  have "placed (slot b) (2 ^ b) (keys m ?t)" using slots.placed_insert [OF p n(2,3,1)] by (simp add: k)
  moreover have "\<exists>s. cstr m (key (entry_at ?t j)) s" if "j < 2 ^ b" "key (entry_at ?t j) \<noteq> NULL" for j
    using that e t by (auto simp: entry_put hash_table_ok_def)
  ultimately show ok: "hash_table_ok none P b m ?t" using t a(1,2) by (auto simp: hash_table_ok_def)
  have "lookup b m ?t u = ((lookup b m t)(s \<mapsto> slot b s n)) u" for u
  proof (cases "u = s")
    case True
    then show ?thesis using slots.slot_less [of b s n] by (simp add: lookup_Some [OF ok] k)
  next
    case False
    then have "lookup b m ?t u = Some j \<longleftrightarrow> lookup b m t u = Some j" for j
      using n(3) by (auto simp: lookup_Some [OF ok] lookup_Some [OF t] k)
    then show ?thesis using False by (metis fun_upd_apply not_Some_eq)
  qed
  then show "lookup b m ?t = (lookup b m t)(s \<mapsto> slot b s n)" by blast
qed

subsection \<open>The search\<close>

lemma and_mask_add: "b \<le> 32 \<Longrightarrow> ((x AND (2 ^ b - 1)) + y) AND (2 ^ b - 1) = (x + y) AND (2 ^ b - 1)" for x y :: ub4
  by (simp only: word_unat_eq_iff unat_and_mask unat_add_mod mod_mod_trivial mod_simps)

text \<open>Where the loop ends: at the key, at a free slot, or after it has visited all slots.\<close>

definition search_result :: "nat \<Rightarrow> mem \<Rightarrow> htable \<Rightarrow> byte list \<Rightarrow> ENTRY \<Rightarrow> ACTION \<Rightarrow> nat \<times> htable \<Rightarrow> bool" where
  "search_result b m t s item action r \<longleftrightarrow>
     (\<exists>n < 2 ^ b. others (slot b) (keys m t) s n \<and>
        (keys m t (slot b s n) = Some s \<and> r = (ent_addr t (slot b s n), t) \<or>
         keys m t (slot b s n) = None \<and>
           r = (case action of FIND \<Rightarrow> (NULL, t) | ENTER \<Rightarrow> (ent_addr t (slot b s n), put_hash (slot b s n) item t)))) \<or>
     others (slot b) (keys m t) s (2 ^ b) \<and> r = (NULL, t)"

lemma hsearch_loop_result:
  fixes t :: htable and s :: "byte list"
  defines "w \<equiv> \<lambda>n. (fst (hash_of s) + of_nat n * (2 * snd (hash_of s) + 1)) AND hmask t"
  assumes t: "hash_table_ok none P b m t" and c: "cstr m (key item) s" and n: "n < 2 ^ b" "others (slot b) (keys m t) s n"
  shows "\<exists>r. hsearch_loop m (item, action, 2 * snd (hash_of s) + 1, w 0) (t, w n) = Some r \<and> search_result b m t s item action r"
  using n
proof (induction "2 ^ b - n" arbitrary: n rule: less_induct)
  case less
  let ?x = "(item, action, 2 * snd (hash_of s) + 1, w 0)"
  have h: "hmask t = 2 ^ b - 1" "b \<le> 32" "hash t \<noteq> NULL" "heap_ok none P (heap t)" "hash t \<in> P"
    using t heap_ok_areas(1) [of none P "heap t" "hash t"] by (auto simp: hash_table_ok_def)
  have w: "unat (w i) = slot b s i" for i using slot_word [OF h(2), of s i] by (simp add: w_def h(1))
  have "(w n + (2 * snd (hash_of s) + 1)) AND hmask t =
      (fst (hash_of s) + of_nat n * (2 * snd (hash_of s) + 1) + (2 * snd (hash_of s) + 1)) AND hmask t"
    by (simp only: w_def h(1) and_mask_add [OF h(2)])
  then have step: "(w n + (2 * snd (hash_of s) + 1)) AND hmask t = w (Suc n)" by (simp add: w_def algebra_simps)
  have start: "w (Suc n) = w 0 \<longleftrightarrow> Suc n = 2 ^ b"
    using slot_cycle [OF odd_increment, of "unat (fst (hash_of s))" "Suc n" "snd (hash_of s)" b] less(2)
    by (auto simp: word_unat_eq_iff w slot_def dest: dvd_imp_le)
  note l = hsearch_loop.simps [of m ?x "(t, w n)"]
  let ?k = "key (entry_at t (slot b s n))"
  show ?case
  proof (cases "keys m t (slot b s n) = None")
    case True
    then have "?k = NULL" by (simp add: keys_def split: if_splits)
    then have "hsearch_loop m ?x (t, w n) =
        Some (case action of FIND \<Rightarrow> (NULL, t) | ENTER \<Rightarrow> (ent_addr t (slot b s n), put_hash (slot b s n) item t))"
      by (subst l) (simp add: get_hash_def h(3) w split: ACTION.split)
    then show ?thesis using less(2,3) True unfolding search_result_def by blast
  next
    case False
    then have k: "?k \<noteq> NULL" "keys m t (slot b s n) = Some (str_at m ?k)" by (auto simp: keys_def split: if_splits)
    obtain u where u: "cstr m ?k u" using t k(1) slots.slot_less [of b s n] by (auto simp: hash_table_ok_def)
    obtain q where q: "strcmp m ?k (key item) = Some q" "q = 0 \<longleftrightarrow> u = s" using cmp_id.cmp_sign [OF u c] by auto
    have e: "hsearch_loop m ?x (t, w n) =
        (if u = s then Some (ent_addr t (slot b s n), t)
         else if w (Suc n) \<noteq> w 0 then hsearch_loop m ?x (t, w (Suc n)) else Some (NULL, t))"
      using k(1) q by (subst l) (simp add: get_hash_def h(3) w step)
    show ?thesis
    proof (cases "u = s")
      case True
      then show ?thesis using e less(2,3) k(2) str_at_cstr [OF u] by (auto simp: search_result_def)
    next
      case ne: False
      then have o: "others (slot b) (keys m t) s (Suc n)" using less(3) k(2) str_at_cstr [OF u] by (simp add: others_Suc)
      show ?thesis
      proof (cases "Suc n = 2 ^ b")
        case True
        then show ?thesis using e ne o start by (auto simp: search_result_def)
      next
        case False
        then show ?thesis using e ne start less(1) [of "Suc n", OF _ _ o] less(2) by auto
      qed
    qed
  qed
qed

lemma hsearch_result:
  assumes t: "hash_table_ok none P b m t" and c: "cstr m (key item) s"
  shows "\<exists>r. hsearch m item action t = Some r \<and> search_result b m t s item action r"
  using hsearch_loop_result [OF t c, of 0 action] hash2v_cstr [OF c]
  by (simp add: hsearch_def others_def Let_def case_prod_beta)

text \<open>What \<^verbatim>\<open>hsearch\<close> does, in terms of the map.\<close>

lemma hsearch_found:
  assumes t: "hash_table_ok none P b m t" and c: "cstr m (key item) s" and j: "lookup b m t s = Some j"
  shows "hsearch m item action t = Some (ent_addr t j, t)"
proof -
  have p: "placed (slot b) (2 ^ b) (keys m t)" using t by (simp add: hash_table_ok_def)
  have j': "j < 2 ^ b" "keys m t j = Some s" using j by (auto simp: lookup_Some [OF t])
  obtain r where r: "hsearch m item action t = Some r" "search_result b m t s item action r"
    using hsearch_result [OF t c] by blast
  then consider n where "n < 2 ^ b" "keys m t (slot b s n) = Some s" "r = (ent_addr t (slot b s n), t)"
    | n where "others (slot b) (keys m t) s n" "keys m t (slot b s n) = None"
    | "others (slot b) (keys m t) s (2 ^ b)"
    by (auto simp: search_result_def)
  then show ?thesis
  proof cases
    case 1
    then have "slot b s n = j" using slots.placed_unique [OF p slots.slot_less j'(1) _ j'(2)] by blast
    then show ?thesis using 1 r(1) by simp
  next
    case 2
    then show ?thesis using slots.free_slot_absent [OF p 2 j'(1)] j'(2) by blast
  next
    case 3
    then show ?thesis using slots.all_others_full(2) [OF 3 j'(1)] j'(2) by blast
  qed
qed

lemma hsearch_absent:
  assumes t: "hash_table_ok none P b m t" and c: "cstr m (key item) s" and j: "lookup b m t s = None"
  obtains (full) "table_full b m t" "hsearch m item action t = Some (NULL, t)"
    | (free) n where "\<not> table_full b m t" "n < 2 ^ b" "others (slot b) (keys m t) s n" "keys m t (slot b s n) = None"
      "hsearch m item action t =
        Some (case action of FIND \<Rightarrow> (NULL, t) | ENTER \<Rightarrow> (ent_addr t (slot b s n), put_hash (slot b s n) item t))"
proof -
  have n: "keys m t i \<noteq> Some s" if "i < 2 ^ b" for i using j that by (simp add: lookup_None)
  obtain r where r: "hsearch m item action t = Some r" "search_result b m t s item action r"
    using hsearch_result [OF t c] by blast
  then consider n where "n < 2 ^ b" "others (slot b) (keys m t) s n" "keys m t (slot b s n) = None"
      "r = (case action of FIND \<Rightarrow> (NULL, t) | ENTER \<Rightarrow> (ent_addr t (slot b s n), put_hash (slot b s n) item t))"
    | "others (slot b) (keys m t) s (2 ^ b)" "r = (NULL, t)"
    using n [OF slots.slot_less] unfolding search_result_def by blast
  then show ?thesis
  proof cases
    case 1
    then show ?thesis using free r(1) slots.slot_less [of b s n] by (auto simp: table_full_iff)
  next
    case 2
    then show ?thesis using full r(1) slots.all_others_full(1) [OF 2(1)] by (auto simp: table_full_iff)
  qed
qed

lemma hsearch_enter:
  assumes t: "hash_table_ok none P b m t" and c: "key item < 2 ^ 32" "data item < 2 ^ 32" "cstr m (key item) s"
    and j: "lookup b m t s = None" "\<not> table_full b m t"
  obtains j where "j < 2 ^ b" "keys m t j = None" "hsearch m item ENTER t = Some (ent_addr t j, put_hash j item t)"
    "hash_table_ok none P b m (put_hash j item t)" "lookup b m (put_hash j item t) = (lookup b m t)(s \<mapsto> j)"
proof (rule hsearch_absent [OF t c(3) j(1), of ENTER])
  fix n assume n: "n < 2 ^ b" "others (slot b) (keys m t) s n" "keys m t (slot b s n) = None"
    "hsearch m item ENTER t =
      Some (case ENTER of FIND \<Rightarrow> (NULL, t) | ENTER \<Rightarrow> (ent_addr t (slot b s n), put_hash (slot b s n) item t))"
  show ?thesis using that [OF slots.slot_less n(3) _ hash_table_ok_put [OF t c n(1-3)]] n(4) by simp
qed (use j(2) in simp)

subsection \<open>Creating and filling a table\<close>

lemma unat_2_power [simp]: "i < 32 \<Longrightarrow> unat (2 ^ i :: ub4) = 2 ^ i"
proof -
  assume "i < 32"
  then have "(2 :: nat) ^ i < 2 ^ 32" by (rule power_strict_increasing) simp
  then show ?thesis using unat_of_nat_small [of "2 ^ i", where 'a = 32] by simp
qed

lemma round_up_correct:
  assumes "unat nel \<le> 2 ^ 29" "i \<le> 29"
  obtains k where "round_up nel i = Some k" "i \<le> k" "k \<le> 29" "unat nel \<le> 2 ^ k" "k = i \<or> 2 ^ (k - 1) < unat nel"
proof -
  have "\<exists>k. round_up nel i = Some k \<and> i \<le> k \<and> k \<le> 29 \<and> unat nel \<le> 2 ^ k \<and> (k = i \<or> 2 ^ (k - 1) < unat nel)"
    using assms
  proof (induction "29 - i" arbitrary: i)
    case 0
    then have "i = 29" by simp
    then show ?case using 0 by (subst round_up.simps) (simp add: word_less_nat_alt)
  next
    case (Suc d)
    show ?case
    proof (cases "2 ^ i < unat nel")
      case True
      have "round_up nel i = round_up nel (i + 1)"
        using True Suc(4) by (subst round_up.simps) (simp add: word_less_nat_alt)
      then show ?thesis using Suc(1) [of "i + 1"] Suc(2-) True by fastforce
    next
      case False
      then show ?thesis using Suc(4) by (subst round_up.simps) (simp add: word_less_nat_alt)
    qed
  qed
  then show ?thesis using that by blast
qed

lemma ncalloc_too_large: "ncalloc none sbrk (2 ^ 29) 8 h = Some (NULL, h)"
  by (simp add: ncalloc_def)

lemma fresh_table:
  assumes h: "heap_ok none Q (heap t)" "hash t \<in> Q" and b: "b \<le> 28" "buckets t = 2 ^ b" "hmask t = 2 ^ b - 1"
    and c: "2 ^ b * 8 \<le> capacity (hash t) (heap t)" "take (2 ^ b * 8) (contents (hash t) (heap t)) = replicate (2 ^ b * 8) 0"
  shows "hash_table_ok none Q b m t" "lookup b m t = Map.empty"
proof -
  have z: "bytes (heap t) (hash t + k) = 0" if "k < 2 ^ b * 8" for k
  proof -
    have "take (2 ^ b * 8) (contents (hash t) (heap t)) ! k = bytes (heap t) (hash t + k)" using that c(1) by (simp add: contents_def)
    then show ?thesis using that c(2) by simp
  qed
  have e: "key (entry_at t j) = NULL" if "j < 2 ^ b" for j
    using z [of "8 * j"] z [of "8 * j + 1"] z [of "8 * j + 2"] z [of "8 * j + 3"] that
    by (simp add: entry_at_def ent_addr_def rd32_def add.assoc)
  then have k: "keys m t j = None" if "j < 2 ^ b" for j using that by (simp add: keys_def)
  show "hash_table_ok none Q b m t" using h b c(1) e k by (auto simp: hash_table_ok_def placed_def)
  show "lookup b m t = Map.empty" using k by (auto simp: fun_eq_iff lookup_None)
qed

text \<open>The number of slots for \<open>nel\<close> elements.\<close>

definition wanted :: "ub4 \<Rightarrow> nat" where
  "wanted nel = max 128 (unat nel + unat nel div 3)"

lemma hcreate_cases:
  assumes h: "heap_ok none P (heap t)" "sbrk_ok none sbrk (heap t)"
  obtains (large) "MAX_BUCKETS < nel" "hcreate none sbrk nel t = Some (False, t)"
    | (refused) t' where "hcreate none sbrk nel t = Some (False, t')" "hash t' = NULL" "heap t' = heap t"
        "wanted nel \<le> 2 ^ 27 \<Longrightarrow> \<exists>k \<le> 16 * wanted nel + 1080. sbrk k = None"
    | (created) b t' where "hcreate none sbrk nel t = Some (True, t')" "7 \<le> b" "wanted nel \<le> 2 ^ b" "hash t' \<notin> P"
        "\<And>m. hash_table_ok none (insert (hash t') P) b m t'" "\<And>m. lookup b m t' = Map.empty"
        "\<And>q. q \<in> P \<Longrightarrow> contents q (heap t') = contents q (heap t)"
proof (cases "MAX_BUCKETS < nel")
  case True
  then show ?thesis using large by (simp add: hcreate_def)
next
  case False
  define n1 where "n1 = nel + nel div 3"
  define n2 where "n2 = (if MAX_BUCKETS < n1 then MAX_BUCKETS else n1)"
  define n3 where "n3 = (if n2 < 0x80 then 0x80 else n2)"
  have nel: "unat nel \<le> 2 ^ 29" using False by (simp add: MAX_BUCKETS_def word_less_nat_alt)
  then have "unat n1 = unat nel + unat nel div 3" unfolding n1_def by (simp add: unat_word_ariths unat_div_distrib)
  then have n3: "unat n3 = max 128 (min (2 ^ 29) (unat nel + unat nel div 3))"
    by (auto simp: n3_def n2_def MAX_BUCKETS_def word_less_nat_alt)
  obtain b where b: "round_up n3 7 = Some b" "7 \<le> b" "b \<le> 29" "unat n3 \<le> 2 ^ b" "b = 7 \<or> 2 ^ (b - 1) < unat n3"
    by (rule round_up_correct [of n3 7]) (use n3 in auto)
  have e: "hcreate none sbrk nel t = do { (p, h) \<leftarrow> ncalloc none sbrk (2 ^ b) 8 (heap t);
      Some (p \<noteq> NULL, t\<lparr>heap := h, hash := p, buckets := 2 ^ b, hmask := 2 ^ b - 1\<rparr>) }"
    unfolding hcreate_def Let_def n1_def [symmetric] n2_def [symmetric] n3_def [symmetric] using False b(1,3) by simp
  show ?thesis
  proof (cases "b = 29")
    case True
    then have "hcreate none sbrk nel t = Some (False, t\<lparr>hash := NULL, buckets := 2 ^ b, hmask := 2 ^ b - 1\<rparr>)"
      by (simp add: e ncalloc_too_large [simplified])
    then show ?thesis by (rule refused) (use b(5) True in \<open>simp_all add: wanted_def n3\<close>)
  next
    case False
    then have "(2 :: nat) ^ b \<le> 2 ^ 28" using b(3) by (intro power_increasing) auto
    then have p: "2 ^ b * 8 \<le> (2 ^ 32 - 24 :: nat)" and w: "wanted nel \<le> 2 ^ b" "unat n3 = wanted nel"
      using b(4) by (auto simp: wanted_def n3)
    have w2: "2 ^ b \<le> 2 * wanted nel"
      using b(2,5) w by (cases b) (auto simp: wanted_def)
    show ?thesis
    proof (rule ncalloc_pointer [OF h p])
      assume f: "ncalloc none sbrk (2 ^ b) 8 (heap t) = Some (0, heap t)"
        "2 ^ b * (8 + 1) < (2147418000 :: nat) \<Longrightarrow> \<exists>k \<le> 2 ^ b * 8 + 1080. sbrk k = None"
      show ?thesis
      proof (rule refused)
        show "hcreate none sbrk nel t = Some (False, t\<lparr>hash := NULL, buckets := 2 ^ b, hmask := 2 ^ b - 1\<rparr>)"
          by (simp add: e f(1))
        assume "wanted nel \<le> 2 ^ 27"
        then have "b = 7 \<or> (2 :: nat) ^ (b - 1) < 2 ^ 27" using b(5) w(2) by linarith
        then have "b \<le> 27" by (auto simp only: power_strict_increasing_iff [of "2 :: nat"])
        then have "(2 :: nat) ^ b \<le> 2 ^ 27" by (rule power_increasing) simp
        then have "2 ^ b * (8 + 1) < (2147418000 :: nat)" by simp
        then obtain k where "k \<le> 2 ^ b * 8 + 1080" "sbrk k = None" using f(2) by blast
        then show "\<exists>k \<le> 16 * wanted nel + 1080. sbrk k = None" using w2 by (intro exI [of _ k]) linarith
      qed simp_all
    next
      fix p h' assume g: "ncalloc none sbrk (2 ^ b) 8 (heap t) = Some (p, h')" "p \<notin> P" "heap_ok none (insert p P) h'"
        "2 ^ b * 8 \<le> capacity p h'" "\<And>q. q \<in> P \<Longrightarrow> contents q h' = contents q (heap t)"
        "take (2 ^ b * 8) (contents p h') = replicate (2 ^ b * 8) 0"
      let ?t = "t\<lparr>heap := h', hash := p, buckets := 2 ^ b, hmask := 2 ^ b - 1\<rparr>"
      have "p \<noteq> NULL" using heap_ok_areas(1) [OF g(3), of p] by simp
      then have c: "hcreate none sbrk nel t = Some (True, ?t)" by (simp add: e g(1))
      have f: "hash_table_ok none (insert p P) b m ?t" "lookup b m ?t = Map.empty" for m
        using fresh_table [of none "insert p P" ?t b m] g b(3) False by simp_all
      show ?thesis by (rule created [OF c b(2) w(1)]) (use g f in simp_all)
    qed
  qed
qed

subsection \<open>Entering a list of items\<close>

primrec enter_all :: "mem \<Rightarrow> ENTRY list \<Rightarrow> htable \<Rightarrow> (nat list \<times> htable) option" where
  "enter_all m [] t = Some ([], t)"
| "enter_all m (e # es) t = do { (p, t) \<leftarrow> hsearch m e ENTER t; (ps, t) \<leftarrow> enter_all m es t; Some (p # ps, t) }"

definition item_ok :: "mem \<Rightarrow> ENTRY \<Rightarrow> byte list \<Rightarrow> bool" where
  "item_ok m e s \<longleftrightarrow> key e < 2 ^ 32 \<and> data e < 2 ^ 32 \<and> cstr m (key e) s"

definition taken :: "nat \<Rightarrow> mem \<Rightarrow> htable \<Rightarrow> nat set" where
  "taken b m t = {j. j < 2 ^ b \<and> keys m t j \<noteq> None}"

lemma enter_all_ok:
  assumes "hash_table_ok none P b m t" "list_all2 (item_ok m) es ss" "distinct ss" "\<forall>s \<in> set ss. lookup b m t s = None"
    "card (taken b m t) + length ss \<le> 2 ^ b"
  shows "\<exists>ps t'. enter_all m es t = Some (ps, t') \<and> hash_table_ok none P b m t' \<and> hash t' = hash t \<and> length ps = length ss \<and>
    (\<forall>q \<in> P - {hash t}. contents q (heap t') = contents q (heap t)) \<and>
    (\<forall>s. s \<notin> set ss \<longrightarrow> lookup b m t' s = lookup b m t s) \<and>
    (\<forall>j < 2 ^ b. keys m t j \<noteq> None \<longrightarrow> entry_at t' j = entry_at t j) \<and>
    (\<forall>i < length ss. \<exists>j. lookup b m t' (ss ! i) = Some j \<and> ps ! i = ent_addr t j \<and> entry_at t' j = es ! i)"
  using assms
proof (induction es arbitrary: ss t)
  case Nil
  then show ?case by auto
next
  case (Cons e es)
  obtain s sr where ss: "ss = s # sr" "item_ok m e s" "list_all2 (item_ok m) es sr" using Cons(3) by (cases ss) auto
  have fin: "finite (taken b m t)" by (simp add: taken_def)
  have "\<not> table_full b m t"
  proof
    assume "table_full b m t"
    then have "taken b m t = {..<2 ^ b}" by (auto simp: table_full_iff taken_def)
    then show False using Cons(6) ss(1) by simp
  qed
  then obtain j where j: "j < 2 ^ b" "keys m t j = None" "hsearch m e ENTER t = Some (ent_addr t j, put_hash j e t)"
      "hash_table_ok none P b m (put_hash j e t)" "lookup b m (put_hash j e t) = (lookup b m t)(s \<mapsto> j)"
    using hsearch_enter [OF Cons(2), of e s] ss Cons(5) by (auto simp: item_ok_def)
  let ?t = "put_hash j e t"
  note ep = entry_put [of e j t] keys_put [of e m s j t]
  have "taken b m ?t = insert j (taken b m t)" using ss(2) j(1) ep by (auto simp: taken_def item_ok_def)
  then have ca: "card (taken b m ?t) + length sr \<le> 2 ^ b"
    using Cons(6) j(2) fin by (simp add: ss(1) taken_def card_insert_if)
  have ab: "\<forall>u \<in> set sr. lookup b m ?t u = None" using Cons(4,5) by (auto simp: ss(1) j(5))
  obtain ps t' where r: "enter_all m es ?t = Some (ps, t')" "hash_table_ok none P b m t'" "hash t' = hash t" "length ps = length sr"
      "\<forall>q \<in> P - {hash t}. contents q (heap t') = contents q (heap ?t)"
      "\<forall>u. u \<notin> set sr \<longrightarrow> lookup b m t' u = lookup b m ?t u"
      "\<forall>i < 2 ^ b. keys m ?t i \<noteq> None \<longrightarrow> entry_at t' i = entry_at ?t i"
      "\<forall>i < length sr. \<exists>k. lookup b m t' (sr ! i) = Some k \<and> ps ! i = ent_addr ?t k \<and> entry_at t' k = es ! i"
    using Cons(1) [OF j(4) ss(3) _ ab ca] Cons(4) ss(1) by auto
  have "\<exists>k. lookup b m t' (ss ! i) = Some k \<and> (ent_addr t j # ps) ! i = ent_addr t k \<and> entry_at t' k = (e # es) ! i" if i: "i < length ss" for i
  proof (cases i)
    case 0
    have "s \<notin> set sr" using Cons(4) ss(1) by simp
    then have "lookup b m t' s = Some j" using r(6) j(5) by simp
    moreover have "entry_at t' j = e" using r(7) j(1) ep ss(2) by (simp add: item_ok_def)
    ultimately show ?thesis using 0 ss(1) by simp
  next
    case (Suc k)
    then show ?thesis using r(8) i ss(1) by auto
  qed
  moreover have "entry_at t' i = entry_at t i" if "i < 2 ^ b" "keys m t i \<noteq> None" for i
  proof -
    have "i \<noteq> j" using that j(2) by auto
    then show ?thesis using r(7) that ep ss(2) by (simp add: item_ok_def)
  qed
  moreover have "lookup b m t' u = lookup b m t u" if "u \<notin> set ss" for u using r(6) that ss(1) j(5) by simp
  moreover have "enter_all m (e # es) t = Some (ent_addr t j # ps, t')" using j(3) r(1) by simp
  moreover have "contents q (heap t') = contents q (heap t)" if "q \<in> P - {hash t}" for q
    using r(5) put_hash_area(3) [OF Cons(2) j(1) that] that by simp
  ultimately show ?case
    using r(2-4) ss(1) by (intro exI [of _ "ent_addr t j # ps"] exI [of _ t'] conjI) simp_all
qed

lemma hdestroy_frees:
  assumes "hash_table_ok none (insert (hash t) P) b m t" "hash t \<notin> P"
  obtains t' where "hdestroy none t = Some t'" "hash t' = NULL" "heap_ok none P (heap t')"
    "\<And>q. q \<in> P \<Longrightarrow> contents q (heap t') = contents q (heap t)"
proof -
  have "heap_ok none (insert (hash t) P) (heap t)" using assms(1) by (simp add: hash_table_ok_def)
  then obtain h where h: "nfree none (hash t) (heap t) = Some h" "heap_ok none (insert (hash t) P - {hash t}) h"
      "\<And>q. q \<in> insert (hash t) P - {hash t} \<Longrightarrow> contents q h = contents q (heap t)"
    by (rule nfree_pointer [of _ _ _ "hash t"]) auto
  show ?thesis by (rule that [of "t\<lparr>heap := h, hash := NULL\<rparr>"]) (use h assms(2) in \<open>auto simp: hdestroy_def\<close>)
qed

lemma hsearch_find:
  assumes "hash_table_ok none P b m t" "cstr m (key item) s"
  shows "hsearch m item FIND t = Some (case lookup b m t s of None \<Rightarrow> NULL | Some j \<Rightarrow> ent_addr t j, t)"
proof (cases "lookup b m t s")
  case None
  show ?thesis by (rule hsearch_absent [OF assms None, of FIND]) (simp_all add: None)
qed (simp add: hsearch_found [OF assms])

lemma map_of_entered:
  assumes "distinct ss" "length ps = length ss" "\<And>i. i < length ss \<Longrightarrow> \<exists>j. L (ss ! i) = Some j \<and> ps ! i = f j"
    "\<And>s. s \<notin> set ss \<Longrightarrow> L s = None"
  shows "map_of (zip ss ps) s = map_option f (L s)"
proof (cases "s \<in> set ss")
  case True
  then obtain i where i: "i < length ss" "s = ss ! i" by (auto simp: in_set_conv_nth)
  then have "map_of (zip ss ps) s = Some (ps ! i)" using assms(1,2) by (simp add: map_of_zip_nth)
  then show ?thesis using assms(3) [OF i(1)] i(2) by auto
next
  case False
  then show ?thesis using assms(2,4) by (simp add: map_of_zip_is_None)
qed

lemma table0:
  obtains t b where "hcreate 8 sbrk0 100 \<lparr>heap = heap0, hash = NULL, buckets = 0, hmask = - 1\<rparr> = Some (True, t)"
    "7 \<le> b" "hash_table_ok 8 {hash t} b m t" "lookup b m t = Map.empty"
proof -
  have s: "\<not> (\<exists>k \<le> 16 * wanted 100 + 1080. sbrk0 k = None)" by (auto simp: wanted_def sbrk0_def)
  show ?thesis
    by (rule hcreate_cases [of 8 "{}" "\<lparr>heap = heap0, hash = NULL, buckets = 0, hmask = - 1\<rparr>" sbrk0 100])
      (use heap0_ok s that in \<open>auto simp: MAX_BUCKETS_def word_less_nat_alt wanted_def\<close>)
qed

section \<open>Properties\<close>

text \<open>
  C10. \<^verbatim>\<open>hsearch\<close> implements a map from strings to slots. On a table that is in order it never faults and its loop ends, also
  when the table is full. If the key is in the table, the address of its entry is returned and nothing changes. If not,
  \<^verbatim>\<open>FIND\<close> returns the null pointer; \<^verbatim>\<open>ENTER\<close> stores the item in a free slot and returns its address, unless all slots are
  taken. The table stays in order, the other entries and the other areas of the heap are not touched.
\<close>

theorem hsearch_implements_map:
  assumes "hash_table_ok none P b m t" "item_ok m item s"
  shows "\<exists>r t'. hsearch m item action t = Some (r, t') \<and> hash_table_ok none P b m t' \<and>
    (\<forall>q \<in> P - {hash t}. contents q (heap t') = contents q (heap t)) \<and>
    (case lookup b m t s of
       Some j \<Rightarrow> r = ent_addr t j \<and> t' = t
     | None \<Rightarrow>
         if action = FIND \<or> table_full b m t then r = NULL \<and> t' = t
         else \<exists>j < 2 ^ b. key (entry_at t j) = NULL \<and> r = ent_addr t j \<and> lookup b m t' = (lookup b m t)(s \<mapsto> j) \<and>
           entry_at t' j = item \<and> (\<forall>i. i \<noteq> j \<longrightarrow> entry_at t' i = entry_at t i))"
proof (cases "lookup b m t s")
  case (Some j)
  then show ?thesis using hsearch_found [OF assms(1) _ Some] assms by (simp add: item_ok_def)
next
  case None
  have c: "key item < 2 ^ 32" "data item < 2 ^ 32" "cstr m (key item) s" using assms(2) by (auto simp: item_ok_def)
  show ?thesis
  proof (cases "action = FIND \<or> table_full b m t")
    case True
    have "hsearch m item action t = Some (NULL, t)"
      by (rule hsearch_absent [OF assms(1) c(3) None, of action]) (use True in auto)
    then show ?thesis using True None assms(1) by simp
  next
    case False
    then have a: "action = ENTER" by (cases action) auto
    obtain j where j: "j < 2 ^ b" "keys m t j = None" "hsearch m item ENTER t = Some (ent_addr t j, put_hash j item t)"
        "hash_table_ok none P b m (put_hash j item t)" "lookup b m (put_hash j item t) = (lookup b m t)(s \<mapsto> j)"
      using hsearch_enter [OF assms(1) c None] False by blast
    have "key (entry_at t j) = NULL" using j(2) by (auto simp: keys_def split: if_splits)
    then show ?thesis
      using False None a j put_hash_area(3) [OF assms(1) j(1)] entry_put [OF c(1,2)]
      by (intro exI [of _ "ent_addr t j"] exI [of _ "put_hash j item t"]) auto
  qed
qed

theorem hsearch_implements_map_witness:
  "\<exists>t b r t'. hash_table_ok 8 {hash t} b [0, 97, 98, 0] t \<and>
    hsearch [0, 97, 98, 0] \<lparr>key = 1, data = 7\<rparr> FIND t = Some (r, t') \<and> r = NULL \<and> t' = t"
proof -
  obtain t b where t: "hash_table_ok 8 {hash t} b [0, 97, 98, 0] t" "lookup b [0, 97, 98, 0] t = Map.empty" by (rule table0)
  have "item_ok [0, 97, 98, 0] \<lparr>key = 1, data = 7\<rparr> [97, 98]" by (simp add: item_ok_def rd_def)
  then show ?thesis using hsearch_implements_map [OF t(1), of "\<lparr>key = 1, data = 7\<rparr>" "[97, 98]" FIND] t by auto
qed

text \<open>
  C24. \<^verbatim>\<open>hcreate\<close> on a consistent heap, whose \<^verbatim>\<open>sbrk\<close> gives rising addresses (\<open>sbrk_ok\<close>), never aborts and ends. If it succeeds, the new area of the heap holds an empty table
  in order, with at least 128 slots and a third more than asked for; nothing else changes. It fails for more than
  \<open>2 ^ 29\<close> elements and, up to a hundred million, only when \<^verbatim>\<open>sbrk\<close> refuses memory; the heap is then as before. More
  than \<open>2 ^ 28\<close> slots are never obtained, since \<^verbatim>\<open>calloc\<close> refuses the product with the size of an entry.
\<close>

theorem hcreate_makes_table:
  assumes "heap_ok none P (heap t)" "sbrk_ok none sbrk (heap t)"
  shows "\<exists>r t'. hcreate none sbrk nel t = Some (r, t') \<and>
    (if r then wanted nel \<le> 2 ^ 28 \<and> hash t' \<notin> P \<and> (\<forall>q \<in> P. contents q (heap t') = contents q (heap t)) \<and>
       (\<exists>b \<ge> 7. wanted nel \<le> 2 ^ b \<and> (\<forall>m. hash_table_ok none (insert (hash t') P) b m t' \<and> lookup b m t' = Map.empty))
     else heap t' = heap t \<and> (unat nel \<le> 10 ^ 8 \<longrightarrow> (\<exists>k \<le> 16 * wanted nel + 1080. sbrk k = None)))"
proof (rule hcreate_cases [OF assms, of nel])
  fix b t' assume c: "hcreate none sbrk nel t = Some (True, t')" "7 \<le> b" "wanted nel \<le> 2 ^ b" "hash t' \<notin> P"
    "\<And>m. hash_table_ok none (insert (hash t') P) b m t'" "\<And>m. lookup b m t' = Map.empty"
    "\<And>q. q \<in> P \<Longrightarrow> contents q (heap t') = contents q (heap t)"
  have "(2 :: nat) ^ b \<le> 2 ^ 28" using c(5) by (intro power_increasing) (auto simp: hash_table_ok_def)
  then have "wanted nel \<le> 2 ^ 28" using c(3) by linarith
  then show ?thesis using c by (intro exI [of _ True] exI [of _ t']) auto
qed (auto simp: MAX_BUCKETS_def word_less_nat_alt wanted_def)

theorem hcreate_makes_table_witness:
  "\<exists>r t'. hcreate 8 sbrk0 100 \<lparr>heap = heap0, hash = NULL, buckets = 0, hmask = - 1\<rparr> = Some (r, t') \<and> r \<and>
    (\<exists>b \<ge> 7. wanted 100 \<le> 2 ^ b \<and> hash_table_ok 8 {hash t'} b [] t')"
proof -
  let ?t = "\<lparr>heap = heap0, hash = NULL, buckets = 0, hmask = - 1\<rparr>"
  have "\<not> (\<exists>k \<le> 16 * wanted 100 + 1080. sbrk0 k = None)" by (auto simp: wanted_def sbrk0_def)
  then show ?thesis using hcreate_makes_table [of 8 "{}" ?t sbrk0 100] heap0_ok by (fastforce split: if_splits)
qed

text \<open>
  C17. A table that \<^verbatim>\<open>hcreate\<close> made for \<open>nel\<close> elements on a consistent heap, whose \<^verbatim>\<open>sbrk\<close> gives rising addresses
  (\<open>sbrk_ok\<close>), has room for them. Up to \<open>nel\<close> items with different keys can be entered; all
  get an entry of their own, which holds the item. A search then finds the entry of each of these keys, by any copy of
  its string, and no other key. Destroying the table returns its area to the heap, which is consistent again and has the
  other areas as they were before the table was created.
\<close>

theorem hash_table_has_room:
  assumes "heap_ok none P (heap t)" "sbrk_ok none sbrk (heap t)" "hcreate none sbrk nel t = Some (True, t0)"
    "list_all2 (item_ok m) es ss" "distinct ss" "length ss \<le> unat nel"
  shows "\<exists>ps t1 t2. enter_all m es t0 = Some (ps, t1) \<and> length ps = length es \<and> distinct ps \<and> NULL \<notin> set ps \<and>
    (\<forall>i < length es. rd32 (bytes (heap t1)) (ps ! i) = key (es ! i) \<and> rd32 (bytes (heap t1)) (ps ! i + 4) = data (es ! i)) \<and>
    (\<forall>item s. cstr m (key item) s \<longrightarrow>
       hsearch m item FIND t1 = Some (case map_of (zip ss ps) s of None \<Rightarrow> NULL | Some p \<Rightarrow> p, t1)) \<and>
    hdestroy none t1 = Some t2 \<and> hash t2 = NULL \<and> heap_ok none P (heap t2) \<and> (\<forall>q \<in> P. contents q (heap t2) = contents q (heap t))"
proof -
  obtain b where c: "wanted nel \<le> 2 ^ b" "hash t0 \<notin> P" "hash_table_ok none (insert (hash t0) P) b m t0" "lookup b m t0 = Map.empty"
      "\<And>q. q \<in> P \<Longrightarrow> contents q (heap t0) = contents q (heap t)"
    by (rule hcreate_cases [OF assms(1,2), of nel]) (use assms(3) in auto)
  have "keys m t0 j = None" if "j < 2 ^ b" for j
    using that c(4) lookup_None [of b m t0] by (metis not_None_eq)
  then have "taken b m t0 = {}" by (auto simp: taken_def)
  then have tk: "card (taken b m t0) + length ss \<le> 2 ^ b" using assms(6) c(1) by (simp add: wanted_def)
  obtain ps t1 where r: "enter_all m es t0 = Some (ps, t1)" "hash_table_ok none (insert (hash t0) P) b m t1" "hash t1 = hash t0"
      "length ps = length ss" "\<And>q. q \<in> P \<Longrightarrow> contents q (heap t1) = contents q (heap t0)"
      "\<And>s. s \<notin> set ss \<Longrightarrow> lookup b m t1 s = None"
      "\<And>i. i < length ss \<Longrightarrow> \<exists>j. lookup b m t1 (ss ! i) = Some j \<and> ps ! i = ent_addr t1 j \<and> entry_at t1 j = es ! i"
    using enter_all_ok [OF c(3) assms(4,5) _ tk] c(2,4) by (auto simp: ent_addr_def)
  obtain t2 where d: "hdestroy none t1 = Some t2" "hash t2 = NULL" "heap_ok none P (heap t2)"
      "\<And>q. q \<in> P \<Longrightarrow> contents q (heap t2) = contents q (heap t1)"
    by (rule hdestroy_frees [of none t1 P b m]) (use r(2,3) c(2) in auto)
  have z: "hash t1 \<noteq> NULL" using heap_ok_areas(1) [of none _ "heap t1" "hash t1"] r(2) by (auto simp: hash_table_ok_def)
  have "distinct ps"
    unfolding distinct_conv_nth
  proof (intro allI impI)
    fix i k assume i: "i < length ps" "k < length ps" "i \<noteq> k"
    obtain x y where "lookup b m t1 (ss ! i) = Some x" "ps ! i = ent_addr t1 x" "lookup b m t1 (ss ! k) = Some y" "ps ! k = ent_addr t1 y"
      using r(7) i r(4) by metis
    moreover have "ss ! i \<noteq> ss ! k" using i r(4) assms(5) by (simp add: nth_eq_iff_index_eq)
    ultimately show "ps ! i \<noteq> ps ! k" by (auto simp: lookup_Some [OF r(2)] ent_addr_def)
  qed
  moreover have "NULL \<notin> set ps" using r(4,7) z by (fastforce simp: in_set_conv_nth ent_addr_def)
  moreover have "rd32 (bytes (heap t1)) (ps ! i) = key (es ! i) \<and> rd32 (bytes (heap t1)) (ps ! i + 4) = data (es ! i)" if i: "i < length es" for i
  proof -
    obtain j where "ps ! i = ent_addr t1 j" "es ! i = entry_at t1 j" using r(7) [of i] i list_all2_lengthD [OF assms(4)] by auto
    then show ?thesis by (simp add: entry_at_def)
  qed
  moreover have "hsearch m item FIND t1 = Some (case map_of (zip ss ps) s of None \<Rightarrow> NULL | Some p \<Rightarrow> p, t1)" if "cstr m (key item) s" for item s
  proof -
    have "map_of (zip ss ps) s = map_option (ent_addr t1) (lookup b m t1 s)"
      by (rule map_of_entered [OF assms(5) r(4) _ r(6)]) (use r(7) in blast)
    then show ?thesis using hsearch_find [OF r(2) that] by (simp split: option.splits)
  qed
  ultimately show ?thesis
    using r(1,4,5) d c(5) list_all2_lengthD [OF assms(4)] by (intro exI [of _ ps] exI [of _ t1] exI [of _ t2]) auto
qed

theorem hash_table_has_room_witness:
  "\<exists>t0 ps t1. hcreate 8 sbrk0 100 \<lparr>heap = heap0, hash = NULL, buckets = 0, hmask = - 1\<rparr> = Some (True, t0) \<and>
    enter_all [0, 97, 98, 0, 99, 0] [\<lparr>key = 1, data = 7\<rparr>, \<lparr>key = 4, data = 9\<rparr>] t0 = Some (ps, t1) \<and>
    length ps = 2 \<and> NULL \<notin> set ps"
proof -
  let ?m = "[0, 97, 98, 0, 99, 0] :: mem" and ?es = "[\<lparr>key = 1, data = 7\<rparr>, \<lparr>key = 4, data = 9\<rparr>]" and ?ss = "[[97, 98], [99]] :: byte list list"
  obtain t0 where t: "hcreate 8 sbrk0 100 \<lparr>heap = heap0, hash = NULL, buckets = 0, hmask = - 1\<rparr> = Some (True, t0)" by (rule table0)
  have "list_all2 (item_ok ?m) ?es ?ss" by (simp add: item_ok_def rd_def)
  then show ?thesis using hash_table_has_room [OF _ _ t, of "{}" ?m ?es ?ss] heap0_ok t by auto
qed

end
