(* ===== verification/Lsearch.thy ===== *)
theory Lsearch
  imports Nmalloc
begin

text \<open>
  Linear search, \<^verbatim>\<open>lfind\<close> and \<^verbatim>\<open>lsearch\<close> of \<^verbatim>\<open>posix/search/lfind.c\<close>, and the queues of \<^verbatim>\<open>compat/search\<close>: \<^verbatim>\<open>insque\<close> and
  \<^verbatim>\<open>remque\<close>, which link an element into a doubly linked list and out of it. The comparison is an argument: any function
  of the memory and two pointers. The number of elements, which the caller passes by reference, is part of the result.
\<close>

section \<open>Linear search\<close>

type_synonym compar = "(nat \<Rightarrow> byte) \<Rightarrow> nat \<Rightarrow> nat \<Rightarrow> int"

function l_scan :: "compar \<Rightarrow> nat \<Rightarrow> nat \<Rightarrow> nat \<Rightarrow> (nat \<Rightarrow> byte) \<Rightarrow> nat \<Rightarrow> nat \<Rightarrow> nat \<times> nat" where
  "l_scan compar key nel width m i base =
     (if i < nel \<and> compar m base key \<noteq> 0 then l_scan compar key nel width m (i + 1) (base + width) else (i, base))"
  by pat_completeness auto
termination by (relation "measure (\<lambda>(compar, key, nel, width, m, i, base). nel - i)") auto

declare l_scan.simps [simp del]

definition l_general :: "compar \<Rightarrow> nat \<Rightarrow> nat \<Rightarrow> nat \<Rightarrow> nat \<Rightarrow> bool \<Rightarrow> (nat \<Rightarrow> byte) \<Rightarrow> nat \<times> nat \<times> (nat \<Rightarrow> byte)" where
  "l_general compar key base nel width add m =
     (let (i, base) = l_scan compar key nel width m 0 base in
      if i < nel then (base, nel, m)
      else if add then (base, (nel + 1) mod 2 ^ 32, copy_bytes base key width m)
      else (NULL, nel, m))"

definition lfind :: "compar \<Rightarrow> nat \<Rightarrow> nat \<Rightarrow> nat \<Rightarrow> nat \<Rightarrow> (nat \<Rightarrow> byte) \<Rightarrow> nat \<times> nat \<times> (nat \<Rightarrow> byte)" where
  "lfind compar key base nel width m = l_general compar key base nel width False m"

definition lsearch :: "compar \<Rightarrow> nat \<Rightarrow> nat \<Rightarrow> nat \<Rightarrow> nat \<Rightarrow> (nat \<Rightarrow> byte) \<Rightarrow> nat \<times> nat \<times> (nat \<Rightarrow> byte)" where
  "lsearch compar key base nel width m = l_general compar key base nel width True m"

text \<open>The first element that equals the key, by its index.\<close>

definition first_equal :: "compar \<Rightarrow> nat \<Rightarrow> nat \<Rightarrow> nat \<Rightarrow> nat \<Rightarrow> (nat \<Rightarrow> byte) \<Rightarrow> nat option" where
  "first_equal compar key base nel width m = List.find (\<lambda>k. compar m (base + k * width) key = 0) [0..<nel]"

lemma l_scan_first:
  "i \<le> nel \<Longrightarrow> l_scan compar key nel width m i (base + i * width) =
     (case List.find (\<lambda>k. compar m (base + k * width) key = 0) [i..<nel] of
        None \<Rightarrow> (nel, base + nel * width) | Some k \<Rightarrow> (k, base + k * width))"
proof (induction "nel - i" arbitrary: i)
  case 0
  then show ?case by (subst l_scan.simps) simp
next
  case (Suc d)
  then have i: "i < nel" "[i..<nel] = i # [Suc i..<nel]" by (auto simp: upt_conv_Cons)
  have e: "base + i * width + width = base + Suc i * width" by simp
  show ?case
  proof (cases "compar m (base + i * width) key = 0")
    case True
    then show ?thesis using i by (subst l_scan.simps) simp
  next
    case False
    then have "l_scan compar key nel width m i (base + i * width) = l_scan compar key nel width m (Suc i) (base + Suc i * width)"
      using i(1) by (subst l_scan.simps) (simp only: e Suc_eq_plus1 simp_thms if_True)
    also have "\<dots> = (case List.find (\<lambda>k. compar m (base + k * width) key = 0) [Suc i..<nel] of
        None \<Rightarrow> (nel, base + nel * width) | Some k \<Rightarrow> (k, base + k * width))"
      by (rule Suc(1)) (use Suc(2) i(1) in auto)
    finally show ?thesis using False by (simp only: i(2) find.simps if_False)
  qed
qed

lemma first_equal_Some: "first_equal compar key base nel width m = Some k \<Longrightarrow>
    k < nel \<and> compar m (base + k * width) key = 0 \<and> (\<forall>j < k. compar m (base + j * width) key \<noteq> 0)"
  by (auto simp: first_equal_def find_Some_iff)

lemma l_general_result:
  "l_general compar key base nel width add m =
     (case first_equal compar key base nel width m of
        Some k \<Rightarrow> (base + k * width, nel, m)
      | None \<Rightarrow> if add then (base + nel * width, (nel + 1) mod 2 ^ 32, copy_bytes (base + nel * width) key width m)
          else (NULL, nel, m))"
proof (cases "first_equal compar key base nel width m")
  case None
  then show ?thesis using l_scan_first [of 0 nel compar key width m base] by (simp add: l_general_def first_equal_def)
next
  case (Some k)
  then show ?thesis using l_scan_first [of 0 nel compar key width m base] first_equal_Some [OF Some]
    by (simp add: l_general_def first_equal_def)
qed

text \<open>A comparison by contents does not see where its arguments are stored.\<close>

definition by_contents :: "nat \<Rightarrow> (byte list \<Rightarrow> byte list \<Rightarrow> int) \<Rightarrow> compar" where
  "by_contents width f m p q = f (map (\<lambda>i. m (p + i)) [0..<width]) (map (\<lambda>i. m (q + i)) [0..<width])"

lemma by_contents_copy:
  assumes "dst + width \<le> p \<or> p + width \<le> dst" "dst + width \<le> q \<or> q + width \<le> dst"
  shows "by_contents width f (copy_bytes dst q width m) p q = by_contents width f m p q"
    "by_contents width f (copy_bytes dst q width m) dst q = f (map (\<lambda>i. m (q + i)) [0..<width]) (map (\<lambda>i. m (q + i)) [0..<width])"
proof -
  have k: "copy_bytes dst q width m (x + i) = m (x + i)" if "dst + width \<le> x \<or> x + width \<le> dst" "i < width" for x i
    using that by (auto simp: copy_bytes_def)
  have d: "copy_bytes dst q width m (dst + i) = m (q + i)" if "i < width" for i using that by (simp add: copy_bytes_def)
  show "by_contents width f (copy_bytes dst q width m) p q = by_contents width f m p q"
    unfolding by_contents_def using k [OF assms(1)] k [OF assms(2)] by (intro arg_cong2 [where f = f] map_cong) auto
  show "by_contents width f (copy_bytes dst q width m) dst q = f (map (\<lambda>i. m (q + i)) [0..<width]) (map (\<lambda>i. m (q + i)) [0..<width])"
    unfolding by_contents_def using d k [OF assms(2)] by (intro arg_cong2 [where f = f] map_cong) auto
qed

section \<open>Queues\<close>

record qelem =
  q_forw :: nat
  q_back :: nat

type_synonym qstore = "nat \<Rightarrow> qelem"

definition insque :: "nat \<Rightarrow> nat \<Rightarrow> qstore \<Rightarrow> qstore" where
  "insque e p st =
     (if e = NULL \<or> p = NULL then st
      else let st = st(e := (st e)\<lparr>q_back := p\<rparr>);
               st = st(e := (st e)\<lparr>q_forw := q_forw (st p)\<rparr>);
               st = (if q_forw (st p) \<noteq> NULL then st(q_forw (st p) := (st (q_forw (st p)))\<lparr>q_back := e\<rparr>) else st)
           in st(p := (st p)\<lparr>q_forw := e\<rparr>))"

definition remque :: "nat \<Rightarrow> qstore \<Rightarrow> qstore" where
  "remque e st =
     (if e = NULL then st
      else let st = (if q_forw (st e) \<noteq> NULL then st(q_forw (st e) := (st (q_forw (st e)))\<lparr>q_back := q_back (st e)\<rparr>) else st)
           in if q_back (st e) \<noteq> NULL then st(q_back (st e) := (st (q_back (st e)))\<lparr>q_forw := q_forw (st e)\<rparr>) else st)"

text \<open>Neighbours point to each other; the null pointer stands for the end of a queue that is not a ring.\<close>

definition link :: "qstore \<Rightarrow> nat \<Rightarrow> nat \<Rightarrow> bool" where
  "link st x y \<longleftrightarrow> (x \<noteq> NULL \<longrightarrow> q_forw (st x) = y) \<and> (y \<noteq> NULL \<longrightarrow> q_back (st y) = x)"

definition chain :: "qstore \<Rightarrow> nat list \<Rightarrow> bool" where
  "chain st zs \<longleftrightarrow> successively (link st) zs \<and> distinct (butlast zs) \<and> distinct (tl zs)"

definition queue :: "qstore \<Rightarrow> nat list \<Rightarrow> bool" where
  "queue st xs \<longleftrightarrow> chain st (NULL # xs @ [NULL])"

definition ring :: "qstore \<Rightarrow> nat list \<Rightarrow> bool" where
  "ring st xs \<longleftrightarrow> xs \<noteq> [] \<and> NULL \<notin> set xs \<and> chain st (xs @ [hd xs])"

lemma successively_split:
  "successively P (us @ p # q # vs) \<longleftrightarrow> successively P (us @ [p]) \<and> P p q \<and> successively P (q # vs)"
  by (auto simp: successively_append_iff)

text \<open>Pairs are kept when the first is not the one whose successor changed, nor the second the one whose predecessor did.\<close>

lemma successively_keep:
  assumes "successively P zs" "\<And>x y. x \<in> set (butlast zs) \<Longrightarrow> y \<in> set (tl zs) \<Longrightarrow> P x y \<Longrightarrow> Q x y"
  shows "successively Q zs"
  unfolding successively_conv_nth
proof (intro allI impI)
  fix i assume i: "Suc i < length zs"
  then have "zs ! i \<in> set (butlast zs)" "zs ! Suc i \<in> set (tl zs)"
    by (auto simp: in_set_conv_nth nth_butlast nth_tl intro!: exI [of _ i])
  then show "Q (zs ! i) (zs ! Suc i)" using assms i by (simp add: successively_conv_nth)
qed

lemma chain_insque:
  assumes c: "chain st (us @ p # q # vs)" and e: "e \<noteq> NULL" "e \<notin> set (us @ p # q # vs)" and p: "p \<noteq> NULL"
  shows "chain (insque e p st) (us @ p # e # q # vs)"
proof -
  have l: "successively (link st) (us @ [p])" "link st p q" "successively (link st) (q # vs)"
    using c by (simp_all add: chain_def successively_split)
  have d: "distinct (us @ p # butlast (q # vs))" "distinct (tl (us @ [p]) @ q # vs)"
    using c by (auto simp: chain_def butlast_append tl_append split: list.splits)
  have f: "q_forw (st p) = q" using l(2) p by (simp add: link_def)
  have new: "insque e p st x = (if x = p then (if p = q then \<lparr>q_forw = e, q_back = e\<rparr> else (st p)\<lparr>q_forw := e\<rparr>)
      else if x = e then (st e)\<lparr>q_forw := q, q_back := p\<rparr> else if x = q \<and> q \<noteq> NULL then (st q)\<lparr>q_back := e\<rparr> else st x)" for x
    using e p f by (auto simp: insque_def Let_def)
  have k: "link (insque e p st) x y" if "link st x y" "x \<noteq> p" "x \<noteq> e" "y \<noteq> q" "y \<noteq> e" for x y
    using that p by (auto simp: new link_def)
  have t: "set (tl (us @ [p])) \<subseteq> set (us @ [p])" by (cases us) auto
  have "successively (link (insque e p st)) (us @ [p])"
    by (rule successively_keep [OF l(1)]) (use d e(2) t in \<open>auto intro!: k dest: in_set_butlastD\<close>)
  moreover have "successively (link (insque e p st)) (q # vs)"
    by (rule successively_keep [OF l(3)]) (use d e(2) in \<open>auto intro!: k dest: in_set_butlastD split: if_splits\<close>)
  moreover have "link (insque e p st) p e" "link (insque e p st) e q" using e p by (auto simp: new link_def)
  moreover have "distinct (butlast (us @ p # e # q # vs))" "distinct (tl (us @ p # e # q # vs))"
    using c e(2) by (cases us; auto simp: chain_def butlast_append dest: in_set_butlastD)+
  ultimately show ?thesis by (simp add: chain_def successively_split [of _ us p "e"])
qed

lemma chain_remque:
  assumes c: "chain st (us @ x # e # y # vs)" and e: "e \<noteq> NULL" "e \<notin> set us" "e \<noteq> x" "e \<noteq> y" "e \<notin> set vs"
  shows "chain (remque e st) (us @ x # y # vs)"
proof -
  have l: "successively (link st) (us @ [x])" "link st x e" "link st e y" "successively (link st) (y # vs)"
    using c by (simp_all add: chain_def successively_split)
  have d: "distinct (us @ x # e # butlast (y # vs))" "distinct (tl (us @ [x]) @ e # y # vs)"
    using c by (auto simp: chain_def butlast_append tl_append split: list.splits)
  have f: "q_forw (st e) = y" "q_back (st e) = x" using l(2,3) e by (auto simp: link_def)
  have new: "remque e st z = (let a = (if z = y \<and> y \<noteq> NULL then (st z)\<lparr>q_back := x\<rparr> else st z) in
      if z = x \<and> x \<noteq> NULL then a\<lparr>q_forw := y\<rparr> else a)" for z
    using e f by (auto simp: remque_def Let_def)
  have k: "link (remque e st) a b" if "link st a b" "a \<noteq> x" "b \<noteq> y" for a b
    using that by (auto simp: new link_def Let_def)
  have "successively (link (remque e st)) (us @ [x])"
    by (rule successively_keep [OF l(1)]) (use d in \<open>auto intro!: k\<close>)
  moreover have "successively (link (remque e st)) (y # vs)"
    by (rule successively_keep [OF l(4)]) (use d in \<open>auto intro!: k dest: in_set_butlastD split: if_splits\<close>)
  moreover have "link (remque e st) x y" by (auto simp: new link_def Let_def)
  moreover have "distinct (butlast (us @ x # y # vs))" "distinct (tl (us @ x # y # vs))"
    using c by (cases us; auto simp: chain_def butlast_append dest: in_set_butlastD split: if_splits)+
  ultimately show ?thesis by (simp add: chain_def successively_split)
qed

lemma queue_insque:
  assumes "queue st (us @ p # vs)" "e \<noteq> NULL" "e \<notin> set (us @ p # vs)"
  shows "queue (insque e p st) (us @ p # e # vs)"
proof -
  have p: "p \<noteq> NULL" using assms(1) by (auto simp: queue_def chain_def)
  obtain q ws where q: "vs @ [NULL] = q # ws" by (cases vs) auto
  have "set (q # ws) = insert NULL (set vs)" using q by (metis list.simps(15) rotate1.simps(2) set_rotate1)
  then have "e \<notin> set ((NULL # us) @ p # q # ws)" using assms(2,3) by auto
  then show ?thesis using chain_insque [of st "NULL # us" p q ws e] assms p q by (simp add: queue_def)
qed

lemma queue_remque:
  assumes "queue st (us @ e # vs)"
  shows "queue (remque e st) (us @ vs)"
proof -
  obtain x ws where x: "NULL # us = ws @ [x]" by (metis append_butlast_last_id list.distinct(1))
  obtain y zs where y: "vs @ [NULL] = y # zs" by (cases vs) auto
  have d: "distinct (NULL # us @ e # vs)" "distinct (us @ e # vs @ [NULL])" using assms by (auto simp: queue_def chain_def)
  have "e \<notin> set (ws @ [x])" "e \<notin> set (y # zs)" "e \<noteq> NULL" using d x [symmetric] y [symmetric] by auto
  moreover have "NULL # us @ e # vs @ [NULL] = ws @ x # e # y # zs" "NULL # us @ vs @ [NULL] = ws @ x # y # zs"
    using x y by (metis append.assoc append_Cons append_Nil)+
  ultimately show ?thesis using chain_remque [of st ws x e y zs] assms by (simp add: queue_def)
qed

lemma ring_insque:
  assumes "ring st (us @ p # vs)" "e \<noteq> NULL" "e \<notin> set (us @ p # vs)"
  shows "ring (insque e p st) (us @ p # e # vs)"
proof -
  obtain u where u: "\<And>ws. hd (us @ p # ws) = u" "u \<in> set (us @ [p])" by (cases us) auto
  have p: "p \<noteq> NULL" using assms(1) by (auto simp: ring_def)
  obtain q ws where q: "vs @ [u] = q # ws" by (cases vs) auto
  have "set (q # ws) = set (vs @ [u])" by (simp only: q)
  then have "e \<notin> set (us @ p # q # ws)" using assms(3) u(2) by auto
  moreover have "(us @ p # vs) @ [hd (us @ p # vs)] = us @ p # q # ws" "(us @ p # e # vs) @ [hd (us @ p # e # vs)] = us @ p # e # q # ws"
    unfolding u(1) using q by simp_all
  ultimately show ?thesis using chain_insque [of st us p q ws e] assms(1,2) p unfolding ring_def by simp
qed

lemma ring_rotate:
  assumes "ring st (x # xs)"
  shows "ring st (xs @ [x])"
proof (cases xs)
  case (Cons y ys)
  have "successively (link st) (xs @ [x])" "link st x y" using assms Cons by (auto simp: ring_def chain_def)
  then have "successively (link st) (xs @ [x, y])" by (simp add: successively_split [of _ xs x y "[]"])
  then show ?thesis using assms Cons by (auto simp: ring_def chain_def butlast_append)
qed (use assms in simp)

lemma ring_remque:
  assumes "ring st (us @ e # vs)" "us @ vs \<noteq> []"
  shows "ring (remque e st) (us @ vs)"
proof (cases us)
  case Nil
  then obtain v ws where v: "vs = v # ws" using assms(2) by (cases vs) auto
  then obtain x zs where x: "vs = zs @ [x]" by (metis append_butlast_last_id list.distinct(1))
  have r: "ring st (vs @ [e])" using assms(1) Nil ring_rotate by simp
  then have d: "e \<notin> set vs" "e \<noteq> NULL" by (auto simp: ring_def chain_def butlast_append)
  have hv: "hd (vs @ [e]) = v" "hd vs = v" "v \<in> set vs" using v by simp_all
  have "chain st (zs @ x # e # v # [])" using r unfolding ring_def hv(1) by (simp add: x)
  then have "chain (remque e st) (zs @ x # v # [])" by (rule chain_remque) (use d x hv(3) in auto)
  then show ?thesis using r Nil assms(2) unfolding ring_def by (simp add: hv(2)) (simp add: x)
next
  case (Cons u us')
  then obtain x zs where x: "us = zs @ [x]" by (metis append_butlast_last_id list.distinct(1))
  obtain y ws where y: "vs @ [u] = y # ws" by (cases vs) auto
  have d: "e \<notin> set us" "e \<notin> set vs" "e \<noteq> NULL" using assms(1) Cons by (auto simp: ring_def chain_def butlast_append)
  then have "e \<notin> set (y # ws)" using y [symmetric] Cons by auto
  moreover have h: "hd (us @ zs) = u" for zs using Cons by simp
  moreover have "chain st (zs @ x # e # y # ws)" using assms(1) unfolding ring_def h by (simp add: y) (simp add: x)
  ultimately have "chain (remque e st) (zs @ x # y # ws)" using d x by (intro chain_remque) auto
  then show ?thesis using assms unfolding ring_def h by (simp add: y) (simp add: x)
qed

lemma lsearch_again:
  assumes f: "\<And>x. f x x = 0" and d: "key + width \<le> base \<or> base + (nel + 1) * width \<le> key" and n: "nel + 1 < 2 ^ 32"
    and e: "first_equal (by_contents width f) key base nel width m = None"
  shows "lsearch (by_contents width f) key base (nel + 1) width (copy_bytes (base + nel * width) key width m) =
    (base + nel * width, nel + 1, copy_bytes (base + nel * width) key width m)"
proof -
  let ?m = "copy_bytes (base + nel * width) key width m"
  have a: "base + k * width + width \<le> base + nel * width" if "k < nel" for k
    using mult_le_mono1 [of "k + 1" nel width] that by simp
  have o: "base + nel * width + width \<le> key \<or> key + width \<le> base + nel * width" using d by auto
  have "by_contents width f ?m (base + k * width) key \<noteq> 0" if "k < nel" for k
    using by_contents_copy(1) [OF _ o, of "base + k * width" f m] a [OF that] e that by (auto simp: first_equal_def find_None_iff)
  moreover have "by_contents width f ?m (base + nel * width) key = 0" using by_contents_copy(2) [OF o o, of f m] f by simp
  ultimately have "first_equal (by_contents width f) key base (nel + 1) width ?m = Some nel"
    unfolding first_equal_def find_Some_iff by (intro exI [of _ nel]) (simp add: nth_append)
  then show ?thesis using n by (simp add: lsearch_def l_general_result)
qed

section \<open>Properties\<close>

text \<open>
  \<^verbatim>\<open>lfind\<close> returns the address of the first element that equals the key, and the null pointer if there is none.
  \<^verbatim>\<open>lsearch\<close> does the same for a key that is present; otherwise it copies the key behind the last element, counts it and
  returns its address, and changes no other byte. With a comparison by contents, which finds a key equal to itself, and a
  key outside of the array, a second \<^verbatim>\<open>lsearch\<close> finds what the first one has added.
\<close>

theorem lsearch_adds_once:
  assumes "\<forall>x. f x x = 0" "key + width \<le> base \<or> base + (nel + 1) * width \<le> key" "nel + 1 < 2 ^ 32"
  shows "case first_equal (by_contents width f) key base nel width m of
      Some k \<Rightarrow> k < nel \<and> by_contents width f m (base + k * width) key = 0 \<and>
        (\<forall>j < k. by_contents width f m (base + j * width) key \<noteq> 0) \<and>
        lfind (by_contents width f) key base nel width m = (base + k * width, nel, m) \<and>
        lsearch (by_contents width f) key base nel width m = (base + k * width, nel, m)
    | None \<Rightarrow> (\<forall>k < nel. by_contents width f m (base + k * width) key \<noteq> 0) \<and>
        lfind (by_contents width f) key base nel width m = (NULL, nel, m) \<and>
        (\<exists>m'. lsearch (by_contents width f) key base nel width m = (base + nel * width, nel + 1, m') \<and>
          (\<forall>i < width. m' (base + nel * width + i) = m (key + i)) \<and>
          (\<forall>a. a < base + nel * width \<or> base + (nel + 1) * width \<le> a \<longrightarrow> m' a = m a) \<and>
          lsearch (by_contents width f) key base (nel + 1) width m' = (base + nel * width, nel + 1, m'))"
proof (cases "first_equal (by_contents width f) key base nel width m")
  case None
  let ?m = "copy_bytes (base + nel * width) key width m"
  have "\<forall>k < nel. by_contents width f m (base + k * width) key \<noteq> 0" using None by (simp add: first_equal_def find_None_iff)
  moreover have "lfind (by_contents width f) key base nel width m = (NULL, nel, m)"
    "lsearch (by_contents width f) key base nel width m = (base + nel * width, nel + 1, ?m)"
    using None assms(3) by (simp_all add: lfind_def lsearch_def l_general_result)
  moreover have "lsearch (by_contents width f) key base (nel + 1) width ?m = (base + nel * width, nel + 1, ?m)"
    using lsearch_again [OF _ assms(2,3) None] assms(1) by simp
  moreover have "\<forall>i < width. ?m (base + nel * width + i) = m (key + i)"
    "\<forall>a. a < base + nel * width \<or> base + (nel + 1) * width \<le> a \<longrightarrow> ?m a = m a"
    by (auto simp: copy_bytes_def)
  ultimately show ?thesis unfolding None option.case by blast
next
  case (Some k)
  then show ?thesis using first_equal_Some [OF Some] by (simp add: lfind_def lsearch_def l_general_result)
qed

theorem lsearch_adds_once_witness:
  "\<exists>m'. lsearch (by_contents 1 (\<lambda>x y. if x = y then 0 else 1)) 8 16 2 1 (\<lambda>a. of_nat a) = (18, 3, m') \<and> m' 18 = 8"
proof -
  let ?f = "\<lambda>x y :: byte list. if x = y then 0 else 1 :: int"
  have e: "first_equal (by_contents 1 ?f) 8 16 2 1 (\<lambda>a. of_nat a) = None"
    by (simp add: first_equal_def by_contents_def upt_rec)
  then show ?thesis using lsearch_adds_once [of ?f 8 1 16 2 "\<lambda>a. of_nat a"] by auto
qed

text \<open>
  C29. \<^verbatim>\<open>insque\<close> links a new element into a queue behind the given one, and \<^verbatim>\<open>remque\<close> takes an element out of it, whether
  the queue ends with null pointers on both sides or is closed to a ring: the pointers again describe the list with the
  element inserted or removed. Removing what was inserted gives the queue back.
\<close>

theorem insque_remque:
  assumes "e \<noteq> NULL" "e \<notin> set (us @ p # vs)"
  shows "(queue st (us @ p # vs) \<longrightarrow> queue (insque e p st) (us @ p # e # vs) \<and> queue (remque e (insque e p st)) (us @ p # vs)) \<and>
    (ring st (us @ p # vs) \<longrightarrow> ring (insque e p st) (us @ p # e # vs) \<and> ring (remque e (insque e p st)) (us @ p # vs)) \<and>
    (queue st (us @ e # vs) \<longrightarrow> queue (remque e st) (us @ vs)) \<and>
    (ring st (us @ e # vs) \<and> us @ vs \<noteq> [] \<longrightarrow> ring (remque e st) (us @ vs))"
  using queue_insque [of st us p vs e] ring_insque [of st us p vs e] queue_remque [of _ us e vs] ring_remque [of _ us e vs]
    queue_remque [of "insque e p st" "us @ [p]" e vs] ring_remque [of "insque e p st" "us @ [p]" e vs] assms
  by auto

theorem insque_remque_witness:
  "queue (insque 5 3 (\<lambda>_. \<lparr>q_forw = NULL, q_back = NULL\<rparr>)) [3, 5] \<and> ring (insque 5 3 (\<lambda>_. \<lparr>q_forw = 3, q_back = 3\<rparr>)) [3, 5]"
proof -
  have "queue (\<lambda>_. \<lparr>q_forw = NULL, q_back = NULL\<rparr>) [3]" "ring (\<lambda>_. \<lparr>q_forw = 3, q_back = 3\<rparr>) [3]"
    by (simp_all add: queue_def ring_def chain_def link_def)
  then show ?thesis
    using insque_remque [of 5 "[]" 3 "[]" "\<lambda>_. \<lparr>q_forw = NULL, q_back = NULL\<rparr>"]
      insque_remque [of 5 "[]" 3 "[]" "\<lambda>_. \<lparr>q_forw = 3, q_back = 3\<rparr>"] by simp
qed

end
