(* ===== verification/Calendar.thy ===== *)
theory Calendar
  imports Prelude "HOL-Library.Signed_Division"
begin

text \<open>
  The Gregorian calendar, extended in both directions: leap years, the number of days before a year and before a month,
  and the day of the week. These are the reference for the conversions of \<^verbatim>\<open>ansi/time/ctime.c\<close>, next to the tables and the
  macro \<^verbatim>\<open>isleap\<close> that the code itself uses.
\<close>

section \<open>Tables of the code\<close>

definition isleap :: "int \<Rightarrow> bool" where
  "isleap y \<longleftrightarrow> y smod 4 = 0 \<and> y smod 100 \<noteq> 0 \<or> y smod 400 = 0"

definition mon_lengths :: "bool \<Rightarrow> int list" where
  "mon_lengths leap = [31, if leap then 29 else 28, 31, 30, 31, 30, 31, 31, 30, 31, 30, 31]"

definition year_lengths :: "bool \<Rightarrow> int" where
  "year_lengths leap = (if leap then 366 else 365)"

abbreviation year_days :: "int \<Rightarrow> int" where "year_days y \<equiv> year_lengths (isleap y)"

section \<open>Days\<close>

text \<open>Days from the first of January of the year 1 to the first of January of \<open>y\<close>.\<close>

definition before_year :: "int \<Rightarrow> int" where
  "before_year y = 365 * (y - 1) + (y - 1) div 4 - (y - 1) div 100 + (y - 1) div 400"

definition before_month :: "bool \<Rightarrow> nat \<Rightarrow> int" where
  "before_month leap m = sum_list (take m (mon_lengths leap))"

text \<open>Days since the first of January 1970 of the day \<open>yd\<close>, from 0, of the year \<open>y\<close>, and of a date.\<close>

definition day_number :: "int \<Rightarrow> int \<Rightarrow> int" where
  "day_number y yd = before_year y - before_year 1970 + yd"

definition date_number :: "int \<Rightarrow> nat \<Rightarrow> int \<Rightarrow> int" where
  "date_number y m d = day_number y (before_month (isleap y) m + (d - 1))"

definition valid_date :: "int \<Rightarrow> nat \<Rightarrow> int \<Rightarrow> bool" where
  "valid_date y m d \<longleftrightarrow> m < 12 \<and> 1 \<le> d \<and> d \<le> mon_lengths (isleap y) ! m"

text \<open>The first of January 1970 was a Thursday; Sunday is 0.\<close>

definition weekday :: "int \<Rightarrow> int" where
  "weekday n = (n + 4) mod 7"

lemma smod_0_iff: "0 < b \<Longrightarrow> (a :: int) smod b = 0 \<longleftrightarrow> a mod b = 0"
  using pos_mod_bound [of b a] by (auto simp: signed_modulo_int_def sgn_if abs_if zmod_zminus1_eq_if simp del: pos_mod_bound)

lemma isleap_mod: "isleap y \<longleftrightarrow> y mod 4 = 0 \<and> y mod 100 \<noteq> 0 \<or> y mod 400 = 0"
  by (simp add: isleap_def smod_0_iff)

lemma year_days_pos: "365 \<le> year_lengths b" "year_lengths b \<le> 366"
  by (simp_all add: year_lengths_def)

lemma div_pred: "0 < k \<Longrightarrow> (y - 1) div k = y div k - (if y mod k = 0 then 1 else 0)" for y k :: int
proof (cases "y mod k = 0")
  case True
  assume k: "0 < k"
  have "y = k * (y div k)" using True mult_div_mod_eq [of k y] by simp
  then have "y - 1 = k * (y div k - 1) + (k - 1)" by (simp add: right_diff_distrib)
  then show ?thesis using True k int_div_pos_eq [of "y - 1" k "y div k - 1" "k - 1"] by simp
next
  case False
  assume k: "0 < k"
  have "y - 1 = k * (y div k) + (y mod k - 1)" using mult_div_mod_eq [of k y] by linarith
  moreover have "0 < y mod k" "y mod k < k" using False k by (simp_all add: le_neq_trans)
  ultimately show ?thesis using False int_div_pos_eq [of "y - 1" k "y div k" "y mod k - 1"] by simp
qed

lemma before_year_Suc: "before_year (y + 1) = before_year y + year_days y"
proof -
  have "y mod 100 = 0 \<Longrightarrow> y mod 4 = 0" "y mod 400 = 0 \<Longrightarrow> y mod 100 = 0"
    using dvd_trans [of 4 100 y] dvd_trans [of 100 400 y] by (auto simp: dvd_eq_mod_eq_0)
  then show ?thesis by (auto simp: before_year_def year_lengths_def isleap_mod div_pred)
qed

lemma before_year_less: "y < z \<Longrightarrow> before_year y + year_days y \<le> before_year z"
proof (induction z rule: int_gr_induct [of y])
  case base
  then show ?case by (simp add: before_year_Suc)
next
  case (step z)
  then show ?case using year_days_pos(1) [of "isleap z"] by (simp add: before_year_Suc)
qed

lemma length_mon_lengths [simp]: "length (mon_lengths b) = 12"
  by (simp add: mon_lengths_def)

lemma before_month_12: "before_month b 12 = year_lengths b"
  by (simp add: before_month_def mon_lengths_def year_lengths_def)

lemma before_month_Suc: "m < 12 \<Longrightarrow> before_month b (Suc m) = before_month b m + mon_lengths b ! m"
  by (simp add: before_month_def take_Suc_conv_app_nth)

lemma mon_lengths_bounds: "m < 12 \<Longrightarrow> 28 \<le> mon_lengths b ! m \<and> mon_lengths b ! m \<le> 31"
proof -
  have "list_all (\<lambda>n. 28 \<le> n \<and> n \<le> 31) (mon_lengths b)" by (simp add: mon_lengths_def)
  then show "m < 12 \<Longrightarrow> ?thesis" by (simp add: list_all_length)
qed

lemma before_month_mono: "m \<le> n \<Longrightarrow> n \<le> 12 \<Longrightarrow> before_month b m \<le> before_month b n"
proof (induction n rule: dec_induct)
  case (step n)
  then show ?case using mon_lengths_bounds [of n b] by (simp add: before_month_Suc)
qed simp

lemma before_month_less: "m < n \<Longrightarrow> n \<le> 12 \<Longrightarrow> before_month b m + mon_lengths b ! m \<le> before_month b n"
  using before_month_mono [of "Suc m" n b] by (simp add: before_month_Suc)

section \<open>Order\<close>

text \<open>Later dates have larger numbers: a date is determined by its number.\<close>

lemma valid_yday: "valid_date y m d \<Longrightarrow> 0 \<le> before_month (isleap y) m + (d - 1) \<and> before_month (isleap y) m + (d - 1) < year_days y"
  using before_month_less [of m 12 "isleap y"] before_month_mono [of 0 m "isleap y"]
  by (auto simp: valid_date_def before_month_12) (simp add: before_month_def)

lemma day_number_less:
  assumes "y < z" "yd < year_days y" "0 \<le> zd"
  shows "day_number y yd < day_number z zd"
  using before_year_less [OF assms(1)] assms by (simp add: day_number_def)

lemma date_number_year_less: "valid_date y m d \<Longrightarrow> valid_date y' m' d' \<Longrightarrow> y < y' \<Longrightarrow> date_number y m d < date_number y' m' d'"
  using valid_yday [of y m d] valid_yday [of y' m' d'] by (auto simp: date_number_def intro!: day_number_less)

lemma date_number_month_less: "valid_date y m d \<Longrightarrow> valid_date y m' d' \<Longrightarrow> m < m' \<Longrightarrow> date_number y m d < date_number y m' d'"
  using before_month_less [of m m' "isleap y"] by (auto simp: date_number_def day_number_def valid_date_def)

lemma date_number_inj:
  assumes "valid_date y m d" "valid_date y' m' d'" "date_number y m d = date_number y' m' d'"
  shows "y = y'" "m = m'" "d = d'"
proof -
  show y: "y = y'" using assms date_number_year_less [of y m d y' m' d'] date_number_year_less [of y' m' d' y m d]
    by (cases y y' rule: linorder_cases) auto
  show m: "m = m'" using assms y date_number_month_less [of y m d m' d'] date_number_month_less [of y m' d' m d]
    by (cases m m' rule: linorder_cases) auto
  show "d = d'" using assms y m by (simp add: date_number_def day_number_def)
qed

end
