(* ===== verification/Ctime.thy ===== *)
theory Ctime
  imports Calendar
begin

text \<open>
  Broken-down time, from \<^verbatim>\<open>ansi/time/ctime.c\<close>: \<^verbatim>\<open>timesub\<close>, which splits a time into date and time of day, and its callers
  \<^verbatim>\<open>gmtsub\<close> and \<^verbatim>\<open>localsub\<close>. A \<^verbatim>\<open>time_t\<close> is an unsigned 32-bit number on this target. An \<^verbatim>\<open>int\<close> is an integer, and the overflow
  tests of the code are kept. A null result is \<^term>\<open>None\<close>.
\<close>

section \<open>Data\<close>

type_synonym time_t = "32 word"

record tm =
  tm_sec :: int
  tm_min :: int
  tm_hour :: int
  tm_mday :: int
  tm_mon :: int
  tm_year :: int
  tm_wday :: int
  tm_yday :: int
  tm_isdst :: int
  tm_zone :: "byte list"
  tm_gmtoff :: int

record ttinfo =
  tt_gmtoff :: int
  tt_isdst :: int
  tt_abbrind :: nat
  tt_ttisstd :: bool
  tt_ttisgmt :: bool

record lsinfo =
  ls_trans :: time_t
  ls_corr :: int

text \<open>
  The tables of a zone. The arrays are lists of the entries in use, so that their lengths are \<^verbatim>\<open>timecnt\<close>, \<^verbatim>\<open>typecnt\<close>,
  \<^verbatim>\<open>charcnt\<close> and \<^verbatim>\<open>leapcnt\<close>; \<open>before_lsis\<close> is what a read of \<^verbatim>\<open>lsis[-1].ls_corr\<close> gives.
\<close>

record state =
  goback :: bool
  goahead :: bool
  ats :: "time_t list"
  types :: "nat list"
  ttis :: "ttinfo list"
  chars :: "byte list"
  lsis :: "lsinfo list"
  before_lsis :: int
  defaulttype :: nat

definition INT_MAX :: int where "INT_MAX = 2147483647"

definition INT_MIN :: int where "INT_MIN = - 2147483648"

section \<open>timesub\<close>

definition increment_overflow :: "int \<Rightarrow> int \<Rightarrow> int option" where
  "increment_overflow i j = (if (if i \<ge> 0 then j > INT_MAX - i else j < INT_MIN - i) then None else Some (i + j))"

function leaps_thru_end_of :: "int \<Rightarrow> int" where
  "leaps_thru_end_of y = (if y \<ge> 0 then y sdiv 4 - y sdiv 100 + y sdiv 400 else - (leaps_thru_end_of (- (y + 1)) + 1))"
  by pat_completeness auto
termination by (relation "measure (\<lambda>y. if y < 0 then 1 else 0)") auto

declare leaps_thru_end_of.simps [simp del]

text \<open>The inner loop, which counts the leap seconds that directly precede the one at \<open>i\<close>.\<close>

fun hit_loop :: "lsinfo list \<Rightarrow> nat \<Rightarrow> int \<Rightarrow> int" where
  "hit_loop ls 0 hit = hit"
| "hit_loop ls (Suc i) hit =
     (if ls_trans (ls ! Suc i) = ls_trans (ls ! i) + 1 \<and> ls_corr (ls ! Suc i) = ls_corr (ls ! i) + 1
      then hit_loop ls i (hit + 1) else hit)"

text \<open>The correction for leap seconds, and how many seconds past 59 are shown.\<close>

fun leap_scan :: "state \<Rightarrow> time_t \<Rightarrow> nat \<Rightarrow> int \<times> int" where
  "leap_scan sp t 0 = (0, 0)"
| "leap_scan sp t (Suc i) =
     (let lp = lsis sp ! i in
      if t \<ge> ls_trans lp then
        (ls_corr lp,
         if t = ls_trans lp then
           (if i = 0 \<and> ls_corr lp > 0 \<or> ls_corr lp > (if i = 0 then before_lsis sp else ls_corr (lsis sp ! (i - 1)))
            then hit_loop (lsis sp) i 1 else 0)
         else 0)
      else leap_scan sp t i)"

text \<open>The loop that finds the year; the condition \<^verbatim>\<open>tdays < 0\<close> never holds.\<close>

partial_function (option) year_loop :: "int \<Rightarrow> time_t \<Rightarrow> (int \<times> time_t) option" where
  [code]: "year_loop y tdays =
     (if tdays < 0 \<or> tdays \<ge> word_of_int (year_days y) then
        let tdelta = tdays div 366; idelta = sint tdelta in
        if tdelta - word_of_int idelta \<ge> 1 \<or> word_of_int idelta - tdelta \<ge> 1 then None
        else do {
          newy \<leftarrow> increment_overflow y (if idelta = 0 then (if tdays < 0 then - 1 else 1) else idelta);
          let leapdays = leaps_thru_end_of (newy - 1) - leaps_thru_end_of (y - 1);
          year_loop newy (tdays - (word_of_int newy - word_of_int y) * 365 - word_of_int leapdays) }
      else Some (y, tdays))"

function rem_up :: "int \<Rightarrow> int \<Rightarrow> int \<times> int" where
  "rem_up rem idays = (if rem < 0 then rem_up (rem + 86400) (idays - 1) else (rem, idays))"
  by pat_completeness auto
termination by (relation "measure (\<lambda>(rem, idays). nat (- rem))") auto

function rem_down :: "int \<Rightarrow> int \<Rightarrow> int \<times> int" where
  "rem_down rem idays = (if rem \<ge> 86400 then rem_down (rem - 86400) (idays + 1) else (rem, idays))"
  by pat_completeness auto
termination by (relation "measure (\<lambda>(rem, idays). nat rem)") auto

function year_back :: "int \<Rightarrow> int \<Rightarrow> (int \<times> int) option" where
  "year_back y idays = (if idays < 0 then do { y \<leftarrow> increment_overflow y (- 1); year_back y (idays + year_days y) } else Some (y, idays))"
  by pat_completeness auto
termination
  by (relation "measure (\<lambda>(y, idays). nat (- idays))") (auto simp: year_lengths_def)

function year_on :: "int \<Rightarrow> int \<Rightarrow> (int \<times> int) option" where
  "year_on y idays =
     (if idays \<ge> year_days y then do { y' \<leftarrow> increment_overflow y 1; year_on y' (idays - year_days y) } else Some (y, idays))"
  by pat_completeness auto
termination
  by (relation "measure (\<lambda>(y, idays). nat idays)") (auto simp: year_lengths_def split: if_splits)

declare rem_up.simps [simp del] rem_down.simps [simp del] year_back.simps [simp del] year_on.simps [simp del]

fun mon_loop :: "int list \<Rightarrow> nat \<Rightarrow> int \<Rightarrow> (nat \<times> int) option" where
  "mon_loop [] mon idays = None"
| "mon_loop (n # ip) mon idays = (if idays \<ge> n then mon_loop ip (mon + 1) (idays - n) else Some (mon, idays))"

definition timesub :: "time_t \<Rightarrow> int \<Rightarrow> state \<Rightarrow> tm option" where
  "timesub t offset sp = do {
     let (corr, hit) = leap_scan sp t (length (lsis sp));
     let tdays = t div 86400;
     let rem = uint (t - tdays * 86400);
     (y, tdays) \<leftarrow> year_loop 1970 tdays;
     let seconds = sint (tdays * 86400 + 0);
     let tdays = (word_of_int (seconds sdiv 86400) :: time_t);
     let rem = rem + uint (word_of_int seconds - tdays * 86400);
     let (rem, idays) = rem_up (rem + (offset - corr)) (sint tdays);
     let (rem, idays) = rem_down rem idays;
     (y, idays) \<leftarrow> year_back y idays;
     (y, idays) \<leftarrow> year_on y idays;
     year \<leftarrow> increment_overflow y (- 1900);
     let wday = (4 + ((y - 1970) smod 7) * (365 smod 7) + leaps_thru_end_of (y - 1) - leaps_thru_end_of (1970 - 1) + idays) smod 7;
     let wday = (if wday < 0 then wday + 7 else wday);
     let hour = rem sdiv 3600;
     let rem = rem smod 3600;
     (mon, mday) \<leftarrow> mon_loop (mon_lengths (isleap y)) 0 idays;
     Some \<lparr>tm_sec = rem smod 60 + hit, tm_min = rem sdiv 60, tm_hour = hour, tm_mday = mday + 1, tm_mon = int mon, tm_year = year,
       tm_wday = wday, tm_yday = idays, tm_isdst = 0, tm_zone = [], tm_gmtoff = offset\<rparr> }"

subsection \<open>The loops\<close>

lemma div_neg: "0 < k \<Longrightarrow> (- (y + 1)) div k = - (y div k) - 1" for y k :: int
proof -
  assume k: "0 < k"
  have "k * (y div k) + y mod k = y" by (rule mult_div_mod_eq)
  then have "- (y + 1) = k * (- (y div k) - 1) + (k - 1 - y mod k)"
    unfolding right_diff_distrib mult_minus_right by linarith
  moreover have "0 \<le> y mod k" "y mod k < k" using k by simp_all
  ultimately show ?thesis by (intro int_div_pos_eq [of _ k _ "k - 1 - y mod k"]) auto
qed

lemma sdiv_nonneg: "0 \<le> a \<Longrightarrow> 0 < b \<Longrightarrow> a sdiv b = a div b" "0 \<le> a \<Longrightarrow> 0 < b \<Longrightarrow> a smod b = a mod b" for a b :: int
  by (auto simp: signed_divide_int_def signed_modulo_int_def sgn_if)

lemma leaps_thru_end_of_div: "leaps_thru_end_of y = y div 4 - y div 100 + y div 400"
proof (cases "0 \<le> y")
  case True
  then show ?thesis by (subst leaps_thru_end_of.simps) (simp add: sdiv_nonneg)
next
  case False
  then have "0 \<le> - (y + 1)" by simp
  then have "leaps_thru_end_of (- (y + 1)) = (- (y + 1)) div 4 - (- (y + 1)) div 100 + (- (y + 1)) div 400"
    by (subst leaps_thru_end_of.simps) (simp add: sdiv_nonneg)
  then show ?thesis using False by (subst leaps_thru_end_of.simps) (simp only: div_neg if_False zero_less_numeral)
qed

lemma leaps_before_year: "leaps_thru_end_of (y - 1) = before_year y - 365 * (y - 1)"
  by (simp add: leaps_thru_end_of_div before_year_def)

lemma increment_ok: "\<bar>i\<bar> \<le> 10 ^ 9 \<Longrightarrow> \<bar>j\<bar> \<le> 10 ^ 9 \<Longrightarrow> increment_overflow i j = Some (i + j)"
  by (auto simp: increment_overflow_def INT_MAX_def INT_MIN_def)

lemma before_year_plus: "0 \<le> n \<Longrightarrow> 365 * n \<le> before_year (y + n) - before_year y \<and> before_year (y + n) - before_year y \<le> 366 * n"
proof (induction n rule: int_ge_induct)
  case (step n)
  have "before_year (y + (n + 1)) = before_year (y + n) + year_days (y + n)" using before_year_Suc [of "y + n"] by (simp add: add.assoc)
  then show ?case using step year_days_pos [of "isleap (y + n)"] by auto
qed simp

lemma sint_uint: "uint w < 2 ^ 31 \<Longrightarrow> sint w = uint w" for w :: time_t
proof -
  assume "uint w < 2 ^ 31"
  then have "int (unat w) < int (2 ^ 31)" by (simp only: uint_nat) simp
  then show ?thesis using sint_small [of w] by (simp only: of_nat_less_iff uint_nat) simp
qed

lemma uint_small_diff:
  fixes w :: time_t
  assumes "0 \<le> d" "d \<le> uint w"
  shows "uint (w - word_of_int d) = uint w - d"
proof -
  have "w - word_of_int d = word_of_int (uint w - d)" by simp
  moreover have "uint w < 2 ^ 32" using uint_lt2p [of w] by simp
  ultimately show ?thesis using assms uint_of_int_small [of "uint w - d", where 'a = 32] by simp
qed

lemma year_loop_ok:
  assumes "0 \<le> y" "y + uint tdays \<le> 10 ^ 6"
  shows "\<exists>y' d. year_loop y tdays = Some (y', d) \<and> y \<le> y' \<and> y' + uint d \<le> 10 ^ 6 \<and>
    before_year y + uint tdays = before_year y' + uint d \<and> uint d < year_days y'"
  using assms
proof (induction "nat (uint tdays)" arbitrary: y tdays rule: less_induct)
  case less
  let ?T = "uint tdays"
  have T: "0 \<le> ?T" "?T \<le> 10 ^ 6" using less(2,3) by auto
  have yd: "uint (word_of_int (year_days y) :: time_t) = year_days y"
    by (rule uint_of_int_small) (auto simp: year_lengths_def)
  have c: "(tdays < 0 \<or> tdays \<ge> word_of_int (year_days y)) \<longleftrightarrow> year_days y \<le> ?T" using yd by (simp add: word_le_def)
  show ?case
  proof (cases "year_days y \<le> ?T")
    case False
    then show ?thesis using less(3) c by (subst year_loop.simps) auto
  next
    case True
    define q where "q = ?T div 366"
    have q: "0 \<le> q" "366 * q \<le> ?T" "q \<le> 10 ^ 6" using T by (auto simp: q_def pos_imp_zdiv_nonneg_iff)
    have u: "uint (tdays div 366) = q" by (simp add: uint_div_distrib q_def)
    then have s: "sint (tdays div 366) = q" using q sint_uint [of "tdays div 366"] by simp
    have w: "word_of_int q = tdays div 366" using u by (metis word_of_int_uint)
    define n where "n = (if q = 0 then 1 else q)"
    define D where "D = before_year (y + n) - before_year y"
    have n: "1 \<le> n" "n \<le> 10 ^ 6" using q by (auto simp: n_def)
    have D: "365 * n \<le> D" "D \<le> ?T"
    proof -
      show "365 * n \<le> D" using before_year_plus [of n y] n by (simp add: D_def)
      show "D \<le> ?T"
      proof (cases "q = 0")
        case True
        then show ?thesis using \<open>year_days y \<le> ?T\<close> by (simp add: D_def n_def before_year_Suc)
      next
        case False
        then show ?thesis using before_year_plus [of n y] q n by (simp add: D_def n_def)
      qed
    qed
    have "y \<le> 10 ^ 6" using less(3) T(1) by linarith
    then have ov: "increment_overflow y n = Some (y + n)" using less(2) n by (intro increment_ok) simp_all
    have "tdays - (word_of_int (y + n) - word_of_int y) * 365 - word_of_int (leaps_thru_end_of (y + n - 1) - leaps_thru_end_of (y - 1)) =
        tdays - word_of_int D"
      unfolding D_def leaps_before_year by (simp add: algebra_simps)
    moreover have "year_loop y tdays = do { newy \<leftarrow> increment_overflow y n; year_loop newy (tdays -
        (word_of_int newy - word_of_int y) * 365 - word_of_int (leaps_thru_end_of (newy - 1) - leaps_thru_end_of (y - 1))) }"
    proof -
      have nn: "(if q = 0 then (if tdays < 0 then - 1 else 1) else q) = n" by (simp add: n_def)
      have z: "\<not> (1 :: time_t) \<le> 0" by simp
      show ?thesis using True c by (subst year_loop.simps) (simp only: Let_def s w nn diff_self z simp_thms if_True if_False)
    qed
    ultimately have e: "year_loop y tdays = year_loop (y + n) (tdays - word_of_int D)"
      by (simp only: ov bind.bind_lunit)
    have u': "uint (tdays - word_of_int D) = ?T - D" using D n by (intro uint_small_diff) auto
    have "\<exists>y' d. year_loop (y + n) (tdays - word_of_int D) = Some (y', d) \<and> y + n \<le> y' \<and> y' + uint d \<le> 10 ^ 6 \<and>
        before_year (y + n) + uint (tdays - word_of_int D) = before_year y' + uint d \<and> uint d < year_days y'"
    proof (rule less(1))
      show "nat (uint (tdays - word_of_int D)) < nat ?T" unfolding u' using D n by (intro nat_less_eq_zless [THEN iffD2]) linarith+
    qed (use u' D n less(2,3) in auto)
    then show ?thesis unfolding e u' using n by (auto simp: D_def)
  qed
qed

lemma rem_up_mod: "rem_up r i = (if r < 0 then (r mod 86400, i + r div 86400) else (r, i))"
proof (induction r i rule: rem_up.induct)
  case (1 r i)
  have "(r + 86400) mod 86400 = r mod 86400" "(r + 86400) div 86400 = r div 86400 + 1" by simp_all
  moreover have "\<not> r + 86400 < 0 \<Longrightarrow> r < 0 \<Longrightarrow> (r + 86400) mod 86400 = r + 86400 \<and> (r + 86400) div 86400 = 0"
    by (intro conjI mod_pos_pos_trivial div_pos_pos_trivial) auto
  ultimately show ?case using 1 by (subst rem_up.simps) auto
qed

lemma rem_down_mod: "0 \<le> r \<Longrightarrow> rem_down r i = (r mod 86400, i + r div 86400)"
proof (induction r i rule: rem_down.induct)
  case (1 r i)
  have "r mod 86400 = (r - 86400) mod 86400" "r div 86400 = (r - 86400) div 86400 + 1"
    using mod_add_self2 [of "r - 86400" 86400] div_add_self2 [of 86400 "r - 86400"] by simp_all
  then show ?case using 1 by (subst rem_down.simps) auto
qed

lemma rem_loops: "(let (r, i) = rem_up r i in rem_down r i) = (r mod 86400, i + r div 86400)"
  by (simp add: rem_up_mod rem_down_mod)

lemma year_back_ok:
  assumes "\<bar>y\<bar> \<le> 10 ^ 8" "\<bar>i\<bar> \<le> 10 ^ 8"
  shows "\<exists>y' i'. year_back y i = Some (y', i') \<and> before_year y + i = before_year y' + i' \<and> 0 \<le> i' \<and>
    (i \<ge> 0 \<longrightarrow> y' = y \<and> i' = i) \<and> (i < 0 \<longrightarrow> y + i \<le> y' \<and> y' < y \<and> i' < 366)"
proof -
  have "\<bar>y\<bar> + max 0 (- i) \<le> 10 ^ 9 \<Longrightarrow> \<exists>y' i'. year_back y i = Some (y', i') \<and> before_year y + i = before_year y' + i' \<and> 0 \<le> i' \<and>
    (i \<ge> 0 \<longrightarrow> y' = y \<and> i' = i) \<and> (i < 0 \<longrightarrow> y + i \<le> y' \<and> y' < y \<and> i' < 366)"
  proof (induction "nat (- i)" arbitrary: y i rule: less_induct)
    case less
    show ?case
    proof (cases "i < 0")
      case True
      have b: "before_year y = before_year (y - 1) + year_days (y - 1)" using before_year_Suc [of "y - 1"] by simp
      have ov: "increment_overflow y (- 1) = Some (y - 1)" using less(2) by (subst increment_ok) auto
      have e: "year_back y i = year_back (y - 1) (i + year_days (y - 1))" using True ov by (subst year_back.simps) simp
      have bd: "\<bar>y - 1\<bar> + max 0 (- (i + year_days (y - 1))) \<le> 10 ^ 9" using less(2) True year_days_pos [of "isleap (y - 1)"] by linarith
      obtain y' i' where r: "year_back (y - 1) (i + year_days (y - 1)) = Some (y', i')"
          "before_year (y - 1) + (i + year_days (y - 1)) = before_year y' + i'" "0 \<le> i'"
          "i + year_days (y - 1) \<ge> 0 \<longrightarrow> y' = y - 1 \<and> i' = i + year_days (y - 1)"
          "i + year_days (y - 1) < 0 \<longrightarrow> y - 1 + (i + year_days (y - 1)) \<le> y' \<and> y' < y - 1 \<and> i' < 366"
        using less(1) [of "i + year_days (y - 1)" "y - 1", OF _ bd] True year_days_pos [of "isleap (y - 1)"] by auto
      then show ?thesis using b e True year_days_pos [of "isleap (y - 1)"] by (cases "i + year_days (y - 1) \<ge> 0") auto
    qed (subst year_back.simps, auto)
  qed
  then show ?thesis using assms by simp
qed

lemma year_on_ok:
  assumes "\<bar>y\<bar> \<le> 10 ^ 8" "0 \<le> i" "i \<le> 10 ^ 8"
  shows "\<exists>y' i'. year_on y i = Some (y', i') \<and> before_year y + i = before_year y' + i' \<and> 0 \<le> i' \<and> i' < year_days y' \<and>
    y \<le> y' \<and> y' \<le> y + i"
proof -
  have "\<bar>y\<bar> + i \<le> 10 ^ 9 \<Longrightarrow> 0 \<le> i \<Longrightarrow> \<exists>y' i'. year_on y i = Some (y', i') \<and> before_year y + i = before_year y' + i' \<and> 0 \<le> i' \<and>
    i' < year_days y' \<and> y \<le> y' \<and> y' \<le> y + i"
  proof (induction "nat i" arbitrary: y i rule: less_induct)
    case less
    show ?case
    proof (cases "i \<ge> year_days y")
      case True
      have ov: "increment_overflow y 1 = Some (y + 1)" using less(2,3) by (subst increment_ok) auto
      have e: "year_on y i = year_on (y + 1) (i - year_days y)" using True ov by (subst year_on.simps) simp
      have bd: "\<bar>y + 1\<bar> + (i - year_days y) \<le> 10 ^ 9" using less(2) True year_days_pos [of "isleap y"] by linarith
      show ?thesis
        using less(1) [of "i - year_days y" "y + 1", OF _ bd] less(2,3) True year_days_pos [of "isleap y"] before_year_Suc [of y] e by auto
    next
      case False
      then show ?thesis using less(3) by (subst year_on.simps) auto
    qed
  qed
  then show ?thesis using assms by simp
qed

lemma mon_loop_list:
  "0 \<le> d \<Longrightarrow> d < sum_list ip \<Longrightarrow> \<exists>m < length ip. mon_loop ip k d = Some (k + m, d - sum_list (take m ip)) \<and>
    0 \<le> d - sum_list (take m ip) \<and> d - sum_list (take m ip) < ip ! m"
proof (induction ip arbitrary: k d)
  case (Cons n ip)
  show ?case
  proof (cases "n \<le> d")
    case True
    then obtain m where "m < length ip" "mon_loop ip (k + 1) (d - n) = Some (k + 1 + m, d - n - sum_list (take m ip))"
        "0 \<le> d - n - sum_list (take m ip)" "d - n - sum_list (take m ip) < ip ! m"
      using Cons(1) [of "d - n" "k + 1"] Cons(3) by auto
    then show ?thesis using True by (intro exI [of _ "Suc m"]) (simp add: algebra_simps)
  next
    case False
    then show ?thesis using Cons(2) by (intro exI [of _ 0]) simp
  qed
qed simp

lemma mon_loop_ok:
  assumes "0 \<le> d" "d < year_lengths b"
  shows "\<exists>m < 12. mon_loop (mon_lengths b) 0 d = Some (m, d - before_month b m) \<and> 0 \<le> d - before_month b m \<and>
    d - before_month b m < mon_lengths b ! m"
  using mon_loop_list [of d "mon_lengths b" 0] assms before_month_12 [of b] by (simp add: before_month_def)

subsection \<open>Broken-down time\<close>

lemma smod_7: "(if x smod 7 < 0 then x smod 7 + 7 else x smod 7) = x mod (7 :: int)"
proof (cases "0 \<le> x")
  case True
  then show ?thesis by (simp add: sdiv_nonneg)
next
  case False
  have "x smod 7 = - ((- x) mod 7)" using False by (auto simp: signed_modulo_int_def sgn_if)
  then show ?thesis by (auto simp: zmod_zminus1_eq_if)
qed

lemma wday_formula:
  "(4 + ((y - 1970) smod 7) * (365 smod 7) + leaps_thru_end_of (y - 1) - leaps_thru_end_of (1970 - 1) + d) mod 7 = weekday (day_number y d)"
proof -
  have s: "((y - 1970) smod 7) mod 7 = (y - 1970) mod 7" using arg_cong [OF smod_7 [of "y - 1970"], of "\<lambda>z. z mod 7"] by (auto split: if_splits)
  let ?L = "leaps_thru_end_of (y - 1) - leaps_thru_end_of (1970 - 1) + d"
  have one: "(365 smod 7 :: int) = 1" by (simp add: sdiv_nonneg)
  have "(4 + ((y - 1970) smod 7) + ?L) mod 7 = (4 + (y - 1970) + ?L) mod 7"
    by (rule mod_add_cong [OF mod_add_cong [OF refl s] refl])
  also have "4 + (y - 1970) + ?L = day_number y d + 4 + 7 * (- 52 * (y - 1970))"
    unfolding leaps_before_year day_number_def by simp
  also have "\<dots> mod 7 = weekday (day_number y d)" by (simp only: weekday_def mod_mult_self2)
  finally show ?thesis by (simp add: one algebra_simps)
qed

text \<open>A broken-down time that shows the second \<open>s\<close>, counted in local time from the start of 1970.\<close>

definition shows_time :: "tm \<Rightarrow> int \<Rightarrow> bool" where
  "shows_time r s \<longleftrightarrow>
     valid_date (tm_year r + 1900) (nat (tm_mon r)) (tm_mday r) \<and> 0 \<le> tm_mon r \<and>
     date_number (tm_year r + 1900) (nat (tm_mon r)) (tm_mday r) = s div 86400 \<and>
     tm_yday r = before_month (isleap (tm_year r + 1900)) (nat (tm_mon r)) + tm_mday r - 1 \<and>
     tm_wday r = weekday (s div 86400) \<and>
     tm_hour r = s mod 86400 div 3600 \<and> tm_min r = s mod 3600 div 60 \<and> tm_sec r = s mod 60"

lemma time_of_day: "r = s mod 86400 \<Longrightarrow> r div 3600 = s mod 86400 div 3600 \<and> r mod 3600 div 60 = s mod 3600 div 60 \<and> r mod 3600 mod 60 = s mod 60"
  for s :: int
  by (simp add: mod_mod_cancel)

lemma timesub_shows:
  assumes c: "leap_scan sp t (length (lsis sp)) = (corr, hit)" and b: "\<bar>offset - corr\<bar> \<le> 10 ^ 9"
  shows "\<exists>r. timesub t offset sp = Some r \<and> shows_time (r\<lparr>tm_sec := tm_sec r - hit\<rparr>) (uint t + offset - corr) \<and>
    tm_isdst r = 0 \<and> tm_gmtoff r = offset"
proof -
  define s where "s = uint t + offset - corr"
  have tb: "0 \<le> uint t" "uint t < 4294967296" using uint_lt2p [of t] by simp_all
  have td: "uint (t div 86400) = uint t div 86400" by (simp add: uint_div_distrib)
  have rm: "uint (t - t div 86400 * 86400) = uint t mod 86400"
    by (simp add: minus_div_mult_eq_mod uint_mod_distrib)
  have td6: "1970 + uint (t div 86400) \<le> 10 ^ 6"
  proof -
    have "uint t div 86400 \<le> 4294967296 div 86400" using tb by (intro zdiv_mono1) auto
    then show ?thesis by (simp add: td)
  qed
  obtain y d where y: "year_loop 1970 (t div 86400) = Some (y, d)" "1970 \<le> y" "y + uint d \<le> 10 ^ 6"
      "before_year 1970 + uint t div 86400 = before_year y + uint d" "uint d < year_days y"
    using year_loop_ok [OF _ td6] by (auto simp: td)
  have D: "0 \<le> uint d" "uint d < 366" using y(5) year_days_pos(2) [of "isleap y"] by auto
  have dw: "d * 86400 = word_of_int (uint d * 86400)" by simp
  have w: "(word_of_int (uint d * 86400) :: time_t) = d * 86400" by simp
  have du: "uint (d * 86400) = uint d * 86400" unfolding dw using D by (intro uint_of_int_small) auto
  have sec: "sint (d * 86400 + 0) = uint d * 86400" using sint_uint [of "d * 86400"] D du by simp
  have dd: "(word_of_int ((uint d * 86400) sdiv 86400) :: time_t) = d" using D(1) by (simp add: sdiv_nonneg)
  have sd: "sint d = uint d" using D sint_uint [of d] by simp
  define r0 where "r0 = uint t mod 86400 + (offset - corr)"
  have "s = 86400 * (uint t div 86400) + r0" unfolding r0_def s_def by simp
  then have sdiv: "s div 86400 = uint t div 86400 + r0 div 86400" and smod: "s mod 86400 = r0 mod 86400" by simp_all
  obtain r1 i1 where ru: "rem_up r0 (uint d) = (r1, i1)" "rem_down r1 i1 = (s mod 86400, uint d + r0 div 86400)"
    using rem_loops [of r0 "uint d"] smod by (auto split: prod.splits)
  have rb: "\<bar>r0 div 86400\<bar> \<le> 20000"
  proof -
    have "- 1000000000 \<le> r0" "r0 \<le> 1000086400" using b by (auto simp: r0_def)
    then have "- 1000000000 div 86400 \<le> r0 div 86400" "r0 div 86400 \<le> 1000086400 div 86400" by (intro zdiv_mono1; simp)+
    then show ?thesis by simp
  qed
  have "y \<le> 10 ^ 6" using y(3) D(1) by linarith
  then have y6: "y \<le> 1000000" by simp
  define k where "k = uint d + r0 div 86400"
  have k: "- 20000 \<le> k" "k \<le> 20366" using D rb unfolding k_def by linarith+
  obtain y2 i2 where yb: "year_back y k = Some (y2, i2)" "before_year y + k = before_year y2 + i2"
      "0 \<le> i2" "y2 \<le> y" "- 100000 \<le> y2" "i2 \<le> 30000"
    using year_back_ok [of y k] y(2) y6 k by (cases "0 \<le> k") auto
  have yb2: "\<bar>y2\<bar> \<le> 10 ^ 8" "0 \<le> i2" "i2 \<le> 10 ^ 8" using yb(3-6) y6 by auto
  obtain y3 i3 where yo: "year_on y2 i2 = Some (y3, i3)" "before_year y2 + i2 = before_year y3 + i3" "0 \<le> i3" "i3 < year_days y3"
      "y2 \<le> y3" "y3 \<le> y2 + i2"
    using year_on_ok [OF yb2] by blast
  have inc: "increment_overflow y3 (- 1900) = Some (y3 - 1900)" using yo(5,6) yb(4-6) y6 by (subst increment_ok) auto
  obtain mo where mo: "mo < 12" "mon_loop (mon_lengths (isleap y3)) 0 i3 = Some (mo, i3 - before_month (isleap y3) mo)"
      "0 \<le> i3 - before_month (isleap y3) mo" "i3 - before_month (isleap y3) mo < mon_lengths (isleap y3) ! mo"
    using mon_loop_ok [OF yo(3,4)] by blast
  have dn: "day_number y3 i3 = s div 86400" using y(4) yb(2) yo(2) by (simp add: day_number_def sdiv k_def)
  define q where "q = s mod 86400"
  have q: "0 \<le> q" by (simp add: q_def)
  then have qs: "q sdiv 3600 = q div 3600" "q smod 3600 = q mod 3600" "q mod 3600 sdiv 60 = q mod 3600 div 60"
      "q mod 3600 smod 60 = q mod 3600 mod 60"
    by (simp_all add: sdiv_nonneg)
  have res: "timesub t offset sp = Some \<lparr>tm_sec = q mod 3600 mod 60 + hit, tm_min = q mod 3600 div 60, tm_hour = q div 3600,
      tm_mday = i3 - before_month (isleap y3) mo + 1, tm_mon = int mo, tm_year = y3 - 1900, tm_wday = weekday (day_number y3 i3),
      tm_yday = i3, tm_isdst = 0, tm_zone = [], tm_gmtoff = offset\<rparr>"
    by (simp only: timesub_def c Let_def prod.case rm y(1) bind.bind_lunit sec [unfolded add_0_right] w dd sd diff_self unsigned_0 add_0_right
        r0_def [symmetric] ru k_def [symmetric] q_def [symmetric] yb(1) yo(1) inc smod_7 wday_formula mo(2) qs diff_conv_add_uminus [symmetric])
  let ?r = "\<lparr>tm_sec = q mod 3600 mod 60, tm_min = q mod 3600 div 60, tm_hour = q div 3600,
      tm_mday = i3 - before_month (isleap y3) mo + 1, tm_mon = int mo, tm_year = y3 - 1900, tm_wday = weekday (day_number y3 i3),
      tm_yday = i3, tm_isdst = 0, tm_zone = [], tm_gmtoff = offset\<rparr>"
  have v: "valid_date y3 mo (i3 - before_month (isleap y3) mo + 1)" using mo by (simp add: valid_date_def)
  have "date_number y3 mo (i3 - before_month (isleap y3) mo + 1) = s div 86400" using dn by (simp add: date_number_def)
  then have "shows_time ?r s" using v dn time_of_day [OF q_def] by (simp only: shows_time_def) simp
  then show "\<exists>r. timesub t offset sp = Some r \<and> shows_time (r\<lparr>tm_sec := tm_sec r - hit\<rparr>) (uint t + offset - corr) \<and>
      tm_isdst r = 0 \<and> tm_gmtoff r = offset"
    unfolding res s_def [symmetric] by simp
qed

text \<open>Later seconds come later in the order of the fields, so that a broken-down time shows one second only.\<close>

lemma shows_time_range:
  assumes "shows_time r s"
  shows "0 \<le> tm_hour r" "tm_hour r < 24" "0 \<le> tm_min r" "tm_min r < 60" "0 \<le> tm_sec r" "tm_sec r < 60"
    "s = 86400 * (s div 86400) + 3600 * tm_hour r + 60 * tm_min r + tm_sec r"
proof -
  have r: "tm_hour r = s mod 86400 div 3600" "tm_min r = s mod 3600 div 60" "tm_sec r = s mod 60" using assms by (simp_all add: shows_time_def)
  have m: "s mod 86400 mod 3600 = s mod 3600" "s mod 3600 mod 60 = s mod 60" by (simp_all add: mod_mod_cancel)
  have "s mod 86400 = 3600 * tm_hour r + s mod 3600" using mult_div_mod_eq [of 3600 "s mod 86400"] unfolding r m by linarith
  moreover have "s mod 3600 = 60 * tm_min r + tm_sec r" using mult_div_mod_eq [of 60 "s mod 3600"] unfolding r m by linarith
  ultimately show "s = 86400 * (s div 86400) + 3600 * tm_hour r + 60 * tm_min r + tm_sec r"
    using mult_div_mod_eq [of 86400 s] by linarith
  have "s mod 86400 div 3600 \<le> 86399 div 3600" "s mod 3600 div 60 \<le> 3599 div 60"
    using pos_mod_bound [of 86400 s] pos_mod_bound [of 3600 s] by (intro zdiv_mono1; simp)+
  then show "0 \<le> tm_hour r" "tm_hour r < 24" "0 \<le> tm_min r" "tm_min r < 60" "0 \<le> tm_sec r" "tm_sec r < 60"
    unfolding r by (simp_all add: pos_imp_zdiv_nonneg_iff)
qed

section \<open>Zones\<close>

definition zone_string :: "state \<Rightarrow> nat \<Rightarrow> byte list" where
  "zone_string sp i = takeWhile (\<lambda>c. c \<noteq> 0) (drop i (chars sp))"

text \<open>The search for the last transition not after \<open>t\<close>.\<close>

function type_search :: "time_t list \<Rightarrow> time_t \<Rightarrow> nat \<Rightarrow> nat \<Rightarrow> nat" where
  "type_search at t lo hi =
     (if lo < hi then let mid = (lo + hi) div 2 in
        if t < at ! mid then type_search at t lo mid else type_search at t (mid + 1) hi
      else lo)"
  by pat_completeness auto
termination by (relation "measure (\<lambda>(at, t, lo, hi). hi - lo)") auto

declare type_search.simps [simp del]

definition local_type :: "state \<Rightarrow> time_t \<Rightarrow> nat" where
  "local_type sp t =
     (if ats sp = [] \<or> t < ats sp ! 0 then defaulttype sp
      else types sp ! (type_search (ats sp) t 1 (length (ats sp)) - 1))"

definition localsub_plain :: "state \<Rightarrow> time_t \<Rightarrow> tm option" where
  "localsub_plain sp t =
     (let ttisp = ttis sp ! local_type sp t in
      map_option (\<lambda>r. r\<lparr>tm_isdst := tt_isdst ttisp, tm_zone := zone_string sp (tt_abbrind ttisp)\<rparr>)
        (timesub t (tt_gmtoff ttisp) sp))"

text \<open>Times outside of a table that repeats are moved into it by whole periods of 400 years.\<close>

definition localsub :: "state \<Rightarrow> time_t \<Rightarrow> int \<Rightarrow> tm option" where
  "localsub sp t offset =
     (if goback sp \<and> t < ats sp ! 0 \<or> goahead sp \<and> t > last (ats sp) then
        let seconds = (if t < ats sp ! 0 then ats sp ! 0 - t else t - last (ats sp)) - 1;
            tcycles = seconds div 400 div 31556952 + 1;
            icycles = uint tcycles;
            seconds = word_of_int icycles * 400 * 31556952;
            newt = (if t < ats sp ! 0 then t + seconds else t - seconds) in
        if newt < ats sp ! 0 \<or> newt > last (ats sp) then None
        else do {
          r \<leftarrow> localsub_plain sp newt;
          let newy = (if t < ats sp ! 0 then tm_year r - icycles * 400 else tm_year r + icycles * 400);
          let newy = (word_of_int newy :: time_t);
          Some (r\<lparr>tm_year := sint newy\<rparr>) }
      else localsub_plain sp t)"

definition wildabbr :: "byte list" where "wildabbr = [32, 32, 32]"

definition gmtsub :: "state \<Rightarrow> time_t \<Rightarrow> int \<Rightarrow> tm option" where
  "gmtsub gmt t offset =
     map_option (\<lambda>r. r\<lparr>tm_zone := if offset \<noteq> 0 then wildabbr else zone_string gmt 0\<rparr>) (timesub t offset gmt)"

lemma type_search_first:
  assumes "sorted at" "lo \<le> hi" "hi \<le> length at" "\<forall>i < lo. at ! i \<le> t" "\<forall>i. hi \<le> i \<and> i < length at \<longrightarrow> t < at ! i"
  shows "type_search at t lo hi \<le> length at \<and> lo \<le> type_search at t lo hi \<and>
    (\<forall>i < type_search at t lo hi. at ! i \<le> t) \<and> (\<forall>i. type_search at t lo hi \<le> i \<and> i < length at \<longrightarrow> t < at ! i)"
  using assms
proof (induction at t lo hi rule: type_search.induct)
  case (1 at t lo hi)
  show ?case
  proof (cases "lo < hi")
    case True
    define mid where "mid = (lo + hi) div 2"
    have mid: "lo \<le> mid" "mid < hi" using True by (auto simp: mid_def)
    show ?thesis
    proof (cases "t < at ! mid")
      case t: True
      have up: "\<forall>i. mid \<le> i \<and> i < length at \<longrightarrow> t < at ! i"
        using less_le_trans [OF t sorted_nth_mono [OF 1(3)]] by blast
      have "type_search at t lo mid \<le> length at \<and> lo \<le> type_search at t lo mid \<and>
          (\<forall>i < type_search at t lo mid. at ! i \<le> t) \<and> (\<forall>i. type_search at t lo mid \<le> i \<and> i < length at \<longrightarrow> t < at ! i)"
        by (rule 1(1) [OF True mid_def t 1(3) mid(1) _ 1(6) up]) (use mid 1(5) in simp)
      moreover have "type_search at t lo hi = type_search at t lo mid"
        using True t type_search.simps [of at t lo hi] by (simp add: mid_def [symmetric] Let_def)
      ultimately show ?thesis by simp
    next
      case t: False
      have "at ! i \<le> at ! mid" if "i < mid + 1" for i
        by (rule sorted_nth_mono [OF 1(3)]) (use that mid(2) 1(5) in auto)
      then have dn: "\<forall>i < mid + 1. at ! i \<le> t" using t by (meson le_less_trans not_le)
      have "type_search at t (mid + 1) hi \<le> length at \<and> mid + 1 \<le> type_search at t (mid + 1) hi \<and>
          (\<forall>i < type_search at t (mid + 1) hi. at ! i \<le> t) \<and> (\<forall>i. type_search at t (mid + 1) hi \<le> i \<and> i < length at \<longrightarrow> t < at ! i)"
        by (rule 1(2) [OF True mid_def t 1(3) _ 1(5) dn 1(7)]) (use mid in simp)
      moreover have "type_search at t lo hi = type_search at t (mid + 1) hi"
        using True t type_search.simps [of at t lo hi] by (simp add: mid_def [symmetric] Let_def)
      ultimately show ?thesis using mid by simp
    qed
  next
    case False
    then have "type_search at t lo hi = lo" by (subst type_search.simps) simp
    then show ?thesis using False 1(4-) by simp
  qed
qed

text \<open>The last transition not after \<open>t\<close>, by a look at all of them.\<close>

definition type_in_force :: "state \<Rightarrow> time_t \<Rightarrow> nat" where
  "type_in_force sp t =
     (case filter (\<lambda>i. ats sp ! i \<le> t) [0..<length (ats sp)] of [] \<Rightarrow> defaulttype sp | i # is \<Rightarrow> types sp ! last (i # is))"

lemma local_type_in_force:
  assumes "sorted (ats sp)"
  shows "local_type sp t = type_in_force sp t"
proof (cases "ats sp = [] \<or> t < ats sp ! 0")
  case True
  then have "\<not> ats sp ! i \<le> t" if "i < length (ats sp)" for i using sorted_nth_mono [OF assms _ that, of 0] that by (auto simp: not_le)
  then have "filter (\<lambda>i. ats sp ! i \<le> t) [0..<length (ats sp)] = []" by (simp add: filter_empty_conv)
  then show ?thesis using True by (auto simp: local_type_def type_in_force_def)
next
  case False
  define k where "k = type_search (ats sp) t 1 (length (ats sp))"
  have l: "1 \<le> length (ats sp)" using False by (cases "ats sp") auto
  have z: "\<forall>i < 1. ats sp ! i \<le> t" using False by (simp add: not_less)
  have tr: "\<forall>i. length (ats sp) \<le> i \<and> i < length (ats sp) \<longrightarrow> t < ats sp ! i" by auto
  have k: "k \<le> length (ats sp)" "1 \<le> k" "\<forall>i < k. ats sp ! i \<le> t" "\<forall>i. k \<le> i \<and> i < length (ats sp) \<longrightarrow> t < ats sp ! i"
    using type_search_first [OF assms l order_refl z tr, folded k_def] by simp_all
  have "[0..<length (ats sp)] = [0..<k] @ [k..<length (ats sp)]" using k(1) upt_add_eq_append [of 0 k "length (ats sp) - k"] by simp
  moreover have "filter (\<lambda>i. ats sp ! i \<le> t) [0..<k] = [0..<k]" using k(3) by (simp add: filter_id_conv)
  moreover have "filter (\<lambda>i. ats sp ! i \<le> t) [k..<length (ats sp)] = []" using k(4) by (auto simp: filter_empty_conv not_le)
  ultimately have "filter (\<lambda>i. ats sp ! i \<le> t) [0..<length (ats sp)] = [0..<k]" by simp
  moreover obtain i xs where "[0..<k] = i # xs" "last (i # xs) = k - 1" using k(2) last_upt [of 0 k] by (cases "[0..<k]") auto
  ultimately show ?thesis using False by (simp add: local_type_def type_in_force_def k_def)
qed

section \<open>Properties\<close>

text \<open>
  C19. \<^verbatim>\<open>timesub\<close> never fails for an offset and a leap second correction that together are below \<open>10 ^ 9\<close> seconds. The fields are
  the date, the day of the year, the day of the week and the time of day, in the Gregorian calendar, of the second that
  lies the corrected offset after the given time; during a leap second the seconds are counted on beyond 59.
\<close>

theorem timesub_calendar:
  assumes "leap_scan sp t (length (lsis sp)) = (corr, hit)" "\<bar>offset - corr\<bar> \<le> 10 ^ 9"
  shows "\<exists>r. timesub t offset sp = Some r \<and>
    (let s = uint t + offset - corr; y = tm_year r + 1900; m = nat (tm_mon r) in
     valid_date y m (tm_mday r) \<and> date_number y m (tm_mday r) = s div 86400 \<and>
     tm_yday r = before_month (isleap y) m + tm_mday r - 1 \<and> tm_wday r = weekday (s div 86400) \<and>
     0 \<le> tm_hour r \<and> tm_hour r < 24 \<and> 0 \<le> tm_min r \<and> tm_min r < 60 \<and> hit \<le> tm_sec r \<and> tm_sec r < 60 + hit \<and>
     s = 86400 * date_number y m (tm_mday r) + 3600 * tm_hour r + 60 * tm_min r + (tm_sec r - hit))"
proof -
  obtain r where r: "timesub t offset sp = Some r" "shows_time (r\<lparr>tm_sec := tm_sec r - hit\<rparr>) (uint t + offset - corr)"
    using timesub_shows [OF assms] by blast
  define s where "s = uint t + offset - corr"
  have v: "shows_time (r\<lparr>tm_sec := tm_sec r - hit\<rparr>) s" using r(2) by (simp only: s_def)
  have R: "0 \<le> tm_hour r" "tm_hour r < 24" "0 \<le> tm_min r" "tm_min r < 60" "0 \<le> tm_sec r - hit" "tm_sec r - hit < 60"
      "s = 86400 * (s div 86400) + 3600 * tm_hour r + 60 * tm_min r + (tm_sec r - hit)"
    using shows_time_range [OF v] by simp_all
  have S: "valid_date (tm_year r + 1900) (nat (tm_mon r)) (tm_mday r)" "date_number (tm_year r + 1900) (nat (tm_mon r)) (tm_mday r) = s div 86400"
      "tm_yday r = before_month (isleap (tm_year r + 1900)) (nat (tm_mon r)) + tm_mday r - 1" "tm_wday r = weekday (s div 86400)"
    using v by (simp_all add: shows_time_def)
  show ?thesis unfolding Let_def s_def [symmetric] S(2)
    using r(1) S R by (intro exI [of _ r] conjI) (assumption | linarith)+
qed

theorem timesub_calendar_witness:
  "\<exists>r. timesub 951782400 (- 18000) \<lparr>goback = False, goahead = False, ats = [], types = [], ttis = [], chars = [], lsis = [],
     before_lsis = 0, defaulttype = 0\<rparr> = Some r \<and> date_number (tm_year r + 1900) (nat (tm_mon r)) (tm_mday r) = 11015"
  using timesub_calendar [of "\<lparr>goback = False, goahead = False, ats = [], types = [], ttis = [], chars = [], lsis = [],
     before_lsis = 0, defaulttype = 0\<rparr>" 951782400 0 0 "- 18000"] by (auto simp: Let_def)

text \<open>
  \<^verbatim>\<open>localsub\<close> on a table of transitions in order, without leap seconds, shows every time with the offset, the flag for
  daylight saving and the abbreviation of the type that the last transition not after it has set, or of the default type
  before the first transition. The search for the transition by bisection agrees with a look at all of them.
\<close>

theorem localtime_in_zone:
  assumes "sorted (ats sp)" "\<not> goback sp" "\<not> goahead sp" "lsis sp = []" "\<forall>i \<in> set (ttis sp). \<bar>tt_gmtoff i\<bar> \<le> 10 ^ 8"
    "type_in_force sp t < length (ttis sp)"
  shows "\<exists>r. localsub sp t 0 = Some r \<and> shows_time r (uint t + tt_gmtoff (ttis sp ! type_in_force sp t)) \<and>
    tm_isdst r = tt_isdst (ttis sp ! type_in_force sp t) \<and> tm_gmtoff r = tt_gmtoff (ttis sp ! type_in_force sp t) \<and>
    tm_zone r = zone_string sp (tt_abbrind (ttis sp ! type_in_force sp t))"
proof -
  let ?o = "tt_gmtoff (ttis sp ! type_in_force sp t)"
  have z: "leap_scan sp t (length (lsis sp)) = (0, 0)" "\<bar>?o - 0\<bar> \<le> 10 ^ 9" using assms(4) bspec [OF assms(5) nth_mem [OF assms(6)]] by simp_all
  obtain r where "timesub t ?o sp = Some r" "shows_time (r\<lparr>tm_sec := tm_sec r - 0\<rparr>) (uint t + ?o - 0)" "tm_gmtoff r = ?o"
    using timesub_shows [OF z] by blast
  then show ?thesis using assms(2,3)
    by (auto simp: localsub_def localsub_plain_def local_type_in_force [OF assms(1)] Let_def shows_time_def)
qed

definition example_zone :: state where
  "example_zone = \<lparr>goback = False, goahead = False, ats = [1000, 2000], types = [1, 0],
     ttis = [\<lparr>tt_gmtoff = 3600, tt_isdst = 0, tt_abbrind = 0, tt_ttisstd = False, tt_ttisgmt = False\<rparr>,
             \<lparr>tt_gmtoff = 7200, tt_isdst = 1, tt_abbrind = 4, tt_ttisstd = False, tt_ttisgmt = False\<rparr>],
     chars = [67, 69, 84, 0, 67, 69, 83, 84, 0], lsis = [], before_lsis = 0, defaulttype = 0\<rparr>"

theorem localtime_in_zone_witness:
  "\<exists>r. localsub example_zone 1500 0 = Some r \<and> tm_isdst r = 1 \<and> tm_hour r = 2 \<and> tm_zone r = [67, 69, 83, 84]"
proof -
  have "type_in_force example_zone 1500 = 1" by (simp add: type_in_force_def example_zone_def upt_rec)
  then show ?thesis using localtime_in_zone [of example_zone 1500]
    by (auto simp: example_zone_def shows_time_def zone_string_def)
qed

end
