(* ===== verification/Mktime.thy ===== *)
theory Mktime
  imports Ctime
begin

text \<open>
  \<^verbatim>\<open>mktime\<close> of \<^verbatim>\<open>ansi/time/ctime.c\<close>, which finds the time that has the given broken-down form: \<^verbatim>\<open>time2sub\<close> normalises the
  fields and then searches all times by bisection, \<^verbatim>\<open>time2\<close> and \<^verbatim>\<open>time1\<close> try again with other assumptions. The conversion
  of a time to fields, \<^verbatim>\<open>localsub\<close> or \<^verbatim>\<open>gmtsub\<close>, is an argument, as in the code. The value \<^verbatim>\<open>WRONG\<close> with the flag \<^verbatim>\<open>okay\<close> not
  set is a result without fields; the fields that are stored back otherwise come with the time. A conversion that fails is taken to
  leave the given structure alone.
\<close>

section \<open>Normalising the fields\<close>

definition increment_overflow32 :: "int \<Rightarrow> int \<Rightarrow> int option" where
  "increment_overflow32 l m = (if (if l \<ge> 0 then m > INT_MAX - l else m < INT_MIN - l) then None else Some (l + m))"

definition tens_delta :: "int \<Rightarrow> int \<Rightarrow> int" where
  "tens_delta units base = (if units \<ge> 0 then units sdiv base else - 1 - (- 1 - units) sdiv base)"

definition normalize_overflow :: "int \<Rightarrow> int \<Rightarrow> int \<Rightarrow> (int \<times> int) option" where
  "normalize_overflow tens units base =
     (let tensdelta = tens_delta units base in do { tens \<leftarrow> increment_overflow tens tensdelta; Some (tens, units - tensdelta * base) })"

definition normalize_overflow32 :: "int \<Rightarrow> int \<Rightarrow> int \<Rightarrow> (int \<times> int) option" where
  "normalize_overflow32 tens units base =
     (let tensdelta = tens_delta units base in do { tens \<leftarrow> increment_overflow32 tens tensdelta; Some (tens, units - tensdelta * base) })"

text \<open>Differences are integers here; in the code they are \<^verbatim>\<open>int\<close> and overflow only for years more than \<open>2 ^ 31\<close> apart.\<close>

definition tmcomp :: "tm \<Rightarrow> tm \<Rightarrow> int" where
  "tmcomp a b =
     (if tm_year a - tm_year b \<noteq> 0 then tm_year a - tm_year b
      else if tm_mon a - tm_mon b \<noteq> 0 then tm_mon a - tm_mon b
      else if tm_mday a - tm_mday b \<noteq> 0 then tm_mday a - tm_mday b
      else if tm_hour a - tm_hour b \<noteq> 0 then tm_hour a - tm_hour b
      else if tm_min a - tm_min b \<noteq> 0 then tm_min a - tm_min b
      else tm_sec a - tm_sec b)"

text \<open>
  The three loops that bring the day into its month, on the year, the month and the day. The test for a month without days in the
  last one is not in the code; it never holds for a month from 0 to 11, and lets the recursion end for every argument.
\<close>

function mday_back :: "int \<Rightarrow> int \<Rightarrow> int \<Rightarrow> (int \<times> int) option" where
  "mday_back mon y mday =
     (if mday \<le> 0 then do {
        y \<leftarrow> increment_overflow32 y (- 1);
        mday_back mon y (mday + year_days (y + (if 1 < mon then 1 else 0))) }
      else Some (y, mday))"
  by pat_completeness auto
termination
  by (relation "measure (\<lambda>(mon, y, mday). nat (1 - mday))") (auto simp: year_lengths_def)

function mday_on :: "int \<Rightarrow> int \<Rightarrow> int \<Rightarrow> (int \<times> int) option" where
  "mday_on mon y mday =
     (if mday > 366 then do {
        y' \<leftarrow> increment_overflow32 y 1;
        mday_on mon y' (mday - year_days (y + (if 1 < mon then 1 else 0))) }
      else Some (y, mday))"
  by pat_completeness auto
termination
  by (relation "measure (\<lambda>(mon, y, mday). nat mday)") (auto simp: year_lengths_def)

function mon_on :: "int \<Rightarrow> int \<Rightarrow> int \<Rightarrow> (int \<times> int \<times> int) option" where
  "mon_on y mon mday =
     (let i = mon_lengths (isleap y) ! nat mon in
      if mday \<le> i \<or> i \<le> 0 then Some (y, mon, mday)
      else if mon + 1 \<ge> 12 then do { y \<leftarrow> increment_overflow32 y 1; mon_on y 0 (mday - i) }
      else mon_on y (mon + 1) (mday - i))"
  by pat_completeness auto
termination
  by (relation "measure (\<lambda>(y, mon, mday). nat mday)") auto

declare mday_back.simps [simp del] mday_on.simps [simp del] mon_on.simps [simp del]

definition norm_fields :: "bool \<Rightarrow> tm \<Rightarrow> tm option" where
  "norm_fields do_norm_secs your = do {
     (min, sec) \<leftarrow> (if do_norm_secs then normalize_overflow (tm_min your) (tm_sec your) 60 else Some (tm_min your, tm_sec your));
     (hour, min) \<leftarrow> normalize_overflow (tm_hour your) min 60;
     (mday, hour) \<leftarrow> normalize_overflow (tm_mday your) hour 24;
     (y, mon) \<leftarrow> normalize_overflow32 (tm_year your) (tm_mon your) 12;
     y \<leftarrow> increment_overflow32 y 1900;
     (y, mday) \<leftarrow> mday_back mon y mday;
     (y, mday) \<leftarrow> mday_on mon y mday;
     (y, mon, mday) \<leftarrow> mon_on y mon mday;
     y \<leftarrow> increment_overflow32 y (- 1900);
     Some (your\<lparr>tm_sec := sec, tm_min := min, tm_hour := hour, tm_mday := mday, tm_mon := mon, tm_year := y\<rparr>) }"

text \<open>Seconds that are out of range are set aside, and added to the time found.\<close>

definition save_seconds :: "tm \<Rightarrow> (tm \<times> int) option" where
  "save_seconds your =
     (if 0 \<le> tm_sec your \<and> tm_sec your < 60 then Some (your, 0)
      else if tm_year your + 1900 < 1970 then do {
        sec \<leftarrow> increment_overflow (tm_sec your) (1 - 60);
        Some (your\<lparr>tm_sec := 59\<rparr>, sec) }
      else Some (your\<lparr>tm_sec := 0\<rparr>, tm_sec your))"

section \<open>The search\<close>

definition middle :: "time_t \<Rightarrow> time_t \<Rightarrow> time_t" where
  "middle lo hi = (let t = lo div 2 + hi div 2 in if t < lo then lo else if t > hi then hi else t)"

definition direction :: "(time_t \<Rightarrow> tm option) \<Rightarrow> tm \<Rightarrow> time_t \<Rightarrow> int" where
  "direction f your t = (case f t of None \<Rightarrow> if t > 0 then 1 else - 1 | Some my \<Rightarrow> tmcomp my your)"

definition narrow :: "int \<Rightarrow> time_t \<Rightarrow> time_t \<Rightarrow> time_t \<Rightarrow> (time_t \<times> time_t) option" where
  "narrow dir t lo hi = do {
     (t, lo, hi) \<leftarrow>
       (if t = lo then (if t + 1 \<le> lo then None else Some (t + 1, lo + 1, hi))
        else if t = hi then (if t - 1 \<ge> hi then None else Some (t - 1, lo, hi - 1))
        else Some (t, lo, hi));
     if lo > hi then None else Some (if dir > 0 then (lo, t) else (t, hi)) }"

lemma middle_between: "lo \<le> hi \<Longrightarrow> lo \<le> middle lo hi \<and> middle lo hi \<le> hi"
  by (auto simp: middle_def Let_def)

lemma unat_mid: "unat (lo div 2 + hi div 2 :: time_t) = unat lo div 2 + unat hi div 2"
proof -
  have "unat lo < 2 ^ LENGTH(32)" "unat hi < 2 ^ LENGTH(32)" by (rule unsigned_less)+
  then show ?thesis by (simp add: unat_word_ariths unat_div_distrib)
qed

lemma middle_crossed: "hi < lo \<Longrightarrow> middle lo hi = lo"
proof -
  assume "hi < lo"
  then have "unat hi < unat lo" by (simp add: word_less_nat_alt)
  then have "lo div 2 + hi div 2 < lo" unfolding word_less_nat_alt unat_mid by presburger
  then show ?thesis by (auto simp: middle_def Let_def)
qed

lemma unat_Suc: "t < u \<Longrightarrow> unat (t + 1) = unat t + 1" "u < t \<Longrightarrow> unat (t - 1) = unat t - 1" for t u :: time_t
proof -
  have "unat u < 2 ^ LENGTH(32)" by (rule unsigned_less)
  then show "t < u \<Longrightarrow> unat (t + 1) = unat t + 1" by (simp add: word_less_nat_alt unat_word_ariths)
  assume "u < t"
  then have "1 \<le> t" by (simp add: word_less_nat_alt word_le_nat_alt)
  then show "unat (t - 1) = unat t - 1" by (simp add: unat_sub)
qed

text \<open>Whatever the conversion does, the search ends: the interval becomes shorter.\<close>

lemma narrow_Some:
  assumes n: "narrow dir (middle lo hi) lo hi = Some (lo', hi')"
  shows "unat lo < unat hi" "unat lo \<le> unat (middle lo hi)" "unat (middle lo hi) \<le> unat hi"
    "(unat lo', unat hi') =
      (if middle lo hi = lo then (unat lo + 1, if dir > 0 then unat lo + 1 else unat hi)
       else if middle lo hi = hi then (if dir > 0 then unat lo else unat hi - 1, unat hi - 1)
       else if dir > 0 then (unat lo, unat (middle lo hi)) else (unat (middle lo hi), unat hi))"
proof -
  have "\<not> hi < lo"
  proof
    assume "hi < lo"
    then have "narrow dir (middle lo hi) lo hi = None"
      by (auto simp: middle_crossed narrow_def)
    then show False using n by simp
  qed
  then have b: "lo \<le> middle lo hi" "middle lo hi \<le> hi" using middle_between [of lo hi] by auto
  then show "unat lo \<le> unat (middle lo hi)" "unat (middle lo hi) \<le> unat hi" by (simp_all add: word_le_nat_alt)
  have "lo \<noteq> hi"
  proof
    assume "lo = hi"
    then have "narrow dir (middle lo hi) lo hi = None" using b by (auto simp: narrow_def)
    then show False using n by simp
  qed
  then have lh: "lo < hi" using b by auto
  then show "unat lo < unat hi" by (simp add: word_less_nat_alt)
  show "(unat lo', unat hi') =
      (if middle lo hi = lo then (unat lo + 1, if dir > 0 then unat lo + 1 else unat hi)
       else if middle lo hi = hi then (if dir > 0 then unat lo else unat hi - 1, unat hi - 1)
       else if dir > 0 then (unat lo, unat (middle lo hi)) else (unat (middle lo hi), unat hi))"
    using n unat_Suc(1) [OF lh] unat_Suc(2) [OF lh] by (auto simp: narrow_def split: if_splits)
qed

lemma narrow_shorter:
  assumes "narrow dir (middle lo hi) lo hi = Some (lo', hi')"
  shows "unat hi' - unat lo' < unat hi - unat lo"
  using narrow_Some [OF assms] by (auto simp: word_unat_eq_iff split: if_splits)

function search_loop :: "(time_t \<Rightarrow> tm option) \<Rightarrow> tm \<Rightarrow> time_t \<Rightarrow> time_t \<Rightarrow> time_t option" where
  "search_loop f your lo hi =
     (let t = middle lo hi; dir = direction f your t in
      if dir \<noteq> 0 then do { (lo, hi) \<leftarrow> narrow dir t lo hi; search_loop f your lo hi } else Some t)"
  by pat_completeness auto
termination
  by (relation "measure (\<lambda>(f, your, lo, hi). unat hi - unat lo)") (auto dest: narrow_shorter)

declare search_loop.simps [simp del]

definition hunt :: "state \<Rightarrow> (time_t \<Rightarrow> tm option) \<Rightarrow> tm \<Rightarrow> time_t \<Rightarrow> time_t option" where
  "hunt sp f your t =
     List.find (\<lambda>newt. case f newt of None \<Rightarrow> False | Some my \<Rightarrow> tmcomp my your = 0 \<and> tm_isdst my = tm_isdst your)
       [t + word_of_int (tt_gmtoff (ttis sp ! j)) - word_of_int (tt_gmtoff (ttis sp ! i)).
          i \<leftarrow> rev [0..<length (ttis sp)], tt_isdst (ttis sp ! i) = tm_isdst your,
          j \<leftarrow> rev [0..<length (ttis sp)], tt_isdst (ttis sp ! j) \<noteq> tm_isdst your]"

definition WRONG :: time_t where "WRONG = - 1"

definition time2sub :: "state \<Rightarrow> (time_t \<Rightarrow> tm option) \<Rightarrow> bool \<Rightarrow> tm \<Rightarrow> time_t \<times> tm option" where
  "time2sub sp f do_norm_secs tmp =
     (case do {
        your \<leftarrow> norm_fields do_norm_secs tmp;
        (your, saved) \<leftarrow> save_seconds your;
        t \<leftarrow> search_loop f your 0 (0 - 1);
        my \<leftarrow> f t;
        t \<leftarrow> (if tm_isdst your < 0 \<or> tm_isdst my = tm_isdst your then Some t else hunt sp f your t);
        let newt = t + word_of_int saved;
        if (newt < t) \<noteq> (saved < 0) then None else Some newt } of
        None \<Rightarrow> (WRONG, None)
      | Some t \<Rightarrow> (t, f t))"

definition time2 :: "state \<Rightarrow> (time_t \<Rightarrow> tm option) \<Rightarrow> tm \<Rightarrow> time_t \<times> tm option" where
  "time2 sp f tmp = (let (t, r) = time2sub sp f False tmp in if r \<noteq> None then (t, r) else time2sub sp f True tmp)"

text \<open>The types that occur in the table, from the last transition to the first; then all pairs to try.\<close>

definition seen_types :: "state \<Rightarrow> nat list" where
  "seen_types sp = rev (remdups (types sp))"

definition time1 :: "state \<Rightarrow> (time_t \<Rightarrow> tm option) \<Rightarrow> tm \<Rightarrow> time_t \<times> tm option" where
  "time1 sp f tmp =
     (let tmp = (if tm_isdst tmp > 1 then tmp\<lparr>tm_isdst := 1\<rparr> else tmp);
          (t, r) = time2 sp f tmp in
      if r \<noteq> None \<or> tm_isdst tmp < 0 then (t, r)
      else (case List.find (\<lambda>(t, r). r \<noteq> None)
              [time2 sp f (tmp\<lparr>tm_sec := tm_sec tmp + (tt_gmtoff (ttis sp ! other) - tt_gmtoff (ttis sp ! same)),
                 tm_isdst := 1 - tm_isdst tmp\<rparr>).
                 same \<leftarrow> seen_types sp, tt_isdst (ttis sp ! same) = tm_isdst tmp,
                 other \<leftarrow> seen_types sp, tt_isdst (ttis sp ! other) \<noteq> tm_isdst tmp] of
              None \<Rightarrow> (WRONG, None)
            | Some r \<Rightarrow> r))"

text \<open>\<^verbatim>\<open>sp\<close> are the tables that \<^verbatim>\<open>tzset\<close> has left.\<close>

definition mktime :: "state \<Rightarrow> tm \<Rightarrow> time_t \<times> tm option" where
  "mktime sp tmp = time1 sp (\<lambda>t. localsub sp t 0) tmp"

section \<open>The search finds the time\<close>

lemma narrow_defined:
  assumes "unat lo < unat hi"
  shows "narrow dir (middle lo hi) lo hi \<noteq> None"
proof -
  have lh: "lo < hi" using assms by (simp add: word_less_nat_alt)
  note u = unat_Suc(1) [OF lh] unat_Suc(2) [OF lh]
  then show ?thesis using assms by (auto simp: narrow_def word_less_nat_alt word_le_nat_alt)
qed

lemma search_finds:
  assumes "direction f your T = 0" "\<And>t. unat t < unat T \<Longrightarrow> direction f your t < 0" "\<And>t. unat T < unat t \<Longrightarrow> direction f your t > 0"
    and "unat lo \<le> unat T" "unat T \<le> unat hi"
  shows "search_loop f your lo hi = Some T"
  using assms(4,5)
proof (induction "unat hi - unat lo" arbitrary: lo hi rule: less_induct)
  case less
  define t where "t = middle lo hi"
  consider "unat t < unat T" | "t = T" | "unat T < unat t" by (metis linorder_neqE_nat word_unat_eq_iff)
  then have d: "direction f your t = 0 \<longleftrightarrow> t = T" "direction f your t > 0 \<longleftrightarrow> unat T < unat t"
    by (cases; use assms(1-3) in force)+
  show ?case
  proof (cases "t = T")
    case True
    then show ?thesis using d by (subst search_loop.simps) (simp add: t_def [symmetric] Let_def)
  next
    case False
    have "lo \<le> hi" using less(2,3) by (simp add: word_le_nat_alt)
    then have tb: "lo \<le> t" "t \<le> hi" using middle_between [of lo hi] by (auto simp: t_def)
    have "unat lo < unat hi" using less(2,3) tb False by (auto simp: word_le_nat_alt word_unat_eq_iff)
    then obtain lo' hi' where n: "narrow (direction f your t) t lo hi = Some (lo', hi')" using narrow_defined t_def by fastforce
    have e: "search_loop f your lo hi = search_loop f your lo' hi'"
      using False d n by (subst search_loop.simps) (simp add: t_def [symmetric] Let_def)
    note N = narrow_Some [OF n [unfolded t_def], folded t_def] and S = narrow_shorter [OF n [unfolded t_def]]
    have "unat lo' \<le> unat T" "unat T \<le> unat hi'"
      using N less(2,3) d(2) False by (auto simp: word_unat_eq_iff split: if_splits)
    then show ?thesis unfolding e by (rule less(1) [OF S])
  qed
qed

lemma search_sound: "search_loop f your lo hi = Some t \<Longrightarrow> direction f your t = 0"
proof (induction f your lo hi rule: search_loop.induct)
  case (1 f your lo hi)
  then show ?case using search_loop.simps [of f your lo hi]
    by (auto simp: Let_def split: if_splits Option.bind_splits)
qed

subsection \<open>Fields and seconds\<close>

text \<open>The fields that are compared show the second \<open>s\<close>; the second that a structure asks for when its fields may be out of range.\<close>

definition has_fields :: "tm \<Rightarrow> int \<Rightarrow> bool" where
  "has_fields r s \<longleftrightarrow>
     0 \<le> tm_mon r \<and> valid_date (tm_year r + 1900) (nat (tm_mon r)) (tm_mday r) \<and>
     0 \<le> tm_hour r \<and> tm_hour r < 24 \<and> 0 \<le> tm_min r \<and> tm_min r < 60 \<and> 0 \<le> tm_sec r \<and> tm_sec r < 60 \<and>
     s = 86400 * date_number (tm_year r + 1900) (nat (tm_mon r)) (tm_mday r) + 3600 * tm_hour r + 60 * tm_min r + tm_sec r"

definition asked :: "tm \<Rightarrow> int" where
  "asked r = 86400 * (date_number (tm_year r + 1900 + tm_mon r div 12) (nat (tm_mon r mod 12)) 1 + tm_mday r - 1) +
     3600 * tm_hour r + 60 * tm_min r + tm_sec r"

lemma shows_has_fields: "shows_time r s \<Longrightarrow> has_fields r s"
  using shows_time_range [of r s] by (auto simp: shows_time_def has_fields_def)

lemma date_number_day: "date_number y m d = date_number y m 1 + d - 1"
  by (simp add: date_number_def day_number_def)

lemma has_fields_asked: "has_fields r s \<Longrightarrow> asked r = s"
  using date_number_day [of "tm_year r + 1900" "nat (tm_mon r)" "tm_mday r"]
  by (auto simp: has_fields_def asked_def valid_date_def div_pos_pos_trivial mod_pos_pos_trivial)

lemma tmcomp_swap: "tmcomp b a = - tmcomp a b"
  by (simp add: tmcomp_def)

lemma tmcomp_less:
  assumes a: "has_fields a s" and b: "has_fields b s'" and c: "tmcomp a b < 0"
  shows "s < s'"
proof -
  note A = a [unfolded has_fields_def] and B = b [unfolded has_fields_def]
  let ?D = "date_number (tm_year a + 1900) (nat (tm_mon a)) (tm_mday a)" and ?E = "date_number (tm_year b + 1900) (nat (tm_mon b)) (tm_mday b)"
  consider "tm_year a < tm_year b" | "tm_year a = tm_year b" "tm_mon a < tm_mon b"
    | "tm_year a = tm_year b" "tm_mon a = tm_mon b" "tm_mday a < tm_mday b"
    | "tm_year a = tm_year b" "tm_mon a = tm_mon b" "tm_mday a = tm_mday b"
      "3600 * tm_hour a + 60 * tm_min a + tm_sec a < 3600 * tm_hour b + 60 * tm_min b + tm_sec b"
    using c A B by (auto simp: tmcomp_def split: if_splits)
  then show ?thesis
  proof cases
    case 1
    then have "?D < ?E" using A B by (intro date_number_year_less) auto
    then show ?thesis using A B by linarith
  next
    case 2
    then have "?D < ?E" using A B date_number_month_less [of "tm_year a + 1900" "nat (tm_mon a)" "tm_mday a" "nat (tm_mon b)" "tm_mday b"] by auto
    then show ?thesis using A B by linarith
  next
    case 3
    then have "?D < ?E" by (simp add: date_number_def day_number_def)
    then show ?thesis using A B by linarith
  next
    case 4
    then show ?thesis using A B by simp
  qed
qed

lemma tmcomp_eq: "has_fields a s \<Longrightarrow> has_fields b s' \<Longrightarrow> tmcomp a b = 0 \<Longrightarrow> s = s'"
  by (auto simp: tmcomp_def has_fields_def split: if_splits)

lemma tmcomp_order:
  assumes "has_fields a s" "has_fields b s'"
  shows "tmcomp a b < 0 \<longleftrightarrow> s < s'" "tmcomp a b > 0 \<longleftrightarrow> s' < s" "tmcomp a b = 0 \<longleftrightarrow> s = s'"
  using tmcomp_less [OF assms] tmcomp_less [OF assms(2,1)] tmcomp_eq [OF assms] tmcomp_swap [of b a] by linarith+

subsection \<open>Normalising keeps the second\<close>

lemma tens_delta_div: "0 < base \<Longrightarrow> tens_delta units base = units div base"
  using div_neg [of base "- 1 - units"] div_neg [of base units]
  by (auto simp: tens_delta_def sdiv_nonneg algebra_simps)

lemma increment32_ok: "\<bar>i\<bar> \<le> 10 ^ 9 \<Longrightarrow> \<bar>j\<bar> \<le> 10 ^ 9 \<Longrightarrow> increment_overflow32 i j = Some (i + j)"
  by (auto simp: increment_overflow32_def INT_MAX_def INT_MIN_def)

lemma div_small: "1 \<le> b \<Longrightarrow> \<bar>u\<bar> \<le> n \<Longrightarrow> \<bar>u div b\<bar> \<le> n" for u b n :: int
  using zdiv_mono2 [of u 1 b] zdiv_mono2_neg [of u 1 b] pos_imp_zdiv_nonneg_iff [of b u]
  by (cases "0 \<le> u") auto

lemma normalize_ok:
  assumes "0 < base" "\<bar>tens\<bar> \<le> 10 ^ 9" "\<bar>units\<bar> \<le> 10 ^ 9"
  shows "normalize_overflow tens units base = Some (tens + units div base, units mod base)"
    "normalize_overflow32 tens units base = Some (tens + units div base, units mod base)"
proof -
  have "\<bar>units div base\<bar> \<le> 10 ^ 9" using assms by (intro div_small) auto
  moreover have "units - units div base * base = units mod base" by (simp add: minus_div_mult_eq_mod)
  ultimately show "normalize_overflow tens units base = Some (tens + units div base, units mod base)"
    "normalize_overflow32 tens units base = Some (tens + units div base, units mod base)"
    using assms by (simp_all add: normalize_overflow_def normalize_overflow32_def tens_delta_div increment_ok increment32_ok Let_def)
qed

text \<open>From a month to the same month of the next year; the leap day is that of the year in which February follows.\<close>

lemma before_month_leap: "m \<le> 12 \<Longrightarrow> before_month leap m = before_month False m + (if leap \<and> 1 < m then 1 else 0)"
proof (induction m)
  case (Suc m)
  have "mon_lengths leap ! m = mon_lengths False ! m + (if leap \<and> m = 1 then 1 else 0)"
    by (simp add: mon_lengths_def nth_Cons')
  then show ?case using Suc by (auto simp: before_month_Suc)
qed (simp add: before_month_def)

lemma next_year_date: "m < 12 \<Longrightarrow> date_number (y + 1) m 1 = date_number y m 1 + year_days (y + (if 1 < m then 1 else 0))"
  using before_month_leap [of m "isleap y"] before_month_leap [of m "isleap (y + 1)"] before_year_Suc [of y]
  by (auto simp: date_number_def day_number_def year_lengths_def)

lemma mday_back_ok:
  assumes "0 \<le> mon" "mon < 12" "\<bar>y\<bar> + max 0 (1 - mday) \<le> 10 ^ 9"
  shows "\<exists>y' d. mday_back mon y mday = Some (y', d) \<and> date_number y' (nat mon) 1 + d = date_number y (nat mon) 1 + mday \<and> 1 \<le> d \<and>
    \<bar>y'\<bar> \<le> \<bar>y\<bar> + max 0 (1 - mday) \<and> d \<le> max mday 366"
  using assms(3)
proof (induction "nat (1 - mday)" arbitrary: y mday rule: less_induct)
  case less
  let ?n = "year_days (y - 1 + (if 1 < mon then 1 else 0))"
  have n: "365 \<le> ?n" "?n \<le> 366" using year_days_pos by blast+
  show ?case
  proof (cases "mday \<le> 0")
    case True
    have s: "date_number y (nat mon) 1 = date_number (y - 1) (nat mon) 1 + ?n"
      using next_year_date [of "nat mon" "y - 1"] assms(1,2) by (auto simp: nat_less_iff)
    have ov: "increment_overflow32 y (- 1) = Some (y - 1)" using less(2) by (subst increment32_ok) auto
    have e: "mday_back mon y mday = mday_back mon (y - 1) (mday + ?n)" using True ov by (subst mday_back.simps) simp
    have bd: "\<bar>y - 1\<bar> + max 0 (1 - (mday + ?n)) \<le> \<bar>y\<bar> + max 0 (1 - mday)" using True n by linarith
    have "\<exists>y' d. mday_back mon (y - 1) (mday + ?n) = Some (y', d) \<and>
        date_number y' (nat mon) 1 + d = date_number (y - 1) (nat mon) 1 + (mday + ?n) \<and> 1 \<le> d \<and>
        \<bar>y'\<bar> \<le> \<bar>y - 1\<bar> + max 0 (1 - (mday + ?n)) \<and> d \<le> max (mday + ?n) 366"
      by (rule less(1)) (use True n bd less(2) in linarith)+
    then obtain y' d where "mday_back mon y mday = Some (y', d)" "date_number y' (nat mon) 1 + d = date_number y (nat mon) 1 + mday"
      "1 \<le> d" "\<bar>y'\<bar> \<le> \<bar>y - 1\<bar> + max 0 (1 - (mday + ?n))" "d \<le> max (mday + ?n) 366"
      using e s by auto
    then show ?thesis using bd True n by (intro exI [of _ y'] exI [of _ d]) linarith
  next
    case False
    then show ?thesis by (subst mday_back.simps) auto
  qed
qed

lemma mday_on_ok:
  assumes "0 \<le> mon" "mon < 12" "\<bar>y\<bar> + mday \<le> 10 ^ 9" "1 \<le> mday"
  shows "\<exists>y' d. mday_on mon y mday = Some (y', d) \<and> date_number y' (nat mon) 1 + d = date_number y (nat mon) 1 + mday \<and> 1 \<le> d \<and>
    d \<le> 366 \<and> \<bar>y'\<bar> + d \<le> \<bar>y\<bar> + mday"
  using assms(3,4)
proof (induction "nat mday" arbitrary: y mday rule: less_induct)
  case less
  let ?n = "year_days (y + (if 1 < mon then 1 else 0))"
  have n: "365 \<le> ?n" "?n \<le> 366" using year_days_pos by blast+
  show ?case
  proof (cases "mday > 366")
    case True
    have s: "date_number (y + 1) (nat mon) 1 = date_number y (nat mon) 1 + ?n"
      using next_year_date [of "nat mon" y] assms(1,2) by (auto simp: nat_less_iff)
    have ov: "increment_overflow32 y 1 = Some (y + 1)" using less(2,3) by (subst increment32_ok) auto
    have e: "mday_on mon y mday = mday_on mon (y + 1) (mday - ?n)" using True ov by (subst mday_on.simps) simp
    have bd: "\<bar>y + 1\<bar> + (mday - ?n) \<le> \<bar>y\<bar> + mday" using n by linarith
    have "\<exists>y' d. mday_on mon (y + 1) (mday - ?n) = Some (y', d) \<and>
        date_number y' (nat mon) 1 + d = date_number (y + 1) (nat mon) 1 + (mday - ?n) \<and> 1 \<le> d \<and>
        d \<le> 366 \<and> \<bar>y'\<bar> + d \<le> \<bar>y + 1\<bar> + (mday - ?n)"
      by (rule less(1)) (use True n bd less(2) in linarith)+
    then show ?thesis using e s bd by (auto intro: order_trans)
  next
    case False
    then show ?thesis using less(3) by (subst mday_on.simps) auto
  qed
qed

lemma next_month_date:
  "m < 11 \<Longrightarrow> date_number y (Suc m) 1 = date_number y m 1 + mon_lengths (isleap y) ! m"
  "date_number (y + 1) 0 1 = date_number y 11 1 + mon_lengths (isleap y) ! 11"
proof -
  show "m < 11 \<Longrightarrow> date_number y (Suc m) 1 = date_number y m 1 + mon_lengths (isleap y) ! m"
    by (simp add: date_number_def day_number_def before_month_Suc)
  have "before_month (isleap y) 11 + mon_lengths (isleap y) ! 11 = year_days y"
    using before_month_Suc [of 11 "isleap y"] before_month_12 [of "isleap y"] by simp
  then show "date_number (y + 1) 0 1 = date_number y 11 1 + mon_lengths (isleap y) ! 11"
    by (simp add: date_number_def day_number_def before_year_Suc before_month_def)
qed

lemma mon_on_ok:
  assumes "0 \<le> mon" "mon < 12" "\<bar>y\<bar> + mday \<le> 10 ^ 9" "1 \<le> mday"
  shows "\<exists>y' mon' d. mon_on y mon mday = Some (y', mon', d) \<and> 0 \<le> mon' \<and> valid_date y' (nat mon') d \<and>
    date_number y' (nat mon') d = date_number y (nat mon) 1 + mday - 1 \<and> \<bar>y'\<bar> \<le> \<bar>y\<bar> + mday"
  using assms
proof (induction "nat mday" arbitrary: y mon mday rule: less_induct)
  case less
  define i where "i = mon_lengths (isleap y) ! nat mon"
  have i: "28 \<le> i" "i \<le> 31" using mon_lengths_bounds [of "nat mon" "isleap y"] less(2,3) by (auto simp: i_def nat_less_iff)
  note u = mon_on.simps [of y mon mday, folded i_def, unfolded Let_def]
  show ?case
  proof (cases "mday \<le> i")
    case True
    then have "mon_on y mon mday = Some (y, mon, mday)" by (subst u) simp
    moreover have "valid_date y (nat mon) mday" using True less(2-5) by (simp add: valid_date_def i_def nat_less_iff)
    ultimately show ?thesis using less(2-5) date_number_day [of y "nat mon" mday] by auto
  next
    case False
    show ?thesis
    proof (cases "mon = 11")
      case True
      have ov: "increment_overflow32 y 1 = Some (y + 1)" using less(4,5) by (subst increment32_ok) auto
      have e: "mon_on y mon mday = mon_on (y + 1) 0 (mday - i)" using True False i ov by (subst u) simp
      have s: "date_number (y + 1) 0 1 = date_number y (nat mon) 1 + i" using True next_month_date(2) [of y] by (simp add: i_def)
      have bd: "\<bar>y + 1\<bar> + (mday - i) \<le> \<bar>y\<bar> + mday" using i by linarith
      have "\<exists>y' mon' d. mon_on (y + 1) 0 (mday - i) = Some (y', mon', d) \<and> 0 \<le> mon' \<and> valid_date y' (nat mon') d \<and>
          date_number y' (nat mon') d = date_number (y + 1) (nat 0) 1 + (mday - i) - 1 \<and> \<bar>y'\<bar> \<le> \<bar>y + 1\<bar> + (mday - i)"
        by (rule less(1)) (use False i bd less(4,5) in linarith)+
      then show ?thesis using e s bd by (auto intro: order_trans)
    next
      case nd: False
      then have e: "mon_on y mon mday = mon_on y (mon + 1) (mday - i)" using False i less(3) by (subst u) simp
      have s: "date_number y (nat (mon + 1)) 1 = date_number y (nat mon) 1 + i"
        using next_month_date(1) [of "nat mon" y] nd less(2,3) by (simp add: i_def nat_add_distrib nat_less_iff)
      have "\<exists>y' mon' d. mon_on y (mon + 1) (mday - i) = Some (y', mon', d) \<and> 0 \<le> mon' \<and> valid_date y' (nat mon') d \<and>
          date_number y' (nat mon') d = date_number y (nat (mon + 1)) 1 + (mday - i) - 1 \<and> \<bar>y'\<bar> \<le> \<bar>y\<bar> + (mday - i)"
        by (rule less(1)) (use False nd i less(2-5) in linarith)+
      then show ?thesis using e s i by (auto intro: order_trans)
    qed
  qed
qed

text \<open>Bounds on the fields under which no step of the normalisation overflows.\<close>

definition moderate :: "tm \<Rightarrow> bool" where
  "moderate r \<longleftrightarrow> list_all (\<lambda>x. \<bar>x\<bar> \<le> 10 ^ 8) [tm_sec r, tm_min r, tm_hour r, tm_mday r, tm_mon r, tm_year r]"

lemma norm_fields_ok:
  assumes "moderate r"
  obtains n where "norm_fields b r = Some n" "tm_isdst n = tm_isdst r" "b \<Longrightarrow> 0 \<le> tm_sec n \<and> tm_sec n < 60" "\<not> b \<Longrightarrow> tm_sec n = tm_sec r"
    "\<And>x. 0 \<le> x \<Longrightarrow> x < 60 \<Longrightarrow> has_fields (n\<lparr>tm_sec := x\<rparr>) (asked r - tm_sec n + x)"
proof -
  have m: "\<bar>tm_sec r\<bar> \<le> 10 ^ 8" "\<bar>tm_min r\<bar> \<le> 10 ^ 8" "\<bar>tm_hour r\<bar> \<le> 10 ^ 8" "\<bar>tm_mday r\<bar> \<le> 10 ^ 8" "\<bar>tm_mon r\<bar> \<le> 10 ^ 8" "\<bar>tm_year r\<bar> \<le> 10 ^ 8"
    using assms by (auto simp: moderate_def)
  define sec where "sec = (if b then tm_sec r mod 60 else tm_sec r)"
  define min1 where "min1 = tm_min r + (if b then tm_sec r div 60 else 0)"
  define hour1 where "hour1 = tm_hour r + min1 div 60"
  define mday1 where "mday1 = tm_mday r + hour1 div 24"
  define mon where "mon = tm_mon r mod 12"
  define y where "y = tm_year r + tm_mon r div 12 + 1900"
  have b1: "\<bar>min1\<bar> \<le> 200000000" using m(1,2) div_small [of 60 "tm_sec r" "10 ^ 8"] by (auto simp: min1_def)
  have b2: "\<bar>hour1\<bar> \<le> 300000000" using m(3) b1 div_small [of 60 min1 200000000] by (auto simp: hour1_def)
  have b3: "\<bar>mday1\<bar> \<le> 400000000" using m(4) b2 div_small [of 24 hour1 300000000] by (auto simp: mday1_def)
  have b4: "\<bar>y\<bar> \<le> 200001900" using m(5,6) div_small [of 12 "tm_mon r" "10 ^ 8"] by (auto simp: y_def)
  have mon: "0 \<le> mon" "mon < 12" by (simp_all add: mon_def)
  have s1: "(if b then normalize_overflow (tm_min r) (tm_sec r) 60 else Some (tm_min r, tm_sec r)) = Some (min1, sec)"
    using m(1,2) by (simp add: normalize_ok min1_def sec_def)
  have s2: "normalize_overflow (tm_hour r) min1 60 = Some (hour1, min1 mod 60)" using m(3) b1 by (simp add: normalize_ok hour1_def)
  have s3: "normalize_overflow (tm_mday r) hour1 24 = Some (mday1, hour1 mod 24)" using m(4) b2 by (simp add: normalize_ok mday1_def)
  have s4: "normalize_overflow32 (tm_year r) (tm_mon r) 12 = Some (y - 1900, mon)" using m(5,6) by (simp add: normalize_ok y_def mon_def)
  have s5: "increment_overflow32 (y - 1900) 1900 = Some y" using b4 by (subst increment32_ok) auto
  have "\<bar>y\<bar> + max 0 (1 - mday1) \<le> 1000000000" using b3 b4 by linarith
  then obtain y1 d1 where l1: "mday_back mon y mday1 = Some (y1, d1)" "date_number y1 (nat mon) 1 + d1 = date_number y (nat mon) 1 + mday1"
      "1 \<le> d1" "\<bar>y1\<bar> \<le> \<bar>y\<bar> + max 0 (1 - mday1)" "d1 \<le> max mday1 366"
    using mday_back_ok [OF mon, of y mday1] by auto
  have "\<bar>y1\<bar> + d1 \<le> 900000000" using l1(4,5) b3 b4 by linarith
  then obtain y2 d2 where l2: "mday_on mon y1 d1 = Some (y2, d2)" "date_number y2 (nat mon) 1 + d2 = date_number y1 (nat mon) 1 + d1"
      "1 \<le> d2" "\<bar>y2\<bar> + d2 \<le> 900000000"
    using mday_on_ok [OF mon _ l1(3), of y1] by auto
  obtain y3 mon3 d3 where l3: "mon_on y2 mon d2 = Some (y3, mon3, d3)" "0 \<le> mon3" "valid_date y3 (nat mon3) d3"
      "date_number y3 (nat mon3) d3 = date_number y2 (nat mon) 1 + d2 - 1" "\<bar>y3\<bar> \<le> 900000000"
    using mon_on_ok [OF mon _ l2(3), of y2] l2(4) by auto
  have s6: "increment_overflow32 y3 (- 1900) = Some (y3 - 1900)" using l3(5) by (subst increment32_ok) auto
  let ?n = "r\<lparr>tm_sec := sec, tm_min := min1 mod 60, tm_hour := hour1 mod 24, tm_mday := d3, tm_mon := mon3, tm_year := y3 - 1900\<rparr>"
  have n: "norm_fields b r = Some ?n"
    unfolding norm_fields_def by (simp only: s1 s2 s3 s4 s5 l1(1) l2(1) l3(1) s6 bind.bind_lunit prod.case)
  have "60 * tm_min r + tm_sec r = 60 * min1 + sec" by (auto simp: min1_def sec_def)
  moreover have "60 * min1 = 3600 * (min1 div 60) + 60 * (min1 mod 60)" "3600 * hour1 = 86400 * (hour1 div 24) + 3600 * (hour1 mod 24)"
    using mult_div_mod_eq [of 60 min1] mult_div_mod_eq [of 24 hour1] by linarith+
  moreover have "date_number y3 (nat mon3) d3 = date_number y (nat mon) 1 + mday1 - 1" using l1(2) l2(2) l3(4) by simp
  moreover have "asked r = 86400 * (date_number y (nat mon) 1 + tm_mday r - 1) + 3600 * tm_hour r + 60 * tm_min r + tm_sec r"
    by (simp add: asked_def y_def mon_def algebra_simps)
  ultimately have a: "asked r = 86400 * date_number y3 (nat mon3) d3 + 3600 * (hour1 mod 24) + 60 * (min1 mod 60) + sec"
    unfolding mday1_def hour1_def by (simp add: algebra_simps)
  show ?thesis
  proof (rule that [OF n])
    show "has_fields (?n\<lparr>tm_sec := x\<rparr>) (asked r - tm_sec ?n + x)" if "0 \<le> x" "x < 60" for x
      using that l3(2,3) a by (simp add: has_fields_def)
  qed (auto simp: sec_def)
qed

section \<open>mktime in a zone without transitions\<close>

definition fixed_zone :: "state \<Rightarrow> bool" where
  "fixed_zone sp \<longleftrightarrow> \<not> goback sp \<and> \<not> goahead sp \<and> ats sp = [] \<and> types sp = [] \<and> lsis sp = [] \<and> \<bar>tt_gmtoff (ttis sp ! defaulttype sp)\<bar> \<le> 10 ^ 8"

abbreviation zone_offset :: "state \<Rightarrow> int" where "zone_offset sp \<equiv> tt_gmtoff (ttis sp ! defaulttype sp)"

lemma localsub_fixed:
  assumes "fixed_zone sp"
  shows "\<exists>r. localsub sp t 0 = Some r \<and> shows_time r (uint t + zone_offset sp) \<and> tm_isdst r = tt_isdst (ttis sp ! defaulttype sp)"
proof -
  have z: "leap_scan sp t (length (lsis sp)) = (0, 0)" "\<bar>zone_offset sp - 0\<bar> \<le> 10 ^ 9" using assms by (simp_all add: fixed_zone_def)
  obtain r where r: "timesub t (zone_offset sp) sp = Some r" "shows_time (r\<lparr>tm_sec := tm_sec r - 0\<rparr>) (uint t + zone_offset sp - 0)"
    using timesub_shows [OF z] by blast
  then show ?thesis using assms
    by (auto simp: fixed_zone_def localsub_def localsub_plain_def local_type_def Let_def shows_time_def)
qed

lemma direction_fixed:
  assumes "fixed_zone sp" "has_fields your s"
  shows "direction (\<lambda>t. localsub sp t 0) your t < 0 \<longleftrightarrow> uint t + zone_offset sp < s"
    "direction (\<lambda>t. localsub sp t 0) your t > 0 \<longleftrightarrow> s < uint t + zone_offset sp"
    "direction (\<lambda>t. localsub sp t 0) your t = 0 \<longleftrightarrow> uint t + zone_offset sp = s"
proof -
  obtain r where "localsub sp t 0 = Some r" "shows_time r (uint t + zone_offset sp)" using localsub_fixed [OF assms(1)] by blast
  then show "direction (\<lambda>t. localsub sp t 0) your t < 0 \<longleftrightarrow> uint t + zone_offset sp < s"
    "direction (\<lambda>t. localsub sp t 0) your t > 0 \<longleftrightarrow> s < uint t + zone_offset sp"
    "direction (\<lambda>t. localsub sp t 0) your t = 0 \<longleftrightarrow> uint t + zone_offset sp = s"
    using tmcomp_order [OF shows_has_fields assms(2)] by (auto simp: direction_def)
qed

lemma search_fixed:
  assumes "fixed_zone sp" "has_fields your s"
  shows "search_loop (\<lambda>t. localsub sp t 0) your 0 (0 - 1) =
    (if 0 \<le> s - zone_offset sp \<and> s - zone_offset sp < 2 ^ 32 then Some (word_of_int (s - zone_offset sp)) else None)"
proof (cases "0 \<le> s - zone_offset sp \<and> s - zone_offset sp < 2 ^ 32")
  case True
  let ?T = "word_of_int (s - zone_offset sp) :: time_t"
  have u: "uint ?T = s - zone_offset sp" using True by (intro uint_of_int_small) auto
  have "search_loop (\<lambda>t. localsub sp t 0) your 0 (0 - 1) = Some ?T"
  proof (rule search_finds)
    show "direction (\<lambda>t. localsub sp t 0) your ?T = 0" using u by (simp add: direction_fixed [OF assms])
    show "direction (\<lambda>t. localsub sp t 0) your t < 0" if "unat t < unat ?T" for t
    proof -
      have "uint t < uint ?T" unfolding uint_nat using that by (simp only: of_nat_less_iff)
      then show ?thesis unfolding u direction_fixed [OF assms] by linarith
    qed
    show "direction (\<lambda>t. localsub sp t 0) your t > 0" if "unat ?T < unat t" for t
    proof -
      have "uint ?T < uint t" unfolding uint_nat using that by (simp only: of_nat_less_iff)
      then show ?thesis unfolding u direction_fixed [OF assms] by linarith
    qed
  qed (simp_all flip: word_le_nat_alt)
  then show ?thesis using True by simp
next
  case False
  have "search_loop (\<lambda>t. localsub sp t 0) your 0 (0 - 1) = None"
  proof (rule ccontr)
    assume "search_loop (\<lambda>t. localsub sp t 0) your 0 (0 - 1) \<noteq> None"
    then obtain t where "direction (\<lambda>t. localsub sp t 0) your t = 0" using search_sound by blast
    then have "s - zone_offset sp = uint t" by (simp add: direction_fixed [OF assms])
    then show False using False uint_lt2p [of t] by simp
  qed
  then show ?thesis using False by simp
qed

lemma save_seconds_ok:
  assumes "\<bar>tm_sec n\<bar> \<le> 10 ^ 8"
  obtains x saved where "save_seconds n = Some (n\<lparr>tm_sec := x\<rparr>, saved)" "0 \<le> x" "x < 60" "tm_sec n = x + saved" "\<bar>saved\<bar> \<le> 10 ^ 9"
    "0 \<le> tm_sec n \<Longrightarrow> tm_sec n < 60 \<Longrightarrow> saved = 0"
proof -
  have i: "increment_overflow (tm_sec n) (1 - 60) = Some (tm_sec n - 59)" using assms by (subst increment_ok) auto
  show ?thesis
  proof (cases "0 \<le> tm_sec n \<and> tm_sec n < 60")
    case True
    have "n\<lparr>tm_sec := tm_sec n\<rparr> = n" by simp
    then show ?thesis using True by (intro that [of "tm_sec n" 0]) (simp_all add: save_seconds_def)
  next
    case False
    show ?thesis
    proof (cases "tm_year n + 1900 < 1970")
      case True
      then have "save_seconds n = Some (n\<lparr>tm_sec := 59\<rparr>, tm_sec n - 59)" using False i by (auto simp: save_seconds_def)
      then show ?thesis by (rule that) (use False assms in auto)
    next
      case late: False
      then have "save_seconds n = Some (n\<lparr>tm_sec := 0\<rparr>, tm_sec n)" using False by (auto simp: save_seconds_def)
      then show ?thesis by (rule that) (use False assms in auto)
    qed
  qed
qed

lemma add_saved:
  fixes B saved :: int
  assumes "0 \<le> B" "B < 2 ^ 32" "\<bar>saved\<bar> \<le> 10 ^ 9"
  shows "((word_of_int B + word_of_int saved < (word_of_int B :: time_t)) \<noteq> (saved < 0)) \<longleftrightarrow> \<not> (0 \<le> B + saved \<and> B + saved < 2 ^ 32)"
proof -
  have b: "uint (word_of_int B :: time_t) = B" using assms by (intro uint_of_int_small) auto
  have "uint (word_of_int (B + saved) :: time_t) = (B + saved) mod 2 ^ 32" by (subst uint_word_of_int) simp
  moreover have "(B + saved) mod 2 ^ 32 = (if B + saved < 0 then B + saved + 2 ^ 32 else if B + saved < 2 ^ 32 then B + saved else B + saved - 2 ^ 32)"
  proof -
    consider "B + saved < 0" | "0 \<le> B + saved" "B + saved < 2 ^ 32" | "2 ^ 32 \<le> B + saved" by linarith
    then show ?thesis
    proof cases
      case 1
      then have "(B + saved + 2 ^ 32) mod 2 ^ 32 = B + saved + 2 ^ 32" using assms by (intro mod_pos_pos_trivial) auto
      then show ?thesis using 1 by simp
    next
      case 3
      then have "(B + saved - 2 ^ 32) mod 2 ^ 32 = B + saved - 2 ^ 32" using assms by (intro mod_pos_pos_trivial) auto
      moreover have "(B + saved - 2 ^ 32) mod 2 ^ 32 = (B + saved) mod 2 ^ 32" using mod_add_self2 [of "B + saved - 2 ^ 32" "2 ^ 32"] by simp
      ultimately show ?thesis using 3 assms by simp
    qed (simp add: mod_pos_pos_trivial)
  qed
  ultimately have "word_of_int B + word_of_int saved < (word_of_int B :: time_t) \<longleftrightarrow>
      (if B + saved < 0 then B + saved + 2 ^ 32 else if B + saved < 2 ^ 32 then B + saved else B + saved - 2 ^ 32) < B"
    using b by (simp add: word_less_def flip: wi_hom_add)
  then show ?thesis using assms by auto
qed

definition in_range :: "int \<Rightarrow> bool" where
  "in_range T \<longleftrightarrow> 0 \<le> T \<and> T < 2 ^ 32"

lemma time2sub_fixed:
  assumes z: "fixed_zone sp" and m: "moderate r" and d: "tm_isdst r < 0 \<or> tm_isdst r = tt_isdst (ttis sp ! defaulttype sp)"
  defines "T \<equiv> asked r - zone_offset sp" and "f \<equiv> \<lambda>t. localsub sp t 0"
  shows "time2sub sp f b r = (WRONG, None) \<and> (b \<longrightarrow> \<not> in_range T) \<or> time2sub sp f b r = (word_of_int T, f (word_of_int T)) \<and> in_range T"
proof (rule norm_fields_ok [OF m, of b])
  fix n assume n: "norm_fields b r = Some n" "tm_isdst n = tm_isdst r" "b \<Longrightarrow> 0 \<le> tm_sec n \<and> tm_sec n < 60" "\<not> b \<Longrightarrow> tm_sec n = tm_sec r"
    "\<And>x. 0 \<le> x \<Longrightarrow> x < 60 \<Longrightarrow> has_fields (n\<lparr>tm_sec := x\<rparr>) (asked r - tm_sec n + x)"
  have "\<bar>tm_sec n\<bar> \<le> 10 ^ 8" using n(3,4) m by (cases b) (auto simp: moderate_def)
  then obtain x saved where s: "save_seconds n = Some (n\<lparr>tm_sec := x\<rparr>, saved)" "0 \<le> x" "x < 60" "tm_sec n = x + saved" "\<bar>saved\<bar> \<le> 10 ^ 9"
      "0 \<le> tm_sec n \<Longrightarrow> tm_sec n < 60 \<Longrightarrow> saved = 0"
    by (rule save_seconds_ok) blast
  let ?B = "T - saved"
  have "has_fields (n\<lparr>tm_sec := x\<rparr>) (asked r - saved)" using n(5) [OF s(2,3)] s(4) by simp
  note sf = search_fixed [OF z this, folded f_def]
  have T: "asked r - saved - zone_offset sp = ?B" by (simp add: T_def)
  show ?thesis
  proof (cases "in_range ?B")
    case False
    then have "search_loop f (n\<lparr>tm_sec := x\<rparr>) 0 (0 - 1) = None" using sf by (auto simp: in_range_def T)
    then have "time2sub sp f b r = (WRONG, None)" by (simp add: time2sub_def n(1) s(1))
    moreover have "b \<longrightarrow> \<not> in_range T" using False s(6) n(3) by auto
    ultimately show ?thesis by simp
  next
    case True
    then obtain t where t: "t = word_of_int ?B" "search_loop f (n\<lparr>tm_sec := x\<rparr>) 0 (- 1) = Some t" using sf by (auto simp: in_range_def T)
    obtain my where my: "f t = Some my" "tm_isdst my = tt_isdst (ttis sp ! defaulttype sp)"
      using localsub_fixed [OF z, of t] by (auto simp: f_def)
    have w: "t + word_of_int saved = word_of_int T" unfolding t(1) by simp
    have "((t + word_of_int saved < t) \<noteq> (saved < 0)) \<longleftrightarrow> \<not> in_range T"
      using add_saved [of ?B saved] True s(5) unfolding t(1) in_range_def by simp
    then have "time2sub sp f b r = (if in_range T then (word_of_int T, f (word_of_int T)) else (WRONG, None))"
      using d n(2) my w by (auto simp: time2sub_def n(1) s(1) t(2) Let_def)
    then show ?thesis by auto
  qed
qed

lemma year_bounded:
  assumes "valid_date y m d" "\<bar>date_number y m d\<bar> \<le> 10 ^ 6"
  shows "\<bar>y\<bar> \<le> 10 ^ 7"
proof -
  define k where "k = before_month (isleap y) m + (d - 1)"
  have k: "0 \<le> k" "k < 366" using valid_yday [OF assms(1)] year_days_pos(2) [of "isleap y"] by (auto simp: k_def)
  have n: "date_number y m d = before_year y - before_year 1970 + k" by (simp add: date_number_def day_number_def k_def)
  have b: "- 1000000 \<le> date_number y m d" "date_number y m d \<le> 1000000" using assms(2) by auto
  show ?thesis
  proof (cases "1970 \<le> y")
    case True
    then show ?thesis using before_year_plus [of "y - 1970" 1970] b n k by simp
  next
    case False
    then show ?thesis using before_year_plus [of "1970 - y" y] b n k by auto
  qed
qed

lemma div_small_days: "\<bar>s\<bar> \<le> 10 ^ 10 \<Longrightarrow> \<bar>s div 86400\<bar> \<le> 10 ^ 6" for s :: int
proof -
  assume "\<bar>s\<bar> \<le> 10 ^ 10"
  then have "- 10000000000 \<le> s" "s \<le> 10000000000" by auto
  then have "- 10000000000 div 86400 \<le> s div 86400" "s div 86400 \<le> 10000000000 div 86400" by (intro zdiv_mono1; simp)+
  then show ?thesis by simp
qed

lemma shows_moderate:
  assumes "shows_time r s" "\<bar>s\<bar> \<le> 10 ^ 10"
  shows "moderate r"
proof -
  note v = assms(1) [unfolded shows_time_def] and R = shows_time_range [OF assms(1)]
  have "\<bar>tm_year r + 1900\<bar> \<le> 10 ^ 7" using v div_small_days [OF assms(2)] by (intro year_bounded) auto
  moreover have "0 \<le> tm_mon r" "tm_mon r < 12" using v by (auto simp: valid_date_def nat_less_iff)
  moreover have "1 \<le> tm_mday r" "tm_mday r \<le> 31"
    using v mon_lengths_bounds [of "nat (tm_mon r)" "isleap (tm_year r + 1900)"] by (auto simp: valid_date_def)
  ultimately show ?thesis using R(1-6) by (simp add: moderate_def)
qed

lemma time1_mktime:
  assumes "fixed_zone sp" "moderate r" "tm_isdst r < 0 \<or> tm_isdst r = tt_isdst (ttis sp ! defaulttype sp)" "tm_isdst r \<le> 1"
  shows "mktime sp r =
    (let T = asked r - zone_offset sp in
     if 0 \<le> T \<and> T < 2 ^ 32 then (word_of_int T, localsub sp (word_of_int T) 0) else (- 1, None))"
proof -
  let ?T = "asked r - zone_offset sp" and ?f = "\<lambda>t. localsub sp t 0"
  have d: "localsub sp t 0 \<noteq> None" for t using localsub_fixed [OF assms(1), of t] by auto
  have "time2 sp ?f r = (if in_range ?T then (word_of_int ?T, ?f (word_of_int ?T)) else (WRONG, None))"
    using time2sub_fixed [OF assms(1-3), of False] time2sub_fixed [OF assms(1-3), of True] d by (auto simp: time2_def)
  moreover have "seen_types sp = []" using assms(1) by (simp add: seen_types_def fixed_zone_def)
  ultimately show ?thesis using assms(4) d by (simp add: mktime_def time1_def in_range_def WRONG_def Let_def)
qed

text \<open>A flag that the zone never shows is not found.\<close>

lemma time2sub_other_flag:
  assumes z: "fixed_zone sp" and m: "moderate r" and d: "0 \<le> tm_isdst r" "tm_isdst r \<noteq> tt_isdst (ttis sp ! defaulttype sp)"
  shows "time2sub sp (\<lambda>t. localsub sp t 0) b r = (WRONG, None)"
proof (rule norm_fields_ok [OF m, of b])
  fix n assume n: "norm_fields b r = Some n" "tm_isdst n = tm_isdst r" "b \<Longrightarrow> 0 \<le> tm_sec n \<and> tm_sec n < 60" "\<not> b \<Longrightarrow> tm_sec n = tm_sec r"
  have "\<bar>tm_sec n\<bar> \<le> 10 ^ 8" using n(3,4) m by (cases b) (auto simp: moderate_def)
  then obtain x saved where s: "save_seconds n = Some (n\<lparr>tm_sec := x\<rparr>, saved)" by (rule save_seconds_ok) blast
  have f: "tm_isdst my = tt_isdst (ttis sp ! defaulttype sp)" if "localsub sp t 0 = Some my" for t my
    using localsub_fixed [OF z, of t] that by auto
  have "hunt sp (\<lambda>t. localsub sp t 0) (n\<lparr>tm_sec := x\<rparr>) t = None" for t
    unfolding hunt_def find_None_iff using f d n(2) by (auto split: option.splits)
  then show ?thesis using f d n(2) by (auto simp: time2sub_def n(1) s split: bind_splits option.splits)
qed

lemma mktime_fixed:
  assumes "fixed_zone sp" "moderate r"
  shows "mktime sp r =
    (let T = asked r - zone_offset sp; flag = min 1 (tm_isdst r) in
     if 0 \<le> T \<and> T < 2 ^ 32 \<and> (flag < 0 \<or> flag = tt_isdst (ttis sp ! defaulttype sp))
     then (word_of_int T, localsub sp (word_of_int T) 0) else (- 1, None))"
proof -
  let ?r = "r\<lparr>tm_isdst := min 1 (tm_isdst r)\<rparr>"
  have r: "mktime sp r = mktime sp ?r"
  proof (cases "tm_isdst r > 1")
    case True
    then show ?thesis by (simp add: mktime_def time1_def)
  next
    case False
    then have "?r = r" by (simp add: min_def)
    then show ?thesis by simp
  qed
  have m: "moderate ?r" "asked ?r = asked r" using assms(2) by (simp_all add: moderate_def asked_def)
  show ?thesis
  proof (cases "min 1 (tm_isdst r) < 0 \<or> min 1 (tm_isdst r) = tt_isdst (ttis sp ! defaulttype sp)")
    case True
    then show ?thesis using time1_mktime [OF assms(1) m(1)] unfolding r by (simp add: m(2))
  next
    case False
    then have "0 \<le> tm_isdst r" by (auto simp: min_def split: if_splits)
    then have "time2 sp (\<lambda>t. localsub sp t 0) ?r = (WRONG, None)"
      using False time2sub_other_flag [OF assms(1) m(1)] by (simp add: time2_def)
    moreover have "seen_types sp = []" using assms(1) by (simp add: seen_types_def fixed_zone_def)
    ultimately have "mktime sp ?r = (- 1, None)" using False by (simp add: mktime_def time1_def WRONG_def)
    then show ?thesis using False unfolding r by (simp add: Let_def)
  qed
qed

section \<open>Properties\<close>

text \<open>
  C11. In a zone without transitions and leap seconds, for fields of at most \<open>10 ^ 8\<close> in absolute value, \<^verbatim>\<open>mktime\<close> computes the
  time that the fields ask for, whether they are in range or not: the day is counted from the first of the month, which
  may lie in another year, and hours, minutes and seconds are added. The fields of that time are stored back. It returns -1
  and stores no fields in two cases: if the time is before 1970 in universal time or does not fit into 32 bits; and if
  \<^verbatim>\<open>tm_isdst\<close> is not negative and differs from the flag of the zone (values above 1 count as 1), for example for summer time
  in a zone that has none.
\<close>

theorem mktime_normalises:
  assumes "fixed_zone sp" "moderate r"
  shows "mktime sp r =
    (let T = asked r - zone_offset sp; flag = min 1 (tm_isdst r) in
     if 0 \<le> T \<and> T < 2 ^ 32 \<and> (flag < 0 \<or> flag = tt_isdst (ttis sp ! defaulttype sp))
     then (word_of_int T, localsub sp (word_of_int T) 0) else (- 1, None))"
  by (rule mktime_fixed [OF assms])

theorem mktime_normalises_witness:
  "\<exists>r. mktime (\<lparr>goback = False, goahead = False, ats = [], types = [],
       ttis = [\<lparr>tt_gmtoff = 3600, tt_isdst = 0, tt_abbrind = 0, tt_ttisstd = False, tt_ttisgmt = False\<rparr>],
       chars = [], lsis = [], before_lsis = 0, defaulttype = 0\<rparr>)
     \<lparr>tm_sec = - 1, tm_min = 0, tm_hour = 49, tm_mday = 0, tm_mon = 14, tm_year = 99, tm_wday = 0, tm_yday = 0, tm_isdst = - 1,
      tm_zone = [], tm_gmtoff = 0\<rparr> = (951955199, r)"
proof -
  let ?sp = "\<lparr>goback = False, goahead = False, ats = [], types = [],
       ttis = [\<lparr>tt_gmtoff = 3600, tt_isdst = 0, tt_abbrind = 0, tt_ttisstd = False, tt_ttisgmt = False\<rparr>],
       chars = [], lsis = [], before_lsis = 0, defaulttype = 0\<rparr> :: state"
  let ?r = "\<lparr>tm_sec = - 1, tm_min = 0, tm_hour = 49, tm_mday = 0, tm_mon = 14, tm_year = 99, tm_wday = 0, tm_yday = 0, tm_isdst = - 1,
      tm_zone = [], tm_gmtoff = 0\<rparr> :: tm"
  have "isleap 2000" by (simp add: isleap_mod)
  then have "asked ?r = 951958799"
    by (simp add: asked_def date_number_def day_number_def before_year_def before_month_def mon_lengths_def numeral_2_eq_2)
  then show ?thesis using mktime_normalises [of ?sp ?r] by (simp add: fixed_zone_def moderate_def)
qed

text \<open>
  C16. In such a zone \<^verbatim>\<open>mktime\<close> is the inverse of \<^verbatim>\<open>localtime\<close>: every time is converted to fields, and the fields back to the
  same time; they are left as they are.
\<close>

theorem mktime_inverts_localtime:
  assumes "fixed_zone sp" "tt_isdst (ttis sp ! defaulttype sp) \<le> 1"
  shows "\<exists>r. localsub sp t 0 = Some r \<and> mktime sp r = (t, Some r)"
proof -
  obtain r where r: "localsub sp t 0 = Some r" "shows_time r (uint t + zone_offset sp)" "tm_isdst r = tt_isdst (ttis sp ! defaulttype sp)"
    using localsub_fixed [OF assms(1)] by blast
  have t: "0 \<le> uint t" "uint t < 4294967296" using uint_lt2p [of t] by simp_all
  have "\<bar>zone_offset sp\<bar> \<le> 100000000" using assms(1) by (simp add: fixed_zone_def)
  then have "\<bar>uint t + zone_offset sp\<bar> \<le> 10000000000" using t by linarith
  then have m: "moderate r" by (intro shows_moderate [OF r(2)]) simp
  have "asked r - zone_offset sp = uint t" using has_fields_asked [OF shows_has_fields [OF r(2)]] by simp
  then show ?thesis using time1_mktime [OF assms(1) m] r assms(2) t by simp
qed

theorem mktime_inverts_localtime_witness:
  "\<exists>r. localsub \<lparr>goback = False, goahead = False, ats = [], types = [],
       ttis = [\<lparr>tt_gmtoff = 3600, tt_isdst = 0, tt_abbrind = 0, tt_ttisstd = False, tt_ttisgmt = False\<rparr>],
       chars = [], lsis = [], before_lsis = 0, defaulttype = 0\<rparr> 951782400 0 = Some r \<and>
     mktime \<lparr>goback = False, goahead = False, ats = [], types = [],
       ttis = [\<lparr>tt_gmtoff = 3600, tt_isdst = 0, tt_abbrind = 0, tt_ttisstd = False, tt_ttisgmt = False\<rparr>],
       chars = [], lsis = [], before_lsis = 0, defaulttype = 0\<rparr> r = (951782400, Some r)"
  by (rule mktime_inverts_localtime) (simp_all add: fixed_zone_def)

end
