(* ===== verification/Tzparse.thy ===== *)
theory Tzparse
  imports Ctime
begin

text \<open>
  Time zones given by a string in the form of POSIX, from \<^verbatim>\<open>ansi/time/ctime.c\<close>: the parsers of names, numbers, offsets and
  rules, \<^verbatim>\<open>transtime\<close>, which computes when a rule takes effect in a year, and \<^verbatim>\<open>tzparse\<close>, which fills the tables. A pointer
  into the string is the rest of the string; behind its end there is a NUL. A null pointer or the result -1 is \<^term>\<open>None\<close>.
\<close>

section \<open>Parsers\<close>

definition cur :: "byte list \<Rightarrow> byte" where
  "cur s = (case s of [] \<Rightarrow> 0 | c # s \<Rightarrow> c)"

definition is_digit :: "byte \<Rightarrow> bool" where
  "is_digit c \<longleftrightarrow> (ucast c - 48 :: 32 word) \<le> 9"

fun getzname :: "byte list \<Rightarrow> byte list" where
  "getzname [] = []"
| "getzname (c # s) = (if c \<noteq> 0 \<and> \<not> is_digit c \<and> c \<noteq> 44 \<and> c \<noteq> 45 \<and> c \<noteq> 43 then getzname s else c # s)"

fun getqzname :: "byte list \<Rightarrow> byte \<Rightarrow> byte list" where
  "getqzname [] delim = []"
| "getqzname (c # s) delim = (if c \<noteq> 0 \<and> c \<noteq> delim then getqzname s delim else c # s)"

fun num_loop :: "byte list \<Rightarrow> int \<Rightarrow> int \<Rightarrow> (int \<times> byte list) option" where
  "num_loop [] num hi = Some (num, [])"
| "num_loop (c # s) num hi =
     (if c \<noteq> 0 \<and> is_digit c then
        let num = num * 10 + (uint c - 48) in if num > hi then None else num_loop s num hi
      else Some (num, c # s))"

definition getnum :: "byte list \<Rightarrow> int \<Rightarrow> int \<Rightarrow> (int \<times> byte list) option" where
  "getnum s lo hi =
     (if \<not> is_digit (cur s) then None
      else do { (num, s) \<leftarrow> num_loop s 0 hi; if num < lo then None else Some (num, s) })"

definition getsecs :: "byte list \<Rightarrow> (int \<times> byte list) option" where
  "getsecs s = do {
     (num, s) \<leftarrow> getnum s 0 (24 * 7 - 1);
     let secs = num * 3600;
     if cur s = 58 then do {
       (num, s) \<leftarrow> getnum (tl s) 0 59;
       let secs = secs + num * 60;
       if cur s = 58 then do {
         (num, s) \<leftarrow> getnum (tl s) 0 60;
         Some (secs + num, s) }
       else Some (secs, s) }
     else Some (secs, s) }"

definition getoffset :: "byte list \<Rightarrow> (int \<times> byte list) option" where
  "getoffset s =
     (let neg = (cur s = 45); s = (if cur s = 45 then tl s else if cur s = 43 then tl s else s) in
      do { (secs, s) \<leftarrow> getsecs s; Some (if neg then - secs else secs, s) })"

datatype rule_type = JULIAN_DAY | DAY_OF_YEAR | MONTH_NTH_DAY_OF_WEEK

record rule =
  r_type :: rule_type
  r_day :: int
  r_week :: int
  r_mon :: int
  r_time :: int

text \<open>Fields of a rule that its kind does not use are never read; they are 0 here.\<close>

definition getrule :: "byte list \<Rightarrow> (rule \<times> byte list) option" where
  "getrule s = do {
     (r, s) \<leftarrow>
       (if cur s = 74 then do {
          (day, s) \<leftarrow> getnum (tl s) 1 365;
          Some (\<lparr>r_type = JULIAN_DAY, r_day = day, r_week = 0, r_mon = 0, r_time = 0\<rparr>, s) }
        else if cur s = 77 then do {
          (mon, s) \<leftarrow> getnum (tl s) 1 12;
          if cur s \<noteq> 46 then None else do {
            (week, s) \<leftarrow> getnum (tl s) 1 5;
            if cur s \<noteq> 46 then None else do {
              (day, s) \<leftarrow> getnum (tl s) 0 6;
              Some (\<lparr>r_type = MONTH_NTH_DAY_OF_WEEK, r_day = day, r_week = week, r_mon = mon, r_time = 0\<rparr>, s) } } }
        else if is_digit (cur s) then do {
          (day, s) \<leftarrow> getnum s 0 365;
          Some (\<lparr>r_type = DAY_OF_YEAR, r_day = day, r_week = 0, r_mon = 0, r_time = 0\<rparr>, s) }
        else None);
     if cur s = 47 then do { (secs, s) \<leftarrow> getsecs (tl s); Some (r\<lparr>r_time := secs\<rparr>, s) }
     else Some (r\<lparr>r_time := 2 * 3600\<rparr>, s) }"

section \<open>Transitions\<close>

text \<open>The loop that goes to the \<open>n\<close>-th week, but not beyond the month.\<close>

fun week_loop :: "nat \<Rightarrow> int \<Rightarrow> int \<Rightarrow> int" where
  "week_loop 0 len d = d"
| "week_loop (Suc n) len d = (if d + 7 \<ge> len then d else week_loop n len (d + 7))"

definition transtime :: "time_t \<Rightarrow> int \<Rightarrow> rule \<Rightarrow> int \<Rightarrow> time_t" where
  "transtime janfirst year r offset =
     (let leapyear = isleap year;
          value = (case r_type r of
            JULIAN_DAY \<Rightarrow>
              let value = janfirst + word_of_int ((r_day r - 1) * 86400) in
              if leapyear \<and> r_day r \<ge> 60 then value + 86400 else value
          | DAY_OF_YEAR \<Rightarrow> janfirst + word_of_int (r_day r * 86400)
          | MONTH_NTH_DAY_OF_WEEK \<Rightarrow>
              let value = foldl (\<lambda>v n. v + word_of_int (n * 86400)) janfirst (take (nat (r_mon r - 1)) (mon_lengths leapyear));
                  m1 = (r_mon r + 9) smod 12 + 1;
                  yy0 = (if r_mon r \<le> 2 then year - 1 else year);
                  yy1 = yy0 sdiv 100;
                  yy2 = yy0 smod 100;
                  dow = ((26 * m1 - 2) sdiv 10 + 1 + yy2 + yy2 sdiv 4 + yy1 sdiv 4 - 2 * yy1) smod 7;
                  dow = (if dow < 0 then dow + 7 else dow);
                  d = r_day r - dow;
                  d = (if d < 0 then d + 7 else d);
                  d = week_loop (nat (r_week r - 1)) (mon_lengths leapyear ! nat (r_mon r - 1)) d in
              value + word_of_int (d * 86400))
      in value + word_of_int (r_time r) + word_of_int offset)"

text \<open>Two transitions per year, until the tables are full or the time of a new year wraps around.\<close>

function rule_loop :: "rule \<Rightarrow> rule \<Rightarrow> int \<Rightarrow> int \<Rightarrow> int \<Rightarrow> time_t \<Rightarrow> nat \<Rightarrow> (time_t \<times> nat) list" where
  "rule_loop begins ends stdoffset dstoffset year janfirst timecnt =
     (if timecnt + 2 \<le> 1200 then
        let starttime = transtime janfirst year begins stdoffset;
            endtime = transtime janfirst year ends dstoffset;
            newfirst = janfirst + word_of_int (year_days year * 86400) in
        (if starttime > endtime then [(endtime, 1), (starttime, 0)] else [(starttime, 0), (endtime, 1)]) @
        (if newfirst \<le> janfirst then [] else rule_loop begins ends stdoffset dstoffset (year + 1) newfirst (timecnt + 2))
      else [])"
  by pat_completeness auto
termination by (relation "measure (\<lambda>(s, e, so, d, y, j, n). 1200 - n)") auto

declare rule_loop.simps [simp del]

section \<open>tzparse\<close>

definition ttinfo_for :: "int \<Rightarrow> int \<Rightarrow> nat \<Rightarrow> ttinfo" where
  "ttinfo_for gmtoff isdst abbrind = \<lparr>tt_gmtoff = gmtoff, tt_isdst = isdst, tt_abbrind = abbrind, tt_ttisstd = False, tt_ttisgmt = False\<rparr>"

text \<open>The tables from the rules after the names: two types, daylight saving first.\<close>

definition rule_tables :: "rule \<Rightarrow> rule \<Rightarrow> int \<Rightarrow> int \<Rightarrow> nat \<Rightarrow> state \<Rightarrow> state" where
  "rule_tables begins ends stdoffset dstoffset stdlen sp =
     (let table = rule_loop begins ends stdoffset dstoffset 1970 0 0 in
      sp\<lparr>ttis := [ttinfo_for (- dstoffset) 1 (stdlen + 1), ttinfo_for (- stdoffset) 0 0], ats := map fst table, types := map snd table\<rparr>)"

text \<open>The tables of the default rules, moved to the new offsets.\<close>

definition first_offset :: "state \<Rightarrow> int \<Rightarrow> int" where
  "first_offset sp isdst =
     (case List.find (\<lambda>j. (tt_isdst (ttis sp ! j) \<noteq> 0) = (isdst \<noteq> 0)) (types sp) of None \<Rightarrow> 0 | Some j \<Rightarrow> - tt_gmtoff (ttis sp ! j))"

text \<open>One pass of the loop over the transitions; \<^verbatim>\<open>isdst\<close> is never set, so that the offset of standard time is always used.\<close>

definition juggle :: "state \<Rightarrow> int \<Rightarrow> int \<Rightarrow> (int \<times> int \<times> time_t list) \<Rightarrow> time_t \<times> nat \<Rightarrow> int \<times> int \<times> time_t list" where
  "juggle sp stdoffset dstoffset = (\<lambda>(theirstd, theirdst, out) (a, j).
     (let tt = ttis sp ! j; isdst = False;
          a = (if tt_ttisgmt tt then a
               else if isdst \<and> \<not> tt_ttisstd tt then a + word_of_int (dstoffset - theirdst)
               else a + word_of_int (stdoffset - theirstd));
          their = - tt_gmtoff tt in
      if tt_isdst tt \<noteq> 0 then (theirstd, their, out @ [a]) else (their, theirdst, out @ [a])))"

definition default_tables :: "int \<Rightarrow> int \<Rightarrow> nat \<Rightarrow> state \<Rightarrow> state" where
  "default_tables stdoffset dstoffset stdlen sp =
     (let (theirstd, theirdst, out) =
        foldl (juggle sp stdoffset dstoffset) (first_offset sp 0, first_offset sp 1, []) (zip (ats sp) (types sp)) in
      sp\<lparr>ats := out, types := map (\<lambda>j. nat (tt_isdst (ttis sp ! j))) (types sp),
         ttis := [ttinfo_for (- stdoffset) 0 0, ttinfo_for (- dstoffset) 1 (stdlen + 1)]\<rparr>)"

text \<open>The name of a zone and the rest of the string, with the name quoted or not.\<close>

definition zone_name :: "byte list \<Rightarrow> (byte list \<times> byte list) option" where
  "zone_name name =
     (if cur name = 60 then
        let rest = getqzname (tl name) 62 in
        if cur rest \<noteq> 62 then None else Some (take (length (tl name) - length rest) (tl name), tl rest)
      else let rest = getzname name in Some (take (length name - length rest) name, rest))"

text \<open>\<^verbatim>\<open>TZDEFRULESTRING\<close>, ",M4.1.0,M10.5.0".\<close>

definition TZDEFRULESTRING :: "byte list" where
  "TZDEFRULESTRING = [44, 77, 52, 46, 49, 46, 48, 44, 77, 49, 48, 46, 53, 46, 48]"

text \<open>\<open>loaded\<close> is what \<^verbatim>\<open>tzload\<close> makes of the default rules; the abbreviations fit into 51 bytes.\<close>

definition with_dst :: "byte list \<Rightarrow> int \<Rightarrow> byte list \<Rightarrow> state option \<Rightarrow> state \<Rightarrow> (byte list \<times> state) option" where
  "with_dst stdname stdoffset name loaded sp = do {
     (dstname, name) \<leftarrow> zone_name name;
     (dstoffset, name) \<leftarrow> (if cur name \<noteq> 0 \<and> cur name \<noteq> 44 \<and> cur name \<noteq> 59 then getoffset name else Some (stdoffset - 3600, name));
     let name = (if cur name = 0 \<and> loaded = None then TZDEFRULESTRING else name);
     if cur name = 44 \<or> cur name = 59 then do {
       (begins, name) \<leftarrow> getrule (tl name);
       if cur name \<noteq> 44 then None else do {
         (ends, name) \<leftarrow> getrule (tl name);
         if cur name \<noteq> 0 then None
         else Some (dstname, rule_tables begins ends stdoffset dstoffset (length stdname) sp) } }
     else if cur name \<noteq> 0 then None
     else Some (dstname, default_tables stdoffset dstoffset (length stdname) sp) }"

definition tzparse :: "state option \<Rightarrow> byte list \<Rightarrow> bool \<Rightarrow> state \<Rightarrow> state option" where
  "tzparse loaded name lastditch sp = do {
     (stdname, stdoffset, name) \<leftarrow>
       (if lastditch then Some (take 50 name, 0, [])
        else do {
          (stdname, name) \<leftarrow> zone_name name;
          if cur name = 0 then None
          else do { (stdoffset, name) \<leftarrow> getoffset name; Some (stdname, stdoffset, name) } });
     let sp = (case loaded of Some sp' \<Rightarrow> sp' | None \<Rightarrow> sp\<lparr>goback := False, goahead := False, lsis := []\<rparr>);
     (dstname, sp) \<leftarrow>
       (if cur name \<noteq> 0 then with_dst stdname stdoffset name loaded sp
        else Some ([], sp\<lparr>ats := [], types := [],
          ttis := [(if ttis sp = [] then ttinfo_for 0 0 0 else ttis sp ! 0)\<lparr>tt_gmtoff := - stdoffset, tt_isdst := 0, tt_abbrind := 0\<rparr>],
          defaulttype := 0\<rparr>));
     let chars' = stdname @ [0] @ (if dstname = [] then [] else dstname @ [0]);
     if length chars' > 51 then None else Some (sp\<lparr>chars := chars'\<rparr>) }"


section \<open>Parsed values\<close>

lemma num_loop_bounds: "num_loop s num hi = Some (n, rest) \<Longrightarrow> 0 \<le> num \<Longrightarrow> num \<le> hi \<Longrightarrow> 0 \<le> n \<and> n \<le> hi"
proof (induction s num hi rule: num_loop.induct)
  case (2 c s num hi)
  show ?case
  proof (cases "c \<noteq> 0 \<and> is_digit c")
    case True
    have "48 \<le> uint c"
    proof (rule ccontr)
      assume "\<not> 48 \<le> uint c"
      then have c: "0 \<le> uint c" "uint c < 48" by simp_all
      have u: "uint (ucast c :: 32 word) = uint c" by (rule uint_up_ucast) (simp add: is_up)
      have "uint ((ucast c :: 32 word) - 48) = (uint c - 48) mod 4294967296" by (simp only: uint_word_ariths u) simp
      also have "\<dots> = uint c - 48 + 4294967296" using c mod_add_self2 [of "uint c - 48" 4294967296] by (simp del: mod_add_self2)
      finally show False using True c by (simp add: is_digit_def word_le_def)
    qed
    then show ?thesis using 2 True by (auto simp: Let_def split: if_splits)
  qed (use 2 in auto)
qed auto

lemma getnum_bounds: "getnum s lo hi = Some (n, rest) \<Longrightarrow> 0 \<le> lo \<Longrightarrow> 0 \<le> hi \<Longrightarrow> lo \<le> n \<and> n \<le> hi"
  using num_loop_bounds [of s 0 hi] by (auto simp: getnum_def split: if_splits Option.bind_splits)

lemma getsecs_bounds: "getsecs s = Some (n, rest) \<Longrightarrow> 0 \<le> n \<and> n \<le> 604800"
  by (auto simp: getsecs_def Let_def split: if_splits Option.bind_splits dest!: getnum_bounds)

lemma getoffset_bounds: "getoffset s = Some (n, rest) \<Longrightarrow> \<bar>n\<bar> \<le> 604800"
  by (auto simp: getoffset_def Let_def split: if_splits Option.bind_splits dest!: getsecs_bounds)

definition rule_ok :: "rule \<Rightarrow> bool" where
  "rule_ok r \<longleftrightarrow> 0 \<le> r_time r \<and> r_time r \<le> 604800 \<and>
     (case r_type r of
        JULIAN_DAY \<Rightarrow> 1 \<le> r_day r \<and> r_day r \<le> 365
      | DAY_OF_YEAR \<Rightarrow> 0 \<le> r_day r \<and> r_day r \<le> 365
      | MONTH_NTH_DAY_OF_WEEK \<Rightarrow>
          1 \<le> r_mon r \<and> r_mon r \<le> 12 \<and> 1 \<le> r_week r \<and> r_week r \<le> 5 \<and> 0 \<le> r_day r \<and> r_day r \<le> 6)"

lemma getrule_ok: "getrule s = Some (r, rest) \<Longrightarrow> rule_ok r"
  by (auto simp: getrule_def rule_ok_def Let_def split: if_splits Option.bind_splits dest!: getnum_bounds getsecs_bounds)

section \<open>The day of a rule\<close>

text \<open>
  What a rule says about the day \<open>n\<close>, from 0, of the year \<open>y\<close>: the date that is the given day of a common year; the given day of
  this year; or the given weekday in the given week of the month, where week 5 is the last one.
\<close>

definition rule_falls :: "int \<Rightarrow> rule \<Rightarrow> int \<Rightarrow> bool" where
  "rule_falls y r n \<longleftrightarrow>
     (case r_type r of
        JULIAN_DAY \<Rightarrow> \<exists>m d. valid_date 2001 m d \<and> r_day r = before_month False m + d \<and> n = before_month (isleap y) m + d - 1
      | DAY_OF_YEAR \<Rightarrow> n = r_day r
      | MONTH_NTH_DAY_OF_WEEK \<Rightarrow> \<exists>d. valid_date y (nat (r_mon r - 1)) d \<and> n = before_month (isleap y) (nat (r_mon r - 1)) + d - 1 \<and>
          weekday (day_number y n) = r_day r \<and>
          (if r_week r = 5 then mon_lengths (isleap y) ! nat (r_mon r - 1) < d + 7 else (d - 1) div 7 = r_week r - 1))"

lemma foldl_days: "foldl (\<lambda>v n. v + word_of_int (n * 86400)) v ns = v + word_of_int (sum_list ns * 86400)"
  by (induction ns arbitrary: v) (simp_all add: algebra_simps)

lemma all_months: "(\<And>m. m \<in> {1, 2, 3, 4, 5, 6, 7, 8, 9, 10, 11, 12} \<Longrightarrow> P m) \<Longrightarrow> 1 \<le> m \<Longrightarrow> m \<le> 12 \<Longrightarrow> P (m :: int)"
proof -
  assume P: "\<And>m. m \<in> {1, 2, 3, 4, 5, 6, 7, 8, 9, 10, 11, 12} \<Longrightarrow> P m" and m: "1 \<le> m" "m \<le> 12"
  from m have "m = 1 \<or> m = 2 \<or> m = 3 \<or> m = 4 \<or> m = 5 \<or> m = 6 \<or> m = 7 \<or> m = 8 \<or> m = 9 \<or> m = 10 \<or> m = 11 \<or> m = 12" by presburger
  then show "P m" by (intro P) auto
qed

text \<open>The years and the days before a month, when a year starts in March.\<close>

definition zeller_year :: "int \<Rightarrow> int \<Rightarrow> int" where
  "zeller_year y m = (if m \<le> 2 then y - 1 else y)"

definition zeller_month :: "int \<Rightarrow> int" where
  "zeller_month m = before_month False (nat (m - 1)) - (if m \<le> 2 then 0 else 365)"

lemma before_month_march: "2 \<le> m \<Longrightarrow> m < 12 \<Longrightarrow> before_month leap m = before_month False m + (if leap then 1 else 0)"
proof -
  assume "2 \<le> m" "m < 12"
  then have "m = 2 \<or> m = 3 \<or> m = 4 \<or> m = 5 \<or> m = 6 \<or> m = 7 \<or> m = 8 \<or> m = 9 \<or> m = 10 \<or> m = 11" by presburger
  then show ?thesis by (elim disjE; cases leap; simp add: before_month_def mon_lengths_def)
qed

lemma before_month_february: "m < 2 \<Longrightarrow> before_month leap m = before_month False m"
  by (cases m) (auto simp: before_month_def mon_lengths_def)

lemma first_of_month:
  assumes "1 \<le> m" "m \<le> 12"
  shows "before_year y + before_month (isleap y) (nat (m - 1)) = before_year (zeller_year y m + 1) + zeller_month m"
proof (cases "m \<le> 2")
  case True
  then have "nat (m - 1) < 2" by simp
  then show ?thesis using True before_month_february [of "nat (m - 1)" "isleap y"] by (simp add: zeller_year_def zeller_month_def)
next
  case False
  then have "2 \<le> nat (m - 1)" "nat (m - 1) < 12" using assms by simp_all
  then show ?thesis using False before_month_march [of "nat (m - 1)" "isleap y"]
    by (simp add: zeller_year_def zeller_month_def before_year_Suc year_lengths_def)
qed

lemma zeller_month_mod: "1 \<le> m \<Longrightarrow> m \<le> 12 \<Longrightarrow> ((26 * ((m + 9) smod 12 + 1) - 2) sdiv 10 + 1) mod 7 = (zeller_month m + 1) mod 7"
  by (rule all_months [of "\<lambda>m. ((26 * ((m + 9) smod 12 + 1) - 2) sdiv 10 + 1) mod 7 = (zeller_month m + 1) mod 7"])
    (auto simp: sdiv_nonneg zeller_month_def before_month_def mon_lengths_def)

text \<open>Zeller's congruence: the weekday of the first day of a month.\<close>

lemma zeller:
  assumes m: "1 \<le> m" "m \<le> 12" and y: "1 \<le> y"
  shows "((26 * ((m + 9) smod 12 + 1) - 2) sdiv 10 + 1 + zeller_year y m smod 100 + zeller_year y m smod 100 sdiv 4 +
      zeller_year y m sdiv 100 sdiv 4 - 2 * (zeller_year y m sdiv 100)) mod 7 = weekday (date_number y (nat (m - 1)) 1)"
proof -
  define x where "x = zeller_year y m"
  define c where "c = x div 100"
  define e where "e = x mod 100"
  define K where "K = (26 * ((m + 9) smod 12 + 1) - 2) sdiv 10 + 1"
  have x: "0 \<le> x" using y by (simp add: x_def zeller_year_def)
  have xe: "x = 100 * c + e" "0 \<le> c" "0 \<le> e" using x by (simp_all add: c_def e_def pos_imp_zdiv_nonneg_iff)
  have s: "x smod 100 = e" "x sdiv 100 = c" "e sdiv 4 = e div 4" "c sdiv 4 = c div 4"
    using x xe(2,3) by (simp_all add: sdiv_nonneg c_def e_def)
  have d4: "x div 4 = 25 * c + e div 4" using xe(1) by simp
  have d400: "x div 400 = c div 4" unfolding c_def by (simp add: zdiv_zmult2_eq [symmetric])
  have "before_year (x + 1) = 365 * x + x div 4 - c + x div 400" by (simp add: before_year_def c_def)
  then have "date_number y (nat (m - 1)) 1 + 4 = zeller_month m + 1 + e + e div 4 + c div 4 - 2 * c + 7 * (5218 * c + 52 * e - 102737)"
    unfolding date_number_def day_number_def using first_of_month [OF m, of y, folded x_def] xe(1) d4 d400
    by (simp add: before_year_def [of 1970])
  then have "weekday (date_number y (nat (m - 1)) 1) = (zeller_month m + 1 + (e + e div 4 + c div 4 - 2 * c)) mod 7"
    unfolding weekday_def by (simp only: mod_mult_self2) (simp add: algebra_simps)
  also have "\<dots> = (K + (e + e div 4 + c div 4 - 2 * c)) mod 7"
    using zeller_month_mod [OF m] by (intro mod_add_cong) (simp_all add: K_def)
  finally show ?thesis unfolding x_def [symmetric] s K_def [symmetric] by (simp add: algebra_simps)
qed

lemma week_loop_4: "n \<le> 3 \<Longrightarrow> d + 7 * int n < len \<Longrightarrow> week_loop n len d = d + 7 * int n"
  by (induction n arbitrary: d) auto

lemma week_loop_5: "0 \<le> d \<Longrightarrow> d < 7 \<Longrightarrow> 28 \<le> len \<Longrightarrow> week_loop 4 len d = (if d + 28 < len then d + 28 else d + 21)"
  by (simp add: numeral_eq_Suc)

lemma weekday_shift: "weekday (n + k) = (weekday n + k) mod 7"
  by (simp add: weekday_def mod_simps algebra_simps)

lemma month_day_falls:
  assumes r: "rule_ok r" "r_type r = MONTH_NTH_DAY_OF_WEEK" and y: "1 \<le> y" and m: "m = nat (r_mon r - 1)"
    and d: "d0 = (r_day r - weekday (date_number y m 1)) mod 7"
    and d': "d = week_loop (nat (r_week r - 1)) (mon_lengths (isleap y) ! m) d0"
  shows "rule_falls y r (before_month (isleap y) m + d)"
proof -
  let ?L = "mon_lengths (isleap y) ! m"
  define w where "w = nat (r_week r - 1)"
  have R: "m < 12" "r_week r = int w + 1" "w \<le> 4" "0 \<le> r_day r" "r_day r < 7" using r m by (auto simp: rule_ok_def w_def)
  have L: "28 \<le> ?L" "?L \<le> 31" using mon_lengths_bounds [OF R(1)] by simp_all
  have D0: "0 \<le> d0" "d0 < 7" by (simp_all add: d)
  have k: "\<exists>k. d = d0 + 7 * k \<and> 0 \<le> k \<and> d < ?L \<and> (if w = 4 then ?L < d + 8 else k = int w)"
  proof (cases "w = 4")
    case True
    then show ?thesis using week_loop_5 [OF D0 L(1)] D0 L by (intro exI [of _ "if d0 + 28 < ?L then 4 else 3"]) (auto simp: d' w_def)
  next
    case False
    then have "w \<le> 3" using R(3) by simp
    then show ?thesis using week_loop_4 [of w d0 ?L] False D0 L by (intro exI [of _ "int w"]) (auto simp: d' w_def)
  qed
  then obtain k where k: "d = d0 + 7 * k" "0 \<le> k" "d < ?L" "if w = 4 then ?L < d + 8 else k = int w" by blast
  have "day_number y (before_month (isleap y) m + d) = date_number y m 1 + d" by (simp add: date_number_def day_number_def)
  then have "weekday (day_number y (before_month (isleap y) m + d)) = (weekday (date_number y m 1) + d0) mod 7"
    by (simp add: weekday_shift k(1) mod_simps add.assoc [symmetric])
  also have "\<dots> = r_day r" using R(4,5) by (simp add: d mod_simps)
  finally have wd: "weekday (day_number y (before_month (isleap y) m + d)) = r_day r" .
  have "valid_date y m (d + 1)" using k R(1) D0 by (simp add: valid_date_def)
  moreover have "w \<noteq> 4 \<Longrightarrow> d div 7 = r_week r - 1" using k D0 R(2) by simp
  ultimately show ?thesis using r(2) wd k(4) R(2) unfolding rule_falls_def m [symmetric]
    by (auto intro!: exI [of _ "d + 1"])
qed

lemma julian_day_falls:
  assumes r: "rule_ok r" "r_type r = JULIAN_DAY"
  shows "rule_falls y r (r_day r - 1 + (if isleap y \<and> 60 \<le> r_day r then 1 else 0))"
proof -
  have R: "0 \<le> r_day r - 1" "r_day r - 1 < year_lengths False" using r by (auto simp: rule_ok_def year_lengths_def)
  obtain m where m: "m < 12" "0 \<le> r_day r - 1 - before_month False m" "r_day r - 1 - before_month False m < mon_lengths False ! m"
    using mon_loop_ok [OF R] by blast
  have nl: "\<not> isleap 2001" by (simp add: isleap_mod)
  have d: "valid_date 2001 m (r_day r - before_month False m)" using m nl by (simp add: valid_date_def)
  have "60 \<le> r_day r \<longleftrightarrow> 2 \<le> m"
  proof
    assume "2 \<le> m"
    then show "60 \<le> r_day r" using before_month_mono [of 2 m False] m(1,2) by (simp add: before_month_def [of _ 2] mon_lengths_def)
  next
    assume "60 \<le> r_day r"
    then show "2 \<le> m" using before_month_less [of m 2 False] m(3) by (cases "m < 2") (auto simp: before_month_def [of _ 2] mon_lengths_def)
  qed
  then have "before_month (isleap y) m + (r_day r - before_month False m) - 1 = r_day r - 1 + (if isleap y \<and> 60 \<le> r_day r then 1 else 0)"
    using before_month_march [of m "isleap y"] before_month_february [of m "isleap y"] m(1) by (cases "m < 2") auto
  then show ?thesis using r(2) d by (auto simp: rule_falls_def intro!: exI [of _ m])
qed

lemma word_day: "(word_of_int (86400 * day_number y 0) :: time_t) + word_of_int (n * 86400) = word_of_int (86400 * day_number y n)"
  by (simp add: day_number_def algebra_simps)

lemma transtime_falls:
  assumes r: "rule_ok r" and y: "1 \<le> y"
  shows "\<exists>n. rule_falls y r n \<and>
    transtime (word_of_int (86400 * day_number y 0)) y r offset = word_of_int (86400 * day_number y n + r_time r + offset)"
proof (cases "r_type r")
  case JULIAN_DAY
  let ?n = "r_day r - 1 + (if isleap y \<and> 60 \<le> r_day r then 1 else 0)"
  have "transtime (word_of_int (86400 * day_number y 0)) y r offset = word_of_int (86400 * day_number y ?n) + word_of_int (r_time r) + word_of_int offset"
    using JULIAN_DAY by (simp add: transtime_def Let_def day_number_def algebra_simps)
  then show ?thesis using julian_day_falls [OF r JULIAN_DAY, of y] by (intro exI [of _ ?n]) simp
next
  case DAY_OF_YEAR
  then show ?thesis by (intro exI [of _ "r_day r"]) (simp only: transtime_def Let_def rule_type.case word_day, simp add: rule_falls_def)
next
  case M: MONTH_NTH_DAY_OF_WEEK
  define m where "m = nat (r_mon r - 1)"
  have R: "1 \<le> r_mon r" "r_mon r \<le> 12" using r M by (auto simp: rule_ok_def)
  define K where "K = (26 * ((r_mon r + 9) smod 12 + 1) - 2) sdiv 10 + 1 + zeller_year y (r_mon r) smod 100 + zeller_year y (r_mon r) smod 100 sdiv 4 +
      zeller_year y (r_mon r) sdiv 100 sdiv 4 - 2 * (zeller_year y (r_mon r) sdiv 100)"
  define W where "W = weekday (date_number y m 1)"
  have K: "(if K smod 7 < 0 then K smod 7 + 7 else K smod 7) = W" unfolding smod_7 using zeller [OF R y] by (simp add: K_def W_def m_def)
  have W: "0 \<le> W" "W < 7" "0 \<le> r_day r" "r_day r < 7" using r M by (auto simp: W_def weekday_def rule_ok_def)
  have D: "(if r_day r - W < 0 then r_day r - W + 7 else r_day r - W) = (r_day r - W) mod 7"
    using W by presburger
  define d where "d = week_loop (nat (r_week r - 1)) (mon_lengths (isleap y) ! m) ((r_day r - W) mod 7)"
  have f: "rule_falls y r (before_month (isleap y) m + d)"
    by (rule month_day_falls [OF r M y m_def refl]) (simp add: d_def W_def)
  have "transtime (word_of_int (86400 * day_number y 0)) y r offset = word_of_int (86400 * day_number y (before_month (isleap y) m)) +
      word_of_int (d * 86400) + word_of_int (r_time r) + word_of_int offset"
    unfolding transtime_def Let_def M rule_type.case zeller_year_def [symmetric] K_def [symmetric] K D m_def [symmetric] foldl_days
      before_month_def [symmetric] d_def [symmetric] word_day ..
  then show ?thesis using f by (intro exI [of _ "before_month (isleap y) m + d"]) (simp add: day_number_def algebra_simps)
qed

text \<open>A rule names one day of a year.\<close>

lemma rule_falls_unique: "rule_ok r \<Longrightarrow> rule_falls y r n \<Longrightarrow> rule_falls y r n' \<Longrightarrow> n = n'"
proof (cases "r_type r")
  case JULIAN_DAY
  assume "rule_falls y r n" "rule_falls y r n'"
  then obtain m d m' d' where h: "valid_date 2001 m d" "r_day r = before_month False m + d" "n = before_month (isleap y) m + d - 1"
      "valid_date 2001 m' d'" "r_day r = before_month False m' + d'" "n' = before_month (isleap y) m' + d' - 1"
    using JULIAN_DAY by (auto simp: rule_falls_def)
  have "\<not> isleap 2001" by (simp add: isleap_mod)
  then have "date_number 2001 m d = date_number 2001 m' d'" using h(2,5) by (simp add: date_number_def day_number_def)
  then show ?thesis using date_number_inj [OF h(1,4)] h by simp
next
  case M: MONTH_NTH_DAY_OF_WEEK
  define m where "m = nat (r_mon r - 1)"
  let ?L = "mon_lengths (isleap y) ! m"
  assume r: "rule_ok r" and "rule_falls y r n" "rule_falls y r n'"
  then obtain d d' where h: "valid_date y m d" "n = before_month (isleap y) m + d - 1" "weekday (day_number y n) = r_day r"
      "if r_week r = 5 then ?L < d + 7 else (d - 1) div 7 = r_week r - 1"
      "valid_date y m d'" "n' = before_month (isleap y) m + d' - 1" "weekday (day_number y n') = r_day r"
      "if r_week r = 5 then ?L < d' + 7 else (d' - 1) div 7 = r_week r - 1"
    using M by (auto simp: rule_falls_def m_def)
  have c: "(d - 1 + (before_year y - before_year 1970 + before_month (isleap y) m + 4)) mod 7 =
      (d' - 1 + (before_year y - before_year 1970 + before_month (isleap y) m + 4)) mod 7"
    using h(3,7) unfolding h(2,6) weekday_def day_number_def by (simp add: algebra_simps)
  have dm: "(d - 1) mod 7 = (d' - 1) mod 7" using mod_diff_cong [OF c refl, of "before_year y - before_year 1970 + before_month (isleap y) m + 4"] by simp
  have dl: "d \<le> ?L" "d' \<le> ?L" using h(1,5) by (simp_all add: valid_date_def)
  have "d = d'"
  proof (cases "r_week r = 5")
    case True
    obtain k where k: "d - 1 = d' - 1 + 7 * k" using dm by (metis mod_eqE)
    have "\<bar>d - d'\<bar> < 7" using True h(4,8) dl by simp
    then show ?thesis using k by simp
  next
    case False
    then have "(d - 1) div 7 = (d' - 1) div 7" using h(4,8) by simp
    then have "d - 1 = d' - 1" using dm by (metis mult_div_mod_eq)
    then show ?thesis by simp
  qed
  then show ?thesis using h by simp
qed (auto simp: rule_falls_def)


section \<open>The table of transitions\<close>

definition jan :: "int \<Rightarrow> int" where
  "jan y = 86400 * day_number y 0"

lemma jan_Suc: "jan (y + 1) = jan y + 86400 * year_days y"
  by (simp add: jan_def day_number_def before_year_Suc)

lemma jan_mono: "y \<le> z \<Longrightarrow> jan y \<le> jan z"
proof (induction z rule: int_ge_induct)
  case (step z)
  then show ?case using year_days_pos(1) [of "isleap z"] by (simp add: jan_Suc)
qed simp

lemma jan_eval: "jan 1970 = 0" "jan 2106 = 4291747200" "jan 2107 = 4323283200"
  by (simp_all add: jan_def day_number_def before_year_def)

lemma uint_jan: "1970 \<le> y \<Longrightarrow> y \<le> 2106 \<Longrightarrow> uint (word_of_int (jan y) :: time_t) = jan y"
  using jan_mono [of 1970 y] jan_mono [of y 2106] by (intro uint_of_int_small) (simp_all add: jan_eval)

text \<open>The two transitions of a year.\<close>

definition change :: "rule \<Rightarrow> int \<Rightarrow> int \<Rightarrow> time_t" where
  "change r offset y = transtime (word_of_int (jan y)) y r offset"

definition changes :: "rule \<Rightarrow> rule \<Rightarrow> int \<Rightarrow> int \<Rightarrow> int \<Rightarrow> (time_t \<times> nat) list" where
  "changes b e stdoffset dstoffset y =
     (let s = change b stdoffset y; t = change e dstoffset y in if s > t then [(t, 1), (s, 0)] else [(s, 0), (t, 1)])"

lemma length_changes [simp]: "length (changes b e u v y) = 2"
  by (simp add: changes_def Let_def)

lemma rule_loop_step:
  assumes "1970 \<le> y" "y \<le> 2106" "n + 2 \<le> 1200"
  shows "rule_loop b e u v y (word_of_int (jan y)) n =
    changes b e u v y @ (if y = 2106 then [] else rule_loop b e u v (y + 1) (word_of_int (jan (y + 1))) (n + 2))"
proof -
  have j: "(word_of_int (jan y) :: time_t) + word_of_int (year_days y * 86400) = word_of_int (jan (y + 1))" by (simp add: jan_Suc mult.commute)
  have w: "(word_of_int (jan (y + 1)) :: time_t) \<le> word_of_int (jan y) \<longleftrightarrow> y = 2106"
  proof (cases "y = 2106")
    case True
    have "(word_of_int (jan 2107) :: time_t) = 28315904" "(word_of_int (jan 2106) :: time_t) = 4291747200" by (simp_all add: jan_eval)
    then show ?thesis using True by simp
  next
    case False
    then show ?thesis using uint_jan [of y] uint_jan [of "y + 1"] assms(1,2) jan_Suc [of y] year_days_pos(1) [of "isleap y"] by (simp add: word_le_def)
  qed
  show ?thesis using assms(3) by (subst rule_loop.simps) (simp only: Let_def j w changes_def change_def if_True cong: if_cong)
qed

lemma rule_loop_table:
  "k \<le> 136 \<Longrightarrow> rule_loop b e u v (2106 - int k) (word_of_int (jan (2106 - int k))) (2 * (136 - k)) =
    concat (map (changes b e u v) [2106 - int k..2106])"
proof (induction k)
  case 0
  then show ?case by (subst rule_loop_step) simp_all
next
  case (Suc k)
  have "2 * (136 - Suc k) + 2 = 2 * (136 - k)" using Suc(2) by simp
  moreover have "2106 - int (Suc k) + 1 = 2106 - int k" by simp
  moreover have "[2106 - int (Suc k)..2106] = (2106 - int (Suc k)) # [2106 - int k..2106]" by (subst upto.simps) simp
  ultimately show ?case using Suc by (subst rule_loop_step) simp_all
qed

lemma nth_concat_pairs: "(\<And>x. length (f x) = 2) \<Longrightarrow> k < length xs \<Longrightarrow> i < 2 \<Longrightarrow> concat (map f xs) ! (2 * k + i) = f (xs ! k) ! i"
proof (induction xs arbitrary: k)
  case (Cons x xs)
  then show ?case by (cases k) (auto simp: nth_append)
qed simp

lemma length_concat_pairs: "(\<And>x. length (f x) = 2) \<Longrightarrow> length (concat (map f xs)) = 2 * length xs"
  by (induction xs) simp_all

lemma rule_table:
  shows "length (rule_loop b e u v 1970 0 0) = 274"
    and "k < 137 \<Longrightarrow> i < 2 \<Longrightarrow> rule_loop b e u v 1970 0 0 ! (2 * k + i) = changes b e u v (1970 + int k) ! i"
proof -
  have t: "rule_loop b e u v 1970 0 0 = concat (map (changes b e u v) [1970..2106])"
    using rule_loop_table [of 136 b e u v] by (simp add: jan_eval)
  show "length (rule_loop b e u v 1970 0 0) = 274" unfolding t by (subst length_concat_pairs) simp_all
  show "k < 137 \<Longrightarrow> i < 2 \<Longrightarrow> rule_loop b e u v 1970 0 0 ! (2 * k + i) = changes b e u v (1970 + int k) ! i"
  proof -
    assume k: "k < 137" and i: "i < 2"
    have n: "[1970..2106] ! k = 1970 + int k" by (rule nth_upto) (use k in simp)
    have l: "k < length [1970..2106]" using k by simp
    show ?thesis unfolding t nth_concat_pairs [of "changes b e u v", OF length_changes l i] n ..
  qed
qed

lemma type_search_take: "hi \<le> n \<Longrightarrow> type_search at t lo hi = type_search (take n at) t lo hi"
proof (induction at t lo hi rule: type_search.induct)
  case (1 at t lo hi)
  then show ?case by (subst (1 2) type_search.simps) (auto simp: Let_def)
qed

text \<open>
  The table is in order up to the year 2105, but the transitions of 2106 may have wrapped around. A search for a time before the
  first transition of 2105 does not look at them.
\<close>

lemma type_search_within:
  assumes "at ! 0 \<le> t" "t < at ! 270"
  shows "\<exists>lo hi. lo \<le> hi \<and> 1 \<le> lo \<and> hi \<le> 270 \<and> type_search at t 1 274 = type_search at t lo hi \<and> at ! (lo - 1) \<le> t \<and> t < at ! hi"
proof -
  have s: "lo < hi \<Longrightarrow> type_search at t lo hi = (if t < at ! ((lo + hi) div 2) then type_search at t lo ((lo + hi) div 2) else type_search at t ((lo + hi) div 2 + 1) hi)" for lo hi
    by (subst type_search.simps) (simp add: Let_def)
  have s1: "type_search at t 1 274 = (if t < at ! 137 then type_search at t 1 137 else if t < at ! 206 then type_search at t 138 206
      else if t < at ! 240 then type_search at t 207 240 else if t < at ! 257 then type_search at t 241 257
      else if t < at ! 266 then type_search at t 258 266 else type_search at t 267 270)"
    using assms(2) s [of 1 274] s [of 138 274] s [of 207 274] s [of 241 274] s [of 258 274] s [of 267 274] by simp
  have P: "lo \<le> hi \<Longrightarrow> 1 \<le> lo \<Longrightarrow> hi \<le> 270 \<Longrightarrow> type_search at t 1 274 = type_search at t lo hi \<Longrightarrow> at ! (lo - 1) \<le> t \<Longrightarrow> t < at ! hi \<Longrightarrow> ?thesis" for lo hi
    by blast
  consider "t < at ! 137 \<or> t < at ! 206 \<or> t < at ! 240 \<or> t < at ! 257" | "\<not> t < at ! 257" "t < at ! 266" "\<not> t < at ! 240" "\<not> t < at ! 206" "\<not> t < at ! 137"
    | "\<not> t < at ! 266" "\<not> t < at ! 257" "\<not> t < at ! 240" "\<not> t < at ! 206" "\<not> t < at ! 137" by blast
  then show ?thesis
  proof cases
    case 1
    then show ?thesis using P [of 1 137] P [of 138 206] P [of 207 240] P [of 241 257] s1 assms(1) by (auto split: if_splits simp: not_less)
  next
    case 2
    then have "type_search at t 1 274 = type_search at t 258 266" by (simp only: s1 if_False if_True)
    then show ?thesis using 2 by (intro P [of 258 266]) (simp_all add: not_less)
  next
    case 3
    then have "type_search at t 1 274 = type_search at t 267 270" by (simp only: s1 if_False)
    then show ?thesis using 3 assms(2) by (intro P [of 267 270]) (simp_all add: not_less)
  qed
qed


lemma type_search_yearly:
  assumes l: "length at = 274" and o: "sorted (take 272 at)" and j: "j < 270" "at ! j \<le> t" "t < at ! (j + 1)"
  shows "type_search at t 1 274 = j + 1"
proof -
  let ?at = "take 272 at"
  have n: "?at ! i = at ! i" if "i < 272" for i using that by simp
  have mono: "at ! i \<le> at ! i'" if "i \<le> i'" "i' < 272" for i i'
    using sorted_nth_mono [OF o, of i i'] that l by simp
  have z: "at ! 0 \<le> t" using mono [of 0 j] j by simp
  have e: "t < at ! 270" using mono [of "j + 1" 270] j by simp
  obtain lo hi where s: "lo \<le> hi" "1 \<le> lo" "hi \<le> 270" "type_search at t 1 274 = type_search at t lo hi" "at ! (lo - 1) \<le> t" "t < at ! hi"
    using type_search_within [OF z e] by blast
  define k where "k = type_search ?at t lo hi"
  have k: "k \<le> 272" "1 \<le> k" "\<forall>i < k. at ! i \<le> t" "\<forall>i. k \<le> i \<and> i < 272 \<longrightarrow> t < at ! i"
  proof -
    have d: "\<forall>i < lo. ?at ! i \<le> t"
    proof (intro allI impI)
      fix i assume "i < lo"
      then have i: "i \<le> lo - 1" "lo - 1 < 272" "i < 272" using s(1-3) by auto
      then have "at ! i \<le> at ! (lo - 1)" by (intro mono)
      then show "?at ! i \<le> t" using s(5) i(3) by simp
    qed
    have u: "\<forall>i. hi \<le> i \<and> i < length ?at \<longrightarrow> t < ?at ! i"
    proof (intro allI impI)
      fix i assume "hi \<le> i \<and> i < length ?at"
      then have "at ! hi \<le> at ! i" "i < 272" using l by (auto intro: mono)
      then show "t < ?at ! i" using s(6) n by auto
    qed
    have h: "hi \<le> length ?at" using s(3) l by simp
    note f = type_search_first [OF o s(1) h d u, folded k_def]
    show "k \<le> 272" "1 \<le> k" using f s(2) l by simp_all
    then show "\<forall>i < k. at ! i \<le> t" "\<forall>i. k \<le> i \<and> i < 272 \<longrightarrow> t < at ! i" using f l n by auto
  qed
  have "j < k"
  proof (rule ccontr)
    assume "\<not> j < k"
    then have "t < at ! j" using k(4) j(1) by simp
    with j(2) show False by simp
  qed
  moreover have "k \<le> j + 1" using k(3) j(3) by (meson not_less)
  ultimately have "k = j + 1" by simp
  then show ?thesis using s(3,4) type_search_take [of hi 272 at t lo] by (simp add: k_def)
qed

text \<open>The transitions of a rule for a month that is not at an end of the year.\<close>

definition inner_rule :: "rule \<Rightarrow> bool" where
  "inner_rule r \<longleftrightarrow> rule_ok r \<and> r_type r = MONTH_NTH_DAY_OF_WEEK \<and> 2 \<le> r_mon r \<and> r_mon r \<le> 11"

lemma change_inner:
  assumes r: "inner_rule r" and o: "\<bar>offset\<bar> \<le> 604800" and y: "1970 \<le> y" "y \<le> 2105" and n: "rule_falls y r n"
  shows "uint (change r offset y) = 86400 * day_number y n + r_time r + offset"
    and "jan y + 86400 * (before_month (isleap y) (nat (r_mon r - 1)) - 7) \<le> uint (change r offset y)"
    and "uint (change r offset y) < jan y + 86400 * (before_month (isleap y) (nat (r_mon r)) + 14)"
    and "jan y \<le> uint (change r offset y)" "uint (change r offset y) < jan (y + 1)"
proof -
  let ?b = "before_month (isleap y)" and ?m = "nat (r_mon r - 1)"
  define c where "c = 86400 * day_number y n + r_time r + offset"
  have R: "rule_ok r" "r_type r = MONTH_NTH_DAY_OF_WEEK" "1 \<le> ?m" "nat (r_mon r) = Suc ?m" "Suc ?m \<le> 11" "0 \<le> r_time r" "r_time r \<le> 604800"
    using r by (auto simp: inner_rule_def rule_ok_def)
  obtain n' where n': "rule_falls y r n'" "change r offset y = word_of_int (86400 * day_number y n' + r_time r + offset)"
    using transtime_falls [OF R(1), of y offset] y by (auto simp: change_def jan_def)
  then have w: "change r offset y = word_of_int c" using rule_falls_unique [OF R(1) n, of n'] by (simp add: c_def)
  have N: "?b ?m \<le> n" "n < ?b (Suc ?m)" using n R(2,5) by (auto simp: rule_falls_def valid_date_def before_month_Suc)
  have D: "86400 * day_number y n = jan y + 86400 * n" by (simp add: jan_def day_number_def)
  have lo: "jan y + 86400 * (?b ?m - 7) \<le> c" using N(1) o R(6) by (simp add: c_def D)
  have hi: "c < jan y + 86400 * (?b (Suc ?m) + 14)" using N(2) o R(7) by (simp add: c_def D)
  have "?b 1 \<le> ?b ?m" "?b (Suc ?m) \<le> ?b 11" using R(3,5) by (intro before_month_mono; simp)+
  moreover have "?b 1 = 31" "?b 11 + 31 = year_days y" by (auto simp: before_month_def mon_lengths_def year_lengths_def)
  ultimately have in_year: "jan y \<le> c" "c < jan (y + 1)" using lo hi by (simp_all add: jan_Suc)
  have "0 \<le> c" "c < 4294967296" using in_year jan_mono [of 1970 y] jan_mono [of "y + 1" 2106] y by (simp_all add: jan_eval)
  then have "uint (change r offset y) = c" unfolding w by (intro uint_of_int_small) simp_all
  then show "uint (change r offset y) = 86400 * day_number y n + r_time r + offset"
    "jan y + 86400 * (?b ?m - 7) \<le> uint (change r offset y)" "uint (change r offset y) < jan y + 86400 * (?b (nat (r_mon r)) + 14)"
    "jan y \<le> uint (change r offset y)" "uint (change r offset y) < jan (y + 1)"
    using lo hi in_year R(4) by (simp_all add: c_def)
qed

lemma inner_falls: "inner_rule r \<Longrightarrow> 1970 \<le> y \<Longrightarrow> \<exists>n. rule_falls y r n"
  using transtime_falls [of r y] by (auto simp: inner_rule_def)

lemma change_order:
  assumes "inner_rule r" "inner_rule r'" "\<bar>offset\<bar> \<le> 604800" "\<bar>offset'\<bar> \<le> 604800" "1970 \<le> y" "y \<le> 2105" "r_mon r + 2 \<le> r_mon r'"
  shows "change r offset y < change r' offset' y"
proof -
  let ?b = "before_month (isleap y)"
  have m: "nat (r_mon r) + 1 \<le> nat (r_mon r' - 1)" "nat (r_mon r' - 1) \<le> 12" "nat (r_mon r) < 12" using assms by (auto simp: inner_rule_def)
  obtain n n' where n: "rule_falls y r n" "rule_falls y r' n'" using inner_falls assms(1,2,5) by blast
  have "?b (nat (r_mon r)) + mon_lengths (isleap y) ! nat (r_mon r) \<le> ?b (nat (r_mon r' - 1))" using m by (intro before_month_less) auto
  then have "?b (nat (r_mon r)) + 28 \<le> ?b (nat (r_mon r' - 1))" using mon_lengths_bounds [OF m(3), of "isleap y"] by simp
  then show ?thesis
    using change_inner(3) [OF assms(1,3,5,6) n(1)] change_inner(2) [OF assms(2,4,5,6) n(2)] by (simp add: word_less_def)
qed


lemma table_type:
  assumes c: "\<And>y. 1970 \<le> y \<Longrightarrow> y \<le> 2105 \<Longrightarrow> changes b e u v y = [(A y, p), (B y, q)]"
    and A: "\<And>y. 1970 \<le> y \<Longrightarrow> y \<le> 2105 \<Longrightarrow> jan y \<le> uint (A y)"
    and AB: "\<And>y. 1970 \<le> y \<Longrightarrow> y \<le> 2105 \<Longrightarrow> A y < B y"
    and B: "\<And>y. 1970 \<le> y \<Longrightarrow> y \<le> 2105 \<Longrightarrow> uint (B y) < jan (y + 1)"
    and ats: "ats sp = map fst (rule_loop b e u v 1970 0 0)" and types: "types sp = map snd (rule_loop b e u v 1970 0 0)"
    and y: "1970 \<le> y" "y \<le> 2104" and t: "jan y \<le> uint t" "uint t < jan (y + 1)"
  shows "local_type sp t = (if A y \<le> t \<and> t < B y then p else if y = 1970 \<and> t < A y then defaulttype sp else q)"
proof -
  let ?at = "ats sp"
  have l: "length ?at = 274" by (simp add: ats rule_table(1))
  have e: "?at ! (2 * k) = A (1970 + int k)" "?at ! (2 * k + 1) = B (1970 + int k)"
      "types sp ! (2 * k) = p" "types sp ! (2 * k + 1) = q" if "k < 136" for k
    using rule_table(2) [of k 0 b e u v] rule_table(2) [of k 1 b e u v] c [of "1970 + int k"] that by (simp_all add: ats types rule_table(1))
  have next_year: "B z < A (z + 1)" if "1970 \<le> z" "z \<le> 2104" for z using B [of z] A [of "z + 1"] that by (simp add: word_less_def)
  have o: "sorted (take 272 ?at)"
  proof (rule sorted_iff_nth_Suc [THEN iffD2], intro allI impI)
    fix i assume "Suc i < length (take 272 ?at)"
    then have i: "Suc i < 272" using l by simp
    have "?at ! i \<le> ?at ! Suc i"
    proof (cases "even i")
      case True
      then obtain k where "i = 2 * k" by (elim evenE)
      then show ?thesis using e(1,2) [of k] AB [of "1970 + int k"] i by simp
    next
      case False
      then obtain k where k: "i = 2 * k + 1" by (elim oddE)
      then show ?thesis using e(2) [of k] e(1) [of "Suc k"] next_year [of "1970 + int k"] i by (simp add: algebra_simps)
    qed
    then show "take 272 ?at ! i \<le> take 272 ?at ! Suc i" using i by simp
  qed
  have s: "local_type sp t = types sp ! j" if "j < 270" "?at ! j \<le> t" "t < ?at ! (j + 1)" for j
  proof -
    have "?at ! 0 \<le> ?at ! j" using sorted_nth_mono [OF o, of 0 j] that(1) l by simp
    then have "\<not> t < ?at ! 0" using that(2) by auto
    moreover have "?at \<noteq> []" using l by auto
    ultimately show ?thesis using type_search_yearly [OF l o that] by (simp add: local_type_def l)
  qed
  define k where "k = nat (y - 1970)"
  have k: "y = 1970 + int k" "k < 135" using y by (simp_all add: k_def)
  consider "t < A y" "k = 0" | "t < A y" "0 < k" | "A y \<le> t" "t < B y" | "B y \<le> t" by force
  then show ?thesis
  proof cases
    case 1
    then have "t < ?at ! 0" using e(1) [of 0] k by simp
    then show ?thesis using 1 k by (auto simp: local_type_def)
  next
    case 2
    then obtain i where i: "k = Suc i" by (cases k) auto
    have "uint (B (1970 + int i)) < uint t" using B [of "1970 + int i"] k t(1) by (simp add: i algebra_simps)
    then have "?at ! (2 * i + 1) \<le> t" using e(2) [of i] k i by (simp add: word_le_def)
    moreover have "t < ?at ! (2 * i + 1 + 1)" using 2 e(1) [of k] k i by simp
    ultimately have "local_type sp t = q" using s [of "2 * i + 1"] e(4) [of i] k i by simp
    then show ?thesis using 2 k by auto
  next
    case 3
    then have "local_type sp t = p" using s [of "2 * k"] e(1-3) [of k] k by simp
    then show ?thesis using 3 by simp
  next
    case 4
    have "uint t < uint (A (y + 1))" using A [of "y + 1"] t(2) y by simp
    then have "t < ?at ! (2 * k + 1 + 1)" using e(1) [of "Suc k"] k by (simp add: word_less_def algebra_simps)
    then have "local_type sp t = q" using 4 s [of "2 * k + 1"] e(2,4) [of k] k by simp
    then show ?thesis using 4 AB [of y] y by auto
  qed
qed

text \<open>Daylight saving is in force from its begin to its end, or outside of the time from its end to its begin.\<close>

definition summer :: "int \<Rightarrow> int \<Rightarrow> int \<Rightarrow> bool" where
  "summer b e t \<longleftrightarrow> (if b < e then b \<le> t \<and> t < e else \<not> (e \<le> t \<and> t < b))"

lemma rule_type:
  assumes b: "inner_rule b" and e: "inner_rule e" and m: "2 \<le> \<bar>r_mon b - r_mon e\<bar>" and u: "\<bar>u\<bar> \<le> 604800" and v: "\<bar>v\<bar> \<le> 604800"
    and ats: "ats sp = map fst (rule_loop b e u v 1970 0 0)" and types: "types sp = map snd (rule_loop b e u v 1970 0 0)"
    and y: "1970 \<le> y" "y \<le> 2104" and t: "jan y \<le> uint t" "uint t < jan (y + 1)"
    and n: "rule_falls y b nb" "rule_falls y e ne"
    and S: "S = 86400 * day_number y nb + r_time b + u" and E: "E = 86400 * day_number y ne + r_time e + v"
  shows "local_type sp t = (if y = 1970 \<and> uint t < S \<and> uint t < E then defaulttype sp else if summer S E (uint t) then 0 else 1)"
proof -
  have y5: "y \<le> 2105" using y by simp
  have SE: "uint (change b u y) = S" "uint (change e v y) = E"
    using change_inner(1) [OF b u y(1) y5 n(1)] change_inner(1) [OF e v y(1) y5 n(2)] by (simp_all add: S E)
  have bnd: "jan z \<le> uint (change b u z)" "uint (change b u z) < jan (z + 1)" "jan z \<le> uint (change e v z)" "uint (change e v z) < jan (z + 1)"
    if "1970 \<le> z" "z \<le> 2105" for z
  proof -
    obtain i j where "rule_falls z b i" "rule_falls z e j" using inner_falls b e \<open>1970 \<le> z\<close> by blast
    then show "jan z \<le> uint (change b u z)" "uint (change b u z) < jan (z + 1)" "jan z \<le> uint (change e v z)" "uint (change e v z) < jan (z + 1)"
      using change_inner(4,5) [OF b u that] change_inner(4,5) [OF e v that] by blast+
  qed
  show ?thesis
  proof (cases "r_mon b < r_mon e")
    case True
    then have ord: "change b u z < change e v z" if "1970 \<le> z" "z \<le> 2105" for z using m by (intro change_order b e u v that) simp
    then have cs: "changes b e u v z = [(change b u z, 0), (change e v z, 1)]" if "1970 \<le> z" "z \<le> 2105" for z
      using that by (auto simp: changes_def Let_def dest: less_asym)
    have lt: "local_type sp t = (if change b u y \<le> t \<and> t < change e v y then 0 else if y = 1970 \<and> t < change b u y then defaulttype sp else 1)"
      by (rule table_type [OF cs bnd(1) ord bnd(4) ats types y t])
    show ?thesis using lt [unfolded word_le_def word_less_def SE] ord [OF y(1) y5, unfolded word_less_def SE] by (auto simp: summer_def)
  next
    case False
    then have ord: "change e v z < change b u z" if "1970 \<le> z" "z \<le> 2105" for z using m by (intro change_order b e u v that) simp
    then have cs: "changes b e u v z = [(change e v z, 1), (change b u z, 0)]" if "1970 \<le> z" "z \<le> 2105" for z
      using that by (simp add: changes_def Let_def)
    have lt: "local_type sp t = (if change e v y \<le> t \<and> t < change b u y then 1 else if y = 1970 \<and> t < change e v y then defaulttype sp else 0)"
      by (rule table_type [OF cs bnd(3) ord bnd(2) ats types y t])
    show ?thesis using lt [unfolded word_le_def word_less_def SE] ord [OF y(1) y5, unfolded word_less_def SE] by (auto simp: summer_def)
  qed
qed


subsection \<open>From the string to the local time\<close>

lemma getzname_dropWhile: "getzname s = dropWhile (\<lambda>c. c \<noteq> 0 \<and> \<not> is_digit c \<and> c \<noteq> 44 \<and> c \<noteq> 45 \<and> c \<noteq> 43) s"
  by (induction s) auto

lemma getqzname_dropWhile: "getqzname s delim = dropWhile (\<lambda>c. c \<noteq> 0 \<and> c \<noteq> delim) s"
  by (induction s) auto

lemma take_before_dropWhile: "take (length s - length (dropWhile P s)) s = takeWhile P s"
proof -
  have "length (takeWhile P s) + length (dropWhile P s) = length s" by (metis length_append takeWhile_dropWhile_id)
  then have "length s - length (dropWhile P s) = length (takeWhile P s)" by simp
  then show ?thesis by (metis takeWhile_eq_take)
qed

lemma zone_name_no_nul: "zone_name s = Some (name, rest) \<Longrightarrow> 0 \<notin> set name"
  by (auto simp: zone_name_def Let_def getzname_dropWhile getqzname_dropWhile take_before_dropWhile simp del: length_tl
      dest: set_takeWhileD split: if_splits)

lemma getoffset_cur: "getoffset s = Some (u, rest) \<Longrightarrow> cur s \<noteq> 0"
  by (auto simp: getoffset_def getsecs_def getnum_def is_digit_def Let_def split: if_splits Option.bind_splits)

text \<open>The tables that a string with rules leaves.\<close>

definition no_extras :: "state option \<Rightarrow> bool" where
  "no_extras loaded \<longleftrightarrow> (case loaded of None \<Rightarrow> True | Some sp \<Rightarrow> \<not> goback sp \<and> \<not> goahead sp \<and> lsis sp = [])"

lemma tzparse_rules:
  assumes "zone_name name = Some (std, name1)" "getoffset name1 = Some (u, name2)" "cur name2 \<noteq> 0" "zone_name name2 = Some (dst, name3)"
    "(if cur name3 \<noteq> 0 \<and> cur name3 \<noteq> 44 \<and> cur name3 \<noteq> 59 then getoffset name3 else Some (u - 3600, name3)) = Some (v, 44 # rules)"
    "getrule rules = Some (b, 44 # rules')" "getrule rules' = Some (e, [])" "dst \<noteq> []" "length std + length dst \<le> 49" "no_extras loaded"
  shows "\<exists>sp'. tzparse loaded name False sp = Some sp' \<and> ats sp' = map fst (rule_loop b e u v 1970 0 0) \<and>
    types sp' = map snd (rule_loop b e u v 1970 0 0) \<and> ttis sp' = [ttinfo_for (- v) 1 (length std + 1), ttinfo_for (- u) 0 0] \<and>
    chars sp' = std @ [0] @ dst @ [0] \<and> \<not> goback sp' \<and> \<not> goahead sp' \<and> lsis sp' = [] \<and>
    defaulttype sp' = defaulttype (case loaded of Some sp0 \<Rightarrow> sp0 | None \<Rightarrow> sp)"
proof -
  define sp0 where "sp0 = (case loaded of Some sp' \<Rightarrow> sp' | None \<Rightarrow> sp\<lparr>goback := False, goahead := False, lsis := []\<rparr>)"
  have n1: "cur name1 \<noteq> 0" using getoffset_cur [OF assms(2)] .
  have c: "cur (44 # rules) = 44" "cur (44 # rules') = 44" "cur [] = 0" by (simp_all add: cur_def)
  have w: "with_dst std u name2 loaded sp0 = Some (dst, rule_tables b e u v (length std) sp0)"
    using assms(4-7) by (simp add: with_dst_def Let_def c)
  have "tzparse loaded name False sp = Some ((rule_tables b e u v (length std) sp0)\<lparr>chars := std @ [0] @ dst @ [0]\<rparr>)"
    using assms(1-3,8,9) n1 w by (simp add: tzparse_def Let_def sp0_def [symmetric])
  moreover have "\<not> goback sp0 \<and> \<not> goahead sp0 \<and> lsis sp0 = [] \<and> defaulttype sp0 = defaulttype (case loaded of Some sp0 \<Rightarrow> sp0 | None \<Rightarrow> sp)"
    using assms(10) by (auto simp: sp0_def no_extras_def split: option.splits)
  ultimately show ?thesis by (simp add: rule_tables_def Let_def)
qed


lemma takeWhile_nul: "0 \<notin> set a \<Longrightarrow> takeWhile (\<lambda>c. c \<noteq> 0) (a @ 0 # r) = (a :: byte list)"
  by (induction a) auto

lemma zone_strings: "0 \<notin> set a \<Longrightarrow> 0 \<notin> set b \<Longrightarrow> takeWhile (\<lambda>c. c \<noteq> 0) (a @ [0] @ b @ [0]) = a \<and>
    takeWhile (\<lambda>c. c \<noteq> 0) (drop (length a + 1) (a @ [0] @ b @ [0])) = (b :: byte list)"
  by (simp add: takeWhile_nul)

lemma localsub_two_types:
  assumes "\<not> goback sp" "\<not> goahead sp" "lsis sp = []" "chars sp = std @ [0] @ dst @ [0]" "0 \<notin> set std" "0 \<notin> set dst"
    "ttis sp = [ttinfo_for (- v) 1 (length std + 1), ttinfo_for (- u) 0 0]" "\<bar>u\<bar> \<le> 10 ^ 8" "\<bar>v\<bar> \<le> 10 ^ 8"
    "local_type sp t = (if summer_time then 0 else 1)"
  shows "\<exists>r. localsub sp t 0 = Some r \<and> shows_time r (uint t - (if summer_time then v else u)) \<and>
    tm_isdst r = (if summer_time then 1 else 0) \<and> tm_zone r = (if summer_time then dst else std)"
proof -
  define k where "k = (if summer_time then v else u)"
  have z: "leap_scan sp t (length (lsis sp)) = (0, 0)" "\<bar>- k - 0\<bar> \<le> 10 ^ 9" using assms(3,8,9) by (auto simp: k_def)
  obtain r where r: "timesub t (- k) sp = Some r" "shows_time (r\<lparr>tm_sec := tm_sec r - 0\<rparr>) (uint t + - k - 0)"
    using timesub_shows [OF z] by blast
  have tt: "ttis sp ! local_type sp t = (if summer_time then ttinfo_for (- v) 1 (length std + 1) else ttinfo_for (- u) 0 0)"
    using assms(7,10) by simp
  have "localsub sp t 0 = Some (r\<lparr>tm_isdst := if summer_time then 1 else 0, tm_zone := if summer_time then dst else std\<rparr>)"
    using assms(1,2) r(1) zone_strings [OF assms(5,6)]
    by (auto simp: localsub_def localsub_plain_def tt ttinfo_for_def k_def zone_string_def assms(4) Let_def)
  moreover have "shows_time (r\<lparr>tm_isdst := i, tm_zone := z\<rparr>) (uint t - k)" for i z using r(2) by (simp add: shows_time_def)
  ultimately show ?thesis by (simp add: k_def)
qed

section \<open>Properties\<close>

text \<open>
  C27. A rule that \<^verbatim>\<open>getrule\<close> accepts names exactly one day of every year: a date of the common year, which is never the 29th of
  February; a day of the year; or the first to fourth or the last of a weekday in a month. \<^verbatim>\<open>transtime\<close> gives the time of day of
  the rule on that day, moved by the offset; its use of Zeller's congruence agrees with the calendar.
\<close>

theorem rule_takes_effect:
  assumes "getrule s = Some (r, rest)" "1 \<le> y"
  shows "\<exists>n. (\<forall>k. rule_falls y r k \<longleftrightarrow> k = n) \<and>
    transtime (word_of_int (86400 * day_number y 0)) y r offset = word_of_int (86400 * day_number y n + r_time r + offset)"
proof -
  have r: "rule_ok r" by (rule getrule_ok [OF assms(1)])
  obtain n where n: "rule_falls y r n"
      "transtime (word_of_int (86400 * day_number y 0)) y r offset = word_of_int (86400 * day_number y n + r_time r + offset)"
    using transtime_falls [OF r assms(2)] by blast
  then show ?thesis using rule_falls_unique [OF r] by blast
qed

text \<open>The example is "M3.2.0", the second Sunday in March at two o'clock.\<close>

definition march_rule :: rule where
  "march_rule = \<lparr>r_type = MONTH_NTH_DAY_OF_WEEK, r_day = 0, r_week = 2, r_mon = 3, r_time = 7200\<rparr>"

definition november_rule :: rule where
  "november_rule = \<lparr>r_type = MONTH_NTH_DAY_OF_WEEK, r_day = 0, r_week = 1, r_mon = 11, r_time = 7200\<rparr>"

lemma march_rule_string: "getrule ([77, 51, 46, 50, 46, 48] @ 44 # s) = Some (march_rule, 44 # s)" "getrule [77, 51, 46, 50, 46, 48] = Some (march_rule, [])"
  by (simp_all add: getrule_def getnum_def cur_def is_digit_def march_rule_def)

lemma november_rule_string: "getrule [77, 49, 49, 46, 49, 46, 48] = Some (november_rule, [])"
  by (simp add: getrule_def getnum_def cur_def is_digit_def november_rule_def)

lemma march_2024: "rule_falls 2024 march_rule 69" "rule_falls 2024 november_rule 307"
  by (simp_all add: rule_falls_def march_rule_def november_rule_def valid_date_def isleap_mod mon_lengths_def before_month_def weekday_def
      day_number_def before_year_def)

theorem rule_takes_effect_witness:
  "transtime (word_of_int (86400 * day_number 2024 0)) 2024 march_rule 18000 = word_of_int (86400 * day_number 2024 69 + 7200 + 18000)"
proof -
  have r: "r_time march_rule = 7200" by (simp add: march_rule_def)
  have y: "(1 :: int) \<le> 2024" by simp
  show ?thesis using rule_takes_effect [OF march_rule_string(2) y, of 18000] march_2024(1) unfolding r by auto
qed


text \<open>
  C9. From the string to the local time: let a string have a standard and a daylight saving name, which together are at most 49
  characters long, their offsets, and two rules of the form M in months from February to November that are at least two months
  apart. Then \<^verbatim>\<open>tzparse\<close> accepts it, and \<^verbatim>\<open>localtime\<close> in the zone it makes shows every time in the years 1970 to 2104 as follows.
  With the time of the rules in this year, daylight saving is in force from its begin to its end or, on the southern
  hemisphere, outside of the time from its end to its begin; the date and time of day are those of the calendar for the
  offset that is in force, with its name. Before the first transition of 1970 the default type is used, which is not set by the
  string but left over from the default rules: daylight saving is shown if it was 0. The default rules, if they are found,
  have no leap seconds, and their default type is 0 or 1.
\<close>

theorem tz_string_local_time:
  assumes "zone_name name = Some (std, name1)" "getoffset name1 = Some (u, name2)" "cur name2 \<noteq> 0" "zone_name name2 = Some (dst, name3)"
    "(if cur name3 \<noteq> 0 \<and> cur name3 \<noteq> 44 \<and> cur name3 \<noteq> 59 then getoffset name3 else Some (u - 3600, name3)) = Some (v, 44 # rules)"
    "getrule rules = Some (b, 44 # rules')" "getrule rules' = Some (e, [])" "dst \<noteq> []" "length std + length dst \<le> 49" "no_extras loaded"
    "inner_rule b" "inner_rule e" "2 \<le> \<bar>r_mon b - r_mon e\<bar>" "\<bar>v\<bar> \<le> 604800"
    "1970 \<le> y" "y \<le> 2104" "86400 * day_number y 0 \<le> uint t" "uint t < 86400 * day_number (y + 1) 0"
    "rule_falls y b nb" "rule_falls y e ne"
    "S = 86400 * day_number y nb + r_time b + u" "E = 86400 * day_number y ne + r_time e + v"
    "early = defaulttype (case loaded of Some sp0 \<Rightarrow> sp0 | None \<Rightarrow> sp)" "early < 2"
    "saving = (if y = 1970 \<and> uint t < S \<and> uint t < E then early = 0 else summer S E (uint t))"
  shows "\<exists>sp' r. tzparse loaded name False sp = Some sp' \<and> localsub sp' t 0 = Some r \<and>
    tm_isdst r = (if saving then 1 else 0) \<and> tm_zone r = (if saving then dst else std) \<and> shows_time r (uint t - (if saving then v else u))"
proof -
  have u: "\<bar>u\<bar> \<le> 604800" by (rule getoffset_bounds [OF assms(2)])
  obtain sp' where sp: "tzparse loaded name False sp = Some sp'" "ats sp' = map fst (rule_loop b e u v 1970 0 0)"
      "types sp' = map snd (rule_loop b e u v 1970 0 0)" "ttis sp' = [ttinfo_for (- v) 1 (length std + 1), ttinfo_for (- u) 0 0]"
      "chars sp' = std @ [0] @ dst @ [0]" "\<not> goback sp'" "\<not> goahead sp'" "lsis sp' = []" "defaulttype sp' = early"
    using tzparse_rules [OF assms(1-10), of sp] assms(23) by auto
  have lt: "local_type sp' t = (if saving then 0 else 1)"
    using rule_type [OF assms(11-13) u assms(14) sp(2,3) assms(15,16) _ _ assms(19-22), of t] assms(17,18,24) sp(9) by (auto simp: jan_def assms(25))
  have b: "\<bar>u\<bar> \<le> 10 ^ 8" "\<bar>v\<bar> \<le> 10 ^ 8" using u assms(14) by simp_all
  show ?thesis
    using localsub_two_types [OF sp(6-8,5) zone_name_no_nul [OF assms(1)] zone_name_no_nul [OF assms(4)] sp(4) b lt] sp(1) by blast
qed


text \<open>The example is "EST5EDT,M3.2.0,M11.1.0" at noon, universal time, on the first of July 2024.\<close>

definition eastern :: "byte list" where
  "eastern = [69, 83, 84, 53, 69, 68, 84, 44, 77, 51, 46, 50, 46, 48, 44, 77, 49, 49, 46, 49, 46, 48]"

definition cleared :: state where
  "cleared = \<lparr>goback = False, goahead = False, ats = [], types = [], ttis = [], chars = [], lsis = [], before_lsis = 0, defaulttype = 0\<rparr>"

theorem tz_string_local_time_witness:
  "\<exists>sp' r. tzparse None eastern False cleared = Some sp' \<and> localsub sp' 1719835200 0 = Some r \<and> tm_isdst r = 1 \<and> tm_zone r = [69, 68, 84] \<and>
     tm_hour r = 8"
proof -
  have p: "zone_name eastern = Some ([69, 83, 84], drop 3 eastern)" "getoffset (drop 3 eastern) = Some (18000, drop 4 eastern)" "cur (drop 4 eastern) \<noteq> 0"
      "zone_name (drop 4 eastern) = Some ([69, 68, 84], drop 7 eastern)"
      "(if cur (drop 7 eastern) \<noteq> 0 \<and> cur (drop 7 eastern) \<noteq> 44 \<and> cur (drop 7 eastern) \<noteq> 59 then getoffset (drop 7 eastern) else Some (18000 - 3600, drop 7 eastern)) =
        Some (14400, 44 # drop 8 eastern)"
    by (simp_all add: eastern_def zone_name_def getoffset_def getsecs_def getnum_def is_digit_def cur_def)
  have r: "getrule (drop 8 eastern) = Some (march_rule, 44 # drop 15 eastern)" "getrule (drop 15 eastern) = Some (november_rule, [])"
    using march_rule_string(1) [of "drop 15 eastern"] november_rule_string by (simp_all add: eastern_def)
  have i: "inner_rule march_rule" "inner_rule november_rule" by (simp_all add: inner_rule_def rule_ok_def march_rule_def november_rule_def)
  have n: "length [69, 83, 84 :: byte] + length [69, 68, 84 :: byte] \<le> 49" "no_extras None" "[69, 68, 84 :: byte] \<noteq> []" by (simp_all add: no_extras_def)
  define S where "S = 86400 * day_number 2024 69 + r_time march_rule + 18000"
  define E where "E = 86400 * day_number 2024 307 + r_time november_rule + 14400"
  have s: "summer S E 1719835200"
    by (simp add: summer_def S_def E_def day_number_def before_year_def march_rule_def november_rule_def)
  have m: "2 \<le> \<bar>r_mon march_rule - r_mon november_rule\<bar>" "\<bar>14400 :: int\<bar> \<le> 604800" by (simp_all add: march_rule_def november_rule_def)
  have y: "(1970 :: int) \<le> 2024" "(2024 :: int) \<le> 2104" "86400 * day_number 2024 0 \<le> uint (1719835200 :: time_t)"
      "uint (1719835200 :: time_t) < 86400 * day_number (2024 + 1) 0"
    by (simp_all add: day_number_def before_year_def)
  have d: "True = (if (2024 :: int) = 1970 \<and> uint (1719835200 :: time_t) < S \<and> uint (1719835200 :: time_t) < E then (0 :: nat) = 0
      else summer S E (uint (1719835200 :: time_t)))"
    using s by simp
  have c: "0 = defaulttype (case None of Some sp0 \<Rightarrow> sp0 | None \<Rightarrow> cleared)" "(0 :: nat) < 2" by (simp_all add: cleared_def)
  show ?thesis
    using tz_string_local_time [OF p r n(3,1,2) i m y march_2024 S_def E_def c d] by (auto simp: shows_time_def)
qed

end
