(* ===== verification/Tzfile.thy ===== *)
theory Tzfile
  imports Tzparse
begin

text \<open>
  Zone files, from \<^verbatim>\<open>ansi/time/ctime.c\<close>: \<^verbatim>\<open>tzload\<close> reads the tables of a zone from a file, extends them by a string if the file
  ends in one, and \<^verbatim>\<open>gmtload\<close> falls back on Greenwich time. What \<^verbatim>\<open>open\<close> and \<^verbatim>\<open>read\<close> deliver for a name, the directory of zones and
  the copy of \<^verbatim>\<open>posixrules\<close> that is built in are arguments, and so is what the code reads from memory that it has not set. A result
  -1 is \<^term>\<open>None\<close>. The pointer \<^verbatim>\<open>p\<close> into the buffer is the rest of the buffer.
\<close>

section \<open>Tables in a buffer\<close>

definition detzcode :: "byte list \<Rightarrow> 32 word" where
  "detzcode codep =
     foldl (\<lambda>result c. push_bit 8 result OR (ucast c AND 0xff)) (if hd codep AND 0x80 \<noteq> 0 then - 1 else 0) (take 4 codep)"

definition read_ttinfo :: "byte list \<Rightarrow> ttinfo" where
  "read_ttinfo p =
     \<lparr>tt_gmtoff = sint (detzcode p), tt_isdst = uint (p ! 4), tt_abbrind = unat (p ! 5), tt_ttisstd = False, tt_ttisgmt = False\<rparr>"

definition read_lsinfo :: "byte list \<Rightarrow> lsinfo" where
  "read_lsinfo p = \<lparr>ls_trans = detzcode p, ls_corr = sint (detzcode (drop 4 p))\<rparr>"

text \<open>A loop that reads \<open>n\<close> records of \<open>k\<close> bytes.\<close>

definition read_all :: "nat \<Rightarrow> (byte list \<Rightarrow> 'a) \<Rightarrow> nat \<Rightarrow> byte list \<Rightarrow> 'a list" where
  "read_all k f n p = map (\<lambda>i. f (drop (k * i) p)) [0..<n]"

text \<open>The flags of the types; a count of 0 stands for flags that are all clear.\<close>

definition read_flags :: "int \<Rightarrow> nat \<Rightarrow> byte list \<Rightarrow> (bool list \<times> byte list) option" where
  "read_flags cnt n p =
     (if cnt = 0 then Some (replicate n False, p)
      else if list_all (\<lambda>c. c = 1 \<or> c = 0) (take n p) then Some (map (\<lambda>c. c = 1) (take n p), drop n p) else None)"

definition read_tables :: "byte list \<Rightarrow> state \<Rightarrow> state option" where
  "read_tables buf sp =
     (let ttisgmtcnt = sint (detzcode (drop 20 buf)); ttisstdcnt = sint (detzcode (drop 24 buf)); leapcnt = sint (detzcode (drop 28 buf));
          timecnt = sint (detzcode (drop 32 buf)); typecnt = sint (detzcode (drop 36 buf)); charcnt = sint (detzcode (drop 40 buf)) in
      if leapcnt < 0 \<or> leapcnt > 50 \<or> typecnt \<le> 0 \<or> typecnt > 10 \<or> timecnt < 0 \<or> timecnt > 1200 \<or> charcnt < 0 \<or> charcnt > 50 \<or>
         ttisstdcnt \<noteq> typecnt \<and> ttisstdcnt \<noteq> 0 \<or> ttisgmtcnt \<noteq> typecnt \<and> ttisgmtcnt \<noteq> 0 then None
      else if int (length buf) < 44 + timecnt * 4 + timecnt + typecnt * 6 + charcnt + leapcnt * 8 + ttisstdcnt + ttisgmtcnt then None
      else
        let p = drop 44 buf; n = nat timecnt; k = nat typecnt;
            ats' = read_all 4 detzcode n p; p = drop (4 * n) p;
            types' = map unat (take n p); p = drop n p;
            ttis' = read_all 6 read_ttinfo k p; p = drop (6 * k) p;
            chars' = take (nat charcnt) p; p = drop (nat charcnt) p;
            lsis' = read_all 8 read_lsinfo (nat leapcnt) p; p = drop (8 * nat leapcnt) p in
        if \<not> list_all (\<lambda>j. int j < typecnt) types' \<or>
           \<not> list_all (\<lambda>tt. (tt_isdst tt = 0 \<or> tt_isdst tt = 1) \<and> int (tt_abbrind tt) \<le> charcnt) ttis' then None
        else do {
          (stds, p) \<leftarrow> read_flags ttisstdcnt k p;
          (gmts, p) \<leftarrow> read_flags ttisgmtcnt k p;
          Some (sp\<lparr>ats := ats', types := types', chars := chars', lsis := lsis',
            ttis := map2 (\<lambda>tt (s, g). tt\<lparr>tt_ttisstd := s, tt_ttisgmt := g\<rparr>) ttis' (zip stds gmts)\<rparr>) })"

section \<open>Repairs\<close>

text \<open>Times before 1970 look like late ones; the last of them is moved to the start of 1970 and the others are dropped.\<close>

definition cut_early :: "state \<Rightarrow> state" where
  "cut_early sp =
     (case List.find (\<lambda>i. i + 1 < length (ats sp) \<and> ats sp ! i > ats sp ! (i + 1) \<or> i + 1 = length (ats sp) \<and> ats sp ! i > 0x7fffffff)
        [0..<length (ats sp)] of
        None \<Rightarrow> sp
      | Some i \<Rightarrow> sp\<lparr>ats := drop i ((ats sp)[i := 0]), types := drop i (types sp)\<rparr>)"

text \<open>\<open>before_ats\<close> is what a read of \<^verbatim>\<open>ats[-1]\<close> gives when there is no transition.\<close>

definition append_rules :: "time_t \<Rightarrow> state \<Rightarrow> state \<Rightarrow> state" where
  "append_rules before_ats ts sp =
     (let latest = (if ats sp = [] then before_ats else last (ats sp));
          new = take (1200 - length (ats sp)) (dropWhile (\<lambda>(a, j). a \<le> latest) (zip (ats ts) (types ts))) in
      sp\<lparr>ats := ats sp @ map fst new, types := types sp @ map (\<lambda>(a, j). length (ttis sp) + j) new, chars := chars sp @ chars ts,
         ttis := ttis sp @ map (\<lambda>tt. tt\<lparr>tt_abbrind := tt_abbrind tt + length (chars sp)\<rparr>) (ttis ts)\<rparr>)"

text \<open>The file is extended when it starts and ends with a newline and holds a string with two types.\<close>

definition extend_tables :: "time_t \<Rightarrow> (byte list \<Rightarrow> state option) \<Rightarrow> byte list \<Rightarrow> state \<Rightarrow> state" where
  "extend_tables before_ats parse buf sp =
     (if length buf > 2 \<and> hd buf = 10 \<and> last buf = 10 \<and> length (ttis sp) + 2 \<le> 10 then
        (case parse (butlast (tl buf)) of
           None \<Rightarrow> sp
         | Some ts \<Rightarrow> if length (ttis ts) = 2 \<and> length (chars sp) + length (chars ts) \<le> 50 then append_rules before_ats ts sp else sp)
      else sp)"

definition typesequiv :: "state \<Rightarrow> nat \<Rightarrow> nat \<Rightarrow> bool" where
  "typesequiv sp a b \<longleftrightarrow> a < length (ttis sp) \<and> b < length (ttis sp) \<and>
     (let ap = ttis sp ! a; bp = ttis sp ! b in
      tt_gmtoff ap = tt_gmtoff bp \<and> tt_isdst ap = tt_isdst bp \<and> tt_ttisstd ap = tt_ttisstd bp \<and> tt_ttisgmt ap = tt_ttisgmt bp \<and>
      zone_string sp (tt_abbrind ap) = zone_string sp (tt_abbrind bp))"

text \<open>A \<^verbatim>\<open>time_t\<close> has 32 bits, fewer than the 34 of a period of 400 years.\<close>

definition differ_by_repeat :: "time_t \<Rightarrow> time_t \<Rightarrow> bool" where
  "differ_by_repeat t1 t0 = (if (32 :: int) - 0 < 34 then False else uint t1 - uint t0 = 400 * 31556952)"

definition find_repeats :: "state \<Rightarrow> state" where
  "find_repeats sp =
     (let n = length (ats sp) in
      if n > 1 then
        sp\<lparr>goback := goback sp \<or> list_ex (\<lambda>i. typesequiv sp (types sp ! i) (types sp ! 0) \<and> differ_by_repeat (ats sp ! i) (ats sp ! 0)) [1..<n],
           goahead := goahead sp \<or>
             list_ex (\<lambda>i. typesequiv sp (types sp ! (n - 1)) (types sp ! i) \<and> differ_by_repeat (ats sp ! (n - 1)) (ats sp ! i)) [0..<n - 1]\<rparr>
      else sp)"

text \<open>
  The type for times before the first transition. The first loop goes over as many entries of \<^verbatim>\<open>types\<close> as there are types, not
  transitions; \<open>stale\<close> is what the array holds behind the transitions.
\<close>

definition early_type :: "(nat \<Rightarrow> nat) \<Rightarrow> state \<Rightarrow> nat" where
  "early_type stale sp =
     (let n = length (ttis sp);
          standard = (\<lambda>i. tt_isdst (ttis sp ! i) = 0) in
      if \<not> list_ex (\<lambda>i. (if i < length (types sp) then types sp ! i else stale i) = 0) [0..<n] then 0
      else case (if types sp \<noteq> [] \<and> \<not> standard (types sp ! 0) then List.find standard (rev [0..<types sp ! 0]) else None) of
          Some i \<Rightarrow> i
        | None \<Rightarrow> (case List.find standard [0..<n] of Some i \<Rightarrow> i | None \<Rightarrow> 0))"

section \<open>tzload\<close>

record tzio =
  files :: "byte list \<Rightarrow> byte list option"
  zone_dir :: "byte list"
  posixrules_data :: "byte list"
  stale :: "nat \<Rightarrow> nat"
  before_ats :: time_t
  local_state :: state

definition IS_ABSOLUTE :: "byte list \<Rightarrow> bool" where
  "IS_ABSOLUTE n \<longleftrightarrow> cur n = 47 \<or> cur n = 92 \<or> cur (tl n) = 58"

definition full_name :: "tzio \<Rightarrow> byte list \<Rightarrow> byte list option" where
  "full_name io name =
     (let name = (if cur name = 58 then tl name else name) in
      if cur name \<noteq> 0 \<and> \<not> IS_ABSOLUTE name then
        if length (zone_dir io) + length name + 1 \<ge> 261 then None else Some (zone_dir io @ 47 # name)
      else Some name)"

text \<open>The part of a name behind its last separator, or behind the drive.\<close>

definition file_base :: "byte list \<Rightarrow> byte list" where
  "file_base name =
     (if list_ex (\<lambda>c. c = 47 \<or> c = 92) name then rev (takeWhile (\<lambda>c. c \<noteq> 47 \<and> c \<noteq> 92) (rev name))
      else if cur (tl name) = 58 then drop 2 name else name)"

text \<open>\<^verbatim>\<open>TZDEFRULES\<close> is "posixrules", \<^verbatim>\<open>TZDEFAULT\<close> "/dev/env/DJDIR/etc/localtime".\<close>

definition TZDEFRULES :: "byte list" where
  "TZDEFRULES = [112, 111, 115, 105, 120, 114, 117, 108, 101, 115]"

definition TZDEFAULT :: "byte list" where
  "TZDEFAULT = [47, 100, 101, 118, 47, 101, 110, 118, 47, 68, 74, 68, 73, 82, 47, 101, 116, 99, 47, 108, 111, 99, 97, 108, 116, 105, 109, 101]"

definition tz_contents :: "tzio \<Rightarrow> byte list \<Rightarrow> byte list option" where
  "tz_contents io name =
     (case files io name of
        None \<Rightarrow> if file_base name = TZDEFRULES then Some (posixrules_data io) else None
      | Some buf \<Rightarrow> if length buf < 44 then None else Some buf)"

text \<open>\<open>extension\<close> is the step for \<^verbatim>\<open>doextend\<close>; a null name is the default one.\<close>

definition load_tables :: "tzio \<Rightarrow> (byte list \<Rightarrow> state \<Rightarrow> state) \<Rightarrow> byte list option \<Rightarrow> state \<Rightarrow> state option" where
  "load_tables io extension name sp = do {
     let sp = sp\<lparr>goback := False, goahead := False\<rparr>;
     name \<leftarrow> full_name io (case name of None \<Rightarrow> TZDEFAULT | Some name \<Rightarrow> name);
     buf \<leftarrow> tz_contents io name;
     sp \<leftarrow> read_tables buf sp;
     let sp = find_repeats (extension buf (cut_early sp));
     Some (sp\<lparr>defaulttype := early_type (stale io) sp\<rparr>) }"

text \<open>The default rules are loaded without an extension, so that the calls do not go round.\<close>

definition default_rules :: "tzio \<Rightarrow> state \<Rightarrow> state option" where
  "default_rules io sp = load_tables io (\<lambda>buf sp. sp) (Some TZDEFRULES) sp"

definition tzload :: "tzio \<Rightarrow> byte list option \<Rightarrow> state \<Rightarrow> bool \<Rightarrow> state option" where
  "tzload io name sp doextend =
     load_tables io
       (\<lambda>buf sp. if doextend then
          extend_tables (before_ats io) (\<lambda>s. tzparse (default_rules io (local_state io)) s False (local_state io)) buf sp else sp)
       name sp"

definition gmt_name :: "byte list" where "gmt_name = [71, 77, 84]"

definition gmtload :: "tzio \<Rightarrow> state \<Rightarrow> state" where
  "gmtload io sp =
     (case tzload io (Some gmt_name) sp True of
        Some sp' \<Rightarrow> sp'
      | None \<Rightarrow> (case tzparse (default_rules io sp) gmt_name True sp of Some sp' \<Rightarrow> sp' | None \<Rightarrow> sp))"


section \<open>Tables that are safe to use\<close>

text \<open>Without the default type, which is set last, and with it.\<close>

definition entries_ok :: "state \<Rightarrow> bool" where
  "entries_ok sp \<longleftrightarrow> ttis sp \<noteq> [] \<and> list_all (\<lambda>j. j < length (ttis sp)) (types sp) \<and>
     list_all (\<lambda>tt. (tt_isdst tt = 0 \<or> tt_isdst tt = 1) \<and> tt_abbrind tt \<le> length (chars sp)) (ttis sp)"

definition within_arrays :: "state \<Rightarrow> bool" where
  "within_arrays sp \<longleftrightarrow> length (ats sp) = length (types sp) \<and> length (ats sp) \<le> 1200 \<and> length (ttis sp) \<le> 10 \<and> length (chars sp) \<le> 50 \<and>
     length (lsis sp) \<le> 50"

lemma read_all_length [simp]: "length (read_all k f n p) = n"
  by (simp add: read_all_def)

lemma read_flags_length: "read_flags cnt n p = Some (fs, q) \<Longrightarrow> cnt = 0 \<or> n \<le> length p \<Longrightarrow> length fs = n"
  by (auto simp: read_flags_def split: if_splits)

lemma map2_flags:
  "length s = length xs \<Longrightarrow> length g = length xs \<Longrightarrow>
    list_all P (map2 (\<lambda>tt (s, g). tt\<lparr>tt_ttisstd := s, tt_ttisgmt := g\<rparr>) xs (zip s g)) \<longleftrightarrow> list_all P xs"
  if "\<And>tt s g. P (tt\<lparr>tt_ttisstd := s, tt_ttisgmt := g\<rparr>) = P tt"
  by (auto simp: list_all_length that)


lemma read_tables_ok:
  assumes "read_tables buf sp = Some sp'"
  shows "entries_ok sp' \<and> within_arrays sp' \<and> goback sp' = goback sp \<and> goahead sp' = goahead sp"
proof -
  define g where "g = sint (detzcode (drop 20 buf))"
  define s where "s = sint (detzcode (drop 24 buf))"
  define l where "l = sint (detzcode (drop 28 buf))"
  define t where "t = sint (detzcode (drop 32 buf))"
  define k where "k = sint (detzcode (drop 36 buf))"
  define c where "c = sint (detzcode (drop 40 buf))"
  define p1 where "p1 = drop (4 * nat t) (drop 44 buf)"
  define p2 where "p2 = drop (nat t) p1"
  define p3 where "p3 = drop (6 * nat k) p2"
  define p4 where "p4 = drop (nat c) p3"
  define p5 where "p5 = drop (8 * nat l) p4"
  define tt where "tt = read_all 6 read_ttinfo (nat k) p2"
  note d = g_def [symmetric] s_def [symmetric] l_def [symmetric] t_def [symmetric] k_def [symmetric] c_def [symmetric]
  note e = p1_def [symmetric] p2_def [symmetric] p3_def [symmetric] p4_def [symmetric] p5_def [symmetric] tt_def [symmetric]
  note r = assms [unfolded read_tables_def Let_def d e]
  have b: "0 \<le> l" "l \<le> 50" "0 < k" "k \<le> 10" "0 \<le> t" "t \<le> 1200" "0 \<le> c" "c \<le> 50" "s = k \<or> s = 0" "g = k \<or> g = 0"
    using r by (auto split: if_splits)
  have sz: "44 + t * 4 + t + k * 6 + c + l * 8 + s + g \<le> int (length buf)" using r by (auto split: if_splits)
  have ok: "list_all (\<lambda>j. int j < k) (map unat (take (nat t) p1))"
      "list_all (\<lambda>tt. (tt_isdst tt = 0 \<or> tt_isdst tt = 1) \<and> int (tt_abbrind tt) \<le> c) tt"
    using r by (auto split: if_splits)
  have len: "length p1 = length buf - 44 - 4 * nat t" "length p2 = length p1 - nat t" "length p3 = length p2 - 6 * nat k"
      "length p4 = length p3 - nat c" "length p5 = length p4 - 8 * nat l"
    unfolding p5_def unfolding p4_def unfolding p3_def unfolding p2_def unfolding p1_def by (simp_all only: length_drop)
  have tn: "nat t \<le> length p1" "nat c \<le> length p3" "s = 0 \<or> nat k \<le> length p5" "g = 0 \<or> nat k + nat s \<le> length p5"
    using sz b unfolding len by auto
  obtain stds p6 gmts p7 where f: "read_flags s (nat k) p5 = Some (stds, p6)" "read_flags g (nat k) p6 = Some (gmts, p7)"
      "sp' = sp\<lparr>ats := read_all 4 detzcode (nat t) (drop 44 buf), types := map unat (take (nat t) p1), chars := take (nat c) p3,
         lsis := read_all 8 read_lsinfo (nat l) p4, ttis := map2 (\<lambda>tt (s, g). tt\<lparr>tt_ttisstd := s, tt_ttisgmt := g\<rparr>) tt (zip stds gmts)\<rparr>"
    using r by (auto split: if_splits Option.bind_splits)
  have p6: "length p6 = length p5 - nat s" using f(1) b(3,9) by (auto simp: read_flags_def split: if_splits)
  have ls: "length stds = nat k" by (rule read_flags_length [OF f(1)]) (use tn in auto)
  have lg: "length gmts = nat k" by (rule read_flags_length [OF f(2)]) (use tn(4) p6 in auto)
  have lt: "length tt = nat k" by (simp add: tt_def)
  have "list_all (\<lambda>tt. (tt_isdst tt = 0 \<or> tt_isdst tt = 1) \<and> int (tt_abbrind tt) \<le> c)
      (map2 (\<lambda>tt (s, g). tt\<lparr>tt_ttisstd := s, tt_ttisgmt := g\<rparr>) tt (zip stds gmts))"
    using ok(2) ls lg lt by (subst map2_flags) simp_all
  moreover have "length (chars sp') = nat c" using tn(2) f(3) by simp
  ultimately have 1: "list_all (\<lambda>tt. (tt_isdst tt = 0 \<or> tt_isdst tt = 1) \<and> tt_abbrind tt \<le> length (chars sp')) (ttis sp')"
    using f(3) by (auto simp: list_all_iff)
  have 2: "length (ttis sp') = nat k" using f(3) ls lg lt by simp
  have 3: "list_all (\<lambda>j. j < length (ttis sp')) (types sp')" 
  proof -
    have "list_all (\<lambda>j. j < nat k) (map unat (take (nat t) p1))" using ok(1) by (rule list.pred_mono_strong) linarith
    then show ?thesis using f(3) 2 by simp
  qed
  have "ttis sp' \<noteq> []" using 2 b(3) by auto
  then have "entries_ok sp'" using 1 3 by (simp add: entries_ok_def)
  moreover have "within_arrays sp'"
  proof -
    have "nat t \<le> 1200" "nat k \<le> 10" "nat c \<le> 50" "nat l \<le> 50" using b by linarith+
    then show ?thesis using 2 tn(1,2) f(3) by (simp add: within_arrays_def)
  qed
  ultimately show ?thesis using f(3) by simp
qed

lemma cut_early_ok: "entries_ok sp \<Longrightarrow> within_arrays sp \<Longrightarrow> entries_ok (cut_early sp) \<and> within_arrays (cut_early sp)"
  by (auto simp: cut_early_def entries_ok_def within_arrays_def list_all_iff split: option.splits dest: in_set_dropD)

lemma no_repeats: "find_repeats sp = sp"
  by (cases sp) (simp add: find_repeats_def differ_by_repeat_def Let_def list_ex_iff)

lemma find_in_set: "List.find P xs = Some x \<Longrightarrow> x \<in> set xs"
  by (auto simp: find_Some_iff)

lemma early_type_bound: "entries_ok sp \<Longrightarrow> early_type st sp < length (ttis sp)"
proof -
  assume e: "entries_ok sp"
  then have n: "0 < length (ttis sp)" and t: "types sp \<noteq> [] \<Longrightarrow> types sp ! 0 < length (ttis sp)"
    by (auto simp: entries_ok_def list_all_length)
  have "i < length (ttis sp)" if "List.find P (rev [0..<types sp ! 0]) = Some i" "types sp \<noteq> []" for i P
    using find_in_set [OF that(1)] t [OF that(2)] by simp
  moreover have "i < length (ttis sp)" if "List.find P [0..<length (ttis sp)] = Some i" for i P
    using find_in_set [OF that] by simp
  ultimately show ?thesis using n by (auto simp: early_type_def Let_def split: option.splits if_splits)
qed

text \<open>What an extension has to keep.\<close>

lemma load_tables_ok:
  assumes "load_tables io ext name sp = Some sp'"
    and "\<And>buf s. entries_ok s \<Longrightarrow> within_arrays s \<Longrightarrow> entries_ok (ext buf s) \<and> within_arrays (ext buf s)"
    and "\<And>buf s. goback (ext buf s) = goback s \<and> goahead (ext buf s) = goahead s"
  shows "entries_ok sp' \<and> within_arrays sp' \<and> defaulttype sp' < length (ttis sp') \<and> \<not> goback sp' \<and> \<not> goahead sp'"
proof -
  obtain buf s where s: "read_tables buf (sp\<lparr>goback := False, goahead := False\<rparr>) = Some s"
      "sp' = (ext buf (cut_early s))\<lparr>defaulttype := early_type (stale io) (ext buf (cut_early s))\<rparr>"
    using assms(1) by (auto simp: load_tables_def no_repeats Let_def split: Option.bind_splits)
  have ok: "entries_ok (ext buf (cut_early s)) \<and> within_arrays (ext buf (cut_early s))"
    using read_tables_ok [OF s(1)] cut_early_ok [of s] assms(2) by blast
  have g: "\<not> goback (ext buf (cut_early s)) \<and> \<not> goahead (ext buf (cut_early s))"
    using read_tables_ok [OF s(1)] assms(3) by (simp add: cut_early_def split: option.splits)
  then show ?thesis using ok early_type_bound [of "ext buf (cut_early s)" "stale io"] s(2) by (simp add: entries_ok_def within_arrays_def)
qed


subsection \<open>Extensions\<close>

lemma rule_loop_types: "(a, j) \<in> set (rule_loop b e u v y w n) \<Longrightarrow> j < 2"
proof (induction b e u v y w n rule: rule_loop.induct)
  case (1 b e u v y w n)
  then show ?case by (subst (asm) (2) rule_loop.simps) (auto simp: Let_def split: if_splits)
qed

text \<open>Two types, as a string with daylight saving leaves them.\<close>

definition two_types :: "state \<Rightarrow> bool" where
  "two_types ts \<longleftrightarrow> list_all (\<lambda>j. j < 2) (types ts) \<and>
     list_all (\<lambda>tt. (tt_isdst tt = 0 \<or> tt_isdst tt = 1) \<and> tt_abbrind tt \<le> length (chars ts)) (ttis ts)"

lemma rule_tables_types: "list_all (\<lambda>j. j < 2) (types (rule_tables b e u v n sp))"
  using rule_loop_types by (fastforce simp: rule_tables_def Let_def list_all_iff)

lemma default_tables_types: "entries_ok sp \<Longrightarrow> list_all (\<lambda>j. j < 2) (types (default_tables u v n sp))"
  by (force simp: default_tables_def entries_ok_def list_all_iff split: prod.splits dest: bspec [OF _ nth_mem])

lemma default_tables_ttis: "ttis (default_tables u v n sp) = [ttinfo_for (- u) 0 0, ttinfo_for (- v) 1 (n + 1)]"
  by (simp add: default_tables_def split: prod.splits)

lemma with_dst_types:
  assumes "with_dst std u s loaded sp = Some (dst, sp')" "loaded = None \<or> entries_ok sp"
  shows "list_all (\<lambda>j. j < 2) (types sp') \<and> (\<exists>v w. ttis sp' = [ttinfo_for v 1 (length std + 1), ttinfo_for w 0 0] \<or>
    ttis sp' = [ttinfo_for w 0 0, ttinfo_for v 1 (length std + 1)])"
proof -
  define P where "P sp' \<longleftrightarrow> list_all (\<lambda>j. j < 2) (types sp') \<and> (\<exists>v w. ttis sp' = [ttinfo_for v 1 (length std + 1), ttinfo_for w 0 0] \<or>
    ttis sp' = [ttinfo_for w 0 0, ttinfo_for v 1 (length std + 1)])" for sp' :: state
  have R: "P (rule_tables b e u v (length std) sp)" for b e v
    using rule_tables_types by (auto simp: P_def rule_tables_def Let_def)
  have D: "loaded \<noteq> None \<Longrightarrow> P (default_tables u v (length std) sp)" for v
    using default_tables_types assms(2) by (auto simp: P_def default_tables_ttis)
  have c: "cur TZDEFRULESTRING = 44" by (simp add: cur_def TZDEFRULESTRING_def)
  have "P sp'" using assms(1) R D by (auto simp: with_dst_def Let_def c split: if_splits Option.bind_splits)
  then show ?thesis by (simp add: P_def)
qed

lemma tzparse_two_types:
  assumes "tzparse loaded s False sp = Some ts" "\<And>sp0. loaded = Some sp0 \<Longrightarrow> entries_ok sp0"
  shows "two_types ts"
proof -
  define base where "base = (case loaded of Some sp' \<Rightarrow> sp' | None \<Rightarrow> sp\<lparr>goback := False, goahead := False, lsis := []\<rparr>)"
  have b: "loaded = None \<or> entries_ok base" using assms(2) by (cases loaded) (auto simp: base_def)
  have "(\<exists>std u s' dst sp'. with_dst std u s' loaded base = Some (dst, sp') \<and> ts = sp'\<lparr>chars := std @ 0 # (if dst = [] then [] else dst @ [0])\<rparr>) \<or>
      types ts = [] \<and> (\<exists>i. ttis ts = [i] \<and> tt_isdst i = 0 \<and> tt_abbrind i = 0)"
    using assms(1) by (auto simp: tzparse_def Let_def base_def [symmetric] split: if_splits Option.bind_splits) (metis (no_types) append_Cons)+
  then show ?thesis
  proof
    assume "\<exists>std u s' dst sp'. with_dst std u s' loaded base = Some (dst, sp') \<and> ts = sp'\<lparr>chars := std @ 0 # (if dst = [] then [] else dst @ [0])\<rparr>"
    then show ?thesis using with_dst_types [OF _ b] by (fastforce simp: two_types_def ttinfo_for_def)
  qed (auto simp: two_types_def)
qed


lemma append_rules_ok:
  assumes "two_types ts" "length (ttis ts) = 2" "length (chars sp) + length (chars ts) \<le> 50" "length (ttis sp) + 2 \<le> 10"
    and "entries_ok sp" "within_arrays sp"
  shows "entries_ok (append_rules w ts sp) \<and> within_arrays (append_rules w ts sp)"
proof -
  define new where "new = take (1200 - length (ats sp)) (dropWhile (\<lambda>(a, j). a \<le> (if ats sp = [] then w else last (ats sp))) (zip (ats ts) (types ts)))"
  have "j < 2" if "(a, j) \<in> set new" for a j
  proof -
    have "(a, j) \<in> set (zip (ats ts) (types ts))" using that unfolding new_def by (meson in_set_takeD set_dropWhileD)
    then show ?thesis using assms(1) by (auto simp: two_types_def list_all_iff dest: set_zip_rightD)
  qed
  then have t: "list_all (\<lambda>j. j < length (ttis sp) + 2) (types sp @ map (\<lambda>(a, j). length (ttis sp) + j) new)"
    using assms(5) by (auto simp: entries_ok_def list_all_iff)
  have n: "length (ats sp) + length new \<le> 1200" 
  proof -
    have "length new \<le> 1200 - length (ats sp)" by (simp add: new_def)
    moreover have "length (ats sp) \<le> 1200" using assms(6) by (simp add: within_arrays_def)
    ultimately show ?thesis by linarith
  qed
  have tt: "list_all (\<lambda>tt. (tt_isdst tt = 0 \<or> tt_isdst tt = 1) \<and> tt_abbrind tt \<le> length (chars sp @ chars ts))
      (ttis sp @ map (\<lambda>tt. tt\<lparr>tt_abbrind := tt_abbrind tt + length (chars sp)\<rparr>) (ttis ts))"
    using assms(1,5) by (auto simp: two_types_def entries_ok_def list_all_iff)
  have e: "append_rules w ts sp = sp\<lparr>ats := ats sp @ map fst new, types := types sp @ map (\<lambda>(a, j). length (ttis sp) + j) new,
      chars := chars sp @ chars ts, ttis := ttis sp @ map (\<lambda>tt. tt\<lparr>tt_abbrind := tt_abbrind tt + length (chars sp)\<rparr>) (ttis ts)\<rparr>"
    by (simp only: append_rules_def Let_def new_def)
  show ?thesis unfolding e using t n tt assms(2-6) by (simp add: entries_ok_def within_arrays_def)
qed

lemma append_rules_repeats [simp]: "goback (append_rules w ts sp) = goback sp" "goahead (append_rules w ts sp) = goahead sp"
  by (simp_all add: append_rules_def Let_def)

lemma extend_tables_ok:
  assumes "\<And>s ts. parse s = Some ts \<Longrightarrow> two_types ts"
  shows "entries_ok sp \<Longrightarrow> within_arrays sp \<Longrightarrow> entries_ok (extend_tables w parse buf sp) \<and> within_arrays (extend_tables w parse buf sp)"
    and "goback (extend_tables w parse buf sp) = goback sp \<and> goahead (extend_tables w parse buf sp) = goahead sp"
  using assms by (auto simp: extend_tables_def append_rules_ok split: option.splits)

lemma default_rules_ok: "default_rules io sp = Some sp' \<Longrightarrow> entries_ok sp'"
  using load_tables_ok [of io "\<lambda>buf sp. sp" "Some TZDEFRULES" sp sp'] by (simp add: default_rules_def)

lemma tzload_ok:
  assumes "tzload io name sp doextend = Some sp'"
  shows "entries_ok sp' \<and> within_arrays sp' \<and> defaulttype sp' < length (ttis sp') \<and> \<not> goback sp' \<and> \<not> goahead sp'"
proof -
  let ?p = "\<lambda>s. tzparse (default_rules io (local_state io)) s False (local_state io)"
  have p: "?p s = Some ts \<Longrightarrow> two_types ts" for s ts by (rule tzparse_two_types) (auto intro: default_rules_ok)
  show ?thesis
    by (rule load_tables_ok [OF assms [unfolded tzload_def]]) (use extend_tables_ok [of ?p, OF p] in auto)
qed

lemma type_search_range: "lo \<le> hi \<Longrightarrow> lo \<le> type_search at t lo hi \<and> type_search at t lo hi \<le> hi"
proof (induction at t lo hi rule: type_search.induct)
  case (1 at t lo hi)
  show ?case
  proof (cases "lo < hi")
    case True
    then have "lo \<le> (lo + hi) div 2" "(lo + hi) div 2 + 1 \<le> hi" by auto
    then show ?thesis using 1(1,2) [OF True refl] True by (subst (1 2) type_search.simps) (auto simp: Let_def)
  next
    case False
    then show ?thesis using 1(3) by (subst (1 2) type_search.simps) simp
  qed
qed

lemma local_type_bound:
  assumes "entries_ok sp" "length (ats sp) = length (types sp)" "defaulttype sp < length (ttis sp)"
  shows "local_type sp t < length (ttis sp)"
proof (cases "ats sp = [] \<or> t < ats sp ! 0")
  case False
  then have "1 \<le> length (ats sp)" by (cases "ats sp") auto
  then have "type_search (ats sp) t 1 (length (ats sp)) - 1 < length (types sp)"
    using type_search_range [of 1 "length (ats sp)" "ats sp" t] assms(2) by auto
  then show ?thesis using False assms(1) by (auto simp: local_type_def entries_ok_def list_all_length)
qed (use assms in \<open>auto simp: local_type_def\<close>)


section \<open>Files that are written\<close>

text \<open>The format of a zone file, for the tables of a zone.\<close>

definition be32 :: "32 word \<Rightarrow> byte list" where
  "be32 w = [ucast (drop_bit 24 w), ucast (drop_bit 16 w), ucast (drop_bit 8 w), ucast w]"

definition ttinfo_bytes :: "ttinfo \<Rightarrow> byte list" where
  "ttinfo_bytes tt = be32 (word_of_int (tt_gmtoff tt)) @ [word_of_int (tt_isdst tt), of_nat (tt_abbrind tt)]"

definition lsinfo_bytes :: "lsinfo \<Rightarrow> byte list" where
  "lsinfo_bytes ls = be32 (ls_trans ls) @ be32 (word_of_int (ls_corr ls))"

definition flag_byte :: "bool \<Rightarrow> byte" where
  "flag_byte b = (if b then 1 else 0)"

definition zone_file :: "state \<Rightarrow> byte list" where
  "zone_file sp =
     [84, 90, 105, 102] @ replicate 16 0 @
     be32 (of_nat (length (ttis sp))) @ be32 (of_nat (length (ttis sp))) @ be32 (of_nat (length (lsis sp))) @
     be32 (of_nat (length (ats sp))) @ be32 (of_nat (length (ttis sp))) @ be32 (of_nat (length (chars sp))) @
     concat (map be32 (ats sp)) @ map of_nat (types sp) @ concat (map ttinfo_bytes (ttis sp)) @ chars sp @
     concat (map lsinfo_bytes (lsis sp)) @ map (\<lambda>tt. flag_byte (tt_ttisstd tt)) (ttis sp) @ map (\<lambda>tt. flag_byte (tt_ttisgmt tt)) (ttis sp)"

lemma length_be32 [simp]: "length (be32 w) = 4"
  by (simp add: be32_def)

lemma detzcode_be32: "detzcode (be32 w @ r) = w"
proof (rule bit_word_eqI)
  fix n :: nat
  assume n: "n < LENGTH(32)"
  have c: "ucast c AND 0xff = (ucast c :: 32 word)" for c :: byte
  proof -
    have m: "(0xff :: 32 word) = mask 8" by (simp add: mask_eq_exp_minus_1)
    show ?thesis unfolding m by (rule bit_word_eqI) (auto simp: bit_simps dest: bit_imp_le_length)
  qed
  show "bit (detzcode (be32 w @ r)) n = bit w n"
    using n by (cases "n < 16"; cases "n < 24") (auto simp: detzcode_def be32_def c bit_simps)
qed


lemma read_all_Ball:
  assumes "\<And>x r. x \<in> set xs \<Longrightarrow> f (e x @ r) = g x" "\<And>x. length (e x) = k"
  shows "read_all k f (length xs) (concat (map e xs) @ r) = map g xs"
  using assms(1)
proof (induction xs)
  case (Cons x xs)
  have "read_all k f (length (x # xs)) (concat (map e (x # xs)) @ r) =
      f (e x @ concat (map e xs) @ r) # read_all k f (length xs) (concat (map e xs) @ r)"
    unfolding read_all_def length_Cons upt_conv_Cons [OF zero_less_Suc]
    by (simp add: map_Suc_upt [symmetric] assms(2) del: upt_Suc)
  then show ?case using Cons by simp
qed (simp add: read_all_def)

lemma length_concat_fixed: "(\<And>x. length (e x) = k) \<Longrightarrow> length (concat (map e xs)) = k * length xs"
  by (induction xs) simp_all

lemma sint_count: "n \<le> 1200 \<Longrightarrow> sint (of_nat n :: 32 word) = int n"
  using sint_of_int_small [of "int n", where 'a = 32] by simp

definition offsets_ok :: "state \<Rightarrow> bool" where
  "offsets_ok sp \<longleftrightarrow> (\<forall>tt \<in> set (ttis sp). - (2 ^ 31) \<le> tt_gmtoff tt \<and> tt_gmtoff tt < 2 ^ 31) \<and>
     (\<forall>ls \<in> set (lsis sp). - (2 ^ 31) \<le> ls_corr ls \<and> ls_corr ls < 2 ^ 31)"

lemma read_ttinfo_bytes:
  assumes "- (2 ^ 31) \<le> tt_gmtoff tt" "tt_gmtoff tt < 2 ^ 31" "tt_isdst tt = 0 \<or> tt_isdst tt = 1" "tt_abbrind tt \<le> 50"
  shows "read_ttinfo (ttinfo_bytes tt @ r) = tt\<lparr>tt_ttisstd := False, tt_ttisgmt := False\<rparr>"
proof -
  have "sint (word_of_int (tt_gmtoff tt) :: 32 word) = tt_gmtoff tt" using sint_of_int_small [of "tt_gmtoff tt", where 'a = 32] assms(1,2) by simp
  moreover have "uint (word_of_int (tt_isdst tt) :: byte) = tt_isdst tt" using assms(3) by auto
  moreover have "unat (of_nat (tt_abbrind tt) :: byte) = tt_abbrind tt" using assms(4) by (simp add: unat_of_nat_small)
  moreover have "(ttinfo_bytes tt @ r) ! 4 = word_of_int (tt_isdst tt)" "(ttinfo_bytes tt @ r) ! 5 = of_nat (tt_abbrind tt)"
    by (simp_all add: ttinfo_bytes_def be32_def)
  moreover have "detzcode (ttinfo_bytes tt @ r) = word_of_int (tt_gmtoff tt)" by (simp add: ttinfo_bytes_def detzcode_be32)
  ultimately show ?thesis by (simp add: read_ttinfo_def)
qed

lemma read_lsinfo_bytes: "- (2 ^ 31) \<le> ls_corr ls \<Longrightarrow> ls_corr ls < 2 ^ 31 \<Longrightarrow> read_lsinfo (lsinfo_bytes ls @ r) = ls"
  using sint_of_int_small [of "ls_corr ls", where 'a = 32] by (simp add: read_lsinfo_def lsinfo_bytes_def detzcode_be32)

lemma read_flags_bytes: "n = length xs \<Longrightarrow> 0 < n \<Longrightarrow> read_flags (int n) n (map flag_byte xs @ r) = Some (xs, r)"
  by (auto simp: read_flags_def flag_byte_def list_all_iff comp_def cong: map_cong)

lemma flags_back: "map2 (\<lambda>tt (s, g). tt\<lparr>tt_ttisstd := s, tt_ttisgmt := g\<rparr>) (map (\<lambda>tt. tt\<lparr>tt_ttisstd := False, tt_ttisgmt := False\<rparr>) xs)
    (zip (map tt_ttisstd xs) (map tt_ttisgmt xs)) = (xs :: ttinfo list)"
  by (induction xs) simp_all


lemma read_zone_file:
  assumes e: "entries_ok sp" and w: "within_arrays sp" and o: "offsets_ok sp"
  shows "read_tables (zone_file sp) s = Some (s\<lparr>ats := ats sp, types := types sp, chars := chars sp, lsis := lsis sp, ttis := ttis sp\<rparr>)"
proof -
  let ?n = "length (ats sp)" and ?k = "length (ttis sp)" and ?c = "length (chars sp)" and ?l = "length (lsis sp)"
  define b5 where "b5 = map flag_byte (map tt_ttisstd (ttis sp)) @ map flag_byte (map tt_ttisgmt (ttis sp)) @ []"
  define b4 where "b4 = concat (map lsinfo_bytes (lsis sp)) @ b5"
  define b3 where "b3 = chars sp @ b4"
  define b2 where "b2 = concat (map ttinfo_bytes (ttis sp)) @ b3"
  define b1 where "b1 = map of_nat (types sp) @ b2"
  define b0 where "b0 = concat (map be32 (ats sp)) @ b1"
  define h where "h = [84, 90, 105, 102] @ replicate 16 (0 :: byte)"
  have lh: "length h = 20" by (simp add: h_def)
  have zf: "zone_file sp = h @ be32 (of_nat ?k) @ be32 (of_nat ?k) @ be32 (of_nat ?l) @ be32 (of_nat ?n) @ be32 (of_nat ?k) @ be32 (of_nat ?c) @ b0"
    by (simp add: zone_file_def h_def b0_def b1_def b2_def b3_def b4_def b5_def comp_def)
  have L: "?n = length (types sp)" "?n \<le> 1200" "?k \<le> 10" "?c \<le> 50" "?l \<le> 50" "0 < ?k" using e w by (auto simp: within_arrays_def entries_ok_def)
  have cnt: "sint (detzcode (drop 20 (zone_file sp))) = int ?k" "sint (detzcode (drop 24 (zone_file sp))) = int ?k"
      "sint (detzcode (drop 28 (zone_file sp))) = int ?l" "sint (detzcode (drop 32 (zone_file sp))) = int ?n"
      "sint (detzcode (drop 36 (zone_file sp))) = int ?k" "sint (detzcode (drop 40 (zone_file sp))) = int ?c"
    unfolding zf using L by (simp_all add: lh detzcode_be32 sint_count)
  have ll: "length (ttinfo_bytes tt) = 6" "length (lsinfo_bytes ls) = 8" for tt ls by (simp_all add: ttinfo_bytes_def lsinfo_bytes_def)
  have d0: "drop 44 (zone_file sp) = b0" unfolding zf by (simp add: lh)
  have d1: "drop (4 * ?n) b0 = b1" by (simp add: b0_def length_concat_fixed [of be32 4])
  have d2: "drop ?n b1 = b2" "take ?n b1 = map of_nat (types sp)" by (simp_all add: b1_def L(1))
  have d3: "drop (6 * ?k) b2 = b3" by (simp add: b2_def length_concat_fixed [of ttinfo_bytes 6] ll)
  have d4: "drop ?c b3 = b4" "take ?c b3 = chars sp" by (simp_all add: b3_def)
  have d5: "drop (8 * ?l) b4 = b5" by (simp add: b4_def length_concat_fixed [of lsinfo_bytes 8] ll)
  have size: "int (length (zone_file sp)) = 44 + int ?n * 4 + int ?n + int ?k * 6 + int ?c + int ?l * 8 + int ?k + int ?k"
    unfolding zf by (simp add: lh b0_def b1_def b2_def b3_def b4_def b5_def L(1) length_concat_fixed [of be32 4]
        length_concat_fixed [of ttinfo_bytes 6] length_concat_fixed [of lsinfo_bytes 8] ll)
  have ra: "read_all 4 detzcode ?n b0 = ats sp"
    using read_all_Ball [of "ats sp" detzcode be32 "\<lambda>x. x" 4 b1] by (simp add: b0_def detzcode_be32)
  have T: "tt_isdst tt = 0 \<or> tt_isdst tt = 1" "tt_abbrind tt \<le> ?c" "- (2 ^ 31) \<le> tt_gmtoff tt" "tt_gmtoff tt < 2 ^ 31" if "tt \<in> set (ttis sp)" for tt
    using that e o by (auto simp: entries_ok_def offsets_ok_def list_all_iff)
  have rt: "read_all 6 read_ttinfo ?k b2 = map (\<lambda>tt. tt\<lparr>tt_ttisstd := False, tt_ttisgmt := False\<rparr>) (ttis sp)"
    unfolding b2_def by (rule read_all_Ball) (use T L(4) ll in \<open>auto intro!: read_ttinfo_bytes intro: order_trans\<close>)
  have rl: "read_all 8 read_lsinfo ?l b4 = lsis sp"
    using read_all_Ball [of "lsis sp" read_lsinfo lsinfo_bytes "\<lambda>x. x" 8 b5] o ll by (simp add: b4_def offsets_ok_def read_lsinfo_bytes)
  have ty: "map unat (map of_nat (types sp) :: byte list) = types sp"
  proof -
    have "unat (of_nat j :: byte) = j" if "j \<in> set (types sp)" for j
    proof -
      have "j < ?k" using that e by (auto simp: entries_ok_def list_all_iff)
      then show ?thesis using L(3) by (simp add: unat_of_nat_small)
    qed
    then show ?thesis by (simp add: map_idI)
  qed
  have ok: "list_all (\<lambda>j. int j < int ?k) (types sp)"
      "list_all (\<lambda>tt. (tt_isdst tt = 0 \<or> tt_isdst tt = 1) \<and> int (tt_abbrind tt) \<le> int ?c)
        (map (\<lambda>tt. tt\<lparr>tt_ttisstd := False, tt_ttisgmt := False\<rparr>) (ttis sp))"
    using e T by (auto simp: entries_ok_def list_all_iff)
  have fl: "read_flags (int ?k) ?k b5 = Some (map tt_ttisstd (ttis sp), map flag_byte (map tt_ttisgmt (ttis sp)) @ [])"
      "read_flags (int ?k) ?k (map flag_byte (map tt_ttisgmt (ttis sp)) @ []) = Some (map tt_ttisgmt (ttis sp), [])"
    unfolding b5_def using L(6) by (simp_all only: read_flags_bytes length_map)
  have g: "\<not> (int ?l < 0 \<or> int ?l > 50 \<or> int ?k \<le> 0 \<or> int ?k > 10 \<or> int ?n < 0 \<or> int ?n > 1200 \<or> int ?c < 0 \<or> int ?c > 50 \<or>
      int ?k \<noteq> int ?k \<and> int ?k \<noteq> 0 \<or> int ?k \<noteq> int ?k \<and> int ?k \<noteq> 0)"
    using L by simp
  show ?thesis
    unfolding read_tables_def Let_def cnt size d0 nat_int d1 d2 d3 d4 d5 ra rt rl ty
    using g ok fl by (simp only: if_False less_irrefl not_True_eq_False simp_thms bind.bind_lunit prod.case flags_back)
qed


text \<open>Transitions in order, from 1970 to 2038, are left alone.\<close>

lemma cut_early_sorted:
  assumes "sorted (ats sp)" "\<forall>a \<in> set (ats sp). a \<le> 0x7fffffff"
  shows "cut_early sp = sp"
proof -
  have "\<not> (i + 1 < length (ats sp) \<and> ats sp ! i > ats sp ! (i + 1) \<or> i + 1 = length (ats sp) \<and> ats sp ! i > 0x7fffffff)"
    if "i < length (ats sp)" for i
    using sorted_nth_mono [OF assms(1), of i "i + 1"] assms(2) nth_mem [OF that]
    by (cases "i + 1 < length (ats sp)") (auto simp: not_less)
  then have "List.find (\<lambda>i. i + 1 < length (ats sp) \<and> ats sp ! i > ats sp ! (i + 1) \<or> i + 1 = length (ats sp) \<and> ats sp ! i > 0x7fffffff)
      [0..<length (ats sp)] = None"
    by (subst find_None_iff) auto
  then show ?thesis by (simp add: cut_early_def)
qed

lemma zone_file_head: "hd (zone_file sp) = 84" "44 \<le> length (zone_file sp)"
  by (simp_all add: zone_file_def)

lemma load_zone_file:
  assumes "entries_ok sp" "within_arrays sp" "offsets_ok sp" "sorted (ats sp)" "\<forall>a \<in> set (ats sp). a \<le> 0x7fffffff"
    "full_name io name = Some path" "files io path = Some (zone_file sp)"
  shows "\<exists>sp'. tzload io (Some name) s doextend = Some sp' \<and> ats sp' = ats sp \<and> types sp' = types sp \<and> ttis sp' = ttis sp \<and>
    chars sp' = chars sp \<and> lsis sp' = lsis sp"
proof -
  have f: "tz_contents io path = Some (zone_file sp)" using assms(7) zone_file_head(2) [of sp] by (simp add: tz_contents_def)
  have c: "cut_early (s\<lparr>ats := ats sp, types := types sp, chars := chars sp, lsis := lsis sp, ttis := ttis sp\<rparr>) =
      s\<lparr>ats := ats sp, types := types sp, chars := chars sp, lsis := lsis sp, ttis := ttis sp\<rparr>" for s :: state
    by (rule cut_early_sorted) (use assms(4,5) in simp_all)
  show ?thesis
    by (simp add: tzload_def load_tables_def assms(6) f read_zone_file [OF assms(1-3)] c no_repeats extend_tables_def zone_file_head Let_def)
qed

section \<open>Properties\<close>

text \<open>
  C18. A zone file cannot make the conversion read outside of the tables: whatever bytes a file has, if \<^verbatim>\<open>tzload\<close> accepts it, then
  the entries fit into the arrays, and for every time the type that \<^verbatim>\<open>localsub\<close> selects is one of the types, with a flag that is
  0 or 1, since it is used as an index into \<^verbatim>\<open>tzname\<close>, and an abbreviation that starts in the abbreviations or at
  their end. The tables are never marked as repeating after 400 years.
\<close>

theorem zone_file_safe:
  assumes "tzload io name sp doextend = Some sp'"
  shows "within_arrays sp' \<and> \<not> goback sp' \<and> \<not> goahead sp' \<and> local_type sp' t < length (ttis sp') \<and>
    (let tt = ttis sp' ! local_type sp' t in (tt_isdst tt = 0 \<or> tt_isdst tt = 1) \<and> tt_abbrind tt \<le> length (chars sp'))"
proof -
  note ok = tzload_ok [OF assms]
  have "local_type sp' t < length (ttis sp')" using ok local_type_bound [of sp' t] by (simp add: within_arrays_def)
  then show ?thesis using ok by (simp add: entries_ok_def list_all_length Let_def)
qed

definition example_io :: tzio where
  "example_io = \<lparr>files = (\<lambda>name. if name = [47, 122] then Some (zone_file example_zone) else None), zone_dir = [46, 47], posixrules_data = [],
     stale = (\<lambda>i. 0), before_ats = 0, local_state = cleared\<rparr>"

lemma example_zone_ok: "entries_ok example_zone" "within_arrays example_zone" "offsets_ok example_zone"
  by (simp_all add: entries_ok_def within_arrays_def offsets_ok_def example_zone_def)

lemma example_file: "full_name example_io [47, 122] = Some [47, 122]" "files example_io [47, 122] = Some (zone_file example_zone)"
    "sorted (ats example_zone)" "\<forall>a \<in> set (ats example_zone). a \<le> 0x7fffffff"
  by (simp_all add: full_name_def cur_def IS_ABSOLUTE_def example_io_def example_zone_def)

lemmas example_loads = load_zone_file [OF example_zone_ok example_file(3,4,1,2), of cleared True]

theorem zone_file_safe_witness:
  "\<exists>sp'. tzload example_io (Some [47, 122]) cleared True = Some sp' \<and> local_type sp' 1500 < 2"
proof -
  obtain sp' where "tzload example_io (Some [47, 122]) cleared True = Some sp'" "length (ttis sp') = 2"
    using example_loads by (auto simp: example_zone_def)
  then show ?thesis using zone_file_safe [of example_io "Some [47, 122]" cleared True sp' 1500] by simp
qed

text \<open>
  C26. Round trip: the tables of a zone, written in the format of a zone file, are read back unchanged, whether an
  extension is asked for or not. The tables have valid entries that fit into the arrays, offsets of 32 bits and
  transitions in order between 1970 and 2038; the file is found under its full name.
\<close>

theorem zone_file_read_back:
  assumes "entries_ok sp" "within_arrays sp" "offsets_ok sp" "sorted (ats sp)" "\<forall>a \<in> set (ats sp). a \<le> 0x7fffffff"
    "full_name io name = Some path" "files io path = Some (zone_file sp)"
  shows "\<exists>sp'. tzload io (Some name) s doextend = Some sp' \<and> ats sp' = ats sp \<and> types sp' = types sp \<and> ttis sp' = ttis sp \<and>
    chars sp' = chars sp \<and> lsis sp' = lsis sp"
  by (rule load_zone_file [OF assms])

theorem zone_file_read_back_witness:
  "\<exists>sp'. tzload example_io (Some [47, 122]) cleared True = Some sp' \<and> ats sp' = [1000, 2000] \<and> types sp' = [1, 0]"
  using zone_file_read_back [OF example_zone_ok example_file(3,4,1,2), of cleared True] by (auto simp: example_zone_def)

end
