(* ===== verification/Qsort.thy ===== *)
theory Qsort
  imports Prelude "HOL-Library.Multiset"
begin

text \<open>
  \<^verbatim>\<open>qsort\<close> of \<^verbatim>\<open>ansi/stdlib/qsort.c\<close>: quicksort with a fat pivot, and insertion sort for short segments. Elements are addressed by
  their index, from 1, as in the code; the addresses that it keeps beside the indices are those of the elements with
  these indices. The routines take the comparison of two elements of the array and their exchange as arguments:
  \<^verbatim>\<open>qsort\<close> supplies the caller's function and \<^verbatim>\<open>Swap\<close>, which works on the bytes of the array. Indices are natural numbers; in
  the code they are unsigned, and a sum of two of them wraps around only from \<open>2 ^ 31\<close> elements on.
\<close>

section \<open>Routines\<close>

definition QMIN :: nat where "QMIN = 9"

text \<open>The inner loop of \<^verbatim>\<open>InsertionSort\<close> shuffles the element at \<open>n\<close> down; it stops at index 1 or at an element that is not larger.\<close>

fun sink :: "(nat \<Rightarrow> nat \<Rightarrow> 's \<Rightarrow> int) \<Rightarrow> (nat \<Rightarrow> nat \<Rightarrow> 's \<Rightarrow> 's) \<Rightarrow> nat \<Rightarrow> 's \<Rightarrow> 's" where
  "sink cmp sw n s =
     (if 1 < n then if 0 \<ge> cmp (n - 1) n s then s else sink cmp sw (n - 1) (sw (n - 1) n s) else s)"

declare sink.simps [simp del]

definition InsertionSort :: "(nat \<Rightarrow> nat \<Rightarrow> 's \<Rightarrow> int) \<Rightarrow> (nat \<Rightarrow> nat \<Rightarrow> 's \<Rightarrow> 's) \<Rightarrow> nat \<Rightarrow> nat \<Rightarrow> 's \<Rightarrow> 's" where
  "InsertionSort cmp sw First Last s = fold (sink cmp sw) [First + 1..<Last + 1] s"

definition GET_PIVOT_ADDR :: "(nat \<Rightarrow> nat \<Rightarrow> 's \<Rightarrow> int) \<Rightarrow> nat \<Rightarrow> nat \<Rightarrow> nat \<Rightarrow> 's \<Rightarrow> nat" where
  "GET_PIVOT_ADDR cmp First Mid Last s =
     (if cmp Mid First s > 0
      then (if cmp First Last s \<ge> 0 then First else if cmp Last Mid s \<ge> 0 then Mid else Last)
      else (if cmp Last First s > 0 then First else if cmp Mid Last s > 0 then Mid else Last))"

text \<open>The variables of the loops of \<^verbatim>\<open>Partition3\<close>; \<open>hifat\<close> is \<^verbatim>\<open>HiFatPvtAddr\<close> once \<^verbatim>\<open>HiFatPvt\<close> is set.\<close>

record 's part =
  arr :: 's
  hifat :: "nat option"
  fatctr :: nat

definition move_fat :: "(nat \<Rightarrow> nat \<Rightarrow> 's \<Rightarrow> 's) \<Rightarrow> nat \<Rightarrow> 's part \<Rightarrow> 's part" where
  "move_fat sw r p = (case hifat p of None \<Rightarrow> p | Some k \<Rightarrow> p\<lparr>arr := sw k r (arr p), hifat := Some (k - 1)\<rparr>)"

definition add_fat :: "nat \<Rightarrow> 's part \<Rightarrow> 's part" where
  "add_fat r p = p\<lparr>fatctr := fatctr p + 1, hifat := Some (case hifat p of None \<Rightarrow> r | Some k \<Rightarrow> k)\<rparr>"

function left_scan :: "(nat \<Rightarrow> nat \<Rightarrow> 's \<Rightarrow> int) \<Rightarrow> nat \<Rightarrow> nat \<Rightarrow> 's \<Rightarrow> nat \<Rightarrow> int \<Rightarrow> nat \<times> int" where
  "left_scan cmp pivot Rgt s Lft c =
     (if Lft \<le> Rgt then
        let c = cmp Lft pivot s in if 0 \<le> c then (Lft, c) else left_scan cmp pivot Rgt s (Lft + 1) c
      else (Lft, c))"
  by pat_completeness auto
termination by (relation "measure (\<lambda>(cmp, pivot, Rgt, s, Lft, c). Rgt + 1 - Lft)") auto

declare left_scan.simps [simp del]

text \<open>\<^verbatim>\<open>Right\<close> never gets below the first index of the segment, so that the case 0 is not reached.\<close>

fun right_scan :: "(nat \<Rightarrow> nat \<Rightarrow> 's \<Rightarrow> int) \<Rightarrow> (nat \<Rightarrow> nat \<Rightarrow> 's \<Rightarrow> 's) \<Rightarrow> nat \<Rightarrow> nat \<Rightarrow> nat \<Rightarrow> 's part \<Rightarrow> nat \<times> 's part" where
  "right_scan cmp sw pivot Lft 0 p = (0, p)"
| "right_scan cmp sw pivot Lft (Suc r) p =
     (if Suc r \<ge> Lft then
        let c = cmp (Suc r) pivot (arr p) in
        if 0 > c then (Suc r, p)
        else if 0 < c then right_scan cmp sw pivot Lft r (move_fat sw (Suc r) p)
        else right_scan cmp sw pivot Lft r (add_fat (Suc r) p)
      else (Suc r, p))"

lemma left_scan_ge: "left_scan cmp pivot R s L c = (l, c') \<Longrightarrow> L \<le> l"
proof (induction cmp pivot R s L c rule: left_scan.induct)
  case (1 cmp pivot R s L c)
  then show ?case using left_scan.simps [of cmp pivot R s L c] by (auto simp: Let_def split: if_splits)
qed

lemma right_scan_le: "right_scan cmp sw pivot L R p = (r, p') \<Longrightarrow> r \<le> R"
  by (induction cmp sw pivot L R p rule: right_scan.induct) (auto simp: Let_def split: if_splits)

function part_loop :: "(nat \<Rightarrow> nat \<Rightarrow> 's \<Rightarrow> int) \<Rightarrow> (nat \<Rightarrow> nat \<Rightarrow> 's \<Rightarrow> 's) \<Rightarrow> nat \<Rightarrow> nat \<Rightarrow> nat \<Rightarrow> 's part \<Rightarrow> nat \<times> 's part" where
  "part_loop cmp sw pivot Lft Rgt p =
     (if Lft \<le> Rgt then
        let (l, c) = left_scan cmp pivot Rgt (arr p) Lft 0;
            (r, p) = right_scan cmp sw pivot l Rgt p in
        if l < r then
          let p = p\<lparr>arr := sw l r (arr p)\<rparr>;
              p = (if 0 < c then move_fat sw r p else add_fat r p) in
          part_loop cmp sw pivot (l + 1) (r - 1) p
        else (r, p)
      else (Rgt, p))"
  by pat_completeness auto
termination
proof (relation "measure (\<lambda>(cmp, sw, pivot, Lft, Rgt, p). Rgt + 1 - Lft)", goal_cases)
  case (2 cmp sw pivot Lft Rgt p lc l c rp r p')
  then show ?case
    using left_scan_ge [of cmp pivot Rgt "arr p" Lft 0 l c] right_scan_le [of cmp sw pivot l Rgt p r p'] by auto
qed simp

declare part_loop.simps [simp del]

definition Partition3 :: "(nat \<Rightarrow> nat \<Rightarrow> 's \<Rightarrow> int) \<Rightarrow> (nat \<Rightarrow> nat \<Rightarrow> 's \<Rightarrow> 's) \<Rightarrow> nat \<Rightarrow> nat \<Rightarrow> 's \<Rightarrow> nat \<times> nat \<times> 's" where
  "Partition3 cmp sw First Last s =
     (let Mid = (First + Last + 1) div 2;
          pivot = GET_PIVOT_ADDR cmp ((First + Mid) div 2) Mid ((Mid + Last) div 2) s;
          s = (if First \<noteq> pivot then sw First pivot s else s);
          (r, p) = part_loop cmp sw First (First + 1) Last \<lparr>arr = s, hifat = None, fatctr = 1\<rparr> in
      (r, r + (fatctr p - 1), if First \<noteq> r then sw First r (arr p) else arr p))"

text \<open>For any comparison the pivots lie in the segment, so that both parts are shorter.\<close>

lemma right_scan_bounds:
  "right_scan cmp sw pivot L R p = (r, p') \<Longrightarrow> L \<le> R + 1 \<Longrightarrow> L \<le> r + 1 \<and> fatctr p' + r \<le> fatctr p + R \<and> fatctr p \<le> fatctr p'"
  by (induction cmp sw pivot L R p rule: right_scan.induct)
    (fastforce simp: Let_def move_fat_def add_fat_def split: if_splits option.splits)+

lemma left_scan_bounds: "left_scan cmp pivot R s L c = (l, c') \<Longrightarrow> L \<le> R + 1 \<Longrightarrow> l \<le> R + 1"
proof (induction cmp pivot R s L c rule: left_scan.induct)
  case (1 cmp pivot R s L c)
  then show ?case using left_scan.simps [of cmp pivot R s L c] by (auto simp: Let_def split: if_splits)
qed

lemma fatctr_move: "fatctr (move_fat sw r p) = fatctr p" "fatctr (add_fat r p) = fatctr p + 1"
  by (auto simp: move_fat_def add_fat_def split: option.splits)

lemma part_loop_bounds:
  "part_loop cmp sw pivot L R p = (r, p') \<Longrightarrow> L \<le> R + 1 \<Longrightarrow> 0 < L \<Longrightarrow>
    L \<le> r + 1 \<and> r \<le> R \<and> fatctr p' + r \<le> fatctr p + R \<and> fatctr p \<le> fatctr p'"
proof (induction cmp sw pivot L R p rule: part_loop.induct)
  case (1 cmp sw pivot L R p)
  show ?case
  proof (cases "L \<le> R")
    case False
    then show ?thesis using 1(2,3) by (subst (asm) part_loop.simps) auto
  next
    case True
    obtain l c where l: "left_scan cmp pivot R (arr p) L 0 = (l, c)" by fastforce
    obtain r1 p1 where r: "right_scan cmp sw pivot l R p = (r1, p1)" by fastforce
    have b: "L \<le> l" "l \<le> R + 1" "l \<le> r1 + 1" "r1 \<le> R" "fatctr p1 + r1 \<le> fatctr p + R" "fatctr p \<le> fatctr p1"
      using left_scan_ge [OF l] left_scan_bounds [OF l] right_scan_le [OF r] right_scan_bounds [OF r] True by auto
    define p2 where "p2 = (if 0 < c then move_fat sw r1 (p1\<lparr>arr := sw l r1 (arr p1)\<rparr>) else add_fat r1 (p1\<lparr>arr := sw l r1 (arr p1)\<rparr>))"
    have f2: "fatctr p1 \<le> fatctr p2" "fatctr p2 \<le> fatctr p1 + 1" by (simp_all add: p2_def fatctr_move)
    have e: "part_loop cmp sw pivot L R p = (if l < r1 then part_loop cmp sw pivot (l + 1) (r1 - 1) p2 else (r1, p1))"
      using True l r by (subst part_loop.simps) (simp add: p2_def Let_def)
    show ?thesis
    proof (cases "l < r1")
      case False
      then show ?thesis using e b 1(2) by auto
    next
      case lt: True
      have "part_loop cmp sw pivot (l + 1) (r1 - 1) p2 = (r, p')" using e lt 1(2) by simp
      then have "l + 1 \<le> r + 1 \<and> r \<le> r1 - 1 \<and> fatctr p' + r \<le> fatctr p2 + (r1 - 1) \<and> fatctr p2 \<le> fatctr p'"
        using 1(1) [OF True l [symmetric] refl r [symmetric] refl lt, of "p1\<lparr>arr := sw l r1 (arr p1)\<rparr>" p2] lt by (simp add: p2_def)
      then show ?thesis using b f2 lt by auto
    qed
  qed
qed

lemma GET_PIVOT_ADDR_in: "GET_PIVOT_ADDR cmp a b c s \<in> {a, b, c}"
  by (simp add: GET_PIVOT_ADDR_def)

lemma Partition3_steps:
  assumes "Partition3 cmp sw F L s = (lp, rp, s')" "F < L"
  obtains pv s1 p where "F \<le> pv" "pv \<le> L" "s1 = (if F \<noteq> pv then sw F pv s else s)"
    "part_loop cmp sw F (F + 1) L \<lparr>arr = s1, hifat = None, fatctr = 1\<rparr> = (lp, p)" "rp = lp + (fatctr p - 1)"
    "s' = (if F \<noteq> lp then sw F lp (arr p) else arr p)"
proof -
  define m where "m = (F + L + 1) div 2"
  define pv where "pv = GET_PIVOT_ADDR cmp ((F + m) div 2) m ((m + L) div 2) s"
  define s1 where "s1 = (if F \<noteq> pv then sw F pv s else s)"
  obtain r p where p: "part_loop cmp sw F (F + 1) L \<lparr>arr = s1, hifat = None, fatctr = 1\<rparr> = (r, p)" by fastforce
  have "(r, r + (fatctr p - 1), if F \<noteq> r then sw F r (arr p) else arr p) = (lp, rp, s')"
    using assms(1) unfolding Partition3_def Let_def m_def [symmetric] pv_def [symmetric] s1_def [symmetric] p by auto
  then have "r = lp" "rp = lp + (fatctr p - 1)" "s' = (if F \<noteq> lp then sw F lp (arr p) else arr p)" by auto
  moreover have "F \<le> m" "m \<le> L" using assms(2) by (auto simp: m_def)
  then have "F \<le> pv" "pv \<le> L" using GET_PIVOT_ADDR_in [of cmp "(F + m) div 2" m "(m + L) div 2" s] by (auto simp: pv_def)
  ultimately show thesis using p by (intro that [of pv s1 p]) (auto simp: s1_def)
qed

lemma Partition3_bounds:
  assumes "Partition3 cmp sw First Last s = (lp, rp, s')" "First < Last"
  shows "First \<le> lp" "lp \<le> rp" "rp \<le> Last"
  by (rule Partition3_steps [OF assms]; use part_loop_bounds assms(2) in \<open>fastforce\<close>)+

function QuickSort :: "(nat \<Rightarrow> nat \<Rightarrow> 's \<Rightarrow> int) \<Rightarrow> (nat \<Rightarrow> nat \<Rightarrow> 's \<Rightarrow> 's) \<Rightarrow> nat \<Rightarrow> nat \<Rightarrow> 's \<Rightarrow> 's" where
  "QuickSort cmp sw First Last s =
     (if First < Last then
        if Last - First < QMIN then InsertionSort cmp sw First Last s
        else
          let (lp, rp, s) = Partition3 cmp sw First Last s in
          if lp - First < Last - rp
          then QuickSort cmp sw (rp + 1) Last (QuickSort cmp sw First (lp - 1) s)
          else QuickSort cmp sw First (lp - 1) (QuickSort cmp sw (rp + 1) Last s)
      else s)"
  by pat_completeness auto
termination
proof (relation "measure (\<lambda>(cmp, sw, First, Last, s). Last - First)", goal_cases)
  case (2 cmp sw First Last s x lp y rp s')
  then show ?case using Partition3_bounds [of cmp sw First Last s lp rp s'] by (auto simp: QMIN_def)
next
  case (3 cmp sw First Last s x lp y rp s')
  then show ?case using Partition3_bounds [of cmp sw First Last s lp rp s'] by (auto simp: QMIN_def)
next
  case (4 cmp sw First Last s x lp y rp s')
  then show ?case using Partition3_bounds [of cmp sw First Last s lp rp s'] by (auto simp: QMIN_def)
next
  case (5 cmp sw First Last s x lp y rp s')
  then show ?case using Partition3_bounds [of cmp sw First Last s lp rp s'] by (auto simp: QMIN_def)
qed simp

declare QuickSort.simps [simp del]

section \<open>Bytes\<close>

text \<open>
  \<^verbatim>\<open>Swap\<close> exchanges two elements through a variable of their size, or in pieces of at most 256 bytes through a buffer.
\<close>

definition load :: "nat \<Rightarrow> nat \<Rightarrow> (nat \<Rightarrow> byte) \<Rightarrow> byte list" where
  "load k p m = map m [p..<p + k]"

definition store :: "nat \<Rightarrow> byte list \<Rightarrow> (nat \<Rightarrow> byte) \<Rightarrow> nat \<Rightarrow> byte" where
  "store p bs m a = (if p \<le> a \<and> a < p + length bs then bs ! (a - p) else m a)"

definition MAX_SWAP :: nat where "MAX_SWAP = 256"

definition xfer :: "nat \<Rightarrow> nat \<Rightarrow> nat \<Rightarrow> (nat \<Rightarrow> byte) \<Rightarrow> nat \<Rightarrow> byte" where
  "xfer k p q m = (let t = load k p m; m = store p (load k q m) m in store q t m)"

function swap_loop :: "nat \<Rightarrow> nat \<Rightarrow> nat \<Rightarrow> (nat \<Rightarrow> byte) \<Rightarrow> nat \<Rightarrow> byte" where
  "swap_loop x p q m =
     (if 0 < x then
        let c = (if x < MAX_SWAP then x else MAX_SWAP) in swap_loop (x - c) (p + c) (q + c) (xfer c p q m)
      else m)"
  by pat_completeness auto
termination by (relation "measure (\<lambda>(x, p, q, m). x)") (auto simp: MAX_SWAP_def)

declare swap_loop.simps [simp del]

definition Swap :: "nat \<Rightarrow> nat \<Rightarrow> nat \<Rightarrow> (nat \<Rightarrow> byte) \<Rightarrow> nat \<Rightarrow> byte" where
  "Swap DataWidth p q m =
     (if DataWidth = 1 then xfer 1 p q m
      else if DataWidth = 2 then xfer 2 p q m
      else if DataWidth = 4 then xfer 4 p q m
      else swap_loop DataWidth p q m)"

definition BASE :: "nat \<Rightarrow> nat \<Rightarrow> nat \<Rightarrow> nat" where
  "BASE MyBase DataWidth i = MyBase + (i - 1) * DataWidth"

definition CMPR :: "nat \<Rightarrow> nat \<Rightarrow> (byte list \<Rightarrow> byte list \<Rightarrow> int) \<Rightarrow> nat \<Rightarrow> nat \<Rightarrow> (nat \<Rightarrow> byte) \<Rightarrow> int" where
  "CMPR MyBase DataWidth Cmpr i j m =
     Cmpr (load DataWidth (BASE MyBase DataWidth i) m) (load DataWidth (BASE MyBase DataWidth j) m)"

definition SWAP :: "nat \<Rightarrow> nat \<Rightarrow> nat \<Rightarrow> nat \<Rightarrow> (nat \<Rightarrow> byte) \<Rightarrow> nat \<Rightarrow> byte" where
  "SWAP MyBase DataWidth i j m = Swap DataWidth (BASE MyBase DataWidth i) (BASE MyBase DataWidth j) m"

definition qsort :: "nat \<Rightarrow> nat \<Rightarrow> nat \<Rightarrow> (byte list \<Rightarrow> byte list \<Rightarrow> int) \<Rightarrow> (nat \<Rightarrow> byte) \<Rightarrow> nat \<Rightarrow> byte" where
  "qsort Base Num Width Compare m = QuickSort (CMPR Base Width Compare) (SWAP Base Width) 1 Num m"

section \<open>Exchanges in a range\<close>

definition el :: "'e list \<Rightarrow> nat \<Rightarrow> 'e" where "el xs i = xs ! (i - 1)"

definition swp :: "nat \<Rightarrow> nat \<Rightarrow> 'e list \<Rightarrow> 'e list" where
  "swp i j xs = xs[i - 1 := el xs j, j - 1 := el xs i]"

inductive swaps :: "nat \<Rightarrow> nat \<Rightarrow> 'e list \<Rightarrow> 'e list \<Rightarrow> bool" for lo hi xs where
  refl: "swaps lo hi xs xs"
| step: "swaps lo hi xs ys \<Longrightarrow> lo \<le> i \<Longrightarrow> i \<le> hi \<Longrightarrow> lo \<le> j \<Longrightarrow> j \<le> hi \<Longrightarrow> swaps lo hi xs (swp i j ys)"

lemma length_swp [simp]: "length (swp i j xs) = length xs"
  by (simp add: swp_def)

lemma el_swp:
  assumes "1 \<le> i" "i \<le> length xs" "1 \<le> j" "j \<le> length xs" "1 \<le> k"
  shows "el (swp i j xs) k = (if k = j then el xs i else if k = i then el xs j else el xs k)"
  using assms by (auto simp: el_def swp_def nth_list_update)

lemma mset_swp: "1 \<le> i \<Longrightarrow> i \<le> length xs \<Longrightarrow> 1 \<le> j \<Longrightarrow> j \<le> length xs \<Longrightarrow> mset (swp i j xs) = mset xs"
  using mset_swap [of "j - 1" xs "i - 1"] by (simp add: swp_def el_def)

lemma swaps_trans: "swaps lo hi ys zs \<Longrightarrow> swaps lo hi xs ys \<Longrightarrow> swaps lo hi xs zs"
  by (induction rule: swaps.induct) (auto intro: swaps.step)

lemma swaps_mono: "swaps lo hi xs ys \<Longrightarrow> lo' \<le> lo \<Longrightarrow> hi \<le> hi' \<Longrightarrow> swaps lo' hi' xs ys"
  by (induction rule: swaps.induct) (auto intro: swaps.intros)

lemma swaps_one: "lo \<le> i \<Longrightarrow> i \<le> hi \<Longrightarrow> lo \<le> j \<Longrightarrow> j \<le> hi \<Longrightarrow> swaps lo hi xs (swp i j xs)"
  by (rule swaps.step [OF swaps.refl])

lemma swaps_length: "swaps lo hi xs ys \<Longrightarrow> length ys = length xs"
  by (induction rule: swaps.induct) auto

lemma swaps_mset: "swaps lo hi xs ys \<Longrightarrow> 1 \<le> lo \<Longrightarrow> hi \<le> length xs \<Longrightarrow> mset ys = mset xs"
  by (induction rule: swaps.induct) (auto simp: mset_swp dest: swaps_length)

lemma swaps_outside:
  "swaps lo hi xs ys \<Longrightarrow> 1 \<le> lo \<Longrightarrow> hi \<le> length xs \<Longrightarrow> 1 \<le> k \<Longrightarrow> k < lo \<or> hi < k \<Longrightarrow> el ys k = el xs k"
  by (induction rule: swaps.induct) (auto simp: el_swp dest: swaps_length)

lemma swaps_all:
  assumes "swaps lo hi xs ys" "1 \<le> lo" "hi \<le> length xs" "\<And>i. lo \<le> i \<Longrightarrow> i \<le> hi \<Longrightarrow> Q (el xs i)"
  shows "lo \<le> k \<Longrightarrow> k \<le> hi \<Longrightarrow> Q (el ys k)"
  using assms by (induction arbitrary: k rule: swaps.induct) (auto simp: el_swp dest: swaps_length)


section \<open>Any comparison\<close>

text \<open>
  What the routines rely on in the array: its contents as a list, and that the exchange of two elements is that of the
  list. Under this alone, whatever the comparison answers, every routine exchanges elements of the array and does nothing else.
\<close>

locale swap_ops =
  fixes view :: "'s \<Rightarrow> 'e list" and n :: nat and sw :: "nat \<Rightarrow> nat \<Rightarrow> 's \<Rightarrow> 's" and keeps :: "'s \<Rightarrow> bool"
  assumes view_len: "keeps s \<Longrightarrow> length (view s) = n"
    and sw_view: "keeps s \<Longrightarrow> 1 \<le> i \<Longrightarrow> i \<le> n \<Longrightarrow> 1 \<le> j \<Longrightarrow> j \<le> n \<Longrightarrow> view (sw i j s) = swp i j (view s)"
    and sw_keeps: "keeps s \<Longrightarrow> 1 \<le> i \<Longrightarrow> i \<le> n \<Longrightarrow> 1 \<le> j \<Longrightarrow> j \<le> n \<Longrightarrow> keeps (sw i j s)"

definition shuffles :: "('s \<Rightarrow> 'e list) \<Rightarrow> ('s \<Rightarrow> bool) \<Rightarrow> nat \<Rightarrow> nat \<Rightarrow> 's \<Rightarrow> 's \<Rightarrow> bool" where
  "shuffles view keeps lo hi s s' \<longleftrightarrow> keeps s' \<and> swaps lo hi (view s) (view s')"

definition fat_in :: "nat \<Rightarrow> nat \<Rightarrow> nat option \<Rightarrow> bool" where
  "fat_in r L h \<longleftrightarrow> (case h of None \<Rightarrow> True | Some k \<Rightarrow> r < k \<and> k \<le> L)"

lemma shuffles_trans: "shuffles view keeps lo hi s t \<Longrightarrow> shuffles view keeps lo hi t u \<Longrightarrow> shuffles view keeps lo hi s u"
  unfolding shuffles_def by (blast intro: swaps_trans)

lemma shuffles_mono: "shuffles view keeps lo hi s t \<Longrightarrow> lo' \<le> lo \<Longrightarrow> hi \<le> hi' \<Longrightarrow> shuffles view keeps lo' hi' s t"
  unfolding shuffles_def by (blast intro: swaps_mono)

lemma shuffles_refl: "keeps s \<Longrightarrow> shuffles view keeps lo hi s s"
  by (simp add: shuffles_def swaps.refl)

lemma shuffles_keeps: "shuffles view keeps lo hi s t \<Longrightarrow> keeps t"
  by (simp add: shuffles_def)

context swap_ops
begin

lemma shuffles_sw:
  "keeps s \<Longrightarrow> 1 \<le> lo \<Longrightarrow> hi \<le> n \<Longrightarrow> lo \<le> i \<Longrightarrow> i \<le> hi \<Longrightarrow> lo \<le> j \<Longrightarrow> j \<le> hi \<Longrightarrow> shuffles view keeps lo hi s (sw i j s)"
  by (simp add: shuffles_def sw_view sw_keeps swaps_one)

lemma sink_shuffles: "keeps s \<Longrightarrow> k \<le> n \<Longrightarrow> shuffles view keeps 1 k s (sink cmp sw k s)"
proof (induction k arbitrary: s)
  case 0
  then show ?case by (simp add: sink.simps shuffles_refl)
next
  case (Suc k)
  have e: "sink cmp sw (Suc k) s = (if 1 < Suc k \<and> \<not> 0 \<ge> cmp k (Suc k) s then sink cmp sw k (sw k (Suc k) s) else s)"
    by (subst sink.simps) simp
  show ?case
  proof (cases "1 < Suc k \<and> \<not> 0 \<ge> cmp k (Suc k) s")
    case True
    have m: "shuffles view keeps 1 (Suc k) s (sw k (Suc k) s)" using True Suc.prems by (intro shuffles_sw) auto
    have "shuffles view keeps 1 k (sw k (Suc k) s) (sink cmp sw k (sw k (Suc k) s))"
      using shuffles_keeps [OF m] Suc.prems by (intro Suc.IH) auto
    then show ?thesis unfolding e if_P [OF True] by (meson m shuffles_mono shuffles_trans le_refl le_SucI)
  next
    case False
    then show ?thesis unfolding e if_not_P [OF False] using Suc.prems by (simp add: shuffles_refl)
  qed
qed

lemma fold_sink_shuffles:
  "keeps s \<Longrightarrow> \<forall>k\<in>set ks. k \<le> hi \<Longrightarrow> hi \<le> n \<Longrightarrow> shuffles view keeps 1 hi s (fold (sink cmp sw) ks s)"
proof (induction ks arbitrary: s)
  case (Cons k ks)
  have m: "shuffles view keeps 1 hi s (sink cmp sw k s)"
    using Cons.prems by (intro shuffles_mono [OF sink_shuffles]) auto
  have "shuffles view keeps 1 hi (sink cmp sw k s) (fold (sink cmp sw) ks (sink cmp sw k s))"
    using Cons.prems by (intro Cons.IH [OF shuffles_keeps [OF m]]) auto
  then show ?case using shuffles_trans [OF m] by simp
qed (simp add: shuffles_refl)

lemma InsertionSort_shuffles: "keeps s \<Longrightarrow> L \<le> n \<Longrightarrow> shuffles view keeps 1 L s (InsertionSort cmp sw F L s)"
  unfolding InsertionSort_def by (rule fold_sink_shuffles) auto

lemma fat_shuffles:
  assumes "keeps (arr p)" "fat_in (Suc r) L (hifat p)" "L \<le> n" "Suc r \<le> L"
  shows "shuffles view keeps (Suc r) L (arr p) (arr (move_fat sw (Suc r) p)) \<and> fat_in r L (hifat (move_fat sw (Suc r) p))"
    and "shuffles view keeps (Suc r) L (arr p) (arr (add_fat (Suc r) p)) \<and> fat_in r L (hifat (add_fat (Suc r) p))"
  using assms shuffles_sw [OF assms(1), of "Suc r" L] shuffles_refl [of keeps "arr p" view]
  by (auto simp: move_fat_def add_fat_def fat_in_def split: option.splits)

lemma right_scan_shuffles:
  "right_scan cmp sw pivot l R p = (r, p') \<Longrightarrow> keeps (arr p) \<Longrightarrow> fat_in R L (hifat p) \<Longrightarrow> R \<le> L \<Longrightarrow> L \<le> n \<Longrightarrow>
    shuffles view keeps (Suc r) L (arr p) (arr p') \<and> fat_in r L (hifat p')"
proof (induction R arbitrary: p)
  case 0
  then show ?case by (auto intro: shuffles_refl)
next
  case (Suc R)
  let ?c = "cmp (Suc R) pivot (arr p)"
  let ?q = "if 0 < ?c then move_fat sw (Suc R) p else add_fat (Suc R) p"
  have q: "shuffles view keeps (Suc R) L (arr p) (arr ?q) \<and> fat_in R L (hifat ?q)"
    using fat_shuffles [OF Suc.prems(2) Suc.prems(3,5)] Suc.prems(4) by simp
  show ?case
  proof (cases "l \<le> Suc R \<and> 0 \<le> ?c")
    case True
    have e: "right_scan cmp sw pivot l R ?q = (r, p')" using Suc.prems(1) True by (auto simp: Let_def split: if_splits)
    have "shuffles view keeps (Suc r) L (arr ?q) (arr p') \<and> fat_in r L (hifat p')"
      by (rule Suc.IH [OF e]) (use q Suc.prems(4,5) in \<open>auto dest: shuffles_keeps\<close>)
    then show ?thesis using q right_scan_le [OF e] by (auto intro: shuffles_trans shuffles_mono)
  next
    case False
    then show ?thesis using Suc.prems by (auto simp: Let_def shuffles_refl split: if_splits)
  qed
qed

lemma part_loop_shuffles:
  "part_loop cmp sw pivot l R p = (r, p') \<Longrightarrow> keeps (arr p) \<Longrightarrow> fat_in R L (hifat p) \<Longrightarrow> R \<le> L \<Longrightarrow> L \<le> n \<Longrightarrow> 0 < l \<Longrightarrow> l \<le> R + 1 \<Longrightarrow>
    shuffles view keeps l L (arr p) (arr p') \<and> fat_in r L (hifat p')"
proof (induction "R + 1 - l" arbitrary: l R p rule: less_induct)
  case less
  show ?case
  proof (cases "l \<le> R")
    case False
    then show ?thesis using less.prems by (subst (asm) part_loop.simps) (auto intro: shuffles_refl)
  next
    case True
    obtain l1 c where l: "left_scan cmp pivot R (arr p) l 0 = (l1, c)" by fastforce
    obtain r1 p1 where r: "right_scan cmp sw pivot l1 R p = (r1, p1)" by fastforce
    have b: "l \<le> l1" "l1 \<le> R + 1" "l1 \<le> r1 + 1" "r1 \<le> R"
      using left_scan_ge [OF l] left_scan_bounds [OF l] right_scan_le [OF r] right_scan_bounds [OF r] True by auto
    have m1: "shuffles view keeps (Suc r1) L (arr p) (arr p1)" and f1: "fat_in r1 L (hifat p1)"
      using right_scan_shuffles [OF r less.prems(2-5)] by auto
    define p2 where "p2 = p1\<lparr>arr := sw l1 r1 (arr p1)\<rparr>"
    define p3 where "p3 = (if 0 < c then move_fat sw r1 p2 else add_fat r1 p2)"
    have e: "part_loop cmp sw pivot l R p = (if l1 < r1 then part_loop cmp sw pivot (l1 + 1) (r1 - 1) p3 else (r1, p1))"
      using True l r by (subst part_loop.simps) (simp add: p3_def p2_def Let_def)
    show ?thesis
    proof (cases "l1 < r1")
      case False
      then show ?thesis using e b m1 f1 less.prems(1) by (auto intro: shuffles_mono)
    next
      case lt: True
      have m2: "shuffles view keeps l L (arr p1) (arr p2)"
        unfolding p2_def using lt b less.prems shuffles_keeps [OF m1] by (auto intro!: shuffles_sw)
      have m3: "shuffles view keeps (Suc (r1 - 1)) L (arr p2) (arr p3) \<and> fat_in (r1 - 1) L (hifat p3)"
        using fat_shuffles [of p2 "r1 - 1" L] shuffles_keeps [OF m2] f1 lt b less.prems by (simp add: p3_def) (simp add: p2_def)
      have "shuffles view keeps (l1 + 1) L (arr p3) (arr p') \<and> fat_in r L (hifat p')"
        by (rule less.hyps [of "r1 - 1"]) (use e lt b less.prems m3 in \<open>auto dest: shuffles_keeps\<close>)
      moreover have "shuffles view keeps l L (arr p) (arr p3)"
        using shuffles_trans [OF shuffles_mono [OF m1] m2] shuffles_mono [OF conjunct1 [OF m3], of l L] lt b
        by (auto intro: shuffles_trans)
      ultimately show ?thesis using shuffles_mono [of view keeps "l1 + 1" L "arr p3" "arr p'" l L] b by (auto intro: shuffles_trans)
    qed
  qed
qed

lemma Partition3_shuffles:
  assumes "Partition3 cmp sw F L s = (lp, rp, s')" "keeps s" "0 < F" "F < L" "L \<le> n"
  shows "shuffles view keeps F L s s'"
proof -
  obtain pv s1 p where pv: "F \<le> pv" "pv \<le> L" and s1: "s1 = (if F \<noteq> pv then sw F pv s else s)"
    and p: "part_loop cmp sw F (F + 1) L \<lparr>arr = s1, hifat = None, fatctr = 1\<rparr> = (lp, p)"
    and s': "s' = (if F \<noteq> lp then sw F lp (arr p) else arr p)"
    by (rule Partition3_steps [OF assms(1,4)]) (rule that)
  have m1: "shuffles view keeps F L s s1" using assms pv by (auto simp: s1 intro: shuffles_sw shuffles_refl)
  have m2: "shuffles view keeps F L s1 (arr p)"
    using part_loop_shuffles [OF p, of L] assms shuffles_keeps [OF m1] by (auto simp: fat_in_def intro: shuffles_mono)
  have "shuffles view keeps F L (arr p) s'"
    using part_loop_bounds [OF p] assms shuffles_keeps [OF m2] by (auto simp: s' intro: shuffles_sw shuffles_refl)
  then show ?thesis using m1 m2 by (blast intro: shuffles_trans)
qed

lemma QuickSort_shuffles: "keeps s \<Longrightarrow> 0 < F \<Longrightarrow> L \<le> n \<Longrightarrow> shuffles view keeps 1 n s (QuickSort cmp sw F L s)"
proof (induction "L - F" arbitrary: F L s rule: less_induct)
  case less
  consider "\<not> F < L" | "F < L" "L - F < QMIN" | "F < L" "\<not> L - F < QMIN" by blast
  then show ?case
  proof cases
    case 1
    then show ?thesis using less.prems by (subst QuickSort.simps) (simp add: shuffles_refl)
  next
    case 2
    then show ?thesis
      using less.prems InsertionSort_shuffles [of s L cmp F] by (subst QuickSort.simps) (auto intro: shuffles_mono)
  next
    case 3
    obtain lp rp s1 where p: "Partition3 cmp sw F L s = (lp, rp, s1)" by (metis prod_cases3)
    note b = Partition3_bounds [OF p 3(1)]
    have m: "shuffles view keeps 1 n s s1" using Partition3_shuffles [OF p] less.prems 3 by (auto intro: shuffles_mono)
    have lo: "shuffles view keeps 1 n t (QuickSort cmp sw F (lp - 1) t)" if "keeps t" for t
      using that b 3 less.prems by (intro less.hyps) (auto simp: QMIN_def)
    have hi: "shuffles view keeps 1 n t (QuickSort cmp sw (rp + 1) L t)" if "keeps t" for t
      using that b 3 less.prems by (intro less.hyps) (auto simp: QMIN_def)
    have e: "QuickSort cmp sw F L s = (if lp - F < L - rp then QuickSort cmp sw (rp + 1) L (QuickSort cmp sw F (lp - 1) s1)
          else QuickSort cmp sw F (lp - 1) (QuickSort cmp sw (rp + 1) L s1))"
      using 3 p by (subst QuickSort.simps) simp
    show ?thesis unfolding e
      using shuffles_trans [OF m lo [OF shuffles_keeps [OF m]]] shuffles_trans [OF m hi [OF shuffles_keeps [OF m]]] lo hi
      by (simp, meson shuffles_trans shuffles_keeps)
  qed
qed

end

section \<open>A comparison that orders\<close>

text \<open>What \<^verbatim>\<open>qsort\<close> demands of the comparison: on the elements of the array it is an order, where elements may be equal.\<close>

definition consistent :: "'e set \<Rightarrow> ('e \<Rightarrow> 'e \<Rightarrow> int) \<Rightarrow> bool" where
  "consistent A C \<longleftrightarrow> (\<forall>x\<in>A. \<forall>y\<in>A. sgn (C y x) = - sgn (C x y)) \<and>
     (\<forall>x\<in>A. \<forall>y\<in>A. \<forall>z\<in>A. C x y \<le> 0 \<longrightarrow> C y z \<le> 0 \<longrightarrow> C x z \<le> 0)"

lemma sgn_opposite:
  fixes a b :: int assumes "sgn b = - sgn a"
  shows "0 \<le> b \<longleftrightarrow> a \<le> 0" "0 < b \<longleftrightarrow> a < 0" "b = 0 \<longleftrightarrow> a = 0"
  using assms by (auto simp: sgn_if split: if_splits)

lemma consistentD:
  assumes "consistent UNIV C"
  shows consistent_ge: "0 \<le> C y x \<longleftrightarrow> C x y \<le> 0" and consistent_gr: "0 < C y x \<longleftrightarrow> C x y < 0"
    and consistent_eq: "C y x = 0 \<longleftrightarrow> C x y = 0" and consistent_trans: "C x y \<le> 0 \<Longrightarrow> C y z \<le> 0 \<Longrightarrow> C x z \<le> 0"
proof -
  have s: "sgn (C y x) = - sgn (C x y)" using assms unfolding consistent_def by blast
  show "0 \<le> C y x \<longleftrightarrow> C x y \<le> 0" "0 < C y x \<longleftrightarrow> C x y < 0" "C y x = 0 \<longleftrightarrow> C x y = 0"
    by (rule sgn_opposite [OF s])+
  show "C x y \<le> 0 \<Longrightarrow> C y z \<le> 0 \<Longrightarrow> C x z \<le> 0" using assms unfolding consistent_def by blast
qed

definition sorted_seg :: "('e \<Rightarrow> 'e \<Rightarrow> int) \<Rightarrow> nat \<Rightarrow> nat \<Rightarrow> 'e list \<Rightarrow> bool" where
  "sorted_seg C lo hi xs \<longleftrightarrow> (\<forall>i j. lo \<le> i \<longrightarrow> i < j \<longrightarrow> j \<le> hi \<longrightarrow> C (el xs i) (el xs j) \<le> 0)"

text \<open>The element before a segment is not larger than those in it, if there is one: it stops the insertion sort of the segment.\<close>

definition guard :: "('e \<Rightarrow> 'e \<Rightarrow> int) \<Rightarrow> nat \<Rightarrow> nat \<Rightarrow> 'e list \<Rightarrow> bool" where
  "guard C F L xs \<longleftrightarrow> (1 < F \<longrightarrow> (\<forall>j. F \<le> j \<longrightarrow> j \<le> L \<longrightarrow> C (el xs (F - 1)) (el xs j) \<le> 0))"

text \<open>Sorted but for the element at \<open>p\<close>, which may have to go further down.\<close>

definition almost :: "('e \<Rightarrow> 'e \<Rightarrow> int) \<Rightarrow> nat \<Rightarrow> nat \<Rightarrow> nat \<Rightarrow> 'e list \<Rightarrow> bool" where
  "almost C F k p xs \<longleftrightarrow> (\<forall>i j. F \<le> i \<longrightarrow> i < j \<longrightarrow> j \<le> k \<longrightarrow> j \<noteq> p \<longrightarrow> C (el xs i) (el xs j) \<le> 0)"

lemma guard_swaps:
  assumes "guard C F L xs" "swaps F L xs ys" "1 \<le> F" "L \<le> length xs"
  shows "guard C F L ys"
  unfolding guard_def
proof (intro impI allI)
  fix j assume j: "1 < F" "F \<le> j" "j \<le> L"
  have "el ys (F - 1) = el xs (F - 1)" using swaps_outside [OF assms(2), of "F - 1"] assms j by auto
  moreover have "C (el xs (F - 1)) (el ys j) \<le> 0"
    using swaps_all [OF assms(2), of "\<lambda>x. C (el xs (F - 1)) x \<le> 0" j] assms j by (auto simp: guard_def)
  ultimately show "C (el ys (F - 1)) (el ys j) \<le> 0" by simp
qed

lemma almost_step:
  assumes "consistent UNIV C" "almost C F k p xs" "F < p" "p \<le> k" "k \<le> length xs" "1 \<le> F" "0 < C (el xs (p - 1)) (el xs p)"
  shows "almost C F k (p - 1) (swp (p - 1) p xs)"
  unfolding almost_def
proof (intro allI impI)
  fix i j assume ij: "F \<le> i" "i < j" "j \<le> k" "j \<noteq> p - 1"
  have a: "C (el xs i') (el xs j') \<le> 0" if "F \<le> i'" "i' < j'" "j' \<le> k" "j' \<noteq> p" for i' j'
    using assms(2) that by (simp add: almost_def)
  have e: "el (swp (p - 1) p xs) x = (if x = p then el xs (p - 1) else if x = p - 1 then el xs p else el xs x)" if "1 \<le> x" for x
    using assms that by (intro el_swp) auto
  have "C (el xs p) (el xs (p - 1)) \<le> 0" using assms(7) consistent_gr [OF assms(1), of "el xs (p - 1)" "el xs p"] by simp
  then show "C (el (swp (p - 1) p xs) i) (el (swp (p - 1) p xs) j) \<le> 0"
    using ij assms(3-6) e [of i] e [of j] a [of i j] a [of i "p - 1"] a [of p j] a [of "p - 1" j]
    by (auto split: if_splits)
qed

lemma almost_end:
  assumes "consistent UNIV C" "almost C F k p xs" "F \<le> p" "p \<le> k" "F < p \<Longrightarrow> C (el xs (p - 1)) (el xs p) \<le> 0"
  shows "sorted_seg C F k xs"
  unfolding sorted_seg_def
proof (intro allI impI)
  fix i j assume ij: "F \<le> i" "i < j" "j \<le> k"
  show "C (el xs i) (el xs j) \<le> 0"
  proof (cases "j = p \<and> i \<noteq> p - 1")
    case True
    then have "i < p - 1" "p - 1 \<noteq> p" "p - 1 \<le> k" using ij by auto
    then have "C (el xs i) (el xs (p - 1)) \<le> 0" using assms(2) ij unfolding almost_def by blast
    then show ?thesis using assms(5) True ij by (auto intro: consistent_trans [OF assms(1)])
  next
    case False
    then consider "j \<noteq> p" | "j = p" "i = p - 1" by blast
    then show ?thesis using assms(2,5) ij by cases (auto simp: almost_def)
  qed
qed

locale array_ops = swap_ops view n sw keeps for view :: "'s \<Rightarrow> 'e list" and n sw keeps +
  fixes cmp :: "nat \<Rightarrow> nat \<Rightarrow> 's \<Rightarrow> int" and C :: "'e \<Rightarrow> 'e \<Rightarrow> int"
  assumes cmp_view: "keeps s \<Longrightarrow> 1 \<le> i \<Longrightarrow> i \<le> n \<Longrightarrow> 1 \<le> j \<Longrightarrow> j \<le> n \<Longrightarrow> cmp i j s = C (el (view s) i) (el (view s) j)"

context array_ops
begin

lemma sink_ok:
  "consistent UNIV C \<Longrightarrow> keeps s \<Longrightarrow> almost C F k p (view s) \<Longrightarrow> guard C F k (view s) \<Longrightarrow> 1 \<le> F \<Longrightarrow> F \<le> p \<Longrightarrow> p \<le> k \<Longrightarrow> k \<le> n \<Longrightarrow>
    shuffles view keeps F k s (sink cmp sw p s) \<and> sorted_seg C F k (view (sink cmp sw p s))"
proof (induction p arbitrary: s)
  case (Suc p)
  have e: "sink cmp sw (Suc p) s = (if 1 < Suc p \<and> \<not> 0 \<ge> cmp p (Suc p) s then sink cmp sw p (sw p (Suc p) s) else s)"
    by (subst sink.simps) simp
  have c: "cmp p (Suc p) s = C (el (view s) p) (el (view s) (Suc p))" if "1 \<le> p" using that Suc.prems by (intro cmp_view) auto
  show ?case
  proof (cases "1 < Suc p \<and> \<not> 0 \<ge> cmp p (Suc p) s")
    case True
    have g: "F < Suc p" using Suc.prems(4,5,6,7) True c by (cases "F = Suc p") (auto simp: guard_def)
    have m: "shuffles view keeps F k s (sw p (Suc p) s)" using True Suc.prems g by (intro shuffles_sw) auto
    have v: "view (sw p (Suc p) s) = swp p (Suc p) (view s)" using True Suc.prems by (intro sw_view) auto
    have "almost C F k p (view (sw p (Suc p) s))"
      using almost_step [OF Suc.prems(1,3)] g Suc.prems view_len [OF Suc.prems(2)] True c by (simp add: v)
    moreover have "guard C F k (view (sw p (Suc p) s))"
      using guard_swaps [OF Suc.prems(4)] m Suc.prems view_len [OF Suc.prems(2)] by (simp add: shuffles_def)
    ultimately have "shuffles view keeps F k (sw p (Suc p) s) (sink cmp sw p (sw p (Suc p) s)) \<and>
        sorted_seg C F k (view (sink cmp sw p (sw p (Suc p) s)))"
      using Suc.prems g by (intro Suc.IH shuffles_keeps [OF m]) auto
    then show ?thesis unfolding e if_P [OF True] using shuffles_trans [OF m] by blast
  next
    case False
    have "sorted_seg C F k (view s)"
      using almost_end [OF Suc.prems(1,3,6,7)] False c Suc.prems(5) by (cases p) auto
    then show ?thesis unfolding e if_not_P [OF False] using Suc.prems(2) by (simp add: shuffles_refl)
  qed
qed simp

lemma InsertionSort_ok:
  assumes "consistent UNIV C" "keeps s" "guard C F L (view s)" "1 \<le> F" "F \<le> L" "L \<le> n"
  shows "shuffles view keeps F L s (InsertionSort cmp sw F L s) \<and> sorted_seg C F L (view (InsertionSort cmp sw F L s))"
proof -
  have "shuffles view keeps F k s (fold (sink cmp sw) [F + 1..<k + 1] s) \<and> sorted_seg C F k (view (fold (sink cmp sw) [F + 1..<k + 1] s))"
    if "F \<le> k" "k \<le> L" for k
    using that
  proof (induction k)
    case (Suc k)
    show ?case
    proof (cases "F = Suc k")
      case True
      then show ?thesis using assms(2) by (auto simp: shuffles_refl sorted_seg_def)
    next
      case False
      let ?t = "fold (sink cmp sw) [F + 1..<k + 1] s"
      have t: "shuffles view keeps F k s ?t" "sorted_seg C F k (view ?t)" using Suc False by auto
      have sw: "swaps F L (view s) (view ?t)" using t(1) Suc.prems unfolding shuffles_def by (auto intro: swaps_mono)
      have "guard C F L (view ?t)" using assms(4,6) view_len [OF assms(2)] by (intro guard_swaps [OF assms(3) sw]) auto
      then have g: "guard C F (Suc k) (view ?t)" using Suc.prems by (auto simp: guard_def)
      have "almost C F (Suc k) (Suc k) (view ?t)" using t(2) by (auto simp: almost_def sorted_seg_def)
      then have "shuffles view keeps F (Suc k) ?t (sink cmp sw (Suc k) ?t) \<and> sorted_seg C F (Suc k) (view (sink cmp sw (Suc k) ?t))"
        using Suc.prems assms g by (intro sink_ok shuffles_keeps [OF t(1)]) auto
      moreover have "[F + 1..<Suc k + 1] = [F + 1..<k + 1] @ [Suc k]" using False Suc.prems by simp
      ultimately show ?thesis using shuffles_mono [OF t(1), of F "Suc k"] by (auto intro: shuffles_trans)
    qed
  qed (use assms in simp)
  then show ?thesis using assms(5) by (simp add: InsertionSort_def)
qed

end

text \<open>The elements right of \<^verbatim>\<open>Right\<close>: the copies of the pivot, up to \<^verbatim>\<open>HiFatPvtAddr\<close>, and then the larger ones.\<close>

definition fat_ok :: "('e \<Rightarrow> 'e \<Rightarrow> int) \<Rightarrow> 'e \<Rightarrow> nat \<Rightarrow> nat \<Rightarrow> nat option \<Rightarrow> nat \<Rightarrow> 'e list \<Rightarrow> bool" where
  "fat_ok C v r L h f xs \<longleftrightarrow>
     (case h of
        None \<Rightarrow> f = 1 \<and> (\<forall>i. r < i \<longrightarrow> i \<le> L \<longrightarrow> 0 < C (el xs i) v)
      | Some k \<Rightarrow> r < k \<and> k \<le> L \<and> f = k - r + 1 \<and> (\<forall>i. r < i \<longrightarrow> i \<le> k \<longrightarrow> C (el xs i) v = 0) \<and>
          (\<forall>i. k < i \<longrightarrow> i \<le> L \<longrightarrow> 0 < C (el xs i) v))"

lemma fat_ok_in: "fat_ok C v r L h f xs \<Longrightarrow> fat_in r L h"
  by (auto simp: fat_ok_def fat_in_def split: option.splits)

lemma fat_ok_cong: "fat_ok C v r L h f xs \<Longrightarrow> (\<And>i. r < i \<Longrightarrow> i \<le> L \<Longrightarrow> el ys i = el xs i) \<Longrightarrow> fat_ok C v r L h f ys"
  by (auto simp: fat_ok_def split: option.splits)

context array_ops
begin

lemma fat_ok_move:
  assumes "keeps (arr p)" "fat_ok C v (Suc r) L (hifat p) (fatctr p) (view (arr p))" "0 < C (el (view (arr p)) (Suc r)) v"
    "Suc r \<le> L" "L \<le> n"
  shows "fat_ok C v r L (hifat (move_fat sw (Suc r) p)) (fatctr (move_fat sw (Suc r) p)) (view (arr (move_fat sw (Suc r) p)))"
proof (cases "hifat p")
  case None
  then show ?thesis using assms(2,3) by (auto simp: fat_ok_def move_fat_def) (metis Suc_lessI)
next
  case (Some k)
  have k: "Suc r < k" "k \<le> L" "fatctr p = k - Suc r + 1" "\<And>i. Suc r < i \<Longrightarrow> i \<le> k \<Longrightarrow> C (el (view (arr p)) i) v = 0"
    "\<And>i. k < i \<Longrightarrow> i \<le> L \<Longrightarrow> 0 < C (el (view (arr p)) i) v" using assms(2) Some by (auto simp: fat_ok_def)
  have e: "el (view (sw k (Suc r) (arr p))) i = (if i = Suc r then el (view (arr p)) k else if i = k then el (view (arr p)) (Suc r) else el (view (arr p)) i)"
    if "1 \<le> i" for i
    using that k assms(4,5) view_len [OF assms(1)] by (subst sw_view [OF assms(1)]) (auto simp: el_swp)
  have "C (el (view (sw k (Suc r) (arr p))) i) v = 0" if "r < i" "i \<le> k - 1" for i
    using that k(1,2) e [of i] k(4) [of i] k(4) [of k] by (cases "i = Suc r") auto
  moreover have "0 < C (el (view (sw k (Suc r) (arr p))) i) v" if "k - 1 < i" "i \<le> L" for i
    using that k(1,2) e [of i] k(5) [of i] assms(3) by (cases "i = k") auto
  ultimately show ?thesis using Some k(1-3) by (auto simp: fat_ok_def move_fat_def)
qed

lemma fat_ok_add:
  assumes "fat_ok C v (Suc r) L (hifat p) (fatctr p) (view (arr p))" "C (el (view (arr p)) (Suc r)) v = 0" "Suc r \<le> L"
  shows "fat_ok C v r L (hifat (add_fat (Suc r) p)) (fatctr (add_fat (Suc r) p)) (view (arr (add_fat (Suc r) p)))"
proof (cases "hifat p")
  case None
  have "C (el (view (arr p)) i) v = 0" if "r < i" "i \<le> Suc r" for i using that assms(2) by (simp add: le_Suc_eq)
  then show ?thesis using assms None by (auto simp: fat_ok_def add_fat_def)
next
  case (Some k)
  have "i = Suc r \<or> Suc r < i" if "r < i" for i using that by auto
  then show ?thesis using assms Some by (auto simp: fat_ok_def add_fat_def)
qed

lemma right_scan_ok:
  "right_scan cmp sw pivot l R p = (r, p') \<Longrightarrow> keeps (arr p) \<Longrightarrow> fat_ok C v R L (hifat p) (fatctr p) (view (arr p)) \<Longrightarrow>
    0 < pivot \<Longrightarrow> pivot < l \<Longrightarrow> el (view (arr p)) pivot = v \<Longrightarrow> l \<le> R + 1 \<Longrightarrow> R \<le> L \<Longrightarrow> L \<le> n \<Longrightarrow>
    fat_ok C v r L (hifat p') (fatctr p') (view (arr p')) \<and> (l \<le> r \<longrightarrow> C (el (view (arr p')) r) v < 0)"
proof (induction R arbitrary: p)
  case (Suc R)
  let ?c = "cmp (Suc R) pivot (arr p)"
  let ?q = "if 0 < ?c then move_fat sw (Suc R) p else add_fat (Suc R) p"
  have c: "?c = C (el (view (arr p)) (Suc R)) v" using Suc.prems by (subst cmp_view) auto
  show ?case
  proof (cases "l \<le> Suc R \<and> 0 \<le> ?c")
    case True
    have e: "right_scan cmp sw pivot l R ?q = (r, p')" using Suc.prems(1) True by (auto simp: Let_def split: if_splits)
    have q: "shuffles view keeps (Suc R) L (arr p) (arr ?q)"
      using fat_shuffles [OF Suc.prems(2) fat_ok_in [OF Suc.prems(3)] Suc.prems(9,8)] by simp
    have "fat_ok C v R L (hifat ?q) (fatctr ?q) (view (arr ?q))"
      using fat_ok_move [OF Suc.prems(2,3)] fat_ok_add [OF Suc.prems(3)] Suc.prems(8,9) c True by auto
    moreover have "el (view (arr ?q)) pivot = v"
      using swaps_outside [of "Suc R" L "view (arr p)" "view (arr ?q)" pivot] q Suc.prems True view_len [OF Suc.prems(2)]
      unfolding shuffles_def by auto
    ultimately show ?thesis using Suc.prems True by (intro Suc.IH [OF e shuffles_keeps [OF q]]) auto
  next
    case False
    then show ?thesis using Suc.prems c by (auto simp: Let_def split: if_splits)
  qed
qed simp

lemma left_scan_ok:
  "left_scan cmp pivot R s l c = (l', c') \<Longrightarrow> keeps s \<Longrightarrow> 0 < pivot \<Longrightarrow> pivot < l \<Longrightarrow> R \<le> n \<Longrightarrow>
    (\<forall>i. l \<le> i \<longrightarrow> i < l' \<longrightarrow> C (el (view s) i) (el (view s) pivot) < 0) \<and>
    (l' \<le> R \<longrightarrow> 0 \<le> c' \<and> c' = C (el (view s) l') (el (view s) pivot))"
proof (induction "R + 1 - l" arbitrary: l c rule: less_induct)
  case less
  have e: "left_scan cmp pivot R s l c = (if l \<le> R then if 0 \<le> cmp l pivot s then (l, cmp l pivot s)
      else left_scan cmp pivot R s (l + 1) (cmp l pivot s) else (l, c))"
    by (subst left_scan.simps) (simp add: Let_def)
  show ?case
  proof (cases "l \<le> R \<and> \<not> 0 \<le> cmp l pivot s")
    case True
    have c: "cmp l pivot s = C (el (view s) l) (el (view s) pivot)" using True less.prems by (intro cmp_view) auto
    have "(\<forall>i. l + 1 \<le> i \<longrightarrow> i < l' \<longrightarrow> C (el (view s) i) (el (view s) pivot) < 0) \<and>
        (l' \<le> R \<longrightarrow> 0 \<le> c' \<and> c' = C (el (view s) l') (el (view s) pivot))"
      using True less.prems e by (intro less.hyps [of "l + 1" "cmp l pivot s"]) auto
    moreover have "C (el (view s) i) (el (view s) pivot) < 0" if "l \<le> i" "\<not> l + 1 \<le> i" for i
      using that True c by (cases "i = l") auto
    ultimately show ?thesis by blast
  next
    case False
    then show ?thesis using less.prems e cmp_view [of s l pivot] by (auto split: if_splits)
  qed
qed

lemma shuffles_el: "shuffles view keeps lo hi s t \<Longrightarrow> keeps s \<Longrightarrow> 1 \<le> lo \<Longrightarrow> hi \<le> n \<Longrightarrow> 1 \<le> k \<Longrightarrow> k < lo \<or> hi < k \<Longrightarrow> el (view t) k = el (view s) k"
  unfolding shuffles_def using view_len [of s] by (auto intro: swaps_outside)

lemma part_swap_ok:
  assumes "keeps (arr p)" "fat_ok C v r L (hifat p) (fatctr p) (view (arr p))" "0 < l" "l < r" "r \<le> L" "L \<le> n"
    "0 \<le> c" "c = C (el (view (arr p)) l) v"
    and q: "q = (if 0 < c then move_fat sw r (p\<lparr>arr := sw l r (arr p)\<rparr>) else add_fat r (p\<lparr>arr := sw l r (arr p)\<rparr>))"
  shows "fat_ok C v (r - 1) L (hifat q) (fatctr q) (view (arr q))" "el (view (arr q)) l = el (view (arr p)) r"
    "keeps (arr q)" "\<And>i. 1 \<le> i \<Longrightarrow> i < r \<Longrightarrow> i \<noteq> l \<Longrightarrow> el (view (arr q)) i = el (view (arr p)) i"
proof -
  define p2 where "p2 = p\<lparr>arr := sw l r (arr p)\<rparr>"
  have r: "r = Suc (r - 1)" using assms(4) by simp
  have e: "el (view (arr p2)) i = (if i = r then el (view (arr p)) l else if i = l then el (view (arr p)) r else el (view (arr p)) i)"
    if "1 \<le> i" for i
    using that assms(3-6) view_len [OF assms(1)] by (simp add: p2_def sw_view [OF assms(1)] el_swp)
  have k2: "keeps (arr p2)" using assms by (auto simp: p2_def intro: sw_keeps)
  have "fat_ok C v r L (hifat p) (fatctr p) (view (arr p2))"
    by (rule fat_ok_cong [OF assms(2)]) (use assms(3,4) in \<open>simp add: e\<close>)
  then have f2: "fat_ok C v (Suc (r - 1)) L (hifat p2) (fatctr p2) (view (arr p2))" using r by (simp add: p2_def)
  have x: "C (el (view (arr p2)) (Suc (r - 1))) v = c" using e [of r] assms(4,8) r by simp
  have L: "Suc (r - 1) \<le> L" using assms(5) r by simp
  have q': "q = (if 0 < c then move_fat sw (Suc (r - 1)) p2 else add_fat (Suc (r - 1)) p2)" using q r by (simp add: p2_def)
  have m: "shuffles view keeps r L (arr p2) (arr q)"
    using fat_shuffles [OF k2 fat_ok_in [OF f2] assms(6) L] r by (simp add: q')
  show "fat_ok C v (r - 1) L (hifat q) (fatctr q) (view (arr q))"
    using fat_ok_move [OF k2 f2] fat_ok_add [OF f2] x L assms(6,7) by (simp add: q')
  show "keeps (arr q)" by (rule shuffles_keeps [OF m])
  show "el (view (arr q)) l = el (view (arr p)) r" using shuffles_el [OF m k2, of l] e [of l] assms(3-6) by simp
  show "el (view (arr q)) i = el (view (arr p)) i" if "1 \<le> i" "i < r" "i \<noteq> l" for i
    using shuffles_el [OF m k2, of i] e [of i] that assms(3-6) by simp
qed

lemma part_loop_ok:
  "part_loop cmp sw F l R p = (r, p') \<Longrightarrow> keeps (arr p) \<Longrightarrow> fat_ok C v R L (hifat p) (fatctr p) (view (arr p)) \<Longrightarrow>
    0 < F \<Longrightarrow> F < l \<Longrightarrow> el (view (arr p)) F = v \<Longrightarrow> (\<And>i. F < i \<Longrightarrow> i < l \<Longrightarrow> C (el (view (arr p)) i) v < 0) \<Longrightarrow>
    l \<le> R + 1 \<Longrightarrow> R \<le> L \<Longrightarrow> L \<le> n \<Longrightarrow>
    fat_ok C v r L (hifat p') (fatctr p') (view (arr p')) \<and> (\<forall>i. F < i \<longrightarrow> i \<le> r \<longrightarrow> C (el (view (arr p')) i) v < 0)"
proof (induction "R + 1 - l" arbitrary: l R p rule: less_induct)
  case less
  show ?case
  proof (cases "l \<le> R")
    case False
    then show ?thesis using less.prems by (subst (asm) part_loop.simps) auto
  next
    case True
    obtain l1 c where l: "left_scan cmp F R (arr p) l 0 = (l1, c)" by fastforce
    obtain r1 p1 where r: "right_scan cmp sw F l1 R p = (r1, p1)" by fastforce
    have b: "l \<le> l1" "l1 \<le> R + 1" "l1 \<le> r1 + 1" "r1 \<le> R"
      using left_scan_ge [OF l] left_scan_bounds [OF l] right_scan_le [OF r] right_scan_bounds [OF r] True by auto
    have l1: "\<forall>i. l \<le> i \<longrightarrow> i < l1 \<longrightarrow> C (el (view (arr p)) i) v < 0" "l1 \<le> R \<Longrightarrow> 0 \<le> c \<and> c = C (el (view (arr p)) l1) v"
      using left_scan_ok [OF l] less.prems by auto
    have m1: "shuffles view keeps (Suc r1) L (arr p) (arr p1)"
      using right_scan_shuffles [OF r less.prems(2) fat_ok_in [OF less.prems(3)]] less.prems by auto
    have u1: "el (view (arr p1)) i = el (view (arr p)) i" if "1 \<le> i" "i \<le> r1" for i
      using that less.prems by (intro shuffles_el [OF m1]) auto
    have f1: "fat_ok C v r1 L (hifat p1) (fatctr p1) (view (arr p1))" "l1 \<le> r1 \<longrightarrow> C (el (view (arr p1)) r1) v < 0"
      using right_scan_ok [OF r less.prems(2,3)] less.prems b by auto
    have lo: "C (el (view (arr p1)) i) v < 0" if "F < i" "i < l1" "i \<le> r1" for i
      using that u1 [of i] l1(1) less.prems(7) [of i] by (cases "i < l") auto
    define p3 where "p3 = (if 0 < c then move_fat sw r1 (p1\<lparr>arr := sw l1 r1 (arr p1)\<rparr>) else add_fat r1 (p1\<lparr>arr := sw l1 r1 (arr p1)\<rparr>))"
    have e: "part_loop cmp sw F l R p = (if l1 < r1 then part_loop cmp sw F (l1 + 1) (r1 - 1) p3 else (r1, p1))"
      using True l r by (subst part_loop.simps) (simp add: p3_def Let_def)
    show ?thesis
    proof (cases "l1 < r1")
      case False
      have "C (el (view (arr p1)) i) v < 0" if "F < i" "i \<le> r1" for i
        using that lo [of i] f1(2) False by (cases "i = r1") (auto simp: not_less)
      then show ?thesis using e False f1(1) less.prems(1) by auto
    next
      case lt: True
      have "l1 \<le> R" using lt b by simp
      then have c: "0 \<le> c" "c = C (el (view (arr p1)) l1) v" using l1(2) u1 [of l1] lt b less.prems(5) by auto
      have ln: "0 < l1" "r1 \<le> L" using b less.prems by auto
      note s = part_swap_ok [OF shuffles_keeps [OF m1] f1(1) ln(1) lt ln(2) less.prems(10) c p3_def]
      have lo3: "C (el (view (arr p3)) i) v < 0" if "F < i" "i < l1 + 1" for i
        using that s(2) s(4) [of i] lo [of i] f1(2) lt by (cases "i = l1") auto
      have v3: "el (view (arr p3)) F = v" using s(4) [of F] u1 [of F] lt b less.prems(4-6) by auto
      show ?thesis
        by (rule less.hyps [of "r1 - 1" "l1 + 1" p3]) (use e lt b s(1,3) lo3 v3 less.prems in auto)
    qed
  qed
qed

end

text \<open>The three segments that \<^verbatim>\<open>Partition3\<close> promises.\<close>

definition split3 :: "('e \<Rightarrow> 'e \<Rightarrow> int) \<Rightarrow> nat \<Rightarrow> nat \<Rightarrow> nat \<Rightarrow> nat \<Rightarrow> 'e \<Rightarrow> 'e list \<Rightarrow> bool" where
  "split3 C F lp rp L v xs \<longleftrightarrow> (\<forall>i. F \<le> i \<longrightarrow> i < lp \<longrightarrow> C (el xs i) v < 0) \<and>
     (\<forall>i. lp \<le> i \<longrightarrow> i \<le> rp \<longrightarrow> C (el xs i) v = 0) \<and> (\<forall>i. rp < i \<longrightarrow> i \<le> L \<longrightarrow> 0 < C (el xs i) v)"

lemma split3_swaps:
  assumes "split3 C F lp rp L v xs" "1 \<le> F" "F \<le> lp" "lp \<le> rp" "rp \<le> L" "L \<le> length xs"
    "swaps F (lp - 1) xs ys \<or> swaps (rp + 1) L xs ys"
  shows "split3 C F lp rp L v ys"
  using assms(7)
proof
  assume s: "swaps F (lp - 1) xs ys"
  have "C (el ys i) v < 0" if "F \<le> i" "i < lp" for i
    using assms that by (intro swaps_all [OF s, of "\<lambda>x. C x v < 0"]) (auto simp: split3_def)
  moreover have "el ys i = el xs i" if "lp \<le> i" for i using assms that by (intro swaps_outside [OF s]) auto
  ultimately show ?thesis using assms(1,4) by (auto simp: split3_def)
next
  assume s: "swaps (rp + 1) L xs ys"
  have "0 < C (el ys i) v" if "rp < i" "i \<le> L" for i
    using assms that by (intro swaps_all [OF s, of "\<lambda>x. 0 < C x v"]) (auto simp: split3_def)
  moreover have "el ys i = el xs i" if "F \<le> i" "i \<le> rp" for i using assms that by (intro swaps_outside [OF s]) auto
  ultimately show ?thesis using assms(1,3,4) by (auto simp: split3_def)
qed

lemma split3_sorted:
  assumes "consistent UNIV C" "split3 C F lp rp L v xs" "sorted_seg C F (lp - 1) xs" "sorted_seg C (rp + 1) L xs" "F \<le> lp" "lp \<le> rp"
  shows "sorted_seg C F L xs"
  unfolding sorted_seg_def
proof (intro allI impI)
  fix i j assume ij: "F \<le> i" "i < j" "j \<le> L"
  consider "j < lp" | "rp < i" | "i \<le> rp" "lp \<le> j" by linarith
  then show "C (el xs i) (el xs j) \<le> 0"
  proof cases
    case 1
    then show ?thesis using assms(3) ij by (simp add: sorted_seg_def)
  next
    case 2
    then show ?thesis using assms(4) ij by (simp add: sorted_seg_def)
  next
    case 3
    have "C (el xs i) v \<le> 0" using assms(2) ij 3 by (cases "i < lp") (auto simp: split3_def intro: less_imp_le)
    moreover have "0 \<le> C (el xs j) v" using assms(2) ij 3 by (cases "j \<le> rp") (auto simp: split3_def intro: less_imp_le)
    then have "C v (el xs j) \<le> 0" using consistent_ge [OF assms(1)] by simp
    ultimately show ?thesis by (rule consistent_trans [OF assms(1)])
  qed
qed

lemma split3_guard:
  assumes "consistent UNIV C" "split3 C F lp rp L v xs" "lp \<le> rp"
  shows "guard C (rp + 1) L xs"
  unfolding guard_def
proof (intro impI allI)
  fix j assume j: "rp + 1 \<le> j" "j \<le> L"
  have "C (el xs rp) v \<le> 0" using assms(2,3) by (simp add: split3_def)
  moreover have "C v (el xs j) \<le> 0"
    using assms(2) j consistent_ge [OF assms(1), of "el xs j" v] by (auto simp: split3_def intro: less_imp_le)
  ultimately show "C (el xs (rp + 1 - 1)) (el xs j) \<le> 0" using consistent_trans [OF assms(1)] by simp
qed

lemma sorted_seg_outside:
  "sorted_seg C a b xs \<Longrightarrow> swaps lo hi xs ys \<Longrightarrow> 1 \<le> lo \<Longrightarrow> hi \<le> length xs \<Longrightarrow> 1 \<le> a \<Longrightarrow> b < lo \<or> hi < a \<Longrightarrow> sorted_seg C a b ys"
  unfolding sorted_seg_def by (auto simp: swaps_outside)

context array_ops
begin

lemma Partition3_ok:
  assumes "consistent UNIV C" "Partition3 cmp sw F L s = (lp, rp, s')" "keeps s" "0 < F" "F < L" "L \<le> n"
  shows "\<exists>v. split3 C F lp rp L v (view s')"
proof -
  obtain pv s1 p where pv: "F \<le> pv" "pv \<le> L" and s1: "s1 = (if F \<noteq> pv then sw F pv s else s)"
    and p: "part_loop cmp sw F (F + 1) L \<lparr>arr = s1, hifat = None, fatctr = 1\<rparr> = (lp, p)" and rp: "rp = lp + (fatctr p - 1)"
    and s': "s' = (if F \<noteq> lp then sw F lp (arr p) else arr p)"
    by (rule Partition3_steps [OF assms(2,5)]) (rule that)
  define v where "v = el (view s1) F"
  have k1: "keeps s1" using pv assms by (auto simp: s1 intro: sw_keeps)
  have m: "shuffles view keeps (F + 1) L s1 (arr p)"
    using part_loop_shuffles [OF p, of L] k1 assms by (auto simp: fat_in_def)
  have b: "F \<le> lp" "lp \<le> L" using part_loop_bounds [OF p] assms by auto
  have f: "fat_ok C v lp L (hifat p) (fatctr p) (view (arr p))" "\<forall>i. F < i \<longrightarrow> i \<le> lp \<longrightarrow> C (el (view (arr p)) i) v < 0"
    using part_loop_ok [OF p, of v L] k1 assms by (auto simp: v_def fat_ok_def)
  have vF: "el (view (arr p)) F = v" using shuffles_el [OF m k1, of F] assms(4,6) by (simp add: v_def)
  have e: "el (view s') i = (if i = lp then v else if i = F then el (view (arr p)) lp else el (view (arr p)) i)" if "1 \<le> i" for i
    using that b assms(4,6) vF view_len [OF shuffles_keeps [OF m]] by (auto simp: s' sw_view [OF shuffles_keeps [OF m]] el_swp)
  have vv: "C v v = 0" using consistent_ge [OF assms(1), of v v] consistent_gr [OF assms(1), of v v] by linarith
  have fat: "(\<forall>i. lp < i \<longrightarrow> i \<le> rp \<longrightarrow> C (el (view (arr p)) i) v = 0) \<and> (\<forall>i. rp < i \<longrightarrow> i \<le> L \<longrightarrow> 0 < C (el (view (arr p)) i) v)"
    using f(1) by (auto simp: fat_ok_def rp split: option.splits)
  have "split3 C F lp rp L v (view s')"
    unfolding split3_def
  proof (intro conjI allI impI)
    fix i
    show "C (el (view s') i) v < 0" if "F \<le> i" "i < lp" using that e [of i] f(2) assms(4) by auto
    show "C (el (view s') i) v = 0" if "lp \<le> i" "i \<le> rp" using that e [of i] b fat vv assms(4) by auto
    show "0 < C (el (view s') i) v" if "rp < i" "i \<le> L" using that e [of i] b fat assms(4) by (auto simp: rp)
  qed
  then show ?thesis by blast
qed

text \<open>The two outer segments may be sorted in either order.\<close>

lemma halves_ok:
  assumes C: "consistent UNIV C" and b: "0 < F" "F \<le> lp" "lp \<le> rp" "rp \<le> L" "L \<le> n"
    and s: "keeps s" "split3 C F lp rp L v (view s)" "guard C F L (view s)"
    and lo: "\<And>t. keeps t \<Longrightarrow> guard C F (lp - 1) (view t) \<Longrightarrow> shuffles view keeps F (lp - 1) t (lo t) \<and> sorted_seg C F (lp - 1) (view (lo t))"
    and hi: "\<And>t. keeps t \<Longrightarrow> guard C (rp + 1) L (view t) \<Longrightarrow> shuffles view keeps (rp + 1) L t (hi t) \<and> sorted_seg C (rp + 1) L (view (hi t))"
  shows "shuffles view keeps F L s (hi (lo s)) \<and> sorted_seg C F L (view (hi (lo s)))"
    and "shuffles view keeps F L s (lo (hi s)) \<and> sorted_seg C F L (view (lo (hi s)))"
proof -
  have lo': "shuffles view keeps F (lp - 1) t (lo t) \<and> sorted_seg C F (lp - 1) (view (lo t)) \<and> split3 C F lp rp L v (view (lo t)) \<and> shuffles view keeps F L t (lo t)"
    if t: "keeps t" "split3 C F lp rp L v (view t)" "guard C F L (view t)" for t
  proof -
    have "guard C F (lp - 1) (view t)" using t(3) b by (auto simp: guard_def)
    note l = lo [OF t(1) this]
    moreover have "shuffles view keeps F L t (lo t)" using l b by (auto intro: shuffles_mono)
    ultimately show ?thesis using split3_swaps [OF t(2), of "view (lo t)"] b view_len [OF t(1)] by (simp add: shuffles_def)
  qed
  have hi': "shuffles view keeps (rp + 1) L t (hi t) \<and> sorted_seg C (rp + 1) L (view (hi t)) \<and> split3 C F lp rp L v (view (hi t)) \<and> shuffles view keeps F L t (hi t)"
    if t: "keeps t" "split3 C F lp rp L v (view t)" for t
  proof -
    note h = hi [OF t(1) split3_guard [OF C t(2) b(3)]]
    moreover have "shuffles view keeps F L t (hi t)" using h b by (auto intro: shuffles_mono)
    ultimately show ?thesis using split3_swaps [OF t(2), of "view (hi t)"] b view_len [OF t(1)] by (simp add: shuffles_def)
  qed
  show "shuffles view keeps F L s (hi (lo s)) \<and> sorted_seg C F L (view (hi (lo s)))"
  proof -
    note a = lo' [OF s]
    have k: "keeps (lo s)" using a by (blast intro: shuffles_keeps)
    have c: "shuffles view keeps (rp + 1) L (lo s) (hi (lo s)) \<and> sorted_seg C (rp + 1) L (view (hi (lo s))) \<and>
        split3 C F lp rp L v (view (hi (lo s))) \<and> shuffles view keeps F L (lo s) (hi (lo s))" using hi' [OF k] a by blast
    have "sorted_seg C F (lp - 1) (view (hi (lo s)))"
      using a c b view_len [OF k] sorted_seg_outside [of C F "lp - 1" "view (lo s)" "rp + 1" L "view (hi (lo s))"]
      by (auto simp: shuffles_def)
    then show ?thesis using a c b split3_sorted [OF C] by (blast intro: shuffles_trans)
  qed
  show "shuffles view keeps F L s (lo (hi s)) \<and> sorted_seg C F L (view (lo (hi s)))"
  proof -
    note a = hi' [OF s(1,2)]
    have k: "keeps (hi s)" using a by (blast intro: shuffles_keeps)
    have "guard C F L (view (hi s))" using guard_swaps [OF s(3)] a b view_len [OF s(1)] by (simp add: shuffles_def)
    then have c: "shuffles view keeps F (lp - 1) (hi s) (lo (hi s)) \<and> sorted_seg C F (lp - 1) (view (lo (hi s))) \<and>
        split3 C F lp rp L v (view (lo (hi s))) \<and> shuffles view keeps F L (hi s) (lo (hi s))" using lo' [OF k] a by blast
    have "sorted_seg C (rp + 1) L (view (lo (hi s)))"
      using a c b view_len [OF k] sorted_seg_outside [of C "rp + 1" L "view (hi s)" F "lp - 1" "view (lo (hi s))"]
      by (auto simp: shuffles_def)
    then show ?thesis using a c b split3_sorted [OF C] by (blast intro: shuffles_trans)
  qed
qed

lemma QuickSort_ok:
  "consistent UNIV C \<Longrightarrow> keeps s \<Longrightarrow> guard C F L (view s) \<Longrightarrow> 0 < F \<Longrightarrow> L \<le> n \<Longrightarrow>
    shuffles view keeps F L s (QuickSort cmp sw F L s) \<and> sorted_seg C F L (view (QuickSort cmp sw F L s))"
proof (induction "L - F" arbitrary: F L s rule: less_induct)
  case less
  consider "\<not> F < L" | "F < L" "L - F < QMIN" | "F < L" "\<not> L - F < QMIN" by blast
  then show ?case
  proof cases
    case 1
    then show ?thesis using less.prems by (subst QuickSort.simps, subst QuickSort.simps) (auto simp: shuffles_refl sorted_seg_def)
  next
    case 2
    then show ?thesis
      using less.prems InsertionSort_ok [of s F L] by (subst QuickSort.simps, subst QuickSort.simps) simp
  next
    case 3
    obtain lp rp s1 where p: "Partition3 cmp sw F L s = (lp, rp, s1)" by (metis prod_cases3)
    note b = Partition3_bounds [OF p 3(1)]
    have m: "shuffles view keeps F L s s1" using Partition3_shuffles [OF p] less.prems 3 by auto
    obtain v where v: "split3 C F lp rp L v (view s1)" using Partition3_ok [OF less.prems(1) p] less.prems 3 by blast
    have g: "guard C F L (view s1)"
      using guard_swaps [OF less.prems(3)] m less.prems view_len [OF less.prems(2)] by (simp add: shuffles_def)
    define lo where "lo = QuickSort cmp sw F (lp - 1)"
    define hi where "hi = QuickSort cmp sw (rp + 1) L"
    have lo: "shuffles view keeps F (lp - 1) t (lo t) \<and> sorted_seg C F (lp - 1) (view (lo t))" if "keeps t" "guard C F (lp - 1) (view t)" for t
      unfolding lo_def using that b 3 less.prems by (intro less.hyps) (auto simp: QMIN_def)
    have hi: "shuffles view keeps (rp + 1) L t (hi t) \<and> sorted_seg C (rp + 1) L (view (hi t))" if "keeps t" "guard C (rp + 1) L (view t)" for t
      unfolding hi_def using that b 3 less.prems by (intro less.hyps) (auto simp: QMIN_def)
    have e: "QuickSort cmp sw F L s = (if lp - F < L - rp then hi (lo s1) else lo (hi s1))"
      using 3 p by (subst QuickSort.simps) (simp add: lo_def hi_def)
    note h = halves_ok [OF less.prems(1,4) b less.prems(5) shuffles_keeps [OF m] v g lo hi]
    show ?thesis unfolding e using h shuffles_trans [OF m] by simp
  qed
qed

end

section \<open>The array in memory\<close>

definition elems :: "nat \<Rightarrow> nat \<Rightarrow> nat \<Rightarrow> (nat \<Rightarrow> byte) \<Rightarrow> byte list list" where
  "elems Base Num Width m = map (\<lambda>i. load Width (BASE Base Width i) m) [1..<Num + 1]"

definition unchanged_outside :: "nat \<Rightarrow> nat \<Rightarrow> (nat \<Rightarrow> byte) \<Rightarrow> (nat \<Rightarrow> byte) \<Rightarrow> bool" where
  "unchanged_outside Base k m m' \<longleftrightarrow> (\<forall>a. a < Base \<or> Base + k \<le> a \<longrightarrow> m' a = m a)"

lemma xfer_at:
  "p = q \<or> p + k \<le> q \<or> q + k \<le> p \<Longrightarrow>
    xfer k p q m a = (if p \<le> a \<and> a < p + k then m (q + (a - p)) else if q \<le> a \<and> a < q + k then m (p + (a - q)) else m a)"
  by (auto simp: xfer_def store_def load_def Let_def)

lemma swap_loop_xfer: "p = q \<or> p + x \<le> q \<or> q + x \<le> p \<Longrightarrow> swap_loop x p q m = xfer x p q m"
proof (induction x arbitrary: p q m rule: less_induct)
  case (less x)
  define c where "c = (if x < MAX_SWAP then x else MAX_SWAP)"
  show ?case
  proof (cases "x = 0")
    case True
    then show ?thesis using less.prems by (intro ext, subst swap_loop.simps) (auto simp: xfer_at)
  next
    case False
    have c: "0 < c" "c \<le> x" using False by (auto simp: c_def MAX_SWAP_def)
    have "swap_loop x p q m = swap_loop (x - c) (p + c) (q + c) (xfer c p q m)"
      using False by (subst swap_loop.simps) (simp add: c_def)
    also have "\<dots> = xfer (x - c) (p + c) (q + c) (xfer c p q m)" using c less.prems by (intro less.IH) auto
    also have "\<dots> = xfer x p q m"
    proof
      fix a
      have d: "p + c = q + c \<or> p + c + (x - c) \<le> q + c \<or> q + c + (x - c) \<le> p + c" "p = q \<or> p + c \<le> q \<or> q + c \<le> p"
        using c less.prems by auto
      show "xfer (x - c) (p + c) (q + c) (xfer c p q m) a = xfer x p q m a"
      proof -
        consider "p = q" | "p + x \<le> q" | "q + x \<le> p" using less.prems by blast
        then show ?thesis
          unfolding xfer_at [OF d(1)] xfer_at [OF less.prems] xfer_at [OF d(2)]
          using c by cases (simp_all add: not_le not_less, auto)
      qed
    qed
    finally show ?thesis .
  qed
qed

lemma load_xfer:
  assumes "p = q \<or> p + k \<le> q \<or> q + k \<le> p" "r = p \<or> p + k \<le> r \<or> r + k \<le> p" "r = q \<or> r + k \<le> q \<or> q + k \<le> r"
  shows "load k r (xfer k p q m) = (if r = q then load k p m else if r = p then load k q m else load k r m)"
proof (rule nth_equalityI)
  fix i assume i: "i < length (load k r (xfer k p q m))"
  then have "i < k" by (simp add: load_def)
  then show "load k r (xfer k p q m) ! i = (if r = q then load k p m else if r = p then load k q m else load k r m) ! i"
    using assms by (auto simp: load_def xfer_at [OF assms(1)])
qed (simp add: load_def)

lemma BASE_apart: "1 \<le> i \<Longrightarrow> 1 \<le> j \<Longrightarrow> i < j \<Longrightarrow> BASE Base w i + w \<le> BASE Base w j"
proof -
  assume "1 \<le> i" "1 \<le> j" "i < j"
  then have "(i - 1 + 1) * w \<le> (j - 1) * w" by (intro mult_le_mono1) auto
  then show ?thesis by (simp add: BASE_def)
qed

lemma BASE_cases: "1 \<le> i \<Longrightarrow> 1 \<le> j \<Longrightarrow> i = j \<or> BASE B w i + w \<le> BASE B w j \<or> BASE B w j + w \<le> BASE B w i"
  using BASE_apart [of i j B w] BASE_apart [of j i B w] by (cases i j rule: linorder_cases) auto

lemma BASE_end: "1 \<le> i \<Longrightarrow> i \<le> n \<Longrightarrow> Base \<le> BASE Base w i \<and> BASE Base w i + w \<le> Base + n * w"
proof -
  assume "1 \<le> i" "i \<le> n"
  then have "(i - 1 + 1) * w \<le> n * w" by (intro mult_le_mono1) auto
  then show ?thesis by (simp add: BASE_def)
qed

lemma SWAP_xfer: "1 \<le> i \<Longrightarrow> 1 \<le> j \<Longrightarrow> SWAP Base w i j m = xfer w (BASE Base w i) (BASE Base w j) m"
  using BASE_cases [of i j Base w] swap_loop_xfer [of "BASE Base w i" "BASE Base w j" w m] by (auto simp: SWAP_def Swap_def)

lemma el_elems: "1 \<le> i \<Longrightarrow> i \<le> n \<Longrightarrow> el (elems Base n w m) i = load w (BASE Base w i) m"
  using nth_upt [of 1 "i - 1" "Suc n"] by (simp add: el_def elems_def del: upt_Suc)

lemma length_elems [simp]: "length (elems Base n w m) = n"
  by (simp add: elems_def)

lemma list_eq_el: "length xs = n \<Longrightarrow> length ys = n \<Longrightarrow> (\<And>i. 1 \<le> i \<Longrightarrow> i \<le> n \<Longrightarrow> el xs i = el ys i) \<Longrightarrow> xs = ys"
proof (rule nth_equalityI)
  fix i assume a: "length xs = n" "\<And>i. 1 \<le> i \<Longrightarrow> i \<le> n \<Longrightarrow> el xs i = el ys i" "i < length xs"
  show "xs ! i = ys ! i" using a(2) [of "i + 1"] a(1,3) by (simp add: el_def)
qed simp

lemma elems_SWAP:
  assumes "1 \<le> i" "i \<le> n" "1 \<le> j" "j \<le> n"
  shows "elems Base n w (SWAP Base w i j m) = swp i j (elems Base n w m)"
proof (rule list_eq_el [of _ n])
  fix k assume k: "1 \<le> k" "k \<le> n"
  have e: "load w (BASE Base w k) (SWAP Base w i j m) =
      (if BASE Base w k = BASE Base w j then load w (BASE Base w i) m
       else if BASE Base w k = BASE Base w i then load w (BASE Base w j) m else load w (BASE Base w k) m)"
    unfolding SWAP_xfer [OF assms(1,3)]
  proof (rule load_xfer)
    show "BASE Base w i = BASE Base w j \<or> BASE Base w i + w \<le> BASE Base w j \<or> BASE Base w j + w \<le> BASE Base w i"
      using BASE_cases [OF assms(1,3), of Base w] by blast
    show "BASE Base w k = BASE Base w i \<or> BASE Base w i + w \<le> BASE Base w k \<or> BASE Base w k + w \<le> BASE Base w i"
      using BASE_cases [OF k(1) assms(1), of Base w] by blast
    show "BASE Base w k = BASE Base w j \<or> BASE Base w k + w \<le> BASE Base w j \<or> BASE Base w j + w \<le> BASE Base w k"
      using BASE_cases [OF k(1) assms(3), of Base w] by blast
  qed
  show "el (elems Base n w (SWAP Base w i j m)) k = el (swp i j (elems Base n w m)) k"
  proof (cases "w = 0")
    case True
    then show ?thesis using assms k by (simp add: el_swp el_elems load_def)
  next
    case False
    then have "BASE Base w a = BASE Base w b \<longleftrightarrow> a = b" if "1 \<le> a" "1 \<le> b" for a b
      using BASE_cases [OF that, of Base w] by auto
    then show ?thesis using assms k e by (simp add: el_swp el_elems)
  qed
qed simp_all

lemma SWAP_outside: "1 \<le> i \<Longrightarrow> i \<le> n \<Longrightarrow> 1 \<le> j \<Longrightarrow> j \<le> n \<Longrightarrow> unchanged_outside Base (n * w) m (SWAP Base w i j m)"
  using BASE_end [of i n Base w] BASE_end [of j n Base w] BASE_cases [of i j Base w]
  by (auto simp: SWAP_xfer unchanged_outside_def xfer_at)

text \<open>Outside the elements of the array the order may be extended at will.\<close>

definition within :: "'e \<Rightarrow> 'e set \<Rightarrow> ('e \<Rightarrow> 'e \<Rightarrow> int) \<Rightarrow> 'e \<Rightarrow> 'e \<Rightarrow> int" where
  "within d A C x y = C (if x \<in> A then x else d) (if y \<in> A then y else d)"

lemma consistent_within:
  assumes "consistent A C" "d \<in> A"
  shows "consistent UNIV (within d A C)"
proof -
  define f where "f x = (if x \<in> A then x else d)" for x
  have f: "f x \<in> A" for x using assms(2) by (simp add: f_def)
  have w: "within d A C x y = C (f x) (f y)" for x y by (simp add: within_def f_def)
  have "sgn (C (f y) (f x)) = - sgn (C (f x) (f y))" for x y
    using assms(1) f unfolding consistent_def by blast
  moreover have "C (f x) (f y) \<le> 0 \<longrightarrow> C (f y) (f z) \<le> 0 \<longrightarrow> C (f x) (f z) \<le> 0" for x y z
    using assms(1) f unfolding consistent_def by blast
  ultimately show ?thesis unfolding consistent_def w by blast
qed

definition same_array :: "nat \<Rightarrow> nat \<Rightarrow> nat \<Rightarrow> (nat \<Rightarrow> byte) \<Rightarrow> (nat \<Rightarrow> byte) \<Rightarrow> bool" where
  "same_array Base Num Width m m' \<longleftrightarrow>
     unchanged_outside Base (Num * Width) m m' \<and> mset (elems Base Num Width m') = mset (elems Base Num Width m)"

lemma same_array_SWAP:
  "same_array B n w m m' \<Longrightarrow> 1 \<le> i \<Longrightarrow> i \<le> n \<Longrightarrow> 1 \<le> j \<Longrightarrow> j \<le> n \<Longrightarrow> same_array B n w m (SWAP B w i j m')"
  using SWAP_outside [of i n j B w m'] by (auto simp: same_array_def elems_SWAP mset_swp unchanged_outside_def)

interpretation array_mem: swap_ops "elems Base Num Width" Num "SWAP Base Width" "same_array Base Num Width m"
  by unfold_locales (simp_all add: elems_SWAP same_array_SWAP)

interpretation array_cmp: array_ops "elems Base Num Width" Num "SWAP Base Width" "same_array Base Num Width m"
    "CMPR Base Width Compare" "within d (set (elems Base Num Width m)) Compare"
proof
  fix s i j assume a: "same_array Base Num Width m s" "1 \<le> i" "i \<le> Num" "1 \<le> j" "j \<le> Num"
  have "set (elems Base Num Width s) = set (elems Base Num Width m)"
    using a(1) unfolding same_array_def by (metis set_mset_mset)
  moreover have "el (elems Base Num Width s) k \<in> set (elems Base Num Width s)" if "1 \<le> k" "k \<le> Num" for k
    using that by (simp add: el_def)
  ultimately show "CMPR Base Width Compare i j s =
      within d (set (elems Base Num Width m)) Compare (el (elems Base Num Width s) i) (el (elems Base Num Width s) j)"
    using a by (simp add: CMPR_def within_def el_elems)
qed

text \<open>The witness sorts three bytes by value.\<close>

definition ex_first :: "byte list \<Rightarrow> byte list \<Rightarrow> int" where
  "ex_first x y = uint (hd x) - uint (hd y)"

definition ex_mem :: "nat \<Rightarrow> byte" where
  "ex_mem a = (if a = 0 then 9 else if a = 1 then 7 else if a = 2 then 3 else if a = 3 then 5 else 0)"

section \<open>Properties\<close>

text \<open>
  C7. For every comparison, also one that contradicts itself, \<^verbatim>\<open>qsort\<close> returns: all its loops and recursions end, as the
  model is a total function. It leaves the elements of the array rearranged and has written no byte outside of the array.
\<close>

theorem qsort_rearranges:
  "mset (elems Base Num Width (qsort Base Num Width Compare m)) = mset (elems Base Num Width m) \<and>
    unchanged_outside Base (Num * Width) m (qsort Base Num Width Compare m)"
proof -
  have "same_array Base Num Width m m" by (simp add: same_array_def unchanged_outside_def)
  from array_mem.QuickSort_shuffles [OF this, of 1 Num] show ?thesis
    by (auto simp: qsort_def shuffles_def same_array_def)
qed

text \<open>
  C6. If the comparison orders the elements of the array, \<^verbatim>\<open>qsort\<close> leaves them in ascending order.
\<close>

theorem qsort_sorts:
  assumes "consistent (set (elems Base Num Width m)) Compare"
  shows "sorted_wrt (\<lambda>x y. Compare x y \<le> 0) (elems Base Num Width (qsort Base Num Width Compare m))"
proof (cases "Num = 0")
  case False
  let ?A = "set (elems Base Num Width m)" and ?m = "qsort Base Num Width Compare m"
  define d where "d = el (elems Base Num Width m) 1"
  have "d \<in> ?A" using False by (simp add: d_def el_def)
  note C = consistent_within [OF assms this]
  have s: "same_array Base Num Width m m" by (simp add: same_array_def unchanged_outside_def)
  have "guard (within d ?A Compare) 1 Num (elems Base Num Width m)" by (simp add: guard_def)
  from array_cmp.QuickSort_ok [OF C s this]
  have r: "sorted_seg (within d ?A Compare) 1 Num (elems Base Num Width ?m)" "same_array Base Num Width m ?m"
    by (auto simp: qsort_def shuffles_def)
  have A: "x \<in> ?A" if "x \<in> set (elems Base Num Width ?m)" for x
    using that r(2) unfolding same_array_def by (metis set_mset_mset)
  show ?thesis
    unfolding sorted_wrt_iff_nth_less
  proof (intro allI impI)
    fix i j assume ij: "i < j" "j < length (elems Base Num Width ?m)"
    have "within d ?A Compare (elems Base Num Width ?m ! i) (elems Base Num Width ?m ! j) \<le> 0"
      using r(1) [unfolded sorted_seg_def, rule_format, of "i + 1" "j + 1"] ij by (simp add: el_def)
    then show "Compare (elems Base Num Width ?m ! i) (elems Base Num Width ?m ! j) \<le> 0"
      using A [of "elems Base Num Width ?m ! i"] A [of "elems Base Num Width ?m ! j"] ij by (simp add: within_def)
  qed
qed (simp add: elems_def)


theorem qsort_sorts_witness:
  "sorted_wrt (\<lambda>x y. ex_first x y \<le> 0) (elems 1 3 1 (qsort 1 3 1 ex_first ex_mem)) \<and>
    map (qsort 1 3 1 ex_first ex_mem) [0..<5] = [9, 3, 5, 7, 0]"
proof -
  have "consistent (set (elems 1 3 1 ex_mem)) ex_first"
    unfolding consistent_def by (auto simp: ex_first_def sgn_if)
  from qsort_sorts [OF this] show ?thesis by code_simp
qed

end
