(* ===== verification/Crt0_Args.thy ===== *)
theory Crt0_Args
  imports Ctype Cstring "HOL-Library.Sublist"
begin

text \<open>
  \<^verbatim>\<open>crt0/c1args.c\<close>: how the start-up code of a program makes \<^verbatim>\<open>argc\<close> and \<^verbatim>\<open>argv\<close> from the command line that DOS or the parent
  process left behind. Lines are split into arguments in place, so that the splitting works on the byte memory. The
  environment, the DOS memory, the files that can be read, the glob function and the bytes behind a buffer are arguments.
  A program that runs out of memory here is ended at once, which is not modelled.
\<close>

section \<open>Splitting\<close>

definition text_bytes :: "string \<Rightarrow> byte list" where
  "text_bytes s = map of_char s"

definition blank :: "byte \<Rightarrow> bool" where
  "blank c \<longleftrightarrow> ctrue (isspace (uint c))"

text \<open>\<^verbatim>\<open>strchr\<close> also finds the NUL that ends its first argument.\<close>

definition quotable :: "byte \<Rightarrow> bool" where
  "quotable c \<longleftrightarrow> c \<in> set (text_bytes [CHR 0x27, CHR 0x22, CHR 0x00])"

definition globbing :: "byte \<Rightarrow> bool" where
  "globbing c \<longleftrightarrow> c \<in> set (text_bytes [CHR ''['', CHR ''?'', CHR ''*'', CHR 0x00])"

fun dots :: "mem \<Rightarrow> addr \<Rightarrow> nat \<Rightarrow> bool option" where
  "dots m p 0 = Some True"
| "dots m p (Suc n) = do { c \<leftarrow> rd m p; if c \<noteq> 0x2e then Some False else dots m (p + 1) n }"

definition wild :: "mem \<Rightarrow> addr \<Rightarrow> bool option" where
  "wild m p = do { c \<leftarrow> rd m p; if globbing c then Some True else dots m p 3 }"

definition keep :: "bool \<Rightarrow> byte \<Rightarrow> mem \<Rightarrow> addr \<Rightarrow> (mem \<times> addr) option" where
  "keep unquote c m epp = (if unquote then Some (m, epp) else map_option (\<lambda>m. (m, epp + 1)) (wr m epp c))"

function parse_loop :: "addr \<Rightarrow> bool \<Rightarrow> mem \<Rightarrow> addr \<Rightarrow> addr \<Rightarrow> byte \<Rightarrow> bool \<Rightarrow> (mem \<times> addr \<times> addr \<times> bool) option" where
  "parse_loop lst unquote m ep epp quote wq =
     do { stop \<leftarrow> (if quote \<noteq> 0 then Some False else map_option blank (rd m ep));
          if stop \<or> \<not> ep < lst then Some (m, ep, epp, wq)
          else do {
            c \<leftarrow> rd m ep;
            if quote \<noteq> 0 \<and> c = quote
            then do { (m, epp) \<leftarrow> keep unquote c m epp; parse_loop lst unquote m (ep + 1) epp 0 wq }
            else if quote = 0 \<and> (c = 0x27 \<or> c = 0x22)
            then do { (m, epp) \<leftarrow> keep unquote c m epp; parse_loop lst unquote m (ep + 1) epp c wq }
            else do {
              esc \<leftarrow> (if c = 0x5c then map_option (\<lambda>d. quotable d \<and> ep < lst - 1) (rd m (ep + 1)) else Some False);
              if esc
              then do {
                (m, epp) \<leftarrow> keep unquote c m epp;
                d \<leftarrow> rd m (ep + 1); m \<leftarrow> wr m epp d;
                parse_loop lst unquote m (ep + 2) (epp + 1) quote wq }
              else do {
                w \<leftarrow> (if quote \<noteq> 0 then wild m ep else Some False);
                m \<leftarrow> wr m epp c;
                parse_loop lst unquote m (ep + 1) (epp + 1) quote (wq \<or> w \<and> unquote) } } } }"
  by pat_completeness auto
termination by (relation "measure (\<lambda>(lst, unquote, m, ep, epp, quote, wq). lst - ep)") auto

declare parse_loop.simps [simp del]

definition parse_arg :: "mem \<Rightarrow> addr \<Rightarrow> addr \<Rightarrow> bool \<Rightarrow> (mem \<times> addr \<times> nat \<times> bool) option" where
  "parse_arg m bp lst unquote =
     do { (m, ep, epp, wq) \<leftarrow> parse_loop lst unquote m bp bp 0 False; Some (m, ep, epp - bp, wq) }"

text \<open>
  A node of the argument list. \<^verbatim>\<open>arg\<close> is a C string, which ends at the first NUL; \<^verbatim>\<open>next\<close>, which only serves to collect the nodes,
  is not kept.
\<close>

datatype arg = Arg (argstr: "byte list") (arg_globbed: "byte list list option") (arg_file: "arg list option") (was_quoted: bool)

definition new_arg :: "byte list \<Rightarrow> bool \<Rightarrow> arg" where
  "new_arg s wq = Arg (takeWhile (\<lambda>c. c \<noteq> 0) s) None None wq"

definition get_block :: "mem \<Rightarrow> addr \<Rightarrow> nat \<Rightarrow> byte list option" where
  "get_block m p n = (if valid_block m p n then Some (take n (drop p m)) else None)"

function skip_blanks :: "mem \<Rightarrow> addr \<Rightarrow> addr \<Rightarrow> addr option" where
  "skip_blanks m lst bp = do { c \<leftarrow> rd m bp; if blank c \<and> bp < lst then skip_blanks m lst (bp + 1) else Some bp }"
  by pat_completeness auto
termination by (relation "measure (\<lambda>(m, lst, bp). lst - bp)") auto

declare skip_blanks.simps [simp del]

lemma skip_blanks_ge: "skip_blanks m lst bp = Some p \<Longrightarrow> bp \<le> p"
proof (induction m lst bp rule: skip_blanks.induct)
  case (1 m lst bp)
  then show ?case using skip_blanks.simps [of m lst bp] by (auto split: bind_splits if_splits)
qed

lemma parse_loop_ge: "parse_loop lst unquote m ep epp quote wq = Some (m', e, pp, w) \<Longrightarrow> ep \<le> e"
proof (induction "lst - ep" arbitrary: m ep epp quote wq rule: less_induct)
  case less
  show ?case
  proof (cases "ep < lst")
    case True
    have ih: "ep \<le> e" if "parse_loop lst unquote n p epp' q' w' = Some (m', e, pp, w)" "ep < p" for n p epp' q' w'
      using less.hyps [OF _ that(1)] that(2) True by fastforce
    show ?thesis using less.prems by (subst (asm) parse_loop.simps) (auto dest: ih split: bind_splits if_splits prod.splits)
  next
    case False
    then show ?thesis using less.prems by (subst (asm) parse_loop.simps) (auto split: bind_splits if_splits)
  qed
qed

function parse_bytes_loop :: "addr \<Rightarrow> bool \<Rightarrow> mem \<Rightarrow> addr \<Rightarrow> (mem \<times> arg list) option" where
  "parse_bytes_loop lst unquote m bp =
     (if bp < lst then do {
        bp \<leftarrow> skip_blanks m lst bp;
        if bp = lst then Some (m, [])
        else do {
          (m, ep, arg_len, wq) \<leftarrow> parse_arg m bp lst unquote;
          s \<leftarrow> get_block m bp arg_len;
          (m, al) \<leftarrow> parse_bytes_loop lst unquote m (ep + 1);
          Some (m, new_arg s wq # al) } }
      else Some (m, []))"
  by pat_completeness auto
termination
proof (relation "measure (\<lambda>(lst, unquote, m, bp). lst - bp)", goal_cases)
  case (2 lst unquote m bp bp1 x m1 y ep z len wq s)
  then show ?case using skip_blanks_ge [of m lst bp bp1] parse_loop_ge
    by (fastforce simp: parse_arg_def split: bind_splits)
qed simp

declare parse_bytes_loop.simps [simp del]

definition parse_bytes :: "mem \<Rightarrow> addr \<Rightarrow> nat \<Rightarrow> bool \<Rightarrow> (mem \<times> arg list) option" where
  "parse_bytes m bytes len unquote = parse_bytes_loop (bytes + len) unquote m bytes"

text \<open>The output of \<^verbatim>\<open>find -print0\<close>: strings that end with a NUL.\<close>

function parse_print0_loop :: "addr \<Rightarrow> mem \<Rightarrow> addr \<Rightarrow> arg list option" where
  "parse_print0_loop lst m bp =
     (if bp < lst then do {
        arg_len \<leftarrow> strlen m bp;
        s \<leftarrow> get_block m bp arg_len;
        al \<leftarrow> parse_print0_loop lst m (bp + (arg_len + 1));
        Some (new_arg s True # al) }
      else Some [])"
  by pat_completeness auto
termination by (relation "measure (\<lambda>(lst, m, bp). lst - bp)") auto

declare parse_print0_loop.simps [simp del]

definition parse_print0 :: "mem \<Rightarrow> addr \<Rightarrow> nat \<Rightarrow> arg list option" where
  "parse_print0 m bytes len = parse_print0_loop (bytes + len) m bytes"

section \<open>The tree of arguments\<close>

fun count_args :: "arg list \<Rightarrow> nat" where
  "count_args [] = 0"
| "count_args (Arg s globbed file wq # al) =
     (case globbed of
        Some gs \<Rightarrow> length gs
      | None \<Rightarrow> (case file of Some fl \<Rightarrow> count_args fl | None \<Rightarrow> 1)) + count_args al"

text \<open>
  \<^verbatim>\<open>fill_args\<close> stores the strings from the position \<open>p\<close> of the vector on; a store outside of it is \<^term>\<open>None\<close>. The pointers that it
  clears in the tree to mark the strings as moved belong to nodes that nobody looks at afterwards.
\<close>

definition put_arg :: "byte list option list \<Rightarrow> nat \<Rightarrow> byte list option \<Rightarrow> byte list option list option" where
  "put_arg v p s = (if p < length v then Some (v[p := s]) else None)"

fun put_globbed :: "byte list option list \<Rightarrow> nat \<Rightarrow> byte list list \<Rightarrow> (byte list option list \<times> nat) option" where
  "put_globbed v p [] = Some (v, p)"
| "put_globbed v p (g # gs) = do { v \<leftarrow> put_arg v p (Some g); put_globbed v (p + 1) gs }"

primrec in_turn :: "('a \<Rightarrow> 'a option) list \<Rightarrow> 'a \<Rightarrow> 'a option" where
  "in_turn [] x = Some x"
| "in_turn (f # fs) x = do { x \<leftarrow> f x; in_turn fs x }"

fun fill_arg :: "arg \<Rightarrow> byte list option list \<times> nat \<Rightarrow> (byte list option list \<times> nat) option" where
  "fill_arg (Arg s globbed file wq) =
     (\<lambda>(v, p). case globbed of
        Some gs \<Rightarrow> put_globbed v p gs
      | None \<Rightarrow> (case file of
          Some fl \<Rightarrow> in_turn (map fill_arg fl) (v, p)
        | None \<Rightarrow> map_option (\<lambda>v. (v, p + 1)) (put_arg v p (Some s))))"

definition fill_args :: "byte list option list \<Rightarrow> nat \<Rightarrow> arg list \<Rightarrow> (byte list option list \<times> nat) option" where
  "fill_args v p al = in_turn (map fill_arg al) (v, p)"

text \<open>
  A response file is what \<^verbatim>\<open>_read\<close> delivers of it; behind these bytes the buffer has at least one more, \<open>slack\<close>. Files can name each
  other or themselves, so the recursion need not end: then the result is \<^term>\<open>None\<close>.
\<close>

definition response_bytes :: "byte list \<Rightarrow> byte list \<Rightarrow> bool \<Rightarrow> arg list option" where
  "response_bytes slack content unquote =
     (let len = (if content \<noteq> [] \<and> last content = 0x1a then length content - 1 else length content);
          m = 0 # content @ slack in
      if 0 < len \<and> content ! (len - 1) = 0 then parse_print0 m 1 len
      else map_option snd (parse_bytes m 1 len unquote))"

definition response_file :: "(byte list \<Rightarrow> byte list option) \<Rightarrow> arg \<Rightarrow> byte list option" where
  "response_file files a =
     (if \<not> was_quoted a \<and> argstr a \<noteq> [] \<and> hd (argstr a) = 0x40 then files (tl (argstr a)) else None)"

partial_function (option) expand_response_files ::
  "(byte list \<Rightarrow> byte list option) \<Rightarrow> (byte list \<Rightarrow> arg list option) \<Rightarrow> arg list \<Rightarrow> arg list option" where
  "expand_response_files files parse al =
     (case al of
        [] \<Rightarrow> Some []
      | a # rest \<Rightarrow>
          (case response_file files a of
             None \<Rightarrow> do { al' \<leftarrow> expand_response_files files parse rest; Some (a # al') }
           | Some content \<Rightarrow> do {
               fl \<leftarrow> parse content;
               fl' \<leftarrow> expand_response_files files parse fl;
               al' \<leftarrow> expand_response_files files parse rest;
               Some (Arg (argstr a) (arg_globbed a) (Some fl') (was_quoted a) # al') }))"

fun expand_wildcards :: "(byte list \<Rightarrow> byte list list option) \<Rightarrow> arg list \<Rightarrow> arg list" where
  "expand_wildcards glob [] = []"
| "expand_wildcards glob (Arg s globbed file wq # al) =
     (case file of
        Some fl \<Rightarrow> Arg s globbed (Some (expand_wildcards glob fl)) wq
      | None \<Rightarrow> if \<not> wq then Arg s (glob s) None wq else Arg s globbed None wq) # expand_wildcards glob al"

section \<open>Start-up\<close>

text \<open>\<^verbatim>\<open>atohex\<close> reads digits that were printed in hexadecimal; arithmetic is that of \<^verbatim>\<open>int\<close>.\<close>

definition atohex_digit :: "byte \<Rightarrow> 32 word" where
  "atohex_digit c = (let v = sint c - 48; v = (if 9 < v then v - 7 else v) in word_of_int v AND 15)"

definition atohex :: "byte list \<Rightarrow> 32 word" where
  "atohex s = fold (\<lambda>c rv. rv * 16 + atohex_digit c) s 0"

record startup =
  startup_flags :: "32 word"
  dos_argv0 :: "byte list"
  stub_argv0 :: "byte list"
  doscmd :: "byte list"
  environment :: "byte list \<Rightarrow> byte list option"
  dosmem :: "byte list"
  readable :: "byte list \<Rightarrow> byte list option"
  globber :: "byte list \<Rightarrow> byte list list option"
  behind :: "byte list"

definition flag :: "nat \<Rightarrow> startup \<Rightarrow> bool" where
  "flag n st \<longleftrightarrow> bit (startup_flags st) n"

abbreviation "PRESERVE_UPPER_CASE \<equiv> flag 0"
abbreviation "USE_DOS_SLASHES \<equiv> flag 1"
abbreviation "DROP_EXE_SUFFIX \<equiv> flag 2"
abbreviation "DROP_DRIVE_SPECIFIER \<equiv> flag 3"
abbreviation "DISALLOW_RESPONSE_FILES \<equiv> flag 4"
abbreviation "KEEP_QUOTES \<equiv> flag 14"

definition is_separator :: "byte \<Rightarrow> bool" where
  "is_separator c \<longleftrightarrow> c \<in> set (text_bytes '':'' @ [0x5c] @ text_bytes ''/'')"

definition dir_length :: "byte list \<Rightarrow> nat" where
  "dir_length s = length s - length (takeWhile (\<lambda>c. \<not> is_separator c) (rev s))"

definition fix_char :: "startup \<Rightarrow> byte \<Rightarrow> byte" where
  "fix_char st c =
     (let c = (if \<not> USE_DOS_SLASHES st \<and> c = 0x5c then 0x2f else c) in
      if \<not> PRESERVE_UPPER_CASE st then tolower_byte c else c)"

text \<open>
  \<^verbatim>\<open>argv[0]\<close>: the directory of the program and at most 16 characters of its name, in a zeroed buffer of just the size
  for both. Without a directory \<^verbatim>\<open>strncpy\<close> stores 16 bytes whatever the size of the buffer.
\<close>

definition drop_suffix :: "byte list \<Rightarrow> byte list option" where
  "drop_suffix s =
     (if length s < 4 then None
      else let e = drop (length s - 4) s in
        if hd e = 0x2e \<and> map tolower_byte (tl e) = text_bytes ''exe'' then Some (take (length s - 4) s) else Some s)"

definition make_argv0 :: "startup \<Rightarrow> byte list option" where
  "make_argv0 st =
     (let dos = (if DROP_DRIVE_SPECIFIER st \<and> 1 < length (dos_argv0 st) \<and> dos_argv0 st ! 1 = 0x3a
                 then drop 2 (dos_argv0 st) else dos_argv0 st);
          k = dir_length dos;
          stub = (stub_argv0 st \<noteq> []);
          fc = (if stub then stub_argv0 st else drop k dos) in
      if k = 0 \<and> length fc + 1 < 16 then None
      else let s = take k dos @ take 16 fc;
               s = (if stub then map (fix_char st) (take k s) @ drop k s else map (fix_char st) s) in
        if DROP_EXE_SUFFIX st then drop_suffix s else Some s)"

text \<open>
  The command tail in the program segment prefix: a length, its characters and a carriage return. A length of 127 says
  that the line is in the variable \<^verbatim>\<open>CMDLINE\<close>, after the name of the program.
\<close>

function find_stop :: "byte \<Rightarrow> mem \<Rightarrow> addr \<Rightarrow> addr option" where
  "find_stop stop m p = do { c \<leftarrow> rd m p; if c \<noteq> stop then find_stop stop m (p + 1) else Some p }"
  by pat_completeness auto
termination by (relation "measure (\<lambda>(stop, m, p). length m - p)") (auto dest: rd_less)

declare find_stop.simps [simp del]

definition cmdline_args :: "startup \<Rightarrow> arg list option" where
  "cmdline_args st =
     (case (if hd (doscmd st) \<noteq> 127 then None else environment st (text_bytes ''CMDLINE'')) of
        None \<Rightarrow> map_option snd (parse_bytes (0 # doscmd st @ behind st) 2 (unat (hd (doscmd st) AND 0x7f)) (\<not> KEEP_QUOTES st))
      | Some c \<Rightarrow> do {
          let m = 0 # c @ [0] @ behind st;
          b \<leftarrow> rd m 1;
          p \<leftarrow> find_stop (if b = 0x22 \<or> b = 0x27 then b else 0x20) m 1;
          n \<leftarrow> strlen m (p + 1);
          map_option snd (parse_bytes m (p + 1) n (\<not> KEEP_QUOTES st)) })"

definition PROXY :: "byte list" where
  "PROXY = text_bytes '' !proxy''"

definition proxy_line_size :: nat where "proxy_line_size = 50"

definition proxy_args :: "startup \<Rightarrow> arg list \<Rightarrow> arg list option" where
  "proxy_args st al =
     (case environment st PROXY of
        None \<Rightarrow> Some al
      | Some v \<Rightarrow>
          if length PROXY + 1 + length v + 1 \<le> proxy_line_size
          then map_option snd (parse_bytes (0 # PROXY @ [0x20] @ v @ [0] @ behind st) 1 (length v + length PROXY + 1) False)
          else None)"

text \<open>Strings that the parent left in DOS memory, with a vector of their offsets.\<close>

definition peekb :: "startup \<Rightarrow> nat \<Rightarrow> byte option" where
  "peekb st a = (if a < length (dosmem st) then Some (dosmem st ! a) else None)"

function far_string :: "startup \<Rightarrow> nat \<Rightarrow> byte list option" where
  "far_string st a = do { c \<leftarrow> peekb st a; if c \<noteq> 0 then map_option (\<lambda>s. c # s) (far_string st (a + 1)) else Some [] }"
  by pat_completeness auto
termination by (relation "measure (\<lambda>(st, a). length (dosmem st) - a)") (auto simp: peekb_def split: if_splits)

declare far_string.simps [simp del]

definition proxied_arg :: "startup \<Rightarrow> nat \<Rightarrow> nat \<Rightarrow> nat \<Rightarrow> arg option" where
  "proxied_arg st seg ofs i =
     do { lo \<leftarrow> peekb st (seg * 16 + ofs + 2 * i);
          hi \<leftarrow> peekb st (seg * 16 + ofs + 2 * i + 1);
          s \<leftarrow> far_string st (seg * 16 + (unat lo + 256 * unat hi));
          if environment st PROXY \<noteq> None \<and> \<not> KEEP_QUOTES st
          then do {
            (m, ep, ln, wq) \<leftarrow> parse_arg (0 # s @ [0]) 1 (1 + length s) True;
            t \<leftarrow> get_block m 1 ln;
            Some (new_arg t wq) }
          else Some (new_arg s False) }"

definition proxied_args :: "startup \<Rightarrow> arg list \<Rightarrow> arg list option" where
  "proxied_args st al =
     (let argc = sint (atohex (argstr (al ! 1))); seg = unat (atohex (argstr (al ! 2))); ofs = unat (atohex (argstr (al ! 3))) in
      if argc < 0 then None else those (map (proxied_arg st seg ofs) [0..<nat argc]))"

definition setup_arguments :: "startup \<Rightarrow> (nat \<times> byte list option list) option" where
  "setup_arguments st =
     do { argv0 \<leftarrow> make_argv0 st;
          al \<leftarrow> cmdline_args st;
          al \<leftarrow> proxy_args st al;
          let by_proxy = (3 < length al \<and> argstr (al ! 0) = tl PROXY);
          al \<leftarrow> (if by_proxy then proxied_args st al else Some al);
          al \<leftarrow> (if DISALLOW_RESPONSE_FILES st then Some al
                 else expand_response_files (readable st) (\<lambda>c. response_bytes (behind st) c (\<not> KEEP_QUOTES st)) al);
          let al = (if \<not> by_proxy \<or> environment st PROXY \<noteq> None then expand_wildcards (globber st) al else al);
          let prepend = (if by_proxy then 0 else 1);
          let argc = prepend + count_args al;
          let v = replicate (argc + 1) None;
          v \<leftarrow> (if by_proxy then Some v else put_arg v 0 (Some argv0));
          (v, p) \<leftarrow> fill_args v prepend al;
          v \<leftarrow> put_arg v p None;
          Some (argc, v) }"

section \<open>What the splitting computes\<close>

text \<open>The same without memory: \<open>xs\<close> is the rest of the line and \<open>ys\<close> what lies behind it. The result is the argument, \<^verbatim>\<open>was_quoted\<close> and what is left.\<close>

definition add_byte :: "bool \<Rightarrow> byte \<Rightarrow> byte list \<times> bool \<times> byte list \<Rightarrow> byte list \<times> bool \<times> byte list" where
  "add_byte b c r = (if b then (c # fst r, snd r) else r)"

definition mark_quoted :: "bool \<Rightarrow> byte list \<times> bool \<times> byte list \<Rightarrow> byte list \<times> bool \<times> byte list" where
  "mark_quoted b r = (fst r, b \<or> fst (snd r), snd (snd r))"

fun scan :: "bool \<Rightarrow> byte list \<Rightarrow> byte \<Rightarrow> byte list \<Rightarrow> byte list \<times> bool \<times> byte list" where
  "scan un ys q [] = ([], False, [])"
| "scan un ys q (c # xs) =
     (if q = 0 \<and> blank c then ([], False, c # xs)
      else if q \<noteq> 0 \<and> c = q then add_byte (\<not> un) c (scan un ys 0 xs)
      else if q = 0 \<and> (c = 0x27 \<or> c = 0x22) then add_byte (\<not> un) c (scan un ys c xs)
      else if c = 0x5c \<and> xs \<noteq> [] \<and> quotable (hd xs) then add_byte (\<not> un) c (add_byte True (hd xs) (scan un ys q (tl xs)))
      else mark_quoted (q \<noteq> 0 \<and> (globbing c \<or> take 3 (c # xs @ ys) = replicate 3 0x2e) \<and> un) (add_byte True c (scan un ys q xs)))"

declare scan.simps(2) [simp del]

lemma scan_rest: "length (fst (scan un ys q xs)) + length (snd (snd (scan un ys q xs))) \<le> length xs"
proof (induction un ys q xs rule: scan.induct)
  case (2 un ys q c xs)
  then show ?case by (subst (1 2) scan.simps(2)) (cases xs; auto simp: add_byte_def mark_quoted_def)
qed simp

function split_bytes :: "bool \<Rightarrow> byte list \<Rightarrow> byte list \<Rightarrow> arg list" where
  "split_bytes un ys xs =
     (let r = dropWhile blank xs in
      if r = [] then []
      else let (s, wq, rest) = scan un ys 0 r in new_arg s wq # split_bytes un ys (drop 1 rest))"
  by pat_completeness auto
termination
proof (relation "measure (\<lambda>(un, ys, xs). length xs)", goal_cases)
  case (2 un ys xs r t s u wq rest)
  have "snd (snd (scan un ys 0 r)) = rest" using 2 by (metis snd_conv)
  then have "length rest \<le> length r" using scan_rest [of un ys 0 r] by auto
  moreover have "length r \<le> length xs" using 2(1) by (simp add: length_dropWhile_le)
  moreover have "0 < length r" using 2 by simp
  ultimately have "length rest - 1 < length xs" by linarith
  then show ?case by simp
qed simp

declare split_bytes.simps [simp del]

section \<open>The splitting in place\<close>

definition patch :: "mem \<Rightarrow> addr \<Rightarrow> byte list \<Rightarrow> mem" where
  "patch m p s = take p m @ s @ drop (p + length s) m"

lemma patch_Nil [simp]: "patch m p [] = m"
  by (simp add: patch_def)

lemma patch_Cons: "p < length m \<Longrightarrow> patch (m[p := c]) (p + 1) s = patch m p (c # s)"
  by (simp add: patch_def take_Suc_conv_app_nth)

lemma length_patch: "p + length s \<le> length m \<Longrightarrow> length (patch m p s) = length m"
  by (simp add: patch_def)

lemma drop_patch: "p + length s \<le> q \<Longrightarrow> q \<le> length m \<Longrightarrow> drop q (patch m p s) = drop q m"
  by (simp add: patch_def drop_append)

lemma get_patch: "0 < p \<Longrightarrow> p + length s \<le> length m \<Longrightarrow> get_block (patch m p s) p (length s) = Some s"
  by (simp add: get_block_def valid_block_def length_patch patch_def)

text \<open>The line from \<open>p\<close> to \<open>lst\<close> and what lies behind it.\<close>

definition line_at :: "mem \<Rightarrow> addr \<Rightarrow> addr \<Rightarrow> byte list \<Rightarrow> byte list \<Rightarrow> bool" where
  "line_at m p lst xs ys \<longleftrightarrow> 0 < p \<and> p + length xs = lst \<and> drop p m = xs @ ys \<and> 2 \<le> length ys"

lemma line_at_length: "line_at m p lst xs ys \<Longrightarrow> length m = p + length xs + length ys"
proof -
  assume a: "line_at m p lst xs ys"
  then have "length (drop p m) = length xs + length ys" by (simp add: line_at_def)
  moreover have "2 \<le> length ys" using a by (simp add: line_at_def)
  ultimately show ?thesis by simp
qed

lemma line_at_Cons:
  assumes "line_at m p lst (c # xs) ys"
  shows "p < lst" "rd m p = Some c" "line_at m (p + 1) lst xs ys" "p < length m"
proof -
  have d: "drop p m = c # xs @ ys" "0 < p" using assms by (auto simp: line_at_def)
  then have l: "p < length m" by (metis drop_all list.distinct(1) not_le)
  then show "p < length m" .
  show "rd m p = Some c" using d l by (metis Cons_nth_drop_Suc list.inject rd_defined)
  show "line_at m (p + 1) lst xs ys" using assms d l by (auto simp: line_at_def drop_Suc [symmetric] drop_tl tl_drop)
      (metis drop_Suc list.sel(3) tl_drop)
  show "p < lst" using assms by (auto simp: line_at_def)
qed

lemma line_at_Nil: "line_at m p lst [] ys \<Longrightarrow> p = lst \<and> rd m p \<noteq> None"
  using line_at_length [of m p lst "[]" ys] by (auto simp: line_at_def rd_def)

lemma line_at_update: "line_at m p lst xs ys \<Longrightarrow> q < p \<Longrightarrow> line_at (m[q := c]) p lst xs ys"
  by (simp add: line_at_def)

lemma rd_line: "line_at m p lst xs ys \<Longrightarrow> i < length xs + length ys \<Longrightarrow> rd m (p + i) = Some ((xs @ ys) ! i)"
  using line_at_length [of m p lst xs ys] by (auto simp: line_at_def rd_def) (metis nth_drop add_leD1 le_add1 less_imp_le_nat nat_less_le)

lemma dots_line:
  "line_at m p lst xs ys \<Longrightarrow> i + n \<le> length xs + length ys \<Longrightarrow>
    dots m (p + i) n = Some (take n (drop i (xs @ ys)) = replicate n 0x2e)"
proof (induction n arbitrary: i)
  case (Suc n)
  have "drop i (xs @ ys) = (xs @ ys) ! i # drop (Suc i) (xs @ ys)" using Suc.prems by (intro Cons_nth_drop_Suc [symmetric]) auto
  then show ?case using Suc.IH [of "Suc i"] Suc.prems rd_line [OF Suc.prems(1), of i] by auto
qed simp

lemma wild_line:
  assumes "line_at m p lst (c # xs) ys"
  shows "wild m p = Some (globbing c \<or> take 3 (c # xs @ ys) = replicate 3 0x2e)"
proof -
  have "2 \<le> length ys" using assms by (simp add: line_at_def)
  then show ?thesis using dots_line [OF assms, of 0 3] line_at_Cons(2) [OF assms] by (simp add: wild_def)
qed

lemma keep_eq: "0 < epp \<Longrightarrow> epp < length m \<Longrightarrow> keep un c m epp = Some (if un then m else m[epp := c], if un then epp else epp + 1)"
  by (simp add: keep_def wr_defined)

lemma patch_keep:
  "epp < length m \<Longrightarrow> patch (if un then m else m[epp := c]) (if un then epp else epp + 1) s = patch m epp (if un then s else c # s)"
  using patch_Cons by simp

lemma fst_add_byte: "fst (add_byte b c r) = (if b then c # fst r else fst r)" "snd (add_byte b c r) = snd r"
    "fst (mark_quoted b r) = fst r" "fst (snd (mark_quoted b r)) = (b \<or> fst (snd r))" "snd (snd (mark_quoted b r)) = snd (snd r)"
  by (simp_all add: add_byte_def mark_quoted_def)

lemma parse_loop_scan:
  "line_at m ep lst xs ys \<Longrightarrow> 0 < epp \<Longrightarrow> epp \<le> ep \<Longrightarrow>
    parse_loop lst un m ep epp q wq =
      Some (patch m epp (fst (scan un ys q xs)), lst - length (snd (snd (scan un ys q xs))),
        epp + length (fst (scan un ys q xs)), wq \<or> fst (snd (scan un ys q xs)))"
proof (induction un ys q xs arbitrary: m ep epp wq rule: scan.induct)
  case (1 un ys q)
  then show ?case using line_at_Nil [OF 1(1)] by (subst parse_loop.simps) auto
next
  case (2 un ys q c xs)
  note l = line_at_Cons [OF 2(5)]
  have e: "epp < length m" using l(4) 2(7) by simp
  define m1 where "m1 = (if un then m else m[epp := c])"
  define e1 where "e1 = (if un then epp else epp + 1)"
  have k: "keep un c m epp = Some (m1, e1)" using keep_eq [OF 2(6) e] by (simp add: m1_def e1_def)
  have p1: "patch m1 e1 s = patch m epp (if un then s else c # s)" for s using patch_keep [OF e] by (simp add: m1_def e1_def)
  have l1: "line_at m1 (ep + 1) lst xs ys" using l(3) line_at_update [OF l(3), of epp c] 2(7) by (simp add: m1_def)
  have e1: "0 < e1" "e1 \<le> ep + 1" "e1 + n = epp + (if un then n else n + 1)" for n using 2(6,7) by (auto simp: e1_def)
  consider (stop) "q = 0" "blank c" | (close) "\<not> (q = 0 \<and> blank c)" "q \<noteq> 0 \<and> c = q"
    | (opens) "\<not> (q = 0 \<and> blank c)" "\<not> (q \<noteq> 0 \<and> c = q)" "q = 0 \<and> (c = 0x27 \<or> c = 0x22)"
    | (esc) "\<not> (q = 0 \<and> blank c)" "\<not> (q \<noteq> 0 \<and> c = q)" "\<not> (q = 0 \<and> (c = 0x27 \<or> c = 0x22))" "c = 0x5c \<and> xs \<noteq> [] \<and> quotable (hd xs)"
    | (plain) "\<not> (q = 0 \<and> blank c)" "\<not> (q \<noteq> 0 \<and> c = q)" "\<not> (q = 0 \<and> (c = 0x27 \<or> c = 0x22))" "\<not> (c = 0x5c \<and> xs \<noteq> [] \<and> quotable (hd xs))"
    by blast
  then show ?case
  proof cases
    case stop
    then show ?thesis using l 2(5) by (subst parse_loop.simps) (auto simp: scan.simps(2) line_at_def)
  next
    case close
    have s: "scan un ys q (c # xs) = add_byte (\<not> un) c (scan un ys 0 xs)" using close by (simp add: scan.simps(2))
    have "parse_loop lst un m ep epp q wq = parse_loop lst un m1 (ep + 1) e1 0 wq"
      using close l k by (subst parse_loop.simps) simp
    then show ?thesis unfolding s using 2(1) [OF close l1 e1(1,2)] by (simp add: p1 e1(3) fst_add_byte)
  next
    case opens
    have s: "scan un ys q (c # xs) = add_byte (\<not> un) c (scan un ys c xs)" using opens by (auto simp: scan.simps(2))
    have "parse_loop lst un m ep epp q wq = parse_loop lst un m1 (ep + 1) e1 c wq"
      using opens l k by (subst parse_loop.simps) auto
    then show ?thesis unfolding s using 2(2) [OF opens l1 e1(1,2)] by (simp add: p1 e1(3) fst_add_byte)
  next
    case esc
    have s: "scan un ys q (c # xs) = add_byte (\<not> un) c (add_byte True (hd xs) (scan un ys q (tl xs)))"
      using esc by (auto simp: scan.simps(2))
    obtain d zs where xs: "xs = d # zs" using esc by (cases xs) auto
    note l2 = line_at_Cons [OF l1 [unfolded xs]] line_at_Cons [OF l(3) [unfolded xs]]
    have e2: "e1 < length m1" "ep < lst - 1" using e1(2) l2(4) 2(5) xs by (auto simp: line_at_def)
    have "parse_loop lst un m ep epp q wq = parse_loop lst un (m1[e1 := d]) (ep + 2) (e1 + 1) q wq"
      using esc l l2 k e1(1) e2 xs by (subst parse_loop.simps) (auto simp: wr_defined)
    moreover have "line_at (m1[e1 := d]) (ep + 2) lst (tl xs) ys"
      using line_at_update [OF l2(3), of e1 d] e1(2) xs by (simp add: numeral_2_eq_2)
    moreover have "patch (m1[e1 := d]) (e1 + 1) t = patch m epp (if un then d # t else c # d # t)" for t
      using patch_Cons [OF e2(1)] by (simp add: p1)
    ultimately show ?thesis unfolding s using 2(3) [OF esc, of "m1[e1 := d]" "ep + 2" "e1 + 1"] e1 e1(3) [of "Suc n" for n] xs by (simp add: fst_add_byte)
  next
    case plain
    let ?w = "q \<noteq> 0 \<and> (globbing c \<or> take 3 (c # xs @ ys) = replicate 3 0x2e) \<and> un"
    have s: "scan un ys q (c # xs) = mark_quoted ?w (add_byte True c (scan un ys q xs))"
      using plain by (auto simp: scan.simps(2))
    have nesc: "(if c = 0x5c then map_option (\<lambda>d. quotable d \<and> ep < lst - 1) (rd m (ep + 1)) else Some False) = Some False"
      using plain(4) rd_line [OF 2(5), of 1] 2(5) by (cases xs; cases ys) (auto simp: line_at_def)
    have "parse_loop lst un m ep epp q wq = parse_loop lst un (m[epp := c]) (ep + 1) (epp + 1) q (wq \<or> ?w)"
      using plain(1-3) l 2(6) e wild_line [OF 2(5)] by (subst parse_loop.simps) (auto simp: nesc wr_defined)
    then show ?thesis unfolding s
      using 2(4) [OF plain, of "m[epp := c]" "ep + 1" "epp + 1"] line_at_update [OF l(3), of epp c] 2(6,7) patch_Cons [OF e]
      by (auto simp: fst_add_byte)
  qed
qed

lemma scan_suffix: "suffix (snd (snd (scan un ys q xs))) xs"
proof (induction un ys q xs rule: scan.induct)
  case (2 un ys q c xs)
  then show ?case by (subst scan.simps(2)) (cases xs; auto simp: fst_add_byte suffix_Cons)
qed simp

lemma line_at_drop: "line_at m p lst xs ys \<Longrightarrow> xs = us @ vs \<Longrightarrow> line_at m (p + length us) lst vs ys"
proof (induction us arbitrary: p xs)
  case (Cons u us)
  have "line_at m (p + 1) lst (us @ vs) ys" using line_at_Cons(3) [of m p lst u "us @ vs" ys] Cons.prems by simp
  from Cons.IH [OF this refl] show ?case by simp
qed simp

lemma skip_blanks_line:
  "line_at m p lst xs ys \<Longrightarrow> skip_blanks m lst p = Some (lst - length (dropWhile blank xs))"
proof (induction xs arbitrary: p)
  case Nil
  then show ?case using line_at_Nil [OF Nil] by (subst skip_blanks.simps) auto
next
  case (Cons c xs)
  note l = line_at_Cons [OF Cons.prems]
  have e: "p = lst - Suc (length xs)" using Cons.prems by (auto simp: line_at_def)
  show ?case using l Cons.IH [OF l(3)] e by (subst skip_blanks.simps) simp
qed

lemma parse_bytes_split:
  "line_at m p lst xs ys \<Longrightarrow> \<exists>m'. parse_bytes_loop lst un m p = Some (m', split_bytes un ys xs) \<and> take p m' = take p m \<and> drop lst m' = drop lst m"
proof (induction un ys xs arbitrary: m p rule: split_bytes.induct)
  case (1 un ys xs)
  define r where "r = dropWhile blank xs"
  have xs: "xs = takeWhile blank xs @ r" by (simp add: r_def)
  define b where "b = p + length (takeWhile blank xs)"
  have line: "line_at m b lst r ys" unfolding b_def by (rule line_at_drop [OF 1(2) xs])
  have pb: "p \<le> b" "b + length r = lst" using line by (auto simp: b_def line_at_def)
  have sk: "skip_blanks m lst p = Some b" using skip_blanks_line [OF 1(2)] pb by (simp add: r_def)
  have sp: "split_bytes un ys xs = (if r = [] then [] else let (s, wq, rest) = scan un ys 0 r in new_arg s wq # split_bytes un ys (drop 1 rest))"
    by (subst split_bytes.simps) (simp add: r_def)
  show ?case
  proof (cases "r = []")
    case True
    then show ?thesis using sp sk pb by (subst parse_bytes_loop.simps) auto
  next
    case False
    obtain s wq rest where sc: "scan un ys 0 r = (s, wq, rest)" by (metis prod_cases3)
    have len: "length s + length rest \<le> length r" using scan_rest [of un ys 0 r] sc by simp
    have l: "length m = b + length r + length ys" by (rule line_at_length [OF line])
    define m1 where "m1 = patch m b s"
    define ep where "ep = lst - length rest"
    have pa: "parse_arg m b lst un = Some (m1, ep, length s, wq)"
      using parse_loop_scan [OF line, of b un 0 False] sc line by (simp add: parse_arg_def m1_def ep_def line_at_def)
    have gb: "get_block m1 b (length s) = Some s"
      unfolding m1_def using len l line by (intro get_patch) (auto simp: line_at_def)
    have t1: "take p m1 = take p m" "drop lst m1 = drop lst m"
      using pb len l drop_patch [of b s lst m] by (auto simp: m1_def patch_def)
    have bl: "b < lst" using False pb by (cases r) auto
    have lp: "parse_bytes_loop lst un m p = do { (m, al) \<leftarrow> parse_bytes_loop lst un m1 (ep + 1); Some (m, new_arg s wq # al) }"
      using pb(1) bl sk pa gb by (subst parse_bytes_loop.simps) simp
    show ?thesis
    proof (cases rest)
      case Nil
      then have "parse_bytes_loop lst un m1 (ep + 1) = Some (m1, [])" by (subst parse_bytes_loop.simps) (simp add: ep_def)
      moreover have "split_bytes un ys (drop 1 rest) = []" by (subst split_bytes.simps) (simp add: Nil)
      ultimately show ?thesis using sp False sc t1 lp by simp
    next
      case (Cons c rest')
      obtain us where us: "r = us @ rest" using scan_suffix [of un ys 0 r] sc by (auto simp: suffix_def)
      have u: "b + length us = ep" "length s \<le> length us" using us pb len by (auto simp: ep_def)
      have "line_at m ep lst rest ys" using line_at_drop [OF line us] u by simp
      then have "line_at m1 ep lst rest ys"
        using drop_patch [of b s ep m] u l us len by (auto simp: m1_def line_at_def)
      then have l1: "line_at m1 (ep + 1) lst rest' ys" using line_at_Cons(3) [of m1 ep lst c rest' ys] Cons by simp
      have "\<exists>m'. parse_bytes_loop lst un m1 (ep + 1) = Some (m', split_bytes un ys (drop 1 rest)) \<and>
          take (ep + 1) m' = take (ep + 1) m1 \<and> drop lst m' = drop lst m1"
        by (rule 1(1) [OF r_def False]) (use sc Cons l1 in auto)
      then obtain m' where m': "parse_bytes_loop lst un m1 (ep + 1) = Some (m', split_bytes un ys (drop 1 rest))"
        "take (ep + 1) m' = take (ep + 1) m1" "drop lst m' = drop lst m1" by blast
      have "take p m' = take p m"
        using m'(2) t1(1) u pb by (metis min.absorb1 take_take le_add1 le_trans)
      then show ?thesis using sp False sc t1(2) lp m'(1,3) by simp
    qed
  qed
qed

section \<open>The vector\<close>

text \<open>The strings of a tree in the order in which they become arguments.\<close>

fun arg_leaves :: "arg \<Rightarrow> byte list list" where
  "arg_leaves (Arg s globbed file wq) =
     (case globbed of Some gs \<Rightarrow> gs | None \<Rightarrow> (case file of Some fl \<Rightarrow> concat (map arg_leaves fl) | None \<Rightarrow> [s]))"

definition leaves :: "arg list \<Rightarrow> byte list list" where
  "leaves al = concat (map arg_leaves al)"

lemma leaves_simps [simp]: "leaves [] = []" "leaves (a # al) = arg_leaves a @ leaves al"
  by (simp_all add: leaves_def)

lemma count_args_leaves: "count_args al = length (leaves al)"
  by (induction al rule: count_args.induct) (auto simp: leaves_def split: option.splits)

definition put_all :: "byte list option list \<times> nat \<Rightarrow> byte list list \<Rightarrow> byte list option list \<times> nat" where
  "put_all vp ss = (take (snd vp) (fst vp) @ map Some ss @ drop (snd vp + length ss) (fst vp), snd vp + length ss)"

lemma put_all_Nil [simp]: "put_all vp [] = vp"
  by (simp add: put_all_def)

lemma put_all_append: "snd vp + length ss \<le> length (fst vp) \<Longrightarrow> put_all (put_all vp ss) ts = put_all vp (ss @ ts)"
  by (simp add: put_all_def add_ac)

lemma put_all_length: "snd vp + length ss \<le> length (fst vp) \<Longrightarrow> length (fst (put_all vp ss)) = length (fst vp)"
  by (simp add: put_all_def)

lemma put_arg_all: "p < length v \<Longrightarrow> map_option (\<lambda>v. (v, p + 1)) (put_arg v p (Some s)) = Some (put_all (v, p) [s])"
  by (simp add: put_arg_def put_all_def upd_conv_take_nth_drop)

lemma put_globbed_all: "p + length gs \<le> length v \<Longrightarrow> put_globbed v p gs = Some (put_all (v, p) gs)"
proof (induction gs arbitrary: v p)
  case (Cons g gs)
  then have "put_arg v p (Some g) = Some (v[p := Some g])" by (simp add: put_arg_def)
  moreover have "put_all (v[p := Some g], p + 1) gs = put_all (v, p) (g # gs)"
    using Cons.prems by (simp add: put_all_def take_Suc_conv_app_nth)
  ultimately show ?case using Cons by simp
qed simp

lemma in_turn_all:
  assumes "\<And>a vp. a \<in> set al \<Longrightarrow> snd vp + length (f a) \<le> length (fst vp) \<Longrightarrow> g a vp = Some (put_all vp (f a))"
  shows "snd vp + length (concat (map f al)) \<le> length (fst vp) \<Longrightarrow> in_turn (map g al) vp = Some (put_all vp (concat (map f al)))"
  using assms
proof (induction al arbitrary: vp)
  case (Cons a al)
  have a: "g a vp = Some (put_all vp (f a))" using Cons.prems by auto
  have "in_turn (map g al) (put_all vp (f a)) = Some (put_all (put_all vp (f a)) (concat (map f al)))"
    using Cons.prems put_all_length [of vp "f a"] by (intro Cons.IH) (auto simp: put_all_def)
  then show ?case using a Cons.prems by (simp add: put_all_append)
qed simp

lemma fill_arg_all: "snd vp + length (arg_leaves a) \<le> length (fst vp) \<Longrightarrow> fill_arg a vp = Some (put_all vp (arg_leaves a))"
proof (induction a arbitrary: vp rule: arg_leaves.induct)
  case (1 s g f wq)
  obtain v p where vp: "vp = (v, p)" by fastforce
  consider (globbed) gs where "g = Some gs" | (filed) fl where "g = None" "f = Some fl" | (plain) "g = None" "f = None"
    by (cases g; cases f) auto
  then show ?case
  proof cases
    case globbed
    then show ?thesis using put_globbed_all [of p _ v] 1(2) vp by simp
  next
    case filed
    then show ?thesis using 1 in_turn_all [of fl arg_leaves fill_arg vp] vp by auto
  next
    case plain
    then show ?thesis using 1(2) put_arg_all [of p v s] vp by simp
  qed
qed

lemma fill_args_all: "p + count_args al \<le> length v \<Longrightarrow> fill_args v p al = Some (put_all (v, p) (leaves al))"
  unfolding fill_args_def count_args_leaves leaves_def by (rule in_turn_all) (auto intro: fill_arg_all)

section \<open>Response files\<close>

lemma expand_simps:
  "expand_response_files files parse [] = Some []"
  "expand_response_files files parse (a # al) =
     (case response_file files a of
        None \<Rightarrow> do { al' \<leftarrow> expand_response_files files parse al; Some (a # al') }
      | Some content \<Rightarrow> do {
          fl \<leftarrow> parse content;
          fl' \<leftarrow> expand_response_files files parse fl;
          al' \<leftarrow> expand_response_files files parse al;
          Some (Arg (argstr a) (arg_globbed a) (Some fl') (was_quoted a) # al') })"
  by (subst expand_response_files.simps, simp)+

text \<open>
  The expansion ends if the files can be ranked such that a file only names files of lower rank.
\<close>

definition ranked :: "(byte list \<Rightarrow> nat) \<Rightarrow> (byte list \<Rightarrow> byte list option) \<Rightarrow> (byte list \<Rightarrow> arg list option) \<Rightarrow> bool" where
  "ranked rank files parse \<longleftrightarrow>
     (\<forall>f c. files f = Some c \<longrightarrow>
        (\<exists>fl. parse c = Some fl \<and> (\<forall>a\<in>set fl. response_file files a \<noteq> None \<longrightarrow> rank (tl (argstr a)) < rank f)))"

lemma response_fileD: "response_file files a = Some c \<Longrightarrow> files (tl (argstr a)) = Some c"
  by (simp add: response_file_def split: if_splits)

lemma expand_below:
  assumes "ranked rank files parse"
  shows "(\<And>a. a \<in> set al \<Longrightarrow> response_file files a \<noteq> None \<Longrightarrow> rank (tl (argstr a)) < n) \<Longrightarrow>
    \<exists>al'. expand_response_files files parse al = Some al'"
proof (induction n arbitrary: al rule: less_induct)
  case (less n)
  show ?case using less.prems
  proof (induction al)
    case (Cons a al)
    obtain al' where al': "expand_response_files files parse al = Some al'" using Cons by auto
    show ?case
    proof (cases "response_file files a")
      case (Some c)
      obtain fl where fl: "parse c = Some fl" "\<forall>b\<in>set fl. response_file files b \<noteq> None \<longrightarrow> rank (tl (argstr b)) < rank (tl (argstr a))"
        using assms response_fileD [OF Some] unfolding ranked_def by blast
      have "rank (tl (argstr a)) < n" using Cons.prems Some by simp
      then have "\<exists>fl'. expand_response_files files parse fl = Some fl'" by (rule less.IH) (use fl(2) in blast)
      then show ?thesis using al' fl(1) Some by (auto simp: expand_simps)
    qed (simp add: al' expand_simps)
  qed (simp add: expand_simps)
qed

lemma expand_ends:
  assumes "ranked rank files parse"
  shows "\<exists>al'. expand_response_files files parse al = Some al'"
proof (rule expand_below [OF assms, of al "Max (insert 0 ((rank \<circ> tl \<circ> argstr) ` set al)) + 1"])
  fix a assume "a \<in> set al"
  then have "rank (tl (argstr a)) \<le> Max (insert 0 ((rank \<circ> tl \<circ> argstr) ` set al))" by (intro Max_ge) auto
  then show "rank (tl (argstr a)) < Max (insert 0 ((rank \<circ> tl \<circ> argstr) ` set al)) + 1" by simp
qed

lemma expand_member:
  "expand_response_files files parse al = Some t \<Longrightarrow> a \<in> set al \<Longrightarrow> response_file files a = Some c \<Longrightarrow> parse c = Some fl \<Longrightarrow>
    \<exists>fl'. expand_response_files files parse fl = Some fl' \<and> Arg (argstr a) (arg_globbed a) (Some fl') (was_quoted a) \<in> set t"
proof (induction al arbitrary: t)
  case (Cons b al)
  show ?case
  proof (cases "b = a")
    case True
    then show ?thesis using Cons.prems by (auto simp: expand_simps split: bind_splits)
  next
    case False
    then have m: "a \<in> set al" using Cons.prems(2) by simp
    have "\<exists>b' t'. expand_response_files files parse al = Some t' \<and> t = b' # t'"
      using Cons.prems(1) by (auto simp: expand_simps split: bind_splits option.splits)
    then obtain b' t' where t': "expand_response_files files parse al = Some t'" "t = b' # t'" by blast
    show ?thesis using Cons.IH [OF t'(1) m Cons.prems(3,4)] t'(2) by auto
  qed
qed simp

text \<open>A file that names itself is never expanded to the end.\<close>

lemma expand_self_reference:
  assumes "parse c = Some fl" "a \<in> set fl" "response_file files a = Some c"
  shows "expand_response_files files parse fl = None"
proof (rule ccontr)
  assume "\<not> ?thesis"
  then obtain t where t: "expand_response_files files parse fl = Some t" by auto
  from expand_member [OF t assms(2,3,1)] t have "Arg (argstr a) (arg_globbed a) (Some t) (was_quoted a) \<in> set t" by auto
  then have "size (Arg (argstr a) (arg_globbed a) (Some t) (was_quoted a)) \<le> size_list size t" by (rule size_list_estimation') simp
  then show False by simp
qed

section \<open>NUL-terminated fields\<close>

lemma cstr_list: "0 \<notin> set s \<Longrightarrow> cstr (us @ s @ 0 # vs) (length us) s \<longleftrightarrow> us \<noteq> []"
proof (induction s arbitrary: us)
  case Nil
  then show ?case by (auto simp: rd_def nth_append)
next
  case (Cons c s)
  then show ?case using Cons.IH [of "us @ [c]"] by (auto simp: rd_def nth_append)
qed

lemma print0_fields:
  "us \<noteq> [] \<Longrightarrow> \<forall>s\<in>set ss. 0 \<notin> set s \<Longrightarrow>
    parse_print0_loop (length us + length (concat (map (\<lambda>s. s @ [0]) ss))) (us @ concat (map (\<lambda>s. s @ [0]) ss) @ vs) (length us) =
      Some (map (\<lambda>s. new_arg s True) ss)"
proof (induction ss arbitrary: us)
  case Nil
  then show ?case by (subst parse_print0_loop.simps) simp
next
  case (Cons s ss)
  let ?t = "concat (map (\<lambda>s. s @ [0]) ss)" and ?us = "us @ s @ [0]"
  let ?m = "us @ (s @ [0] @ ?t) @ vs"
  have m: "?m = us @ s @ 0 # (?t @ vs)" "?m = ?us @ ?t @ vs" by simp_all
  have "strlen ?m (length us) = Some (length s)"
    unfolding m(1) by (rule strlen_cstr) (use cstr_list [of s us] Cons.prems in simp)
  moreover have "get_block ?m (length us) (length s) = Some s"
    using Cons.prems by (simp add: get_block_def valid_block_def)
  moreover have "parse_print0_loop (length ?us + length ?t) (?us @ ?t @ vs) (length ?us) = Some (map (\<lambda>s. new_arg s True) ss)"
    using Cons.prems by (intro Cons.IH) auto
  ultimately show ?case
    by (subst parse_print0_loop.simps) (simp add: m(2) [simplified] add_ac)
qed

section \<open>The whole start-up\<close>

lemma setup_vector:
  assumes a: "make_argv0 st = Some a0" "cmdline_args st = Some al1" "proxy_args st al1 = Some al2"
    and b: "b = (3 < length al2 \<and> argstr (al2 ! 0) = tl PROXY)"
    and c: "(if b then proxied_args st al2 else Some al2) = Some al3"
      "(if DISALLOW_RESPONSE_FILES st then Some al3
        else expand_response_files (readable st) (\<lambda>c. response_bytes (behind st) c (\<not> KEEP_QUOTES st)) al3) = Some al4"
    and al: "al = (if \<not> b \<or> environment st PROXY \<noteq> None then expand_wildcards (globber st) al4 else al4)"
  shows "setup_arguments st = Some (length ((if b then [] else [a0]) @ leaves al), map Some ((if b then [] else [a0]) @ leaves al) @ [None])"
proof -
  have f: "fill_args v p al = Some (put_all (v, p) (leaves al))" if "length v = p + length (leaves al) + 1" for v p
    using that by (intro fill_args_all) (simp add: count_args_leaves)
  have d: "drop n (None # replicate n None) = [None]" for n using drop_replicate [of n "Suc n" None] by simp
  show ?thesis
  proof (cases b)
    case True
    have "fill_args (replicate (length (leaves al) + 1) None) 0 al = Some (put_all (replicate (length (leaves al) + 1) None, 0) (leaves al))"
      by (rule f) simp
    then show ?thesis using a b c al True
      by (simp add: setup_arguments_def Let_def count_args_leaves put_all_def put_arg_def list_update_append d)
  next
    case False
    have "fill_args (Some a0 # replicate (length (leaves al) + 1) None) 1 al =
        Some (put_all (Some a0 # replicate (length (leaves al) + 1) None, 1) (leaves al))"
      by (rule f) simp
    then show ?thesis using a b c al False
      by (auto simp: setup_arguments_def Let_def count_args_leaves put_all_def put_arg_def list_update_append d)
  qed
qed

text \<open>The examples of the witnesses: a line, a file that names another one, and a file that names itself.\<close>

definition ex_line :: "byte list" where
  "ex_line = text_bytes (''a '' @ [CHR 0x22] @ ''x y'' @ [CHR 0x22])"

definition ex_files :: "byte list \<Rightarrow> byte list option" where
  "ex_files f =
     (if f = text_bytes ''a'' then Some (text_bytes ''x @b'') else if f = text_bytes ''b'' then Some (text_bytes ''y'') else None)"

definition ex_self :: "byte list \<Rightarrow> byte list option" where
  "ex_self f = (if f = text_bytes ''s'' then Some (text_bytes ''@s'') else None)"

definition ex_rank :: "byte list \<Rightarrow> nat" where
  "ex_rank f = (if f = text_bytes ''a'' then 1 else 0)"

lemma ex_parsed:
  "response_bytes [0, 0] (text_bytes ''x @b'') True = Some [new_arg (text_bytes ''x'') False, new_arg (text_bytes ''@b'') False]"
  "response_bytes [0, 0] (text_bytes ''y'') True = Some [new_arg (text_bytes ''y'') False]"
  "response_bytes [0, 0] (text_bytes ''@s'') True = Some [new_arg (text_bytes ''@s'') False]"
  by code_simp+

lemma ex_named:
  "response_file ex_files (new_arg (text_bytes ''x'') False) = None" "response_file ex_files (new_arg (text_bytes ''y'') False) = None"
  "ex_rank (tl (argstr (new_arg (text_bytes ''@b'') False))) < ex_rank (text_bytes ''a'')"
  "response_file ex_self (new_arg (text_bytes ''@s'') False) = Some (text_bytes ''@s'')"
  by code_simp+

lemma ex_ranked: "ranked ex_rank ex_files (\<lambda>c. response_bytes [0, 0] c True)"
  unfolding ranked_def
proof (intro allI impI)
  fix f c assume "ex_files f = Some c"
  then have "f = text_bytes ''a'' \<and> c = text_bytes ''x @b'' \<or> f = text_bytes ''b'' \<and> c = text_bytes ''y''"
    by (simp add: ex_files_def split: if_splits)
  then show "\<exists>fl. response_bytes [0, 0] c True = Some fl \<and>
      (\<forall>a\<in>set fl. response_file ex_files a \<noteq> None \<longrightarrow> ex_rank (tl (argstr a)) < ex_rank f)"
    by (elim disjE) (auto simp: ex_parsed ex_named)
qed

definition ex_globbing :: startup where
  "ex_globbing = \<lparr>startup_flags = 0x10, dos_argv0 = text_bytes ''D:/P'', stub_argv0 = [], doscmd = [3] @ text_bytes ''x *'' @ [0x0d],
     environment = (\<lambda>_. None), dosmem = [], readable = ex_files,
     globber = (\<lambda>s. if s = text_bytes ''*'' then Some [text_bytes ''y'', text_bytes ''z''] else None), behind = [0, 0]\<rparr>"

section \<open>Properties\<close>

text \<open>
  C22. The splitting of a line in place, which overwrites the line with the arguments as it goes, yields the arguments that the splitting of
  a list of characters defines, and changes no byte before or behind the line. It reads at most two bytes behind it; these can only
  matter for \<^verbatim>\<open>was_quoted\<close>.
\<close>

theorem parse_bytes_in_place:
  assumes "0 < p" "drop p m = xs @ ys" "2 \<le> length ys"
  shows "\<exists>m'. parse_bytes m p (length xs) unquote = Some (m', split_bytes unquote ys xs) \<and>
    take p m' = take p m \<and> drop (p + length xs) m' = drop (p + length xs) m"
  using parse_bytes_split [of m p "p + length xs" xs ys unquote] assms by (simp add: parse_bytes_def line_at_def)

theorem parse_bytes_in_place_witness:
  "\<exists>m'. parse_bytes (0 # ex_line @ [0, 0]) 1 7 True = Some (m', [new_arg (text_bytes ''a'') False, new_arg (text_bytes ''x y'') False])"
proof -
  have e: "length ex_line = 7" "split_bytes True [0, 0] ex_line = [new_arg (text_bytes ''a'') False, new_arg (text_bytes ''x y'') False]"
    by code_simp+
  show ?thesis using parse_bytes_in_place [of 1 "0 # ex_line @ [0, 0]" ex_line "[0, 0]" True] e by auto
qed

text \<open>
  C23. Response files are expanded to the end, for every list of arguments, if they can be ranked such that every file can be
  split and names only files of lower rank. A file that names itself is never expanded to the end.
\<close>

theorem response_files_end:
  "(ranked rank files parse \<longrightarrow> (\<exists>al'. expand_response_files files parse al = Some al')) \<and>
    (parse c = Some fl \<and> a \<in> set fl \<and> response_file files a = Some c \<longrightarrow> expand_response_files files parse fl = None)"
  using expand_ends [of rank files parse al] expand_self_reference [of parse c fl a files] by blast

theorem response_files_end_witness:
  "(\<exists>al'. expand_response_files ex_files (\<lambda>c. response_bytes [0, 0] c True) [new_arg (text_bytes ''@a'') False] = Some al') \<and>
    expand_response_files ex_self (\<lambda>c. response_bytes [0, 0] c True) [new_arg (text_bytes ''@s'') False] = None"
  using response_files_end [of ex_rank ex_files "\<lambda>c. response_bytes [0, 0] c True"]
    response_files_end [of _ ex_self "\<lambda>c. response_bytes [0, 0] c True" _ "text_bytes ''@s''" "[new_arg (text_bytes ''@s'') False]" "new_arg (text_bytes ''@s'') False"]
    ex_ranked ex_parsed(3) ex_named(4) by simp

text \<open>
  The vector for \<^verbatim>\<open>main\<close>: once the arguments are gathered, in whatever way, \<^verbatim>\<open>count_args\<close> counts what \<^verbatim>\<open>fill_args\<close> stores, so that
  \<^verbatim>\<open>argv\<close> has just the room for it: the strings of the tree in order, response files and wildcards replaced by what they stand for,
  and a null pointer. The program's name comes first unless a proxy supplied all arguments.
\<close>

theorem argv_is_complete:
  assumes "make_argv0 st = Some a0" "cmdline_args st = Some al1" "proxy_args st al1 = Some al2"
    and "by_proxy = (3 < length al2 \<and> argstr (al2 ! 0) = tl PROXY)"
    and "(if by_proxy then proxied_args st al2 else Some al2) = Some al3"
      "(if DISALLOW_RESPONSE_FILES st then Some al3
        else expand_response_files (readable st) (\<lambda>c. response_bytes (behind st) c (\<not> KEEP_QUOTES st)) al3) = Some al4"
    and "args = (if by_proxy then [] else [a0]) @
      leaves (if \<not> by_proxy \<or> environment st PROXY \<noteq> None then expand_wildcards (globber st) al4 else al4)"
  shows "setup_arguments st = Some (length args, map Some args @ [None])"
  using setup_vector [OF assms(1-6) refl] assms(7) by simp

theorem argv_is_complete_witness:
  "setup_arguments ex_globbing =
    Some (4, [Some (text_bytes ''d:/p''), Some (text_bytes ''x''), Some (text_bytes ''y''), Some (text_bytes ''z''), None])"
proof -
  let ?al = "[new_arg (text_bytes ''x'') False, new_arg (text_bytes ''*'') False]"
  have e: "make_argv0 ex_globbing = Some (text_bytes ''d:/p'')" "cmdline_args ex_globbing = Some ?al" "proxy_args ex_globbing ?al = Some ?al"
    "leaves (expand_wildcards (globber ex_globbing) ?al) = [text_bytes ''x'', text_bytes ''y'', text_bytes ''z'']"
    "DISALLOW_RESPONSE_FILES ex_globbing"
    by code_simp+
  show ?thesis
    using argv_is_complete [OF e(1-3), of False ?al ?al "[text_bytes ''d:/p'', text_bytes ''x'', text_bytes ''y'', text_bytes ''z'']"] e(4,5)
    by simp
qed

end
