(* ===== verification/Dosexec.thy ===== *)
theory Dosexec
  imports Crt0_Args
begin

text \<open>
  The command line that \<^verbatim>\<open>dos/process/dosexec.c\<close> builds for a program that is not a DJGPP program: \<^verbatim>\<open>direct_exec\<close> in an array of
  127 bytes, \<^verbatim>\<open>direct_pe_exec\<close> in an area of computed size, as the value of the variable \<^verbatim>\<open>CMDLINE\<close>. Both quote arguments that have blanks.
  \<^verbatim>\<open>direct_exec_tail_1\<close> then stores the command tail. \<^term>\<open>None\<close> is a store outside of the array or area. The version and flavour of DOS
  are arguments. The way from these bytes back to \<^verbatim>\<open>argv\<close> is that of \<open>Crt0_Args\<close>.
\<close>

section \<open>Shells\<close>

definition CMDLEN_LIMIT :: nat where "CMDLEN_LIMIT = 126"
definition CMDLINE_MAX :: nat where "CMDLINE_MAX = 1023"

definition shell_brokets :: "(byte list \<times> 32 word) list" where
  "shell_brokets = [(text_bytes ''COMMAND.COM'', - 2), (text_bytes ''4DOS.COM'', 255), (text_bytes ''NDOS.COM'', 255)]"

definition unix_shells :: "(byte list \<times> 32 word) list" where
  "unix_shells =
     [(text_bytes ''SH.EXE'', - 1), (text_bytes ''-SH.EXE'', - 1), (text_bytes ''SH16.EXE'', of_nat CMDLEN_LIMIT),
      (text_bytes ''SH32.EXE'', of_nat CMDLEN_LIMIT), (text_bytes ''TCSH.EXE'', of_nat CMDLINE_MAX),
      (text_bytes ''-TCSH.EXE'', of_nat CMDLINE_MAX), (text_bytes ''BASH.EXE'', - 1), (text_bytes ''-BASH.EXE'', - 1)]"

definition same_nocase :: "byte list \<Rightarrow> byte list \<Rightarrow> bool" where
  "same_nocase a b \<longleftrightarrow> map tolower_byte a = map tolower_byte b"

definition base_name :: "byte list \<Rightarrow> byte list" where
  "base_name p = drop (dir_length p) p"

definition shell_limit :: "byte list \<Rightarrow> (byte list \<times> 32 word) list \<Rightarrow> 32 word option" where
  "shell_limit program l = map_option snd (find (\<lambda>e. same_nocase (base_name program) (fst e)) l)"

definition shell_cmdline_limit :: "nat \<Rightarrow> byte list \<Rightarrow> byte list \<Rightarrow> 32 word" where
  "shell_cmdline_limit osmajor flavor program =
     (case shell_limit program shell_brokets of
        Some l \<Rightarrow> if l = - 2 then if 7 \<le> osmajor \<and> osmajor < 10 then - 1 else of_nat CMDLEN_LIMIT else l
      | None \<Rightarrow>
        (case shell_limit program unix_shells of
           Some l \<Rightarrow>
             if l = - 2 then
               if 7 \<le> osmajor \<and> osmajor < 10 \<and> same_nocase flavor (text_bytes ''ms-dos'') then of_nat CMDLINE_MAX
               else of_nat CMDLEN_LIMIT
             else l
         | None \<Rightarrow> 0))"

definition list_member :: "byte list \<Rightarrow> (byte list \<times> 32 word) list \<Rightarrow> bool" where
  "list_member program l \<longleftrightarrow> (\<exists>e\<in>set l. same_nocase (base_name program) (fst e))"

definition is_unixy_shell :: "byte list \<Rightarrow> bool" where "is_unixy_shell p = list_member p unix_shells"
definition is_dos_shell :: "byte list \<Rightarrow> bool" where "is_dos_shell p = list_member p shell_brokets"

section \<open>Quoting\<close>

text \<open>The line so far and a store behind it, in an area of the given size.\<close>

definition put_char :: "nat \<Rightarrow> byte list \<Rightarrow> byte \<Rightarrow> byte list option" where
  "put_char sz l c = (if length l < sz then Some (l @ [c]) else None)"

fun put_chars :: "nat \<Rightarrow> nat \<Rightarrow> bool \<Rightarrow> bool \<Rightarrow> byte list \<Rightarrow> byte list \<Rightarrow> byte list option" where
  "put_chars sz limit esc unesc l [] = Some l"
| "put_chars sz limit esc unesc l (c # p) =
     (if limit < length l then Some l
      else do {
        l \<leftarrow> (if c = 0x22 \<and> esc then put_char sz l 0x5c else Some l);
        let skip = (\<not> (c = 0x22 \<and> esc) \<and> c = 0x5c \<and> p \<noteq> [] \<and> hd p = 0x27 \<and> unesc);
        if limit < length l then Some l
        else if skip then do { l \<leftarrow> put_char sz l (hd p); put_chars sz limit esc unesc l (tl p) }
        else do { l \<leftarrow> put_char sz l c; put_chars sz limit esc unesc l p } })"

fun put_args :: "nat \<Rightarrow> nat \<Rightarrow> bool \<Rightarrow> bool \<Rightarrow> byte list \<Rightarrow> byte list list \<Rightarrow> byte list option" where
  "put_args sz limit need_quote unesc l [] = Some l"
| "put_args sz limit need_quote unesc l (a # as) =
     (if limit < length l then Some l
      else do {
        l \<leftarrow> put_char sz l 0x20;
        let quoted = (need_quote \<and> (0x20 \<in> set a \<or> 0x09 \<in> set a));
        if quoted \<and> limit < length l then Some l
        else do {
          l \<leftarrow> (if quoted then put_char sz l 0x22 else Some l);
          l \<leftarrow> put_chars sz limit (quoted \<or> need_quote) unesc l a;
          l \<leftarrow> (if quoted \<and> length l \<le> limit then put_char sz l 0x22 else Some l);
          put_args sz limit need_quote unesc l as } })"

text \<open>What is handed to \<^verbatim>\<open>direct_exec_tail\<close>: the tail, the variable if the tail is too long for DOS, and whether \<^verbatim>\<open>errno\<close> was set to \<^verbatim>\<open>E2BIG\<close>.\<close>

record exec_request =
  exec_args :: "byte list"
  cmdline_var :: "byte list option"
  e2big :: bool

definition quoting :: "bool \<Rightarrow> byte list \<Rightarrow> byte list list \<Rightarrow> bool" where
  "quoting in_system program argv \<longleftrightarrow>
     \<not> in_system \<and> \<not> (length argv = 3 \<and> argv ! 1 = text_bytes ''/c'' \<and> is_dos_shell program)"

definition unescaping :: "bool \<Rightarrow> byte list \<Rightarrow> bool" where
  "unescaping in_system program \<longleftrightarrow> in_system \<and> \<not> is_unixy_shell program"

definition program_part :: "byte list \<Rightarrow> byte list" where
  "program_part program =
     map (\<lambda>c. if c = 0x2f then 0x5c else c) (if 0x20 \<in> set program then [0x22] @ program @ [0x22] else program)"

definition pe_size :: "byte list \<Rightarrow> byte list list \<Rightarrow> nat" where
  "pe_size program argv =
     length (text_bytes ''CMDLINE='') + length program + 2 + sum_list (map (\<lambda>a. 2 * length a + 1 + 2) (tl argv)) + 1"

definition direct_pe_exec :: "bool \<Rightarrow> byte list \<Rightarrow> byte list list \<Rightarrow> exec_request option" where
  "direct_pe_exec in_system program argv =
     (let varp = text_bytes ''CMDLINE='' @ program_part program;
          sz = pe_size program argv in
      do { l \<leftarrow> put_args sz CMDLINE_MAX (quoting in_system program argv) (unescaping in_system program) varp (tl argv);
           _ \<leftarrow> put_char sz l 0;
           let args = drop (length varp) l;
           Some \<lparr>exec_args = args, cmdline_var = (if CMDLEN_LIMIT < length args then Some l else None), e2big = (CMDLINE_MAX < length l)\<rparr> })"

definition direct_exec :: "nat \<Rightarrow> byte list \<Rightarrow> bool \<Rightarrow> byte list \<Rightarrow> byte list list \<Rightarrow> exec_request option" where
  "direct_exec osmajor flavor in_system program argv =
     (if (is_dos_shell program \<or> is_unixy_shell program) \<and> of_nat CMDLEN_LIMIT < shell_cmdline_limit osmajor flavor program
      then direct_pe_exec in_system program argv
      else do {
        l \<leftarrow> put_args (CMDLEN_LIMIT + 1) CMDLEN_LIMIT (quoting in_system program argv) (unescaping in_system program) [] (tl argv);
        _ \<leftarrow> put_char (CMDLEN_LIMIT + 1) l 0;
        Some \<lparr>exec_args = l, cmdline_var = None, e2big = (CMDLEN_LIMIT < length l)\<rparr> })"

text \<open>The command tail: its length, or 127 if the line is in \<^verbatim>\<open>CMDLINE\<close>, the characters and a carriage return.\<close>

definition command_tail :: "exec_request \<Rightarrow> byte list" where
  "command_tail x =
     (let n = min (length (exec_args x)) CMDLEN_LIMIT in
      (if CMDLEN_LIMIT < length (exec_args x) \<and> cmdline_var x \<noteq> None then 127 else of_nat n) # take n (exec_args x) @ [0x0d])"

section \<open>The line without bounds\<close>

fun escaped :: "bool \<Rightarrow> bool \<Rightarrow> byte list \<Rightarrow> byte list" where
  "escaped esc unesc [] = []"
| "escaped esc unesc (c # p) =
     (if c = 0x22 \<and> esc then 0x5c # c # escaped esc unesc p
      else if c = 0x5c \<and> p \<noteq> [] \<and> hd p = 0x27 \<and> unesc then hd p # escaped esc unesc (tl p)
      else c # escaped esc unesc p)"

definition has_blank :: "byte list \<Rightarrow> bool" where
  "has_blank a \<longleftrightarrow> 0x20 \<in> set a \<or> 0x09 \<in> set a"

definition quote_arg :: "bool \<Rightarrow> bool \<Rightarrow> byte list \<Rightarrow> byte list" where
  "quote_arg nq unesc a =
     (if nq \<and> has_blank a then [0x22] @ escaped True unesc a @ [0x22] else escaped nq unesc a)"

definition exec_line :: "bool \<Rightarrow> bool \<Rightarrow> byte list list \<Rightarrow> byte list" where
  "exec_line nq unesc as = concat (map (\<lambda>a. 0x20 # quote_arg nq unesc a) as)"

lemma put_char_ok: "length l < sz \<Longrightarrow> put_char sz l c = Some (l @ [c])"
  by (simp add: put_char_def)

lemma put_chars_line:
  "length l \<le> limit + 1 \<Longrightarrow> min (limit + 1) (length l + length (escaped esc unesc a)) \<le> sz \<Longrightarrow>
    put_chars sz limit esc unesc l a = Some (take (limit + 1) (l @ escaped esc unesc a))"
proof (induction sz limit esc unesc l a rule: put_chars.induct)
  case (2 sz limit esc unesc l c p)
  show ?case
  proof (cases "limit < length l")
    case True
    then show ?thesis using 2(3) by simp
  next
    case False
    consider (quote) "c = 0x22 \<and> esc" | (skip) "\<not> (c = 0x22 \<and> esc)" "c = 0x5c \<and> p \<noteq> [] \<and> hd p = 0x27 \<and> unesc"
      | (plain) "\<not> (c = 0x22 \<and> esc)" "\<not> (c = 0x5c \<and> p \<noteq> [] \<and> hd p = 0x27 \<and> unesc)" by blast
    then show ?thesis
    proof cases
      case quote
      show ?thesis
      proof (cases "limit < length l + 1")
        case True
        then have "limit = length l" using False by simp
        then show ?thesis using quote 2(3,4) by (simp add: put_char_def)
      next
        case lt: False
        have "put_chars sz limit esc unesc (l @ [0x5c, c]) p = Some (take (limit + 1) ((l @ [0x5c, c]) @ escaped esc unesc p))"
          using False lt quote 2(4) by (intro 2(2) [of "l @ [0x5c]" False]) (auto simp: put_char_def)
        then show ?thesis using False lt quote 2(4) by (simp add: put_char_def)
      qed
    next
      case skip
      have "put_chars sz limit esc unesc (l @ [hd p]) (tl p) = Some (take (limit + 1) ((l @ [hd p]) @ escaped esc unesc (tl p)))"
        using False skip 2(4) by (intro 2(1) [of l True]) (auto simp: put_char_def)
      then show ?thesis using False skip 2(4) by (auto simp: put_char_def)
    next
      case plain
      have "put_chars sz limit esc unesc (l @ [c]) p = Some (take (limit + 1) ((l @ [c]) @ escaped esc unesc p))"
        using False plain 2(4) by (intro 2(2) [of l False]) (auto simp: put_char_def)
      then show ?thesis using False plain 2(4) by (auto simp: put_char_def)
    qed
  qed
qed simp

text \<open>The line stops at the limit, wherever that is.\<close>

lemma put_args_line:
  "length l \<le> limit + 1 \<Longrightarrow> min (limit + 1) (length l + length (exec_line nq unesc as)) \<le> sz \<Longrightarrow>
    put_args sz limit nq unesc l as = Some (take (limit + 1) (l @ exec_line nq unesc as))"
proof (induction as arbitrary: l)
  case (Cons a as)
  show ?case
  proof (cases "limit < length l")
    case True
    then show ?thesis using Cons.prems by simp
  next
    case False
    let ?q = "nq \<and> has_blank a" and ?e = "escaped nq unesc a" and ?r = "exec_line nq unesc as"
    have line: "exec_line nq unesc (a # as) = 0x20 # (if ?q then 0x22 # ?e @ 0x22 # ?r else ?e @ ?r)"
      by (cases nq) (auto simp: exec_line_def quote_arg_def)
    have sz: "min (limit + 1) (length l + 1 + (if ?q then length ?e + 2 else length ?e) + length ?r) \<le> sz"
      using Cons.prems(2) unfolding line by (cases ?q) (auto simp: add_ac)
    have p1: "put_char sz l 0x20 = Some (l @ [0x20])" using False sz by (intro put_char_ok) linarith
    have rest: "put_args sz limit nq unesc (take (limit + 1) t) as = Some (take (limit + 1) (t @ ?r))"
      if "min (limit + 1) (length t + length ?r) \<le> sz" for t
    proof -
      have "put_args sz limit nq unesc (take (limit + 1) t) as = Some (take (limit + 1) (take (limit + 1) t @ ?r))"
        using that by (intro Cons.IH) auto
      then show ?thesis by (cases "limit + 1 \<le> length t") auto
    qed
    show ?thesis
    proof (cases ?q)
      case no: False
      have "put_chars sz limit nq unesc (l @ [0x20]) a = Some (take (limit + 1) ((l @ [0x20]) @ ?e))"
        using False sz no by (intro put_chars_line) auto
      then have "put_args sz limit nq unesc l (a # as) = put_args sz limit nq unesc (take (limit + 1) (l @ 0x20 # ?e)) as"
        using False p1 no by (auto simp: has_blank_def)
      then show ?thesis using rest [of "l @ 0x20 # ?e"] sz no line by auto
    next
      case q: True
      have u: "put_args sz limit nq unesc l (a # as) =
          (if limit < length l + 1 then Some (l @ [0x20])
           else do {
             l1 \<leftarrow> put_char sz (l @ [0x20]) 0x22;
             l2 \<leftarrow> put_chars sz limit True unesc l1 a;
             l3 \<leftarrow> (if length l2 \<le> limit then put_char sz l2 0x22 else Some l2);
             put_args sz limit nq unesc l3 as })"
        using False p1 q by (auto simp: has_blank_def)
      show ?thesis
      proof (cases "limit < length l + 1")
        case True
        then have "limit = length l" using False by simp
        then show ?thesis using u line by simp
      next
        case lt: False
        let ?l1 = "l @ [0x20, 0x22]"
        have e: "?e = escaped True unesc a" using q by simp
        have p2: "put_char sz (l @ [0x20]) 0x22 = Some ?l1" using lt sz q by (subst put_char_ok) auto
        have p3: "put_chars sz limit True unesc ?l1 a = Some (take (limit + 1) (?l1 @ ?e))"
          unfolding e [symmetric] using lt sz q by (subst e, intro put_chars_line) (auto simp: e)
        define l2 where "l2 = take (limit + 1) (?l1 @ ?e)"
        have p4: "(if length l2 \<le> limit then put_char sz l2 0x22 else Some l2) = Some (take (limit + 1) (?l1 @ ?e @ [0x22]))"
        proof (cases "length (?l1 @ ?e) \<le> limit")
          case True
          then have "l2 = ?l1 @ ?e" by (simp add: l2_def)
          then show ?thesis using True sz q by (auto simp: put_char_def)
        next
          case False
          have "take (limit + 1) ((?l1 @ ?e) @ [0x22]) = take (limit + 1) (?l1 @ ?e)"
            using False unfolding take_append [of _ "?l1 @ ?e"] by simp
          then have "l2 = take (limit + 1) (?l1 @ ?e @ [0x22])" by (simp add: l2_def)
          moreover have "length l2 = limit + 1" using False by (simp add: l2_def)
          ultimately show ?thesis by (metis Suc_eq_plus1 not_less_eq_eq order_refl)
        qed
        have "put_args sz limit nq unesc l (a # as) = put_args sz limit nq unesc (take (limit + 1) (?l1 @ ?e @ [0x22])) as"
          unfolding u if_not_P [OF lt] p2 Option.bind.bind_lunit p3 [folded l2_def] p4 ..
        then show ?thesis using rest [of "?l1 @ ?e @ [0x22]"] sz q line by simp
      qed
    qed
  qed
qed (simp add: exec_line_def)

lemma length_escaped: "length (escaped esc unesc a) \<le> 2 * length a"
proof (induction esc unesc a rule: escaped.induct)
  case (2 esc unesc c p)
  then show ?case by (cases p) auto
qed simp

lemma length_exec_line: "length (exec_line nq unesc as) \<le> sum_list (map (\<lambda>a. 2 * length a + 1 + 2) as)"
proof (induction as)
  case (Cons a as)
  have "length (quote_arg nq unesc a) \<le> 2 * length a + 2"
    using length_escaped [of True unesc a] length_escaped [of nq unesc a] by (auto simp: quote_arg_def)
  then show ?case using Cons by (simp add: exec_line_def)
qed (simp add: exec_line_def)

lemma length_program_part: "length (program_part p) \<le> length p + 2"
  by (simp add: program_part_def)

section \<open>Reading the line back\<close>

lemma blank_iff: "blank c \<longleftrightarrow> 9 \<le> uint c \<and> uint c \<le> 13 \<or> uint c = 32"
  unfolding blank_def by (rule isspace_iff) (unfold is_char_def, use uint_byte_range [of c] in linarith)

lemma blank_chars: "blank 0x20" "\<not> blank 0x22" "\<not> blank 0x5c"
  by (simp_all add: blank_iff)

lemma quotable_iff: "quotable c \<longleftrightarrow> c = 0x27 \<or> c = 0x22 \<or> c = 0"
  by (simp add: quotable_def text_bytes_def)

text \<open>No backslash directly before a single quote.\<close>

fun apart :: "byte list \<Rightarrow> bool" where
  "apart (c # d # s) \<longleftrightarrow> \<not> (c = 0x5c \<and> d = 0x27) \<and> apart (d # s)"
| "apart s \<longleftrightarrow> True"

text \<open>The arguments that reach a child unchanged.\<close>

definition survives :: "byte list \<Rightarrow> bool" where
  "survives a \<longleftrightarrow> a \<noteq> [] \<and> 0 \<notin> set a \<and>
     (if has_blank a then last a \<noteq> 0x5c \<and> apart a else \<forall>c\<in>set a. \<not> blank c \<and> c \<noteq> 0x27)"

lemma escaped_hd: "a \<noteq> [] \<Longrightarrow> hd (escaped True False a @ r) = (if hd a = 0x22 then 0x5c else hd a)"
  by (cases a) auto

lemma escaped_Nil: "escaped True False a = [] \<longleftrightarrow> a = []"
  by (cases a) auto

text \<open>A character after a backslash that is not a quote leaves the backslash alone.\<close>

lemma after_backslash:
  "hd a \<noteq> 0x27 \<Longrightarrow> hd a \<noteq> 0 \<Longrightarrow> a \<noteq> [] \<Longrightarrow> \<not> quotable (hd (escaped True False a @ r))"
  by (simp add: escaped_hd quotable_iff)

lemma scan_unquoted:
  "0 \<notin> set a \<Longrightarrow> \<forall>c\<in>set a. \<not> blank c \<and> c \<noteq> 0x27 \<Longrightarrow> r = [] \<or> hd r = 0x20 \<Longrightarrow>
    scan True ys 0 (escaped True False a @ r) = (a, False, r)"
proof (induction a)
  case Nil
  then show ?case by (cases r) (auto simp: scan.simps(2) blank_chars)
next
  case (Cons c a)
  have ih: "scan True ys 0 (escaped True False a @ r) = (a, False, r)" using Cons by simp
  show ?case
  proof (cases "c = 0x22")
    case True
    then show ?thesis using ih by (simp add: scan.simps(2) blank_chars quotable_iff add_byte_def)
  next
    case False
    have "\<not> (c = 0x5c \<and> escaped True False a @ r \<noteq> [] \<and> quotable (hd (escaped True False a @ r)))"
    proof (cases a)
      case Nil
      then show ?thesis using Cons.prems(3) by (auto simp: quotable_iff)
    next
      case (Cons d b)
      then show ?thesis using after_backslash [of a r] Cons.prems(1,2) by auto
    qed
    then show ?thesis using False Cons.prems ih by (auto simp: scan.simps(2) add_byte_def mark_quoted_def)
  qed
qed

lemma scan_quoted:
  "0 \<notin> set a \<Longrightarrow> apart a \<Longrightarrow> a = [] \<or> last a \<noteq> 0x5c \<Longrightarrow> r = [] \<or> hd r = 0x20 \<Longrightarrow>
    \<exists>w. scan True ys 0x22 (escaped True False a @ 0x22 # r) = (a, w, r)"
proof (induction a)
  case Nil
  then show ?case by (cases r) (auto simp: scan.simps(2) blank_chars add_byte_def)
next
  case (Cons c a)
  have "apart a" using Cons.prems(2) by (cases a) auto
  then obtain w where ih: "scan True ys 0x22 (escaped True False a @ 0x22 # r) = (a, w, r)"
    using Cons by (auto split: if_splits)
  show ?case
  proof (cases "c = 0x22")
    case True
    then show ?thesis using ih by (simp add: scan.simps(2) quotable_iff add_byte_def)
  next
    case False
    have "\<not> (c = 0x5c \<and> escaped True False a @ 0x22 # r \<noteq> [] \<and> quotable (hd (escaped True False a @ 0x22 # r)))"
    proof (cases a)
      case Nil
      then show ?thesis using Cons.prems(3) by auto
    next
      case (Cons d b)
      then show ?thesis using after_backslash [of a "0x22 # r"] Cons.prems(1,2) by auto
    qed
    then show ?thesis using False ih by (auto simp: scan.simps(2) add_byte_def mark_quoted_def)
  qed
qed

lemma scan_survives:
  assumes "survives a" "r = [] \<or> hd r = 0x20"
  shows "\<exists>w. scan True ys 0 (quote_arg True False a @ r) = (a, w, r)"
proof (cases "has_blank a")
  case True
  then obtain w where "scan True ys 0x22 (escaped True False a @ 0x22 # r) = (a, w, r)"
    using scan_quoted [of a r ys] assms by (auto simp: survives_def)
  then show ?thesis using True by (simp add: quote_arg_def scan.simps(2) blank_chars add_byte_def)
next
  case False
  then show ?thesis using scan_unquoted [of a r ys] assms by (auto simp: quote_arg_def survives_def)
qed

lemma quote_arg_start:
  assumes "survives a"
  shows "quote_arg True False a \<noteq> []" "\<not> blank (hd (quote_arg True False a @ r))"
proof -
  have "a \<noteq> []" using assms by (simp add: survives_def)
  then show "quote_arg True False a \<noteq> []" by (simp add: quote_arg_def escaped_Nil)
  show "\<not> blank (hd (quote_arg True False a @ r))"
    using assms \<open>a \<noteq> []\<close> by (cases "has_blank a") (auto simp: quote_arg_def escaped_hd survives_def blank_chars)
qed

lemma exec_line_hd: "exec_line nq unesc as = [] \<or> hd (exec_line nq unesc as) = 0x20"
  by (cases as) (auto simp: exec_line_def)

lemma escaped_no_NUL: "0 \<notin> set a \<Longrightarrow> 0 \<notin> set (escaped True False a)"
  by (induction a) auto

lemma exec_line_no_NUL: "\<forall>a\<in>set as. 0 \<notin> set a \<Longrightarrow> 0 \<notin> set (exec_line True False as)"
  using escaped_no_NUL by (induction as) (auto simp: exec_line_def quote_arg_def)

lemma takeWhile_survives: "survives a \<Longrightarrow> takeWhile (\<lambda>c. c \<noteq> 0) a = a"
  by (auto simp: survives_def takeWhile_eq_all_conv)

lemma split_first:
  assumes "survives a" "r = [] \<or> hd r = 0x20"
  shows "\<exists>w. split_bytes True ys (quote_arg True False a @ r) = new_arg a w # split_bytes True ys (drop 1 r)"
proof -
  obtain w where w: "scan True ys 0 (quote_arg True False a @ r) = (a, w, r)" using scan_survives [OF assms] by blast
  have "dropWhile blank (quote_arg True False a @ r) = quote_arg True False a @ r" "quote_arg True False a @ r \<noteq> []"
    using quote_arg_start [OF assms(1)] by (auto simp: dropWhile_eq_self_iff)
  then show ?thesis using w by (subst split_bytes.simps) (auto simp del: append_is_Nil_conv)
qed

lemma split_leading_blank: "split_bytes un ys (0x20 # xs) = split_bytes un ys xs"
  by (subst (1 2) split_bytes.simps) (simp add: blank_chars)

lemma split_drop_blank: "r = [] \<or> hd r = 0x20 \<Longrightarrow> split_bytes un ys (drop 1 r) = split_bytes un ys r"
  by (cases r) (auto simp: split_leading_blank)

lemma split_exec_line:
  "\<forall>a\<in>set as. survives a \<Longrightarrow> map argstr (split_bytes True ys (exec_line True False as)) = as"
proof (induction as)
  case Nil
  then show ?case by (subst split_bytes.simps) (simp add: exec_line_def)
next
  case (Cons a as)
  let ?r = "exec_line True False as"
  obtain w where "split_bytes True ys (quote_arg True False a @ ?r) = new_arg a w # split_bytes True ys (drop 1 ?r)"
    using split_first [of a ?r ys] Cons.prems exec_line_hd [of True False as] by auto
  then have "split_bytes True ys (exec_line True False (a # as)) = new_arg a w # split_bytes True ys ?r"
    using split_drop_blank [OF exec_line_hd] by (simp add: exec_line_def split_leading_blank)
  then show ?case using Cons takeWhile_survives [of a] by (simp add: new_arg_def)
qed

lemma parse_bytes_line:
  assumes "drop p m = xs @ ys" "0 < p" "2 \<le> length ys"
  shows "\<exists>m'. parse_bytes m p (length xs) un = Some (m', split_bytes un ys xs)"
  using parse_bytes_split [of m p "p + length xs" xs ys un] assms by (auto simp: parse_bytes_def line_at_def)

lemma small_length: "n \<le> 126 \<Longrightarrow> (of_nat n :: byte) \<noteq> 127 \<and> unat ((of_nat n :: byte) AND 0x7f) = n"
proof -
  assume n: "n \<le> 126"
  have u: "unat (of_nat n :: byte) = n" using n by (intro unat_of_nat_small) simp
  have "(of_nat n :: byte) AND mask 7 = take_bit 7 (of_nat n)" by (simp add: take_bit_eq_mask)
  moreover have "unat (take_bit 7 (of_nat n :: byte)) = n"
    using n by (simp add: unsigned_take_bit_eq u take_bit_nat_eq_self)
  moreover have "(of_nat n :: byte) \<noteq> 127" 
  proof
    assume "(of_nat n :: byte) = 127"
    then have "unat (of_nat n :: byte) = 127" by simp
    then show False using u n by simp
  qed
  ultimately show ?thesis by (simp add: mask_eq_decr_exp)
qed

section \<open>From the parent to the child\<close>

lemma direct_exec_plain:
  assumes "\<not> is_dos_shell program" "\<not> is_unixy_shell program"
  shows "direct_exec osmajor flavor in_system program argv =
    (let l = exec_line (\<not> in_system) in_system (tl argv) in
     if length l \<le> CMDLEN_LIMIT then Some \<lparr>exec_args = l, cmdline_var = None, e2big = False\<rparr> else None)"
proof -
  let ?l = "exec_line (\<not> in_system) in_system (tl argv)"
  have q: "quoting in_system program argv = (\<not> in_system)" "unescaping in_system program = in_system"
    using assms by (auto simp: quoting_def unescaping_def)
  have "put_args (CMDLEN_LIMIT + 1) CMDLEN_LIMIT (\<not> in_system) in_system [] (tl argv) = Some (take (CMDLEN_LIMIT + 1) ?l)"
    using put_args_line [of "[]" CMDLEN_LIMIT "\<not> in_system" in_system "tl argv" "CMDLEN_LIMIT + 1"] by simp
  then show ?thesis using assms q by (auto simp: direct_exec_def put_char_def Let_def)
qed

lemma put_args_full: "limit < length l \<Longrightarrow> put_args sz limit nq unesc l as = Some l"
  by (cases as) auto

lemma direct_pe_exec_eq:
  fixes program argv in_system
  defines "v \<equiv> text_bytes ''CMDLINE='' @ program_part program"
    and "r \<equiv> exec_line (quoting in_system program argv) (unescaping in_system program) (tl argv)"
  defines "l \<equiv> (if CMDLINE_MAX < length v then v else take (CMDLINE_MAX + 1) (v @ r))"
  shows "direct_pe_exec in_system program argv =
    Some \<lparr>exec_args = drop (length v) l, cmdline_var = (if CMDLEN_LIMIT < length (drop (length v) l) then Some l else None),
      e2big = (CMDLINE_MAX < length l)\<rparr>"
proof -
  let ?sz = "pe_size program argv"
  have sz: "length v + length r < ?sz"
    using length_exec_line [of "quoting in_system program argv" "unescaping in_system program" "tl argv"] length_program_part [of program]
    by (simp add: v_def r_def pe_size_def)
  have "put_args ?sz CMDLINE_MAX (quoting in_system program argv) (unescaping in_system program) v (tl argv) = Some l"
    using put_args_full [of CMDLINE_MAX v] put_args_line [of v CMDLINE_MAX "quoting in_system program argv" "unescaping in_system program" "tl argv" ?sz] sz
    by (simp add: l_def r_def)
  moreover have "put_char ?sz l 0 = Some (l @ [0])"
    using sz by (intro put_char_ok) (auto simp: l_def)
  ultimately show ?thesis by (simp add: direct_pe_exec_def v_def Let_def)
qed

text \<open>The start-up code finds the tail that the parent stored.\<close>

lemma cmdline_from_tail:
  assumes "length (exec_args x) \<le> CMDLEN_LIMIT" "doscmd st = command_tail x @ pad" "pad @ behind st \<noteq> []"
  shows "\<exists>ys. cmdline_args st = Some (split_bytes (\<not> KEEP_QUOTES st) ys (exec_args x))"
proof -
  let ?n = "length (exec_args x)" and ?ys = "0x0d # pad @ behind st"
  have n: "(of_nat ?n :: byte) \<noteq> 127" "unat ((of_nat ?n :: byte) AND 0x7f) = ?n"
    using small_length [of ?n] assms(1) by (auto simp: CMDLEN_LIMIT_def)
  have t: "command_tail x = of_nat ?n # exec_args x @ [0x0d]" using assms(1) by (simp add: command_tail_def Let_def)
  have "2 \<le> length ?ys" using assms(3) by (cases "pad @ behind st") auto
  then have "\<exists>m'. parse_bytes (0 # doscmd st @ behind st) 2 ?n (\<not> KEEP_QUOTES st) = Some (m', split_bytes (\<not> KEEP_QUOTES st) ?ys (exec_args x))"
    by (intro parse_bytes_line) (auto simp: t assms(2))
  then show ?thesis using n by (auto simp: cmdline_args_def t assms(2))
qed

lemma find_stop_at: "us \<noteq> [] \<Longrightarrow> stop \<notin> set s \<Longrightarrow> find_stop stop (us @ s @ stop # vs) (length us) = Some (length us + length s)"
proof (induction s arbitrary: us)
  case Nil
  then show ?case by (subst find_stop.simps) (simp add: rd_def nth_append)
next
  case (Cons c s)
  have "find_stop stop ((us @ [c]) @ s @ stop # vs) (length (us @ [c])) = Some (length (us @ [c]) + length s)"
    using Cons.prems by (intro Cons.IH) auto
  then show ?case using Cons.prems by (subst find_stop.simps) (auto simp: rd_def nth_append)
qed

text \<open>The line in \<^verbatim>\<open>CMDLINE\<close>: up to the first blank it is skipped, but a quotation mark at its start is all that is skipped of it.\<close>

lemma cmdline_from_variable:
  assumes "hd (doscmd st) = 127" "environment st (text_bytes ''CMDLINE'') = Some (p @ stop # xs)" "behind st \<noteq> []" "0 \<notin> set xs"
    and "p = [] \<and> (stop = 0x22 \<or> stop = 0x27) \<or> p \<noteq> [] \<and> hd p \<noteq> 0x22 \<and> hd p \<noteq> 0x27 \<and> 0x20 \<notin> set p \<and> stop = 0x20"
  shows "cmdline_args st = Some (split_bytes (\<not> KEEP_QUOTES st) (0 # behind st) xs)"
proof -
  let ?m = "0 # (p @ stop # xs) @ [0] @ behind st"
  have m: "?m = [0] @ p @ stop # (xs @ [0] @ behind st)" "?m = (0 # p @ [stop]) @ xs @ 0 # behind st" by simp_all
  have h: "rd ?m 1 = Some (if p = [] then stop else hd p)" by (cases p) (auto simp: rd_def)
  have "find_stop stop ([0] @ p @ stop # (xs @ [0] @ behind st)) (length [0 :: byte]) = Some (length [0 :: byte] + length p)"
    using assms(5) by (intro find_stop_at) auto
  then have f: "find_stop stop ?m 1 = Some (length p + 1)" by simp
  have "cstr ((0 # p @ [stop]) @ xs @ 0 # behind st) (length (0 # p @ [stop])) xs" using cstr_list [OF assms(4)] by blast
  then have s: "strlen ?m (length p + 2) = Some (length xs)" using strlen_cstr by (fastforce simp: m(2) [symmetric])
  have "\<exists>m'. parse_bytes ?m (length p + 2) (length xs) (\<not> KEEP_QUOTES st) = Some (m', split_bytes (\<not> KEEP_QUOTES st) (0 # behind st) xs)"
    using assms(3) by (intro parse_bytes_line) (auto simp: Suc_le_eq)
  then show ?thesis using assms(1,2,5) h f s by (auto simp: cmdline_args_def)
qed

lemma expand_no_files: "expand_response_files (\<lambda>_. None) parse al = Some al"
  by (induction al) (auto simp: expand_simps response_file_def)

lemma leaves_no_glob:
  "\<forall>a\<in>set al. arg_globbed a = None \<and> arg_file a = None \<Longrightarrow> leaves (expand_wildcards (\<lambda>_. None) al) = map argstr al"
proof (induction al)
  case (Cons a al)
  then show ?case by (cases a) auto
qed simp

lemma split_bytes_nodes: "\<forall>a\<in>set (split_bytes un ys xs). arg_globbed a = None \<and> arg_file a = None"
proof (induction un ys xs rule: split_bytes.induct)
  case (1 un ys xs)
  obtain s wq rest where sc: "scan un ys 0 (dropWhile blank xs) = (s, wq, rest)" by (metis prod_cases3)
  show ?case
  proof (cases "dropWhile blank xs = []")
    case True
    then show ?thesis by (subst split_bytes.simps) simp
  next
    case False
    have "\<forall>a\<in>set (split_bytes un ys (drop 1 rest)). arg_globbed a = None \<and> arg_file a = None"
      by (rule 1 [OF refl False]) (use sc in auto)
    then show ?thesis using False sc by (subst split_bytes.simps) (simp add: Let_def new_arg_def)
  qed
qed

definition plain_start :: "startup \<Rightarrow> bool" where
  "plain_start st \<longleftrightarrow> environment st PROXY = None \<and> readable st = (\<lambda>_. None) \<and> globber st = (\<lambda>_. None) \<and> \<not> KEEP_QUOTES st"

lemma setup_plain:
  assumes "plain_start st" "make_argv0 st = Some a0" "cmdline_args st = Some (split_bytes un ys xs)"
    and args: "map argstr (split_bytes un ys xs) = args" "\<not> (3 < length args \<and> hd args = tl PROXY)"
  shows "setup_arguments st = Some (length args + 1, map Some (a0 # args) @ [None])"
proof -
  let ?al = "split_bytes un ys xs"
  have p: "proxy_args st ?al = Some ?al" using assms(1) by (simp add: proxy_args_def plain_start_def)
  have b: "\<not> (3 < length ?al \<and> argstr (?al ! 0) = tl PROXY)"
    using args by (cases ?al) (auto simp del: split_bytes.simps)
  have "setup_arguments st = Some (length ((if False then [] else [a0]) @ leaves (expand_wildcards (globber st) ?al)),
      map Some ((if False then [] else [a0]) @ leaves (expand_wildcards (globber st) ?al)) @ [None])"
    by (rule setup_vector [OF assms(2,3) p, of False ?al ?al]) (use b assms(1) in \<open>auto simp: plain_start_def expand_no_files\<close>)
  then show ?thesis using assms(1) leaves_no_glob [OF split_bytes_nodes, of un ys xs] args(1) by (simp add: plain_start_def)
qed

text \<open>The examples of the witnesses: a program in a directory, started with the arguments \<^verbatim>\<open>a b\<close> and \<^verbatim>\<open>c\<close>.\<close>

definition ex_argv :: "byte list list" where
  "ex_argv = [text_bytes ''p'', text_bytes ''a b'', text_bytes ''c'']"

definition ex_start :: "byte list \<Rightarrow> (byte list \<Rightarrow> byte list option) \<Rightarrow> startup" where
  "ex_start tail env = \<lparr>startup_flags = 0, dos_argv0 = text_bytes ''D:/P'', stub_argv0 = [], doscmd = tail, environment = env,
     dosmem = [], readable = (\<lambda>_. None), globber = (\<lambda>_. None), behind = [0]\<rparr>"

section \<open>Properties\<close>

text \<open>
  The quoting of \<^verbatim>\<open>direct_exec\<close> and the splitting of \<open>Crt0_Args\<close> fit together. The code starts DJGPP programs in another way, through
  a proxy, and assumes that they are not started here; if one is started with such a command tail nevertheless, its start-up code hands to
  \<^verbatim>\<open>main\<close> what was passed to \<^verbatim>\<open>spawn\<close> or \<^verbatim>\<open>exec\<close>: if the arguments are
  not empty, have no NUL, and either have a blank or tabulator, no backslash before a single quote and none at the end, or no white space and
  no single quote, and the line has at most 126 characters, then \<^verbatim>\<open>direct_exec\<close> builds the line within its array, and from the
  command tail \<^verbatim>\<open>__crt0_setup_arguments\<close> makes \<^verbatim>\<open>argv\<close> with the same arguments, followed by a null pointer. The new program does not use a
  proxy, response files or wildcards here.
\<close>

theorem exec_reaches_main:
  assumes "\<not> is_dos_shell program" "\<not> is_unixy_shell program" "\<forall>a\<in>set (tl argv). survives a"
    and "length (exec_line True False (tl argv)) \<le> CMDLEN_LIMIT" "\<not> (3 < length (tl argv) \<and> hd (tl argv) = tl PROXY)"
  shows "\<exists>x. direct_exec osmajor flavor False program argv = Some x \<and> \<not> e2big x \<and>
    (\<forall>st a0 pad. doscmd st = command_tail x @ pad \<longrightarrow> pad @ behind st \<noteq> [] \<longrightarrow> plain_start st \<longrightarrow> make_argv0 st = Some a0 \<longrightarrow>
      setup_arguments st = Some (length (tl argv) + 1, map Some (a0 # tl argv) @ [None]))"
proof -
  let ?x = "\<lparr>exec_args = exec_line True False (tl argv), cmdline_var = None, e2big = False\<rparr>"
  have x: "direct_exec osmajor flavor False program argv = Some ?x"
    using direct_exec_plain [OF assms(1,2), of osmajor flavor False argv] assms(4) by (simp add: Let_def)
  have "setup_arguments st = Some (length (tl argv) + 1, map Some (a0 # tl argv) @ [None])"
    if st: "doscmd st = command_tail ?x @ pad" "pad @ behind st \<noteq> []" "plain_start st" "make_argv0 st = Some a0" for st a0 pad
  proof -
    have "\<not> KEEP_QUOTES st" using st(3) by (simp add: plain_start_def)
    then obtain ys where "cmdline_args st = Some (split_bytes True ys (exec_line True False (tl argv)))"
      using cmdline_from_tail [of ?x st pad] st(1,2) assms(4) by auto
    then show ?thesis using setup_plain [OF st(3,4)] split_exec_line [OF assms(3)] assms(5) by blast
  qed
  then show ?thesis using x by auto
qed

theorem exec_reaches_main_witness:
  "\<exists>x. direct_exec 7 (text_bytes ''ms-dos'') False (text_bytes ''D:/P'') ex_argv = Some x \<and>
    setup_arguments (ex_start (command_tail x) (\<lambda>_. None)) =
      Some (3, [Some (text_bytes ''d:/p''), Some (text_bytes ''a b''), Some (text_bytes ''c''), None])"
proof -
  have h: "\<not> is_dos_shell (text_bytes ''D:/P'')" "\<not> is_unixy_shell (text_bytes ''D:/P'')" "\<forall>a\<in>set (tl ex_argv). survives a"
    "length (exec_line True False (tl ex_argv)) \<le> CMDLEN_LIMIT" "\<not> (3 < length (tl ex_argv) \<and> hd (tl ex_argv) = tl PROXY)"
    by code_simp+
  have st: "plain_start (ex_start t (\<lambda>_. None))" "make_argv0 (ex_start t (\<lambda>_. None)) = Some (text_bytes ''d:/p'')"
    "behind (ex_start t (\<lambda>_. None)) \<noteq> []" "doscmd (ex_start t (\<lambda>_. None)) = t @ []" for t
  proof -
    have "flag n (ex_start t (\<lambda>_. None)) = flag n (ex_start [] (\<lambda>_. None))" for n by (simp add: flag_def ex_start_def)
    moreover from this have "fix_char (ex_start t (\<lambda>_. None)) = fix_char (ex_start [] (\<lambda>_. None))"
      by (simp add: fun_eq_iff fix_char_def)
    moreover have "dos_argv0 (ex_start t (\<lambda>_. None)) = dos_argv0 (ex_start [] (\<lambda>_. None))"
      "stub_argv0 (ex_start t (\<lambda>_. None)) = stub_argv0 (ex_start [] (\<lambda>_. None))" by (simp_all add: ex_start_def)
    ultimately have "make_argv0 (ex_start t (\<lambda>_. None)) = make_argv0 (ex_start [] (\<lambda>_. None))" by (simp only: make_argv0_def)
    also have "\<dots> = Some (text_bytes ''d:/p'')" by code_simp
    finally show "make_argv0 (ex_start t (\<lambda>_. None)) = Some (text_bytes ''d:/p'')" .
  qed (simp_all add: ex_start_def plain_start_def flag_def)
  have argv: "length (tl ex_argv) + 1 = 3" "tl ex_argv = [text_bytes ''a b'', text_bytes ''c'']" by (simp_all add: ex_argv_def)
  show ?thesis using exec_reaches_main [OF h, of 7 "text_bytes ''ms-dos''"] st unfolding argv by fastforce
qed

text \<open>
  C40. \<^verbatim>\<open>direct_pe_exec\<close> never writes outside of its area, for any program and arguments. \<^verbatim>\<open>direct_exec\<close>, for a program that is not a shell,
  does so exactly when the line has more than 126 characters: then it fills the array of 127 bytes and stores the terminating NUL
  behind it, although it notices that the line is too long.
\<close>

theorem exec_lines_fit:
  "(\<exists>x. direct_pe_exec in_system program argv = Some x) \<and>
    (\<not> is_dos_shell program \<and> \<not> is_unixy_shell program \<longrightarrow>
      (direct_exec osmajor flavor in_system program argv = None \<longleftrightarrow> 126 < length (exec_line (\<not> in_system) in_system (tl argv))))"
  using direct_pe_exec_eq [of in_system program argv] direct_exec_plain [of program osmajor flavor in_system argv]
  by (auto simp: Let_def CMDLEN_LIMIT_def)

theorem exec_lines_fit_witness:
  "direct_exec 7 (text_bytes ''ms-dos'') False (text_bytes ''D:/P'') ex_argv \<noteq> None \<and>
    direct_exec 7 (text_bytes ''ms-dos'') False (text_bytes ''D:/P'') [text_bytes ''p'', replicate 126 0x78] = None"
proof -
  have "\<not> is_dos_shell (text_bytes ''D:/P'')" "\<not> is_unixy_shell (text_bytes ''D:/P'')" by code_simp+
  then have "direct_exec 7 (text_bytes ''ms-dos'') False (text_bytes ''D:/P'') argv = None \<longleftrightarrow> 126 < length (exec_line True False (tl argv))" for argv
    using exec_lines_fit [of False "text_bytes ''D:/P''" argv 7 "text_bytes ''ms-dos''"] by simp
  moreover have "\<not> 126 < length (exec_line True False (tl ex_argv))" "126 < length (exec_line True False [replicate 126 0x78])"
    by code_simp+
  ultimately show ?thesis by simp
qed

text \<open>
  A line that is too long for the command tail goes through the variable \<^verbatim>\<open>CMDLINE\<close>: if it has at most 1023 characters with the variable's name, and the
  path of the program no blank, \<open>cmdline_args\<close> gathers the same arguments from it. If the path has a blank, \<^verbatim>\<open>direct_pe_exec\<close> puts it in quotes;
  the start-up code then skips only the first quotation mark and takes the path for arguments.
\<close>

theorem long_line_reaches_main:
  fixes program argv
  defines "line \<equiv> exec_line True False (tl argv)" and "path \<equiv> map (\<lambda>c. if c = 0x2f then 0x5c else c) program"
  assumes prog: "program \<noteq> []" "hd program \<noteq> 0x22" "hd program \<noteq> 0x27" "0 \<notin> set program" "\<not> is_dos_shell program" "\<not> is_unixy_shell program"
    and args: "\<forall>a\<in>set (tl argv). survives a" "CMDLEN_LIMIT < length line" "8 + length program + 2 + length line \<le> CMDLINE_MAX"
  shows "\<exists>x var. direct_pe_exec False program argv = Some x \<and> \<not> e2big x \<and> cmdline_var x = Some (text_bytes ''CMDLINE='' @ var) \<and>
    (\<forall>st pad. doscmd st = command_tail x @ pad \<longrightarrow> environment st (text_bytes ''CMDLINE'') = Some var \<longrightarrow> behind st \<noteq> [] \<longrightarrow> \<not> KEEP_QUOTES st \<longrightarrow>
      (if 0x20 \<in> set program then cmdline_args st = Some (split_bytes True (0 # behind st) (path @ [0x22] @ line))
       else map_option (map argstr) (cmdline_args st) = Some (tl argv)))"
proof -
  define v where "v = text_bytes ''CMDLINE='' @ program_part program"
  let ?var = "program_part program @ line"
  let ?x = "\<lparr>exec_args = line, cmdline_var = Some (text_bytes ''CMDLINE='' @ ?var), e2big = False\<rparr>"
  have q: "quoting False program argv" "\<not> unescaping False program" using prog(5) by (auto simp: quoting_def unescaping_def)
  have "length (v @ line) \<le> CMDLINE_MAX"
    using args(3) length_program_part [of program] by (simp add: v_def text_bytes_def)
  then have x: "direct_pe_exec False program argv = Some ?x"
    using direct_pe_exec_eq [of False program argv] q args(2) by (simp add: v_def line_def)
  have z: "0 \<notin> set line" using exec_line_no_NUL [of "tl argv"] args(1) by (auto simp: line_def survives_def)
  have zp: "0 \<notin> set path" using prog(4) by (auto simp: path_def)
  have line: "line = 0x20 # drop 1 line" using exec_line_hd [of True False "tl argv"] args(2) by (cases line) (auto simp: line_def)
  have "if 0x20 \<in> set program then cmdline_args st = Some (split_bytes True (0 # behind st) (path @ [0x22] @ line))
       else map_option (map argstr) (cmdline_args st) = Some (tl argv)"
    if st: "doscmd st = command_tail ?x @ pad" "environment st (text_bytes ''CMDLINE'') = Some ?var" "behind st \<noteq> []" "\<not> KEEP_QUOTES st"
    for st pad
  proof -
    have h: "hd (doscmd st) = 127" using st(1) args(2) by (simp add: command_tail_def Let_def)
    show ?thesis
    proof (cases "0x20 \<in> set program")
      case True
      have "?var = [] @ 0x22 # (path @ [0x22] @ line)" using True by (simp add: program_part_def path_def)
      from cmdline_from_variable [OF h st(2) [unfolded this] st(3)] show ?thesis using True z zp st(4) by simp
    next
      case False
      have p: "path \<noteq> []" "hd path \<noteq> 0x22" "hd path \<noteq> 0x27" "0x20 \<notin> set path"
        using prog(1-3) False by (auto simp: path_def hd_map)
      have "?var = path @ 0x20 # drop 1 line" using False line by (simp add: program_part_def path_def)
      from cmdline_from_variable [OF h st(2) [unfolded this] st(3)]
      have "cmdline_args st = Some (split_bytes True (0 # behind st) (drop 1 line))"
        using p z st(4) by (metis in_set_dropD)
      then show ?thesis using False split_drop_blank [OF exec_line_hd] split_exec_line [OF args(1)] by (simp add: line_def)
    qed
  qed
  then show ?thesis using x by auto
qed

theorem long_line_reaches_main_witness:
  "\<exists>x var. direct_pe_exec False (text_bytes ''D:/P'') [[], replicate 130 0x78] = Some x \<and>
    map_option (map argstr) (cmdline_args (ex_start (command_tail x) (\<lambda>_. Some var))) = Some [replicate 130 0x78]"
proof -
  have h: "text_bytes ''D:/P'' \<noteq> []" "hd (text_bytes ''D:/P'') \<noteq> 0x22" "hd (text_bytes ''D:/P'') \<noteq> 0x27" "0 \<notin> set (text_bytes ''D:/P'')"
    "\<not> is_dos_shell (text_bytes ''D:/P'')" "\<not> is_unixy_shell (text_bytes ''D:/P'')"
    "CMDLEN_LIMIT < length (exec_line True False (tl [[], replicate 130 0x78]))"
    "8 + length (text_bytes ''D:/P'') + 2 + length (exec_line True False (tl [[], replicate 130 0x78])) \<le> CMDLINE_MAX"
    by code_simp+
  have s: "\<forall>a\<in>set (tl [[], replicate 130 (0x78 :: byte)]). survives a" by code_simp
  have b: "0x20 \<notin> set (text_bytes ''D:/P'')" by code_simp
  from long_line_reaches_main [OF h(1-6) s h(7,8), unfolded if_not_P [OF b]] obtain x var where
    x: "direct_pe_exec False (text_bytes ''D:/P'') [[], replicate 130 0x78] = Some x" and
    st: "\<forall>st pad. doscmd st = command_tail x @ pad \<longrightarrow> environment st (text_bytes ''CMDLINE'') = Some var \<longrightarrow> behind st \<noteq> [] \<longrightarrow>
      \<not> KEEP_QUOTES st \<longrightarrow> map_option (map argstr) (cmdline_args st) = Some (tl [[], replicate 130 0x78])"
    by blast
  have "map_option (map argstr) (cmdline_args (ex_start (command_tail x) (\<lambda>_. Some var))) = Some (tl [[], replicate 130 0x78])"
    by (rule st [rule_format, of _ "[]"]) (simp_all add: ex_start_def flag_def)
  then show ?thesis unfolding list.sel by (intro exI [of _ x] exI [of _ var] conjI x)
qed

end
