(* ===== verification/Paths.thy ===== *)
theory Paths
  imports Prelude
begin

text \<open>
  File names: \<^verbatim>\<open>fnsplit\<close> and \<^verbatim>\<open>fnmerge\<close>, \<^verbatim>\<open>basename\<close> and \<^verbatim>\<open>dirname\<close>, the test for DOS 8.3 names and the short
  name of a long one. A path is its characters without the NUL, and a pointer into it is an offset;
  the character at the offset of the end is the NUL.
\<close>

section \<open>Characters\<close>

abbreviation (input) NUL :: char where "NUL \<equiv> CHR 0x00"

definition code :: "char \<Rightarrow> nat" where
  "code c = of_char c"

definition chr_at :: "string \<Rightarrow> nat \<Rightarrow> char" where
  "chr_at s i = (if i < length s then s ! i else NUL)"

definition slash :: "char \<Rightarrow> bool" where
  "slash c \<longleftrightarrow> c = CHR ''/'' \<or> c = CHR 0x5C"

definition alpha :: "char \<Rightarrow> bool" where
  "alpha c \<longleftrightarrow> 65 \<le> code c \<and> code c \<le> 90 \<or> 97 \<le> code c \<and> code c \<le> 122"

text \<open>\<^verbatim>\<open>strrchr\<close> as an offset.\<close>

fun last_at :: "(char \<Rightarrow> bool) \<Rightarrow> string \<Rightarrow> nat option" where
  "last_at P [] = None"
| "last_at P (c # s) = (case last_at P s of Some i \<Rightarrow> Some (Suc i) | None \<Rightarrow> if P c then Some 0 else None)"

section \<open>fnsplit and fnmerge\<close>

record fn_parts =
  fdrive :: string
  fdir :: string
  fname :: string
  fext :: string
  has_wild :: bool
  has_ext :: bool
  has_name :: bool
  has_dir :: bool
  has_drive :: bool

text \<open>
  \<^verbatim>\<open>strchr\<close> finds the NUL at the end of its string too, so that on the empty path the test for a drive goes
  on to the byte behind the NUL: \<open>after\<close>. The path has no drive, but with a colon there the routine walks
  out of the path, which is \<^term>\<open>None\<close>.
\<close>

definition drive_char :: "char \<Rightarrow> bool" where
  "drive_char c \<longleftrightarrow> alpha c \<or> c \<in> set [CHR ''['', CHR 0x5C, CHR '']'', CHR ''^'', CHR ''_'', CHR 0x60, NUL]"

text \<open>
  The number of characters up to the last slash (\<^verbatim>\<open>max_ptr(strrchr(pp, '\\'), strrchr(pp, '/'))\<close>), and then the number of
  characters of the name: the leading periods, and what follows up to the last period.
\<close>

definition dir_len :: "string \<Rightarrow> nat" where
  "dir_len pp = (case last_at slash pp of Some i \<Rightarrow> i + 1 | None \<Rightarrow> 0)"

definition name_len :: "string \<Rightarrow> nat" where
  "name_len pe = (let dots = length (takeWhile (\<lambda>c. c = CHR ''.'') pe) in
     case last_at (\<lambda>c. c = CHR ''.'') (drop dots pe) of Some i \<Rightarrow> dots + i | None \<Rightarrow> length pe)"

definition fnsplit :: "char \<Rightarrow> string \<Rightarrow> fn_parts option" where
  "fnsplit after path =
     (let second = (if path = [] then after else chr_at path 1);
          drv = drive_char (chr_at path 0) \<and> second = CHR '':'' in
      if drv \<and> path = [] then None
      else
        let drivelen = (if drv then 2 else 0);
            pp = drop drivelen path;
            dirlen = dir_len pp;
            pe = drop dirlen pp;
            len = name_len pe in
        Some \<lparr>fdrive = take drivelen path, fdir = take dirlen pp, fname = take len pe, fext = drop len pe,
              has_wild = (\<exists>c \<in> set path. c \<in> set ''*?[''),
              has_ext = (len < length pe),
              has_name = (0 < len),
              has_dir = (0 < dirlen),
              has_drive = drv\<rparr>)"

text \<open>The flag word that \<^verbatim>\<open>fnsplit\<close> returns.\<close>

definition fn_flags :: "fn_parts \<Rightarrow> int" where
  "fn_flags p = (if has_wild p then 0x01 else 0) + (if has_ext p then 0x02 else 0) + (if has_name p then 0x04 else 0)
     + (if has_dir p then 0x08 else 0) + (if has_drive p then 0x10 else 0)"

definition fnmerge :: "string \<Rightarrow> string \<Rightarrow> string \<Rightarrow> string \<Rightarrow> string" where
  "fnmerge drive dir name ext =
     (let path = (if drive \<noteq> [] then [drive ! 0, CHR '':''] else []);
          path = (if dir \<noteq> [] then
                    path @ dir @ (if \<not> slash (last dir) then (if CHR 0x5C \<in> set dir then [CHR 0x5C] else ''/'') else [])
                  else path);
          path = path @ name in
      if ext \<noteq> [] then path @ (if hd ext \<noteq> CHR ''.'' then ''.'' else []) @ ext else path)"

section \<open>basename and dirname\<close>

text \<open>The scan of \<^verbatim>\<open>basename\<close>: \<open>base\<close> is the last offset behind a slash, \<open>i\<close> the current one.\<close>

fun basename_scan :: "string \<Rightarrow> nat \<Rightarrow> nat \<Rightarrow> nat" where
  "basename_scan [] i base = base"
| "basename_scan (c # s) i base = basename_scan s (i + 1) (if slash c then i + 1 else base)"

definition basename :: "string \<Rightarrow> string" where
  "basename path =
     (if path \<noteq> [] then
        let start = (if chr_at path 1 = CHR '':'' then 2 else 0) in
        drop (basename_scan (drop start path) start start) path
      else path)"

fun dirname_scan :: "string \<Rightarrow> nat \<Rightarrow> nat option \<Rightarrow> nat option" where
  "dirname_scan [] i sl = sl"
| "dirname_scan (c # s) i sl = dirname_scan s (i + 1) (if slash c then Some i else sl)"

text \<open>\<^verbatim>\<open>while (slash > fname && is_slash(slash[-1])) slash--\<close>\<close>

fun strip_slashes :: "string \<Rightarrow> nat \<Rightarrow> nat" where
  "strip_slashes path 0 = 0"
| "strip_slashes path (Suc i) = (if slash (chr_at path i) then strip_slashes path i else Suc i)"

text \<open>\<open>mem_ok\<close> says whether the allocation succeeds; \<^verbatim>\<open>strncpy\<close> pads with NULs, which end the result.\<close>

definition dirname :: "bool \<Rightarrow> string \<Rightarrow> string option" where
  "dirname mem_ok path =
     (let drv = path \<noteq> [] \<and> chr_at path 1 = CHR '':'';
          sl = dirname_scan (drop (if drv then 2 else 0) path) (if drv then 2 else 0) (if drv then Some 1 else None) in
      if \<not> mem_ok then None
      else case sl of
        None \<Rightarrow> Some ''.''
      | Some i \<Rightarrow>
          let i = strip_slashes path i;
              dirlen = i + (if i = 0 \<or> chr_at path (i - 1) = CHR '':'' then 1 else 0);
              dirlen = (if chr_at path i = CHR '':'' \<and> dirlen = 1 then dirlen + 2 else dirlen);
              part = take dirlen (path @ replicate dirlen NUL);
              part = (if chr_at path i = CHR '':'' \<and> dirlen = 3 then part[2 := CHR ''.''] else part) in
          Some (takeWhile (\<lambda>c. c \<noteq> NUL) part))"

section \<open>DOS 8.3 names\<close>

text \<open>The loop of \<^verbatim>\<open>_is_DOS83\<close>: \<open>i\<close> is the offset of the current character and \<open>e\<close> the end of the component.\<close>

fun dos83_loop :: "string \<Rightarrow> nat \<Rightarrow> nat \<Rightarrow> bool \<Rightarrow> bool" where
  "dos83_loop [] i e period_seen = True"
| "dos83_loop (c # s) i e period_seen =
     (if c = CHR ''.'' then
        if period_seen then False else dos83_loop s (i + 1) (i + 1 + 3) True
      else if e < i + 1 then False
      else if 97 \<le> code c \<and> code c \<le> 122 then False
      else if c \<in> set ''+,; =[]'' then False
      else dos83_loop s (i + 1) e period_seen)"

definition is_DOS83 :: "string \<Rightarrow> bool" where
  "is_DOS83 s =
     (if s \<noteq> [] \<and> chr_at s 0 = CHR ''.'' then
        if length s = 1 then True else if length s = 2 \<and> chr_at s 1 = CHR ''.'' then True else False
      else dos83_loop s 0 8 False)"

definition msdos_toupper_fname :: "char \<Rightarrow> char" where
  "msdos_toupper_fname c = (if 97 \<le> code c \<and> code c \<le> 122 then char_of (code c - 32) else c)"

text \<open>
  The short name: from the directory entry format that DOS returns (\<open>fcb\<close>, thirteen characters), or without that
  call the long name cut after twelve characters. The result is what is written, without the NUL.
\<close>

definition fcb_name :: "string \<Rightarrow> string" where
  "fcb_name buf =
     (let base = takeWhile (\<lambda>c. c \<noteq> NUL \<and> c \<noteq> CHR '' '') (take 8 buf);
          s = length base + length (takeWhile (\<lambda>c. c = CHR '' '') (drop (length base) (take 8 buf))) in
      if chr_at buf s \<noteq> CHR '' ''
      then base @ [CHR ''.''] @ takeWhile (\<lambda>c. c \<noteq> NUL \<and> c \<noteq> CHR '' '') (drop s (take 11 buf))
      else base)"

definition lfn_gen_short_fname :: "string option \<Rightarrow> string \<Rightarrow> string" where
  "lfn_gen_short_fname fcb long_fname =
     (case fcb of
        Some buf \<Rightarrow> fcb_name buf
      | None \<Rightarrow> map msdos_toupper_fname (take 12 long_fname))"

section \<open>Searching from the end\<close>

lemma last_at_None: "last_at P s = None \<longleftrightarrow> (\<forall>c \<in> set s. \<not> P c)"
  by (induction s) (auto split: option.splits)

lemma last_at_Some: "last_at P s = Some i \<Longrightarrow> i < length s \<and> P (s ! i) \<and> (\<forall>c \<in> set (drop (Suc i) s). \<not> P c)"
proof (induction s arbitrary: i)
  case (Cons c s)
  then show ?case by (auto split: option.splits if_splits simp: last_at_None)
qed simp

lemma basename_scan_last:
  "basename_scan s i base = (case last_at slash s of Some k \<Rightarrow> i + k + 1 | None \<Rightarrow> base)"
  by (induction s arbitrary: i base) (auto split: option.splits)

lemma dirname_scan_last:
  "dirname_scan s i sl = (case last_at slash s of Some k \<Rightarrow> Some (i + k) | None \<Rightarrow> sl)"
  by (induction s arbitrary: i sl) (auto split: option.splits)

section \<open>The parts of a path\<close>

lemma dir_len_props: "dir_len r \<le> length r" "0 < dir_len r \<Longrightarrow> slash (last (take (dir_len r) r))"
  "\<forall>c \<in> set (drop (dir_len r) r). \<not> slash c"
proof -
  have "last (take (Suc i) r) = r ! i" if "i < length r" for i using that by (simp add: take_Suc_conv_app_nth)
  then show "dir_len r \<le> length r" "0 < dir_len r \<Longrightarrow> slash (last (take (dir_len r) r))"
    "\<forall>c \<in> set (drop (dir_len r) r). \<not> slash c"
    by (auto simp: dir_len_def last_at_None dest!: last_at_Some split: option.splits)
qed

lemma name_len_props:
  "name_len r \<le> length r" "name_len r < length r \<Longrightarrow> r ! name_len r = CHR ''.''"
  "CHR ''.'' \<notin> set (drop (Suc (name_len r)) r)"
  "name_len r < length r \<Longrightarrow> \<exists>c \<in> set (take (name_len r) r). c \<noteq> CHR ''.''"
  "name_len r = length r \<Longrightarrow> CHR ''.'' \<notin> set (dropWhile (\<lambda>c. c = CHR ''.'') r)"
proof -
  define d where "d = length (takeWhile (\<lambda>c. c = CHR ''.'') r)"
  have d: "d \<le> length r" unfolding d_def by (rule length_takeWhile_le)
  have dw: "dropWhile (\<lambda>c. c = CHR ''.'') r = drop d r" unfolding d_def by (rule dropWhile_eq_drop)
  have "name_len r \<le> length r \<and> (name_len r < length r \<longrightarrow> r ! name_len r = CHR ''.'')
      \<and> CHR ''.'' \<notin> set (drop (Suc (name_len r)) r) \<and> (name_len r < length r \<longrightarrow> (\<exists>c \<in> set (take (name_len r) r). c \<noteq> CHR ''.''))
      \<and> (name_len r = length r \<longrightarrow> CHR ''.'' \<notin> set (drop d r))"
  proof (cases "last_at (\<lambda>c. c = CHR ''.'') (drop d r)")
    case None
    then show ?thesis using last_at_None [of "\<lambda>c. c = CHR ''.''" "drop d r"] by (auto simp: name_len_def Let_def simp flip: d_def)
  next
    case (Some i)
    then have n: "name_len r = d + i" by (simp add: name_len_def Let_def flip: d_def)
    have e: "drop (Suc (d + i)) r = drop (Suc i) (drop d r)" by (simp add: add.commute)
    have i: "i < length r - d" "drop d r ! i = CHR ''.''" "CHR ''.'' \<notin> set (drop (Suc i) (drop d r))"
      using last_at_Some [OF Some] by auto
    then have "r ! (d + i) = CHR ''.''" using d by simp
    moreover have "\<exists>c \<in> set (take (d + i) r). c \<noteq> CHR ''.''"
    proof -
      have "d < length r" using i(1) by simp
      then have x: "r ! d \<noteq> CHR ''.''" using nth_length_takeWhile [of "\<lambda>c. c = CHR ''.''" r] by (simp flip: d_def)
      then have "0 < i" using i(2) \<open>d < length r\<close> by (cases i) auto
      then have "r ! d \<in> set (take (d + i) r)" using \<open>d < length r\<close> by (auto simp: in_set_conv_nth intro!: exI [of _ d])
      then show ?thesis using x by blast
    qed
    ultimately show ?thesis unfolding n e using i d by simp
  qed
  then show "name_len r \<le> length r" "name_len r < length r \<Longrightarrow> r ! name_len r = CHR ''.''"
    "CHR ''.'' \<notin> set (drop (Suc (name_len r)) r)"
    "name_len r < length r \<Longrightarrow> \<exists>c \<in> set (take (name_len r) r). c \<noteq> CHR ''.''"
    "name_len r = length r \<Longrightarrow> CHR ''.'' \<notin> set (dropWhile (\<lambda>c. c = CHR ''.'') r)" unfolding dw by blast+
qed

text \<open>What \<^verbatim>\<open>fnsplit\<close> returns, in terms of these.\<close>

definition drive_of :: "string \<Rightarrow> bool" where
  "drive_of path \<longleftrightarrow> path \<noteq> [] \<and> drive_char (chr_at path 0) \<and> chr_at path 1 = CHR '':''"

lemma fnsplit_parts:
  assumes "fnsplit after path = Some p"
  shows "fdrive p = (if drive_of path then take 2 path else [])"
    "fdir p = take (dir_len (drop (length (fdrive p)) path)) (drop (length (fdrive p)) path)"
    "fname p = take (name_len (drop (length (fdrive p) + length (fdir p)) path)) (drop (length (fdrive p) + length (fdir p)) path)"
    "fext p = drop (length (fdrive p) + length (fdir p) + length (fname p)) path"
    "has_drive p = drive_of path" "has_dir p = (fdir p \<noteq> [])" "has_name p = (fname p \<noteq> [])" "has_ext p = (fext p \<noteq> [])"
proof -
  define n where "n = (if drive_of path then 2 else 0 :: nat)"
  define r where "r = drop n path"
  define r1 where "r1 = drop (dir_len r) r"
  have drv: "(drive_char (chr_at path 0) \<and> (if path = [] then after else chr_at path 1) = CHR '':'') = drive_of path"
    using assms by (auto simp: fnsplit_def drive_of_def Let_def split: if_splits)
  have "1 < length path" if "drive_of path" using that by (auto simp: drive_of_def chr_at_def split: if_splits)
  then have nl: "n \<le> length path" by (auto simp: n_def)
  have p: "p = \<lparr>fdrive = take n path, fdir = take (dir_len r) r, fname = take (name_len r1) r1,
      fext = drop (name_len r1) r1,
      has_wild = (\<exists>c \<in> set path. c \<in> set ''*?[''), has_ext = (name_len r1 < length r1),
      has_name = (0 < name_len r1), has_dir = (0 < dir_len r), has_drive = drive_of path\<rparr>"
  proof -
    have "\<not> (drive_of path \<and> path = [])" by (simp add: drive_of_def)
    then show ?thesis
      using assms unfolding fnsplit_def Let_def drv n_def [symmetric] r_def [symmetric] r1_def [symmetric]
      by (simp only: if_False option.inject)
  qed
  have l: "length (take n path) = n" "length (take (dir_len r) r) = dir_len r" "length (take (name_len r1) r1) = name_len r1"
    using nl dir_len_props(1) [of r] name_len_props(1) [of r1] by simp_all
  show "fdrive p = (if drive_of path then take 2 path else [])" by (simp add: p n_def)
  show "fdir p = take (dir_len (drop (length (fdrive p)) path)) (drop (length (fdrive p)) path)"
    using l by (simp add: p r_def [symmetric] del: length_take)
  have d1: "drop (n + dir_len r) path = r1" by (simp add: r1_def r_def add.commute)
  show "fname p = take (name_len (drop (length (fdrive p) + length (fdir p)) path)) (drop (length (fdrive p) + length (fdir p)) path)"
    using l d1 by (simp add: p del: length_take)
  have "drop (n + dir_len r + name_len r1) path = drop (name_len r1) r1"
    unfolding d1 [symmetric] by (simp add: add.commute)
  then show "fext p = drop (length (fdrive p) + length (fdir p) + length (fname p)) path"
    using l by (simp add: p del: length_take)
  show "has_drive p = drive_of path" "has_dir p = (fdir p \<noteq> [])" "has_name p = (fname p \<noteq> [])" "has_ext p = (fext p \<noteq> [])"
    using l by (auto simp: p)
qed

lemma take_self: "xs = take n ys \<Longrightarrow> xs = take (length xs) ys"
  by (simp add: min_def)

lemma chr_at_notin: "c \<notin> set s \<Longrightarrow> c \<noteq> NUL \<Longrightarrow> chr_at s i \<noteq> c"
  using nth_mem [of i s] by (auto simp: chr_at_def)

lemma fnsplit_concat:
  assumes "fnsplit after path = Some p"
  shows "fdrive p @ fdir p @ fname p @ fext p = path"
proof -
  note parts = fnsplit_parts [OF assms]
  define a b where "a = length (fdrive p)" "b = length (fdir p)"
  have d: "fdrive p = take a path" using parts(1) by (auto simp: a_b_def min_def)
  have "fdir p = take b (drop a path)" unfolding a_b_def by (rule take_self [OF parts(2)])
  moreover have "fname p @ fext p = drop (a + b) path"
  proof -
    have n: "fname p = take (length (fname p)) (drop (a + b) path)"
      unfolding a_b_def by (rule take_self [OF parts(3)])
    have "fext p = drop (length (fname p)) (drop (a + b) path)"
      using parts(4) by (simp add: a_b_def add.commute add.left_commute)
    then show ?thesis using n by (metis append_take_drop_id)
  qed
  ultimately have "fdir p @ fname p @ fext p = drop a path"
    by (metis append_take_drop_id drop_drop add.commute)
  then show ?thesis using d by (metis append_take_drop_id)
qed

section \<open>Trailing slashes\<close>

lemma strip_slashes_take:
  "i \<le> length path \<Longrightarrow> strip_slashes path i = length (rev (dropWhile slash (rev (take i path))))"
proof (induction i)
  case (Suc i)
  then show ?case by (simp add: take_Suc_conv_app_nth chr_at_def)
qed simp

lemma strip_slashes_le: "strip_slashes path i \<le> i"
  by (induction i) auto

lemma strip_slashes_drop: "strip_slashes (a # b # r) (i + 2) = (if strip_slashes r i = 0
    then (if slash b then (if slash a then 0 else 1) else 2) else strip_slashes r i + 2)"
proof (induction i)
  case 0
  then show ?case by (simp add: chr_at_def numeral_2_eq_2)
next
  case (Suc i)
  have "chr_at (a # b # r) (i + 2) = chr_at r i" by (simp add: chr_at_def)
  then show ?case using Suc by simp
qed

section \<open>Properties\<close>

text \<open>
  The documented decomposition: the drive is a letter, or one of the six characters behind \<^verbatim>\<open>Z\<close>, with its colon; the
  directory goes up to the last slash; the extension starts at the last period that is not one of the leading periods of
  the name, so that \<^verbatim>\<open>.emacs\<close>, \<^verbatim>\<open>.\<close> and \<^verbatim>\<open>..\<close> are names without an extension.
\<close>

definition drive_name :: "string \<Rightarrow> bool" where
  "drive_name d \<longleftrightarrow> (\<exists>c. d = [c, CHR '':''] \<and> (alpha c \<or> c \<in> {CHR ''['', CHR 0x5C, CHR '']'', CHR ''^'', CHR ''_'', CHR 0x60}))"

definition ext_split :: "string \<Rightarrow> string \<Rightarrow> bool" where
  "ext_split n e \<longleftrightarrow>
     (if e = [] then CHR ''.'' \<notin> set (dropWhile (\<lambda>c. c = CHR ''.'') n)
      else hd e = CHR ''.'' \<and> CHR ''.'' \<notin> set (tl e) \<and> (\<exists>c \<in> set n. c \<noteq> CHR ''.''))"

definition decomposed :: "string \<Rightarrow> fn_parts \<Rightarrow> bool" where
  "decomposed path p \<longleftrightarrow>
     fdrive p @ fdir p @ fname p @ fext p = path \<and>
     (if drive_name (take 2 path) then fdrive p = take 2 path else fdrive p = []) \<and>
     (fdir p = [] \<or> slash (last (fdir p))) \<and> (\<forall>c \<in> set (fname p @ fext p). \<not> slash c) \<and>
     ext_split (fname p) (fext p) \<and>
     has_drive p = (fdrive p \<noteq> []) \<and> has_dir p = (fdir p \<noteq> []) \<and> has_name p = (fname p \<noteq> []) \<and> has_ext p = (fext p \<noteq> []) \<and>
     has_wild p = (CHR ''*'' \<in> set path \<or> CHR ''?'' \<in> set path \<or> CHR ''['' \<in> set path)"

lemma dir_unique_half:
  assumes "d = d' @ us" "n' = us @ n" "d = [] \<or> slash (last d)" "\<forall>c \<in> set n'. \<not> slash c"
  shows "us = []"
  using assms by (cases us rule: rev_cases) auto

lemma ext_unique_half:
  assumes "n = n' @ us" "e' = us @ e"
    and "ext_split n e" "ext_split n' e'"
  shows "us = []"
proof (rule ccontr)
  assume us: "us \<noteq> []"
  then have e': "hd us = CHR ''.''" "CHR ''.'' \<notin> set (tl us @ e)" "\<exists>c \<in> set n'. c \<noteq> CHR ''.''"
    using assms(2,4) by (auto simp: ext_split_def split: if_splits)
  then have "e = []" using assms(3) by (cases e) (auto simp: ext_split_def)
  moreover have "set us \<subseteq> set (dropWhile (\<lambda>c. c = CHR ''.'') n)"
    using e'(3) unfolding assms(1) by (auto simp: dropWhile_append)
  moreover have "hd us \<in> set us" using us by simp
  ultimately show False using assms(3) e'(1) by (auto simp: ext_split_def)
qed

lemma decomposed_unique:
  assumes "decomposed path p" "decomposed path q"
  shows "p = q"
proof -
  have d: "fdrive p = fdrive q" using assms by (auto simp: decomposed_def split: if_splits)
  then have c: "fdir p @ fname p @ fext p = fdir q @ fname q @ fext q"
    using assms unfolding decomposed_def by (metis append_same_eq append_eq_append_conv same_append_eq)
  have dir: "fdir p = fdir q"
  proof -
    have h: "(fdir p = [] \<or> slash (last (fdir p))) \<and> (\<forall>c \<in> set (fname p @ fext p). \<not> slash c)"
      "(fdir q = [] \<or> slash (last (fdir q))) \<and> (\<forall>c \<in> set (fname q @ fext q). \<not> slash c)"
      using assms by (simp_all add: decomposed_def)
    obtain us where us: "fdir p = fdir q @ us \<and> us @ fname p @ fext p = fname q @ fext q \<or>
        fdir p @ us = fdir q \<and> fname p @ fext p = us @ fname q @ fext q"
      using iffD1 [OF append_eq_append_conv2 c] by blast
    then have "us = []"
      using dir_unique_half [of "fdir p" "fdir q" us "fname q @ fext q" "fname p @ fext p"]
        dir_unique_half [of "fdir q" "fdir p" us "fname p @ fext p" "fname q @ fext q"] h by metis
    with us show ?thesis by (elim disjE) simp_all
  qed
  have ne: "fname p = fname q \<and> fext p = fext q"
  proof -
    have "fname p @ fext p = fname q @ fext q" using c dir by simp
    from iffD1 [OF append_eq_append_conv2 this]
    obtain us where us: "fname p = fname q @ us \<and> us @ fext p = fext q \<or> fname p @ us = fname q \<and> fext p = us @ fext q" by blast
    have "ext_split (fname p) (fext p)" "ext_split (fname q) (fext q)" using assms by (simp_all add: decomposed_def)
    then have "us = []"
      using us ext_unique_half [of "fname p" "fname q" us "fext q" "fext p"]
        ext_unique_half [of "fname q" "fname p" us "fext p" "fext q"] by metis
    with us show ?thesis by (elim disjE) simp_all
  qed
  show ?thesis using d dir ne assms by (simp add: decomposed_def)
qed

lemma drive_of_name: "NUL \<notin> set path \<Longrightarrow> drive_of path \<longleftrightarrow> drive_name (take 2 path)"
  by (cases path; cases "tl path") (auto simp: drive_of_def drive_name_def drive_char_def chr_at_def)

lemma fnsplit_decomposed:
  assumes "fnsplit after path = Some p" "NUL \<notin> set path"
  shows "decomposed path p"
proof -
  note parts = fnsplit_parts [OF assms(1)]
  define r where "r = drop (length (fdrive p)) path"
  define r1 where "r1 = drop (length (fdir p)) r"
  have dir: "fdir p = take (dir_len r) r" "length (fdir p) = dir_len r"
    using parts(2) dir_len_props(1) [of r] by (simp_all add: r_def)
  have r1: "drop (length (fdrive p) + length (fdir p)) path = r1" by (simp add: r1_def r_def add.commute)
  have name: "fname p = take (name_len r1) r1" "length (fname p) = name_len r1" "fext p = drop (name_len r1) r1"
    using parts(3,4) name_len_props(1) [of r1] r1
    by (simp_all add: add.commute flip: r1)
  have slash_dir: "fdir p = [] \<or> slash (last (fdir p))"
    using dir_len_props(2) [of r] dir by (cases "dir_len r") auto
  have "\<forall>c \<in> set r1. \<not> slash c" using dir_len_props(3) [of r] dir(2) by (simp add: r1_def)
  then have noslash: "\<forall>c \<in> set (fname p @ fext p). \<not> slash c" using name by simp
  have ext: "hd (fext p) = CHR ''.'' \<and> CHR ''.'' \<notin> set (tl (fext p)) \<and> (\<exists>c \<in> set (fname p). c \<noteq> CHR ''.'')" if "fext p \<noteq> []"
    using that name_len_props(2,3,4) [of r1] name(1,3) by (simp add: hd_drop_conv_nth tl_drop drop_Suc [symmetric])
  have noext: "CHR ''.'' \<notin> set (dropWhile (\<lambda>c. c = CHR ''.'') (fname p))" if "fext p = []"
    using that name_len_props(1,5) [of r1] name(1,3) by simp
  have drive: "if drive_name (take 2 path) then fdrive p = take 2 path else fdrive p = []" "has_drive p = (fdrive p \<noteq> [])"
    using parts(1,5) drive_of_name [OF assms(2)] by (auto simp: drive_of_def)
  have wild: "has_wild p = (CHR ''*'' \<in> set path \<or> CHR ''?'' \<in> set path \<or> CHR ''['' \<in> set path)"
    using assms(1) by (auto simp: fnsplit_def Let_def split: if_splits)
  show ?thesis
    unfolding decomposed_def using fnsplit_concat [OF assms(1)] slash_dir noslash ext noext drive parts(6-8) wild by (simp add: ext_split_def)
qed

text \<open>
  C39. \<^verbatim>\<open>fnsplit\<close> of a path returns the documented decomposition, which is unique: the drive, the directory up to the last
  slash, the name, and the extension from the last period on, leading periods of the name apart; \<^verbatim>\<open>.emacs\<close> has no
  extension, and \<^verbatim>\<open>.\<close> and \<^verbatim>\<open>..\<close> are names, as the comment in the code says (the manual calls them directories). The flags say
  which parts are present and whether the path has one of the characters \<^verbatim>\<open>*\<close>, \<^verbatim>\<open>?\<close> and \<^verbatim>\<open>[\<close>. Nothing is lost: \<^verbatim>\<open>fnmerge\<close> of the
  four parts is the path again. Only for the empty path with a colon in the byte behind it \<^verbatim>\<open>fnsplit\<close> leaves the path.
\<close>

theorem fnsplit_fnmerge:
  assumes "NUL \<notin> set path" "path \<noteq> [] \<or> after \<noteq> CHR '':''"
  shows "\<exists>p. fnsplit after path = Some p \<and> decomposed path p \<and> (\<forall>q. decomposed path q \<longrightarrow> q = p) \<and>
    fnmerge (fdrive p) (fdir p) (fname p) (fext p) = path"
proof -
  have "fnsplit after path \<noteq> None" using assms(2) by (auto simp: fnsplit_def Let_def)
  then obtain p where p: "fnsplit after path = Some p" by blast
  have d: "decomposed path p" by (rule fnsplit_decomposed [OF p assms(1)])
  have "fnmerge (fdrive p) (fdir p) (fname p) (fext p) = fdrive p @ fdir p @ fname p @ fext p"
  proof -
    have "fdrive p \<noteq> [] \<Longrightarrow> [fdrive p ! 0, CHR '':''] = fdrive p" using d by (auto simp: decomposed_def drive_name_def split: if_splits)
    moreover have "fdir p \<noteq> [] \<Longrightarrow> slash (last (fdir p))" "fext p \<noteq> [] \<Longrightarrow> hd (fext p) = CHR ''.''"
      using d by (auto simp: decomposed_def ext_split_def)
    ultimately show ?thesis by (auto simp: fnmerge_def Let_def)
  qed
  also have "\<dots> = path" using d by (simp add: decomposed_def)
  finally show ?thesis using p d decomposed_unique [OF _ d] by blast
qed

theorem fnsplit_fnmerge_witness:
  "\<exists>p. fnsplit NUL ''c:/dir/.emacs.el'' = Some p \<and> fdir p = ''/dir/'' \<and> fname p = ''.emacs'' \<and> fext p = ''.el''
     \<and> fnmerge (fdrive p) (fdir p) (fname p) (fext p) = ''c:/dir/.emacs.el'' \<and> fn_flags p = 0x1e"
proof -
  have "case fnsplit NUL ''c:/dir/.emacs.el'' of
      Some p \<Rightarrow> fdir p = ''/dir/'' \<and> fname p = ''.emacs'' \<and> fext p = ''.el'' \<and> fn_flags p = 0x1e | None \<Rightarrow> False"
    by code_simp
  then obtain p where p: "fnsplit NUL ''c:/dir/.emacs.el'' = Some p" "fdir p = ''/dir/''" "fname p = ''.emacs''"
    "fext p = ''.el''" "fn_flags p = 0x1e" by (auto split: option.splits)
  moreover have "NUL \<notin> set ''c:/dir/.emacs.el''" by simp
  ultimately show ?thesis using fnsplit_fnmerge [of "''c:/dir/.emacs.el''" NUL] by auto
qed

lemma basename_drop:
  "basename path = (if path = [] then [] else
     let n = (if chr_at path 1 = CHR '':'' then 2 else 0) in drop (n + dir_len (drop n path)) path)"
  by (auto simp: basename_def Let_def basename_scan_last dir_len_def numeral_2_eq_2 split: option.splits)

lemma dirname_plain:
  assumes "CHR '':'' \<notin> set path" "NUL \<notin> set path"
  shows "dirname True path = Some (case last_at slash path of
      None \<Rightarrow> ''.''
    | Some i \<Rightarrow> let d = rev (dropWhile slash (rev (take i path))) in if d = [] then take 1 path else d)"
proof (cases "last_at slash path")
  case None
  have "chr_at path 1 \<noteq> CHR '':''" using assms(1) by (rule chr_at_notin) simp
  then show ?thesis using None by (simp add: dirname_def dirname_scan_last)
next
  case (Some i)
  let ?d = "rev (dropWhile slash (rev (take i path)))"
  have i: "i < length path" using last_at_Some [OF Some] by simp
  have colon: "chr_at path j \<noteq> CHR '':''" for j using assms(1) by (rule chr_at_notin) simp
  have len: "strip_slashes path i = length ?d" using i by (intro strip_slashes_take) simp
  have pre: "take (length ?d) path = ?d"
  proof -
    have "take i path = ?d @ rev (takeWhile slash (rev (take i path)))"
      by (metis rev_append rev_rev_ident takeWhile_dropWhile_id)
    then show ?thesis using i by (metis append_eq_conv_conj append_take_drop_id append.assoc)
  qed
  have nul: "takeWhile (\<lambda>c. c \<noteq> NUL) (take n path) = take n path" for n
    using assms(2) by (intro takeWhile_eq_all_conv [THEN iffD2]) (auto dest: in_set_takeD)
  have le: "strip_slashes path i \<le> i" by (rule strip_slashes_le)
  have "dirname True path = Some (take (strip_slashes path i + (if strip_slashes path i = 0 then 1 else 0)) path)"
    using i le colon nul by (simp add: dirname_def dirname_scan_last Some Let_def)
  moreover have "take (length d + (if length d = 0 then 1 else 0)) path = (if d = [] then take 1 path else d)"
    if "take (length d) path = d" for d
    using that by simp
  from this [OF pre] have "take (length ?d + (if length ?d = 0 then 1 else 0)) path = (if ?d = [] then take 1 path else ?d)" .
  ultimately show ?thesis unfolding len Some by (simp only: option.case Let_def)
qed

text \<open>
  \<^verbatim>\<open>basename\<close> and \<^verbatim>\<open>dirname\<close>: the base name is what follows the last slash or the drive, and it is the name
  and extension of \<^verbatim>\<open>fnsplit\<close>; for a path without a drive the directory is what precedes the last slash
  without its trailing slashes, the root's slash when nothing is left and a period when there is no slash;
  a failed allocation gives the null pointer.
\<close>

theorem basename_dirname:
  assumes "CHR '':'' \<notin> set path" "NUL \<notin> set path" "fnsplit NUL path = Some p"
  shows "basename path = fname p @ fext p
    \<and> (\<forall>c \<in> set (basename path). \<not> slash c)
    \<and> dirname True path = Some (if fdir p = [] then ''.''
         else let d = rev (dropWhile slash (rev (fdir p))) in if d = [] then take 1 path else d)
    \<and> dirname False path = None"
proof -
  have colon: "chr_at path 1 \<noteq> CHR '':''" using assms(1) by (rule chr_at_notin) simp
  then have "\<not> drive_of path" by (simp add: drive_of_def)
  then have drv: "fdrive p = []" using fnsplit_parts(1) [OF assms(3)] by simp
  have dir: "fdir p = take (dir_len path) path" using fnsplit_parts(2) [OF assms(3)] drv by simp
  have cat: "fdir p @ fname p @ fext p = path" using fnsplit_concat [OF assms(3)] drv by simp
  have len: "length (fdir p) = dir_len path" using dir dir_len_props(1) [of path] by simp
  have b: "basename path = drop (dir_len path) path" using colon by (simp add: basename_drop Let_def)
  then have "basename path = fname p @ fext p" using cat len by (metis append_eq_conv_conj)
  moreover have "\<forall>c \<in> set (basename path). \<not> slash c" using b dir_len_props(3) [of path] by simp
  moreover have "dirname True path = Some (if fdir p = [] then ''.''
         else let d = rev (dropWhile slash (rev (fdir p))) in if d = [] then take 1 path else d)"
  proof (cases "last_at slash path")
    case None
    then show ?thesis using dirname_plain [OF assms(1,2)] dir by (simp add: dir_len_def)
  next
    case (Some i)
    have i: "i < length path" "slash (path ! i)" using last_at_Some [OF Some] by auto
    then have "fdir p = take i path @ [path ! i]" using dir Some by (simp add: dir_len_def take_Suc_conv_app_nth)
    then show ?thesis using dirname_plain [OF assms(1,2)] Some i by (simp add: Let_def)
  qed
  ultimately show ?thesis by (simp add: dirname_def Let_def)
qed

theorem basename_dirname_witness:
  "basename ''/usr//lib/a.b'' = ''a.b'' \<and> dirname True ''/usr//lib/a.b'' = Some ''/usr//lib'' \<and> dirname True ''//a'' = Some ''/''"
proof -
  have w: "case fnsplit NUL path of Some p \<Rightarrow> fdir p = d \<and> fname p @ fext p = b | None \<Rightarrow> False
      \<Longrightarrow> \<exists>p. fnsplit NUL path = Some p \<and> fdir p = d \<and> fname p @ fext p = b" for path d b
    by (auto split: option.splits)
  have "case fnsplit NUL ''/usr//lib/a.b'' of Some p \<Rightarrow> fdir p = ''/usr//lib/'' \<and> fname p @ fext p = ''a.b'' | None \<Rightarrow> False"
    "case fnsplit NUL ''//a'' of Some p \<Rightarrow> fdir p = ''//'' \<and> fname p @ fext p = ''a'' | None \<Rightarrow> False" by code_simp+
  from w [OF this(1)] w [OF this(2)] obtain p q where
    p: "fnsplit NUL ''/usr//lib/a.b'' = Some p" "fdir p = ''/usr//lib/''" "fname p @ fext p = ''a.b''" and
    q: "fnsplit NUL ''//a'' = Some q" "fdir q = ''//''" by blast
  show ?thesis
    using basename_dirname [OF _ _ p(1)] basename_dirname [OF _ _ q(1)] p q by (simp add: slash_def)
qed

definition dos_char :: "char \<Rightarrow> bool" where
  "dos_char c \<longleftrightarrow> c \<noteq> CHR ''.'' \<and> \<not> (97 \<le> code c \<and> code c \<le> 122) \<and> c \<notin> set ''+,; =[]''"

lemma dos83_ext: "i \<le> e \<Longrightarrow> dos83_loop s i e True \<longleftrightarrow> i + length s \<le> e \<and> (\<forall>c \<in> set s. dos_char c)"
proof (induction s arbitrary: i)
  case (Cons c s)
  show ?case
  proof (cases "i + 1 \<le> e")
    case True
    then show ?thesis using Cons.IH [of "i + 1"] by (auto simp: dos_char_def)
  next
    case False
    then show ?thesis by (auto simp: dos_char_def)
  qed
qed simp

lemma dos83_base:
  "i \<le> e \<Longrightarrow> dos83_loop s i e False \<longleftrightarrow>
     (\<exists>b x. (s = b \<and> x = [] \<or> s = b @ CHR ''.'' # x) \<and> i + length b \<le> e \<and> length x \<le> 3 \<and> (\<forall>c \<in> set (b @ x). dos_char c))"
proof (induction s arbitrary: i)
  case (Cons c s)
  show ?case
  proof (cases "c = CHR ''.''")
    case True
    have "dos83_loop (c # s) i e False \<longleftrightarrow> length s \<le> 3 \<and> (\<forall>c \<in> set s. dos_char c)"
      using True dos83_ext [of "i + 1" "i + 1 + 3" s] by simp
    moreover have "b = [] \<and> x = s" if "c # s = b \<and> x = [] \<or> c # s = b @ CHR ''.'' # x" "\<forall>c \<in> set (b @ x). dos_char c" for b x
      using that True by (cases b) (auto simp: dos_char_def)
    ultimately show ?thesis using True Cons.prems by (auto intro: exI [of _ "[]"])
  next
    case False
    show ?thesis
    proof (cases "i + 1 \<le> e \<and> dos_char c")
      case True
      then have "dos83_loop (c # s) i e False = dos83_loop s (i + 1) e False" using False by (auto simp: dos_char_def)
      also have "\<dots> \<longleftrightarrow> (\<exists>b x. (s = b \<and> x = [] \<or> s = b @ CHR ''.'' # x) \<and> i + 1 + length b \<le> e \<and> length x \<le> 3
          \<and> (\<forall>c \<in> set (b @ x). dos_char c))" using Cons.IH [of "i + 1"] True by simp
      also have "\<dots> \<longleftrightarrow> (\<exists>b x. (c # s = b \<and> x = [] \<or> c # s = b @ CHR ''.'' # x) \<and> i + length b \<le> e \<and> length x \<le> 3
          \<and> (\<forall>c \<in> set (b @ x). dos_char c))" (is "?L = ?R")
      proof
        assume ?L
        then obtain b x where "(s = b \<and> x = [] \<or> s = b @ CHR ''.'' # x) \<and> i + 1 + length b \<le> e \<and> length x \<le> 3
          \<and> (\<forall>c \<in> set (b @ x). dos_char c)" by blast
        then show ?R using True by (intro exI [of _ "c # b"] exI [of _ x]) auto
      next
        assume ?R
        then obtain b x where b: "(c # s = b \<and> x = [] \<or> c # s = b @ CHR ''.'' # x) \<and> i + length b \<le> e \<and> length x \<le> 3
          \<and> (\<forall>c \<in> set (b @ x). dos_char c)" by blast
        then obtain b' where "b = c # b'" using False by (cases b) auto
        then show ?L using b by (intro exI [of _ b'] exI [of _ x]) auto
      qed
      finally show ?thesis .
    next
      case cut: False
      then have "\<not> dos83_loop (c # s) i e False" using False by (auto simp: dos_char_def)
      moreover have "\<not> (\<exists>b x. (c # s = b \<and> x = [] \<or> c # s = b @ CHR ''.'' # x) \<and> i + length b \<le> e \<and> length x \<le> 3
          \<and> (\<forall>c \<in> set (b @ x). dos_char c))"
      proof
        assume "\<exists>b x. (c # s = b \<and> x = [] \<or> c # s = b @ CHR ''.'' # x) \<and> i + length b \<le> e \<and> length x \<le> 3
          \<and> (\<forall>c \<in> set (b @ x). dos_char c)"
        then obtain b x where b: "(c # s = b \<and> x = [] \<or> c # s = b @ CHR ''.'' # x) \<and> i + length b \<le> e
          \<and> (\<forall>c \<in> set (b @ x). dos_char c)" by blast
        then obtain b' where "b = c # b'" using False by (cases b) auto
        then show False using b cut by auto
      qed
      ultimately show ?thesis by blast
    qed
  qed
qed simp

text \<open>
  \<^verbatim>\<open>_is_DOS83\<close> accepts exactly the two dot names and the names with at most eight characters, optionally
  followed by a period and at most three more, all of them upper case and allowed; and the short name
  that \<^verbatim>\<open>_lfn_gen_short_fname\<close> writes never exceeds the twelve characters and NUL of its buffer.
\<close>

theorem dos_names:
  "(is_DOS83 s \<longleftrightarrow> s = ''.'' \<or> s = ''..'' \<or>
     (\<exists>b x. (s = b \<and> x = [] \<or> s = b @ CHR ''.'' # x) \<and> (s = [] \<or> b \<noteq> []) \<and> length b \<le> 8 \<and> length x \<le> 3
        \<and> (\<forall>c \<in> set (b @ x). dos_char c)))
   \<and> length (lfn_gen_short_fname fcb s) \<le> 12"
proof
  have fcb: "length (fcb_name buf) \<le> 12" for buf
  proof -
    define base where "base = takeWhile (\<lambda>c. c \<noteq> NUL \<and> c \<noteq> CHR '' '') (take 8 buf)"
    define n where "n = length base + length (takeWhile (\<lambda>c. c = CHR '' '') (drop (length base) (take 8 buf)))"
    have "length base \<le> length (take 8 buf)" unfolding base_def by (rule length_takeWhile_le)
    moreover have "length (takeWhile (\<lambda>c. c \<noteq> NUL \<and> c \<noteq> CHR '' '') (drop n (take 11 buf))) \<le> 11 - n"
      by (rule le_trans [OF length_takeWhile_le]) simp
    moreover have "length base \<le> n" by (simp add: n_def)
    ultimately have "length base + length (takeWhile (\<lambda>c. c \<noteq> NUL \<and> c \<noteq> CHR '' '') (drop n (take 11 buf))) \<le> 11"
      "length base \<le> 8" by auto
    then show ?thesis by (simp add: fcb_name_def Let_def flip: base_def n_def)
  qed
  then show "length (lfn_gen_short_fname fcb s) \<le> 12" by (simp add: lfn_gen_short_fname_def split: option.split)
  show "is_DOS83 s \<longleftrightarrow> s = ''.'' \<or> s = ''..'' \<or>
     (\<exists>b x. (s = b \<and> x = [] \<or> s = b @ CHR ''.'' # x) \<and> (s = [] \<or> b \<noteq> []) \<and> length b \<le> 8 \<and> length x \<le> 3
        \<and> (\<forall>c \<in> set (b @ x). dos_char c))"
  proof (cases "s \<noteq> [] \<and> hd s = CHR ''.''")
    case True
    then obtain r where s: "s = CHR ''.'' # r" by (cases s) auto
    have no: "\<not> ((s = b \<and> x = [] \<or> s = b @ CHR ''.'' # x) \<and> (s = [] \<or> b \<noteq> []) \<and> (\<forall>c \<in> set (b @ x). dos_char c))" for b x
      using s by (cases b) (auto simp: dos_char_def)
    have "is_DOS83 s \<longleftrightarrow> s = ''.'' \<or> s = ''..''"
      using s by (cases r) (auto simp: is_DOS83_def chr_at_def length_Suc_conv)
    then show ?thesis using no by blast
  next
    case False
    then have "is_DOS83 s = dos83_loop s 0 8 False" by (auto simp: is_DOS83_def chr_at_def hd_conv_nth)
    moreover have "s = [] \<or> b \<noteq> []" if "s = b \<and> x = [] \<or> s = b @ CHR ''.'' # x" for b x
      using that False by auto
    moreover have "s \<noteq> ''.'' \<and> s \<noteq> ''..''" using False by auto
    ultimately show ?thesis using dos83_base [of 0 8 s] by (metis add_0 zero_le_numeral)
  qed
qed

theorem dos_names_witness:
  "is_DOS83 ''AB.C''"
proof -
  have "(''AB.C'' = ''AB'' \<and> ''C'' = [] \<or> ''AB.C'' = ''AB'' @ CHR ''.'' # ''C'') \<and> (''AB.C'' = [] \<or> ''AB'' \<noteq> [])
      \<and> length ''AB'' \<le> 8 \<and> length ''C'' \<le> 3 \<and> (\<forall>c \<in> set (''AB'' @ ''C''). dos_char c)"
    by (simp add: dos_char_def code_def)
  with dos_names [of "''AB.C''" None] show ?thesis by blast
qed

end
