(* ===== verification/Fixpath.thy ===== *)
theory Fixpath
  imports Paths
begin

text \<open>
  \<^verbatim>\<open>__canonicalize_path\<close> of \<^verbatim>\<open>posix/sys/stat/fixpath.c\<close>, with \<^verbatim>\<open>_fixpath\<close>: paths are made absolute, separators are unified and components \<^verbatim>\<open>.\<close> and
  \<^verbatim>\<open>..\<close> resolved. The path is what \<^verbatim>\<open>_put_path\<close> leaves in the transfer buffer; the current drive and directory, as DOS
  reports them, are arguments. The output is the list of the characters stored so far. \<^verbatim>\<open>mblen\<close> of this library is at most 1, so that
  the branches for multibyte characters are never taken.
\<close>

section \<open>Operations\<close>

datatype fixed = Fixed string | Too_long | Overrun

record dos_dir =
  cur_drive :: nat
  cur_dir :: "nat \<Rightarrow> string option"
  nt_lfn :: bool
  long_dir :: "nat \<Rightarrow> string option"

definition is_term :: "char \<Rightarrow> bool" where
  "is_term c \<longleftrightarrow> slash c \<or> c = NUL"

definition letter :: "nat \<Rightarrow> nat \<Rightarrow> char" where
  "letter base n = char_of (base + n)"

text \<open>
  The current directory of a drive, or a period if DOS does not tell. Windows NT and its successors may report the root
  directory for a long path, which is then asked for in another way.
\<close>

definition get_current_directory :: "dos_dir \<Rightarrow> nat \<Rightarrow> string \<Rightarrow> string" where
  "get_current_directory d n out =
     (case cur_dir d n of
        None \<Rightarrow> out @ ''.''
      | Some p \<Rightarrow>
          if p \<noteq> [] then out @ ''/'' @ p
          else if \<not> nt_lfn d then out
          else (case long_dir d n of
            None \<Rightarrow> out @ ''.''
          | Some t \<Rightarrow>
              if (chr_at t 0 = letter 65 n \<or> chr_at t 0 = letter 97 n) \<and> chr_at t 1 = CHR '':'' then
                if chr_at t 2 = CHR 0x5C \<and> chr_at t 3 = NUL then out else out @ drop 2 t
              else out @ ''.''))"

text \<open>The drive letter: the drive of the path in lower case, or the current one.\<close>

definition out_drive :: "dos_dir \<Rightarrow> string \<Rightarrow> nat \<times> string \<times> string" where
  "out_drive d ip =
     (if alpha (chr_at ip 0) \<and> chr_at ip 1 = CHR '':'' then
        let n = (if 97 \<le> code (chr_at ip 0) then code (chr_at ip 0) - 97 else code (chr_at ip 0) - 65) in
        (n, [letter 97 n, CHR '':''], drop 2 ip)
      else (cur_drive d, [letter (if cur_drive d < 26 then 97 else 65) (cur_drive d), CHR '':''], ip))"

text \<open>One component: the characters up to the next separator, each stored before the limit is tested.\<close>

fun copy_component :: "nat \<Rightarrow> string \<Rightarrow> string \<Rightarrow> (string \<times> string) + fixed" where
  "copy_component lim out [] = Inl (out, [])"
| "copy_component lim out (c # ip) =
     (if is_term c then Inl (out, c # ip)
      else if lim \<le> length out then Inr Overrun
      else if lim \<le> length out + 1 then Inr Too_long
      else copy_component lim (out @ [c]) ip)"

lemma copy_component_rest: "copy_component lim out ip = Inl (out', ip') \<Longrightarrow> length ip' \<le> length ip"
  by (induction lim out ip rule: copy_component.induct) (auto split: if_splits)

text \<open>\<^verbatim>\<open>while (!is_slash(*--op));\<close> moves back to the last slash.\<close>

definition back_up :: "string \<Rightarrow> string option" where
  "back_up out = map_option (\<lambda>i. take i out) (last_at slash out)"

definition store_dots :: "nat \<Rightarrow> string \<Rightarrow> string option" where
  "store_dots lim out = (if length out + 3 \<le> lim then Some (out @ ''/..'') else None)"

function canon_loop :: "nat \<Rightarrow> string \<Rightarrow> string \<Rightarrow> string + fixed" where
  "canon_loop lim out [] = Inl out"
| "canon_loop lim out (c # ip) =
     (if c = NUL then Inl out
      else if slash c then canon_loop lim out ip
      else if c = CHR ''.'' \<and> is_term (chr_at ip 0) then canon_loop lim out ip
      else if c = CHR ''.'' \<and> chr_at ip 0 = CHR ''.'' \<and> is_term (chr_at ip 1) then
        if chr_at out 2 = CHR ''.'' \<and> chr_at out (length out - 1) = CHR ''.'' then
          (case store_dots lim out of None \<Rightarrow> Inr Overrun | Some out' \<Rightarrow> canon_loop lim out' (drop 1 ip))
        else if 2 < length out then
          (case back_up out of None \<Rightarrow> Inr Overrun | Some out' \<Rightarrow> canon_loop lim out' (drop 1 ip))
        else canon_loop lim out (drop 1 ip)
      else if lim \<le> length out then Inr Too_long
      else
        (case copy_component lim (out @ ''/'') (c # ip) of
           Inr e \<Rightarrow> Inr e
         | Inl (out', ip') \<Rightarrow> canon_loop lim out' ip'))"
  by pat_completeness auto
termination
proof (relation "measure (\<lambda>(lim, out, ip). length ip)", goal_cases)
  case (7 lim out c ip z x y)
  then have "\<not> is_term c" by (auto simp: is_term_def)
  then show ?case using 7 copy_component_rest [of lim "(out @ ''/'') @ [c]" ip x y] by (auto split: if_splits)
qed auto

declare canon_loop.simps(2) [simp del]

text \<open>
  The last loop: backslashes from the third character on become slashes, and unless the case of names is to be preserved, components
  that are DOS names are written in lower case.
\<close>

definition lower :: "char \<Rightarrow> char" where
  "lower c = (if 65 \<le> code c \<and> code c \<le> 90 then char_of (code c + 32) else c)"

definition down :: "bool \<Rightarrow> string \<Rightarrow> string" where
  "down preserve_case s = (if \<not> preserve_case \<and> is_DOS83 s then map lower s else s)"

fun fix_names :: "bool \<Rightarrow> string \<Rightarrow> string \<Rightarrow> string" where
  "fix_names pr name [] = down pr name"
| "fix_names pr name (c # s) = (if slash c then down pr name @ CHR ''/'' # fix_names pr [] s else fix_names pr (name @ [c]) s)"

definition FILENAME_MAX :: nat where "FILENAME_MAX = 260"

definition canonicalize_path :: "bool \<Rightarrow> dos_dir \<Rightarrow> nat \<Rightarrow> string \<Rightarrow> fixed" where
  "canonicalize_path preserve_case d path_max in1 =
     (let lim = (if path_max > FILENAME_MAX then FILENAME_MAX else path_max);
          (n, out, ip) = out_drive d in1;
          out = (if \<not> slash (chr_at ip 0) then get_current_directory d n out else out) in
      if lim \<le> length out then Overrun
      else (case canon_loop lim out ip of
        Inr e \<Rightarrow> e
      | Inl out \<Rightarrow>
          let out = (if length out = 2 then out @ ''/'' else out) in
          if lim \<le> length out then Too_long else Fixed (take 3 out @ fix_names preserve_case [] (drop 3 out))))"

definition fixpath :: "bool \<Rightarrow> dos_dir \<Rightarrow> string \<Rightarrow> fixed" where
  "fixpath preserve_case d in1 = canonicalize_path preserve_case d FILENAME_MAX in1"

section \<open>What the path stands for\<close>

function components :: "string \<Rightarrow> string list" where
  "components s =
     (let t = dropWhile slash s in
      if t = [] then [] else takeWhile (\<lambda>c. \<not> slash c) t # components (dropWhile (\<lambda>c. \<not> slash c) t))"
  by pat_completeness auto
termination
proof (relation "measure length", goal_cases)
  case (2 s t)
  have "\<not> slash (hd t)" using 2 hd_dropWhile [of slash s] by simp
  then obtain c t' where t: "t = c # t'" "\<not> slash c" using 2(2) by (cases t) auto
  have "length (dropWhile (\<lambda>c. \<not> slash c) t) \<le> length t'" using t by (simp add: length_dropWhile_le)
  moreover have "length t \<le> length s" using 2(1) by (simp add: length_dropWhile_le)
  ultimately show ?case using t by simp
qed simp

declare components.simps [simp del]

definition resolve :: "string list \<Rightarrow> string \<Rightarrow> string list" where
  "resolve st c = (if c = ''.'' then st else if c = ''..'' then butlast st else st @ [c])"

definition render :: "string \<Rightarrow> string list \<Rightarrow> string" where
  "render drv st = drv @ (if st = [] then ''/'' else concat (map (\<lambda>c. CHR ''/'' # c) st))"

definition clean :: "string \<Rightarrow> bool" where
  "clean c \<longleftrightarrow> c \<noteq> [] \<and> NUL \<notin> set c \<and> (\<forall>x\<in>set c. \<not> slash x)"

lemma components_simps:
  "components [] = []"
  "slash c \<Longrightarrow> components (c # s) = components s"
  "clean w \<Longrightarrow> s = [] \<or> slash (hd s) \<Longrightarrow> components (w @ s) = w # components s"
proof -
  show "components [] = []" by (subst components.simps) simp
  show "components (c # s) = components s" if "slash c" by (subst (1 2) components.simps) (simp add: that)
  show "components (w @ s) = w # components s" if w: "clean w" "s = [] \<or> slash (hd s)"
  proof -
    have d: "dropWhile slash (w @ s) = w @ s" using w(1) by (cases w) (auto simp: clean_def)
    have t: "takeWhile (\<lambda>c. \<not> slash c) (w @ s) = w" using w by (cases s) (auto simp: clean_def takeWhile_append)
    have "dropWhile (\<lambda>c. \<not> slash c) (w @ s) = s" using w by (cases s) (auto simp: clean_def dropWhile_append)
    then show ?thesis using w(1) by (subst components.simps) (simp add: d t clean_def)
  qed
qed

lemma split_component:
  assumes "NUL \<notin> set (c # s)" "\<not> slash c"
  obtains w r where "c # s = w @ r" "clean w" "r = [] \<or> slash (hd r)"
proof
  let ?w = "takeWhile (\<lambda>c. \<not> slash c) (c # s)" and ?r = "dropWhile (\<lambda>c. \<not> slash c) (c # s)"
  show "c # s = ?w @ ?r" by (simp only: takeWhile_dropWhile_id)
  show "clean ?w" using assms by (auto simp: clean_def dest: set_takeWhileD)
  show "?r = [] \<or> slash (hd ?r)" using hd_dropWhile [of "\<lambda>c. \<not> slash c" "c # s"] by blast
qed

lemma copy_component_clean:
  "\<forall>x\<in>set w. \<not> is_term x \<Longrightarrow> r = [] \<or> is_term (hd r) \<Longrightarrow> length out + length w < lim \<Longrightarrow> copy_component lim out (w @ r) = Inl (out @ w, r)"
proof (induction w arbitrary: out)
  case Nil
  then show ?case by (cases r) auto
next
  case (Cons c w)
  then show ?case using Cons.IH [of "out @ [c]"] by auto
qed

lemma last_at_append: "P x \<Longrightarrow> \<forall>y\<in>set c. \<not> P y \<Longrightarrow> last_at P (o1 @ x # c) = Some (length o1)"
proof (induction o1)
  case Nil
  then have "last_at P c = None" by (simp add: last_at_None)
  then show ?case using Nil by simp
qed simp

text \<open>The output is a drive and components, each after a separator, the first after a slash.\<close>

definition holds :: "string \<Rightarrow> string list \<Rightarrow> string \<Rightarrow> bool" where
  "holds drv st out \<longleftrightarrow> length drv = 2 \<and> (\<forall>c\<in>set drv. \<not> slash c) \<and> (\<forall>c\<in>set st. clean c) \<and>
     (\<exists>seps. length seps = length st \<and> (\<forall>c\<in>set seps. slash c) \<and> (seps = [] \<or> hd seps = CHR ''/'') \<and>
       out = drv @ concat (map2 (#) seps st))"

lemma holds_Nil: "holds drv [] out \<longleftrightarrow> length drv = 2 \<and> (\<forall>c\<in>set drv. \<not> slash c) \<and> out = drv"
  by (auto simp: holds_def)

lemma holds_snoc: "holds drv st out \<Longrightarrow> clean c \<Longrightarrow> holds drv (st @ [c]) (out @ ''/'' @ c)"
proof -
  assume a: "holds drv st out" "clean c"
  then obtain seps where s: "length seps = length st" "\<forall>c\<in>set seps. slash c" "seps = [] \<or> hd seps = CHR ''/''" "out = drv @ concat (map2 (#) seps st)"
    by (auto simp: holds_def)
  have "out @ ''/'' @ c = drv @ concat (map2 (#) (seps @ ''/'') (st @ [c]))" using s by simp
  moreover have "seps @ ''/'' = [] \<or> hd (seps @ ''/'') = CHR ''/''" using s(3) by (cases seps) auto
  ultimately show ?thesis using a s unfolding holds_def by (intro conjI exI [of _ "seps @ ''/''"]) (auto simp: slash_def)
qed

lemma holds_length: "holds drv st out \<Longrightarrow> 2 \<le> length out \<and> (length out = 2 \<longleftrightarrow> st = [])"
  by (cases st) (auto simp: holds_def length_Suc_conv)

lemma holds_third: "holds drv st out \<Longrightarrow> st \<noteq> [] \<Longrightarrow> chr_at out 2 = CHR ''/''"
  by (cases st) (auto simp: holds_def chr_at_def length_Suc_conv nth_append)

lemma holds_back:
  assumes "holds drv st out" "st \<noteq> []"
  shows "\<exists>out'. back_up out = Some out' \<and> holds drv (butlast st) out' \<and> length out' \<le> length out"
proof -
  obtain seps where s: "length seps = length st" "\<forall>c\<in>set seps. slash c" "seps = [] \<or> hd seps = CHR ''/''" "out = drv @ concat (map2 (#) seps st)"
    using assms(1) by (auto simp: holds_def)
  obtain st' c where st: "st = st' @ [c]" using assms(2) by (cases st rule: rev_cases) auto
  obtain seps' x where seps: "seps = seps' @ [x]" using s(1) st by (cases seps rule: rev_cases) auto
  let ?o = "drv @ concat (map2 (#) seps' st')"
  have out: "out = ?o @ x # c" using s(1,4) st seps by simp
  have c: "\<forall>y\<in>set c. \<not> slash y" using assms(1) st by (auto simp: holds_def clean_def)
  have "last_at slash (?o @ x # c) = Some (length ?o)"
    using c s(2) seps by (intro last_at_append) auto
  then have "back_up out = Some ?o" by (simp add: back_up_def out)
  moreover have "holds drv st' ?o" unfolding holds_def
    using assms(1) s st seps by (intro conjI exI [of _ seps']) (auto simp: holds_def, cases seps', auto)
  ultimately show ?thesis using st out by auto
qed

lemma no_dots: "holds drv st out \<Longrightarrow> \<not> (chr_at out 2 = CHR ''.'' \<and> b)"
  using holds_third [of drv st out] holds_length [of drv st out] by (cases "st = []") (auto simp: chr_at_def)

text \<open>Room for what is left of the path: a separator is added only where the path begins with a component.\<close>

definition room :: "nat \<Rightarrow> string \<Rightarrow> string \<Rightarrow> bool" where
  "room lim out ip \<longleftrightarrow> length out + length ip + (if ip \<noteq> [] \<and> \<not> slash (hd ip) then 1 else 0) < lim"

lemma not_dots_cases:
  assumes "clean w" "r = [] \<or> slash (hd r)" "c # s = w @ r"
  shows "c = CHR ''.'' \<and> is_term (chr_at s 0) \<longleftrightarrow> w = ''.''"
    and "c = CHR ''.'' \<and> chr_at s 0 = CHR ''.'' \<and> is_term (chr_at s 1) \<longleftrightarrow> w = ''..''"
proof -
  have t: "is_term (chr_at r 0)" using assms(2) by (cases r) (auto simp: is_term_def chr_at_def)
  obtain d w' where w: "w = d # w'" "c = d" "s = w' @ r" using assms(1,3) by (cases w) (auto simp: clean_def)
  have nt: "\<not> is_term x" if "x \<in> set w'" for x using that assms(1) w by (auto simp: clean_def is_term_def)
  show "c = CHR ''.'' \<and> is_term (chr_at s 0) \<longleftrightarrow> w = ''.''"
    using w t nt by (cases w') (auto simp: chr_at_def split: if_splits)
  show "c = CHR ''.'' \<and> chr_at s 0 = CHR ''.'' \<and> is_term (chr_at s 1) \<longleftrightarrow> w = ''..''"
  proof (cases w')
    case Nil
    have "\<not> slash CHR ''.''" by (simp add: slash_def)
    then show ?thesis using w Nil assms(2) by (cases r) (auto simp: chr_at_def)
  next
    case (Cons e v)
    then show ?thesis using w t nt by (cases v) (auto simp: chr_at_def split: if_splits)
  qed
qed

lemma clean_resolve: "\<forall>c\<in>set st. clean c \<Longrightarrow> clean w \<Longrightarrow> \<forall>c\<in>set (resolve st w). clean c"
  by (auto simp: resolve_def dest: in_set_butlastD)

lemma canon_loop_slash: "slash c \<Longrightarrow> canon_loop lim out (c # ip) = canon_loop lim out ip"
  by (auto simp: canon_loop.simps(2) slash_def)

lemma canon_loop_name:
  assumes "clean w" "w \<noteq> ''.''" "w \<noteq> ''..''" "r = [] \<or> slash (hd r)" "length out + 1 + length w < lim"
  shows "canon_loop lim out (w @ r) = canon_loop lim (out @ ''/'' @ w) r"
proof -
  obtain c s where w: "w @ r = c # s" "c \<in> set w" using assms(1) by (cases w) (auto simp: clean_def)
  note dots = not_dots_cases [OF assms(1,4) w(1) [symmetric]]
  have nt: "\<forall>x\<in>set w. \<not> is_term x" "r = [] \<or> is_term (hd r)" using assms(1,4) by (auto simp: clean_def is_term_def)
  have "copy_component lim (out @ ''/'') (c # s) = Inl ((out @ ''/'') @ w, r)"
    unfolding w(1) [symmetric] using nt assms(5) by (intro copy_component_clean) auto
  moreover have "c \<noteq> NUL" "\<not> slash c" using w(2) assms(1) by (auto simp: clean_def)
  ultimately show ?thesis unfolding w(1) using dots assms(2,3,5) by (auto simp: canon_loop.simps(2))
qed

lemma canon_loop_resolves:
  "holds drv st out \<Longrightarrow> NUL \<notin> set ip \<Longrightarrow> room lim out ip \<Longrightarrow>
    \<exists>out'. canon_loop lim out ip = Inl out' \<and> holds drv (foldl resolve st (components ip)) out' \<and> length out' < lim"
proof (induction "length ip" arbitrary: ip out st rule: less_induct)
  case less
  show ?case
  proof (cases ip)
    case Nil
    then show ?thesis using less.prems by (simp add: components_simps room_def)
  next
    case (Cons c s)
    show ?thesis
    proof (cases "slash c")
      case True
      have "canon_loop lim out ip = canon_loop lim out s" "components ip = components s"
        using True Cons less.prems(2) by (auto simp: canon_loop.simps(2) components_simps)
      then show ?thesis using less.hyps [of s st out] less.prems Cons True by (auto simp: room_def split: if_splits)
    next
      case False
      obtain w r where w: "c # s = w @ r" "clean w" "r = [] \<or> slash (hd r)"
        by (rule split_component [of c s]) (use less.prems(2) Cons False that in auto)
      have comps: "components ip = w # components r" using components_simps(3) [OF w(2,3)] w(1) Cons by simp
      note dots = not_dots_cases [OF w(2,3,1)]
      have ih: "\<exists>out'. canon_loop lim out1 r = Inl out' \<and> holds drv (foldl resolve st1 (components r)) out' \<and> length out' < lim"
        if "holds drv st1 out1" "length out1 + length r < lim" for out1 st1
        using less.hyps [of r st1 out1] that w less.prems(2) Cons
        by (cases r) (auto simp: room_def clean_def)
      have "length (c # s) = length w + length r" using w(1) by (metis length_append)
      moreover have "length out + length (c # s) + 1 < lim" using less.prems(3) Cons False by (simp add: room_def)
      ultimately have room: "length out + 1 + length w + length r < lim" by simp
      have c0: "c \<noteq> NUL" using less.prems(2) Cons by auto
      consider (dot) "w = ''.''" | (dots) "w = ''..''" | (name) "w \<noteq> ''.''" "w \<noteq> ''..''" by blast
      then show ?thesis
      proof cases
        case dot
        then have "canon_loop lim out ip = canon_loop lim out r" using Cons False c0 dots w(1) by (simp add: canon_loop.simps(2))
        then show ?thesis using ih [OF less.prems(1)] room dot comps by (simp add: resolve_def)
      next
        case dots': dots
        have s: "drop 1 s = r" using w(1) dots' by simp
        have e: "canon_loop lim out ip =
            (if 2 < length out then (case back_up out of None \<Rightarrow> Inr Overrun | Some out' \<Rightarrow> canon_loop lim out' r) else canon_loop lim out r)"
          using Cons False c0 dots dots' no_dots [OF less.prems(1)] s by (auto simp: canon_loop.simps(2) split: option.splits)
        show ?thesis
        proof (cases "st = []")
          case True
          then have "canon_loop lim out ip = canon_loop lim out r" using e holds_length [OF less.prems(1)] by simp
          then show ?thesis using ih [OF less.prems(1)] room dots' comps True by (simp add: resolve_def)
        next
          case ne: False
          obtain out1 where o: "back_up out = Some out1" "holds drv (butlast st) out1" "length out1 \<le> length out"
            using holds_back [OF less.prems(1) ne] by blast
          have "canon_loop lim out ip = canon_loop lim out1 r" using e o(1) holds_length [OF less.prems(1)] ne by auto
          then show ?thesis using ih [OF o(2)] o(3) room dots' comps by (simp add: resolve_def)
        qed
      next
        case name
        have "canon_loop lim out ip = canon_loop lim (out @ ''/'' @ w) r"
          using canon_loop_name [OF w(2) name w(3), of out lim] room Cons w(1) by simp
        then show ?thesis using ih [OF holds_snoc [OF less.prems(1) w(2)]] room name comps by (simp add: resolve_def)
      qed
    qed
  qed
qed

lemma fix_names_word: "\<forall>x\<in>set w. \<not> slash x \<Longrightarrow> fix_names pr name (w @ s) = fix_names pr (name @ w) s"
  by (induction w arbitrary: name) auto

lemma fix_names_rest:
  "length seps = length st \<Longrightarrow> \<forall>c\<in>set seps. slash c \<Longrightarrow> \<forall>c\<in>set st. clean c \<Longrightarrow>
    fix_names pr name (concat (map2 (#) seps st)) = down pr name @ concat (map (\<lambda>c. CHR ''/'' # down pr c) st)"
proof (induction seps st arbitrary: name rule: list_induct2)
  case (Cons x seps c st)
  then show ?case using fix_names_word [of c pr "[]"] by (simp add: clean_def)
qed simp

lemma length_down [simp]: "length (down pr c) = length c"
  by (simp add: down_def)

lemma length_fix_names: "length (fix_names pr name s) = length name + length s"
  by (induction pr name s rule: fix_names.induct) auto

lemma names_of_out:
  assumes "holds drv st out" "out1 = (if length out = 2 then out @ ''/'' else out)"
  shows "take 3 out1 @ fix_names pr [] (drop 3 out1) = render drv (map (down pr) st)"
proof (cases st)
  case Nil
  then show ?thesis using assms by (auto simp: holds_Nil render_def down_def)
next
  case (Cons c st')
  obtain seps where s: "length seps = length st" "\<forall>c\<in>set seps. slash c" "hd seps = CHR ''/''" "out = drv @ concat (map2 (#) seps st)"
    using assms(1) Cons by (auto simp: holds_def)
  obtain seps' where seps: "seps = CHR ''/'' # seps'" using s(1,3) Cons by (cases seps) auto
  have cl: "clean c" "\<forall>c\<in>set st'. clean c" "length drv = 2" using assms(1) Cons by (auto simp: holds_def)
  have "out1 = (drv @ ''/'') @ c @ concat (map2 (#) seps' st')"
    using assms(2) s(4) seps Cons holds_length [OF assms(1)] by simp
  then have "take 3 out1 = drv @ ''/''" "drop 3 out1 = c @ concat (map2 (#) seps' st')" using cl(3) by auto
  moreover have "fix_names pr [] (c @ concat (map2 (#) seps' st')) = down pr c @ concat (map (\<lambda>c. CHR ''/'' # down pr c) st')"
    using fix_names_word [of c pr "[]"] fix_names_rest [of seps' st' pr c] s(1,2) seps Cons cl by (simp add: clean_def)
  ultimately show ?thesis using Cons by (simp add: render_def o_def)
qed

text \<open>The drive and the directory that a path starts from.\<close>

definition drive_letter :: "dos_dir \<Rightarrow> string \<Rightarrow> string" where
  "drive_letter d p = fst (snd (out_drive d p))"

definition dos_dir_ok :: "dos_dir \<Rightarrow> (nat \<Rightarrow> string list) \<Rightarrow> bool" where
  "dos_dir_ok d cwd \<longleftrightarrow> cur_drive d < 26 \<and> \<not> nt_lfn d \<and>
     (\<forall>n. (\<forall>c\<in>set (cwd n). clean c) \<and> cur_dir d n = Some (drop 1 (concat (map (\<lambda>c. CHR 0x5C # c) (cwd n)))))"

definition base_of :: "dos_dir \<Rightarrow> (nat \<Rightarrow> string list) \<Rightarrow> string \<Rightarrow> string list" where
  "base_of d cwd p = (let (n, out, ip) = out_drive d p in if slash (chr_at ip 0) then [] else cwd n)"

definition rest_of :: "dos_dir \<Rightarrow> string \<Rightarrow> string" where
  "rest_of d p = snd (snd (out_drive d p))"

lemma slash_code: "slash c \<longleftrightarrow> code c = 47 \<or> code c = 92"
proof -
  have "c = CHR ''/'' \<longleftrightarrow> code c = 47" "c = CHR 0x5C \<longleftrightarrow> code c = 92"
    by (auto simp: code_def char_of_eq_iff [symmetric] simp flip: of_char_eq_iff [where ?'a = nat])
  then show ?thesis by (simp add: slash_def)
qed

lemma code_letter: "n < 26 \<Longrightarrow> code (letter 97 n) = 97 + n"
  by (simp add: code_def letter_def)

lemma out_drive_ok:
  assumes "cur_drive d < 26" "out_drive d p = (n, out, ip)"
  shows "n < 26" "out = [letter 97 n, CHR '':'']" "length ip \<le> length p" "set ip \<subseteq> set p"
proof -
  have "n < 26 \<and> out = [letter 97 n, CHR '':''] \<and> (\<exists>k. ip = drop k p)"
  proof (cases "alpha (chr_at p 0) \<and> chr_at p 1 = CHR '':''")
    case True
    then have "code (chr_at p 0) - 97 < 26 \<or> code (chr_at p 0) < 97" "code (chr_at p 0) - 65 < 26 \<or> 97 \<le> code (chr_at p 0)"
      by (auto simp: alpha_def)
    then show ?thesis using True assms(2) by (auto simp: out_drive_def Let_def split: if_splits)
  next
    case False
    then show ?thesis using assms by (auto simp: out_drive_def Let_def intro: exI [of _ 0])
  qed
  then show "n < 26" "out = [letter 97 n, CHR '':'']" "length ip \<le> length p" "set ip \<subseteq> set p" by (auto dest: in_set_dropD)
qed

lemma holds_start:
  assumes "n < 26" "dos_dir_ok d cwd"
  shows "holds [letter 97 n, CHR '':''] [] [letter 97 n, CHR '':'']"
    and "holds [letter 97 n, CHR '':''] (cwd n) (get_current_directory d n [letter 97 n, CHR '':''])"
    and "length (get_current_directory d n [letter 97 n, CHR '':'']) = 2 + length (concat (map (\<lambda>c. CHR 0x5C # c) (cwd n)))"
proof -
  let ?drv = "[letter 97 n, CHR '':'']"
  have drv: "length ?drv = 2" "\<forall>c\<in>set ?drv. \<not> slash c" using code_letter [OF assms(1)] assms(1) by (auto simp: slash_code, auto simp: code_def)
  then show "holds ?drv [] ?drv" by (simp add: holds_Nil)
  have d: "\<forall>c\<in>set (cwd n). clean c" "cur_dir d n = Some (drop 1 (concat (map (\<lambda>c. CHR 0x5C # c) (cwd n))))" "\<not> nt_lfn d"
    using assms(2) by (auto simp: dos_dir_ok_def)
  show "holds ?drv (cwd n) (get_current_directory d n ?drv)"
  proof (cases "cwd n")
    case Nil
    then show ?thesis using drv d by (simp add: get_current_directory_def holds_Nil)
  next
    case (Cons c cs)
    have m: "map2 (#) (replicate (length cs) x) cs = map (\<lambda>c. x # c) cs" for x :: char and cs by (induction cs) auto
    have "get_current_directory d n ?drv = ?drv @ concat (map2 (#) (CHR ''/'' # replicate (length cs) CHR 0x5C) (cwd n))"
      using d Cons by (auto simp: get_current_directory_def clean_def m)
    then show ?thesis using drv d(1) Cons unfolding holds_def
      by (intro conjI exI [of _ "CHR ''/'' # replicate (length cs) CHR 0x5C"]) (auto simp: slash_def)
  qed
  show "length (get_current_directory d n ?drv) = 2 + length (concat (map (\<lambda>c. CHR 0x5C # c) (cwd n)))"
    using d by (cases "cwd n") (auto simp: get_current_directory_def clean_def)
qed

lemma canonicalize_resolves:
  fixes pr
  assumes d: "dos_dir_ok d cwd" and p: "NUL \<notin> set p"
    and room: "4 + length (concat (map (\<lambda>c. CHR 0x5C # c) (base_of d cwd p))) + length p < min path_max FILENAME_MAX"
  defines "s \<equiv> render (drive_letter d p) (map (down pr) (foldl resolve (base_of d cwd p) (components (rest_of d p))))"
  shows "canonicalize_path pr d path_max p = Fixed s \<and> length s < min path_max FILENAME_MAX"
proof -
  obtain n drv ip where o: "out_drive d p = (n, drv, ip)" by (metis prod_cases3)
  have "cur_drive d < 26" using d by (simp add: dos_dir_ok_def)
  note ok = out_drive_ok [OF this o]
  let ?lim = "if path_max > FILENAME_MAX then FILENAME_MAX else path_max"
  define out where "out = (if \<not> slash (chr_at ip 0) then get_current_directory d n drv else drv)"
  have b: "base_of d cwd p = (if slash (chr_at ip 0) then [] else cwd n)" "drive_letter d p = drv" "rest_of d p = ip"
    by (simp_all add: base_of_def drive_letter_def rest_of_def o)
  have h: "holds drv (base_of d cwd p) out" "length out = 2 + length (concat (map (\<lambda>c. CHR 0x5C # c) (base_of d cwd p)))"
    using holds_start [OF ok(1) d] ok(2) by (auto simp: out_def b)
  have lim: "length out + length ip + 2 < ?lim" using room h(2) ok(3) by (simp add: min_def split: if_splits)
  have "\<exists>out'. canon_loop ?lim out ip = Inl out' \<and> holds drv (foldl resolve (base_of d cwd p) (components ip)) out' \<and> length out' < ?lim"
    using lim p ok(4) by (intro canon_loop_resolves [OF h(1)]) (auto simp: room_def)
  then obtain out' where c: "canon_loop ?lim out ip = Inl out'" "holds drv (foldl resolve (base_of d cwd p) (components ip)) out'" "length out' < ?lim"
    by blast
  define out1 where "out1 = (if length out' = 2 then out' @ ''/'' else out')"
  have l1: "length out1 < ?lim" using c(3) lim h(2) by (simp add: out1_def split: if_splits)
  have "canonicalize_path pr d path_max p = (if ?lim \<le> length out then Overrun else case canon_loop ?lim out ip of Inr e \<Rightarrow> e
      | Inl out \<Rightarrow> let out = (if length out = 2 then out @ ''/'' else out) in
          if ?lim \<le> length out then Too_long else Fixed (take 3 out @ fix_names pr [] (drop 3 out)))"
    by (simp add: canonicalize_path_def o out_def)
  also have "\<dots> = Fixed (take 3 out1 @ fix_names pr [] (drop 3 out1))"
    using lim l1 c(1) by (simp add: out1_def [symmetric] Let_def)
  finally have "canonicalize_path pr d path_max p = Fixed s" using names_of_out [OF c(2) out1_def] b by (simp add: s_def)
  moreover have "length s = length (take 3 out1) + length (drop 3 out1)"
    unfolding s_def b(2,3) names_of_out [OF c(2) out1_def, symmetric] by (simp add: length_fix_names)
  then have "length s = length out1" by simp
  ultimately show ?thesis using l1 by (simp add: min_def split: if_splits)
qed

section \<open>Canonical paths\<close>

lemma code_lower: "code (lower c) = (if 65 \<le> code c \<and> code c \<le> 90 then code c + 32 else code c)"
  by (simp add: lower_def code_def)

lemma code_inj: "code a = code b \<longleftrightarrow> a = b"
  by (simp add: code_def)

lemma clean_down: "clean c \<Longrightarrow> clean (down pr c)"
proof -
  assume c: "clean c"
  have "lower x \<noteq> NUL \<and> \<not> slash (lower x)" if "x \<in> set c" for x
  proof -
    have "\<not> slash x" "x \<noteq> NUL" using that c by (auto simp: clean_def)
    then have "code x \<noteq> 0" "code x \<noteq> 47" "code x \<noteq> 92" by (auto simp: slash_code code_inj [of x NUL, symmetric] code_def)
    then show ?thesis using code_lower [of x] by (auto simp: slash_code code_def split: if_splits)
  qed
  then have "NUL \<notin> lower ` set c" "\<forall>x\<in>lower ` set c. \<not> slash x" by force+
  then show ?thesis using c unfolding down_def clean_def by simp
qed

lemma down_dots: "down pr c = ''.'' \<longleftrightarrow> c = ''.''" "down pr c = ''..'' \<longleftrightarrow> c = ''..''"
proof -
  have l: "lower x = CHR ''.'' \<longleftrightarrow> x = CHR ''.''" for x
    using code_lower [of x] code_inj [of "lower x" "CHR ''.''"] code_inj [of x "CHR ''.''"] by (auto simp: code_def split: if_splits)
  show "down pr c = ''.'' \<longleftrightarrow> c = ''.''" "down pr c = ''..'' \<longleftrightarrow> c = ''..''"
    by (auto simp: down_def map_eq_Cons_conv l)
qed

lemma down_down: "down pr (down pr c) = down pr c"
proof (cases "\<not> pr \<and> is_DOS83 c \<and> is_DOS83 (map lower c)")
  case True
  have "lower (lower x) = lower x" for x
    using code_lower [of x] code_lower [of "lower x"] by (subst code_inj [symmetric]) auto
  then show ?thesis by (simp add: down_def)
next
  case False
  then show ?thesis by (auto simp: down_def)
qed

lemma resolve_no_dots: "\<forall>c\<in>set st. c \<noteq> ''.'' \<and> c \<noteq> ''..'' \<Longrightarrow> \<forall>c\<in>set (foldl resolve st cs). c \<noteq> ''.'' \<and> c \<noteq> ''..''"
proof (induction cs arbitrary: st)
  case (Cons c cs)
  have "\<forall>x\<in>set (resolve st c). x \<noteq> ''.'' \<and> x \<noteq> ''..''"
    using Cons.prems unfolding resolve_def by (auto split: if_splits dest: in_set_butlastD)
  from Cons.IH [OF this] show ?case by simp
qed simp

lemma resolve_all: "\<forall>c\<in>set cs. c \<noteq> ''.'' \<and> c \<noteq> ''..'' \<Longrightarrow> foldl resolve st cs = st @ cs"
  by (induction cs arbitrary: st) (auto simp: resolve_def)

lemma components_render: "\<forall>c\<in>set st. clean c \<Longrightarrow> components (concat (map (\<lambda>c. CHR ''/'' # c) st)) = st"
proof (induction st)
  case (Cons c st)
  have s: "slash CHR ''/''" by (simp add: slash_def)
  have "concat (map (\<lambda>c. CHR ''/'' # c) st) = [] \<or> slash (hd (concat (map (\<lambda>c. CHR ''/'' # c) st)))" by (cases st) (auto simp: slash_def)
  then show ?case using Cons components_simps(2) [OF s] components_simps(3) [of c] by simp
qed (simp add: components_simps)

lemma components_clean: "NUL \<notin> set p \<Longrightarrow> \<forall>c\<in>set (components p). clean c"
proof (induction p rule: components.induct)
  case (1 s)
  show ?case
  proof (cases "dropWhile slash s")
    case Nil
    then show ?thesis by (subst components.simps) simp
  next
    case (Cons c t)
    have n: "NUL \<notin> set (c # t)" "\<not> slash c" using 1(2) Cons by (metis set_dropWhileD, metis hd_dropWhile list.distinct(1) list.sel(1))
    let ?w = "takeWhile (\<lambda>c. \<not> slash c) (c # t)" and ?r = "dropWhile (\<lambda>c. \<not> slash c) (c # t)"
    have "clean ?w" using n by (auto simp: clean_def dest: set_takeWhileD)
    moreover have "\<forall>c\<in>set (components ?r). clean c"
      by (rule 1(1) [OF Cons [symmetric]]) (use n in \<open>auto dest: set_dropWhileD\<close>)
    ultimately show ?thesis by (subst components.simps) (simp only: Cons Let_def list.simps if_False ball_simps)
  qed
qed

lemma resolve_clean: "\<forall>c\<in>set st. clean c \<Longrightarrow> \<forall>c\<in>set cs. clean c \<Longrightarrow> \<forall>c\<in>set (foldl resolve st cs). clean c"
proof (induction cs arbitrary: st)
  case (Cons c cs)
  have "\<forall>c\<in>set (foldl resolve (resolve st c) cs). clean c" using Cons.prems by (intro Cons.IH clean_resolve) auto
  then show ?case by (simp only: foldl_Cons)
qed simp

text \<open>A path in canonical form is left alone.\<close>

lemma canonicalize_canonical:
  assumes d: "dos_dir_ok d cwd" and n: "n < 26" and st: "\<forall>c\<in>set st. clean c \<and> c \<noteq> ''.'' \<and> c \<noteq> ''..'' \<and> down pr c = c"
    and l: "4 + length (render [letter 97 n, CHR '':''] st) < min path_max FILENAME_MAX"
  shows "canonicalize_path pr d path_max (render [letter 97 n, CHR '':''] st) = Fixed (render [letter 97 n, CHR '':''] st)"
proof -
  let ?p = "render [letter 97 n, CHR '':''] st"
  define ip where "ip = drop 2 ?p"
  have p: "?p = [letter 97 n, CHR '':''] @ ip" by (simp add: ip_def render_def)
  have a: "alpha (letter 97 n)" "code (letter 97 n) - 97 = n" using code_letter [OF n] n by (auto simp: alpha_def)
  have o: "out_drive d ?p = (n, [letter 97 n, CHR '':''], ip)"
    using a code_letter [OF n] unfolding p by (simp add: out_drive_def chr_at_def)
  have s: "slash (chr_at ip 0)" by (cases st) (auto simp: ip_def render_def chr_at_def slash_def)
  have "components ip = st"
    using components_render [of st] st by (cases "st = []") (auto simp: ip_def render_def components_simps slash_def)
  moreover have "NUL \<notin> set ?p"
    using st code_letter [OF n] code_inj [of "letter 97 n" NUL] by (auto simp: render_def clean_def code_def)
  moreover have "base_of d cwd ?p = []" "rest_of d ?p = ip" "drive_letter d ?p = [letter 97 n, CHR '':'']"
    using s by (simp_all add: base_of_def rest_of_def drive_letter_def o)
  moreover have "map (down pr) st = st" using st by (simp add: map_idI)
  ultimately show ?thesis using canonicalize_resolves [OF d, of ?p path_max pr] l resolve_all [of st "[]"] st by simp
qed

text \<open>The witnesses: the current directory of every drive is \<^verbatim>\<open>BAR\<close> in \<^verbatim>\<open>FOO\<close>.\<close>

definition ex_dir :: dos_dir where
  "ex_dir = \<lparr>cur_drive = 2, cur_dir = (\<lambda>_. Some (''FOO'' @ [CHR 0x5C] @ ''BAR'')), nt_lfn = False, long_dir = (\<lambda>_. None)\<rparr>"

definition ex_cwd :: "nat \<Rightarrow> string list" where
  "ex_cwd n = [''FOO'', ''BAR'']"

definition ex_path :: string where
  "ex_path = ''..'' @ [CHR 0x5C] @ ''./Long name//X.Y''"

lemma ex_dir_ok: "dos_dir_ok ex_dir ex_cwd"
  by (auto simp: dos_dir_ok_def ex_dir_def ex_cwd_def clean_def slash_def)

section \<open>Properties\<close>

text \<open>
  C21. \<^verbatim>\<open>__canonicalize_path\<close> resolves a path: if there is room, the result is the drive and, from the current directory or the root on, the
  components of the path, where a period changes nothing and two periods remove the last component, not going above the root. Unless case is
  to be preserved, names in the form of DOS names are in lower case. A result is canonical: it is left alone by another call.
\<close>

theorem canonicalize_path_resolves:
  assumes d: "dos_dir_ok d cwd" and p: "NUL \<notin> set p" and cwd: "\<forall>n. \<forall>c\<in>set (cwd n). c \<noteq> ''.'' \<and> c \<noteq> ''..''"
    and room: "8 + length (concat (map (\<lambda>c. CHR 0x5C # c) (base_of d cwd p))) + length p < min path_max FILENAME_MAX"
  shows "\<exists>s. canonicalize_path pr d path_max p = Fixed s \<and>
    s = render (drive_letter d p) (map (down pr) (foldl resolve (base_of d cwd p) (components (rest_of d p)))) \<and>
    canonicalize_path pr d path_max s = Fixed s"
proof -
  let ?st = "foldl resolve (base_of d cwd p) (components (rest_of d p))"
  define s where "s = render (drive_letter d p) (map (down pr) ?st)"
  obtain n drv ip where o: "out_drive d p = (n, drv, ip)" by (metis prod_cases3)
  have "cur_drive d < 26" using d by (simp add: dos_dir_ok_def)
  note ok = out_drive_ok [OF this o]
  have fixed: "canonicalize_path pr d pm p = Fixed s \<and> length s < min pm FILENAME_MAX"
    if "4 + length (concat (map (\<lambda>c. CHR 0x5C # c) (base_of d cwd p))) + length p < min pm FILENAME_MAX" for pm
    using canonicalize_resolves [OF d p that, of pr] by (simp add: s_def)
  have "length s < min (min path_max FILENAME_MAX - 4) FILENAME_MAX" using fixed [of "min path_max FILENAME_MAX - 4"] room by auto
  then have l: "4 + length s < min path_max FILENAME_MAX" by linarith
  have b: "\<forall>c\<in>set (base_of d cwd p). clean c \<and> c \<noteq> ''.'' \<and> c \<noteq> ''..''"
    using d cwd by (auto simp: base_of_def o dos_dir_ok_def)
  have "\<forall>c\<in>set (components (rest_of d p)). clean c" using components_clean [of ip] ok(4) p by (auto simp: rest_of_def o)
  then have "\<forall>c\<in>set ?st. clean c \<and> c \<noteq> ''.'' \<and> c \<noteq> ''..''"
    using resolve_clean [of "base_of d cwd p"] resolve_no_dots [of "base_of d cwd p"] b by blast
  then have "\<forall>c\<in>set (map (down pr) ?st). clean c \<and> c \<noteq> ''.'' \<and> c \<noteq> ''..'' \<and> down pr c = c"
    by (auto simp: clean_down down_dots down_down)
  moreover have "drive_letter d p = [letter 97 n, CHR '':'']" using ok(2) by (simp add: drive_letter_def o)
  ultimately have "canonicalize_path pr d path_max s = Fixed s"
    using canonicalize_canonical [OF d ok(1), of "map (down pr) ?st" pr path_max] l by (simp add: s_def)
  then show ?thesis using fixed [of path_max] room by (auto simp: s_def)
qed

theorem canonicalize_path_resolves_witness:
  "canonicalize_path False ex_dir 260 ex_path = Fixed ''c:/foo/Long name/x.y''"
proof -
  have e: "base_of ex_dir ex_cwd ex_path = [''FOO'', ''BAR'']"
    "render (drive_letter ex_dir ex_path) (map (down False) (foldl resolve [''FOO'', ''BAR''] (components (rest_of ex_dir ex_path)))) =
      ''c:/foo/Long name/x.y''"
    by code_simp+
  have "\<forall>n. \<forall>c\<in>set (ex_cwd n). c \<noteq> ''.'' \<and> c \<noteq> ''..''" by (simp add: ex_cwd_def)
  from canonicalize_path_resolves [OF ex_dir_ok _ this, of ex_path 260 False, unfolded e] show ?thesis
    by (simp add: FILENAME_MAX_def ex_path_def)
qed

text \<open>
  C30. The test for the end of the buffer comes too late by one: if a component is to be stored where only its separator fits, the
  first character of the component is stored behind the buffer of \<^verbatim>\<open>path_max\<close> bytes before the call fails.
\<close>

theorem canonicalize_path_overruns:
  assumes "n < 26" "clean w" "w \<noteq> ''.''" "w \<noteq> ''..''" "clean x" "x \<noteq> ''.''" "x \<noteq> ''..''" "path_max \<le> FILENAME_MAX" "length w + 4 = path_max"
  shows "canonicalize_path pr d path_max ([letter 97 n, CHR '':''] @ ''/'' @ w @ ''/'' @ x) = Overrun"
proof -
  let ?drv = "[letter 97 n, CHR '':'']" and ?ip = "''/'' @ w @ ''/'' @ x"
  have a: "alpha (letter 97 n)" "code (letter 97 n) - 97 = n" using code_letter [OF assms(1)] assms(1) by (auto simp: alpha_def)
  have o: "out_drive d (?drv @ ?ip) = (n, ?drv, ?ip)"
    using a code_letter [OF assms(1)] by (simp add: out_drive_def chr_at_def)
  have s: "slash CHR ''/''" by (simp add: slash_def)
  obtain c t where x: "x = c # t" "\<not> is_term c" "c \<noteq> NUL" "\<not> slash c" using assms(5) by (cases x) (auto simp: clean_def is_term_def)
  note dots = not_dots_cases [OF assms(5), of "[]" c t]
  have "canon_loop path_max ?drv ?ip = canon_loop path_max (?drv @ ''/'' @ w) (''/'' @ x)"
    using canon_loop_slash [OF s] canon_loop_name [OF assms(2-4), of "''/'' @ x" ?drv path_max] s assms(9) by simp
  also have "\<dots> = canon_loop path_max (?drv @ ''/'' @ w) x" using canon_loop_slash [OF s] by simp
  also have "\<dots> = Inr Overrun"
    unfolding x(1) using x dots assms(6,7,9) by (auto simp: canon_loop.simps(2))
  finally show ?thesis
    using assms(2,8,9) s unfolding canonicalize_path_def o by (auto simp: chr_at_def clean_def Let_def)
qed

theorem canonicalize_path_overruns_witness:
  "canonicalize_path False ex_dir 10 ''c:/abcdef/g'' = Overrun"
proof -
  have l: "letter 97 2 = CHR ''c''" by code_simp
  show ?thesis using canonicalize_path_overruns [of 2 "''abcdef''" "''g''" 10 False ex_dir] by (simp add: l clean_def slash_def FILENAME_MAX_def)
qed

end
