(* ===== verification/Strtol.thy ===== *)
theory Strtol
  imports Cstring
begin

text \<open>
  Number conversion: \<^verbatim>\<open>strtol\<close>, \<^verbatim>\<open>strtoul\<close>, \<^verbatim>\<open>strtoll\<close>, \<^verbatim>\<open>strtoull\<close> and the \<^verbatim>\<open>ato\<close> functions of
  \<^verbatim>\<open>src/src/libc/ansi/stdlib\<close>. The four conversions share their text, but each computes its cutoff in its
  own way; the shared parts are the \<open>strto_\<close> functions, the accumulator keeps the width of the source
  (32 or 64 bits), and each conversion returns the value, whether \<^verbatim>\<open>errno\<close> was set to \<^verbatim>\<open>ERANGE\<close>, and the
  address stored through \<^verbatim>\<open>endptr\<close>.
\<close>

section \<open>Definitions\<close>

abbreviation (input) ch_minus :: byte where "ch_minus \<equiv> 45"
abbreviation (input) ch_plus :: byte where "ch_plus \<equiv> 43"
abbreviation (input) ch_0 :: byte where "ch_0 \<equiv> 48"
abbreviation (input) ch_x :: byte where "ch_x \<equiv> 120"
abbreviation (input) ch_X :: byte where "ch_X \<equiv> 88"

text \<open>\<^verbatim>\<open>do { c = *s++; } while (isspace(c));\<close>\<close>

function strto_skip :: "mem \<Rightarrow> addr \<Rightarrow> (byte \<times> addr) option" where
  "strto_skip m s =
     do { c \<leftarrow> rd m s; if ctrue (isspace (uint c)) then strto_skip m (s + 1) else Some (c, s + 1) }"
  by pat_completeness auto
termination
  by (relation "measure (\<lambda>(m, s). length m - s)") (auto dest: rd_less)

definition strto_sign :: "mem \<Rightarrow> byte \<Rightarrow> addr \<Rightarrow> (bool \<times> byte \<times> addr) option" where
  "strto_sign m c s =
     (if c = ch_minus then do { c' \<leftarrow> rd m s; Some (True, c', s + 1) }
      else if c = ch_plus then do { c' \<leftarrow> rd m s; Some (False, c', s + 1) }
      else Some (False, c, s))"

definition strto_base :: "mem \<Rightarrow> int \<Rightarrow> byte \<Rightarrow> addr \<Rightarrow> (int \<times> byte \<times> addr) option" where
  "strto_base m base c s =
     do { (base, c, s) \<leftarrow>
            (if (base = 0 \<or> base = 16) \<and> c = ch_0
             then do { x \<leftarrow> rd m s;
                       if x = ch_x \<or> x = ch_X then do { c' \<leftarrow> rd m (s + 1); Some (16, c', s + 2) }
                       else Some (base, c, s) }
             else Some (base, c, s));
          Some (if base = 0 then (if c = ch_0 then 8 else 10) else base, c, s) }"

text \<open>The value of a digit or letter; \<^term>\<open>None\<close> where the loop breaks because \<open>c\<close> is neither.\<close>

definition strto_digit :: "byte \<Rightarrow> byte option" where
  "strto_digit c =
     (if ctrue (isdigit (uint c)) then Some (c - ch_0)
      else if ctrue (isalpha (uint c)) then Some (c - (if ctrue (isupper (uint c)) then 55 else 87))
      else None)"

text \<open>One turn of the accumulation: \<open>any < 0\<close> marks an overflow.\<close>

definition strto_step ::
  "int \<Rightarrow> 'w::len word \<Rightarrow> int \<Rightarrow> 'w word \<Rightarrow> int \<Rightarrow> byte \<Rightarrow> 'w word \<times> int" where
  "strto_step base cutoff cutlim acc any d =
     (if any < 0 \<or> cutoff < acc \<or> (acc = cutoff \<and> cutlim < uint d) then (acc, -1)
      else (acc * word_of_int base + ucast d, 1))"

function strto_loop ::
  "mem \<Rightarrow> int \<Rightarrow> 'w::len word \<Rightarrow> int \<Rightarrow> 'w word \<Rightarrow> int \<Rightarrow> byte \<Rightarrow> addr \<Rightarrow> ('w word \<times> int \<times> addr) option" where
  "strto_loop m base cutoff cutlim acc any c s =
     (case strto_digit c of
        None \<Rightarrow> Some (acc, any, s)
      | Some d \<Rightarrow>
          if base \<le> uint d then Some (acc, any, s)
          else (case strto_step base cutoff cutlim acc any d of (acc', any') \<Rightarrow>
                  do { c' \<leftarrow> rd m s; strto_loop m base cutoff cutlim acc' any' c' (s + 1) }))"
  by pat_completeness auto
termination
  by (relation "measure (\<lambda>(m, base, cutoff, cutlim, acc, any, c, s). length m - s)") (auto dest: rd_less)

text \<open>Conversion of an unsigned value to \<^verbatim>\<open>int\<close>, as in \<^verbatim>\<open>int cutlim = cutoff % base\<close>.\<close>

definition to_int :: "'w::len word \<Rightarrow> int" where
  "to_int w = sint (ucast w :: 32 word)"

record 'v strto_result =
  val :: 'v
  erange :: bool
  endp :: addr

definition strtol :: "mem \<Rightarrow> addr \<Rightarrow> int \<Rightarrow> int strto_result option" where
  "strtol m nptr base =
     do { (c, s) \<leftarrow> strto_skip m nptr; (neg, c, s) \<leftarrow> strto_sign m c s; (base, c, s) \<leftarrow> strto_base m base c s;
          let cutoff = (if neg then 0x80000000 else 0x7fffffff) :: 32 word;
              cutlim = to_int (cutoff mod word_of_int base);
              cutoff = cutoff div word_of_int base in
          do { (acc, any, s) \<leftarrow> strto_loop m base cutoff cutlim 0 0 c s;
               let acc' = (if any < 0 then (if neg then 0x80000000 else 0x7fffffff)
                           else if neg then - acc else acc) in
               Some \<lparr>val = sint acc', erange = any < 0, endp = (if any \<noteq> 0 then s - 1 else nptr)\<rparr> } }"

definition strtoul :: "mem \<Rightarrow> addr \<Rightarrow> int \<Rightarrow> int strto_result option" where
  "strtoul m nptr base =
     do { (c, s) \<leftarrow> strto_skip m nptr; (neg, c, s) \<leftarrow> strto_sign m c s; (base, c, s) \<leftarrow> strto_base m base c s;
          let cutoff = 0xffffffff div (word_of_int base :: 32 word);
              cutlim = to_int (0xffffffff mod (word_of_int base :: 32 word)) in
          do { (acc, any, s) \<leftarrow> strto_loop m base cutoff cutlim 0 0 c s;
               let acc' = (if any < 0 then 0xffffffff else if neg then - acc else acc) in
               Some \<lparr>val = uint acc', erange = any < 0, endp = (if any \<noteq> 0 then s - 1 else nptr)\<rparr> } }"

text \<open>\<^verbatim>\<open>strtoll\<close> takes the limit less one and adds the one back after the division.\<close>

definition strtoll_limits :: "bool \<Rightarrow> int \<Rightarrow> int \<times> 64 word" where
  "strtoll_limits neg base =
     (let cutoff = (if neg then 0x7fffffffffffffff else 0x7ffffffffffffffe);
          cutlim = to_int (cutoff mod word_of_int base);
          cutoff = cutoff div word_of_int base in
      if cutlim + 1 = base then (0, cutoff + 1) else (cutlim + 1, cutoff))"

definition strtoll :: "mem \<Rightarrow> addr \<Rightarrow> int \<Rightarrow> int strto_result option" where
  "strtoll m nptr base =
     do { (c, s) \<leftarrow> strto_skip m nptr; (neg, c, s) \<leftarrow> strto_sign m c s; (base, c, s) \<leftarrow> strto_base m base c s;
          let (cutlim, cutoff) = strtoll_limits neg base in
          do { (acc, any, s) \<leftarrow> strto_loop m base cutoff cutlim 0 0 c s;
               let acc' = (if any < 0 then (if neg then 0x8000000000000000 else 0x7fffffffffffffff)
                           else if neg then - acc else acc) in
               Some \<lparr>val = sint acc', erange = any < 0, endp = (if any \<noteq> 0 then s - 1 else nptr)\<rparr> } }"

definition strtoull :: "mem \<Rightarrow> addr \<Rightarrow> int \<Rightarrow> int strto_result option" where
  "strtoull m nptr base =
     do { (c, s) \<leftarrow> strto_skip m nptr; (neg, c, s) \<leftarrow> strto_sign m c s; (base, c, s) \<leftarrow> strto_base m base c s;
          let cutoff = 0xffffffffffffffff div (word_of_int base :: 64 word);
              cutlim = to_int (0xffffffffffffffff mod (word_of_int base :: 64 word)) in
          do { (acc, any, s) \<leftarrow> strto_loop m base cutoff cutlim 0 0 c s;
               let acc' = (if any < 0 then 0xffffffffffffffff else if neg then - acc else acc) in
               Some \<lparr>val = uint acc', erange = any < 0, endp = (if any \<noteq> 0 then s - 1 else nptr)\<rparr> } }"

definition atoi :: "mem \<Rightarrow> addr \<Rightarrow> int option" where
  "atoi m str = map_option val (strtol m str 10)"

definition atol :: "mem \<Rightarrow> addr \<Rightarrow> int option" where
  "atol m str = map_option val (strtol m str 10)"

definition atoll :: "mem \<Rightarrow> addr \<Rightarrow> int option" where
  "atoll m str = map_option val (strtoll m str 10)"

declare strto_skip.simps [simp del] strto_loop.simps [simp del]

section \<open>Digits\<close>

lemma byte_is_char [simp]: "is_char (uint (c :: byte))"
  unfolding is_char_def using uint_byte_range [of c] by linarith

text \<open>The digits of base \<open>b\<close>, and the value of a list of them.\<close>

definition digit_val :: "byte \<Rightarrow> nat" where
  "digit_val c = (case strto_digit c of Some d \<Rightarrow> unat d | None \<Rightarrow> 256)"

definition is_dig :: "int \<Rightarrow> byte \<Rightarrow> bool" where
  "is_dig b c \<longleftrightarrow> (\<exists>d. strto_digit c = Some d \<and> uint d < b)"

text \<open>These are the digits and letters of ASCII, and a letter of either case counts from ten.\<close>

lemma digit_values:
  "digit_val c = (if 0x30 \<le> unat c \<and> unat c \<le> 0x39 then unat c - 0x30
     else if 0x41 \<le> unat c \<and> unat c \<le> 0x5a then unat c - 0x41 + 10
     else if 0x61 \<le> unat c \<and> unat c \<le> 0x7a then unat c - 0x61 + 10 else 256)"
  "is_dig b c \<longleftrightarrow> digit_val c < 256 \<and> int (digit_val c) < b"
proof -
  have i: "int (unat c) = uint c" by simp
  have d: "ctrue (isdigit (uint c)) \<longleftrightarrow> 0x30 \<le> unat c \<and> unat c \<le> 0x39"
      "ctrue (isupper (uint c)) \<longleftrightarrow> 0x41 \<le> unat c \<and> unat c \<le> 0x5a"
      "ctrue (isalpha (uint c)) \<longleftrightarrow> 0x41 \<le> unat c \<and> unat c \<le> 0x5a \<or> 0x61 \<le> unat c \<and> unat c \<le> 0x7a"
    using i by (simp_all only: is_iffs [OF byte_is_char]) linarith+
  have s: "unat (c - x) = unat c - unat x" if "unat x \<le> unat c" for x using that by (simp add: unat_sub word_le_nat_alt)
  have v: "unat (55 :: byte) = 55" "unat (87 :: byte) = 87" "unat (48 :: byte) = 48" by simp_all
  show "digit_val c = (if 0x30 \<le> unat c \<and> unat c \<le> 0x39 then unat c - 0x30
     else if 0x41 \<le> unat c \<and> unat c \<le> 0x5a then unat c - 0x41 + 10
     else if 0x61 \<le> unat c \<and> unat c \<le> 0x7a then unat c - 0x61 + 10 else 256)"
    unfolding digit_val_def strto_digit_def d by (simp add: s v)
  have "unat d < 256" for d :: byte using unsigned_less [of d, where ?'a = nat] by simp
  then have "digit_val c < 256 \<longleftrightarrow> strto_digit c \<noteq> None" by (auto simp: digit_val_def split: option.splits)
  then show "is_dig b c \<longleftrightarrow> digit_val c < 256 \<and> int (digit_val c) < b"
    by (auto simp: is_dig_def digit_val_def)
qed

fun num_val :: "nat \<Rightarrow> byte list \<Rightarrow> nat \<Rightarrow> nat" where
  "num_val b [] v = v"
| "num_val b (c # ds) v = num_val b ds (v * b + digit_val c)"

lemma num_val_mono: "0 < b \<Longrightarrow> v \<le> num_val b ds v"
proof (induction ds arbitrary: v)
  case (Cons c ds)
  have "v \<le> v * b + digit_val c" using Cons.prems by (simp add: trans_le_add1)
  also have "\<dots> \<le> num_val b ds (v * b + digit_val c)" using Cons by simp
  finally show ?case by simp
qed simp

text \<open>
  The cutoff test is exact: with \<open>cutoff = L div b\<close> and \<open>cutlim = L mod b\<close> it refuses a digit
  exactly when the number would pass the limit \<open>L\<close>.
\<close>

lemma cutoff_exact:
  fixes v b d L :: nat
  assumes "0 < b" "d < b"
  shows "v * b + d \<le> L \<longleftrightarrow> \<not> (L div b < v \<or> v = L div b \<and> L mod b < d)"
proof -
  consider "v < L div b" | "v = L div b" | "L div b < v" by linarith
  then show ?thesis
  proof cases
    case 1
    then have "v * b + d < (v + 1) * b" using assms by simp
    also have "\<dots> \<le> L div b * b" using 1 by (intro mult_le_mono1) simp
    also have "\<dots> \<le> L" by (simp add: div_times_less_eq_dividend)
    finally show ?thesis using 1 by simp
  next
    case 2
    have "L = L div b * b + L mod b" by simp
    then show ?thesis using 2 by (metis add_le_cancel_left less_irrefl linorder_not_less)
  next
    case 3
    have "L < (L div b + 1) * b" using assms(1) by (simp add: dividend_less_div_times)
    also have "\<dots> \<le> v * b" using 3 by (intro mult_le_mono1) simp
    finally show ?thesis using 3 by simp
  qed
qed

definition limits_ok :: "nat \<Rightarrow> int \<Rightarrow> 'w::len word \<Rightarrow> int \<Rightarrow> bool" where
  "limits_ok L base cutoff cutlim \<longleftrightarrow>
     2 \<le> base \<and> base \<le> 36 \<and> L < 2 ^ LENGTH('w) \<and> unat cutoff = L div nat base \<and> cutlim = int (L mod nat base)"

lemma strto_step_exact:
  fixes acc :: "'w::len word"
  assumes "limits_ok L base cutoff cutlim" "uint d < base" "0 \<le> any"
  shows "strto_step base cutoff cutlim acc any d =
    (if unat acc * nat base + unat d \<le> L then (of_nat (unat acc * nat base + unat d), 1) else (acc, -1))"
proof -
  have "int (unat d) < base" using assms(2) by simp
  then have d: "unat d < nat base" by linarith
  have b: "0 < nat base" using assms(1) by (simp add: limits_ok_def)
  have lim: "unat cutoff = L div nat base" "cutlim = int (L mod nat base)"
    using assms(1) by (simp_all add: limits_ok_def)
  have "cutoff < acc \<longleftrightarrow> L div nat base < unat acc" "acc = cutoff \<longleftrightarrow> unat acc = L div nat base"
    using lim(1) by (auto simp: word_less_nat_alt word_unat_eq_iff)
  moreover have "cutlim < uint d \<longleftrightarrow> L mod nat base < unat d"
    unfolding lim(2) by (simp flip: of_nat_less_iff [where 'a = int])
  moreover have "acc * word_of_int base + ucast d = of_nat (unat acc * nat base + unat d)"
    using assms(1) by (simp add: limits_ok_def)
  ultimately show ?thesis
    using cutoff_exact [OF b d, of "unat acc" L] assms(3) by (simp add: strto_step_def)
qed


section \<open>The accumulation loop\<close>

lemma strto_digit_0: "strto_digit 0 = None"
  by (simp add: strto_digit_def is_iffs is_char_def)

text \<open>Where the digits stop: at the end of the string, or at a byte that is no digit of the base.\<close>

definition stops :: "int \<Rightarrow> byte list \<Rightarrow> bool" where
  "stops b rest \<longleftrightarrow> rest = [] \<or> \<not> is_dig b (hd rest)"

lemma loop_stop:
  assumes "cstr m p rest" "stops b rest" "rd m p = Some c"
  shows "strto_loop m b cutoff cutlim acc any c (Suc p) = Some (acc, any, Suc p)"
proof -
  have "strto_digit c = None \<or> (\<exists>d. strto_digit c = Some d \<and> b \<le> uint d)"
    using assms by (cases rest) (auto simp: stops_def is_dig_def strto_digit_0 not_less)
  then show ?thesis by (auto simp: strto_loop.simps [of m b])
qed

lemma loop_dig:
  assumes "is_dig b c" "rd m (Suc p) = Some c'"
  obtains d where "strto_digit c = Some d" "uint d < b" "digit_val c = unat d"
    "strto_loop m b cutoff cutlim acc any c (Suc p) =
       (case strto_step b cutoff cutlim acc any d of (acc', any') \<Rightarrow>
          strto_loop m b cutoff cutlim acc' any' c' (Suc (Suc p)))"
proof -
  obtain d where d: "strto_digit c = Some d" "uint d < b" using assms(1) by (auto simp: is_dig_def)
  have "strto_loop m b cutoff cutlim acc any c (Suc p) =
       (case strto_step b cutoff cutlim acc any d of (acc', any') \<Rightarrow>
          strto_loop m b cutoff cutlim acc' any' c' (Suc (Suc p)))"
    using d assms(2) by (subst strto_loop.simps) (simp split: prod.splits)
  with d that show ?thesis by (simp add: digit_val_def)
qed

lemma cstr_rd_hd: "cstr m p s \<Longrightarrow> \<exists>c. rd m p = Some c"
  by (cases s) auto

lemma loop_overflowed:
  "cstr m p (ds @ rest) \<Longrightarrow> \<forall>c \<in> set ds. is_dig b c \<Longrightarrow> stops b rest \<Longrightarrow> rd m p = Some c \<Longrightarrow>
     strto_loop m b cutoff cutlim acc (-1) c (Suc p) = Some (acc, -1, Suc (p + length ds))"
proof (induction ds arbitrary: p c)
  case Nil
  then show ?case by (simp add: loop_stop)
next
  case (Cons a ds)
  obtain c' where c': "rd m (Suc p) = Some c'"
    using Cons.prems(1) cstr_rd_hd [of m "Suc p" "ds @ rest"] by auto
  obtain d where "strto_loop m b cutoff cutlim acc (-1) a (Suc p) =
       (case strto_step b cutoff cutlim acc (-1) d of (acc', any') \<Rightarrow>
          strto_loop m b cutoff cutlim acc' any' c' (Suc (Suc p)))"
    using loop_dig [OF _ c', of b a] Cons.prems(2) by (metis list.set_intros(1))
  then show ?case using Cons c' by (simp add: strto_step_def)
qed

lemma loop_exact:
  fixes acc :: "'w::len word"
  assumes "limits_ok L b cutoff cutlim"
  shows "cstr m p (ds @ rest) \<Longrightarrow> \<forall>c \<in> set ds. is_dig b c \<Longrightarrow> stops b rest \<Longrightarrow> rd m p = Some c \<Longrightarrow> 0 \<le> any \<Longrightarrow>
    unat acc \<le> L \<Longrightarrow>
    \<exists>acc'. strto_loop m b cutoff cutlim acc any c (Suc p) =
       Some (acc', if num_val (nat b) ds (unat acc) \<le> L then (if ds = [] then any else 1) else -1,
             Suc (p + length ds))
     \<and> (num_val (nat b) ds (unat acc) \<le> L \<longrightarrow> unat acc' = num_val (nat b) ds (unat acc))"
proof (induction ds arbitrary: p c acc any)
  case Nil
  then show ?case by (simp add: loop_stop)
next
  case (Cons a ds)
  obtain c' where c': "rd m (Suc p) = Some c'"
    using Cons.prems(1) cstr_rd_hd [of m "Suc p" "ds @ rest"] by auto
  have a: "c = a" "is_dig b a" using Cons.prems by auto
  obtain d where d: "uint d < b" "digit_val a = unat d"
    and loop: "strto_loop m b cutoff cutlim acc any a (Suc p) =
       (case strto_step b cutoff cutlim acc any d of (acc', any') \<Rightarrow>
          strto_loop m b cutoff cutlim acc' any' c' (Suc (Suc p)))"
    using loop_dig [OF a(2) c'] by metis
  note step = strto_step_exact [OF assms d(1) Cons.prems(5), of acc]
  let ?v = "unat acc * nat b + unat d"
  have L: "L < 2 ^ LENGTH('w)" "0 < nat b" using assms by (simp_all add: limits_ok_def)
  show ?case
  proof (cases "?v \<le> L")
    case True
    then have v: "unat (of_nat ?v :: 'w word) = ?v" using L by (intro unat_of_nat_small) simp
    show ?thesis
      using Cons.IH [of "Suc p" c' 1 "of_nat ?v"] Cons.prems c' loop step True v a d by auto
  next
    case False
    have "?v \<le> num_val (nat b) ds ?v" using num_val_mono [OF L(2)] .
    then have over: "\<not> num_val (nat b) (a # ds) (unat acc) \<le> L" using False d by simp
    have "strto_loop m b cutoff cutlim acc (-1) c' (Suc (Suc p)) = Some (acc, -1, Suc (Suc p + length ds))"
      using Cons.prems c' by (intro loop_overflowed) auto
    then show ?thesis using loop step False over a by simp
  qed
qed

section \<open>White space, sign and digits\<close>

lemma strto_skip_spaces:
  "cstr m p (ws @ t) \<Longrightarrow> \<forall>c \<in> set ws. ctrue (isspace (uint c)) \<Longrightarrow> rd m (p + length ws) = Some c \<Longrightarrow>
     \<not> ctrue (isspace (uint c)) \<Longrightarrow> strto_skip m p = Some (c, Suc (p + length ws))"
proof (induction ws arbitrary: p)
  case Nil
  then show ?case by (simp add: strto_skip.simps)
next
  case (Cons w ws)
  then show ?case by (simp add: strto_skip.simps [of m p])
qed

lemma digit_not_space: "is_dig b c \<Longrightarrow> \<not> ctrue (isspace (uint c)) \<and> c \<noteq> ch_minus \<and> c \<noteq> ch_plus"
  by (auto simp: is_dig_def strto_digit_def is_iffs split: if_splits)

definition sign_bytes :: "byte list \<Rightarrow> bool" where
  "sign_bytes sg \<longleftrightarrow> sg = [] \<or> sg = [ch_minus] \<or> sg = [ch_plus]"

text \<open>
  A number as the conversions see it: white space, an optional sign, at least one digit, and
  something that is no digit. In base 16 a leading \<^verbatim>\<open>0x\<close> would be taken as the prefix, so it is excluded.
\<close>

definition numeral_at ::
  "mem \<Rightarrow> addr \<Rightarrow> int \<Rightarrow> byte list \<Rightarrow> byte list \<Rightarrow> byte list \<Rightarrow> byte list \<Rightarrow> bool" where
  "numeral_at m p b ws sg ds rest \<longleftrightarrow>
     cstr m p (ws @ sg @ ds @ rest) \<and> (\<forall>c \<in> set ws. ctrue (isspace (uint c))) \<and> sign_bytes sg
     \<and> ds \<noteq> [] \<and> (\<forall>c \<in> set ds. is_dig b c) \<and> stops b rest \<and> 2 \<le> b \<and> b \<le> 36
     \<and> \<not> (b = 16 \<and> ds = [ch_0] \<and> rest \<noteq> [] \<and> (hd rest = ch_x \<or> hd rest = ch_X))"

lemma x_not_hex: "\<not> is_dig 16 ch_x" "\<not> is_dig 16 ch_X"
  by (simp_all add: is_dig_def strto_digit_def is_iffs is_char_def)

lemma parse_front:
  assumes "numeral_at m p b ws sg ds rest"
  obtains c s c0 s0 where "strto_skip m p = Some (c0, s0)"
    "strto_sign m c0 s0 = Some (sg = [ch_minus], c, s)" "strto_base m b c s = Some (b, c, s)"
    "s = Suc (p + length ws + length sg)" "rd m (p + length ws + length sg) = Some c"
    "cstr m (p + length ws + length sg) (ds @ rest)"
proof -
  let ?q = "p + length ws"
  note n = assms [unfolded numeral_at_def]
  obtain a ds' where ds: "ds = a # ds'" using n by (cases ds) auto
  have t: "cstr m ?q (sg @ ds @ rest)" using n by (auto simp: cstr_append)
  have dg: "is_dig b a" "a \<noteq> ch_minus" "a \<noteq> ch_plus" "\<not> ctrue (isspace (uint a))"
    using n ds digit_not_space by auto
  have body: "cstr m (?q + length sg) (ds @ rest)" using t by (auto simp: cstr_append)
  then have a: "rd m (?q + length sg) = Some a" using ds by simp
  have front: "\<exists>c0. rd m ?q = Some c0 \<and> \<not> ctrue (isspace (uint c0))
      \<and> strto_sign m c0 (Suc ?q) = Some (sg = [ch_minus], a, Suc (?q + length sg))"
  proof -
    have sp: "\<not> ctrue (isspace (uint ch_minus))" "\<not> ctrue (isspace (uint ch_plus))"
      by (simp_all add: is_iffs is_char_def)
    consider "sg = []" | "sg = [ch_minus]" | "sg = [ch_plus]" using n by (auto simp: sign_bytes_def)
    then show ?thesis using t a dg sp by cases (simp_all add: strto_sign_def)
  qed
  have base: "strto_base m b a (Suc (?q + length sg)) = Some (b, a, Suc (?q + length sg))"
  proof (cases "b = 16 \<and> a = ch_0")
    case True
    have "\<exists>x. rd m (Suc (?q + length sg)) = Some x \<and> x \<noteq> ch_x \<and> x \<noteq> ch_X"
    proof (cases ds')
      case Nil
      then show ?thesis using body ds n True by (cases rest) auto
    next
      case (Cons x ds'')
      then have "is_dig 16 x" using n ds True by auto
      then show ?thesis using body ds Cons x_not_hex by auto
    qed
    then show ?thesis using True by (auto simp: strto_base_def)
  next
    case False
    then show ?thesis using n by (auto simp: strto_base_def)
  qed
  from front obtain c0 where c0: "rd m ?q = Some c0" "\<not> ctrue (isspace (uint c0))"
    "strto_sign m c0 (Suc ?q) = Some (sg = [ch_minus], a, Suc (?q + length sg))" by blast
  have "strto_skip m p = Some (c0, Suc ?q)"
    using n c0 by (intro strto_skip_spaces [of m p ws "sg @ ds @ rest"]) auto
  then show ?thesis using that [of c0 "Suc ?q" a] c0(3) base a body by simp
qed


section \<open>Limits of the four conversions\<close>

lemma unat_base: "2 \<le> b \<Longrightarrow> b \<le> 36 \<Longrightarrow> unat (word_of_int b :: 32 word) = nat b"
  "2 \<le> b \<Longrightarrow> b \<le> 36 \<Longrightarrow> unat (word_of_int b :: 64 word) = nat b"
  by (simp_all only: unat_eq_nat_uint) (simp_all add: uint_of_int_small del: nat_uint_eq)

lemma to_int_small32: "unat (w :: 32 word) < 64 \<Longrightarrow> to_int w = int (unat w)"
  by (simp add: to_int_def sint_small)

lemma to_int_small64: "unat (w :: 64 word) < 64 \<Longrightarrow> to_int w = int (unat w)"
  by (simp add: to_int_def sint_small unsigned_ucast_eq take_bit_nat_eq_self)

lemma mod_base_small: "2 \<le> b \<Longrightarrow> b \<le> 36 \<Longrightarrow> L mod nat b < 64"
  using mod_less_divisor [of "nat b" L] by linarith

lemma limits32:
  assumes "2 \<le> b" "b \<le> 36"
  shows "limits_ok (unat w) b (w div word_of_int b) (to_int (w mod (word_of_int b :: 32 word)))"
  using assms unsigned_less [of w] mod_base_small [OF assms]
  by (simp add: limits_ok_def unat_div unat_mod unat_base to_int_small32)

lemma limits64:
  assumes "2 \<le> b" "b \<le> 36"
  shows "limits_ok (unat w) b (w div word_of_int b) (to_int (w mod (word_of_int b :: 64 word)))"
  using assms unsigned_less [of w] mod_base_small [OF assms]
  by (simp add: limits_ok_def unat_div unat_mod unat_base to_int_small64)

lemma succ_div_mod:
  fixes n b :: nat
  assumes "2 \<le> b"
  shows "(n mod b + 1 = b \<longrightarrow> (n + 1) mod b = 0 \<and> (n + 1) div b = n div b + 1)
    \<and> (n mod b + 1 \<noteq> b \<longrightarrow> (n + 1) mod b = n mod b + 1 \<and> (n + 1) div b = n div b)"
  using assms by (auto simp: mod_Suc div_Suc)

text \<open>\<^verbatim>\<open>strtoll\<close> divides the limit less one and adds the one back afterwards.\<close>

lemma limits_succ:
  fixes w :: "64 word"
  assumes b: "2 \<le> b" "b \<le> 36" and w: "unat w < 2 ^ 64 - 1"
    and lim: "(cutlim, cutoff) =
      (if to_int (w mod word_of_int b) + 1 = b then (0, w div word_of_int b + 1)
       else (to_int (w mod word_of_int b) + 1, w div word_of_int b))"
  shows "limits_ok (unat w + 1) b cutoff cutlim"
proof -
  have tm: "to_int (w mod word_of_int b) = int (unat w mod nat b)" "unat (w div word_of_int b) = unat w div nat b"
    using limits64 [OF b, of w] by (simp_all add: limits_ok_def)
  have eq: "to_int (w mod word_of_int b) + 1 = b \<longleftrightarrow> unat w mod nat b + 1 = nat b"
    using b tm by linarith
  have "unat w div nat b + 1 < 2 ^ 64"
    using w div_le_dividend [of "unat w" "nat b"] by linarith
  then have s: "unat (w div word_of_int b + 1) = unat w div nat b + 1"
    using tm by (simp add: unat_word_ariths)
  have "2 \<le> nat b" using b by simp
  from succ_div_mod [OF this, of "unat w"] show ?thesis
    using lim b w tm s eq by (auto simp: limits_ok_def split: if_splits)
qed

section \<open>The conversions\<close>

definition neg_of :: "byte list \<Rightarrow> bool" where
  "neg_of sg \<longleftrightarrow> sg = [ch_minus]"

lemma conversion_loop:
  fixes cutoff :: "'w::len word"
  assumes n: "numeral_at m p b ws sg ds rest" and lim: "limits_ok L b cutoff cutlim"
    and front: "s = Suc (p + length ws + length sg)" "rd m (p + length ws + length sg) = Some c"
      "cstr m (p + length ws + length sg) (ds @ rest)"
  obtains acc where "strto_loop m b cutoff cutlim 0 0 c s =
      Some (acc, if num_val (nat b) ds 0 \<le> L then 1 else -1, Suc (p + length ws + length sg + length ds))"
    "num_val (nat b) ds 0 \<le> L \<longrightarrow> unat acc = num_val (nat b) ds 0"
  using loop_exact [OF lim front(3) _ _ front(2), of 0 0] n front(1)
  by (auto simp: numeral_at_def)

lemma sint_pos: "unat (acc :: 'w::len word) = n \<Longrightarrow> n < 2 ^ (LENGTH('w) - 1) \<Longrightarrow> sint acc = int n"
  by (simp add: sint_small)

lemma sint_neg:
  fixes acc :: "'w::len word"
  assumes "unat acc = n" "n \<le> 2 ^ (LENGTH('w) - 1)"
  shows "sint (- acc) = - int n"
proof -
  have n: "int n \<le> 2 ^ (LENGTH('w) - 1)"
    using assms(2) by (metis of_nat_le_iff of_nat_numeral of_nat_power)
  have "sint (word_of_int (- int n) :: 'w word) = - int n"
  proof (rule sint_of_int_small)
    show "- (2 ^ (LENGTH('w) - 1)) \<le> - int n" using n by simp
    have "- int n \<le> 0" by simp
    also have "(0 :: int) < 2 ^ (LENGTH('w) - 1)" by simp
    finally show "- int n < 2 ^ (LENGTH('w) - 1)" .
  qed
  moreover have "word_of_int (- int n) = - acc" using assms(1) by auto
  ultimately show ?thesis by simp
qed

text \<open>What a signed conversion to \<open>w\<close> bits returns: the number, clamped to the range.\<close>

definition clamped :: "nat \<Rightarrow> bool \<Rightarrow> nat \<Rightarrow> addr \<Rightarrow> int strto_result" where
  "clamped w neg N e =
     \<lparr>val = (if neg then max (- (2 ^ (w - 1))) (- int N) else min (2 ^ (w - 1) - 1) (int N)),
      erange = (if neg then 2 ^ (w - 1) < N else 2 ^ (w - 1) \<le> N), endp = e\<rparr>"

lemma strtol_clamped:
  assumes n: "numeral_at m p b ws sg ds rest"
  shows "strtol m p b = Some (clamped 32 (neg_of sg) (num_val (nat b) ds 0)
           (p + length ws + length sg + length ds))"
proof -
  obtain c s c0 s0 where f: "strto_skip m p = Some (c0, s0)"
    "strto_sign m c0 s0 = Some (sg = [ch_minus], c, s)" "strto_base m b c s = Some (b, c, s)"
    "s = Suc (p + length ws + length sg)" "rd m (p + length ws + length sg) = Some c"
    "cstr m (p + length ws + length sg) (ds @ rest)"
    by (rule parse_front [OF n])
  have b: "2 \<le> b" "b \<le> 36" using n by (simp_all add: numeral_at_def)
  let ?w = "(if sg = [ch_minus] then 0x80000000 else 0x7fffffff) :: 32 word"
  have w: "unat ?w = (if sg = [ch_minus] then 2 ^ 31 else 2 ^ 31 - 1)" by simp
  obtain acc where acc: "strto_loop m b (?w div word_of_int b) (to_int (?w mod word_of_int b)) 0 0 c s =
      Some (acc, if num_val (nat b) ds 0 \<le> unat ?w then 1 else -1, Suc (p + length ws + length sg + length ds))"
    "num_val (nat b) ds 0 \<le> unat ?w \<longrightarrow> unat acc = num_val (nat b) ds 0"
    by (rule conversion_loop [OF n limits32 [OF b] f(4-6)])
  have "strtol m p b = Some \<lparr>val = sint (if unat ?w < num_val (nat b) ds 0 then ?w
           else if sg = [ch_minus] then - acc else acc),
         erange = unat ?w < num_val (nat b) ds 0, endp = p + length ws + length sg + length ds\<rparr>"
    using acc(1) by (simp add: strtol_def f(1-3) Let_def not_le)
  then show ?thesis
    using acc(2) w sint_neg [of acc "num_val (nat b) ds 0"] sint_pos [of acc "num_val (nat b) ds 0"]
    by (auto simp: clamped_def neg_of_def not_less max_def min_def)
qed

lemma strtoll_clamped:
  assumes n: "numeral_at m p b ws sg ds rest"
  shows "strtoll m p b = Some (clamped 64 (neg_of sg) (num_val (nat b) ds 0)
           (p + length ws + length sg + length ds))"
proof -
  obtain c s c0 s0 where f: "strto_skip m p = Some (c0, s0)"
    "strto_sign m c0 s0 = Some (sg = [ch_minus], c, s)" "strto_base m b c s = Some (b, c, s)"
    "s = Suc (p + length ws + length sg)" "rd m (p + length ws + length sg) = Some c"
    "cstr m (p + length ws + length sg) (ds @ rest)"
    by (rule parse_front [OF n])
  have b: "2 \<le> b" "b \<le> 36" using n by (simp_all add: numeral_at_def)
  let ?w = "(if sg = [ch_minus] then 0x7fffffffffffffff else 0x7ffffffffffffffe) :: 64 word"
  let ?L = "unat ?w + 1" let ?N = "num_val (nat b) ds 0"
  have w: "?L = (if sg = [ch_minus] then 2 ^ 63 else 2 ^ 63 - 1)" "unat ?w < 2 ^ 64 - 1" by simp_all
  obtain cutlim cutoff where lim: "strtoll_limits (sg = [ch_minus]) b = (cutlim, cutoff)" by fastforce
  then have lim': "(cutlim, cutoff) =
      (if to_int (?w mod word_of_int b) + 1 = b then (0, ?w div word_of_int b + 1)
       else (to_int (?w mod word_of_int b) + 1, ?w div word_of_int b))"
    by (simp only: strtoll_limits_def Let_def)
  obtain acc where acc: "strto_loop m b cutoff cutlim 0 0 c s =
      Some (acc, if ?N \<le> ?L then 1 else -1, Suc (p + length ws + length sg + length ds))"
    "?N \<le> ?L \<longrightarrow> unat acc = ?N"
    by (rule conversion_loop [OF n limits_succ [OF b w(2) lim'] f(4-6)])
  have "strtoll m p b = Some \<lparr>val = sint (if ?L < ?N then (if sg = [ch_minus] then 0x8000000000000000
             else 0x7fffffffffffffff) else if sg = [ch_minus] then - acc else acc),
         erange = ?L < ?N, endp = p + length ws + length sg + length ds\<rparr>"
    using acc(1) unfolding strtoll_def Let_def by (simp add: f(1-3) lim not_le)
  then show ?thesis
    using acc(2) w(1) sint_neg [of acc ?N] sint_pos [of acc ?N]
    by (auto simp: clamped_def neg_of_def not_less max_def min_def)
qed

text \<open>An unsigned conversion to \<open>w\<close> bits: a minus sign negates modulo \<open>2 ^ w\<close>.\<close>

definition wrapped :: "nat \<Rightarrow> bool \<Rightarrow> nat \<Rightarrow> addr \<Rightarrow> int strto_result" where
  "wrapped w neg N e =
     \<lparr>val = (if 2 ^ w \<le> N then 2 ^ w - 1 else if neg then (- int N) mod 2 ^ w else int N),
      erange = 2 ^ w \<le> N, endp = e\<rparr>"

lemma uint_neg: "unat (acc :: 'w::len word) = n \<Longrightarrow> uint (- acc) = (- int n) mod 2 ^ LENGTH('w)"
  by (auto simp: uint_word_ariths)

lemma strtoul_wrapped:
  assumes n: "numeral_at m p b ws sg ds rest"
  shows "strtoul m p b = Some (wrapped 32 (neg_of sg) (num_val (nat b) ds 0)
           (p + length ws + length sg + length ds))"
proof -
  obtain c s c0 s0 where f: "strto_skip m p = Some (c0, s0)"
    "strto_sign m c0 s0 = Some (sg = [ch_minus], c, s)" "strto_base m b c s = Some (b, c, s)"
    "s = Suc (p + length ws + length sg)" "rd m (p + length ws + length sg) = Some c"
    "cstr m (p + length ws + length sg) (ds @ rest)"
    by (rule parse_front [OF n])
  have b: "2 \<le> b" "b \<le> 36" using n by (simp_all add: numeral_at_def)
  let ?w = "0xffffffff :: 32 word" let ?N = "num_val (nat b) ds 0"
  have w: "unat ?w = 2 ^ 32 - 1" by simp
  obtain acc where acc: "strto_loop m b (?w div word_of_int b) (to_int (?w mod word_of_int b)) 0 0 c s =
      Some (acc, if ?N \<le> unat ?w then 1 else -1, Suc (p + length ws + length sg + length ds))"
    "?N \<le> unat ?w \<longrightarrow> unat acc = ?N"
    by (rule conversion_loop [OF n limits32 [OF b] f(4-6)])
  have "strtoul m p b = Some \<lparr>val = uint (if unat ?w < ?N then ?w else if sg = [ch_minus] then - acc else acc),
         erange = unat ?w < ?N, endp = p + length ws + length sg + length ds\<rparr>"
    using acc(1) unfolding strtoul_def Let_def by (simp add: f(1-3) not_le)
  moreover have "unat ?w < ?N \<longleftrightarrow> 2 ^ 32 \<le> ?N" unfolding w by auto
  moreover have "uint acc = int ?N" "uint (- acc) = (- int ?N) mod 2 ^ 32" if "?N \<le> unat ?w"
    using acc(2) that uint_neg [of acc ?N] uint_nat [of acc] by simp_all
  moreover have "uint ?w = 2 ^ 32 - 1" by simp
  ultimately show ?thesis by (simp add: wrapped_def neg_of_def not_less)
qed

lemma strtoull_wrapped:
  assumes n: "numeral_at m p b ws sg ds rest"
  shows "strtoull m p b = Some (wrapped 64 (neg_of sg) (num_val (nat b) ds 0)
           (p + length ws + length sg + length ds))"
proof -
  obtain c s c0 s0 where f: "strto_skip m p = Some (c0, s0)"
    "strto_sign m c0 s0 = Some (sg = [ch_minus], c, s)" "strto_base m b c s = Some (b, c, s)"
    "s = Suc (p + length ws + length sg)" "rd m (p + length ws + length sg) = Some c"
    "cstr m (p + length ws + length sg) (ds @ rest)"
    by (rule parse_front [OF n])
  have b: "2 \<le> b" "b \<le> 36" using n by (simp_all add: numeral_at_def)
  let ?w = "0xffffffffffffffff :: 64 word" let ?N = "num_val (nat b) ds 0"
  have w: "unat ?w = 2 ^ 64 - 1" by simp
  obtain acc where acc: "strto_loop m b (?w div word_of_int b) (to_int (?w mod word_of_int b)) 0 0 c s =
      Some (acc, if ?N \<le> unat ?w then 1 else -1, Suc (p + length ws + length sg + length ds))"
    "?N \<le> unat ?w \<longrightarrow> unat acc = ?N"
    by (rule conversion_loop [OF n limits64 [OF b] f(4-6)])
  have "strtoull m p b = Some \<lparr>val = uint (if unat ?w < ?N then ?w else if sg = [ch_minus] then - acc else acc),
         erange = unat ?w < ?N, endp = p + length ws + length sg + length ds\<rparr>"
    using acc(1) unfolding strtoull_def Let_def by (simp add: f(1-3) not_le)
  moreover have "unat ?w < ?N \<longleftrightarrow> 2 ^ 64 \<le> ?N" unfolding w by auto
  moreover have "uint acc = int ?N" "uint (- acc) = (- int ?N) mod 2 ^ 64" if "?N \<le> unat ?w"
    using acc(2) that uint_neg [of acc ?N] uint_nat [of acc] by simp_all
  moreover have "uint ?w = 2 ^ 64 - 1" by simp
  ultimately show ?thesis by (simp add: wrapped_def neg_of_def not_less)
qed

text \<open>
  The interface the decimal readers rely on: a conversion that clamps to its range, and what follows
  for a caller that reads a number written in base 10.
\<close>

locale clamping_conversion =
  fixes conv :: "mem \<Rightarrow> addr \<Rightarrow> int \<Rightarrow> int strto_result option" and w :: nat
  assumes conv_clamps: "numeral_at m p b ws sg ds rest \<Longrightarrow>
      conv m p b = Some (clamped w (neg_of sg) (num_val (nat b) ds 0) (p + length ws + length sg + length ds))"
    and width: "0 < w"
begin

lemma val_clamped:
  fixes K :: int
  assumes "K = 2 ^ (w - 1)"
  shows "val (clamped w neg N e) = (if neg then max (- K) (- int N) else min (K - 1) (int N))"
  by (simp add: clamped_def assms)

lemma conv_in_range:
  assumes "numeral_at m p b ws sg ds rest"
  shows "\<exists>r. conv m p b = Some r \<and> - (2 ^ (w - 1)) \<le> val r \<and> val r < 2 ^ (w - 1)"
proof -
  define K :: int where "K = 2 ^ (w - 1)"
  then have "0 < K" by simp
  then show ?thesis
    using conv_clamps [OF assms] val_clamped [OF K_def] unfolding K_def [symmetric] by auto
qed

lemma conv_exact:
  assumes "numeral_at m p b ws sg ds rest" "num_val (nat b) ds 0 < 2 ^ (w - 1)"
  shows "map_option val (conv m p b) =
    Some (if neg_of sg then - int (num_val (nat b) ds 0) else int (num_val (nat b) ds 0))"
proof -
  define K :: int where "K = 2 ^ (w - 1)"
  have "int (num_val (nat b) ds 0) < K"
    using assms(2) unfolding K_def by (metis of_nat_less_iff of_nat_numeral of_nat_power)
  then show ?thesis
    using conv_clamps [OF assms(1)] val_clamped [OF K_def] by auto
qed

end

interpretation strtol_conv: clamping_conversion strtol 32
  by unfold_locales (rule strtol_clamped, assumption, simp)

interpretation strtoll_conv: clamping_conversion strtoll 64
  by unfold_locales (rule strtoll_clamped, assumption, simp)

section \<open>Choosing the base\<close>

lemma isspace_digit: "\<not> ctrue (isspace (uint ch_0))"
  by (simp add: is_iffs is_char_def)

lemma skip_here: "rd m p = Some c \<Longrightarrow> \<not> ctrue (isspace (uint c)) \<Longrightarrow> strto_skip m p = Some (c, Suc p)"
  by (simp add: strto_skip.simps)

lemma sign_none: "c \<noteq> ch_minus \<Longrightarrow> c \<noteq> ch_plus \<Longrightarrow> strto_sign m c s = Some (False, c, s)"
  by (simp add: strto_sign_def)

lemma base_prefix:
  "b = 0 \<or> b = 16 \<Longrightarrow> rd m s = Some x \<Longrightarrow> x = ch_x \<or> x = ch_X \<Longrightarrow> rd m (Suc s) = Some c \<Longrightarrow>
     strto_base m b ch_0 s = Some (16, c, s + 2)"
  by (auto simp: strto_base_def)

lemma base_auto:
  "c \<noteq> ch_0 \<Longrightarrow> strto_base m 0 c s = strto_base m 10 c s"
  "rd m s = Some x \<Longrightarrow> x \<noteq> ch_x \<Longrightarrow> x \<noteq> ch_X \<Longrightarrow> strto_base m 0 ch_0 s = strto_base m 8 ch_0 s"
  by (simp_all add: strto_base_def)

lemma parse_front0:
  assumes "numeral_at m p b [] [] ds rest"
  shows "\<exists>c c0 s0. strto_skip m p = Some (c0, s0) \<and> strto_sign m c0 s0 = Some (False, c, Suc p)
    \<and> strto_base m b c (Suc p) = Some (b, c, Suc p) \<and> rd m p = Some c \<and> cstr m p (ds @ rest)"
  by (rule parse_front [OF assms]) auto

lemma skip_zero: "rd m p = Some ch_0 \<Longrightarrow> strto_skip m p = Some (ch_0, Suc p)"
  by (rule skip_here [OF _ isspace_digit])

lemma strtol_prefix:
  assumes n: "numeral_at m (p + 2) 16 [] [] ds rest"
    and "rd m p = Some ch_0" "rd m (Suc p) = Some x" "x = ch_x \<or> x = ch_X" "b = 0 \<or> b = 16"
  shows "strtol m p b = strtol m (p + 2) 16"
proof -
  obtain c s c0 s0 where f: "strto_skip m (p + 2) = Some (c0, s0)"
    "strto_sign m c0 s0 = Some (False, c, s)" "strto_base m 16 c s = Some (16, c, s)"
    "s = Suc (p + 2)" "rd m (p + 2) = Some c" "cstr m (p + 2) (ds @ rest)"
    using parse_front0 [OF n] by blast
  have front: "strto_skip m p = Some (ch_0, Suc p)" "strto_sign m ch_0 (Suc p) = Some (False, ch_0, Suc p)"
    "strto_base m b ch_0 (Suc p) = Some (16, c, s)"
    using assms(2-5) f(4,5) by (simp_all add: skip_zero sign_none base_prefix)
  let ?w = "0x7fffffff :: 32 word"
  have "\<exists>acc any e. strto_loop m 16 (?w div word_of_int 16) (to_int (?w mod word_of_int 16)) 0 0 c s =
      Some (acc, any, e) \<and> any \<noteq> 0"
    by (rule conversion_loop [OF n limits32 [of 16 ?w], of s c]) (use f(4-6) in auto)
  then obtain acc any e where "strto_loop m 16 (?w div word_of_int 16) (to_int (?w mod word_of_int 16)) 0 0 c s =
      Some (acc, any, e)" "any \<noteq> 0" by blast
  then show ?thesis
    unfolding strtol_def by (simp add: front f(1) [simplified] f(2,3) Let_def)
qed

section \<open>Properties\<close>

text \<open>
  C34. \<^verbatim>\<open>strtol\<close> and \<^verbatim>\<open>strtoll\<close> on white space, an optional sign, digits of the base and a byte that is
  none: the value is the number read, clamped to the range of the result type; \<^verbatim>\<open>ERANGE\<close> is reported
  exactly when it was clamped; the end pointer is just past the digits. This holds in every base
  from 2 to 36 and for digit strings of any length.
\<close>

theorem strtol_clamps:
  assumes "numeral_at m p b ws sg ds rest"
  shows "strtol m p b = Some (clamped 32 (neg_of sg) (num_val (nat b) ds 0) (p + length ws + length sg + length ds))
    \<and> strtoll m p b = Some (clamped 64 (neg_of sg) (num_val (nat b) ds 0) (p + length ws + length sg + length ds))"
  using strtol_conv.conv_clamps [OF assms] strtoll_conv.conv_clamps [OF assms] by blast

theorem strtol_clamps_witness:
  "strtol [0, 32, 45, 49, 50, 59, 0] 1 10 = Some \<lparr>val = -12, erange = False, endp = 5\<rparr>"
proof -
  have "numeral_at [0, 32, 45, 49, 50, 59, 0] 1 10 [32] [45] [49, 50] [59]"
    by (simp add: numeral_at_def rd_def is_iffs is_char_def sign_bytes_def is_dig_def stops_def strto_digit_def)
  from strtol_clamps [OF this] show ?thesis
    by (simp add: clamped_def neg_of_def digit_val_def strto_digit_def is_iffs is_char_def)
qed

text \<open>
  \<^verbatim>\<open>strtoul\<close> and \<^verbatim>\<open>strtoull\<close> on the same text return the number, its negation modulo \<open>2 ^ w\<close> when
  a minus sign precedes it, and the largest value together with \<^verbatim>\<open>ERANGE\<close> exactly when the number
  does not fit.
\<close>

theorem strtoul_wraps:
  assumes "numeral_at m p b ws sg ds rest"
  shows "strtoul m p b = Some (wrapped 32 (neg_of sg) (num_val (nat b) ds 0) (p + length ws + length sg + length ds))
    \<and> strtoull m p b = Some (wrapped 64 (neg_of sg) (num_val (nat b) ds 0) (p + length ws + length sg + length ds))"
  using strtoul_wrapped [OF assms] strtoull_wrapped [OF assms] by blast

theorem strtoul_wraps_witness:
  "strtoul [0, 45, 49, 0] 1 10 = Some \<lparr>val = 4294967295, erange = False, endp = 3\<rparr>"
proof -
  have "numeral_at [0, 45, 49, 0] 1 10 [] [45] [49] []"
    by (simp add: numeral_at_def rd_def is_iffs is_char_def sign_bytes_def is_dig_def stops_def strto_digit_def)
  from strtoul_wraps [OF this] show ?thesis
    by (simp add: wrapped_def neg_of_def digit_val_def strto_digit_def is_iffs is_char_def)
qed

text \<open>
  Base detection: with base 0 (or 16) a number after \<^verbatim>\<open>0x\<close> or \<^verbatim>\<open>0X\<close> is read as hexadecimal from
  past the prefix; with base 0 a leading 0 means octal and any other leading byte decimal. When no
  hexadecimal digit follows the prefix, nothing at all is converted: the end pointer is the start
  of the string, although the text begins with the valid number 0.
\<close>

theorem strtol_detects_base:
  "(numeral_at m (p + 2) 16 [] [] ds rest \<and> rd m p = Some 48 \<and> rd m (Suc p) = Some x \<and> x \<in> {120, 88}
      \<longrightarrow> strtol m p 0 = strtol m (p + 2) 16 \<and> strtol m p 16 = strtol m (p + 2) 16)
   \<and> (rd m p = Some 48 \<and> rd m (Suc p) = Some x \<and> x \<notin> {120, 88} \<longrightarrow> strtol m p 0 = strtol m p 8)
   \<and> (rd m p = Some c \<and> c \<notin> {48, 45, 43} \<and> \<not> ctrue (isspace (uint c)) \<longrightarrow> strtol m p 0 = strtol m p 10)
   \<and> (rd m p = Some 48 \<and> rd m (Suc p) = Some x \<and> x \<in> {120, 88} \<and> cstr m (p + 2) rest \<and> stops 16 rest
      \<longrightarrow> strtol m p 0 = Some \<lparr>val = 0, erange = False, endp = p\<rparr>)"
proof (intro conjI impI)
  assume "rd m p = Some 48 \<and> rd m (Suc p) = Some x \<and> x \<notin> {120, 88}"
  then show "strtol m p 0 = strtol m p 8"
    using base_auto(2) [of m "Suc p" x] by (simp add: strtol_def skip_zero sign_none)
next
  assume "rd m p = Some c \<and> c \<notin> {48, 45, 43} \<and> \<not> ctrue (isspace (uint c))"
  then show "strtol m p 0 = strtol m p 10"
    using base_auto(1) [of c m "Suc p"] skip_here [of m p c] by (simp add: strtol_def sign_none)
next
  assume a: "rd m p = Some 48 \<and> rd m (Suc p) = Some x \<and> x \<in> {120, 88} \<and> cstr m (p + 2) rest \<and> stops 16 rest"
  then obtain c where c: "rd m (p + 2) = Some c" using cstr_rd_hd by blast
  from a c have "strto_base m 0 48 (Suc p) = Some (16, c, Suc (p + 2))"
    using base_prefix [of 0 m "Suc p" x c] by auto
  moreover from a c have "strto_loop m 16 co cl (0 :: 32 word) 0 c (Suc (p + 2)) = Some (0, 0, Suc (p + 2))" for co cl
    by (intro loop_stop) auto
  ultimately show "strtol m p 0 = Some \<lparr>val = 0, erange = False, endp = p\<rparr>"
    using a by (simp add: strtol_def skip_zero sign_none Let_def)
qed (use strtol_prefix in blast)+

theorem strtol_detects_base_witness:
  "strtol [0, 48, 120, 103, 0] 1 0 = Some \<lparr>val = 0, erange = False, endp = 1\<rparr>"
proof -
  let ?m = "[0, 48, 120, 103, 0] :: mem"
  have "rd ?m 1 = Some 48 \<and> rd ?m (Suc 1) = Some 120 \<and> (120 :: byte) \<in> {120, 88}
      \<and> cstr ?m (1 + 2) [103] \<and> stops 16 [103]"
    by (simp add: rd_def stops_def is_dig_def strto_digit_def is_iffs is_char_def)
  with strtol_detects_base [where m = ?m and p = 1 and x = 120 and rest = "[103]"] show ?thesis by blast
qed

end
