(* ===== verification/Stdlib_Num.thy ===== *)
theory Stdlib_Num
  imports Strtol Cstring_Write "HOL-Library.Signed_Division"
begin

text \<open>
  Small numeric routines of \<^verbatim>\<open>stdlib\<close>: \<^verbatim>\<open>itoa\<close>, the radix-64 pair \<^verbatim>\<open>a64l\<close> and \<^verbatim>\<open>l64a\<close>, the quotient and
  remainder functions, the absolute values and \<^verbatim>\<open>bsearch\<close>.
\<close>

section \<open>itoa\<close>

definition itoa_char :: "32 word \<Rightarrow> byte" where
  "itoa_char i = (if i < 10 then ucast i + 48 else ucast i + 97 - 10)"

text \<open>
  \<^verbatim>\<open>while (v || tp == tmp)\<close>: the digits in the order in which they are stored into \<open>tmp\<close>, least
  significant first; \<open>first\<close> is \<^verbatim>\<open>tp == tmp\<close>. The caller has checked that the radix is at least 2.
\<close>

function itoa_loop :: "32 word \<Rightarrow> 32 word \<Rightarrow> bool \<Rightarrow> byte list" where
  "itoa_loop v radix first =
     (if 1 < radix \<and> (v \<noteq> 0 \<or> first) then itoa_char (v mod radix) # itoa_loop (v div radix) radix False
      else [])"
  by pat_completeness auto
termination
proof (relation "measure (\<lambda>(v, radix, first). 2 * unat v + (if first then 1 else 0))")
  fix v radix :: "32 word" and first
  assume a: "1 < radix \<and> (v \<noteq> 0 \<or> first)"
  have r: "1 < unat radix" using a by (simp add: word_less_nat_alt)
  show "((v div radix, radix, False), v, radix, first) \<in> measure (\<lambda>(v, radix, first). 2 * unat v + (if first then 1 else 0))"
  proof (cases "v = 0")
    case False
    then have "0 < unat v" by (simp add: unat_gt_0)
    then have "unat v div unat radix < unat v" using r by (simp add: div_less_dividend)
    then show ?thesis by (simp add: unat_div)
  qed (use a in simp)
qed simp

declare itoa_loop.simps [simp del]

text \<open>\<^verbatim>\<open>while (tp > tmp) *sp++ = *--tp;\<close>: the digits go out in reverse.\<close>

fun itoa_store :: "mem \<Rightarrow> addr \<Rightarrow> byte list \<Rightarrow> (mem \<times> addr) option" where
  "itoa_store m sp [] = Some (m, sp)"
| "itoa_store m sp (c # cs) = do { m' \<leftarrow> wr m sp c; itoa_store m' (sp + 1) cs }"

text \<open>
  \<open>malloc\<close> is what the routine calls when the buffer is the null pointer; it returns the block and
  the memory. The second component of the result is the returned pointer, the third says whether \<^verbatim>\<open>errno\<close>
  was set to \<^verbatim>\<open>EDOM\<close>.
\<close>

definition itoa ::
  "(mem \<Rightarrow> nat \<Rightarrow> mem \<times> addr) \<Rightarrow> mem \<Rightarrow> int \<Rightarrow> addr \<Rightarrow> int \<Rightarrow> (mem \<times> addr \<times> bool) option" where
  "itoa malloc m vl string radix =
     (if 36 < radix \<or> radix \<le> 1 then Some (m, NULL, True)
      else let sign = (radix = 10 \<and> vl < 0);
               v = (if sign then word_of_int (- vl) else word_of_int vl) :: 32 word;
               tmp = itoa_loop v (word_of_int radix) True;
               (m, string) = (if string = NULL then malloc m (length tmp + (if sign then 1 else 0) + 1)
                              else (m, string)) in
           do { (m, sp) \<leftarrow> (if sign then do { m' \<leftarrow> wr m string 45; Some (m', string + 1) } else Some (m, string));
                (m, sp) \<leftarrow> itoa_store m sp (rev tmp);
                m \<leftarrow> wr m sp 0;
                Some (m, string, False) })"

section \<open>Radix 64\<close>

text \<open>One digit of \<^verbatim>\<open>a64l\<close>; \<^term>\<open>None\<close> for a byte that is none.\<close>

definition a64_digit :: "byte \<Rightarrow> 32 word option" where
  "a64_digit c =
     (if c = 46 then Some 0 else if c = 47 then Some 1
      else if 48 \<le> c \<and> c \<le> 57 then Some (ucast (c - 48) + 2)
      else if 65 \<le> c \<and> c \<le> 90 then Some (ucast (c - 65) + 12)
      else if 97 \<le> c \<and> c \<le> 122 then Some (ucast (c - 97) + 38)
      else None)"

text \<open>\<^verbatim>\<open>for (i = 0; i < 6; ++i, ++s)\<close>: the first argument counts the turns left.\<close>

fun a64l_loop :: "nat \<Rightarrow> mem \<Rightarrow> addr \<Rightarrow> 32 word \<Rightarrow> 32 word option" where
  "a64l_loop 0 m s vl = Some vl"
| "a64l_loop (Suc i) m s vl =
     do { c \<leftarrow> rd m s;
          if c = 0 then Some vl
          else if drop_bit 6 0xffffffff < vl then Some 1144341633
          else case a64_digit c of
                 None \<Rightarrow> Some 0
               | Some d \<Rightarrow> a64l_loop i m (s + 1) (push_bit 6 vl + d) }"

definition a64l :: "mem \<Rightarrow> addr \<Rightarrow> int option" where
  "a64l m s =
     (if s = NULL then Some 0
      else do { c \<leftarrow> rd m s;
                if c = 0 then Some 0 else do { v \<leftarrow> a64l_loop 6 m s 0; Some (sint v) } })"

definition l64a_char :: "32 word \<Rightarrow> byte" where
  "l64a_char digit =
     (if digit = 0 then 46 else if digit = 1 then 47
      else if digit < 12 then 48 + (ucast digit - 2)
      else if digit < 38 then 65 + (ucast digit - 12)
      else 97 + (ucast digit - 38))"

text \<open>
  \<^verbatim>\<open>l64a\<close> fills the static buffer of seven zeroed bytes from its index 5 downwards
  (\<^verbatim>\<open>while (value && s >= radix64)\<close>; \<open>s\<close> is an index here, one more than the source's pointer offset,
  so that 0 is the position before the buffer).
\<close>

fun l64a_loop :: "32 word \<Rightarrow> nat \<Rightarrow> byte list \<Rightarrow> nat \<times> byte list" where
  "l64a_loop vl 0 buf = (0, buf)"
| "l64a_loop vl (Suc s) buf =
     (if vl = 0 then (Suc s, buf)
      else l64a_loop (drop_bit 6 vl) s (buf[s := l64a_char (vl AND 0x3f)]))"

text \<open>The string that the returned pointer designates.\<close>

definition l64a :: "int \<Rightarrow> byte list" where
  "l64a vl =
     (let v = word_of_int vl :: 32 word; radix64 = replicate 7 0 in
      if v = 0 then takeWhile (\<lambda>c. c \<noteq> 0) radix64
      else (case l64a_loop v 6 radix64 of (s, buf) \<Rightarrow> takeWhile (\<lambda>c. c \<noteq> 0) (drop s buf)))"

section \<open>Quotients, absolute values, bsearch\<close>

record div_t =
  quot :: int
  rem :: int

text \<open>C's \<^verbatim>\<open>/\<close> and \<^verbatim>\<open>%\<close> truncate; the processor traps on a zero divisor and on the one quotient that does
  not fit, both \<^term>\<open>None\<close>.\<close>

definition c_div :: "nat \<Rightarrow> int \<Rightarrow> int \<Rightarrow> div_t option" where
  "c_div w num denom =
     (if denom = 0 \<or> (num = - (2 ^ (w - 1)) \<and> denom = -1) then None
      else Some \<lparr>quot = num sdiv denom, rem = num smod denom\<rparr>)"

definition div_fn :: "int \<Rightarrow> int \<Rightarrow> div_t option" where
  "div_fn num denom = c_div 32 num denom"

definition ldiv :: "int \<Rightarrow> int \<Rightarrow> div_t option" where
  "ldiv num denom = c_div 32 num denom"

definition lldiv :: "int \<Rightarrow> int \<Rightarrow> div_t option" where
  "lldiv num denom = c_div 64 num denom"

definition abs_fn :: "32 word \<Rightarrow> 32 word" where
  "abs_fn j = (if sint j < 0 then - j else j)"

definition labs :: "32 word \<Rightarrow> 32 word" where
  "labs j = (if sint j < 0 then - j else j)"

definition llabs :: "64 word \<Rightarrow> 64 word" where
  "llabs j = (if sint j < 0 then - j else j)"

text \<open>
  \<^verbatim>\<open>bsearch\<close> over element indices: \<open>base\<close> is the index of the first element of the part still searched,
  \<open>lim\<close> its length, \<open>cmp i\<close> what the caller's comparison returns for the key and element \<open>i\<close>. The code keeps \<open>lim\<close> in an
  \<^verbatim>\<open>int\<close>, a number here: the two agree below \<open>2 ^ 31\<close> elements, and an array that large does not fit into memory.
\<close>

function bsearch_loop :: "(nat \<Rightarrow> int) \<Rightarrow> nat \<Rightarrow> nat \<Rightarrow> nat option" where
  "bsearch_loop cmp base lim =
     (if lim = 0 then None
      else let p = base + lim div 2; cmpval = cmp p in
           if cmpval = 0 then Some p
           else if 0 < cmpval then bsearch_loop cmp (p + 1) ((lim - 1) div 2)
           else bsearch_loop cmp base (lim div 2))"
  by pat_completeness auto
termination
  by (relation "measure (\<lambda>(cmp, base, lim). lim)") auto

declare bsearch_loop.simps [simp del]

definition bsearch :: "(nat \<Rightarrow> int) \<Rightarrow> nat \<Rightarrow> nat option" where
  "bsearch cmp nelem = bsearch_loop cmp 0 nelem"

section \<open>Digits written by itoa\<close>

lemma word_small_cases:
  assumes "unat (i :: 32 word) < k" "list_all (\<lambda>n. P (of_nat n :: 32 word)) [0..<k]"
  shows "P i"
  using assms by (auto simp: list_all_iff dest: bspec [where x = "unat i"])

lemma unat_word_less: "unat (w :: 32 word) < 2 ^ 32"
  by (rule order.strict_trans2 [OF unsigned_less]) simp

lemma itoa_char_digit: "unat i < 36 \<Longrightarrow> strto_digit (itoa_char i) = Some (ucast i) \<and> itoa_char i \<noteq> 0"
  by (rule word_small_cases, assumption) code_simp

lemma itoa_char_val:
  assumes "i < word_of_int b" "2 \<le> b" "b \<le> 36"
  shows "digit_val (itoa_char i) = unat i" "is_dig b (itoa_char i)" "itoa_char i \<noteq> 0"
proof -
  have i: "unat i < nat b" using assms by (simp add: word_less_nat_alt unat_base)
  then have d: "strto_digit (itoa_char i) = Some (ucast i)" "itoa_char i \<noteq> 0"
    using itoa_char_digit [of i] assms(3) by simp_all
  have u: "unat (ucast i :: byte) = unat i"
    using i assms by (simp add: unsigned_ucast_eq take_bit_nat_eq_self)
  then have "uint (ucast i :: byte) < b" using i uint_nat [of "ucast i :: byte"] by linarith
  then show "digit_val (itoa_char i) = unat i" "is_dig b (itoa_char i)" "itoa_char i \<noteq> 0"
    using d u by (simp_all add: digit_val_def is_dig_def)
qed

lemma num_val_snoc: "num_val b (ds @ [c]) v = num_val b ds v * b + digit_val c"
  by (induction ds arbitrary: v) auto

lemma itoa_loop_digits:
  assumes b: "2 \<le> b" "b \<le> 36"
  shows "r = word_of_int b \<Longrightarrow>
    (\<forall>c \<in> set (itoa_loop v r first). is_dig b c \<and> c \<noteq> 0) \<and> num_val (nat b) (rev (itoa_loop v r first)) 0 = unat v"
proof (induction v r first rule: itoa_loop.induct)
  case (1 v r first)
  have r: "unat r = nat b" using 1(2) b by (simp add: unat_base)
  then have r1: "1 < r" using b by (simp add: word_less_nat_alt)
  show ?case
  proof (cases "v \<noteq> 0 \<or> first")
    case True
    have "unat v mod nat b < nat b" using b by simp
    then have m: "v mod r < word_of_int b" using r 1(2) by (simp add: word_less_nat_alt unat_mod)
    have step: "itoa_loop v r first = itoa_char (v mod r) # itoa_loop (v div r) r False"
      using True r1 by (simp add: itoa_loop.simps [of v r first])
    have "unat v = unat v div nat b * nat b + unat v mod nat b" by simp
    then show ?thesis
      using 1 True r r1 itoa_char_val [OF m b] unfolding step
      by (simp add: num_val_snoc unat_div unat_mod)
  next
    case False
    then have "itoa_loop v r first = []" by (subst itoa_loop.simps) simp
    then show ?thesis using False by simp
  qed
qed

lemma itoa_loop_length:
  "unat v < 2 ^ n \<Longrightarrow> 0 < n \<Longrightarrow> length (itoa_loop v r first) \<le> n"
proof (induction n arbitrary: v first)
  case (Suc n)
  show ?case
  proof (cases "1 < r \<and> (v \<noteq> 0 \<or> first)")
    case True
    then have "2 \<le> unat r" by (simp add: word_less_nat_alt)
    then have "unat (v div r) \<le> unat v div 2"
      by (simp add: unat_div div_le_mono2)
    also have "\<dots> < 2 ^ n" using Suc.prems(1) by simp
    finally have lt: "unat (v div r) < 2 ^ n" .
    have "length (itoa_loop (v div r) r False) \<le> n"
    proof (cases "n = 0")
      case True
      then have "v div r = 0" using lt by (simp add: unat_eq_0)
      then show ?thesis by (simp add: itoa_loop.simps)
    qed (use Suc.IH [OF lt] in simp)
    then show ?thesis by (subst itoa_loop.simps) simp
  next
    case False
    then have "itoa_loop v r first = []" by (subst itoa_loop.simps) simp
    then show ?thesis by simp
  qed
qed simp

lemma itoa_loop_nonempty: "1 < r \<Longrightarrow> itoa_loop v r True \<noteq> []"
  by (subst itoa_loop.simps) simp

lemma itoa_store_put:
  "valid_block m p (length cs) \<Longrightarrow> itoa_store m p cs = Some (put m p cs, p + length cs)"
proof (induction cs arbitrary: m p)
  case (Cons c cs)
  then have "itoa_store (m[p := c]) (Suc p) cs = Some (put (m[p := c]) (Suc p) cs, Suc p + length cs)"
    by (intro Cons.IH) (simp add: valid_block_def)
  then show ?case using Cons.prems by (simp add: wr_valid)
qed simp

text \<open>The text that \<^verbatim>\<open>itoa\<close> writes, for a radix it accepts.\<close>

definition itoa_text :: "int \<Rightarrow> int \<Rightarrow> byte list" where
  "itoa_text vl radix =
     (if radix = 10 \<and> vl < 0 then 45 # rev (itoa_loop (word_of_int (- vl)) (word_of_int radix) True)
      else rev (itoa_loop (word_of_int vl) (word_of_int radix) True))"

lemma itoa_puts:
  assumes "2 \<le> radix" "radix \<le> 36" "string \<noteq> 0" "valid_block m string (Suc (length (itoa_text vl radix)))"
  shows "itoa malloc m vl string radix = Some (put m string (itoa_text vl radix @ [0]), string, False)"
proof -
  let ?t = "itoa_text vl radix"
  have w: "wr (put m string ?t) (string + length ?t) 0 = Some (put m string (?t @ [0]))"
    using assms(4) by (auto simp: wr_def valid_block_def put_append)
  show ?thesis
  proof (cases "radix = 10 \<and> vl < 0")
    case True
    let ?ds = "rev (itoa_loop (word_of_int (- vl)) (word_of_int radix) True)"
    have t: "?t = 45 # ?ds" using True by (simp add: itoa_text_def)
    then have v: "valid_block m string (Suc (Suc (length ?ds)))" using assms(4) by simp
    then have "itoa_store (m[string := 45]) (Suc string) ?ds =
        Some (put (m[string := 45]) (Suc string) ?ds, Suc string + length ?ds)"
      by (intro itoa_store_put) (simp add: valid_block_def)
    then show ?thesis
      using assms(1-3) True w v unfolding t by (simp add: itoa_def wr_valid)
  next
    case False
    then have t: "?t = rev (itoa_loop (word_of_int vl) (word_of_int radix) True)"
      by (auto simp: itoa_text_def)
    have "itoa_store m string ?t = Some (put m string ?t, string + length ?t)"
      using assms(4) by (intro itoa_store_put) (simp add: valid_block_def)
    then show ?thesis using assms(1-3) False w unfolding t by (auto simp: itoa_def)
  qed
qed

lemma itoa_text_nonzero: "2 \<le> radix \<Longrightarrow> radix \<le> 36 \<Longrightarrow> 0 \<notin> set (itoa_text vl radix)"
  using itoa_loop_digits [of radix "word_of_int radix" "word_of_int vl" True]
    itoa_loop_digits [of radix "word_of_int radix" "word_of_int (- vl)" True]
  by (auto simp: itoa_text_def simp del: of_int_minus)

lemma itoa_text_length: "length (itoa_text vl radix) \<le> 33"
proof -
  have "length (itoa_loop v r True) \<le> 32" for v r
    using itoa_loop_length [of v 32 r True] unat_word_less [of v] by simp
  from this [THEN le_trans, of 33] this show ?thesis by (simp add: itoa_text_def)
qed

lemma itoa_numeral:
  assumes r: "2 \<le> radix" "radix \<le> 36" and c: "cstr m p (itoa_text vl radix)"
  shows "\<exists>sg ds. numeral_at m p radix [] sg ds [] \<and> itoa_text vl radix = sg @ ds
    \<and> neg_of sg = (radix = 10 \<and> vl < 0)
    \<and> num_val (nat radix) ds 0 = unat (word_of_int (if neg_of sg then - vl else vl) :: 32 word)"
proof -
  have "unat (word_of_int radix :: 32 word) = nat radix" using r by (simp add: unat_base)
  then have "1 < (word_of_int radix :: 32 word)" using r by (simp add: word_less_nat_alt)
  note digs = itoa_loop_digits [OF r refl] itoa_loop_nonempty [OF this]
  let ?neg = "radix = 10 \<and> vl < 0"
  let ?v = "word_of_int (if ?neg then - vl else vl) :: 32 word"
  let ?sg = "if ?neg then [45] else [] :: byte list"
  let ?ds = "rev (itoa_loop ?v (word_of_int radix) True)"
  have t: "itoa_text vl radix = ?sg @ ?ds" by (simp add: itoa_text_def)
  have "numeral_at m p radix [] ?sg ?ds []"
    using c t r digs by (auto simp: numeral_at_def sign_bytes_def stops_def)
  moreover have "neg_of ?sg = ?neg" by (simp add: neg_of_def)
  moreover have "num_val (nat radix) ?ds 0 = unat ?v" using digs by blast
  ultimately show ?thesis using t by (intro exI [of _ ?sg] exI [of _ ?ds]) simp
qed

section \<open>Radix 64\<close>

lemma unat_drop_6: "unat (drop_bit 6 (v :: 32 word)) = unat v div 64"
  by (simp add: drop_bit_eq_div unat_div)

function r64 :: "32 word \<Rightarrow> byte list" where
  "r64 v = (if v = 0 then [] else r64 (drop_bit 6 v) @ [l64a_char (v AND 0x3f)])"
  by pat_completeness auto
termination
proof (relation "measure unat")
  fix v :: "32 word" assume "v \<noteq> 0"
  then have "0 < unat v" by (simp add: unat_gt_0)
  then show "(drop_bit 6 v, v) \<in> measure unat" by (simp add: unat_drop_6 div_less_dividend)
qed simp

declare r64.simps [simp del]

lemma unat_and_63: "unat ((v :: 32 word) AND 0x3f) = unat v mod 64"
proof -
  have "v AND 0x3f = take_bit 6 v" by (simp add: take_bit_eq_mask mask_eq_exp_minus_1)
  then show ?thesis by (simp add: unsigned_take_bit_eq take_bit_nat_def)
qed

lemma a64_digit_char: "unat d < 64 \<Longrightarrow> a64_digit (l64a_char d) = Some d \<and> l64a_char d \<noteq> 0"
  by (rule word_small_cases, assumption) code_simp

lemma r64_length: "unat v < 64 ^ n \<Longrightarrow> length (r64 v) \<le> n"
proof (induction n arbitrary: v)
  case 0
  then show ?case by (simp add: r64.simps unat_eq_0)
next
  case (Suc n)
  then have "length (r64 (drop_bit 6 v)) \<le> n" by (intro Suc.IH) (simp add: unat_drop_6 less_mult_imp_div_less mult.commute)
  then show ?case by (subst r64.simps) simp
qed

fun val64 :: "byte list \<Rightarrow> nat \<Rightarrow> nat" where
  "val64 [] v = v"
| "val64 (c # ds) v = val64 ds (v * 64 + (case a64_digit c of Some d \<Rightarrow> unat d | None \<Rightarrow> 0))"

lemma val64_snoc: "val64 (ds @ [c]) v = val64 ds v * 64 + (case a64_digit c of Some d \<Rightarrow> unat d | None \<Rightarrow> 0)"
  by (induction ds arbitrary: v) auto

lemma val64_mono: "v \<le> val64 ds v"
proof (induction ds arbitrary: v)
  case (Cons c ds)
  have "v \<le> v * 64 + (case a64_digit c of Some d \<Rightarrow> unat d | None \<Rightarrow> 0)" by simp
  also have "\<dots> \<le> val64 ds (v * 64 + (case a64_digit c of Some d \<Rightarrow> unat d | None \<Rightarrow> 0))" by (rule Cons.IH)
  finally show ?case by simp
qed simp

lemma r64_digits: "(\<forall>c \<in> set (r64 v). \<exists>d. a64_digit c = Some d \<and> c \<noteq> 0) \<and> val64 (r64 v) 0 = unat v"
proof (induction v rule: r64.induct)
  case (1 v)
  show ?case
  proof (cases "v = 0")
    case True
    then show ?thesis by (simp add: r64.simps)
  next
    case False
    have "unat (v AND 0x3f) < 64" by (simp add: unat_and_63)
    from a64_digit_char [OF this] show ?thesis
      using 1 [OF False] False by (auto simp: r64.simps [of v] val64_snoc unat_and_63 unat_drop_6)
  qed
qed

lemma l64a_loop_r64:
  "length (r64 v) \<le> s \<Longrightarrow> s \<le> length buf \<Longrightarrow>
     l64a_loop v s buf = (s - length (r64 v), take (s - length (r64 v)) buf @ r64 v @ drop s buf)"
proof (induction s arbitrary: v buf)
  case 0
  then show ?case by simp
next
  case (Suc s)
  show ?case
  proof (cases "v = 0")
    case True
    then show ?thesis by (simp add: r64.simps)
  next
    case False
    let ?c = "l64a_char (v AND 0x3f)" let ?r = "r64 (drop_bit 6 v)"
    have r: "r64 v = ?r @ [?c]" using False by (simp add: r64.simps [of v])
    then have "l64a_loop (drop_bit 6 v) s (buf[s := ?c]) =
        (s - length ?r, take (s - length ?r) (buf[s := ?c]) @ ?r @ drop s (buf[s := ?c]))"
      using Suc.prems by (intro Suc.IH) auto
    moreover have "drop s (buf[s := ?c]) = ?c # drop (Suc s) buf"
      using Suc.prems(2) by (simp add: drop_update_swap Cons_nth_drop_Suc [symmetric] upd_conv_take_nth_drop)
    ultimately show ?thesis using False r by simp
  qed
qed

lemma l64a_r64: "l64a vl = r64 (word_of_int vl)"
proof -
  let ?v = "word_of_int vl :: 32 word"
  have "unat ?v < 64 ^ 6" using unat_word_less [of ?v] by simp
  then have len: "length (r64 ?v) \<le> 6" by (rule r64_length)
  have nz: "takeWhile (\<lambda>c. c \<noteq> 0) (r64 ?v @ [0]) = r64 ?v"
    using r64_digits [of ?v] by (subst takeWhile_append2) auto
  show ?thesis
  proof (cases "?v = 0")
    case True
    then show ?thesis by (simp add: l64a_def r64.simps)
  next
    case False
    then show ?thesis
      using len nz by (simp add: l64a_def l64a_loop_r64 [of ?v 6])
  qed
qed

lemma a64l_loop_val:
  "cstr m p ds \<Longrightarrow> \<forall>c \<in> set ds. \<exists>d. a64_digit c = Some d \<Longrightarrow> length ds \<le> k \<Longrightarrow> val64 ds (unat acc) < 2 ^ 32 \<Longrightarrow>
     a64l_loop k m p acc = Some (of_nat (val64 ds (unat acc)))"
proof (induction ds arbitrary: p k acc)
  case Nil
  then show ?case by (cases k) simp_all
next
  case (Cons c ds)
  obtain k' where k: "k = Suc k'" using Cons.prems(3) by (cases k) auto
  obtain d where d: "a64_digit c = Some d" using Cons.prems(2) by auto
  let ?v = "unat acc * 64 + unat d"
  have "?v < 2 ^ 32" using Cons.prems(4) d val64_mono [of ?v ds] by simp
  moreover have acc': "push_bit 6 acc + d = of_nat ?v"
    by (simp add: push_bit_eq_mult mult.commute)
  ultimately have v: "unat (push_bit 6 acc + d) = ?v" "\<not> (drop_bit 6 0xffffffff :: 32 word) < acc"
    using unat_of_nat_small [of ?v, where ?'a = 32] by (simp_all only: acc') (simp_all add: word_less_nat_alt)
  have "a64l_loop k' m (Suc p) (push_bit 6 acc + d) = Some (of_nat (val64 ds (unat (push_bit 6 acc + d))))"
    using Cons.prems d v k by (intro Cons.IH) auto
  then show ?case using Cons.prems d k v by simp
qed

lemma a64l_l64a:
  assumes "cstr m p (l64a vl)" "- (2 ^ 31) \<le> vl" "vl < 2 ^ 31"
  shows "a64l m p = Some vl"
proof -
  let ?v = "word_of_int vl :: 32 word"
  have s: "cstr m p (r64 ?v)" using assms(1) by (simp add: l64a_r64)
  have len: "length (r64 ?v) \<le> 6" using r64_length [of ?v 6] unat_word_less [of ?v] by simp
  have "val64 (r64 ?v) (unat (0 :: 32 word)) < 2 ^ 32" using r64_digits [of ?v] unat_word_less [of ?v] by simp
  with s len have l: "a64l_loop 6 m p 0 = Some (of_nat (val64 (r64 ?v) (unat (0 :: 32 word))))"
    using r64_digits [of ?v] by (intro a64l_loop_val) auto
  have sv: "sint ?v = vl" using assms(2,3) by (intro sint_of_int_small) simp_all
  have p: "p \<noteq> 0" using cstr_positive [OF s] by simp
  obtain c where c: "rd m p = Some c" using s by (cases "r64 ?v") auto
  show ?thesis
  proof (cases "c = 0")
    case True
    then have "r64 ?v = []" using s c by (cases "r64 ?v") auto
    then have "vl = 0" using sv r64_digits [of ?v] by (simp add: unat_eq_0)
    then show ?thesis using True c p by (simp add: a64l_def)
  next
    case False
    then show ?thesis using l sv c p r64_digits [of ?v] by (simp add: a64l_def)
  qed
qed

section \<open>bsearch\<close>

text \<open>What a sorted array gives the comparison: once the key is below an element it stays below, and
  where it is above an element it was above all earlier ones.\<close>

definition sorted_cmp :: "(nat \<Rightarrow> int) \<Rightarrow> nat \<Rightarrow> bool" where
  "sorted_cmp cmp n \<longleftrightarrow> (\<forall>j < n. \<forall>i < j. (cmp i < 0 \<longrightarrow> cmp j < 0) \<and> (0 < cmp j \<longrightarrow> 0 < cmp i))"

lemma bsearch_loop_finds:
  "sorted_cmp cmp n \<Longrightarrow> base + lim \<le> n \<Longrightarrow>
    (case bsearch_loop cmp base lim of
       Some i \<Rightarrow> base \<le> i \<and> i < base + lim \<and> cmp i = 0
     | None \<Rightarrow> \<forall>i. base \<le> i \<and> i < base + lim \<longrightarrow> cmp i \<noteq> 0)"
proof (induction cmp base lim rule: bsearch_loop.induct)
  case (1 cmp base lim)
  let ?p = "base + lim div 2"
  consider "lim = 0" | "lim \<noteq> 0" "cmp ?p = 0" | "lim \<noteq> 0" "0 < cmp ?p" | "lim \<noteq> 0" "cmp ?p < 0" by linarith
  moreover have p_in: "lim \<noteq> 0 \<Longrightarrow> ?p < base + lim" by simp
  ultimately show ?case
  proof cases
    case 1
    then show ?thesis by (simp add: bsearch_loop.simps)
  next
    case 2
    then show ?thesis by (simp add: bsearch_loop.simps [of cmp])
  next
    case 3
    have l: "?p + 1 + (lim - 1) div 2 = base + lim" using 3(1) by presburger
    have "cmp i \<noteq> 0" if "base \<le> i" "i \<le> ?p" for i
    proof (cases "i = ?p")
      case False
      then have "0 < cmp i" using that 3 1(3,4) unfolding sorted_cmp_def by (metis le_neq_implies_less less_le_trans p_in)
      then show ?thesis by simp
    qed (use 3 in simp)
    then show ?thesis
      using 1(1) [OF 3(1) refl refl] 3 l 1(3,4)
      by (subst bsearch_loop.simps) (force simp: Let_def not_less_eq_eq split: option.splits)
  next
    case 4
    have "cmp i \<noteq> 0" if "?p \<le> i" "i < base + lim" for i
    proof (cases "i = ?p")
      case False
      then have "cmp i < 0" using that 4 1(3,4) unfolding sorted_cmp_def by (metis le_neq_implies_less less_le_trans)
      then show ?thesis by simp
    qed (use 4 in simp)
    then have out: "cmp i \<noteq> 0" if "\<not> i < ?p" "i < base + lim" for i using that by simp
    have le: "base + lim div 2 \<le> n" using 1(4) p_in [OF 4(1)] by simp
    have e: "bsearch_loop cmp base lim = bsearch_loop cmp base (lim div 2)"
      using 4 by (subst bsearch_loop.simps) (simp add: Let_def)
    from 1(2) [OF 4(1) refl refl _ _ 1(3) le] 4 have ih: "case bsearch_loop cmp base (lim div 2) of
         Some i \<Rightarrow> base \<le> i \<and> i < ?p \<and> cmp i = 0
       | None \<Rightarrow> \<forall>i. base \<le> i \<and> i < ?p \<longrightarrow> cmp i \<noteq> 0" by simp
    show ?thesis
    proof (cases "bsearch_loop cmp base (lim div 2)")
      case None
      then show ?thesis using ih e out by auto
    next
      case (Some i)
      then have "base \<le> i" "i < base + lim" "cmp i = 0" using ih p_in [OF 4(1)] by auto
      then show ?thesis using Some e by simp
    qed
  qed
qed

section \<open>Truncating division and absolute values\<close>

lemma smod_laws:
  fixes num denom :: int
  assumes "denom \<noteq> 0"
  shows "num sdiv denom * denom + num smod denom = num" "\<bar>num smod denom\<bar> < \<bar>denom\<bar>"
    "num smod denom = 0 \<or> sgn (num smod denom) = sgn num"
proof -
  show "num sdiv denom * denom + num smod denom = num" by (rule sdiv_mult_smod_eq)
  have "0 \<le> \<bar>num\<bar> mod \<bar>denom\<bar>" "\<bar>num\<bar> mod \<bar>denom\<bar> < \<bar>denom\<bar>" using assms by simp_all
  then show "\<bar>num smod denom\<bar> < \<bar>denom\<bar>" "num smod denom = 0 \<or> sgn (num smod denom) = sgn num"
    by (auto simp: signed_modulo_int_def abs_mult sgn_mult abs_sgn_eq sgn_if)
qed

lemma abs_word:
  fixes j :: "'a::len word"
  shows "sint (if sint j < 0 then - j else j) =
    (if sint j = - (2 ^ (LENGTH('a) - 1)) then sint j else \<bar>sint j\<bar>)"
proof (cases "sint j = - (2 ^ (LENGTH('a) - 1))")
  case True
  then have "word_of_int (sint j) = - ((2 :: 'a word) ^ (LENGTH('a) - 1))" by simp
  then have j: "j = - ((2 :: 'a word) ^ (LENGTH('a) - 1))" by simp
  have "(2 :: 'a word) ^ (LENGTH('a) - 1) + 2 ^ (LENGTH('a) - 1) = 2 ^ LENGTH('a)"
    by (metis len_gt_0 mult_2 power_Suc Suc_pred' One_nat_def)
  then have "(2 :: 'a word) ^ (LENGTH('a) - 1) + 2 ^ (LENGTH('a) - 1) = 0" by simp
  then have "- j = j" unfolding j by (simp add: eq_neg_iff_add_eq_0)
  then have "sint (- j) = sint j" by (rule arg_cong)
  moreover have "sint (if b then - j else j) = sint j" if "sint (- j) = sint j" for b using that by simp
  ultimately show ?thesis using True by (metis (full_types))
next
  case False
  have "- (2 ^ (LENGTH('a) - 1)) \<le> sint j" "sint j < 2 ^ (LENGTH('a) - 1)"
    using sint_greater_eq [of j] sint_less [of j] by auto
  moreover have "- j = word_of_int (- sint j)" by simp
  ultimately have "sint j < 0 \<Longrightarrow> sint (- j) = - sint j"
    using False by (simp only:) (rule sint_of_int_small, auto)
  then show ?thesis using False by simp
qed

section \<open>Properties\<close>

text \<open>
  C35. \<^verbatim>\<open>itoa\<close> in every radix from 2 to 36 and for every 32-bit value: the text it writes fits 34 bytes
  and nothing else changes; \<^verbatim>\<open>strtoul\<close> in the same radix reads back the value as an unsigned one up to
  the NUL, and in radix 10, where a sign is written, \<^verbatim>\<open>strtol\<close> reads back the value itself.
\<close>

theorem itoa_round_trip:
  assumes "2 \<le> radix" "radix \<le> 36" "- (2 ^ 31) \<le> vl" "vl < 2 ^ 31" "valid_block m string 34"
  shows "\<exists>m' e. itoa malloc m vl string radix = Some (m', string, False)
    \<and> (\<forall>q. q < string \<or> string + 34 \<le> q \<longrightarrow> rd m' q = rd m q) \<and> rd m' e = Some 0
    \<and> strtoul m' string radix = Some \<lparr>val = vl mod 2 ^ 32, erange = False, endp = e\<rparr>
    \<and> (radix = 10 \<longrightarrow> strtol m' string radix = Some \<lparr>val = vl, erange = False, endp = e\<rparr>)"
proof -
  let ?t = "itoa_text vl radix" let ?m = "put m string (?t @ [0])"
  have v: "valid_block m string (Suc (length ?t))"
    using assms(5) itoa_text_length [of vl radix] by (simp add: valid_block_def)
  have i: "itoa malloc m vl string radix = Some (?m, string, False)"
    using assms v by (intro itoa_puts) (simp_all add: valid_block_def)
  have c: "cstr ?m string ?t" using v itoa_text_nonzero [OF assms(1,2)] by (intro cstr_put_same) simp_all
  obtain sg ds where n: "numeral_at ?m string radix [] sg ds []" and t: "?t = sg @ ds"
    and neg: "neg_of sg = (radix = 10 \<and> vl < 0)"
    and N: "num_val (nat radix) ds 0 = unat (word_of_int (if neg_of sg then - vl else vl) :: 32 word)"
    using itoa_numeral [OF assms(1,2) c] by blast
  let ?N = "num_val (nat radix) ds 0"
  have N': "int ?N = (if neg_of sg then - vl else vl) mod 2 ^ 32"
    unfolding N by (simp add: unsigned_of_int take_bit_eq_mod del: of_int_minus)
  have small: "?N < 2 ^ 32" unfolding N by (rule unat_word_less)
  have e: "strtoul ?m string radix = Some \<lparr>val = vl mod 2 ^ 32, erange = False, endp = string + length ?t\<rparr>"
    using strtoul_wrapped [OF n] small N' t by (auto simp: wrapped_def mod_minus_eq)
  have "strtol ?m string radix = Some \<lparr>val = vl, erange = False, endp = string + length ?t\<rparr>" if "radix = 10"
  proof -
    have "int ?N = (if neg_of sg then - vl else vl)" using N' neg that assms(3,4) by auto
    then show ?thesis using strtol_clamped [OF n] t neg that assms(3,4) by (auto simp: clamped_def)
  qed
  then show ?thesis
    using i e cstr_rd_end [OF c] v assms(5) itoa_text_length [of vl radix]
    by (intro exI [of _ ?m] exI [of _ "string + length ?t"]) (auto simp: rd_put_outside)
qed

theorem itoa_round_trip_witness:
  "\<exists>m' e. itoa (\<lambda>m n. (m, 0)) (replicate 40 7) (- 2147483648) 3 10 = Some (m', 3, False)
     \<and> strtol m' 3 10 = Some \<lparr>val = - 2147483648, erange = False, endp = e\<rparr>"
  using itoa_round_trip [of 10 "- 2147483648" "replicate 40 7" 3 "\<lambda>m n. (m, 0)"] by (auto simp: valid_block_def)

text \<open>
  The radix-64 pair: whatever 32-bit value \<^verbatim>\<open>l64a\<close> is given, the string it returns has at most six
  characters and \<^verbatim>\<open>a64l\<close> converts it back to that value.
\<close>

theorem l64a_a64l_round_trip:
  assumes "- (2 ^ 31) \<le> vl" "vl < 2 ^ 31" "cstr m p (l64a vl)"
  shows "a64l m p = Some vl \<and> length (l64a vl) \<le> 6"
  using a64l_l64a [OF assms(3,1,2)] r64_length [of "word_of_int vl" 6] unat_word_less [of "word_of_int vl"]
  by (simp add: l64a_r64)

theorem l64a_a64l_round_trip_witness:
  "a64l (0 # l64a (- 2) @ [0]) 1 = Some (- 2) \<and> l64a (- 2) = [49, 122, 122, 122, 122, 121]"
proof -
  have l: "l64a (- 2) = [49, 122, 122, 122, 122, 121]" by code_simp
  then have "cstr (0 # l64a (- 2) @ [0]) 1 (l64a (- 2))" by (simp add: rd_def)
  from l64a_a64l_round_trip [OF _ _ this] l show ?thesis by simp
qed

text \<open>
  C36. \<^verbatim>\<open>bsearch\<close> on an array sorted for the comparison ends, and returns an element that compares equal
  to the key exactly when the array has one.
\<close>

theorem bsearch_correct:
  assumes "sorted_cmp cmp nelem"
  shows "case bsearch cmp nelem of
      Some i \<Rightarrow> i < nelem \<and> cmp i = 0
    | None \<Rightarrow> \<forall>i < nelem. cmp i \<noteq> 0"
  using bsearch_loop_finds [OF assms, of 0 nelem] by (auto simp: bsearch_def split: option.splits)

theorem bsearch_correct_witness:
  "bsearch (\<lambda>i. 6 - 2 * int i) 9 = Some 3"
proof -
  have "sorted_cmp (\<lambda>i. 6 - 2 * int i) 9" by (auto simp: sorted_cmp_def)
  from bsearch_correct [OF this] show ?thesis
    by (auto split: option.splits dest: spec [of _ 3])
qed

text \<open>
  \<^verbatim>\<open>div\<close>, \<^verbatim>\<open>ldiv\<close> and \<^verbatim>\<open>lldiv\<close> return for every divisor but 0, and every quotient that fits, a quotient and a
  remainder with \<open>quot * denom + rem = num\<close>, the remainder smaller than the divisor and of the sign of the
  dividend; \<^verbatim>\<open>abs\<close>, \<^verbatim>\<open>labs\<close> and \<^verbatim>\<open>llabs\<close> return the absolute value except at the least integer, which
  they return unchanged.
\<close>

theorem div_and_abs:
  assumes "denom \<noteq> 0" "num \<noteq> - (2 ^ 31) \<and> num \<noteq> - (2 ^ 63) \<or> denom \<noteq> - 1"
  shows "(\<forall>f \<in> {div_fn, ldiv, lldiv}. \<exists>r. f num denom = Some r \<and> quot r * denom + rem r = num
      \<and> \<bar>rem r\<bar> < \<bar>denom\<bar> \<and> (rem r = 0 \<or> sgn (rem r) = sgn num) \<and> f num 0 = None)
    \<and> sint (abs_fn j) = (if sint j = - (2 ^ 31) then sint j else \<bar>sint j\<bar>) \<and> labs j = abs_fn j
    \<and> sint (llabs k) = (if sint k = - (2 ^ 63) then sint k else \<bar>sint k\<bar>)"
proof -
  have "c_div w num denom = Some \<lparr>quot = num sdiv denom, rem = num smod denom\<rparr>" if "w = 32 \<or> w = 64" for w
    using assms that by (auto simp: c_div_def)
  moreover have "c_div w num 0 = None" for w by (simp add: c_div_def)
  ultimately show ?thesis
    using smod_laws [OF assms(1), of num] abs_word [of j] abs_word [of k]
    by (simp add: div_fn_def ldiv_def lldiv_def abs_fn_def labs_def llabs_def)
qed

theorem div_and_abs_witness:
  "map_option rem (div_fn (- 7) 2) = Some (- 1) \<and> sint (abs_fn (- 5)) = 5"
  using div_and_abs [of 2 "- 7" "- 5" 0] by (simp add: div_fn_def c_div_def signed_modulo_int_def)

end
