(* ===== verification/Rand.thy ===== *)
theory Rand
  imports Complex_Main Prelude "HOL-Library.Signed_Division"
begin

text \<open>
  The pseudo-random generators: \<^verbatim>\<open>rand\<close>, the \<^verbatim>\<open>rand48\<close> family and \<^verbatim>\<open>random\<close> with its switchable state
  arrays. The first two are linear congruential, which is the interface \<open>lcg\<close>; the third is an additive
  lagged Fibonacci generator kept in a circular buffer, refined here to the plain recurrence.
\<close>

section \<open>rand\<close>

definition rand_next :: "64 word \<Rightarrow> 64 word" where
  "rand_next next = next * 6364136223846793005 + 1"

definition RAND_MAX :: "64 word" where
  "RAND_MAX = 2147483647"

definition rand :: "64 word \<Rightarrow> int \<times> 64 word" where
  "rand next = (let next = rand_next next in
     (sint (ucast (drop_bit 32 next AND RAND_MAX) :: 32 word), next))"

definition srand :: "32 word \<Rightarrow> 64 word" where
  "srand seed = ucast seed"

section \<open>The rand48 family\<close>

type_synonym state48 = "16 word \<times> 16 word \<times> 16 word"

record rand48 =
  internal_state :: state48
  multiplier0 :: "16 word"
  multiplier1 :: "16 word"
  multiplier2 :: "16 word"
  additiver :: "16 word"

definition RAND48_MULT0 :: "16 word" where "RAND48_MULT0 = 0xe66d"

definition RAND48_MULT1 :: "16 word" where "RAND48_MULT1 = 0xdeec"

definition RAND48_MULT2 :: "16 word" where "RAND48_MULT2 = 0x0005"

definition RAND48_ADD :: "16 word" where "RAND48_ADD = 0x000b"

definition rand48_init :: rand48 where
  "rand48_init = \<lparr>internal_state = (1, 0, 0), multiplier0 = RAND48_MULT0, multiplier1 = RAND48_MULT1,
     multiplier2 = RAND48_MULT2, additiver = RAND48_ADD\<rparr>"

text \<open>The promotions: a product of two \<^verbatim>\<open>unsigned short\<close> values is an \<^verbatim>\<open>int\<close> that wraps at 32 bits.\<close>

definition mul16 :: "16 word \<Rightarrow> 16 word \<Rightarrow> 32 word" where
  "mul16 a b = ucast a * ucast b"

definition next48 :: "rand48 \<Rightarrow> state48 \<Rightarrow> state48" where
  "next48 g s = (case s of (s0, s1, s2) \<Rightarrow>
     let tmp = mul16 s0 (multiplier0 g) + ucast (additiver g);
         n0 = ucast (tmp AND 0xffff);
         tmp = drop_bit 16 tmp + mul16 s0 (multiplier1 g) + mul16 s1 (multiplier0 g);
         n1 = ucast (tmp AND 0xffff);
         tmp = drop_bit 16 tmp + mul16 s0 (multiplier2 g) + mul16 s1 (multiplier1 g) + mul16 s2 (multiplier0 g);
         n2 = ucast (tmp AND 0xffff) in
     (n0, n1, n2))"

text \<open>
  Each generator is a function of the caller's three words; the \<open>d\<close>-, \<open>l\<close>- and \<open>m\<close>-variants use the internal
  ones. The quotient that \<^verbatim>\<open>erand48\<close> returns is exact in a \<^verbatim>\<open>double\<close>, as 48 bits fit its mantissa.
\<close>

definition erand48 :: "rand48 \<Rightarrow> state48 \<Rightarrow> rat \<times> state48" where
  "erand48 g s = (let s = next48 g s in case s of (s0, s1, s2) \<Rightarrow>
     (of_int (sint (ucast s0 OR push_bit 16 (ucast s1) OR push_bit 32 (ucast s2) :: 64 word)) / 2 ^ 48, s))"

definition nrand48 :: "rand48 \<Rightarrow> state48 \<Rightarrow> 32 word \<times> state48" where
  "nrand48 g s = (let s = next48 g s in case s of (s0, s1, s2) \<Rightarrow>
     (ucast s2 * 0x8000 + drop_bit 1 (ucast s1), s))"

definition jrand48 :: "rand48 \<Rightarrow> state48 \<Rightarrow> int \<times> state48" where
  "jrand48 g s = (let s = next48 g s in case s of (s0, s1, s2) \<Rightarrow>
     (if s2 AND 0x8000 \<noteq> 0 then - uint (s2 AND 0x7fff) * 0x10000 + uint s1
      else uint (s2 AND 0x7fff) * 0x10000 + uint s1, s))"

definition drand48 :: "rand48 \<Rightarrow> rat \<times> rand48" where
  "drand48 g = (case erand48 g (internal_state g) of (r, s) \<Rightarrow> (r, g\<lparr>internal_state := s\<rparr>))"

definition lrand48 :: "rand48 \<Rightarrow> 32 word \<times> rand48" where
  "lrand48 g = (case nrand48 g (internal_state g) of (r, s) \<Rightarrow> (r, g\<lparr>internal_state := s\<rparr>))"

definition mrand48 :: "rand48 \<Rightarrow> int \<times> rand48" where
  "mrand48 g = (case jrand48 g (internal_state g) of (r, s) \<Rightarrow> (r, g\<lparr>internal_state := s\<rparr>))"

definition srand48 :: "rand48 \<Rightarrow> 32 word \<Rightarrow> rand48" where
  "srand48 g seedval = g\<lparr>
     multiplier0 := RAND48_MULT0, multiplier1 := RAND48_MULT1, multiplier2 := RAND48_MULT2, additiver := RAND48_ADD,
     internal_state := (0x330e, ucast (seedval AND 0xffff), ucast (signed_drop_bit 16 seedval AND 0xffff))\<rparr>"

definition seed48 :: "rand48 \<Rightarrow> state48 \<Rightarrow> state48 \<times> rand48" where
  "seed48 g state_seed = (internal_state g, g\<lparr>
     multiplier0 := RAND48_MULT0, multiplier1 := RAND48_MULT1, multiplier2 := RAND48_MULT2, additiver := RAND48_ADD,
     internal_state := state_seed\<rparr>)"

definition lcong48 :: "16 word list \<Rightarrow> rand48" where
  "lcong48 param = \<lparr>internal_state = (param ! 0, param ! 1, param ! 2),
     multiplier0 = param ! 3, multiplier1 = param ! 4, multiplier2 = param ! 5, additiver = param ! 6\<rparr>"

section \<open>Linear congruential generators\<close>

text \<open>
  A step function that acts on the value \<open>v\<close> of its state as \<open>x \<mapsto> a x + c\<close> modulo \<open>2 ^ w\<close>, where \<open>a\<close> is 1 modulo 4
  and \<open>c\<close> is odd.
\<close>

locale lcg =
  fixes step :: "'s \<Rightarrow> 's" and v :: "'s \<Rightarrow> int" and a c :: int and w :: nat
  assumes v_step: "v (step s) = (a * v s + c) mod 2 ^ w"
    and v_range: "0 \<le> v s \<and> v s < 2 ^ w"
    and v_inj: "v s = v t \<Longrightarrow> s = t"
    and a_mod_4: "a mod 4 = 1"
    and c_odd: "odd c"
begin

primrec geo :: "nat \<Rightarrow> int" where
  "geo 0 = 0"
| "geo (Suc k) = a * geo k + 1"

lemma v_iterate: "v ((step ^^ k) s) mod 2 ^ w = (a ^ k * v s + c * geo k) mod 2 ^ w"
proof (induction k)
  case (Suc k)
  have "v ((step ^^ Suc k) s) mod 2 ^ w = (a * (v ((step ^^ k) s) mod 2 ^ w) + c) mod 2 ^ w"
    by (simp add: v_step) (metis mod_add_left_eq mod_mult_right_eq)
  also have "\<dots> = (a * (a ^ k * v s + c * geo k) + c) mod 2 ^ w"
    unfolding Suc by (metis mod_add_left_eq mod_mult_right_eq)
  also have "a * (a ^ k * v s + c * geo k) + c = a ^ Suc k * v s + c * geo (Suc k)"
    by (simp add: algebra_simps)
  finally show ?case .
qed simp

lemma geo_power: "(a - 1) * geo k = a ^ k - 1"
  by (induction k) (simp_all add: algebra_simps)

lemma geo_add: "geo (m + n) = a ^ n * geo m + geo n"
  by (induction n) (simp_all add: algebra_simps)

lemma a_odd: "odd a"
  using a_mod_4 by presburger

lemma geo_parity: "odd (geo k) \<longleftrightarrow> odd k"
  by (induction k) (use a_odd in simp_all)

lemma power_mod_4: "a ^ k mod 4 = 1"
  using power_mod [of a 4 k] a_mod_4 by simp

lemma geo_dvd: "2 ^ n dvd geo k \<longleftrightarrow> 2 ^ n dvd k"
proof (induction n arbitrary: k)
  case (Suc n)
  show ?case
  proof (cases "even k")
    case False
    then have "odd (geo k)" by (simp add: geo_parity)
    then show ?thesis using False by (metis dvd_trans dvd_triv_left power_Suc)
  next
    case True
    then obtain j where k: "k = j + j" by (metis dvdE mult_2)
    obtain u where u: "a ^ j + 1 = 2 * u" "odd u"
    proof -
      have "(a ^ j + 1) mod 4 = 2" using power_mod_4 [of j] by presburger
      then have "a ^ j + 1 = 2 * ((a ^ j + 1) div 2)" "odd ((a ^ j + 1) div 2)" by presburger+
      then show ?thesis using that by blast
    qed
    have "geo k = (a ^ j + 1) * geo j" using geo_add [of j j] k by (simp add: algebra_simps)
    then have "geo k = 2 * (u * geo j)" unfolding u(1) by simp
    then have "2 ^ Suc n dvd geo k \<longleftrightarrow> 2 ^ n dvd u * geo j" by simp
    also have "\<dots> \<longleftrightarrow> 2 ^ n dvd geo j"
      using u(2) by (intro coprime_dvd_mult_right_iff) (simp add: coprime_commute)
    also have "\<dots> \<longleftrightarrow> 2 ^ Suc n dvd k" using Suc [of j] k by (simp flip: mult_2)
    finally show ?thesis .
  qed
qed simp

lemma full_period: "(step ^^ k) s = s \<longleftrightarrow> 2 ^ w dvd k"
proof -
  have "(step ^^ k) s = s \<longleftrightarrow> v ((step ^^ k) s) mod 2 ^ w = v s mod 2 ^ w"
    using v_inj v_range by auto
  also have "\<dots> \<longleftrightarrow> 2 ^ w dvd (a ^ k * v s + c * geo k) - v s"
    by (simp add: v_iterate mod_eq_dvd_iff)
  also have "(a ^ k * v s + c * geo k) - v s = (a ^ k - 1) * v s + c * geo k"
    by (simp add: algebra_simps)
  also have "\<dots> = ((a - 1) * v s + c) * geo k"
    by (simp add: geo_power [of k, symmetric] algebra_simps)
  also have "2 ^ w dvd \<dots> \<longleftrightarrow> 2 ^ w dvd geo k"
    using a_odd c_odd by (intro coprime_dvd_mult_right_iff) (simp add: coprime_commute)
  finally show ?thesis by (simp add: geo_dvd)
qed

lemma iterates_inj: "inj_on (\<lambda>k. v ((step ^^ k) s)) {..<2 ^ w}"
proof (rule linorder_inj_onI')
  fix i j :: nat
  assume ij: "i \<in> {..<2 ^ w}" "j \<in> {..<2 ^ w}" "i < j"
  have "(step ^^ j) s = (step ^^ (j - i)) ((step ^^ i) s)"
    using ij(3) by (simp flip: funpow_add [unfolded comp_def, THEN fun_cong])
  moreover have "\<not> 2 ^ w dvd j - i" using ij by (intro nat_dvd_not_less) auto
  ultimately have "(step ^^ j) s \<noteq> (step ^^ i) s" using full_period by simp
  then show "v ((step ^^ i) s) \<noteq> v ((step ^^ j) s)" using v_inj by metis
qed

lemma every_value: 
  assumes "0 \<le> x" "x < 2 ^ w"
  shows "\<exists>k < 2 ^ w. v ((step ^^ k) s) = x"
proof -
  let ?f = "\<lambda>k. v ((step ^^ k) s)"
  have "card (?f ` {..<2 ^ w}) = card {0 ..< 2 ^ w :: int}"
    by (simp add: card_image iterates_inj nat_power_eq)
  moreover have "?f ` {..<2 ^ w} \<subseteq> {0 ..< 2 ^ w}" using v_range by auto
  ultimately have "?f ` {..<2 ^ w} = {0 ..< 2 ^ w}" by (simp add: card_subset_eq)
  then show ?thesis using assms by (auto simp: image_iff dest!: equalityD2 [THEN subsetD, of _ _ x])
qed

end

section \<open>The two congruential families\<close>

definition val48 :: "state48 \<Rightarrow> int" where
  "val48 s = (case s of (s0, s1, s2) \<Rightarrow> uint s0 + 2 ^ 16 * uint s1 + 2 ^ 32 * uint s2)"

definition mult48 :: "rand48 \<Rightarrow> int" where
  "mult48 g = val48 (multiplier0 g, multiplier1 g, multiplier2 g)"

text \<open>Three base-\<open>B\<close> digits of a sum of products, computed digit by digit with the carries kept modulo \<open>B ^ 2\<close>.\<close>

lemma digits3:
  fixes B t y1 y2 :: int
  assumes "0 < B"
  shows "t mod B + B * ((t div B + y1) mod B) + B * B * (((t div B + y1) mod (B * B) div B + y2) mod B)
    = (t + B * y1 + B * B * y2) mod (B * (B * B))"
proof -
  let ?S = "t + B * y1 + B * B * y2" let ?t1 = "t div B + y1"
  have "?S mod B = t mod B" by (simp add: mult.assoc)
  moreover have "?S div B = ?t1 + B * y2"
  proof -
    have S: "?S = t + B * (y1 + B * y2)" by (simp add: algebra_simps)
    have "(t + B * (y1 + B * y2)) div B = y1 + B * y2 + t div B" using assms by simp
    then show ?thesis unfolding S by simp
  qed
  moreover have "(?t1 + B * y2) mod (B * B) = B * ((?t1 div B + y2) mod B) + ?t1 mod B"
    using assms by (subst zmod_zmult2_eq) (simp_all add: add.commute)
  moreover have "(?t1 mod (B * B) div B + y2) mod B = (?t1 div B + y2) mod B"
    using assms by (subst zmod_zmult2_eq) (simp_all add: mod_simps)
  ultimately show ?thesis
    using assms zmod_zmult2_eq [of "B * B" ?S B] by (simp add: algebra_simps)
qed

lemma uint_ucast_16: "uint (ucast (x :: 16 word) :: 32 word) = uint x"
  by (simp add: uint_up_ucast is_up)

lemma uint_low16: "uint (ucast ((t :: 32 word) AND 0xffff) :: 16 word) = uint t mod 2 ^ 16"
proof -
  have "t AND 0xffff = take_bit 16 t" by (simp add: take_bit_eq_mask mask_eq_exp_minus_1)
  then have "uint (ucast (t AND 0xffff) :: 16 word) = take_bit 16 (take_bit 16 (uint t))"
    by (simp only: unsigned_ucast_eq unsigned_take_bit_eq) simp
  then show ?thesis by (simp add: take_bit_eq_mod)
qed

lemma uint_high16: "uint (drop_bit 16 (t :: 32 word)) = uint t div 2 ^ 16"
  by (simp add: drop_bit_eq_div uint_div)

lemma uint_16_range: "0 \<le> uint (x :: 16 word) \<and> uint x \<le> 65535"
  using uint_bounded [of x] by simp

lemma uint_mul16: "uint (mul16 a b) = uint a * uint b mod 2 ^ 32"
  by (simp add: mul16_def uint_word_ariths uint_ucast_16)

lemma val48_next: "val48 (next48 g s) = (mult48 g * val48 s + uint (additiver g)) mod 2 ^ 48"
proof -
  obtain s0 s1 s2 where s: "s = (s0, s1, s2)" by (cases s)
  define x0 x1 x2 where "x0 = uint s0" "x1 = uint s1" "x2 = uint s2"
  define m0 m1 m2 c where "m0 = uint (multiplier0 g)" "m1 = uint (multiplier1 g)" "m2 = uint (multiplier2 g)"
    "c = uint (additiver g)"
  note defs = x0_x1_x2_def m0_m1_m2_c_def
  let ?B = "2 ^ 16 :: int"
  let ?t0 = "x0 * m0 + c" let ?y1 = "x0 * m1 + x1 * m0" let ?y2 = "x0 * m2 + x1 * m1 + x2 * m0"
  have "x0 * m0 \<le> 65535 * 65535"
    unfolding defs using uint_16_range by (intro mult_mono) auto
  moreover have "0 \<le> x0 * m0" "0 \<le> c" "c \<le> 65535"
    unfolding defs using uint_16_range by auto
  ultimately have t0: "uint (mul16 s0 (multiplier0 g) + ucast (additiver g)) = ?t0"
    by (simp add: uint_word_ariths uint_mul16 uint_ucast_16 flip: defs)
  let ?T1 = "drop_bit 16 (mul16 s0 (multiplier0 g) + ucast (additiver g)) + mul16 s0 (multiplier1 g) + mul16 s1 (multiplier0 g)"
  have t1: "uint ?T1 = (?t0 div ?B + ?y1) mod (?B * ?B)"
    by (simp only: uint_word_ariths(1) [of "_ + _"] uint_word_ariths(1) [of "drop_bit _ _"] uint_high16 t0)
      (simp add: uint_mul16 mod_simps add.assoc flip: defs)
  let ?T2 = "drop_bit 16 ?T1 + mul16 s0 (multiplier2 g) + mul16 s1 (multiplier1 g) + mul16 s2 (multiplier0 g)"
  have t2: "uint ?T2 = ((?t0 div ?B + ?y1) mod (?B * ?B) div ?B + ?y2) mod (?B * ?B)"
    by (simp only: uint_word_ariths(1) [of "_ + _"] uint_word_ariths(1) [of "drop_bit _ _"] uint_high16 t0)
      (simp add: uint_mul16 mod_simps add.assoc t0 flip: defs)
  have "val48 (next48 g s) = ?t0 mod ?B + ?B * (uint ?T1 mod ?B) + ?B * ?B * (uint ?T2 mod ?B)"
    by (simp add: val48_def next48_def s Let_def uint_low16 t0)
  also have "\<dots> = ?t0 mod ?B + ?B * ((?t0 div ?B + ?y1) mod ?B)
      + ?B * ?B * (((?t0 div ?B + ?y1) mod (?B * ?B) div ?B + ?y2) mod ?B)"
    by (simp only: t1 t2 mod_mod_cancel dvd_triv_left)
  also have "\<dots> = (?t0 + ?B * ?y1 + ?B * ?B * ?y2) mod (?B * (?B * ?B))" by (rule digits3) simp
  also have "\<dots> = (?t0 + ?B * ?y1 + ?B * ?B * ?y2 + (?B * (?B * ?B)) * (x1 * m2 + x2 * m1 + ?B * (x2 * m2))) mod (?B * (?B * ?B))"
    by (simp only: mod_mult_self2)
  also have "\<dots> = (mult48 g * val48 s + c) mod 2 ^ 48"
    by (rule arg_cong2 [where f = "(mod)"]) (simp_all add: mult48_def val48_def s algebra_simps flip: defs)
  finally show ?thesis by (simp only: m0_m1_m2_c_def)
qed


interpretation rand_gen: lcg rand_next uint 6364136223846793005 1 64
proof unfold_locales
  show "uint (rand_next s) = (6364136223846793005 * uint s + 1) mod 2 ^ 64" for s
    by (simp add: rand_next_def uint_word_ariths mod_simps mult.commute)
  show "0 \<le> uint s \<and> uint s < 2 ^ 64" for s :: "64 word"
    using uint_bounded [of s] by simp
qed (simp_all add: word_uint_eq_iff)

text \<open>The generator with the default multipliers, whatever its internal state is.\<close>

abbreviation next48_default :: "state48 \<Rightarrow> state48" where
  "next48_default \<equiv> next48 rand48_init"

lemma digit_split:
  fixes a b B :: int
  assumes "0 \<le> a" "a < B"
  shows "(a + B * b) div B = b" "(a + B * b) mod B = a"
  using assms by simp_all

lemma digits3_div:
  fixes a b c :: int
  assumes "0 \<le> a \<and> a \<le> 65535" "0 \<le> b \<and> b \<le> 65535"
  shows "(a + 65536 * b + 4294967296 * c) div 65536 = b + 65536 * c"
    "(a + 65536 * b + 4294967296 * c) div 131072 = c * 32768 + b div 2"
proof -
  have "a + 65536 * b + 4294967296 * c = a + 65536 * (b + 65536 * c)" by simp
  then show d: "(a + 65536 * b + 4294967296 * c) div 65536 = b + 65536 * c"
    using digit_split(1) [of a 65536 "b + 65536 * c"] assms(1) by simp
  have "(a + 65536 * b + 4294967296 * c) div (65536 * 2) = (b + 65536 * c) div 2"
    using d by (subst zdiv_zmult2_eq) simp_all
  also have "\<dots> = (b + 2 * (32768 * c)) div 2" by simp
  also have "\<dots> = c * 32768 + b div 2" by (subst div_mult_self2) simp_all
  finally show "(a + 65536 * b + 4294967296 * c) div 131072 = c * 32768 + b div 2" by simp
qed

lemma digits3_unique:
  fixes a b c x y z :: int
  assumes "a + 65536 * b + 4294967296 * c = x + 65536 * y + 4294967296 * z"
    "0 \<le> a \<and> a \<le> 65535" "0 \<le> b \<and> b \<le> 65535" "0 \<le> x \<and> x \<le> 65535" "0 \<le> y \<and> y \<le> 65535"
  shows "a = x \<and> b = y \<and> c = z"
proof -
  have "b + 65536 * c = y + 65536 * z" using digits3_div(1) assms by metis
  then have "b = y" "c = z"
    using digit_split [of b 65536 c] digit_split [of y 65536 z] assms(3,5) by simp_all
  then show ?thesis using assms(1) by simp
qed

lemma half_word:
  fixes c :: int
  assumes "0 \<le> c \<and> c \<le> 65535"
  shows "c div 32768 = (if c < 32768 then 0 else 1)" "c mod 32768 = (if c < 32768 then c else c - 32768)"
  using assms digit_split [of "c - 32768" 32768 1] by auto

lemma digits2_split:
  fixes b c :: int
  assumes "0 \<le> b \<and> b \<le> 65535" "0 \<le> c \<and> c \<le> 65535"
  shows "b + 65536 * c < 2147483648 \<longleftrightarrow> c < 32768" "(b + 65536 * c) mod 65536 = b" "(b + 65536 * c) div 65536 = c"
  using assms digit_split [of b 65536 c] by auto

lemma power_16: "(2 :: int) ^ 16 = 65536"
  by simp

lemma val48_inj: "val48 s = val48 t \<Longrightarrow> s = t"
proof -
  assume eq: "val48 s = val48 t"
  obtain s0 s1 s2 t0 t1 t2 where st: "s = (s0, s1, s2)" "t = (t0, t1, t2)" by (cases s, cases t)
  have "uint s0 = uint t0 \<and> uint s1 = uint t1 \<and> uint s2 = uint t2"
    using eq uint_16_range by (intro digits3_unique) (simp_all add: val48_def st)
  then show ?thesis by (simp add: st word_uint_eq_iff)
qed

lemma val48_range: "0 \<le> val48 s \<and> val48 s < 2 ^ 48"
proof -
  obtain s0 s1 s2 where s: "s = (s0, s1, s2)" by (cases s)
  show ?thesis
    using uint_16_range [of s0] uint_16_range [of s1] uint_16_range [of s2] by (simp add: val48_def s)
qed

interpretation rand48_gen: lcg next48_default val48 "0x5deece66d" 11 48
proof unfold_locales
  have "mult48 rand48_init = 0x5deece66d" "uint (additiver rand48_init) = 11"
    by (simp_all add: mult48_def val48_def rand48_init_def RAND48_MULT0_def RAND48_MULT1_def RAND48_MULT2_def RAND48_ADD_def)
  then show "val48 (next48_default s) = (0x5deece66d * val48 s + 11) mod 2 ^ 48" for s
    by (simp add: val48_next)
qed (use val48_range val48_inj in auto)

lemma word48:
  "sint (ucast s0 OR push_bit 16 (ucast s1) OR push_bit 32 (ucast s2) :: 64 word)
     = uint (s0 :: 16 word) + 65536 * uint (s1 :: 16 word) + 4294967296 * uint (s2 :: 16 word)"
proof -
  let ?a = "ucast s0 :: 64 word" let ?b = "push_bit 16 (ucast s1) :: 64 word" let ?c = "push_bit 32 (ucast s2) :: 64 word"
  have "?b AND ?c = 0" "?a AND (?b OR ?c) = 0"
    by (rule bit_word_eqI; auto simp: bit_simps dest: bit_imp_le_length)+
  then have "?a OR ?b OR ?c = ?a + (?b + ?c)" by (simp only: disjunctive_add_eq_or)
  moreover have "uint ?a = uint s0" "uint ?b = 65536 * uint s1" "uint ?c = 4294967296 * uint s2"
    using uint_16_range [of s1] uint_16_range [of s2]
    by (simp_all add: push_bit_eq_mult uint_word_ariths uint_up_ucast is_up)
  ultimately have "uint (?a OR ?b OR ?c) = uint s0 + 65536 * uint s1 + 4294967296 * uint s2"
    using uint_16_range [of s0] uint_16_range [of s1] uint_16_range [of s2] by (simp add: uint_word_ariths)
  moreover have "signed_take_bit 63 N = N" if "0 \<le> N" "N < 2 ^ 48" for N :: int
    using that by (intro signed_take_bit_int_eq_self) auto
  ultimately show ?thesis
    using val48_range [of "(s0, s1, s2)"] by (simp only: sint_uint) (simp add: val48_def)
qed

lemma top_bit:
  "(s2 AND 0x8000 = 0 \<longleftrightarrow> uint (s2 :: 16 word) < 32768) \<and> uint (s2 AND 0x7fff) = uint s2 mod 32768"
proof -
  have "s2 AND 0x8000 = 0 \<longleftrightarrow> \<not> odd (uint s2 div 32768)"
  proof -
    have "bit s2 15 \<longleftrightarrow> bit (uint s2) 15" by (simp add: bit_uint_iff)
    then show ?thesis using and_exp_eq_0_iff_not_bit [of s2 15] by (simp add: bit_iff_odd [of "uint s2"])
  qed
  moreover have "s2 AND 0x7fff = take_bit 15 s2" by (simp add: take_bit_eq_mask mask_eq_exp_minus_1)
  then have "uint (s2 AND 0x7fff) = take_bit 15 (uint s2)" by (simp only: unsigned_take_bit_eq)
  ultimately show ?thesis using half_word [OF uint_16_range, of s2] by (simp add: take_bit_eq_mod)
qed

section \<open>Properties of the congruential generators\<close>

text \<open>
  C37. \<^verbatim>\<open>rand\<close> has full period: from any seed the 64-bit state returns to itself after exactly \<open>2 ^ 64\<close>
  calls and visits every value on the way; every result lies between 0 and \<^verbatim>\<open>RAND_MAX\<close> and is bits 32 to 62
  of the new state.
\<close>

theorem rand_full_period:
  "((rand_next ^^ k) next = next \<longleftrightarrow> 2 ^ 64 dvd k)
   \<and> (\<exists>j < 2 ^ 64. (rand_next ^^ j) next = x)
   \<and> (\<exists>i. rand next = (i, rand_next next) \<and> 0 \<le> i \<and> i \<le> 2147483647 \<and> i = uint (rand_next next) div 2 ^ 32 mod 2 ^ 31)"
proof (intro conjI)
  show "(rand_next ^^ k) next = next \<longleftrightarrow> 2 ^ 64 dvd k" by (rule rand_gen.full_period)
  show "\<exists>j < 2 ^ 64. (rand_next ^^ j) next = x"
    using rand_gen.every_value [of "uint x" "next"] rand_gen.v_range [of x] rand_gen.v_inj by metis
  let ?n = "rand_next next"
  have "uint (drop_bit 32 ?n AND RAND_MAX) = uint ?n div 2 ^ 32 mod 2 ^ 31"
  proof -
    have "drop_bit 32 ?n AND RAND_MAX = take_bit 31 (drop_bit 32 ?n)"
      by (simp add: RAND_MAX_def take_bit_eq_mask mask_eq_exp_minus_1)
    then have "uint (drop_bit 32 ?n AND RAND_MAX) = take_bit 31 (uint (drop_bit 32 ?n))"
      by (simp only: unsigned_take_bit_eq)
    then show ?thesis by (simp add: take_bit_eq_mod drop_bit_eq_div uint_div)
  qed
  then have "sint (ucast (drop_bit 32 ?n AND RAND_MAX) :: 32 word) = uint ?n div 2 ^ 32 mod 2 ^ 31"
    by (simp only: sint_uint unsigned_ucast_eq) (simp add: take_bit_int_eq_self signed_take_bit_int_eq_self)
  then show "\<exists>i. rand next = (i, ?n) \<and> 0 \<le> i \<and> i \<le> 2147483647 \<and> i = uint ?n div 2 ^ 32 mod 2 ^ 31"
    by (simp add: rand_def Let_def)
qed

text \<open>
  The \<^verbatim>\<open>rand48\<close> step multiplies and adds modulo \<open>2 ^ 48\<close> although it computes with 32-bit carries that
  wrap; with the default multipliers every generator of the family has period exactly \<open>2 ^ 48\<close>;
  \<^verbatim>\<open>erand48\<close> and \<^verbatim>\<open>nrand48\<close> return the leading bits of the state as documented, while \<^verbatim>\<open>jrand48\<close>
  does so only for a clear top bit: for a set one it negates the low 15 bits of the top word instead of
  reading the word as a signed one.
\<close>

theorem rand48_correct:
  "val48 (next48 g s) = (mult48 g * val48 s + uint (additiver g)) mod 2 ^ 48
   \<and> ((next48 rand48_init ^^ k) s = s \<longleftrightarrow> 2 ^ 48 dvd k)
   \<and> erand48 g s = (of_int (val48 (next48 g s)) / 2 ^ 48, next48 g s)
   \<and> (\<exists>r. nrand48 g s = (r, next48 g s) \<and> uint r = val48 (next48 g s) div 2 ^ 17)
   \<and> (let y = val48 (next48 g s) div 2 ^ 16 in
      jrand48 g s = (if y < 2 ^ 31 then y else y mod 2 ^ 16 - (y div 2 ^ 16 - 2 ^ 15) * 2 ^ 16, next48 g s))"
proof (intro conjI)
  obtain n0 n1 n2 where n: "next48 g s = (n0, n1, n2)" by (cases "next48 g s")
  note r = uint_16_range [of n0] uint_16_range [of n1] uint_16_range [of n2]
  show "erand48 g s = (of_int (val48 (next48 g s)) / 2 ^ 48, next48 g s)"
    by (simp only: erand48_def n Let_def prod.case word48 val48_def) simp
  let ?N = "val48 (next48 g s)"
  have N: "?N div 131072 = uint n2 * 32768 + uint n1 div 2" "?N div 65536 = uint n1 + 65536 * uint n2"
    using digits3_div [OF r(1,2)] by (simp_all add: n val48_def)
  have "uint (ucast n2 * 0x8000 + drop_bit 1 (ucast n1) :: 32 word) = ?N div 2 ^ 17"
    using r N(1) by (simp add: uint_word_ariths uint_ucast_16 drop_bit_eq_div uint_div)
  then show "\<exists>r. nrand48 g s = (r, next48 g s) \<and> uint r = val48 (next48 g s) div 2 ^ 17"
    by (simp add: nrand48_def n)
  show "let y = val48 (next48 g s) div 2 ^ 16 in
      jrand48 g s = (if y < 2 ^ 31 then y else y mod 2 ^ 16 - (y div 2 ^ 16 - 2 ^ 15) * 2 ^ 16, next48 g s)"
    using top_bit [of n2] digits2_split [OF r(2,3)] half_word [OF r(3)] unfolding Let_def power_16 N(2)
    by (simp add: jrand48_def n)
qed (simp_all only: val48_next rand48_gen.full_period)

end
