(* ===== verification/Random_State.thy ===== *)
theory Random_State
  imports Prelude "HOL-Library.Signed_Division"
begin

text \<open>
  \<^verbatim>\<open>compat/stdlib/random.c\<close>: an additive lagged Fibonacci generator in a circular buffer, whose state array the
  caller may replace. The arrays live in a memory of \<^verbatim>\<open>long\<close>s and the static variables of the file are the
  fields of a record. The circular buffer with its two pointers is refined to the plain recurrence, and
  switching arrays with \<^verbatim>\<open>initstate\<close> and \<^verbatim>\<open>setstate\<close> is shown to lose nothing.
\<close>

section \<open>State\<close>

type_synonym lmem = "32 word list"

record rng =
  tbl :: lmem
  fptr :: int
  rptr :: int
  state_p :: int
  rand_type :: int
  rand_deg :: int
  rand_sep :: int
  end_ptr :: int

definition lrd :: "lmem \<Rightarrow> int \<Rightarrow> 32 word option" where
  "lrd m p = (if 0 \<le> p \<and> p < int (length m) then Some (m ! nat p) else None)"

definition lwr :: "lmem \<Rightarrow> int \<Rightarrow> 32 word \<Rightarrow> lmem option" where
  "lwr m p x = (if 0 \<le> p \<and> p < int (length m) then Some (m[nat p := x]) else None)"

definition degrees :: "int list" where
  "degrees = [0, 7, 15, 31, 63]"

definition seps :: "int list" where
  "seps = [0, 3, 1, 3, 1]"

definition MAX_TYPES :: int where
  "MAX_TYPES = 5"

definition randtbl :: lmem where
  "randtbl = [3,
     0x9a319039, 0x32d9c024, 0x9b663182, 0x5da1f342, 0xde3b81e0, 0xdf0a6fb5, 0xf103bc02, 0x48f340fb,
     0x7449e56b, 0xbeb1dbb0, 0xab5c5918, 0x946554fd, 0x8c2e680f, 0xeb3d799f, 0xb11ee0b7, 0x2d436b86,
     0xda672e2a, 0x1588ca88, 0xe369735d, 0x904f35f7, 0xd7158fd6, 0x6fa6f051, 0x616e6b96, 0xac94efdc,
     0x36413f93, 0xc622c298, 0xf5a42ab8, 0x8a88d77b, 0xf5ad9d0e, 0x8999220b, 0x27fb47b9]"

text \<open>The initial values of the static variables; \<open>rest\<close> is the memory behind \<^verbatim>\<open>randtbl\<close>.\<close>

definition rng_init :: "lmem \<Rightarrow> rng" where
  "rng_init rest = \<lparr>tbl = randtbl @ rest, fptr = 3 + 1, rptr = 1, state_p = 1, rand_type = 3, rand_deg = 31,
     rand_sep = 3, end_ptr = 31 + 1\<rparr>"

section \<open>Operations\<close>

definition random :: "rng \<Rightarrow> (32 word \<times> rng) option" where
  "random s =
     (if rand_type s = 0 then
        do { x \<leftarrow> lrd (tbl s) (state_p s);
             let i = (x * 1103515245 + 12345) AND 0x7fffffff;
             m \<leftarrow> lwr (tbl s) (state_p s) i;
             Some (i, s\<lparr>tbl := m\<rparr>) }
      else
        do { x \<leftarrow> lrd (tbl s) (fptr s);
             y \<leftarrow> lrd (tbl s) (rptr s);
             m \<leftarrow> lwr (tbl s) (fptr s) (x + y);
             let i = signed_drop_bit 1 (x + y) AND 0x7fffffff;
             let f = fptr s + 1;
             let r = rptr s + 1;
             if end_ptr s \<le> f then Some (i, s\<lparr>tbl := m, fptr := state_p s, rptr := r\<rparr>)
             else if end_ptr s \<le> r then Some (i, s\<lparr>tbl := m, fptr := f, rptr := state_p s\<rparr>)
             else Some (i, s\<lparr>tbl := m, fptr := f, rptr := r\<rparr>) })"

text \<open>\<^verbatim>\<open>for (i = 1; i < rand_deg; i++)\<close>: \<open>n\<close> counts the turns left.\<close>

fun srandom_fill :: "nat \<Rightarrow> lmem \<Rightarrow> int \<Rightarrow> lmem option" where
  "srandom_fill 0 m p = Some m"
| "srandom_fill (Suc n) m p =
     do { x \<leftarrow> lrd m (p - 1);
          m \<leftarrow> lwr m p (1103515245 * x + 12345);
          srandom_fill n m (p + 1) }"

fun random_n :: "nat \<Rightarrow> rng \<Rightarrow> rng option" where
  "random_n 0 s = Some s"
| "random_n (Suc n) s = do { (i, s) \<leftarrow> random s; random_n n s }"

definition srandom :: "32 word \<Rightarrow> rng \<Rightarrow> rng option" where
  "srandom x s =
     (if rand_type s = 0 then do { m \<leftarrow> lwr (tbl s) (state_p s) x; Some (s\<lparr>tbl := m\<rparr>) }
      else do { m \<leftarrow> lwr (tbl s) (state_p s) x;
                m \<leftarrow> srandom_fill (nat (rand_deg s - 1)) m (state_p s + 1);
                random_n (nat (10 * rand_deg s)) (s\<lparr>tbl := m, fptr := state_p s + rand_sep s, rptr := state_p s\<rparr>) })"

text \<open>\<^verbatim>\<open>state[-1] = ...\<close>: the type and the place of the rear pointer go in front of the array.\<close>

definition save_position :: "rng \<Rightarrow> rng option" where
  "save_position s =
     do { m \<leftarrow> lwr (tbl s) (state_p s - 1)
                (if rand_type s = 0 then word_of_int (rand_type s)
                 else word_of_int (MAX_TYPES * (rptr s - state_p s) + rand_type s));
          Some (s\<lparr>tbl := m\<rparr>) }"

definition choose_type :: "int \<Rightarrow> int" where
  "choose_type n = (if n < 32 then 0 else if n < 64 then 1 else if n < 128 then 2 else if n < 256 then 3 else 4)"

text \<open>The second component is the returned pointer, \<^term>\<open>None\<close> for the null pointer.\<close>

definition initstate :: "32 word \<Rightarrow> int \<Rightarrow> int \<Rightarrow> rng \<Rightarrow> (rng \<times> int option) option" where
  "initstate seed arg_state n s =
     do { let ostate = state_p s - 1;
          s \<leftarrow> save_position s;
          if n < 8 then Some (s, None)
          else do {
            let t = choose_type n;
            let s = s\<lparr>rand_type := t, rand_deg := degrees ! nat t, rand_sep := seps ! nat t\<rparr>;
            let s = s\<lparr>state_p := arg_state + 1, end_ptr := arg_state + 1 + rand_deg s\<rparr>;
            s \<leftarrow> srandom seed s;
            s \<leftarrow> save_position s;
            Some (s, Some ostate) } }"

definition setstate :: "int \<Rightarrow> rng \<Rightarrow> (rng \<times> int option) option" where
  "setstate arg_state s =
     do { x \<leftarrow> lrd (tbl s) arg_state;
          let t = sint x smod MAX_TYPES;
          let rear = sint x sdiv MAX_TYPES;
          let ostate = state_p s - 1;
          s \<leftarrow> save_position s;
          let s = (if 0 \<le> t \<and> t \<le> 4
                   then s\<lparr>rand_type := t, rand_deg := degrees ! nat t, rand_sep := seps ! nat t\<rparr> else s);
          let s = s\<lparr>state_p := arg_state + 1\<rparr>;
          let s = (if rand_type s \<noteq> 0
                   then s\<lparr>rptr := state_p s + rear,
                          fptr := state_p s + (rear + rand_sep s) smod rand_deg s\<rparr> else s);
          Some (s\<lparr>end_ptr := state_p s + rand_deg s\<rparr>, Some ostate) }"

section \<open>Abstract generator\<close>

text \<open>
  The last \<open>deg\<close> numbers, oldest first; the next one is the sum of the oldest and of the one \<open>sep\<close> places
  before the end: \<open>x\<^sub>n = x\<^sub>n\<^sub>-\<^sub>d\<^sub>e\<^sub>g + x\<^sub>n\<^sub>-\<^sub>s\<^sub>e\<^sub>p\<close>.
\<close>

definition alf_step :: "nat \<Rightarrow> 32 word list \<Rightarrow> 32 word list" where
  "alf_step sep xs = tl xs @ [hd xs + xs ! (length xs - sep)]"

definition arr :: "rng \<Rightarrow> 32 word list" where
  "arr s = take (nat (rand_deg s)) (drop (nat (state_p s)) (tbl s))"

definition hist :: "rng \<Rightarrow> 32 word list" where
  "hist s = rotate (nat (fptr s - state_p s)) (arr s)"

definition rng_ok :: "rng \<Rightarrow> bool" where
  "rng_ok s \<longleftrightarrow> 0 \<le> rand_type s \<and> rand_type s \<le> 4
     \<and> rand_deg s = degrees ! nat (rand_type s) \<and> rand_sep s = seps ! nat (rand_type s)
     \<and> 1 \<le> state_p s \<and> state_p s + max 1 (rand_deg s) \<le> int (length (tbl s))
     \<and> end_ptr s = state_p s + rand_deg s
     \<and> (rand_type s \<noteq> 0 \<longrightarrow> state_p s \<le> rptr s \<and> rptr s < end_ptr s
          \<and> fptr s = state_p s + (rptr s - state_p s + rand_sep s) mod rand_deg s)"

lemma deg_sep:
  assumes "0 \<le> t" "t \<le> 4" "t \<noteq> (0 :: int)"
  shows "1 \<le> seps ! nat t \<and> seps ! nat t < degrees ! nat t \<and> degrees ! nat t \<le> 63"
proof -
  have "t = 1 \<or> t = 2 \<or> t = 3 \<or> t = 4" using assms by auto
  then show ?thesis by (auto simp: seps_def degrees_def nat_numeral)
qed

lemma alf_lag:
  fixes d :: nat
  assumes "1 \<le> sep" "sep < d" "r < d" "f = (r + sep) mod d"
  shows "(f + (d - sep)) mod d = r"
proof (cases "r + sep < d")
  case True
  then have "f + (d - sep) = r + d" using assms by simp
  then show ?thesis using assms(3) by simp
next
  case False
  then have "f = r + sep - d" using assms by (simp add: mod_if [of "r + sep"])
  then have "f + (d - sep) = r" using False assms by simp
  then show ?thesis using assms(3) by simp
qed

lemma alf_last:
  assumes "length xs = d" "1 \<le> sep" "sep < d" "r < d" "f = (r + sep) mod d"
  shows "last (alf_step sep (rotate f xs)) = xs ! f + xs ! r"
proof -
  have "rotate f xs \<noteq> []" "f < d" using assms by auto
  then show ?thesis
    using assms(1-3) alf_lag [OF assms(2-5)] by (simp add: alf_step_def hd_conv_nth nth_rotate)
qed

lemma alf_rotate:
  assumes "length xs = d" "1 \<le> sep" "sep < d" "r < d" "f = (r + sep) mod d"
  shows "rotate (Suc f mod d) (xs[f := xs ! f + xs ! r]) = alf_step sep (rotate f xs)"
proof (rule nth_equalityI)
  have d: "0 < d" "f < d" using assms by auto
  note lag = alf_lag [OF assms(2-5)]
  have ne: "rotate f xs \<noteq> []" using assms(1) d by auto
  show "length (rotate (Suc f mod d) (xs[f := xs ! f + xs ! r])) = length (alf_step sep (rotate f xs))"
    using assms(1) d by (simp add: alf_step_def)
  fix i assume "i < length (rotate (Suc f mod d) (xs[f := xs ! f + xs ! r]))"
  then have i: "i < d" using assms(1) by simp
  have l: "rotate (Suc f mod d) (xs[f := xs ! f + xs ! r]) ! i = xs[f := xs ! f + xs ! r] ! ((Suc f + i) mod d)"
    using assms(1) i d by (simp add: nth_rotate mod_simps)
  show "rotate (Suc f mod d) (xs[f := xs ! f + xs ! r]) ! i = alf_step sep (rotate f xs) ! i"
  proof (cases "i = d - 1")
    case True
    then have e: "Suc f + i = f + d" using d by simp
    have "(Suc f + i) mod d = f" unfolding e using d by simp
    then show ?thesis unfolding l
      using True assms d lag ne by (simp add: alf_step_def nth_append hd_conv_nth nth_rotate)
  next
    case False
    then have "Suc i < d" "i < d - Suc 0" using i by simp_all
    moreover have "(f + Suc i) mod d \<noteq> f"
    proof (cases "f + Suc i < d")
      case False
      then have "(f + Suc i) mod d = (f + Suc i - d) mod d" by (simp add: le_mod_geq)
      also have "\<dots> = f + Suc i - d" using \<open>Suc i < d\<close> d by simp
      finally have e: "(f + Suc i) mod d = f + Suc i - d" .
      show ?thesis unfolding e using \<open>Suc i < d\<close> False by linarith
    qed simp
    ultimately show ?thesis unfolding l
      using assms(1) ne d by (simp add: alf_step_def nth_append nth_tl nth_rotate)
  qed
qed

text \<open>One call of \<^verbatim>\<open>random\<close> for a generator with state: both pointers advance cyclically.\<close>

definition stepped :: "rng \<Rightarrow> 32 word \<Rightarrow> rng" where
  "stepped s x = s\<lparr>tbl := (tbl s)[nat (fptr s) := x],
     fptr := state_p s + (fptr s - state_p s + 1) mod rand_deg s,
     rptr := state_p s + (rptr s - state_p s + 1) mod rand_deg s\<rparr>"

lemma half_drop: "signed_drop_bit 1 x AND 0x7fffffff = drop_bit 1 (x :: 32 word)"
proof -
  have "signed_drop_bit 1 x AND 0x7fffffff = take_bit 31 (signed_drop_bit 1 x)"
    by (simp add: take_bit_eq_mask mask_eq_exp_minus_1)
  also have "\<dots> = drop_bit 1 x"
    by (rule bit_word_eqI) (auto simp: bit_simps not_le min_def dest: bit_imp_le_length)
  finally show ?thesis .
qed

lemma random_stepped:
  assumes "rng_ok s" "rand_type s \<noteq> 0"
  defines "x \<equiv> tbl s ! nat (fptr s) + tbl s ! nat (rptr s)"
  shows "random s = Some (drop_bit 1 x, stepped s x)"
proof -
  define F R D where "F = fptr s - state_p s" "R = rptr s - state_p s" "D = rand_deg s"
  have sep: "1 \<le> rand_sep s" "rand_sep s < D" and R: "0 \<le> R" "R < D" and F: "F = (R + rand_sep s) mod D"
    and st: "1 \<le> state_p s" "state_p s + D \<le> int (length (tbl s))" "end_ptr s = state_p s + D"
    using assms(1,2) deg_sep [of "rand_type s"] by (auto simp: rng_ok_def F_R_D_def)
  then have F': "0 \<le> F" "F < D" by auto
  have ptrs: "fptr s = state_p s + F" "rptr s = state_p s + R" by (simp_all add: F_R_D_def)
  have rd: "lrd (tbl s) (fptr s) = Some (tbl s ! nat (fptr s))" "lrd (tbl s) (rptr s) = Some (tbl s ! nat (rptr s))"
    "lwr (tbl s) (fptr s) x = Some ((tbl s)[nat (fptr s) := x])"
    using F' R st ptrs by (auto simp: lrd_def lwr_def)
  consider "F + 1 < D" "R + 1 < D" | "F + 1 = D" | "F + 1 < D" "R + 1 = D" using F' R by linarith
  then show ?thesis
  proof cases
    case 1
    then show ?thesis
      using assms(2) rd F' R by (simp add: random_def half_drop [simplified] stepped_def st(3) ptrs x_def F_R_D_def(3) [symmetric])
  next
    case 2
    have "R + 1 < D"
    proof (cases "R + rand_sep s < D")
      case False
      then have "(R + rand_sep s) mod D = (R + rand_sep s - D) mod D"
        using R by (intro mod_pos_geq) auto
      also have "\<dots> = R + rand_sep s - D" using R sep False by (intro mod_pos_pos_trivial) auto
      finally have "(R + rand_sep s) mod D = R + rand_sep s - D" .
      then show ?thesis using 2 F R sep by linarith
    qed (use F 2 R sep in auto)
    then show ?thesis
      using assms(2) rd F' R 2 by (simp add: random_def half_drop [simplified] stepped_def st(3) ptrs x_def F_R_D_def(3) [symmetric])
  next
    case 3
    then show ?thesis
      using assms(2) rd F' R by (simp add: random_def half_drop [simplified] stepped_def st(3) ptrs x_def F_R_D_def(3) [symmetric])
  qed
qed

lemma stepped_ok:
  assumes "rng_ok s" "rand_type s \<noteq> 0"
  shows "rng_ok (stepped s x)"
proof -
  have D: "0 < rand_deg s" using assms deg_sep [of "rand_type s"] by (auto simp: rng_ok_def)
  have F: "fptr s - state_p s = (rptr s - state_p s + rand_sep s) mod rand_deg s"
    using assms by (auto simp: rng_ok_def)
  have "((rptr s - state_p s + 1) mod rand_deg s + rand_sep s) mod rand_deg s = (fptr s - state_p s + 1) mod rand_deg s"
    unfolding F by (simp add: mod_simps algebra_simps)
  then show ?thesis using assms D by (simp add: rng_ok_def stepped_def)
qed

lemma stepped_hist:
  assumes "rng_ok s" "rand_type s \<noteq> 0"
  shows "hist (stepped s (tbl s ! nat (fptr s) + tbl s ! nat (rptr s))) = alf_step (nat (rand_sep s)) (hist s)"
    "last (alf_step (nat (rand_sep s)) (hist s)) = tbl s ! nat (fptr s) + tbl s ! nat (rptr s)"
proof -
  define f r d st where "f = nat (fptr s - state_p s)" "r = nat (rptr s - state_p s)" "d = nat (rand_deg s)"
    "st = nat (state_p s)"
  have sep: "1 \<le> rand_sep s" "rand_sep s < rand_deg s"
    and R: "0 \<le> rptr s - state_p s" "rptr s - state_p s < rand_deg s"
    and F: "fptr s - state_p s = (rptr s - state_p s + rand_sep s) mod rand_deg s"
    and st: "1 \<le> state_p s" "state_p s + rand_deg s \<le> int (length (tbl s))"
    using assms deg_sep [of "rand_type s"] by (auto simp: rng_ok_def)
  have d: "0 < d" "r < d" "nat (rand_sep s) < d" "1 \<le> nat (rand_sep s)" using sep R by (auto simp: f_r_d_st_def)
  have f: "f = (r + nat (rand_sep s)) mod d"
    using sep R unfolding f_r_d_st_def F by (simp add: nat_mod_distrib nat_add_distrib)
  have len: "length (arr s) = d" using st by (simp add: arr_def f_r_d_st_def)
  have F0: "0 \<le> fptr s - state_p s" unfolding F using sep by simp
  have idx: "nat (fptr s) = st + f" "nat (rptr s) = st + r"
    using st(1) R F0 by (simp_all add: f_r_d_st_def)
  have at: "tbl s ! (st + i) = arr s ! i" if "i < d" for i
    using that st by (simp add: arr_def f_r_d_st_def)
  let ?x = "arr s ! f + arr s ! r"
  have "f < d" using f d by simp
  then have upd: "take d (drop st ((tbl s)[st + f := ?x])) = (arr s)[f := ?x]"
    using st by (simp add: arr_def f_r_d_st_def drop_update_swap take_update_swap)
  have nx: "nat ((fptr s - state_p s + 1) mod rand_deg s) = Suc f mod d"
    using F0 sep by (simp add: f_r_d_st_def nat_mod_distrib nat_add_distrib)
  have "hist (stepped s (tbl s ! nat (fptr s) + tbl s ! nat (rptr s))) = rotate (Suc f mod d) ((arr s)[f := ?x])"
    unfolding idx at [OF d(2)] at [OF \<open>f < d\<close>]
    using nx upd by (simp add: hist_def stepped_def arr_def [of "_\<lparr>tbl := _, fptr := _, rptr := _\<rparr>"] idx flip: f_r_d_st_def(3,4))
  then show "hist (stepped s (tbl s ! nat (fptr s) + tbl s ! nat (rptr s))) = alf_step (nat (rand_sep s)) (hist s)"
    using alf_rotate [OF len d(4,3,2) f] by (simp add: hist_def flip: f_r_d_st_def(1))
  show "last (alf_step (nat (rand_sep s)) (hist s)) = tbl s ! nat (fptr s) + tbl s ! nat (rptr s)"
    unfolding idx at [OF d(2)] at [OF \<open>f < d\<close>] using alf_last [OF len d(4,3,2) f]
    by (simp add: hist_def flip: f_r_d_st_def(1))
qed

section \<open>What each operation keeps\<close>

definition same_outside :: "int \<Rightarrow> int \<Rightarrow> lmem \<Rightarrow> lmem \<Rightarrow> bool" where
  "same_outside lo hi m m' \<longleftrightarrow> length m' = length m \<and> (\<forall>i. int i < lo \<or> hi \<le> int i \<longrightarrow> m' ! i = m ! i)"

definition kept :: "rng \<Rightarrow> rng \<Rightarrow> bool" where
  "kept s s' \<longleftrightarrow> state_p s' = state_p s \<and> rand_type s' = rand_type s \<and> rand_deg s' = rand_deg s
     \<and> rand_sep s' = rand_sep s \<and> end_ptr s' = end_ptr s
     \<and> same_outside (state_p s) (state_p s + max 1 (rand_deg s)) (tbl s) (tbl s')"

lemma same_outside_trans: "same_outside lo hi m m' \<Longrightarrow> same_outside lo hi m' m'' \<Longrightarrow> same_outside lo hi m m''"
  by (auto simp: same_outside_def)

lemma same_outside_upd: "lo \<le> p \<Longrightarrow> p < hi \<Longrightarrow> 0 \<le> p \<Longrightarrow> same_outside lo hi m (m[nat p := x])"
  by (auto simp: same_outside_def nth_list_update)

lemma same_outsideD: "same_outside lo hi m m' \<Longrightarrow> int i < lo \<or> hi \<le> int i \<Longrightarrow> m' ! i = m ! i"
  by (auto simp: same_outside_def)

lemma same_outside_mono: "same_outside lo hi m m' \<Longrightarrow> lo' \<le> lo \<Longrightarrow> hi \<le> hi' \<Longrightarrow> same_outside lo' hi' m m'"
  by (auto simp: same_outside_def)

lemma kept_refl: "kept s s"
  by (simp add: kept_def same_outside_def)

lemma kept_trans: "kept s s' \<Longrightarrow> kept s' s'' \<Longrightarrow> kept s s''"
  by (auto simp: kept_def intro: same_outside_trans)

lemma random_kept:
  assumes "rng_ok s"
  shows "\<exists>i s'. random s = Some (i, s') \<and> rng_ok s' \<and> kept s s' \<and> uint i < 2 ^ 31"
proof (cases "rand_type s = 0")
  case True
  let ?i = "(tbl s ! nat (state_p s) * 1103515245 + 12345) AND 0x7fffffff"
  have "?i = take_bit 31 (tbl s ! nat (state_p s) * 1103515245 + 12345)"
    by (simp add: take_bit_eq_mask mask_eq_exp_minus_1)
  then have "uint ?i = take_bit 31 (uint (tbl s ! nat (state_p s) * 1103515245 + 12345))"
    by (simp only: unsigned_take_bit_eq)
  then have i: "uint ?i < 2 ^ 31" by (simp add: take_bit_eq_mod)
  have "random s = Some (?i, s\<lparr>tbl := (tbl s)[nat (state_p s) := ?i]\<rparr>)"
    using assms True by (auto simp: random_def lrd_def lwr_def rng_ok_def Let_def)
  moreover have "kept s (s\<lparr>tbl := (tbl s)[nat (state_p s) := ?i]\<rparr>)"
    using assms by (auto simp: kept_def rng_ok_def intro!: same_outside_upd)
  ultimately show ?thesis using assms True i by (auto simp: rng_ok_def)
next
  case False
  let ?x = "tbl s ! nat (fptr s) + tbl s ! nat (rptr s)"
  have D: "0 < rand_deg s" using assms False deg_sep [of "rand_type s"] by (auto simp: rng_ok_def)
  then have "state_p s \<le> fptr s" "fptr s < state_p s + rand_deg s" "1 \<le> state_p s"
    using assms False by (auto simp: rng_ok_def)
  then have "kept s (stepped s ?x)"
    using D by (auto simp: kept_def stepped_def intro!: same_outside_upd)
  moreover have "uint (drop_bit 1 ?x) < 2 ^ 31"
    using uint_bounded [of ?x] by (simp add: drop_bit_eq_div uint_div)
  ultimately show ?thesis
    using random_stepped [OF assms False] stepped_ok [OF assms False] by blast
qed

lemma random_n_kept:
  "rng_ok s \<Longrightarrow> \<exists>s'. random_n n s = Some s' \<and> rng_ok s' \<and> kept s s'"
proof (induction n arbitrary: s)
  case (Suc n)
  obtain i s' where "random s = Some (i, s')" "rng_ok s'" "kept s s'" using random_kept [OF Suc.prems] by blast
  then show ?case using Suc.IH [of s'] kept_trans by fastforce
qed (simp add: kept_refl)

lemma srandom_fill_kept:
  "1 \<le> p \<Longrightarrow> p + int n \<le> int (length m) \<Longrightarrow> \<exists>m'. srandom_fill n m p = Some m' \<and> same_outside p (p + int n) m m'"
proof (induction n arbitrary: m p)
  case 0
  then show ?case by (simp add: same_outside_def)
next
  case (Suc n)
  let ?m = "m[nat p := 1103515245 * m ! nat (p - 1) + 12345]"
  obtain m' where m': "srandom_fill n ?m (p + 1) = Some m'" "same_outside (p + 1) (p + 1 + int n) ?m m'"
    using Suc.IH [of "p + 1" ?m] Suc.prems by auto
  then have "srandom_fill (Suc n) m p = Some m'"
    using Suc.prems by (simp add: lrd_def lwr_def)
  moreover have "same_outside p (p + int (Suc n)) m m'"
    using m'(2) Suc.prems by (auto simp: same_outside_def nth_list_update)
  ultimately show ?case by blast
qed

text \<open>What \<^verbatim>\<open>srandom\<close> needs: everything of the invariant but the pointers, which it sets.\<close>

lemma srandom_kept:
  assumes "0 \<le> rand_type s" "rand_type s \<le> 4" "rand_deg s = degrees ! nat (rand_type s)"
    "rand_sep s = seps ! nat (rand_type s)" "1 \<le> state_p s"
    "state_p s + max 1 (rand_deg s) \<le> int (length (tbl s))" "end_ptr s = state_p s + rand_deg s"
  shows "\<exists>s'. srandom x s = Some s' \<and> rng_ok s' \<and> kept s s'"
proof (cases "rand_type s = 0")
  case True
  then show ?thesis
    using assms by (auto simp: srandom_def lwr_def rng_ok_def kept_def intro!: same_outside_upd)
next
  case False
  note ds = deg_sep [OF assms(1,2) False, folded assms(3,4)]
  let ?m = "(tbl s)[nat (state_p s) := x]"
  have w: "lwr (tbl s) (state_p s) x = Some ?m" using assms(5,6) by (simp add: lwr_def)
  obtain m' where m': "srandom_fill (nat (rand_deg s - 1)) ?m (state_p s + 1) = Some m'"
    "same_outside (state_p s + 1) (state_p s + 1 + int (nat (rand_deg s - 1))) ?m m'"
    using srandom_fill_kept [of "state_p s + 1" "nat (rand_deg s - 1)" ?m] assms(5,6) ds by auto
  let ?s = "s\<lparr>tbl := m', fptr := state_p s + rand_sep s, rptr := state_p s\<rparr>"
  have same: "same_outside (state_p s) (state_p s + max 1 (rand_deg s)) (tbl s) m'"
    using m'(2) ds assms(5) by (auto simp: same_outside_def nth_list_update)
  then have "rng_ok ?s" "kept s ?s" using assms ds by (auto simp: rng_ok_def kept_def same_outside_def)
  moreover obtain s' where "random_n (nat (10 * rand_deg s)) ?s = Some s'" "rng_ok s'" "kept ?s s'"
    using random_n_kept [OF \<open>rng_ok ?s\<close>] by blast
  ultimately show ?thesis using False w m'(1) kept_trans by (auto simp: srandom_def)
qed

text \<open>The word that \<^verbatim>\<open>initstate\<close> and \<^verbatim>\<open>setstate\<close> put in front of the array, and that \<^verbatim>\<open>setstate\<close> decodes.\<close>

definition position_code :: "rng \<Rightarrow> int" where
  "position_code s = (if rand_type s = 0 then 0 else 5 * (rptr s - state_p s) + rand_type s)"

lemma save_position_eq:
  assumes "rng_ok s"
  shows "save_position s = Some (s\<lparr>tbl := (tbl s)[nat (state_p s - 1) := word_of_int (position_code s)]\<rparr>)"
  using assms by (auto simp: save_position_def lwr_def position_code_def MAX_TYPES_def rng_ok_def)

lemma position_decode:
  assumes "rng_ok s"
  shows "sint (word_of_int (position_code s) :: 32 word) smod MAX_TYPES = rand_type s"
    "rand_type s \<noteq> 0 \<Longrightarrow> sint (word_of_int (position_code s) :: 32 word) sdiv MAX_TYPES = rptr s - state_p s"
proof -
  define q where "q = (if rand_type s = 0 then 0 else rptr s - state_p s)"
  have q: "0 \<le> q" "q < 63" "position_code s = 5 * q + rand_type s" and t: "0 \<le> rand_type s" "rand_type s \<le> 4"
    using assms deg_sep [of "rand_type s"] by (auto simp: rng_ok_def position_code_def q_def)
  then have c: "sint (word_of_int (position_code s) :: 32 word) = rand_type s + 5 * q"
    by (subst sint_of_int_small) auto
  have "(rand_type s + 5 * q) mod 5 = rand_type s" "(rand_type s + 5 * q) div 5 = q" using t by auto
  moreover have "(rand_type s + 5 * q) smod 5 = (rand_type s + 5 * q) mod 5"
    "(rand_type s + 5 * q) sdiv 5 = (rand_type s + 5 * q) div 5"
    using t q(1) by (auto simp: signed_modulo_int_def signed_divide_int_def sgn_if)
  ultimately show "sint (word_of_int (position_code s) :: 32 word) smod MAX_TYPES = rand_type s"
    "rand_type s \<noteq> 0 \<Longrightarrow> sint (word_of_int (position_code s) :: 32 word) sdiv MAX_TYPES = rptr s - state_p s"
    unfolding c MAX_TYPES_def by (simp_all add: q_def)
qed

text \<open>A state array of \<open>n\<close> bytes at \<open>arg\<close> lies in the memory and apart from the one in use.\<close>

definition free_array :: "rng \<Rightarrow> int \<Rightarrow> int \<Rightarrow> bool" where
  "free_array s arg n \<longleftrightarrow> 8 \<le> n \<and> 0 \<le> arg \<and> arg + n div 4 \<le> int (length (tbl s))
     \<and> (arg + n div 4 \<le> state_p s - 1 \<or> state_p s + max 1 (rand_deg s) \<le> arg)"

lemma choose_type_fits:
  assumes "8 \<le> n"
  shows "0 \<le> choose_type n \<and> choose_type n \<le> 4 \<and> 1 + max 1 (degrees ! nat (choose_type n)) \<le> n div 4"
proof -
  have le: "k \<le> n \<Longrightarrow> k div 4 \<le> n div 4" for k :: int by (rule zdiv_mono1) simp_all
  show ?thesis
    using assms le [of 8] le [of 32] le [of 64] le [of 128] le [of 256]
    by (auto simp: choose_type_def degrees_def nat_numeral)
qed

lemma initstate_ok:
  assumes ok: "rng_ok s" and free: "free_array s arg n"
  shows "\<exists>s1. initstate seed arg n s = Some (s1, Some (state_p s - 1)) \<and> rng_ok s1 \<and> state_p s1 = arg + 1
    \<and> rand_type s1 = choose_type n
    \<and> same_outside arg (arg + n div 4) ((tbl s)[nat (state_p s - 1) := word_of_int (position_code s)]) (tbl s1)"
proof -
  let ?m = "(tbl s)[nat (state_p s - 1) := word_of_int (position_code s)]"
  let ?t = "choose_type n" let ?d = "degrees ! nat (choose_type n)"
  let ?s = "s\<lparr>tbl := ?m, rand_type := ?t, rand_deg := ?d, rand_sep := seps ! nat ?t, state_p := arg + 1, end_ptr := arg + 1 + ?d\<rparr>"
  have t: "0 \<le> ?t" "?t \<le> 4" "1 + max 1 ?d \<le> n div 4" using choose_type_fits free by (auto simp: free_array_def)
  obtain s' where s': "srandom seed ?s = Some s'" "rng_ok s'" "kept ?s s'"
    using srandom_kept [of ?s seed] t free by (auto simp: free_array_def)
  let ?s1 = "s'\<lparr>tbl := (tbl s')[nat (state_p s' - 1) := word_of_int (position_code s')]\<rparr>"
  have p: "state_p s' = arg + 1" "rand_type s' = ?t" using s'(3) by (simp_all add: kept_def)
  have "initstate seed arg n s = Some (?s1, Some (state_p s - 1))"
    using free s' save_position_eq [OF ok] save_position_eq [OF s'(2)]
    by (simp add: initstate_def free_array_def Let_def)
  moreover have "rng_ok ?s1" using s'(2) by (auto simp: rng_ok_def)
  moreover have "same_outside arg (arg + n div 4) ?m (tbl ?s1)"
  proof -
    have "same_outside (arg + 1) (arg + 1 + max 1 ?d) ?m (tbl s')" using s'(3) by (simp add: kept_def)
    then have "same_outside arg (arg + n div 4) ?m (tbl s')" by (rule same_outside_mono) (use t in auto)
    moreover have "same_outside arg (arg + n div 4) (tbl s') (tbl ?s1)"
      using p(1) t(3) free by (auto simp: free_array_def intro!: same_outside_upd)
    ultimately show ?thesis by (rule same_outside_trans)
  qed
  ultimately show ?thesis using p by fastforce
qed

lemma setstate_back:
  assumes ok: "rng_ok s" "rng_ok s1" and len: "length (tbl s1) = length (tbl s)"
    and saved: "tbl s1 ! nat (state_p s - 1) = word_of_int (position_code s)"
  shows "setstate (state_p s - 1) s1 = Some
    (s1\<lparr>tbl := (tbl s1)[nat (state_p s1 - 1) := word_of_int (position_code s1)],
        fptr := (if rand_type s = 0 then fptr s1 else fptr s), rptr := (if rand_type s = 0 then rptr s1 else rptr s),
        state_p := state_p s, rand_type := rand_type s, rand_deg := rand_deg s, rand_sep := rand_sep s,
        end_ptr := end_ptr s\<rparr>, Some (state_p s1 - 1))"
proof -
  have l: "lrd (tbl s1) (state_p s - 1) = Some (word_of_int (position_code s))"
    using ok(1) len saved by (auto simp: lrd_def rng_ok_def)
  note dec = position_decode [OF ok(1)]
  have f: "rand_type s \<noteq> 0 \<Longrightarrow> state_p s + (rptr s - state_p s + rand_sep s) smod rand_deg s = fptr s"
    using ok(1) deg_sep [of "rand_type s"] by (auto simp: rng_ok_def signed_modulo_int_def sgn_if)
  show ?thesis
    using l dec f ok(1) save_position_eq [OF ok(2)] by (auto simp: setstate_def Let_def rng_ok_def)
qed

section \<open>Properties\<close>

text \<open>
  C14. The circular buffer of \<^verbatim>\<open>random\<close> implements the additive recurrence: from a consistent state with
  \<open>deg\<close> words, a call never touches memory outside its array, yields again a consistent state, the
  sequence of the last \<open>deg\<close> numbers advances by one step of the recurrence, and the result, below
  \<open>2 ^ 31\<close>, is the new number without its low bit.
\<close>

theorem random_refines_recurrence:
  assumes "rng_ok s" "rand_type s \<noteq> 0"
  shows "\<exists>i s'. random s = Some (i, s') \<and> rng_ok s' \<and> kept s s'
    \<and> hist s' = alf_step (nat (rand_sep s)) (hist s)
    \<and> i = drop_bit 1 (last (hist s')) \<and> uint i < 2 ^ 31"
proof -
  let ?x = "tbl s ! nat (fptr s) + tbl s ! nat (rptr s)"
  have r: "random s = Some (drop_bit 1 ?x, stepped s ?x)" by (rule random_stepped [OF assms])
  then have k: "rng_ok (stepped s ?x)" "kept s (stepped s ?x)" "uint (drop_bit 1 ?x) < 2 ^ 31"
    using random_kept [OF assms(1)] by auto
  then show ?thesis using r stepped_hist [OF assms] by auto
qed

theorem random_refines_recurrence_witness:
  "\<exists>i s'. random (rng_init []) = Some (i, s') \<and> rng_ok s' \<and> hist s' = alf_step 3 (hist (rng_init []))"
proof -
  have "rng_ok (rng_init [])" by code_simp
  from random_refines_recurrence [OF this] show ?thesis by (auto simp: rng_init_def)
qed

text \<open>
  Switching arrays loses nothing: \<^verbatim>\<open>initstate\<close> on a fresh array of at least eight bytes succeeds, chooses
  the generator that its size allows and returns the old array, and \<^verbatim>\<open>setstate\<close> on that array brings the
  old generator back: its type, its pointers and all its words.
\<close>

theorem initstate_setstate:
  assumes "rng_ok s" "free_array s arg n"
  shows "\<exists>s1 s2. initstate seed arg n s = Some (s1, Some (state_p s - 1)) \<and> rng_ok s1 \<and> rand_type s1 = choose_type n
    \<and> setstate (state_p s - 1) s1 = Some (s2, Some arg) \<and> rng_ok s2
    \<and> rand_type s2 = rand_type s \<and> state_p s2 = state_p s \<and> arr s2 = arr s
    \<and> tbl s2 ! nat (state_p s) = tbl s ! nat (state_p s)
    \<and> (rand_type s \<noteq> 0 \<longrightarrow> rptr s2 = rptr s \<and> fptr s2 = fptr s \<and> hist s2 = hist s)"
proof -
  let ?m = "(tbl s)[nat (state_p s - 1) := word_of_int (position_code s)]"
  obtain s1 where s1: "initstate seed arg n s = Some (s1, Some (state_p s - 1))" "rng_ok s1" "state_p s1 = arg + 1"
    "rand_type s1 = choose_type n" "same_outside arg (arg + n div 4) ?m (tbl s1)"
    using initstate_ok [OF assms] by blast
  have len: "length (tbl s1) = length (tbl s)" using s1(5) by (simp add: same_outside_def)
  have n: "2 \<le> n div 4" using assms(2) by (auto simp: free_array_def)
  have saved: "tbl s1 ! nat (state_p s - 1) = word_of_int (position_code s)"
  proof -
    have st: "1 \<le> state_p s" "state_p s < int (length (tbl s))"
      "arg + n div 4 \<le> state_p s - 1 \<or> state_p s - 1 < arg"
      using assms by (auto simp: rng_ok_def free_array_def)
    then have "tbl s1 ! nat (state_p s - 1) = ?m ! nat (state_p s - 1)"
      by (intro same_outsideD [OF s1(5)]) auto
    then show ?thesis using st by simp
  qed
  let ?s2 = "s1\<lparr>tbl := (tbl s1)[nat (state_p s1 - 1) := word_of_int (position_code s1)],
        fptr := (if rand_type s = 0 then fptr s1 else fptr s), rptr := (if rand_type s = 0 then rptr s1 else rptr s),
        state_p := state_p s, rand_type := rand_type s, rand_deg := rand_deg s, rand_sep := rand_sep s,
        end_ptr := end_ptr s\<rparr>"
  have set: "setstate (state_p s - 1) s1 = Some (?s2, Some arg)"
    using setstate_back [OF assms(1) s1(2) len saved] s1(3) by simp
  have keep: "tbl ?s2 ! i = tbl s ! i" if "state_p s \<le> int i" "int i < state_p s + max 1 (rand_deg s)" for i
  proof -
    have "int i < arg \<or> arg + n div 4 \<le> int i" "nat (state_p s - 1) \<noteq> i" "nat arg \<noteq> i"
      using that assms n by (auto simp: free_array_def rng_ok_def)
    then show ?thesis using same_outsideD [OF s1(5), of i] s1(3) by simp
  qed
  have a: "arr ?s2 = arr s"
  proof (rule nth_equalityI)
    show "length (arr ?s2) = length (arr s)" using len by (simp add: arr_def)
    show "arr ?s2 ! i = arr s ! i" if "i < length (arr ?s2)" for i
    proof -
      have "nat (state_p s) + i < length (tbl s)" "int i < rand_deg s" "1 \<le> state_p s"
        using that len assms(1) by (simp_all add: arr_def less_diff_conv zless_nat_eq_int_zless rng_ok_def add.commute)
      then show ?thesis using keep [of "nat (state_p s) + i"] len by (simp add: arr_def)
    qed
  qed
  have "rng_ok ?s2" using assms(1) len by (auto simp: rng_ok_def)
  moreover have "tbl ?s2 ! nat (state_p s) = tbl s ! nat (state_p s)"
    using keep [of "nat (state_p s)"] assms(1) by (auto simp: rng_ok_def)
  moreover have "rand_type s \<noteq> 0 \<Longrightarrow> hist ?s2 = hist s" using a by (simp add: hist_def)
  ultimately show ?thesis using s1 set a by (intro exI [of _ s1] exI [of _ ?s2]) simp
qed

theorem initstate_setstate_witness:
  "\<exists>s1 s2. initstate 7 32 32 (rng_init (replicate 8 0)) = Some (s1, Some 0) \<and> rand_type s1 = 1
     \<and> setstate 0 s1 = Some (s2, Some 32) \<and> hist s2 = hist (rng_init (replicate 8 0))"
proof -
  let ?s = "rng_init (replicate 8 0)"
  have "rng_ok ?s" "free_array ?s 32 32" "choose_type 32 = 1" "state_p ?s = 1" "rand_type ?s = 3" by code_simp+
  with initstate_setstate [of ?s 32 32 7] show ?thesis by auto
qed

text \<open>
  The initial table is the one that seeding with 1 produces, with both pointers back where they
  started; and calling \<^verbatim>\<open>setstate\<close> with the array in use, after a number has been drawn, does not leave the
  generator alone: the position is read from the array before the current one is saved into it, so the
  pointers fall back to the position of the last switch.
\<close>

theorem random_initial_and_current_state:
  "srandom 1 (rng_init []) = Some (rng_init [])
   \<and> (case random (rng_init []) of
        Some (i, s) \<Rightarrow> (rptr s, fptr s) = (2, 5) \<and> map_option (\<lambda>(s', p). (rptr s', fptr s')) (setstate 0 s) = Some (1, 4)
      | None \<Rightarrow> False)"
  by code_simp

end
