(* ===== verification/Strerror.thy ===== *)
theory Strerror
  imports Prelude "HOL-Library.Signed_Division"
begin

text \<open>
  Error messages: the table of \<^verbatim>\<open>ansi/string/syserr1.c\<close>, \<^verbatim>\<open>strerror\<close>, which formats an unknown number into a static
  buffer digit by digit, and the reentrant \<^verbatim>\<open>strerror_r\<close>.
\<close>

section \<open>Model\<close>

definition sys_errlist :: "string list" where
  "sys_errlist = [
     ''No Error'',
     ''Input to function out of range (EDOM)'',
     ''Output of function out of range (ERANGE)'',
     ''Argument list too long (E2BIG)'',
     ''Permission denied (EACCES)'',
     ''Resource temporarily unavailable (EAGAIN)'',
     ''Bad file descriptor (EBADF)'',
     ''Resource busy (EBUSY)'',
     ''No child processes (ECHILD)'',
     ''Resource deadlock avoided (EDEADLK)'',
     ''File exists (EEXIST)'',
     ''Bad address (EFAULT)'',
     ''File too large (EFBIG)'',
     ''Interrupted system call (EINTR)'',
     ''Invalid argument (EINVAL)'',
     ''Input or output error (EIO)'',
     ''Is a directory (EISDIR)'',
     ''Too many open files (EMFILE)'',
     ''Too many links (EMLINK)'',
     ''File name too long (ENAMETOOLONG)'',
     ''Too many open files in system (ENFILE)'',
     ''No such device (ENODEV)'',
     ''No such file or directory (ENOENT)'',
     ''Unable to execute file (ENOEXEC)'',
     ''No locks available (ENOLCK)'',
     ''Not enough memory (ENOMEM)'',
     ''No space left on drive (ENOSPC)'',
     ''Function not implemented (ENOSYS)'',
     ''Not a directory (ENOTDIR)'',
     ''Directory not empty (ENOTEMPTY)'',
     ''Inappropriate I/O control operation (ENOTTY)'',
     ''No such device or address (ENXIO)'',
     ''Operation not permitted (EPERM)'',
     ''Broken pipe (EPIPE)'',
     ''Read-only file system (EROFS)'',
     ''Invalid seek (ESPIPE)'',
     ''No such process (ESRCH)'',
     ''Improper link (EXDEV)'',
     ''No more files (ENMFILE)'',
     ''Too many levels of symbolic links (ELOOP)'',
     ''Value too large (EOVERFLOW)'',
     ''Invalid or incomplete multibyte or wide character (EILSEQ)'']"

definition sys_nerr :: int where
  "sys_nerr = int (length sys_errlist)"

definition UNKNOWN_ERROR_STR :: string where
  "UNKNOWN_ERROR_STR = ''Unknown error: ''"

abbreviation (input) NUL :: char where "NUL \<equiv> CHR 0x00"

text \<open>A character computed as an \<^verbatim>\<open>int\<close> and stored in a \<^verbatim>\<open>char\<close>.\<close>

definition chr_of :: "int \<Rightarrow> char" where
  "chr_of i = char_of (nat (i mod 256))"

text \<open>
  \<^verbatim>\<open>while (v)\<close> with \<open>lz\<close> set once a digit has been written: the characters stored through \<^verbatim>\<open>cp\<close>, in order. The
  divisions truncate, as in C.
\<close>

function strerror_digits :: "int \<Rightarrow> int \<Rightarrow> bool \<Rightarrow> char list" where
  "strerror_digits v errnum lz =
     (if v = 0 then []
      else let d = errnum sdiv v in
           if d \<noteq> 0 \<or> lz \<or> v = 1
           then chr_of (d + 48) # strerror_digits (v sdiv 10) (errnum smod v) True
           else strerror_digits (v sdiv 10) (errnum smod v) lz)"
  by pat_completeness auto
termination
proof (relation "measure (\<lambda>(v, errnum, lz). nat \<bar>v\<bar>)")
  have less: "nat \<bar>v sdiv 10\<bar> < nat \<bar>v\<bar>" if "v \<noteq> 0" for v :: int
    using that int_div_less_self [of "\<bar>v\<bar>" 10] by (simp add: signed_divide_int_def abs_mult abs_sgn_eq)
  show "((v sdiv 10, errnum smod v, True), v, errnum, lz) \<in> measure (\<lambda>(v, errnum, lz). nat \<bar>v\<bar>)"
    if "v \<noteq> 0" for v errnum :: int and lz
    using less [OF that] by simp
  show "((v sdiv 10, errnum smod v, lz), v, errnum, lz) \<in> measure (\<lambda>(v, errnum, lz). nat \<bar>v\<bar>)"
    if "v \<noteq> 0" for v errnum :: int and lz
    using less [OF that] by simp
qed simp

declare strerror_digits.simps [simp del]

definition neg32 :: "int \<Rightarrow> int" where
  "neg32 i = sint (word_of_int (- i) :: 32 word)"

text \<open>Characters stored one after the other from an index on.\<close>

definition put_chars :: "char list \<Rightarrow> nat \<Rightarrow> char list \<Rightarrow> char list" where
  "put_chars buf i cs = take i buf @ cs @ drop (i + length cs) buf"

definition c_string :: "char list \<Rightarrow> string" where
  "c_string buf = takeWhile (\<lambda>c. c \<noteq> NUL) buf"

text \<open>\<^verbatim>\<open>strerror\<close> takes and returns the static buffer of 40 characters; the second result is the string that the
  returned pointer designates.\<close>

definition strerror :: "char list \<Rightarrow> int \<Rightarrow> char list \<times> string" where
  "strerror ebuf errnum =
     (if 0 \<le> errnum \<and> errnum < sys_nerr then (ebuf, sys_errlist ! nat errnum)
      else let ebuf = put_chars ebuf 0 (UNKNOWN_ERROR_STR @ [NUL]);
               cp = length (c_string ebuf);
               sign = (if errnum < 0 then [CHR 0x2D] else []);
               n = (if errnum < 0 then neg32 errnum else errnum);
               ebuf = put_chars ebuf cp (sign @ strerror_digits 1000000 n False) in
           (ebuf, c_string ebuf))"

text \<open>What \<^verbatim>\<open>sprintf\<close> writes for \<^verbatim>\<open>%d\<close>.\<close>

fun dec :: "nat \<Rightarrow> string" where
  "dec n = (if n < 10 then [chr_of (int n + 48)] else dec (n div 10) @ [chr_of (int (n mod 10) + 48)])"

declare dec.simps [simp del]

definition dec_int :: "int \<Rightarrow> string" where
  "dec_int i = (if i < 0 then CHR 0x2D # dec (nat (- i)) else dec (nat i))"

definition ERANGE :: int where "ERANGE = 2"

text \<open>The caller's buffer and the result; the buffer is untouched on an error.\<close>

definition strerror_r :: "int \<Rightarrow> char list \<Rightarrow> nat \<Rightarrow> char list \<times> int" where
  "strerror_r errnum strerrbuf buflen =
     (let p = (if 0 \<le> errnum \<and> errnum < sys_nerr then sys_errlist ! nat errnum
               else UNKNOWN_ERROR_STR @ dec_int errnum) in
      if buflen < length p + 1 then (strerrbuf, ERANGE)
      else (put_chars strerrbuf 0 (p @ [NUL]), 0))"

section \<open>The digits\<close>

abbreviation (input) dch :: "nat \<Rightarrow> char" where "dch d \<equiv> chr_of (int d + 48)"

fun fixed :: "nat \<Rightarrow> nat \<Rightarrow> string" where
  "fixed 0 n = [dch n]"
| "fixed (Suc k) n = dch (n div 10 ^ Suc k) # fixed k (n mod 10 ^ Suc k)"

lemma fixed_snoc: "n < 10 ^ Suc (Suc k) \<Longrightarrow> fixed (Suc k) n = fixed k (n div 10) @ [dch (n mod 10)]"
proof (induction k arbitrary: n)
  case (Suc k)
  let ?m = "n mod 10 ^ Suc (Suc k)"
  have "n div 10 ^ Suc (Suc k) = n div 10 div 10 ^ Suc k"
    by (subst power_Suc) (rule div_mult2_eq)
  moreover have "?m div 10 = n div 10 mod 10 ^ Suc k"
    using mod_mult2_eq [of n 10 "10 ^ Suc k"] by (simp only: power_Suc [of 10 "Suc k"])
  moreover have "?m mod 10 = n mod 10" by (simp add: mod_mod_cancel)
  moreover have "fixed (Suc k) ?m = fixed k (?m div 10) @ [dch (?m mod 10)]" by (rule Suc.IH) simp
  ultimately show ?case by simp
qed simp

lemma fixed_dec: "n < 10 ^ Suc k \<Longrightarrow> 10 ^ k \<le> n \<or> k = 0 \<Longrightarrow> fixed k n = dec n"
proof (induction k arbitrary: n)
  case 0
  then show ?case by (simp add: dec.simps)
next
  case (Suc k)
  have ge: "10 ^ k \<le> n div 10" "n div 10 < 10 ^ Suc k" using Suc.prems by auto
  have "10 \<le> (10 :: nat) ^ Suc k" by simp
  moreover have "10 ^ Suc k \<le> n" using Suc.prems(2) by blast
  ultimately have "\<not> n < 10" by (meson le_trans not_less)
  then have "dec n = dec (n div 10) @ [dch (n mod 10)]" by (simp add: dec.simps [of n])
  then show ?case using fixed_snoc [OF Suc.prems(1)] Suc.IH [OF ge(2)] ge(1) by simp
qed

lemma sdiv_nat: "int n sdiv int v = int (n div v)" "int n smod int v = int (n mod v)"
proof -
  show "int n sdiv int v = int (n div v)" "int n smod int v = int (n mod v)"
    by (cases "n = 0"; cases "v = 0"; simp add: signed_divide_int_def signed_modulo_int_def zdiv_int zmod_int)+
qed

lemma digits_nat:
  "v \<noteq> 0 \<Longrightarrow> strerror_digits (int v) (int n) lz =
     (if n div v \<noteq> 0 \<or> lz \<or> v = 1 then dch (n div v) # strerror_digits (int (v div 10)) (int (n mod v)) True
      else strerror_digits (int (v div 10)) (int (n mod v)) lz)"
proof -
  assume v: "v \<noteq> 0"
  have ten: "int v sdiv 10 = int (v div 10)" using sdiv_nat(1) [of v 10] by simp
  show ?thesis
    using v by (subst strerror_digits.simps) (simp only: sdiv_nat ten Let_def of_nat_eq_0_iff if_False of_nat_eq_1_iff)
qed

abbreviation (input) p10 :: "nat \<Rightarrow> int" where "p10 k \<equiv> int (10 ^ k)"

lemma digits_step:
  "strerror_digits (p10 (Suc k)) (int n) lz =
     (if n div 10 ^ Suc k \<noteq> 0 \<or> lz then dch (n div 10 ^ Suc k) # strerror_digits (p10 k) (int (n mod 10 ^ Suc k)) True
      else strerror_digits (p10 k) (int (n mod 10 ^ Suc k)) False)"
proof -
  have "(10 :: nat) ^ Suc k \<noteq> 0" "((10 :: nat) ^ Suc k = 1) = False" "(10 :: nat) ^ Suc k div 10 = 10 ^ k" by simp_all
  then show ?thesis using digits_nat [of "10 ^ Suc k" n lz] by (cases lz) (simp_all only: simp_thms if_True if_False)
qed

lemma digits_last: "strerror_digits (p10 0) (int n) lz = [dch n]"
  using digits_nat [of "10 ^ 0" n lz] by (simp add: strerror_digits.simps [of 0])

lemma digits_true: "n < 10 ^ Suc k \<Longrightarrow> strerror_digits (p10 k) (int n) True = fixed k n"
proof (induction k arbitrary: n)
  case (Suc k)
  have "strerror_digits (p10 k) (int (n mod 10 ^ Suc k)) True = fixed k (n mod 10 ^ Suc k)" by (rule Suc.IH) simp
  then show ?case by (simp only: digits_step fixed.simps) simp
qed (simp only: digits_last fixed.simps)

lemma digits_dec: "n < 10 ^ Suc k \<Longrightarrow> strerror_digits (p10 k) (int n) False = dec n"
proof (induction k arbitrary: n)
  case 0
  then show ?case using fixed_dec [of n 0] by (simp only: digits_last) simp
next
  case (Suc k)
  show ?case
  proof (cases "n < 10 ^ Suc k")
    case True
    then show ?thesis using Suc.IH by (simp only: digits_step) simp
  next
    case False
    then have "n div 10 ^ Suc k \<noteq> 0" by (simp add: div_eq_0_iff del: power_Suc)
    then have "strerror_digits (p10 (Suc k)) (int n) False = fixed (Suc k) n"
      using digits_true [of "n mod 10 ^ Suc k" k] by (simp only: digits_step fixed.simps) simp
    then show ?thesis using fixed_dec [OF Suc.prems] False by simp
  qed
qed

lemma chr_nonzero: "d < 10 \<Longrightarrow> dch d \<noteq> NUL"
proof -
  assume "d < 10"
  then have "of_char (dch d) = d + 48" by (simp add: chr_of_def nat_add_distrib)
  then show ?thesis by auto
qed

lemma dec_chars: "dec n \<noteq> [] \<and> NUL \<notin> set (dec n)"
proof (induction n rule: dec.induct)
  case (1 n)
  show ?case using 1 chr_nonzero [of n] chr_nonzero [of "n mod 10"] by (auto simp: dec.simps [of n])
qed

lemma dec_length: "n < 10 ^ Suc k \<Longrightarrow> length (dec n) \<le> Suc k"
proof (induction k arbitrary: n)
  case (Suc k)
  then have "length (dec (n div 10)) \<le> Suc k" by (intro Suc.IH) auto
  then show ?case by (simp add: dec.simps [of n])
qed (simp add: dec.simps)

section \<open>Properties\<close>

lemma c_string_append: "NUL \<notin> set cs \<Longrightarrow> c_string (cs @ rest) = cs @ c_string rest"
  by (induction cs) (auto simp: c_string_def)

lemma c_string_text: "NUL \<notin> set cs \<Longrightarrow> c_string (cs @ NUL # rest) = cs"
  by (simp add: c_string_append) (simp add: c_string_def)

lemma unknown_chars: "NUL \<notin> set UNKNOWN_ERROR_STR" "length UNKNOWN_ERROR_STR = 15"
  by (simp_all add: UNKNOWN_ERROR_STR_def)

lemma dec_int_chars: "dec_int i \<noteq> [] \<and> NUL \<notin> set (dec_int i)"
  using dec_chars by (simp add: dec_int_def)

lemma dec_int_digits:
  assumes "\<bar>errnum\<bar> < 10000000"
  shows "(if errnum < 0 then [CHR 0x2D] else []) @
      strerror_digits 1000000 (if errnum < 0 then neg32 errnum else errnum) False = dec_int errnum"
proof -
  have d: "strerror_digits 1000000 (int n) False = dec n" if "n < 10000000" for n
    using digits_dec [of n 6] that by simp
  have "neg32 errnum = - errnum" if "errnum < 0"
    unfolding neg32_def using that assms by (intro sint_of_int_small) auto
  then show ?thesis using d [of "nat errnum"] d [of "nat (- errnum)"] assms by (auto simp: dec_int_def)
qed

text \<open>
  \<^verbatim>\<open>strerror\<close>: a known number gives its message. Any other number of at most seven digits is formatted
  in decimal behind the prefix, but the text is not terminated: what an earlier call left in the static
  buffer behind it is part of the result. A number of more digits comes out with a first character that
  is no digit.
\<close>

theorem strerror_text:
  assumes "length ebuf = 40"
  shows "(0 \<le> errnum \<and> errnum < sys_nerr \<longrightarrow> strerror ebuf errnum = (ebuf, sys_errlist ! nat errnum))
    \<and> (\<not> (0 \<le> errnum \<and> errnum < sys_nerr) \<and> \<bar>errnum\<bar> < 10000000
       \<longrightarrow> snd (strerror ebuf errnum) =
             UNKNOWN_ERROR_STR @ dec_int errnum @ c_string (drop (15 + length (dec_int errnum)) ebuf))
    \<and> snd (strerror ebuf 10000000) = ''Unknown error: :000000'' @ c_string (drop 22 ebuf)"
proof -
  let ?u = "UNKNOWN_ERROR_STR"
  have first: "put_chars ebuf 0 (?u @ [NUL]) = ?u @ NUL # drop 16 ebuf"
    by (simp add: put_chars_def unknown_chars)
  then have cp: "length (c_string (put_chars ebuf 0 (?u @ [NUL]))) = 15"
    using unknown_chars by (simp add: c_string_text)
  have put: "put_chars (?u @ NUL # drop 16 ebuf) 15 cs = ?u @ cs @ drop (15 + length cs) ebuf" if "cs \<noteq> []" for cs
    using that unknown_chars(2) by (cases cs) (simp_all add: put_chars_def add.commute)
  have msg: "snd (strerror ebuf e) = ?u @ cs @ c_string (drop (15 + length cs) ebuf)"
    if "\<not> (0 \<le> e \<and> e < sys_nerr)" "cs \<noteq> []" "NUL \<notin> set cs"
      "(if e < 0 then [CHR 0x2D] else []) @ strerror_digits 1000000 (if e < 0 then neg32 e else e) False = cs" for e cs
  proof -
    have "snd (strerror ebuf e) = c_string (put_chars (?u @ NUL # drop 16 ebuf) 15 cs)"
      using that(1,4) cp unfolding strerror_def Let_def first by (simp only: if_False snd_conv)
    then show ?thesis using unknown_chars(1) that(3) by (simp only: put [OF that(2)] c_string_append simp_thms)
  qed
  have big: "strerror_digits 1000000 10000000 False = '':000000''" "sys_nerr = 42" by code_simp+
  have "snd (strerror ebuf 10000000) = ''Unknown error: :000000'' @ c_string (drop 22 ebuf)"
    using msg [of 10000000 "'':000000''"] big by (simp add: UNKNOWN_ERROR_STR_def)
  then show ?thesis
    using msg [of errnum "dec_int errnum"] dec_int_digits [of errnum] dec_int_chars [of errnum] assms
    by (simp add: strerror_def)
qed

theorem strerror_text_witness:
  "snd (strerror (fst (strerror (replicate 40 NUL) 123456)) 99) = ''Unknown error: 993456''"
proof -
  let ?b = "fst (strerror (replicate 40 NUL) 123456)"
  have "length ?b = 40 \<and> c_string (drop 17 ?b) = ''3456'' \<and> sys_nerr = 42" by code_simp
  then have b: "length ?b = 40" "c_string (drop 17 ?b) = ''3456''" "sys_nerr = 42" by blast+
  have "dec_int 99 = ''99''" by (simp add: dec_int_def dec.simps) code_simp
  note b = b this
  from strerror_text [OF b(1), of 99] b show ?thesis by (simp add: UNKNOWN_ERROR_STR_def)
qed

text \<open>
  \<^verbatim>\<open>strerror_r\<close> for every number: when the message and its NUL fit the caller's buffer, they are what it
  holds afterwards and the result is 0; otherwise the buffer is untouched and the result is \<^verbatim>\<open>ERANGE\<close>.
\<close>

theorem strerror_r_text:
  assumes "length buf = buflen"
    and "p = (if 0 \<le> errnum \<and> errnum < sys_nerr then sys_errlist ! nat errnum else UNKNOWN_ERROR_STR @ dec_int errnum)"
  shows "if length p < buflen
    then \<exists>buf'. strerror_r errnum buf buflen = (buf', 0) \<and> c_string buf' = p \<and> length buf' = buflen
    else strerror_r errnum buf buflen = (buf, ERANGE)"
proof -
  have "list_all (\<lambda>m. NUL \<notin> set m) sys_errlist" by code_simp
  then have "NUL \<notin> set (sys_errlist ! nat errnum)" if "0 \<le> errnum" "errnum < sys_nerr"
    using that by (auto simp: list_all_length sys_nerr_def)
  then have p: "NUL \<notin> set p" using assms(2) dec_int_chars [of errnum] unknown_chars(1) by auto
  have "strerror_r errnum buf buflen = (if buflen < length p + 1 then (buf, ERANGE) else (put_chars buf 0 (p @ [NUL]), 0))"
    by (simp only: strerror_r_def Let_def assms(2))
  then show ?thesis using assms(1) p by (simp add: put_chars_def c_string_text)
qed

theorem strerror_r_text_witness:
  "\<exists>buf'. strerror_r 14 (replicate 40 NUL) 40 = (buf', 0) \<and> c_string buf' = ''Invalid argument (EINVAL)''"
proof -
  have "sys_errlist ! nat 14 = ''Invalid argument (EINVAL)''" "sys_nerr = 42" by code_simp+
  with strerror_r_text [of "replicate 40 NUL" 40 "''Invalid argument (EINVAL)''" 14] show ?thesis by auto
qed

end
