(* ===== verification/Doserr.thy ===== *)
theory Doserr
  imports Prelude
begin

text \<open>
  \<^verbatim>\<open>dos/errno/doserr2e.c\<close>: the table from DOS error codes to \<^verbatim>\<open>errno\<close> values and its lookup. The table is
  given row by row as in the source, with the range of codes that the source's comments give to each row.
\<close>

definition EACCES :: int where "EACCES = 4"
definition EAGAIN :: int where "EAGAIN = 5"
definition EBADF :: int where "EBADF = 6"
definition EBUSY :: int where "EBUSY = 7"
definition ECHILD :: int where "ECHILD = 8"
definition EEXIST :: int where "EEXIST = 10"
definition EFAULT :: int where "EFAULT = 11"
definition EINTR :: int where "EINTR = 13"
definition EINVAL :: int where "EINVAL = 14"
definition EIO :: int where "EIO = 15"
definition EMFILE :: int where "EMFILE = 17"
definition ENAMETOOLONG :: int where "ENAMETOOLONG = 19"
definition ENFILE :: int where "ENFILE = 20"
definition ENODEV :: int where "ENODEV = 21"
definition ENOENT :: int where "ENOENT = 22"
definition ENOEXEC :: int where "ENOEXEC = 23"
definition ENOLCK :: int where "ENOLCK = 24"
definition ENOMEM :: int where "ENOMEM = 25"
definition ENOSPC :: int where "ENOSPC = 26"
definition ENOSYS :: int where "ENOSYS = 27"
definition ENOTEMPTY :: int where "ENOTEMPTY = 29"
definition ENOTTY :: int where "ENOTTY = 30"
definition ENXIO :: int where "ENXIO = 31"
definition EPERM :: int where "EPERM = 32"
definition EPIPE :: int where "EPIPE = 33"
definition EROFS :: int where "EROFS = 34"
definition ESPIPE :: int where "ESPIPE = 35"
definition ESRCH :: int where "ESRCH = 36"
definition EXDEV :: int where "EXDEV = 37"
definition ENMFILE :: int where "ENMFILE = 38"

lemmas errno_defs = EACCES_def EAGAIN_def EBADF_def EBUSY_def ECHILD_def EEXIST_def EFAULT_def EINTR_def EINVAL_def
  EIO_def EMFILE_def ENAMETOOLONG_def ENFILE_def ENODEV_def ENOENT_def ENOEXEC_def ENOLCK_def ENOMEM_def ENOSPC_def
  ENOSYS_def ENOTEMPTY_def ENOTTY_def ENXIO_def EPERM_def EPIPE_def EROFS_def ESPIPE_def ESRCH_def EXDEV_def
  ENMFILE_def

text \<open>Each row is labelled with the first code of the comment in front of it.\<close>

definition doserr_rows :: "(nat \<times> int list) list" where
  "doserr_rows = [
     (0x00, [0, EINVAL, ENOENT, ENOENT, EMFILE, EACCES, EBADF, EFAULT]),
     (0x08, [ENOMEM, EFAULT, EFAULT, EINVAL, EINVAL, EINVAL, EINVAL, ENODEV]),
     (0x10, [EBUSY, EXDEV, ENMFILE, EROFS, ENXIO, ENXIO, EINVAL, EIO]),
     (0x18, [EINVAL, EIO, EIO, EIO, EIO, EIO, EIO, EIO]),
     (0x20, [EPERM, EACCES, ENXIO, EBADF, ENOLCK, EINVAL, EIO, ENOSPC]),
     (0x28, [EINVAL, EINVAL, EINVAL, EINVAL, EINVAL, EINVAL, EINVAL, EINVAL]),
     (0x30, [EINVAL, EINVAL, ENOSYS, EIO, EINVAL, EINVAL, EBUSY, ENXIO]),
     (0x38, [EINVAL, EIO, EIO, EIO, EIO, EAGAIN, EINVAL, ENOSPC]),
     (0x40, [EINVAL, EPERM, ENXIO, EINVAL, EINVAL, EINVAL, EBUSY, ENXIO]),
     (0x48, [EINVAL, ENOSYS, ENXIO, EPERM, EPERM, ENOSPC, EPERM, EINVAL]),
     (0x50, [EEXIST, EINVAL, EPERM, EINTR, EPERM, EPERM, EINVAL, EINVAL]),
     (0x58, [EIO, ENOSYS, ENOSYS, ENXIO, ENXIO, EINVAL, EINVAL, ENXIO]),
     (0x60, [EINVAL, EINVAL, EINVAL, EINVAL, EPERM, ENXIO, ENOMEM, EINVAL]),
     (0x68, [ENODEV, ESRCH, EPERM, ENODEV, EBUSY, EPIPE, ENOENT, ENOSPC]),
     (0x70, [ENOSPC, ENFILE, EBADF, EFAULT, EIO, ENOTTY, EINVAL, ENOSYS]),
     (0x78, [EINVAL, EIO, EINVAL, ENOENT, ENOSYS, ENOENT, EINVAL, EINVAL]),
     (0x80, [ECHILD, EAGAIN, EINVAL, ESPIPE, ESPIPE, EXDEV, EXDEV, EXDEV]),
     (0x88, [ENODEV, ENODEV, EXDEV, EXDEV, EXDEV, EXDEV, EBUSY, EEXIST]),
     (0x90, [EACCES, ENOTEMPTY, EBUSY, EBUSY, EBUSY, EXDEV, EIO, EIO]),
     (0x98, [EPERM, EINVAL, ENAMETOOLONG, EAGAIN, EPERM, EINVAL, EINVAL, EFAULT]),
     (0xa0, [EFAULT, EINVAL, EPERM, EIO, EAGAIN, EIO, EINVAL, EINVAL]),
     (0xa8, [EINVAL, EINVAL, EINVAL, EINVAL, EINVAL, EINVAL, EINVAL, EINVAL]),
     (0xb0, [ENXIO, ENXIO, ENODEV, EINVAL, ENOLCK, EIO, EINVAL, ENOMEM]),
     (0xb8, [ECHILD, EAGAIN, EINVAL, EINVAL, ENOEXEC, ENOEXEC, ENOEXEC, ENOEXEC]),
     (0xc0, [ENOEXEC, ENOEXEC, ENOEXEC, ENOEXEC, EPERM, EPERM, ENOEXEC, ENOEXEC]),
     (0xc8, [ENOEXEC, ENOEXEC, ENOEXEC, EINVAL, EINVAL, ENXIO, ENAMETOOLONG, EBUSY]),
     (0xd0, [ENAMETOOLONG, EINVAL, EINVAL, ENOSYS, EACCES, EINVAL, EAGAIN, EINVAL]),
     (0xd8, [EINVAL, EINVAL, EINVAL, EINVAL, EINVAL, EINVAL, EINVAL, EINVAL]),
     (0xe0, [EINVAL, EINVAL, EINVAL, EINVAL, EINVAL, ENXIO, EBUSY]),
     (0xe8, [EAGAIN, EPIPE, EIO, EINVAL, EINVAL, EINVAL, EINVAL, EINVAL]),
     (0xf0, [EINVAL, EINVAL, EINVAL, EINVAL, EINVAL, EINVAL, EINVAL, EINVAL]),
     (0xf8, [EINVAL, EINVAL, EINVAL, EINVAL, EINVAL, EINVAL, EINVAL, ENXIO])]"

definition doserr_map :: "int list" where
  "doserr_map = concat (map snd doserr_rows)"

record doserr =
  doserrno :: int

definition doserr_to_errno :: "int \<Rightarrow> doserr \<Rightarrow> doserr \<times> int" where
  "doserr_to_errno d s =
     (let s = s\<lparr>doserrno := d\<rparr> in
      if d \<ge> 0 \<and> nat d < length doserr_map then (s, doserr_map ! nat d) else (s, EINVAL))"

section \<open>What the table holds\<close>

lemma doserr_map_length: "length doserr_map = 255" "length doserr_rows = 32"
  by (simp_all add: doserr_map_def doserr_rows_def)

text \<open>All rows but the one for the codes 0xe0 to 0xe7 have eight entries.\<close>

lemma doserr_row_lengths:
  "map (\<lambda>r. length (snd r)) doserr_rows = (replicate 32 8)[28 := 7]"
  "map fst doserr_rows = map (\<lambda>i. 8 * i) [0..<32]"
  by (simp_all add: doserr_rows_def upt_rec numeral_eq_Suc replicate_Suc)

text \<open>
  From the row for 0xe8 on, an entry stands one place before the code that the comments give it; the entry for 0xff is the
  last one, at index 0xfe.
\<close>

lemma doserr_shifted:
  "list_all (\<lambda>(first, row). first < 0xe0 \<longrightarrow> take 8 (drop first doserr_map) = row) doserr_rows"
  "list_all (\<lambda>(first, row). 0xe8 \<le> first \<longrightarrow> take 8 (drop (first - 1) doserr_map) = row) doserr_rows"
  by code_simp+

lemma doserr_range: "list_all (\<lambda>e. 0 \<le> e \<and> e \<le> 38) doserr_map"
  by code_simp

end
