(* ===== verification/Env.thy ===== *)
theory Env
  imports Doserr "HOL-Library.Multiset"
begin

text \<open>
  The environment: \<^verbatim>\<open>putenv\<close>, \<^verbatim>\<open>getenv\<close>, \<^verbatim>\<open>setenv\<close> and \<^verbatim>\<open>unsetenv\<close> on the NULL-terminated array
  \<^verbatim>\<open>_environ\<close> and the static counters that \<^verbatim>\<open>putenv\<close> keeps beside it. The interface is a map from
  names to values; it is stated as a locale and interpreted on the functions of the source.

  The array is a list of slots of the size it was allocated with; a slot holds a string or the null pointer.
  An access outside the array is the value \<^term>\<open>None\<close>. The answers of \<^verbatim>\<open>malloc\<close> and \<^verbatim>\<open>realloc\<close> are arguments.
\<close>

section \<open>Model\<close>

record env =
  environ :: nat
  slots :: "string option list"
  prev_environ :: nat
  ecount :: nat
  emax :: nat
  putenv_bss_count :: int
  environ_changed :: "32 word"
  env_errno :: int

text \<open>
  What the allocator answers to one call of \<^verbatim>\<open>putenv\<close>: whether there is room for a string, and for an array of
  so many pointers its address and what the memory happens to hold.
\<close>

record env_alloc =
  str_ok :: bool
  new_array :: "nat \<Rightarrow> (nat \<times> string option list) option"

fun count_slots :: "string option list \<Rightarrow> nat option" where
  "count_slots [] = None"
| "count_slots (None # r) = Some 0"
| "count_slots (Some e # r) = map_option Suc (count_slots r)"

definition recount :: "int \<Rightarrow> env \<Rightarrow> env option" where
  "recount bss s =
     (if putenv_bss_count s \<noteq> bss \<or> environ s \<noteq> prev_environ s then do {
        n \<leftarrow> count_slots (slots s);
        let s = s\<lparr>ecount := n, emax := n, environ_changed := environ_changed s + 1\<rparr>;
        Some (if putenv_bss_count s \<noteq> bss then s\<lparr>putenv_bss_count := bss, prev_environ := environ s\<rparr> else s)
      } else Some s)"

definition has_eq :: "string \<Rightarrow> bool" where
  "has_eq val \<longleftrightarrow> CHR ''='' \<in> set val"

definition env_nlen :: "string \<Rightarrow> nat" where
  "env_nlen val = (if has_eq val then length (takeWhile (\<lambda>c. c \<noteq> CHR ''='') val) + 1 else length val)"

definition env_hit :: "string \<Rightarrow> string \<Rightarrow> bool" where
  "env_hit val entry \<longleftrightarrow>
     take (env_nlen val) entry = take (env_nlen val) val \<and>
     (has_eq val \<or> env_nlen val < length entry \<and> entry ! env_nlen val = CHR ''='')"

fun find_entry :: "string \<Rightarrow> string option list \<Rightarrow> nat \<Rightarrow> (nat \<times> string) option option" where
  "find_entry val [] i = None"
| "find_entry val (None # r) i = Some None"
| "find_entry val (Some e # r) i = (if env_hit val e then Some (Some (i, e)) else find_entry val r (i + 1))"

definition put_slot :: "nat \<Rightarrow> string option \<Rightarrow> env \<Rightarrow> env option" where
  "put_slot i v s = (if i < length (slots s) then Some (s\<lparr>slots := (slots s)[i := v]\<rparr>) else None)"

definition bump :: "env \<Rightarrow> env" where
  "bump s = s\<lparr>environ_changed := environ_changed s + 1\<rparr>"

definition no_memory :: "env \<Rightarrow> (env \<times> int) option" where
  "no_memory s = Some (s\<lparr>env_errno := ENOMEM\<rparr>, -1)"

definition delete_entry :: "nat \<Rightarrow> env \<Rightarrow> (env \<times> int) option" where
  "delete_entry i s =
     (if 0 < ecount s \<and> ecount s \<le> length (slots s) then do {
        s \<leftarrow> put_slot i (slots s ! (ecount s - 1)) s;
        s \<leftarrow> put_slot (ecount s - 1) None s;
        Some (bump (s\<lparr>ecount := ecount s - 1\<rparr>), 0)
      } else None)"

definition change_entry :: "env_alloc \<Rightarrow> string \<Rightarrow> nat \<Rightarrow> string \<Rightarrow> env \<Rightarrow> (env \<times> int) option" where
  "change_entry al val i oval s =
     (if drop (env_nlen val) oval = drop (env_nlen val) val then Some (s, 0)
      else if length val \<noteq> length oval \<and> \<not> str_ok al then no_memory s
      else do { s \<leftarrow> put_slot i (Some val) s; Some (bump s, 0) })"

text \<open>The array grows by ten; \<^verbatim>\<open>emax\<close> is raised before the result of \<^verbatim>\<open>malloc\<close> is known.\<close>

definition grow_environ :: "env_alloc \<Rightarrow> env \<Rightarrow> (env \<times> bool) option" where
  "grow_environ al s =
     (if emax s \<le> ecount s then
        let s = s\<lparr>emax := emax s + 10\<rparr> in
        case new_array al (emax s + 1) of
          None \<Rightarrow> Some (s, False)
        | Some (a, b) \<Rightarrow>
            if ecount s \<le> length (slots s) \<and> ecount s \<le> length b
            then Some (s\<lparr>slots := take (ecount s) (slots s) @ drop (ecount s) b, environ := a, prev_environ := a\<rparr>, True)
            else None
      else Some (s, True))"

definition add_entry :: "env_alloc \<Rightarrow> string \<Rightarrow> env \<Rightarrow> (env \<times> int) option" where
  "add_entry al val s = do {
     (s, ok) \<leftarrow> grow_environ al s;
     if \<not> ok then no_memory s
     else if \<not> str_ok al then do { s \<leftarrow> put_slot (ecount s) None s; no_memory s }
     else do {
       s \<leftarrow> put_slot (ecount s) (Some val) s;
       let s = s\<lparr>ecount := ecount s + 1\<rparr>;
       s \<leftarrow> put_slot (ecount s) None s;
       Some (bump s, 0)
     }
   }"

definition putenv :: "int \<Rightarrow> env_alloc \<Rightarrow> string \<Rightarrow> env \<Rightarrow> (env \<times> int) option" where
  "putenv bss al val s =
     (if environ s = NULL then None
      else do {
        s \<leftarrow> recount bss s;
        found \<leftarrow> find_entry val (slots s) 0;
        case found of
          Some (i, oval) \<Rightarrow> if \<not> has_eq val then delete_entry i s else change_entry al val i oval s
        | None \<Rightarrow> if \<not> has_eq val then Some (s, 0) else add_entry al val s
      })"

text \<open>The inner loop of \<^verbatim>\<open>getenv\<close> over an entry and the name, and the loop over the array.\<close>

fun env_value :: "string \<Rightarrow> string \<Rightarrow> string option" where
  "env_value (e # ep) (n # np) = (if e = n \<and> n \<noteq> CHR ''='' then env_value ep np else None)"
| "env_value (e # ep) [] = (if e = CHR ''='' then Some ep else None)"
| "env_value [] np = None"

fun getenv_loop :: "string \<Rightarrow> string option list \<Rightarrow> string option option" where
  "getenv_loop name [] = None"
| "getenv_loop name (None # r) = Some None"
| "getenv_loop name (Some e # r) =
     (case env_value e name of Some v \<Rightarrow> Some (Some v) | None \<Rightarrow> getenv_loop name r)"

definition getenv :: "env \<Rightarrow> string \<Rightarrow> string option option" where
  "getenv s name = (if environ s = NULL then Some None else getenv_loop name (slots s))"

definition setenv_string :: "string \<Rightarrow> string \<Rightarrow> string" where
  "setenv_string var val =
     takeWhile (\<lambda>c. c \<noteq> CHR ''='') var @ CHR ''='' #
     (case val of c # v \<Rightarrow> if c = CHR ''='' then v else val | [] \<Rightarrow> [])"

definition setenv ::
  "int \<Rightarrow> env_alloc \<Rightarrow> string option \<Rightarrow> string option \<Rightarrow> bool \<Rightarrow> env \<Rightarrow> (env \<times> int) option" where
  "setenv bss al var val replace s =
     (let s = s\<lparr>env_errno := 0\<rparr> in
      case (var, val) of
        (Some var, Some val) \<Rightarrow> do {
          prev \<leftarrow> getenv s var;
          if prev \<noteq> None \<and> \<not> replace then Some (s, 0) else putenv bss al (setenv_string var val) s
        }
      | _ \<Rightarrow> Some (s\<lparr>env_errno := EINVAL\<rparr>, -1))"

definition unsetenv :: "int \<Rightarrow> env_alloc \<Rightarrow> string option \<Rightarrow> env \<Rightarrow> (env \<times> int) option" where
  "unsetenv bss al name s =
     (if environ s = NULL then Some (s, 0)
      else case name of
        None \<Rightarrow> Some (s\<lparr>env_errno := EINVAL\<rparr>, -1)
      | Some name \<Rightarrow>
          if name = [] \<or> has_eq name then Some (s\<lparr>env_errno := EINVAL\<rparr>, -1)
          else do { (s, r) \<leftarrow> putenv bss al name s; Some (s, 0) })"

section \<open>Interface\<close>

text \<open>
  What a client of the environment relies on: setting a name changes that name, removing it removes that name, and
  nothing else happens.
\<close>

locale environment =
  fixes lookup :: "'s \<Rightarrow> string \<Rightarrow> string option"
    and update :: "string \<Rightarrow> string \<Rightarrow> 's \<Rightarrow> 's option"
    and delete :: "string \<Rightarrow> 's \<Rightarrow> 's option"
    and invar :: "'s \<Rightarrow> bool"
    and legal :: "string \<Rightarrow> bool"
  assumes update_ok: "invar s \<Longrightarrow> legal n \<Longrightarrow>
      \<exists>s'. update n v s = Some s' \<and> invar s' \<and> lookup s' = (lookup s)(n \<mapsto> v)"
    and delete_ok: "invar s \<Longrightarrow> legal n \<Longrightarrow>
      \<exists>s'. delete n s = Some s' \<and> invar s' \<and> lookup s' = (lookup s)(n := None)"
begin

definition command :: "string \<times> string option \<Rightarrow> 's \<Rightarrow> 's option" where
  "command c s = (case c of (n, Some v) \<Rightarrow> update n v s | (n, None) \<Rightarrow> delete n s)"

primrec run :: "(string \<times> string option) list \<Rightarrow> 's \<Rightarrow> 's option" where
  "run [] s = Some s"
| "run (c # cs) s = command c s \<bind> run cs"

primrec effect :: "(string \<times> string option) list \<Rightarrow> (string \<Rightarrow> string option) \<Rightarrow> string \<Rightarrow> string option" where
  "effect [] m = m"
| "effect (c # cs) m = effect cs (m(fst c := snd c))"

lemma command_ok:
  assumes "invar s" "legal (fst c)"
  shows "\<exists>t. command c s = Some t \<and> invar t \<and> lookup t = (lookup s)(fst c := snd c)"
  using update_ok [OF assms] delete_ok [OF assms] by (cases c; cases "snd c") (auto simp: command_def)

lemma run_effect:
  assumes "invar s" "\<And>c. c \<in> set cs \<Longrightarrow> legal (fst c)"
  shows "\<exists>s'. run cs s = Some s' \<and> invar s' \<and> lookup s' = effect cs (lookup s)"
  using assms
proof (induction cs arbitrary: s)
  case (Cons c cs)
  obtain t where "command c s = Some t" "invar t" "lookup t = (lookup s)(fst c := snd c)"
    using command_ok [OF Cons.prems(1), of c] Cons.prems(2) by auto
  with Cons.IH [of t] Cons.prems(2) show ?case by (simp del: fun_upd_apply)
qed simp

end

section \<open>Environments as association lists\<close>

definition entry :: "string \<times> string \<Rightarrow> string" where
  "entry b = fst b @ CHR ''='' # snd b"

definition legal_name :: "string \<Rightarrow> bool" where
  "legal_name n \<longleftrightarrow> \<not> has_eq n"

text \<open>
  The state holds the bindings \<open>kv\<close>: they are the entries of the array in front of the first null pointer, no name
  occurs twice, and the counters, when \<^verbatim>\<open>putenv\<close> will trust them, describe the array.
\<close>

definition env_rep :: "int \<Rightarrow> env \<Rightarrow> (string \<times> string) list \<Rightarrow> bool" where
  "env_rep bss s kv \<longleftrightarrow>
     environ s \<noteq> NULL \<and> length kv < length (slots s) \<and>
     take (length kv) (slots s) = map (\<lambda>b. Some (entry b)) kv \<and> slots s ! length kv = None \<and>
     distinct (map fst kv) \<and> list_all legal_name (map fst kv) \<and>
     (putenv_bss_count s = bss \<and> environ s = prev_environ s \<longrightarrow>
        ecount s = length kv \<and> length kv \<le> emax s \<and> emax s < length (slots s))"

definition env_ok :: "int \<Rightarrow> env \<Rightarrow> bool" where
  "env_ok bss s \<longleftrightarrow> (\<exists>kv. env_rep bss s kv)"

definition env_map :: "env \<Rightarrow> string \<Rightarrow> string option" where
  "env_map s n = Option.bind (getenv s n) (\<lambda>v. v)"

lemma slots_split:
  assumes "env_rep bss s kv"
  obtains r where "slots s = map (\<lambda>b. Some (entry b)) kv @ None # r"
proof
  let ?k = "length kv"
  have "slots s = take ?k (slots s) @ slots s ! ?k # drop (Suc ?k) (slots s)"
    using assms by (intro id_take_nth_drop) (simp add: env_rep_def)
  then show "slots s = map (\<lambda>b. Some (entry b)) kv @ None # drop (Suc ?k) (slots s)"
    using assms by (simp add: env_rep_def)
qed

lemma env_value_entry:
  "\<not> has_eq m \<Longrightarrow> env_value (m @ CHR ''='' # w) n = (if n = m then Some w else None)"
proof (induction m arbitrary: n)
  case Nil
  then show ?case by (cases n) auto
next
  case (Cons c m)
  then show ?case by (cases n) (auto simp: has_eq_def)
qed

lemma nlen_name: "\<not> has_eq n \<Longrightarrow> env_nlen n = length n"
  by (simp add: env_nlen_def)

lemma nlen_binding: "\<not> has_eq n \<Longrightarrow> env_nlen (n @ CHR ''='' # v) = Suc (length n)"
proof -
  assume "\<not> has_eq n"
  then have "takeWhile (\<lambda>c. c \<noteq> CHR ''='') (n @ CHR ''='' # v) = n"
    by (induction n) (auto simp: has_eq_def)
  then show ?thesis by (simp add: env_nlen_def has_eq_def)
qed

lemma prefix_eq:
  assumes "\<not> has_eq n" "\<not> has_eq m"
  shows "take (Suc (length n)) (m @ CHR ''='' # w) = n @ [CHR ''=''] \<longleftrightarrow> m = n"
  using assms
proof (induction n arbitrary: m)
  case Nil
  then show ?case by (cases m) (auto simp: has_eq_def)
next
  case (Cons c n)
  then show ?case by (cases m) (auto simp: has_eq_def)
qed

lemma hit_binding:
  assumes "\<not> has_eq n" "\<not> has_eq (fst b)"
  shows "env_hit (entry (n, v)) (entry b) \<longleftrightarrow> fst b = n"
  using prefix_eq [OF assms, of "snd b"]
  by (auto simp: env_hit_def entry_def nlen_binding [OF assms(1)] has_eq_def)

lemma hit_name:
  assumes "\<not> has_eq n" "\<not> has_eq (fst b)"
  shows "env_hit n (entry b) \<longleftrightarrow> fst b = n"
proof -
  have "take (Suc (length n)) e = take (length n) e @ [e ! length n]" if "length n < length e" for e :: string
    using that by (rule take_Suc_conv_app_nth)
  then have "env_hit n (entry b) \<longleftrightarrow> length n < length (entry b) \<and> take (Suc (length n)) (entry b) = n @ [CHR ''='']"
    using assms by (auto simp: env_hit_def nlen_name)
  also have "\<dots> \<longleftrightarrow> fst b = n"
    using prefix_eq [OF assms, of "snd b"] by (auto simp: entry_def)
  finally show ?thesis .
qed

lemma getenv_layout:
  assumes "environ s \<noteq> NULL" "slots s = map (\<lambda>b. Some (entry b)) kv @ None # r" "list_all legal_name (map fst kv)"
  shows "getenv s n = Some (map_of kv n)"
proof -
  have "getenv_loop n (map (\<lambda>b. Some (entry b)) kv @ None # r) = Some (map_of kv n)"
    using assms(3) by (induction kv) (auto simp: env_value_entry entry_def legal_name_def)
  then show ?thesis using assms by (simp add: getenv_def)
qed

lemma getenv_rep:
  assumes "env_rep bss s kv"
  shows "getenv s n = Some (map_of kv n)"
proof -
  obtain r where r: "slots s = map (\<lambda>b. Some (entry b)) kv @ None # r"
    using slots_split [OF assms] .
  show ?thesis using getenv_layout [OF _ r] assms by (simp add: env_rep_def)
qed

lemma env_map_rep: "env_rep bss s kv \<Longrightarrow> env_map s = map_of kv"
  by (auto simp: env_map_def getenv_rep fun_eq_iff)

lemma count_slots_rep: "count_slots (map (\<lambda>b. Some (entry b)) kv @ None # r) = Some (length kv)"
  by (induction kv) auto

text \<open>After the counters have been brought up to date they describe the array.\<close>

definition counted :: "int \<Rightarrow> env \<Rightarrow> (string \<times> string) list \<Rightarrow> bool" where
  "counted bss s kv \<longleftrightarrow> env_rep bss s kv \<and> ecount s = length kv \<and> length kv \<le> emax s \<and>
     emax s < length (slots s) \<and> putenv_bss_count s = bss"

lemma recount_rep:
  assumes "env_rep bss s kv"
  shows "\<exists>s'. recount bss s = Some s' \<and> counted bss s' kv"
proof -
  obtain r where r: "slots s = map (\<lambda>b. Some (entry b)) kv @ None # r"
    using slots_split [OF assms] .
  have c: "count_slots (slots s) = Some (length kv)"
    by (simp add: r count_slots_rep)
  show ?thesis
  proof (cases "putenv_bss_count s \<noteq> bss \<or> environ s \<noteq> prev_environ s")
    case True
    then show ?thesis
      using assms by (auto simp: recount_def c counted_def env_rep_def Let_def)
  next
    case False
    then show ?thesis
      using assms by (auto simp: recount_def counted_def env_rep_def)
  qed
qed

lemma find_entry_absent:
  assumes "\<And>b. b \<in> set kv \<Longrightarrow> \<not> env_hit val (entry b)"
  shows "find_entry val (map (\<lambda>b. Some (entry b)) kv @ None # r) i = Some None"
  using assms by (induction kv arbitrary: i) auto

lemma find_entry_first:
  assumes "\<And>b. b \<in> set kv \<Longrightarrow> \<not> env_hit val (entry b)" "env_hit val (entry b)"
  shows "find_entry val (map (\<lambda>b. Some (entry b)) kv @ Some (entry b) # r) i = Some (Some (i + length kv, entry b))"
  using assms by (induction kv arbitrary: i) auto

abbreviation (input) strings_of :: "(string \<times> string) list \<Rightarrow> string option list" where
  "strings_of kv \<equiv> map (\<lambda>b. Some (entry b)) kv"

lemma counted_iff:
  "counted bss s kv \<longleftrightarrow>
     environ s \<noteq> NULL \<and> (\<exists>r. slots s = strings_of kv @ None # r) \<and> distinct (map fst kv) \<and>
     list_all legal_name (map fst kv) \<and> ecount s = length kv \<and> length kv \<le> emax s \<and>
     emax s < length (slots s) \<and> putenv_bss_count s = bss"
  (is "?L = ?R")
proof
  assume ?L
  moreover from this obtain r where "slots s = strings_of kv @ None # r"
    by (auto simp: counted_def elim: slots_split)
  ultimately show ?R by (auto simp: counted_def env_rep_def)
next
  assume ?R
  then show ?L by (auto simp: counted_def env_rep_def nth_append)
qed

lemma delete_counted:
  assumes "counted bss s (a @ b # c)"
  shows "\<exists>s'. delete_entry (length a) s = Some (s', 0) \<and>
      counted bss s' (if c = [] then a else a @ last c # butlast c)"
proof -
  from assms obtain r where r: "slots s = strings_of (a @ b # c) @ None # r"
    by (auto simp: counted_iff)
  show ?thesis
  proof (cases c rule: rev_cases)
    case Nil
    then show ?thesis
      using assms r
      by (auto simp: counted_iff delete_entry_def put_slot_def bump_def nth_append list_update_append)
  next
    case (snoc c' l)
    then show ?thesis
      using assms r
      by (auto simp: counted_iff delete_entry_def put_slot_def bump_def nth_append list_update_append)
  qed
qed

lemma entry_same: "\<not> has_eq n \<Longrightarrow>
  drop (env_nlen (entry (n, v))) (entry (n, w)) = drop (env_nlen (entry (n, v))) (entry (n, v)) \<longleftrightarrow> w = v"
  by (simp add: entry_def nlen_binding)

lemma change_counted:
  assumes "counted bss s (a @ (n, w) # c)" "\<not> has_eq n" "str_ok al"
  shows "\<exists>s'. change_entry al (entry (n, v)) (length a) (entry (n, w)) s = Some (s', 0) \<and>
      counted bss s' (a @ (n, v) # c)"
  using assms by (auto simp: counted_iff change_entry_def entry_same put_slot_def bump_def list_update_append)

text \<open>What the allocator promises: an array that was granted is not null and has the size that was asked for.\<close>

definition alloc_ok :: "env_alloc \<Rightarrow> bool" where
  "alloc_ok al \<longleftrightarrow> (\<forall>n. case new_array al n of Some (a, b) \<Rightarrow> a \<noteq> NULL \<and> length b = n | None \<Rightarrow> True)"

definition alloc_grants :: "env_alloc \<Rightarrow> bool" where
  "alloc_grants al \<longleftrightarrow> alloc_ok al \<and> str_ok al \<and> (\<forall>n. new_array al n \<noteq> None)"

lemma grow_counted:
  assumes "counted bss s kv" "alloc_ok al"
  shows "\<exists>s' ok. grow_environ al s = Some (s', ok) \<and> ((\<forall>n. new_array al n \<noteq> None) \<longrightarrow> ok) \<and>
      (if ok then environ s' \<noteq> NULL \<and> (\<exists>x y r. slots s' = strings_of kv @ x # y # r) \<and> ecount s' = length kv \<and>
         length kv < emax s' \<and> emax s' < length (slots s') \<and> putenv_bss_count s' = bss
       else slots s' = slots s \<and> environ s' = environ s)"
proof (cases "emax s \<le> ecount s")
  case True
  show ?thesis
  proof (cases "new_array al (11 + emax s)")
    case None
    then show ?thesis
      using assms(1) True by (auto simp: counted_iff grow_environ_def Let_def)
  next
    case (Some ab)
    then obtain a b where ab: "new_array al (11 + emax s) = Some (a, b)" "a \<noteq> NULL" "length b = 11 + emax s"
      using assms(2) by (cases ab) (force simp: alloc_ok_def dest: spec [of _ "11 + emax s"])
    have e: "ecount s = length kv" "emax s = length kv" "take (length kv) (slots s) = strings_of kv"
        "length kv \<le> length (slots s)" "putenv_bss_count s = bss"
      using assms(1) True by (auto simp: counted_iff)
    have "2 \<le> length (drop (length kv) b)"
      using ab(3) e by simp
    then obtain x y r where xy: "drop (length kv) b = x # y # r"
      by (metis One_nat_def Suc_1 Suc_le_length_iff)
    have "grow_environ al s = Some (s\<lparr>emax := length kv + 10, slots := strings_of kv @ x # y # r, environ := a,
        prev_environ := a\<rparr>, True)"
      using ab e xy by (simp add: grow_environ_def Let_def)
    moreover have "length b = length kv + length (x # y # r)"
      using arg_cong [OF xy, of length] ab(3) e by simp
    ultimately show ?thesis
      using ab e by auto
  qed
next
  case False
  with assms(1) obtain r where r: "slots s = strings_of kv @ None # r" "r \<noteq> []"
    by (fastforce simp: counted_iff)
  then show ?thesis
    using assms(1) False by (auto simp: counted_iff grow_environ_def neq_Nil_conv)
qed

lemma add_counted:
  assumes "counted bss s kv" "alloc_grants al" "legal_name n" "n \<notin> fst ` set kv"
  shows "\<exists>s'. add_entry al (entry (n, v)) s = Some (s', 0) \<and> counted bss s' (kv @ [(n, v)])"
  using grow_counted [OF assms(1), of al] assms
  by (auto simp: add_entry_def put_slot_def bump_def counted_iff alloc_grants_def list_update_append)

lemma counted_rep: "counted bss s kv \<Longrightarrow> env_rep bss s kv"
  by (simp add: counted_def)

lemma counted_slots:
  assumes "counted bss s kv"
  obtains r where "slots s = strings_of kv @ None # r"
  using assms by (auto simp: counted_iff)

lemma legal_fst: "list_all legal_name (map fst kv) \<Longrightarrow> b \<in> set kv \<Longrightarrow> \<not> has_eq (fst b)"
  by (auto simp: list_all_iff legal_name_def)

text \<open>The search of \<^verbatim>\<open>putenv\<close>, for a binding or for a bare name.\<close>

lemma find_counted:
  assumes c: "counted bss s kv" and n: "legal_name n" and val: "val = n \<or> val = entry (n, v)"
  shows "n \<notin> fst ` set kv \<Longrightarrow> find_entry val (slots s) 0 = Some None"
    and "kv = a @ (n, w) # b \<Longrightarrow> find_entry val (slots s) 0 = Some (Some (length a, entry (n, w)))"
proof -
  obtain r where r: "slots s = strings_of kv @ None # r"
    using counted_slots [OF c] .
  have hit: "env_hit val (entry x) \<longleftrightarrow> fst x = n" if "x \<in> set kv" for x
    using val hit_binding [of n x v] hit_name [of n x] n that c
    by (auto simp: legal_name_def counted_iff list_all_iff)
  show "find_entry val (slots s) 0 = Some None" if "n \<notin> fst ` set kv"
    using that hit unfolding r by (intro find_entry_absent) force
  show "find_entry val (slots s) 0 = Some (Some (length a, entry (n, w)))" if kv: "kv = a @ (n, w) # b"
  proof -
    have "n \<notin> fst ` set a"
      using c kv by (simp add: counted_iff)
    then have "\<not> env_hit val (entry x)" if "x \<in> set a" for x
      using hit [of x] kv that by auto
    moreover have "env_hit val (entry (n, w))"
      using hit [of "(n, w)"] kv by simp
    ultimately have "find_entry val (strings_of a @ Some (entry (n, w)) # strings_of b @ None # r) 0 =
        Some (Some (0 + length a, entry (n, w)))"
      by (rule find_entry_first)
    then show ?thesis by (simp add: r kv)
  qed
qed

lemma map_of_update:
  assumes "distinct (map fst (a @ (n, w) # b))"
  shows "map_of (a @ (n, v) # b) = (map_of (a @ (n, w) # b))(n \<mapsto> v)"
proof -
  have "map_of a n = None"
    using assms by (simp add: map_of_eq_None_iff)
  then show ?thesis by (auto simp: fun_eq_iff map_add_def split: option.splits)
qed

lemma map_of_swap_delete:
  assumes "distinct (map fst (a @ (n, w) # b))"
  shows "map_of (if b = [] then a else a @ last b # butlast b) = (map_of (a @ (n, w) # b))(n := None)"
proof -
  let ?l = "if b = [] then a else a @ last b # butlast b"
  have s: "set ?l = set (a @ b)" and m: "mset (map fst ?l) = mset (map fst (a @ b))"
    by (cases b rule: rev_cases; simp)+
  have "distinct (map fst ?l)"
    using mset_eq_imp_distinct_iff [OF m] assms by simp
  then have "map_of ?l = map_of (a @ b)"
    using assms s by (intro map_of_inject_set [THEN iffD2]) auto
  also have "\<dots> = (map_of (a @ (n, w) # b))(n := None)"
  proof -
    have "map_of a n = None" "map_of b n = None"
      using assms by (simp_all add: map_of_eq_None_iff)
    then show ?thesis by (auto simp: fun_eq_iff map_add_def split: option.splits)
  qed
  finally show ?thesis .
qed

lemma putenv_counted:
  assumes "env_rep bss s kv"
  obtains t where "counted bss t kv" "env_map t = env_map s"
    "\<And>val al. putenv bss al val s = find_entry val (slots t) 0 \<bind> (\<lambda>found. case found of
          Some (i, oval) \<Rightarrow> if \<not> has_eq val then delete_entry i t else change_entry al val i oval t
        | None \<Rightarrow> if \<not> has_eq val then Some (t, 0) else add_entry al val t)"
proof -
  obtain t where t: "recount bss s = Some t" "counted bss t kv"
    using recount_rep [OF assms] by blast
  moreover have "env_map t = env_map s"
    using env_map_rep [OF assms] env_map_rep [OF counted_rep [OF t(2)]] by simp
  moreover have "environ s \<noteq> NULL"
    using assms by (simp add: env_rep_def)
  ultimately show ?thesis
    using that [of t] by (simp add: putenv_def)
qed

lemma binding_split:
  assumes "n \<in> fst ` set kv"
  obtains a w b where "kv = a @ (n, w) # b"
  using assms by (auto dest!: split_list)

lemma has_eq_entry: "has_eq (entry b)"
  by (simp add: has_eq_def entry_def)

lemma putenv_binding:
  assumes "env_ok bss s" "legal_name n" "alloc_grants al"
  shows "\<exists>s'. putenv bss al (entry (n, v)) s = Some (s', 0) \<and> env_ok bss s' \<and> env_map s' = (env_map s)(n \<mapsto> v)"
proof -
  obtain kv where kv: "env_rep bss s kv"
    using assms(1) by (auto simp: env_ok_def)
  obtain t where t: "counted bss t kv" "env_map t = env_map s" and
    p: "\<And>val al. putenv bss al val s = find_entry val (slots t) 0 \<bind> (\<lambda>found. case found of
          Some (i, oval) \<Rightarrow> if \<not> has_eq val then delete_entry i t else change_entry al val i oval t
        | None \<Rightarrow> if \<not> has_eq val then Some (t, 0) else add_entry al val t)"
    using putenv_counted [OF kv] by blast
  note m = env_map_rep [OF counted_rep]
  show ?thesis
  proof (cases "n \<in> fst ` set kv")
    case True
    then obtain a w b where ab: "kv = a @ (n, w) # b" by (rule binding_split)
    obtain s' where "change_entry al (entry (n, v)) (length a) (entry (n, w)) t = Some (s', 0)"
        "counted bss s' (a @ (n, v) # b)"
      using change_counted [of bss t a n w b al v] t(1) assms ab by (auto simp: legal_name_def alloc_grants_def)
    moreover have "map_of (a @ (n, v) # b) = (env_map s)(n \<mapsto> v)"
      using map_of_update [of a n w b v] t m [OF t(1)] ab by (simp add: counted_iff)
    ultimately show ?thesis
      using find_counted(2) [OF t(1) assms(2) disjI2 [OF refl] ab]
      by (auto simp: p has_eq_entry env_ok_def m dest: counted_rep)
  next
    case False
    obtain s' where "add_entry al (entry (n, v)) t = Some (s', 0)" "counted bss s' (kv @ [(n, v)])"
      using add_counted [OF t(1) assms(3,2) False] by blast
    moreover have "map_of kv n = None"
      using False by (simp add: map_of_eq_None_iff)
    then have "map_of (kv @ [(n, v)]) = (env_map s)(n \<mapsto> v)"
      using t m [OF t(1)] by (auto simp: fun_eq_iff map_add_def split: option.splits)
    ultimately show ?thesis
      using find_counted(1) [OF t(1) assms(2) disjI2 [OF refl] False]
      by (auto simp: p has_eq_entry env_ok_def m dest: counted_rep)
  qed
qed

lemma putenv_name:
  assumes "env_ok bss s" "legal_name n"
  shows "\<exists>s'. putenv bss al n s = Some (s', 0) \<and> env_ok bss s' \<and> env_map s' = (env_map s)(n := None)"
proof -
  obtain kv where kv: "env_rep bss s kv"
    using assms(1) by (auto simp: env_ok_def)
  obtain t where t: "counted bss t kv" "env_map t = env_map s" and
    p: "\<And>val al. putenv bss al val s = find_entry val (slots t) 0 \<bind> (\<lambda>found. case found of
          Some (i, oval) \<Rightarrow> if \<not> has_eq val then delete_entry i t else change_entry al val i oval t
        | None \<Rightarrow> if \<not> has_eq val then Some (t, 0) else add_entry al val t)"
    using putenv_counted [OF kv] by blast
  note m = env_map_rep [OF counted_rep]
  have n: "\<not> has_eq n" using assms(2) by (simp add: legal_name_def)
  show ?thesis
  proof (cases "n \<in> fst ` set kv")
    case True
    then obtain a w b where ab: "kv = a @ (n, w) # b" by (rule binding_split)
    obtain s' where "delete_entry (length a) t = Some (s', 0)"
        "counted bss s' (if b = [] then a else a @ last b # butlast b)"
      using delete_counted [of bss t a "(n, w)" b] t(1) ab by blast
    moreover have "map_of (if b = [] then a else a @ last b # butlast b) = (env_map s)(n := None)"
      using map_of_swap_delete [of a n w b] t m [OF t(1)] ab by (simp add: counted_iff)
    ultimately show ?thesis
      using find_counted(2) [OF t(1) assms(2) disjI1 [OF refl] ab] n
      by (auto simp: p env_ok_def m dest: counted_rep)
  next
    case False
    then have "map_of kv n = None"
      by (simp add: map_of_eq_None_iff)
    then show ?thesis
      using find_counted(1) [OF t(1) assms(2) disjI1 [OF refl] False] n t m [OF t(1)]
      by (auto simp: p env_ok_def fun_eq_iff intro!: exI [of _ t] dest: counted_rep)
  qed
qed

text \<open>The interface on the functions of the source, when the allocator grants what is asked for.\<close>

definition env_update :: "int \<Rightarrow> env_alloc \<Rightarrow> string \<Rightarrow> string \<Rightarrow> env \<Rightarrow> env option" where
  "env_update bss al n v s = map_option fst (putenv bss al (entry (n, v)) s)"

definition env_delete :: "int \<Rightarrow> env_alloc \<Rightarrow> string \<Rightarrow> env \<Rightarrow> env option" where
  "env_delete bss al n s = map_option fst (putenv bss al n s)"

interpretation putenv_env: environment env_map "env_update bss al" "env_delete bss al"
    "\<lambda>s. env_ok bss s \<and> alloc_grants al" legal_name for bss al
proof unfold_locales
  fix s n v
  assume "env_ok bss s \<and> alloc_grants al" "legal_name n"
  then show "\<exists>s'. env_update bss al n v s = Some s' \<and> (env_ok bss s' \<and> alloc_grants al) \<and>
      env_map s' = (env_map s)(n \<mapsto> v)"
    using putenv_binding [of bss s n al v] by (auto simp: env_update_def)
next
  fix s n
  assume "env_ok bss s \<and> alloc_grants al" "legal_name n"
  then show "\<exists>s'. env_delete bss al n s = Some s' \<and> (env_ok bss s' \<and> alloc_grants al) \<and>
      env_map s' = (env_map s)(n := None)"
    using putenv_name [of bss s n al] by (auto simp: env_delete_def)
qed

text \<open>A run of \<^verbatim>\<open>putenv\<close> calls, and what each call asks for.\<close>

primrec putenv_all :: "int \<Rightarrow> env_alloc \<Rightarrow> string list \<Rightarrow> env \<Rightarrow> env option" where
  "putenv_all bss al [] s = Some s"
| "putenv_all bss al (val # vals) s = map_option fst (putenv bss al val s) \<bind> putenv_all bss al vals"

definition request :: "string \<Rightarrow> string \<times> string option" where
  "request val = (takeWhile (\<lambda>c. c \<noteq> CHR ''='') val,
     if has_eq val then Some (tl (dropWhile (\<lambda>c. c \<noteq> CHR ''='') val)) else None)"

primrec requests :: "string list \<Rightarrow> (string \<Rightarrow> string option) \<Rightarrow> string \<Rightarrow> string option" where
  "requests [] m = m"
| "requests (val # vals) m = requests vals (m(fst (request val) := snd (request val)))"

lemma request_cases:
  "has_eq val \<Longrightarrow> val = entry (fst (request val), the (snd (request val))) \<and> snd (request val) \<noteq> None"
  "\<not> has_eq val \<Longrightarrow> request val = (val, None)"
  "legal_name (fst (request val))"
proof -
  assume "has_eq val"
  then obtain a b where ab: "val = a @ CHR ''='' # b" "CHR ''='' \<notin> set a"
    by (auto simp: has_eq_def dest: split_list_first)
  then have "takeWhile (\<lambda>c. c \<noteq> CHR ''='') val = a" "dropWhile (\<lambda>c. c \<noteq> CHR ''='') val = CHR ''='' # b"
    by (induction a arbitrary: val) auto
  with \<open>has_eq val\<close> show "val = entry (fst (request val), the (snd (request val))) \<and> snd (request val) \<noteq> None"
    by (simp add: request_def entry_def ab(1))
next
  assume "\<not> has_eq val"
  then show "request val = (val, None)"
    by (auto simp: request_def has_eq_def takeWhile_eq_all_conv)
next
  show "legal_name (fst (request val))"
    by (auto simp: request_def legal_name_def has_eq_def dest: set_takeWhileD)
qed

lemma putenv_command: "map_option fst (putenv bss al val s) = putenv_env.command bss al (request val) s"
  using request_cases [of val]
  by (cases "has_eq val") (auto simp: putenv_env.command_def env_update_def env_delete_def split: prod.splits option.splits)

lemma putenv_all_run: "putenv_all bss al vals s = putenv_env.run bss al (map request vals) s"
  by (induction vals arbitrary: s) (auto simp: putenv_command split: bind_splits)

lemma requests_effect: "requests vals m = putenv_env.effect (map request vals) m"
  by (induction vals arbitrary: m) auto

text \<open>Without memory nothing is lost: the call fails and every name keeps its value.\<close>

lemma env_map_same: "slots s' = slots s \<Longrightarrow> environ s' = environ s \<Longrightarrow> env_map s' = env_map s"
  by (simp add: env_map_def getenv_def fun_eq_iff)

lemma change_fails:
  assumes "counted bss t kv" "i < length kv"
  shows "\<exists>s' r. change_entry al val i oval t = Some (s', r) \<and>
      (r = 0 \<or> r = -1 \<and> env_errno s' = ENOMEM \<and> env_map s' = env_map t)"
  using assms by (auto simp: change_entry_def no_memory_def put_slot_def counted_iff intro!: env_map_same)

lemma add_fails:
  assumes "counted bss t kv" "alloc_ok al"
  shows "\<exists>s' r. add_entry al val t = Some (s', r) \<and>
      (r = 0 \<or> r = -1 \<and> env_errno s' = ENOMEM \<and> env_map s' = env_map t)"
proof -
  obtain u ok where u: "grow_environ al t = Some (u, ok)" and
    ok: "if ok then environ u \<noteq> NULL \<and> (\<exists>x y r. slots u = strings_of kv @ x # y # r) \<and> ecount u = length kv \<and>
         length kv < emax u \<and> emax u < length (slots u) \<and> putenv_bss_count u = bss
       else slots u = slots t \<and> environ u = environ t"
    using grow_counted [OF assms] by blast
  show ?thesis
  proof (cases ok)
    case False
    then show ?thesis using u ok by (auto simp: add_entry_def no_memory_def intro!: env_map_same)
  next
    case True
    then obtain x y r where xy: "slots u = strings_of kv @ x # y # r" "environ u \<noteq> NULL" "ecount u = length kv"
      using ok by auto
    have "env_map (u\<lparr>slots := strings_of kv @ None # y # r, env_errno := e\<rparr>) = env_map t" for e
      using getenv_layout [of "u\<lparr>slots := strings_of kv @ None # y # r, env_errno := e\<rparr>" kv "y # r"] xy(2)
        assms(1) env_map_rep [OF counted_rep [OF assms(1)]]
      by (auto simp: env_map_def fun_eq_iff counted_iff)
    then show ?thesis
      using u True xy by (auto simp: add_entry_def no_memory_def put_slot_def list_update_append)
  qed
qed

lemma putenv_fails:
  assumes "env_ok bss s" "alloc_ok al"
  shows "\<exists>s' r. putenv bss al val s = Some (s', r) \<and>
      (r = 0 \<or> r = -1 \<and> env_errno s' = ENOMEM \<and> env_map s' = env_map s)"
proof (cases "has_eq val")
  case False
  then show ?thesis
    using putenv_name [OF assms(1), of val al] by (auto simp: legal_name_def)
next
  case True
  obtain kv where kv: "env_rep bss s kv"
    using assms(1) by (auto simp: env_ok_def)
  obtain t where t: "counted bss t kv" "env_map t = env_map s" and
    p: "\<And>val al. putenv bss al val s = find_entry val (slots t) 0 \<bind> (\<lambda>found. case found of
          Some (i, oval) \<Rightarrow> if \<not> has_eq val then delete_entry i t else change_entry al val i oval t
        | None \<Rightarrow> if \<not> has_eq val then Some (t, 0) else add_entry al val t)"
    using putenv_counted [OF kv] by blast
  let ?n = "fst (request val)"
  have val: "val = entry (?n, the (snd (request val)))" and n: "legal_name ?n"
    using request_cases [of val] True by blast+
  show ?thesis
  proof (cases "?n \<in> fst ` set kv")
    case in_kv: True
    then obtain a w b where ab: "kv = a @ (?n, w) # b" by (rule binding_split)
    then show ?thesis
      using find_counted(2) [OF t(1) n disjI2 [OF val] ab] True
        change_fails [OF t(1), of "length a" al val "entry (?n, w)"] t(2)
      by (simp add: p)
  next
    case False
    then show ?thesis
      using find_counted(1) [OF t(1) n disjI2 [OF val] False] True add_fails [OF t(1) assms(2), of val] t(2)
      by (simp add: p)
  qed
qed

definition stripped :: "string \<Rightarrow> string" where
  "stripped val = (if val \<noteq> [] \<and> hd val = CHR ''='' then tl val else val)"

lemma env_ok_errno: "env_ok bss s \<Longrightarrow> env_ok bss (s\<lparr>env_errno := e\<rparr>)"
  by (auto simp: env_ok_def env_rep_def)

lemma env_map_errno: "env_map (s\<lparr>env_errno := e\<rparr>) = env_map s"
  by (rule env_map_same) simp_all

lemma env_map_getenv: "env_ok bss s \<Longrightarrow> getenv s n = Some (env_map s n)"
  using getenv_rep env_map_rep by (metis env_ok_def)

lemma setenv_map:
  assumes "env_ok bss s" "alloc_grants al"
  shows "\<exists>s'. setenv bss al (Some var) (Some val) replace s = Some (s', 0) \<and> env_ok bss s' \<and>
      env_map s' = (if env_map s var \<noteq> None \<and> \<not> replace then env_map s
                    else (env_map s)(takeWhile (\<lambda>c. c \<noteq> CHR ''='') var \<mapsto> stripped val))"
proof -
  have val: "setenv_string var val = entry (takeWhile (\<lambda>c. c \<noteq> CHR ''='') var, stripped val)"
    by (auto simp: setenv_string_def entry_def stripped_def split: list.splits)
  have n: "legal_name (takeWhile (\<lambda>c. c \<noteq> CHR ''='') var)"
    by (auto simp: legal_name_def has_eq_def dest: set_takeWhileD)
  let ?s = "s\<lparr>env_errno := 0\<rparr>"
  have s: "env_ok bss ?s" "getenv ?s var = Some (env_map s var)"
    using env_ok_errno [OF assms(1)] env_map_getenv [OF env_ok_errno [OF assms(1)]] by (simp_all add: env_map_errno)
  show ?thesis
  proof (cases "env_map s var \<noteq> None \<and> \<not> replace")
    case True
    then show ?thesis using s by (simp add: setenv_def env_map_errno)
  next
    case False
    then have "setenv bss al (Some var) (Some val) replace s = putenv bss al (setenv_string var val) ?s"
      using s(2) by (auto simp: setenv_def)
    then show ?thesis
      using putenv_binding [OF s(1) n assms(2), of "stripped val"]
      unfolding val if_not_P [OF False] by (simp add: env_map_errno)
  qed
qed

lemma unsetenv_map:
  assumes "env_ok bss s"
  shows "\<exists>s' r. unsetenv bss al name s = Some (s', r) \<and> env_ok bss s' \<and>
      (case name of Some n \<Rightarrow> if n \<noteq> [] \<and> legal_name n then r = 0 \<and> env_map s' = (env_map s)(n := None)
                              else r = -1 \<and> env_errno s' = EINVAL \<and> env_map s' = env_map s
                  | None \<Rightarrow> r = -1 \<and> env_errno s' = EINVAL \<and> env_map s' = env_map s)"
proof -
  have "environ s \<noteq> NULL" using assms by (auto simp: env_ok_def env_rep_def)
  then show ?thesis
    using putenv_name [OF assms, of "the name" al] env_ok_errno [OF assms] assms
    by (cases name) (auto simp: unsetenv_def legal_name_def env_map_errno)
qed

text \<open>
  C12. The environment is a map from names to values. Starting from an array with no name twice, and with an
  allocator that grants what is asked for, any sequence of \<^verbatim>\<open>putenv\<close> calls succeeds without touching memory outside
  the array, and afterwards \<^verbatim>\<open>getenv\<close> answers, for every name, what the calls asked for: \<^verbatim>\<open>NAME=VALUE\<close> binds the
  name, a string without \<^verbatim>\<open>=\<close> removes it. \<^verbatim>\<open>setenv\<close> and \<^verbatim>\<open>unsetenv\<close> do the same through \<^verbatim>\<open>putenv\<close>, \<^verbatim>\<open>setenv\<close>
  keeping an existing value when it may not replace it; \<^verbatim>\<open>setenv\<close> uses the part of the name before a \<^verbatim>\<open>=\<close> and drops a \<^verbatim>\<open>=\<close> in
  front of the value. An empty name is bound like any other and 0 returned, although the manual of \<^verbatim>\<open>setenv\<close> promises -1 with
  \<^verbatim>\<open>EINVAL\<close>; \<^verbatim>\<open>unsetenv\<close> does refuse it. When the allocator refuses, \<^verbatim>\<open>putenv\<close> either did not need it
  or returns -1 with \<^verbatim>\<open>ENOMEM\<close>, and every name keeps its value.
\<close>

theorem environment_map:
  assumes "env_ok bss s" "alloc_grants al"
  shows "(\<exists>s'. putenv_all bss al vals s = Some s' \<and> env_ok bss s' \<and>
           (\<forall>n. getenv s' n = Some (requests vals (env_map s) n)))
    \<and> (\<exists>s'. setenv bss al (Some var) (Some val) replace s = Some (s', 0) \<and> env_ok bss s' \<and>
           env_map s' = (if env_map s var \<noteq> None \<and> \<not> replace then env_map s
                         else (env_map s)(takeWhile (\<lambda>c. c \<noteq> CHR ''='') var \<mapsto> stripped val)))
    \<and> (\<exists>s'. unsetenv bss al (Some name) s = Some (s', if name \<noteq> [] \<and> legal_name name then 0 else -1) \<and>
           env_ok bss s' \<and>
           env_map s' = (if name \<noteq> [] \<and> legal_name name then (env_map s)(name := None) else env_map s))
    \<and> (alloc_ok al' \<longrightarrow> (\<exists>s' r. putenv bss al' val s = Some (s', r) \<and>
           (r = 0 \<or> r = -1 \<and> env_errno s' = ENOMEM \<and> env_map s' = env_map s)))"
proof (intro conjI impI)
  show "\<exists>s'. putenv_all bss al vals s = Some s' \<and> env_ok bss s' \<and>
           (\<forall>n. getenv s' n = Some (requests vals (env_map s) n))"
  proof -
    have "\<And>c. c \<in> set (map request vals) \<Longrightarrow> legal_name (fst c)"
      using request_cases(3) by auto
    then show ?thesis
      using putenv_env.run_effect [OF conjI [OF assms], of "map request vals"] env_map_getenv
      unfolding putenv_all_run requests_effect by metis
  qed
qed (use setenv_map [OF assms] unsetenv_map [OF assms(1), of al "Some name"] putenv_fails [OF assms(1)]
     in \<open>auto split: if_splits\<close>)

definition env_example :: env where
  "env_example = \<lparr>environ = 1, slots = [Some ''A=1'', Some ''B=2'', None], prev_environ = 0, ecount = 0, emax = 0,
     putenv_bss_count = -1, environ_changed = 1, env_errno = 0\<rparr>"

definition alloc_example :: env_alloc where
  "alloc_example = \<lparr>str_ok = True, new_array = \<lambda>n. Some (2, replicate n None)\<rparr>"

definition alloc_refuses :: env_alloc where
  "alloc_refuses = \<lparr>str_ok = True, new_array = \<lambda>n. None\<rparr>"

lemma env_example_ok: "env_ok 0 env_example" "alloc_grants alloc_example"
  by (auto simp: env_ok_def env_example_def env_rep_def entry_def legal_name_def has_eq_def
      alloc_example_def alloc_grants_def alloc_ok_def intro!: exI [of _ "[(''A'', ''1''), (''B'', ''2'')]"])

theorem environment_map_witness:
  "\<exists>s'. putenv_all 0 alloc_example [''C=3'', ''A'', ''B=longer''] env_example = Some s' \<and>
     getenv s' ''B'' = Some (Some ''longer'') \<and> getenv s' ''A'' = Some None \<and> getenv s' ''C'' = Some (Some ''3'')"
  using environment_map [OF env_example_ok, of "[''C=3'', ''A'', ''B=longer'']" "''A''" "''9''" False "''B''" alloc_refuses]
  by (auto simp: request_def has_eq_def)

text \<open>
  \<^verbatim>\<open>emax\<close> is raised before the larger array is allocated and not lowered when that fails: the next call that adds a
  name believes there is room and writes its terminating null pointer behind the array.
\<close>

lemma putenv_after_failure:
  "\<exists>s'. putenv 0 alloc_refuses ''C=3'' env_example = Some (s', -1) \<and>
     (\<forall>al. str_ok al \<longrightarrow> putenv 0 al ''C=3'' s' = None)"
  by (auto simp: putenv_def recount_def env_example_def alloc_refuses_def env_hit_def env_nlen_def has_eq_def
      add_entry_def grow_environ_def no_memory_def put_slot_def Let_def)

end
