(* ===== verification/Signals.thy ===== *)
theory Signals
  imports Doserr
begin

text \<open>
  Signals: the sets of \<^verbatim>\<open>posix/signal\<close>, ten words of 32 bits; the handler table with \<^verbatim>\<open>signal\<close> and \<^verbatim>\<open>raise\<close> of
  \<^verbatim>\<open>go32/dpmiexcp.c\<close>; and \<^verbatim>\<open>sigprocmask\<close>, which blocks a signal by replacing its handler with one that only
  records it. The abstract machine of the second half has a set of blocked signals instead, and the functions of
  the source simulate it.

  A handler is the 32-bit address of its code. Running a handler of the program is recorded in a log; a program
  that ends in a default handler is marked as ended.
\<close>

section \<open>Signal sets\<close>

type_synonym sigset = "32 word list"

text \<open>
  A pointer to a set is an option, with \<^term>\<open>None\<close> for the null pointer. The result is the set, the return value and the
  new value of \<^verbatim>\<open>errno\<close> when it is set.
\<close>

definition sigbit :: "int \<Rightarrow> 32 word" where
  "sigbit signo = push_bit (nat signo mod 32) 1"

definition sigaddset :: "sigset option \<Rightarrow> int \<Rightarrow> sigset option \<times> int \<times> int option" where
  "sigaddset set_ptr signo =
     (case set_ptr of
        None \<Rightarrow> (None, -1, Some EINVAL)
      | Some s \<Rightarrow>
          if signo < 0 \<or> signo \<ge> 320 then (Some s, -1, Some EINVAL)
          else (Some (s[nat signo div 32 := s ! (nat signo div 32) OR sigbit signo]), 0, None))"

definition sigdelset :: "sigset option \<Rightarrow> int \<Rightarrow> sigset option \<times> int \<times> int option" where
  "sigdelset set_ptr signo =
     (case set_ptr of
        None \<Rightarrow> (None, -1, Some EINVAL)
      | Some s \<Rightarrow>
          if signo < 0 \<or> signo \<ge> 320 then (Some s, -1, Some EINVAL)
          else (Some (s[nat signo div 32 := s ! (nat signo div 32) AND NOT (sigbit signo)]), 0, None))"

definition sigemptyset :: "sigset option \<Rightarrow> sigset option \<times> int \<times> int option" where
  "sigemptyset set_ptr =
     (case set_ptr of
        None \<Rightarrow> (None, -1, Some EINVAL)
      | Some s \<Rightarrow> (Some (replicate 10 0 @ drop 10 s), 0, None))"

definition sigfillset :: "sigset option \<Rightarrow> sigset option \<times> int \<times> int option" where
  "sigfillset set_ptr =
     (case set_ptr of
        None \<Rightarrow> (None, -1, Some EINVAL)
      | Some s \<Rightarrow> (case sigemptyset (Some s) of (s', r, e) \<Rightarrow> (map_option (\<lambda>s. s[9 := 0x7fff]) s', 0, None)))"

definition sigismember :: "sigset option \<Rightarrow> int \<Rightarrow> int \<times> int option" where
  "sigismember set_ptr signo =
     (case set_ptr of
        None \<Rightarrow> (-1, Some EINVAL)
      | Some s \<Rightarrow>
          if signo < 0 \<or> signo \<ge> 320 then (0, None)
          else (if s ! (nat signo div 32) AND sigbit signo \<noteq> 0 then 1 else 0, None))"

text \<open>The calls that the library makes itself pass a set that is there.\<close>

definition add_sig :: "int \<Rightarrow> sigset \<Rightarrow> sigset" where
  "add_sig signo s = the (fst (sigaddset (Some s) signo))"

definition del_sig :: "int \<Rightarrow> sigset \<Rightarrow> sigset" where
  "del_sig signo s = the (fst (sigdelset (Some s) signo))"

definition has_sig :: "sigset \<Rightarrow> int \<Rightarrow> bool" where
  "has_sig s signo \<longleftrightarrow> fst (sigismember (Some s) signo) \<noteq> 0"

definition no_sigs :: sigset where
  "no_sigs = the (fst (sigemptyset (Some (replicate 10 0))))"

section \<open>Handlers\<close>

type_synonym handler = "32 word"

definition SIGMAX :: int where "SIGMAX = 320"

definition SIGKILL :: int where "SIGKILL = 296"

definition SIGQUIT :: int where "SIGQUIT = 298"

definition SIG_DFL :: handler where "SIG_DFL = 0"

definition SIG_ERR :: handler where "SIG_ERR = 1"

definition SIG_IGN :: handler where "SIG_IGN = -1"

definition SIG_BLOCK :: int where "SIG_BLOCK = 1"

definition SIG_SETMASK :: int where "SIG_SETMASK = 2"

definition SIG_UNBLOCK :: int where "SIG_UNBLOCK = 3"

record sigs =
  signal_list :: "handler list"
  sigprocmask_count :: int
  current_mask :: sigset
  pending_signals :: sigset
  prev_handlers :: "handler list"
  sig_errno :: int
  handled :: "(int \<times> handler) list"
  ended :: bool

definition signal :: "int \<Rightarrow> handler \<Rightarrow> sigs \<Rightarrow> sigs \<times> handler" where
  "signal sig func s =
     (if sig \<le> 0 \<or> sig > SIGMAX \<or> sig = SIGKILL then (s\<lparr>sig_errno := EINVAL\<rparr>, SIG_ERR)
      else (s\<lparr>signal_list := (signal_list s)[nat (sig - 1) := func]\<rparr>, signal_list s ! nat (sig - 1)))"

text \<open>\<open>suspender\<close> is the address of \<^verbatim>\<open>sig_suspender\<close>, the handler that \<^verbatim>\<open>sigprocmask\<close> installs.\<close>

definition sig_suspender :: "int \<Rightarrow> sigs \<Rightarrow> sigs" where
  "sig_suspender signo s = s\<lparr>pending_signals := add_sig signo (pending_signals s)\<rparr>"

definition raise :: "handler \<Rightarrow> int \<Rightarrow> sigs \<Rightarrow> sigs \<times> int" where
  "raise suspender sig s =
     (if sig \<le> 0 then (s, -1)
      else if sig > SIGMAX then (s, -1)
      else
        let temp = signal_list s ! nat (sig - 1) in
        if temp = SIG_IGN \<or> sig = SIGQUIT \<and> temp = SIG_DFL then (s, 0)
        else if temp = SIG_DFL then (s\<lparr>ended := True\<rparr>, 0)
        else if temp < 4096 then (s\<lparr>ended := True\<rparr>, 0)
        else if temp = suspender then (sig_suspender sig s, 0)
        else (s\<lparr>handled := handled s @ [(sig, temp)]\<rparr>, 0))"

definition sigpending :: "bool \<Rightarrow> sigs \<Rightarrow> sigs \<times> sigset option \<times> int" where
  "sigpending null s =
     (if null then (s\<lparr>sig_errno := EFAULT\<rparr>, None, -1) else (s, Some (pending_signals s), 0))"

definition sigsuspend :: "sigset option \<Rightarrow> int" where
  "sigsuspend set_ptr = 0"

text \<open>\<^verbatim>\<open>sigaction\<close>: \<open>act\<close> is the handler of the new action, when there is one; the result has the old handler.\<close>

definition sigaction :: "int \<Rightarrow> handler option \<Rightarrow> bool \<Rightarrow> sigs \<Rightarrow> sigs \<times> handler option \<times> int" where
  "sigaction sig act oact s =
     (let (s, old) = (if oact then (case signal sig SIG_IGN s of (s, h) \<Rightarrow> (s, Some h)) else (s, None)) in
      if old = Some SIG_ERR then (s\<lparr>sig_errno := EINVAL\<rparr>, old, -1)
      else
        let s = (case old of Some h \<Rightarrow> fst (signal sig h s) | None \<Rightarrow> s) in
        case act of
          None \<Rightarrow> (s, old, 0)
        | Some h \<Rightarrow>
            (case signal sig h s of
               (s, r) \<Rightarrow> if r = SIG_ERR then (s\<lparr>sig_errno := EINVAL\<rparr>, old, -1) else (s, old, 0)))"

definition kill :: "handler \<Rightarrow> int \<Rightarrow> int \<Rightarrow> int \<Rightarrow> sigs \<Rightarrow> sigs \<times> int" where
  "kill suspender getpid pid sig s =
     (if pid = getpid \<or> pid = 0 \<or> pid = -1 \<or> pid = -getpid
      then (if sig \<noteq> 0 then fst (raise suspender sig s) else s, 0)
      else (s\<lparr>sig_errno := ENOSYS\<rparr>, -1))"

section \<open>Masks\<close>

definition mask_init :: "int \<Rightarrow> sigs \<Rightarrow> sigs" where
  "mask_init bss s =
     (if sigprocmask_count s \<noteq> bss
      then s\<lparr>sigprocmask_count := bss, pending_signals := no_sigs, current_mask := no_sigs,
             prev_handlers := replicate (nat SIGMAX) SIG_ERR\<rparr>
      else s)"

text \<open>One turn of the loop over all signals; a program that has ended does nothing more.\<close>

definition block_one :: "handler \<Rightarrow> int \<Rightarrow> sigset \<Rightarrow> int \<Rightarrow> sigs \<times> sigset \<Rightarrow> sigs \<times> sigset" where
  "block_one suspender how new_set signo x =
     (case x of (s, new_mask) \<Rightarrow>
      if has_sig (current_mask s) signo then (s, add_sig signo new_mask)
      else if has_sig new_set signo \<and> how \<noteq> SIG_UNBLOCK then
        (if signo \<noteq> SIGKILL \<and> prev_handlers s ! nat signo = SIG_ERR
         then (case signal signo suspender s of
                 (s, h) \<Rightarrow> s\<lparr>prev_handlers := (prev_handlers s)[nat signo := h]\<rparr>)
         else s,
         add_sig signo new_mask)
      else (s, new_mask))"

definition unblock_one :: "handler \<Rightarrow> int \<Rightarrow> sigset \<Rightarrow> int \<Rightarrow> sigs \<times> sigset \<Rightarrow> sigs \<times> sigset" where
  "unblock_one suspender how new_set signo x =
     (case x of (s, new_mask) \<Rightarrow>
      if how = SIG_UNBLOCK \<and> has_sig new_mask signo \<and> has_sig new_set signo \<or>
         how = SIG_SETMASK \<and> has_sig new_mask signo \<and> \<not> has_sig new_set signo
      then
        let s = (if prev_handlers s ! nat signo \<noteq> SIG_ERR
                 then (fst (signal signo (prev_handlers s ! nat signo) s))
                        \<lparr>prev_handlers := (prev_handlers s)[nat signo := SIG_ERR]\<rparr>
                 else s) in
        (if has_sig (pending_signals s) signo
         then fst (raise suspender signo (s\<lparr>pending_signals := del_sig signo (pending_signals s)\<rparr>))
         else s,
         del_sig signo new_mask)
      else (s, new_mask))"

definition mask_step :: "handler \<Rightarrow> int \<Rightarrow> sigset \<Rightarrow> int \<Rightarrow> sigs \<times> sigset \<Rightarrow> sigs \<times> sigset" where
  "mask_step suspender how new_set signo x =
     (if ended (fst x) then x else unblock_one suspender how new_set signo (block_one suspender how new_set signo x))"

fun mask_loop :: "handler \<Rightarrow> int \<Rightarrow> sigset \<Rightarrow> nat list \<Rightarrow> sigs \<times> sigset \<Rightarrow> sigs \<times> sigset" where
  "mask_loop suspender how new_set [] x = x"
| "mask_loop suspender how new_set (signo # r) x =
     mask_loop suspender how new_set r (mask_step suspender how new_set (int signo) x)"

text \<open>The result has the old mask, which is stored when \<^verbatim>\<open>old_set\<close> is not null.\<close>

definition sigprocmask ::
  "handler \<Rightarrow> int \<Rightarrow> int \<Rightarrow> sigset option \<Rightarrow> sigs \<Rightarrow> sigs \<times> sigset \<times> int" where
  "sigprocmask suspender bss how new_ptr s =
     (let s = mask_init bss s; old_set = current_mask s in
      case new_ptr of
        None \<Rightarrow> (s, old_set, 0)
      | Some new_set \<Rightarrow>
          if how \<noteq> SIG_BLOCK \<and> how \<noteq> SIG_UNBLOCK \<and> how \<noteq> SIG_SETMASK
          then (s\<lparr>sig_errno := EINVAL\<rparr>, old_set, -1)
          else
            let (s, new_mask) = mask_loop suspender how new_set [0..<nat SIGMAX] (s, no_sigs) in
            (if ended s then s else s\<lparr>current_mask := new_mask\<rparr>, old_set, 0))"

section \<open>Signal sets are sets\<close>

definition sigset_ok :: "sigset \<Rightarrow> bool" where
  "sigset_ok s \<longleftrightarrow> length s = 10"

definition members :: "sigset \<Rightarrow> int set" where
  "members s = {i. has_sig s i}"

locale bit_set =
  fixes member :: "'s \<Rightarrow> int \<Rightarrow> bool"
    and add :: "int \<Rightarrow> 's \<Rightarrow> 's"
    and del :: "int \<Rightarrow> 's \<Rightarrow> 's"
    and empty :: 's
    and ok :: "'s \<Rightarrow> bool"
    and bound :: int
  assumes empty_ok: "ok empty" "\<not> member empty i"
    and add_ok: "ok s \<Longrightarrow> ok (add i s)"
    and del_ok: "ok s \<Longrightarrow> ok (del i s)"
    and member_add: "ok s \<Longrightarrow> member (add i s) j \<longleftrightarrow> (j = i \<and> 0 \<le> i \<and> i < bound) \<or> member s j"
    and member_del: "ok s \<Longrightarrow> member (del i s) j \<longleftrightarrow> j \<noteq> i \<and> member s j"
    and member_bound: "member s i \<Longrightarrow> 0 \<le> i \<and> i < bound"
begin

lemma add_all:
  assumes "ok s"
  shows "ok (foldr add xs s)"
    and "member (foldr add xs s) i \<longleftrightarrow> member s i \<or> i \<in> set xs \<and> 0 \<le> i \<and> i < bound"
proof -
  show ok: "ok (foldr add xs s)" for xs
    using assms by (induction xs) (simp_all add: add_ok)
  show "member (foldr add xs s) i \<longleftrightarrow> member s i \<or> i \<in> set xs \<and> 0 \<le> i \<and> i < bound"
    by (induction xs) (use member_add [OF ok] in auto)
qed

lemma del_all:
  assumes "ok s"
  shows "ok (foldr del xs s)"
    and "member (foldr del xs s) i \<longleftrightarrow> member s i \<and> i \<notin> set xs"
proof -
  show ok: "ok (foldr del xs s)" for xs
    using assms by (induction xs) (simp_all add: del_ok)
  show "member (foldr del xs s) i \<longleftrightarrow> member s i \<and> i \<notin> set xs"
    by (induction xs) (use member_del [OF ok] in auto)
qed

end

lemma bit_of_sig: "(w AND sigbit i \<noteq> 0) \<longleftrightarrow> bit w (nat i mod 32)"
proof -
  have "w AND push_bit n 1 = (if bit w n then push_bit n 1 else 0)" for w :: "32 word" and n
    by (rule bit_word_eqI) (auto simp: bit_simps)
  moreover have "push_bit (nat i mod 32) (1 :: 32 word) \<noteq> 0"
    by (simp add: push_bit_eq_mult)
  ultimately show ?thesis by (simp add: sigbit_def)
qed

lemma bit_sigbit: "bit (sigbit i) n \<longleftrightarrow> n = nat i mod 32"
  by (auto simp: sigbit_def bit_simps)

lemma sigset_at:
  assumes "sigset_ok s" "0 \<le> i" "i < 320"
  shows "nat i div 32 < length s"
  using assms by (simp add: sigset_ok_def)

lemma has_sig_iff: "has_sig s i \<longleftrightarrow> 0 \<le> i \<and> i < 320 \<and> bit (s ! (nat i div 32)) (nat i mod 32)"
  by (auto simp: has_sig_def sigismember_def bit_of_sig)

lemma add_sig_eq:
  "add_sig i s = (if 0 \<le> i \<and> i < 320 then s[nat i div 32 := s ! (nat i div 32) OR sigbit i] else s)"
  by (auto simp: add_sig_def sigaddset_def)

lemma del_sig_eq:
  "del_sig i s = (if 0 \<le> i \<and> i < 320 then s[nat i div 32 := s ! (nat i div 32) AND NOT (sigbit i)] else s)"
  by (auto simp: del_sig_def sigdelset_def)

text \<open>Two signals are the same exactly when word and bit are.\<close>

lemma sig_position:
  assumes "0 \<le> i" "0 \<le> j"
  shows "nat i div 32 = nat j div 32 \<and> nat i mod 32 = nat j mod 32 \<longleftrightarrow> i = j"
  using assms by (metis div_mult_mod_eq nat_eq_iff2 int_nat_eq)

interpretation sig_sets: bit_set has_sig add_sig del_sig no_sigs sigset_ok 320
proof unfold_locales
  fix i j :: int and s :: sigset
  show "sigset_ok no_sigs"
    by (simp add: no_sigs_def sigset_ok_def sigemptyset_def)
  show "\<not> has_sig no_sigs i"
    by (auto simp: has_sig_iff no_sigs_def sigemptyset_def)
  show "0 \<le> i \<and> i < 320" if "has_sig s i"
    using that by (simp add: has_sig_iff)
  assume s: "sigset_ok s"
  show "sigset_ok (add_sig i s)" "sigset_ok (del_sig i s)"
    using s by (auto simp: add_sig_eq del_sig_eq sigset_ok_def)
  show "has_sig (add_sig i s) j \<longleftrightarrow> (j = i \<and> 0 \<le> i \<and> i < 320) \<or> has_sig s j"
    using sigset_at [OF s, of i] sig_position [of i j]
    by (auto simp: has_sig_iff add_sig_eq nth_list_update bit_simps bit_sigbit)
  show "has_sig (del_sig i s) j \<longleftrightarrow> j \<noteq> i \<and> has_sig s j"
    using sigset_at [OF s, of i] sig_position [of i j]
    by (auto simp: has_sig_iff del_sig_eq nth_list_update bit_simps bit_sigbit)
qed

section \<open>The abstract machine\<close>

text \<open>
  Signals have handlers; some are blocked, and a blocked signal that arrives is remembered until it is unblocked.
  \<^verbatim>\<open>SIGKILL\<close>, and numbers outside the sets, cannot be blocked.
\<close>

record asigs =
  handler_of :: "int \<Rightarrow> handler"
  blocked :: "int set"
  waiting :: "int set"
  handled_log :: "(int \<times> handler) list"
  dead :: bool

definition can_block :: "int \<Rightarrow> bool" where
  "can_block i \<longleftrightarrow> 0 < i \<and> i < 320 \<and> i \<noteq> SIGKILL"

definition deliver :: "int \<Rightarrow> asigs \<Rightarrow> asigs" where
  "deliver i a =
     (let h = handler_of a i in
      if h = SIG_IGN \<or> i = SIGQUIT \<and> h = SIG_DFL then a
      else if h < 4096 then a\<lparr>dead := True\<rparr>
      else a\<lparr>handled_log := handled_log a @ [(i, h)]\<rparr>)"

definition a_raise :: "int \<Rightarrow> asigs \<Rightarrow> asigs" where
  "a_raise i a =
     (if i \<le> 0 \<or> i > 320 then a
      else if i \<in> blocked a \<and> can_block i then a\<lparr>waiting := insert i (waiting a)\<rparr>
      else deliver i a)"

definition a_release :: "int \<Rightarrow> asigs \<Rightarrow> asigs" where
  "a_release i a =
     (if i \<in> waiting a then deliver i (a\<lparr>waiting := waiting a - {i}, blocked := blocked a - {i}\<rparr>)
      else a\<lparr>blocked := blocked a - {i}\<rparr>)"

definition a_step :: "int set \<Rightarrow> int \<Rightarrow> asigs \<Rightarrow> asigs" where
  "a_step T i a =
     (if dead a then a
      else if i \<in> T then a\<lparr>blocked := insert i (blocked a)\<rparr>
      else if i \<in> blocked a then a_release i a
      else a)"

primrec a_procmask :: "int set \<Rightarrow> nat list \<Rightarrow> asigs \<Rightarrow> asigs" where
  "a_procmask T [] a = a"
| "a_procmask T (i # is) a = a_procmask T is (a_step T (int i) a)"

definition target :: "int \<Rightarrow> int set \<Rightarrow> int set \<Rightarrow> int set" where
  "target how S old = (if how = SIG_BLOCK then old \<union> S else if how = SIG_UNBLOCK then old - S else S)"

section \<open>Simulation\<close>

text \<open>
  \<open>M\<close> is the mask in force. The handler table holds the recording handler for a signal that is held back, and the
  saved handler is the one of the program; all other signals have their own handler and no saved one.
\<close>

definition sig_rel :: "handler \<Rightarrow> (int \<Rightarrow> bool) \<Rightarrow> sigs \<Rightarrow> asigs \<Rightarrow> bool" where
  "sig_rel sus M s a \<longleftrightarrow>
     length (signal_list s) = 320 \<and> length (prev_handlers s) = 320 \<and> sigset_ok (pending_signals s) \<and>
     ended s = dead a \<and> handled s = handled_log a \<and>
     (\<forall>i. handler_of a i \<noteq> SIG_ERR \<and> handler_of a i \<noteq> sus) \<and>
     (\<not> ended s \<longrightarrow>
        (\<forall>i. i \<in> blocked a \<longleftrightarrow> M i) \<and> (\<forall>i. i \<in> waiting a \<longleftrightarrow> has_sig (pending_signals s) i) \<and>
        (\<forall>i. i \<in> waiting a \<longrightarrow> M i \<and> can_block i) \<and>
        (\<forall>i. 0 < i \<and> i \<le> 320 \<longrightarrow>
           signal_list s ! nat (i - 1) = (if M i \<and> can_block i then sus else handler_of a i)) \<and>
        (\<forall>i. 0 \<le> i \<and> i < 320 \<longrightarrow>
           prev_handlers s ! nat i = (if M i \<and> can_block i then handler_of a i else SIG_ERR)))"

definition hold :: "handler \<Rightarrow> int \<Rightarrow> sigs \<Rightarrow> sigs" where
  "hold sus i s =
     (if i \<noteq> SIGKILL \<and> prev_handlers s ! nat i = SIG_ERR
      then (case signal i sus s of (s, h) \<Rightarrow> s\<lparr>prev_handlers := (prev_handlers s)[nat i := h]\<rparr>)
      else s)"

definition restore :: "int \<Rightarrow> sigs \<Rightarrow> sigs" where
  "restore i s =
     (if prev_handlers s ! nat i \<noteq> SIG_ERR
      then (fst (signal i (prev_handlers s ! nat i) s))\<lparr>prev_handlers := (prev_handlers s)[nat i := SIG_ERR]\<rparr>
      else s)"

definition release :: "handler \<Rightarrow> int \<Rightarrow> sigs \<Rightarrow> sigs" where
  "release sus i s =
     (let s = restore i s in
      if has_sig (pending_signals s) i
      then fst (raise sus i (s\<lparr>pending_signals := del_sig i (pending_signals s)\<rparr>))
      else s)"

lemma mask_step_cases:
  assumes "\<not> ended s" "sigset_ok nm" "0 \<le> k" "k < 320" "\<not> has_sig nm k"
    and how: "how = SIG_BLOCK \<or> how = SIG_UNBLOCK \<or> how = SIG_SETMASK"
    and T: "T = target how (members new) (members (current_mask s))"
  shows "mask_step sus how new k (s, nm) =
     (if k \<in> T then (if has_sig (current_mask s) k then s else hold sus k s, add_sig k nm)
      else if has_sig (current_mask s) k then (release sus k s, del_sig k (add_sig k nm))
      else (s, nm))"
proof -
  have how_neq: "SIG_BLOCK \<noteq> SIG_UNBLOCK" "SIG_BLOCK \<noteq> SIG_SETMASK" "SIG_UNBLOCK \<noteq> SIG_SETMASK"
    by (simp_all add: SIG_BLOCK_def SIG_UNBLOCK_def SIG_SETMASK_def)
  have add: "has_sig (add_sig k nm) k"
    using sig_sets.member_add [OF assms(2), of k k] assms(3,4) by simp
  show ?thesis
    using how how_neq how_neq [symmetric] add assms(1,5)
    by (auto simp: mask_step_def block_one_def unblock_one_def T target_def members_def hold_def release_def
        restore_def Let_def split: prod.splits)
qed

definition code_address :: "handler \<Rightarrow> bool" where
  "code_address sus \<longleftrightarrow> sus \<ge> 4096 \<and> sus \<noteq> SIG_IGN"

lemma code_address_neq: "code_address sus \<Longrightarrow> sus \<noteq> SIG_IGN \<and> sus \<noteq> SIG_DFL \<and> sus \<noteq> SIG_ERR \<and> \<not> sus < 4096"
  by (auto simp: code_address_def SIG_DFL_def SIG_ERR_def word_le_nat_alt word_less_nat_alt)

lemma SIGKILL_bounds: "0 < SIGKILL" "SIGKILL < 320"
  by (simp_all add: SIGKILL_def)

lemma signal_ok:
  "0 < i \<Longrightarrow> i \<le> 320 \<Longrightarrow> i \<noteq> SIGKILL \<Longrightarrow>
     signal i h s = (s\<lparr>signal_list := (signal_list s)[nat (i - 1) := h]\<rparr>, signal_list s ! nat (i - 1))"
  by (simp add: signal_def SIGMAX_def)

lemma nat_pred_eq: "0 < i \<Longrightarrow> 0 < j \<Longrightarrow> nat (i - 1) = nat (j - 1) \<longleftrightarrow> i = j"
  by auto

lemma sim_hold:
  assumes r: "sig_rel sus M s a" and "\<not> ended s" "\<not> M k" "0 \<le> k" "k < 320"
  shows "sig_rel sus (M(k := True)) (hold sus k s) (a\<lparr>blocked := insert k (blocked a)\<rparr>)"
    and "\<not> ended (hold sus k s)" "current_mask (hold sus k s) = current_mask s"
proof -
  have p: "prev_handlers s ! nat k = SIG_ERR"
    using assms by (simp add: sig_rel_def)
  show "\<not> ended (hold sus k s)" "current_mask (hold sus k s) = current_mask s"
    using assms(2) by (simp_all add: hold_def signal_def)
  show "sig_rel sus (M(k := True)) (hold sus k s) (a\<lparr>blocked := insert k (blocked a)\<rparr>)"
  proof (cases "can_block k")
    case True
    then have k: "0 < k" "k \<le> 320" "k \<noteq> SIGKILL" by (auto simp: can_block_def)
    have sl: "signal_list s ! nat (k - 1) = handler_of a k"
      using r k assms(2,3) by (simp add: sig_rel_def)
    have h: "hold sus k s = s\<lparr>signal_list := (signal_list s)[nat (k - 1) := sus],
        prev_handlers := (prev_handlers s)[nat k := handler_of a k]\<rparr>"
      using p k sl by (simp add: hold_def signal_ok)
    show ?thesis
      using r assms(2-5) k True unfolding h
      by (auto simp: sig_rel_def nth_list_update nat_pred_eq)
  next
    case False
    then have "k = 0 \<or> k = SIGKILL"
      using assms(4,5) by (auto simp: can_block_def)
    then have "hold sus k s = s \<or>
        hold sus k s = s\<lparr>sig_errno := EINVAL, prev_handlers := (prev_handlers s)[nat k := SIG_ERR]\<rparr>"
      using p by (auto simp: hold_def signal_def)
    moreover have "(prev_handlers s)[nat k := SIG_ERR] = prev_handlers s"
      using p by (metis list_update_id)
    ultimately show ?thesis
      using r False by (auto simp: sig_rel_def)
  qed
qed

lemma raise_delivers:
  assumes "0 < i" "i \<le> 320" "signal_list s ! nat (i - 1) = handler_of a i" "handler_of a i \<noteq> sus"
  shows "fst (raise sus i s) = s\<lparr>ended := dead (deliver i (a\<lparr>dead := ended s, handled_log := handled s\<rparr>)),
     handled := handled_log (deliver i (a\<lparr>dead := ended s, handled_log := handled s\<rparr>))\<rparr>"
  using assms by (auto simp: raise_def deliver_def Let_def SIGMAX_def SIG_DFL_def)

lemma deliver_frame:
  "handler_of (deliver i a) = handler_of a" "blocked (deliver i a) = blocked a" "waiting (deliver i a) = waiting a"
  by (simp_all add: deliver_def Let_def)

lemma sim_deliver:
  assumes r: "sig_rel sus M s a" and "\<not> ended s" "0 < i" "i \<le> 320" "\<not> (M i \<and> can_block i)"
  shows "sig_rel sus M (fst (raise sus i s)) (deliver i a)"
proof -
  let ?b = "a\<lparr>dead := ended s, handled_log := handled s\<rparr>"
  have b: "?b = a" using r by (simp add: sig_rel_def)
  have "signal_list s ! nat (i - 1) = handler_of a i" "handler_of a i \<noteq> sus"
    using assms by (auto simp: sig_rel_def)
  from raise_delivers [OF assms(3,4) this] show ?thesis
    using r assms(2) unfolding b by (auto simp: sig_rel_def deliver_frame)
qed

lemma sim_restore:
  assumes r: "sig_rel sus M s a" and e: "\<not> ended s" and k: "M k" "0 \<le> k" "k < 320" and w: "k \<notin> waiting a"
  shows "sig_rel sus (M(k := False)) (restore k s) (a\<lparr>blocked := blocked a - {k}\<rparr>)"
proof (cases "can_block k")
  case True
  then have k': "0 < k" "k \<le> 320" "k \<noteq> SIGKILL" by (auto simp: can_block_def)
  have "prev_handlers s ! nat k = handler_of a k" "handler_of a k \<noteq> SIG_ERR"
    using r e k True by (auto simp: sig_rel_def)
  then have h: "restore k s = s\<lparr>signal_list := (signal_list s)[nat (k - 1) := handler_of a k],
      prev_handlers := (prev_handlers s)[nat k := SIG_ERR]\<rparr>"
    using k' by (simp add: restore_def signal_ok)
  show ?thesis
    using r e k k' w unfolding h by (auto simp: sig_rel_def nth_list_update nat_pred_eq)
next
  case False
  then have "restore k s = s"
    using r e k by (auto simp: restore_def sig_rel_def)
  then show ?thesis
    using r e k w False by (auto simp: sig_rel_def)
qed

lemma restore_frame:
  "pending_signals (restore k s) = pending_signals s" "ended (restore k s) = ended s"
  "current_mask (restore k s) = current_mask s"
  "restore k (s\<lparr>pending_signals := p\<rparr>) = (restore k s)\<lparr>pending_signals := p\<rparr>"
  by (auto simp: restore_def signal_def)

lemma raise_frame: "current_mask (fst (raise sus i s)) = current_mask s"
  by (simp add: raise_def sig_suspender_def Let_def)

lemma sim_release:
  assumes r: "sig_rel sus M s a" and e: "\<not> ended s" and k: "M k" "0 \<le> k" "k < 320"
  shows "sig_rel sus (M(k := False)) (release sus k s) (a_release k a)"
    and "current_mask (release sus k s) = current_mask s"
proof -
  show "current_mask (release sus k s) = current_mask s"
    by (simp add: release_def Let_def restore_frame raise_frame)
  have p: "has_sig (pending_signals s) k \<longleftrightarrow> k \<in> waiting a" and ok: "sigset_ok (pending_signals s)"
    using r e by (auto simp: sig_rel_def)
  show "sig_rel sus (M(k := False)) (release sus k s) (a_release k a)"
  proof (cases "k \<in> waiting a")
    case False
    then show ?thesis
      using sim_restore [OF r e k] p by (simp add: release_def a_release_def Let_def restore_frame)
  next
    case True
    let ?s = "s\<lparr>pending_signals := del_sig k (pending_signals s)\<rparr>" and ?a = "a\<lparr>waiting := waiting a - {k}\<rparr>"
    have "sig_rel sus M ?s ?a"
      using r e sig_sets.del_ok [OF ok] sig_sets.member_del [OF ok] by (auto simp: sig_rel_def)
    from sim_restore [OF this _ k] have "sig_rel sus (M(k := False)) (restore k ?s) (?a\<lparr>blocked := blocked a - {k}\<rparr>)"
      using e by simp
    moreover have "0 < k"
      using r e True by (auto simp: sig_rel_def can_block_def)
    ultimately have "sig_rel sus (M(k := False)) (fst (raise sus k (restore k ?s)))
        (deliver k (?a\<lparr>blocked := blocked a - {k}\<rparr>))"
      using e k by (intro sim_deliver) (auto simp: restore_frame)
    then show ?thesis
      using True p by (simp add: release_def a_release_def Let_def restore_frame)
  qed
qed

lemma sim_raise:
  assumes r: "sig_rel sus M s a" and e: "\<not> ended s" and sus: "code_address sus"
  shows "sig_rel sus M (fst (raise sus i s)) (a_raise i a)"
proof (cases "0 < i \<and> i \<le> 320")
  case i: True
  show ?thesis
  proof (cases "i \<in> blocked a \<and> can_block i")
    case True
    have b: "M i" "signal_list s ! nat (i - 1) = sus" and ok: "sigset_ok (pending_signals s)"
      using r e i True by (auto simp: sig_rel_def)
    have "fst (raise sus i s) = sig_suspender i s"
      using i b code_address_neq [OF sus] by (simp add: raise_def SIGMAX_def Let_def)
    moreover have "sig_rel sus M (sig_suspender i s) (a\<lparr>waiting := insert i (waiting a)\<rparr>)"
      using r e b True i sig_sets.add_ok [OF ok] sig_sets.member_add [OF ok]
      by (auto simp: sig_rel_def sig_suspender_def can_block_def)
    ultimately show ?thesis
      using i True by (simp add: a_raise_def)
  next
    case False
    then have "\<not> (M i \<and> can_block i)"
      using r e by (auto simp: sig_rel_def)
    from sim_deliver [OF r e _ _ this] show ?thesis
      using i False by (auto simp: a_raise_def)
  qed
next
  case False
  then show ?thesis
    using r by (auto simp: raise_def a_raise_def SIGMAX_def)
qed

text \<open>One turn of the loop: signals below \<open>k\<close> follow the new mask, the others still the old one.\<close>

definition mask_at :: "int \<Rightarrow> sigset \<Rightarrow> sigset \<Rightarrow> int \<Rightarrow> bool" where
  "mask_at k nm old i \<longleftrightarrow> (if i < k then has_sig nm i else has_sig old i)"

definition mid_rel :: "handler \<Rightarrow> int set \<Rightarrow> int \<Rightarrow> sigset \<Rightarrow> sigs \<times> sigset \<Rightarrow> asigs \<Rightarrow> bool" where
  "mid_rel sus T k old x a \<longleftrightarrow>
     (case x of (s, nm) \<Rightarrow>
       sig_rel sus (mask_at k nm old) s a \<and> current_mask s = old \<and> sigset_ok nm \<and>
       (\<not> ended s \<longrightarrow> (\<forall>i. has_sig nm i \<longleftrightarrow> i < k \<and> i \<in> T)))"

lemma sig_rel_ended: "ended s \<Longrightarrow> sig_rel sus M s a = sig_rel sus M' s a"
  by (simp add: sig_rel_def)

lemma sim_step:
  assumes x: "mid_rel sus T k old (s, nm) a" and k: "0 \<le> k" "k < 320"
    and how: "how = SIG_BLOCK \<or> how = SIG_UNBLOCK \<or> how = SIG_SETMASK"
    and T: "T = target how (members new) (members old)"
  shows "mid_rel sus T (k + 1) old (mask_step sus how new k (s, nm)) (a_step T k a)"
proof (cases "ended s")
  case True
  then have "dead a" using x by (auto simp: mid_rel_def sig_rel_def)
  then show ?thesis
    using x True sig_rel_ended [OF True] by (auto simp: mask_step_def a_step_def mid_rel_def)
next
  case False
  note e = False
  have r: "sig_rel sus (mask_at k nm old) s a" and old: "current_mask s = old" and nm: "sigset_ok nm"
    and nmT: "\<And>i. has_sig nm i \<longleftrightarrow> i < k \<and> i \<in> T"
    using x False by (auto simp: mid_rel_def)
  have d: "\<not> dead a" "k \<in> blocked a \<longleftrightarrow> has_sig old k"
    using r e by (auto simp: sig_rel_def mask_at_def)
  note step = mask_step_cases [OF e nm k _ how, of T new sus, unfolded old, OF _ T]
  have nk: "\<not> has_sig nm k" using nmT by simp
  note add = sig_sets.add_ok [OF nm] sig_sets.member_add [OF nm]
  note del = sig_sets.del_ok [OF add(1)] sig_sets.member_del [OF add(1)]
  have M: "mask_at (k + 1) (add_sig k nm) old = (mask_at k nm old)(k := True)"
    using k by (auto simp: mask_at_def add fun_eq_iff)
  have M0: "mask_at (k + 1) (del_sig k (add_sig k nm)) old = (mask_at k nm old)(k := False)"
    using k by (auto simp: mask_at_def add del fun_eq_iff)
  have M1: "mask_at (k + 1) nm old = (mask_at k nm old)(k := False)"
    using nk by (auto simp: mask_at_def fun_eq_iff)
  show ?thesis
  proof (cases "k \<in> T")
    case True
    have nmT': "has_sig (add_sig k nm) i \<longleftrightarrow> i < k + 1 \<and> i \<in> T" for i
      using k True unfolding add(2) nmT by auto
    show ?thesis
    proof (cases "has_sig old k")
      case old_k: True
      have "(mask_at k nm old)(k := True) = mask_at k nm old" "insert k (blocked a) = blocked a"
        using old_k d by (auto simp: mask_at_def fun_eq_iff)
      then show ?thesis
        using step nk True old_k r old add(1) nmT' d M
        by (simp add: mid_rel_def a_step_def)
    next
      case False
      have "\<not> mask_at k nm old k" using False by (simp add: mask_at_def)
      from sim_hold [OF r e this k] show ?thesis
        using step nk True False old add(1) nmT' d M
        by (simp add: mid_rel_def a_step_def)
    qed
  next
    case False
    show ?thesis
    proof (cases "has_sig old k")
      case True
      have nmT': "has_sig (del_sig k (add_sig k nm)) i \<longleftrightarrow> i < k + 1 \<and> i \<in> T" for i
        using k False unfolding del(2) add(2) nmT by auto
      have "mask_at k nm old k" using True by (simp add: mask_at_def)
      from sim_release [OF r e this k] show ?thesis
        using step nk True False old del(1) nmT' d M0
        by (simp add: mid_rel_def a_step_def)
    next
      case old_k: False
      have "has_sig nm i \<longleftrightarrow> i < k + 1 \<and> i \<in> T" for i
        using nmT False by (metis zless_add1_eq)
      moreover have "(mask_at k nm old)(k := False) = mask_at k nm old"
        using old_k by (auto simp: mask_at_def fun_eq_iff)
      ultimately show ?thesis
        using step nk old_k False r old nm d M1
        by (simp add: mid_rel_def a_step_def)
    qed
  qed
qed

lemma sim_loop:
  assumes "mid_rel sus T (int j) old x a" "j \<le> 320"
    and "how = SIG_BLOCK \<or> how = SIG_UNBLOCK \<or> how = SIG_SETMASK"
    and "T = target how (members new) (members old)"
  shows "mid_rel sus T 320 old (mask_loop sus how new [j..<320] x) (a_procmask T [j..<320] a)"
  using assms(1,2)
proof (induction "320 - j" arbitrary: j x a)
  case 0
  then show ?case by simp
next
  case (Suc n)
  then have "[j..<320] = j # [Suc j..<320]" by (simp add: upt_conv_Cons)
  moreover have "mid_rel sus T (int (Suc j)) old (mask_step sus how new (int j) x) (a_step T (int j) a)"
    using sim_step [OF _ _ _ assms(3,4), of sus "int j" "fst x" "snd x" a] Suc by (simp add: add.commute)
  ultimately show ?case
    using Suc.hyps(1) [of "Suc j"] Suc by simp
qed

text \<open>What the abstract machine does with the signals that it unblocks.\<close>

definition delivered :: "int set \<Rightarrow> asigs \<Rightarrow> int list \<Rightarrow> (int \<times> handler) list" where
  "delivered T a is = map (\<lambda>i. (i, handler_of a i))
     (filter (\<lambda>i. i \<in> waiting a \<and> i \<notin> T \<and> handler_of a i \<noteq> SIG_IGN) is)"

lemma a_step_log:
  assumes "\<not> dead a" "waiting a \<subseteq> blocked a" "\<forall>i \<in> waiting a - T. handler_of a i \<ge> 4096"
  shows "\<not> dead (a_step T i a)" "handler_of (a_step T i a) = handler_of a"
    "waiting (a_step T i a) = (if i \<in> T then waiting a else waiting a - {i})"
    "waiting (a_step T i a) \<subseteq> blocked (a_step T i a)"
    "handled_log (a_step T i a) = handled_log a @ delivered T a [i]"
proof -
  have "\<not> handler_of a i < 4096" "handler_of a i \<noteq> SIG_DFL" if "i \<in> waiting a" "i \<notin> T"
    using bspec [OF assms(3), of i] that by (auto simp: SIG_DFL_def word_le_nat_alt word_less_nat_alt)
  then show "\<not> dead (a_step T i a)" "handler_of (a_step T i a) = handler_of a"
    "waiting (a_step T i a) = (if i \<in> T then waiting a else waiting a - {i})"
    "waiting (a_step T i a) \<subseteq> blocked (a_step T i a)"
    "handled_log (a_step T i a) = handled_log a @ delivered T a [i]"
    using assms(1,2) by (auto simp: a_step_def a_release_def deliver_def delivered_def Let_def)
qed

lemma a_procmask_log:
  assumes "\<not> dead a" "waiting a \<subseteq> blocked a" "\<forall>i \<in> waiting a - T. handler_of a i \<ge> 4096" "distinct is"
  shows "\<not> dead (a_procmask T is a) \<and>
     handled_log (a_procmask T is a) = handled_log a @ delivered T a (map int is)"
  using assms
proof (induction "is" arbitrary: a)
  case Nil
  then show ?case by (simp add: delivered_def)
next
  case (Cons i "is")
  note step = a_step_log [where T = T and i = "int i", OF Cons.prems(1-3)]
  have "j \<in> waiting (a_step T (int i) a) \<and> j \<notin> T \<longleftrightarrow> j \<in> waiting a \<and> j \<notin> T" if "j \<in> set (map int is)" for j
    using step(3) Cons.prems(4) that by auto
  then have "delivered T (a_step T (int i) a) (map int is) = delivered T a (map int is)"
    unfolding delivered_def step(2) by (intro arg_cong [where f = "map _"] filter_cong) auto
  moreover have "\<not> dead (a_procmask T is (a_step T (int i) a)) \<and>
      handled_log (a_procmask T is (a_step T (int i) a)) =
        handled_log (a_step T (int i) a) @ delivered T (a_step T (int i) a) (map int is)"
    using step Cons.prems by (intro Cons.IH) (auto split: if_splits)
  ultimately show ?case
    using step(5) by (simp add: delivered_def)
qed

lemma members_bound: "members s \<subseteq> {0..<320}"
  using sig_sets.member_bound by (auto simp: members_def)

lemma target_bound: "T = target how (members new) (members old) \<Longrightarrow> T \<subseteq> {0..<320}"
  using members_bound [of new] members_bound [of old] by (auto simp: target_def)

lemma sigprocmask_sim:
  assumes r: "sig_rel sus (has_sig (current_mask (mask_init bss s))) (mask_init bss s) a"
    and e: "\<not> ended (mask_init bss s)"
    and how: "how = SIG_BLOCK \<or> how = SIG_UNBLOCK \<or> how = SIG_SETMASK"
    and T: "T = target how (members new) (members (current_mask (mask_init bss s)))"
  shows "\<exists>s'. sigprocmask sus bss how (Some new) s = (s', current_mask (mask_init bss s), 0) \<and>
     sig_rel sus (has_sig (current_mask s')) s' (a_procmask T [0..<320] a) \<and>
     (\<not> ended s' \<longrightarrow> members (current_mask s') = T)"
proof -
  let ?s = "mask_init bss s" and ?old = "current_mask (mask_init bss s)"
  obtain t nm where t: "mask_loop sus how new [0..<320] (?s, no_sigs) = (t, nm)" by force
  have "mask_at 0 no_sigs ?old = has_sig ?old"
    using sig_sets.member_bound by (force simp: mask_at_def fun_eq_iff sig_sets.empty_ok)
  then have "mid_rel sus T (int 0) ?old (?s, no_sigs) a"
    using r target_bound [OF T] by (auto simp: mid_rel_def sig_sets.empty_ok)
  from sim_loop [OF this _ how T] have m: "mid_rel sus T 320 ?old (t, nm) (a_procmask T [0..<320] a)"
    using t by simp
  have nm: "mask_at 320 nm ?old = has_sig nm"
    using sig_sets.member_bound by (force simp: mask_at_def fun_eq_iff)
  let ?t = "if ended t then t else t\<lparr>current_mask := nm\<rparr>"
  have "sigprocmask sus bss how (Some new) s = (?t, ?old, 0)"
    using how t by (auto simp: sigprocmask_def Let_def SIGMAX_def)
  moreover have "sig_rel sus (has_sig (current_mask ?t)) ?t (a_procmask T [0..<320] a)"
  proof -
    have "sig_rel sus (has_sig nm) t (a_procmask T [0..<320] a)"
      using m nm by (simp add: mid_rel_def)
    then show ?thesis
      by (cases "ended t") (simp_all add: sig_rel_def)
  qed
  moreover have "members (current_mask ?t) = T" if "\<not> ended ?t"
    using m that target_bound [OF T] by (auto simp: mid_rel_def members_def split: if_splits)
  ultimately show ?thesis by blast
qed

text \<open>
  Other functions that change handlers do not look at the mask: \<^verbatim>\<open>signal\<close> on a blocked signal replaces the recording
  handler, and the signal is delivered at once although it is blocked.
\<close>

lemma signal_bypasses_mask:
  assumes "0 < i" "i \<le> 320" "i \<noteq> SIGKILL" "length (signal_list s) = 320" "code_address h" "h \<noteq> sus"
  shows "handled (fst (raise sus i (fst (signal i h s)))) = handled s @ [(i, h)]"
  using assms code_address_neq [OF assms(5)] by (simp add: signal_ok raise_def SIGMAX_def Let_def)

lemma sigaction_installs:
  assumes "0 < i" "i \<le> 320" "i \<noteq> SIGKILL" "length (signal_list s) = 320" "signal_list s ! nat (i - 1) \<noteq> SIG_ERR"
  shows "sigaction i (Some h) True s =
      (s\<lparr>signal_list := (signal_list s)[nat (i - 1) := h]\<rparr>, Some (signal_list s ! nat (i - 1)), 0)"
    and "sigaction i None True s = (s, Some (signal_list s ! nat (i - 1)), 0)"
  using assms by (simp_all add: sigaction_def signal_ok Let_def)

text \<open>
  C8. The signal functions implement a machine with a set of blocked signals. From related states,
  \<^verbatim>\<open>sigprocmask\<close> returns the old mask and ends in the state that the machine reaches by giving every signal, in
  increasing order, its place in the union, the difference or the new set that \<^verbatim>\<open>how\<close> asks for; the new mask is
  that set. When no signal that is released has a default or invalid handler, the program does not end and the
  handlers of the released signals that had arrived run, each exactly once, in increasing order. \<^verbatim>\<open>raise\<close> of a
  blocked signal only records it, and of another one runs its handler. With any other \<^verbatim>\<open>how\<close> the call fails with
  \<^verbatim>\<open>EINVAL\<close> and changes nothing.
\<close>

theorem sigprocmask_refines:
  assumes sus: "code_address sus"
    and rel: "sig_rel sus (has_sig (current_mask (mask_init bss s))) (mask_init bss s) a"
    and running: "\<not> ended (mask_init bss s)"
  shows "(how = SIG_BLOCK \<or> how = SIG_UNBLOCK \<or> how = SIG_SETMASK \<longrightarrow>
      (\<exists>s' T. T = target how (members new) (members (current_mask (mask_init bss s))) \<and>
         sigprocmask sus bss how (Some new) s = (s', current_mask (mask_init bss s), 0) \<and>
         sig_rel sus (has_sig (current_mask s')) s' (a_procmask T [0..<320] a) \<and>
         (\<not> ended s' \<longrightarrow> members (current_mask s') = T) \<and>
         ((\<forall>i \<in> waiting a - T. handler_of a i \<ge> 4096) \<longrightarrow>
            \<not> ended s' \<and> handled s' = handled (mask_init bss s) @ delivered T a (map int [0..<320]))))
    \<and> sig_rel sus (has_sig (current_mask (mask_init bss s))) (fst (raise sus i (mask_init bss s))) (a_raise i a)
    \<and> (how \<notin> {SIG_BLOCK, SIG_UNBLOCK, SIG_SETMASK} \<longrightarrow>
         sigprocmask sus bss how (Some new) s =
           ((mask_init bss s)\<lparr>sig_errno := EINVAL\<rparr>, current_mask (mask_init bss s), -1))"
proof (intro conjI impI)
  let ?T = "target how (members new) (members (current_mask (mask_init bss s)))"
  assume how: "how = SIG_BLOCK \<or> how = SIG_UNBLOCK \<or> how = SIG_SETMASK"
  obtain s' where s': "sigprocmask sus bss how (Some new) s = (s', current_mask (mask_init bss s), 0)"
      "sig_rel sus (has_sig (current_mask s')) s' (a_procmask ?T [0..<320] a)"
      "\<not> ended s' \<longrightarrow> members (current_mask s') = ?T"
    using sigprocmask_sim [OF rel running how refl] by blast
  have a: "\<not> dead a" "waiting a \<subseteq> blocked a" "handled_log a = handled (mask_init bss s)"
    using rel running by (auto simp: sig_rel_def)
  have "\<not> ended s' \<and> handled s' = handled (mask_init bss s) @ delivered ?T a (map int [0..<320])"
    if "\<forall>i \<in> waiting a - ?T. handler_of a i \<ge> 4096"
    using a_procmask_log [OF a(1,2) that, of "[0..<320]"] s'(2) a(3) by (simp add: sig_rel_def)
  with s' show "\<exists>s' T. T = ?T \<and>
         sigprocmask sus bss how (Some new) s = (s', current_mask (mask_init bss s), 0) \<and>
         sig_rel sus (has_sig (current_mask s')) s' (a_procmask T [0..<320] a) \<and>
         (\<not> ended s' \<longrightarrow> members (current_mask s') = T) \<and>
         ((\<forall>i \<in> waiting a - T. handler_of a i \<ge> 4096) \<longrightarrow>
            \<not> ended s' \<and> handled s' = handled (mask_init bss s) @ delivered T a (map int [0..<320]))"
    by blast
next
  show "sig_rel sus (has_sig (current_mask (mask_init bss s))) (fst (raise sus i (mask_init bss s))) (a_raise i a)"
    using rel running sus by (rule sim_raise)
qed (simp add: sigprocmask_def Let_def)

text \<open>A program that has just started, with a handler for \<^verbatim>\<open>SIGINT\<close>.\<close>

definition sig_start :: sigs where
  "sig_start = \<lparr>signal_list = (replicate 320 SIG_DFL)[294 := 8192], sigprocmask_count = -1, current_mask = no_sigs,
     pending_signals = no_sigs, prev_handlers = replicate 320 SIG_DFL, sig_errno = 0, handled = [], ended = False\<rparr>"

definition asig_start :: asigs where
  "asig_start = \<lparr>handler_of = (\<lambda>i. if i = 295 then 8192 else SIG_DFL), blocked = {}, waiting = {}, handled_log = [],
     dead = False\<rparr>"

lemma sig_start_rel:
  "sig_rel 4096 (has_sig (current_mask (mask_init 0 sig_start))) (mask_init 0 sig_start) asig_start"
proof -
  have "signal_list sig_start ! nat (i - 1) = handler_of asig_start i" if "0 < i" "i \<le> 320" for i
    using that by (auto simp: sig_start_def asig_start_def nth_list_update)
  then show ?thesis
    by (auto simp: sig_rel_def mask_init_def sig_start_def asig_start_def sig_sets.empty_ok SIGMAX_def
        SIG_DFL_def SIG_ERR_def)
qed

theorem sigprocmask_refines_witness:
  "\<exists>s'. sigprocmask 4096 0 SIG_BLOCK (Some (add_sig 295 no_sigs)) sig_start = (s', no_sigs, 0) \<and>
     members (current_mask s') = {295} \<and> handled s' = []"
proof -
  have i: "current_mask (mask_init 0 sig_start) = no_sigs" "\<not> ended (mask_init 0 sig_start)"
      "handled (mask_init 0 sig_start) = []"
    by (simp_all add: mask_init_def sig_start_def)
  have m: "members no_sigs = {}" "members (add_sig 295 no_sigs) = {295}"
    using sig_sets.member_add [OF sig_sets.empty_ok(1)] by (auto simp: members_def sig_sets.empty_ok)
  have "code_address 4096" by (simp add: code_address_def SIG_IGN_def)
  from sigprocmask_refines [OF this sig_start_rel i(2), of SIG_BLOCK "add_sig 295 no_sigs" 1] show ?thesis
    by (auto simp: i m target_def asig_start_def delivered_def)
qed

end
