(* ===== verification/Fd_Props.thy ===== *)
theory Fd_Props
  imports Prelude
begin

text \<open>
  \<^verbatim>\<open>dos/io/fd_props.c\<close>: the properties that libc keeps per file descriptor. Descriptors made by \<^verbatim>\<open>dup\<close> share one
  reference-counted object; objects in use are on a doubly linked list and unused ones on a second list.
  The objects live in an explicit heap, so that the links are the pointers of the source.
\<close>

section \<open>State\<close>

record fdp =
  ref_count :: "8 word"
  filename :: "string option"
  flags :: "32 word"
  prev_p :: "nat option"
  next_p :: "nat option"

text \<open>
  \<open>props\<close> is the array \<^verbatim>\<open>__fd_properties\<close>, \<^term>\<open>None\<close> before it is allocated; \<open>bss_seen\<close> is
  \<^verbatim>\<open>old_bss_count\<close>; \<open>removed\<close> collects the files deleted and \<open>memory\<close> is the number of allocations that
  still succeed.
\<close>

record fdstate =
  heap :: "fdp list"
  props :: "nat option list option"
  active_fds :: "nat option"
  cached_fds :: "nat option"
  bss_seen :: int
  hook :: bool
  removed :: "string list"
  memory :: nat

definition FILE_DESC_TEMPORARY :: "32 word" where "FILE_DESC_TEMPORARY = 0x01"

definition FILE_DESC_APPEND :: "32 word" where "FILE_DESC_APPEND = 0x10"

definition O_APPEND :: "32 word" where "O_APPEND = 0x1000"

definition O_TEMPORARY :: "32 word" where "O_TEMPORARY = 0x10000"

definition on_node :: "nat \<Rightarrow> (fdp \<Rightarrow> fdp) \<Rightarrow> fdp list \<Rightarrow> fdp list" where
  "on_node a f h = h[a := f (h ! a)]"

definition lower_char :: "char \<Rightarrow> char" where
  "lower_char c = (if 65 \<le> (of_char c :: nat) \<and> (of_char c :: nat) \<le> 90 then char_of ((of_char c :: nat) + 32) else c)"

definition same_name :: "string \<Rightarrow> string \<Rightarrow> bool" where
  "same_name a b \<longleftrightarrow> map lower_char a = map lower_char b"

section \<open>Lists\<close>

definition insert_list :: "nat option \<Rightarrow> nat \<Rightarrow> fdp list \<Rightarrow> nat option \<times> fdp list" where
  "insert_list head item h =
     (let h = on_node item (\<lambda>n. n\<lparr>next_p := head\<rparr>) h;
          h = on_node item (\<lambda>n. n\<lparr>prev_p := None\<rparr>) h;
          h = (case head of Some p \<Rightarrow> on_node p (\<lambda>n. n\<lparr>prev_p := Some item\<rparr>) h | None \<Rightarrow> h) in
      (Some item, h))"

definition remove_list :: "nat option \<Rightarrow> nat \<Rightarrow> fdp list \<Rightarrow> nat option \<times> fdp list" where
  "remove_list head item h =
     (let h = (case prev_p (h ! item) of
                 Some p \<Rightarrow> let h = on_node p (\<lambda>n. n\<lparr>next_p := next_p (h ! item)\<rparr>) h in
                           on_node item (\<lambda>n. n\<lparr>prev_p := None\<rparr>) h
               | None \<Rightarrow> h);
          h = (case next_p (h ! item) of
                 Some q \<Rightarrow> let h = on_node q (\<lambda>n. n\<lparr>prev_p := prev_p (h ! item)\<rparr>) h in
                           on_node item (\<lambda>n. n\<lparr>next_p := None\<rparr>) h
               | None \<Rightarrow> h) in
      (if head = Some item then next_p (h ! item) else head, h))"

text \<open>\<^verbatim>\<open>while (ptr)\<close>; a null file name is passed to \<^verbatim>\<open>stricmp\<close>, which faults.\<close>

partial_function (option) find_eq :: "fdp list \<Rightarrow> nat \<Rightarrow> nat option \<Rightarrow> nat option option" where
  "find_eq h fd ptr =
     (case ptr of
        None \<Rightarrow> Some None
      | Some p \<Rightarrow>
          if p \<noteq> fd then
            Option.bind (filename (h ! fd)) (\<lambda>a. Option.bind (filename (h ! p)) (\<lambda>b.
              if same_name a b then Some (Some p) else find_eq h fd (next_p (h ! p))))
          else find_eq h fd (next_p (h ! p)))"

declare find_eq.simps [code]

definition find_eq_filename :: "fdstate \<Rightarrow> nat \<Rightarrow> nat option option" where
  "find_eq_filename s fd = find_eq (heap s) fd (active_fds s)"

section \<open>Operations\<close>

definition open_fd :: "nat \<Rightarrow> 32 word \<Rightarrow> fdstate \<Rightarrow> fdstate" where
  "open_fd a open_flags s =
     (let fl = (if filename (heap s ! a) \<noteq> None \<and> open_flags AND O_TEMPORARY \<noteq> 0 then FILE_DESC_TEMPORARY else 0) OR
               (if open_flags AND O_APPEND \<noteq> 0 then FILE_DESC_APPEND else 0) in
      s\<lparr>heap := on_node a (\<lambda>n. n\<lparr>flags := fl\<rparr>) (heap s)\<rparr>)"

definition close_fd :: "nat \<Rightarrow> fdstate \<Rightarrow> fdstate option" where
  "close_fd a s =
     (if flags (heap s ! a) AND FILE_DESC_TEMPORARY \<noteq> 0 then
        Option.bind (find_eq_filename s a) (\<lambda>ptr.
          case ptr of
            Some p \<Rightarrow> Some (s\<lparr>heap := on_node p (\<lambda>n. n\<lparr>flags := flags n OR FILE_DESC_TEMPORARY\<rparr>) (heap s)\<rparr>)
          | None \<Rightarrow> Option.bind (filename (heap s ! a)) (\<lambda>f. Some (s\<lparr>removed := removed s @ [f]\<rparr>)))
      else Some s)"

text \<open>A fresh object has arbitrary contents; every field is set before it is read.\<close>

definition alloc_fd_properties :: "fdp \<Rightarrow> fdstate \<Rightarrow> fdstate \<times> nat option" where
  "alloc_fd_properties junk s =
     (let init = (\<lambda>a s. (s\<lparr>heap := on_node a (\<lambda>n. n\<lparr>prev_p := None, next_p := None, ref_count := 1\<rparr>) (heap s)\<rparr>, Some a)) in
      case cached_fds s of
        None \<Rightarrow> if memory s = 0 then (s, None)
                else init (length (heap s)) (s\<lparr>heap := heap s @ [junk], memory := memory s - 1\<rparr>)
      | Some a \<Rightarrow> (case remove_list (Some a) a (heap s) of (head, h) \<Rightarrow> init a (s\<lparr>heap := h, cached_fds := head\<rparr>)))"

definition free_fd_properties :: "nat \<Rightarrow> fdstate \<Rightarrow> fdstate" where
  "free_fd_properties a s =
     (case remove_list (active_fds s) a (heap s) of (act, h) \<Rightarrow>
      case insert_list (cached_fds s) a h of (cach, h) \<Rightarrow>
        s\<lparr>heap := h, active_fds := act, cached_fds := cach\<rparr>)"

text \<open>
  \<open>bss\<close> is \<^verbatim>\<open>__bss_count\<close>, which changes when a dumped image is restarted, and \<open>truename\<close> is \<^verbatim>\<open>_truename\<close>, a
  DOS call. The result is -1 when memory runs out.
\<close>

definition init_props :: "int \<Rightarrow> fdstate \<Rightarrow> fdstate \<times> bool" where
  "init_props bss s =
     (if bss_seen s \<noteq> bss then
        let s = s\<lparr>bss_seen := bss, active_fds := None, cached_fds := None\<rparr> in
        if memory s = 0 then (s\<lparr>props := None\<rparr>, False)
        else (s\<lparr>props := Some (replicate 255 None), memory := memory s - 1, hook := True\<rparr>, True)
      else (s, True))"

definition set_fd_properties ::
  "int \<Rightarrow> (string \<Rightarrow> string option) \<Rightarrow> fdp \<Rightarrow> nat \<Rightarrow> string \<Rightarrow> 32 word \<Rightarrow> fdstate \<Rightarrow> (fdstate \<times> int) option" where
  "set_fd_properties bss truename junk fd file open_flags s =
     (case init_props bss s of (s, ok) \<Rightarrow>
        if \<not> ok then Some (s, -1)
        else case props s of
          None \<Rightarrow> None
        | Some t \<Rightarrow>
            if length t \<le> fd then None
            else case t ! fd of
              Some a \<Rightarrow> Some (open_fd a open_flags s, 0)
            | None \<Rightarrow>
                (case alloc_fd_properties junk s of
                   (s, None) \<Rightarrow> Some (s, -1)
                 | (s, Some a) \<Rightarrow>
                     let s = s\<lparr>props := Some (t[fd := Some a])\<rparr>;
                         s = s\<lparr>heap := on_node a (\<lambda>n. n\<lparr>ref_count := 1, filename := truename file\<rparr>) (heap s)\<rparr>;
                         (act, h) = insert_list (active_fds s) a (heap s);
                         s = s\<lparr>active_fds := act, heap := h\<rparr> in
                     Some (open_fd a open_flags s, 0)))"

definition dup_fd_properties :: "nat \<Rightarrow> nat \<Rightarrow> fdstate \<Rightarrow> fdstate option" where
  "dup_fd_properties frm to s =
     (case props s of
        None \<Rightarrow> None
      | Some t \<Rightarrow>
          if length t \<le> frm \<or> length t \<le> to then None
          else case t ! frm of
            None \<Rightarrow> Some s
          | Some a \<Rightarrow> Some (s\<lparr>props := Some (t[to := Some a]),
                              heap := on_node a (\<lambda>n. n\<lparr>ref_count := ref_count n + 1\<rparr>) (heap s)\<rparr>))"

definition clear_fd_properties :: "nat \<Rightarrow> fdstate \<Rightarrow> (fdstate \<times> int) option" where
  "clear_fd_properties fd s =
     (case props s of
        None \<Rightarrow> None
      | Some t \<Rightarrow>
          if length t \<le> fd then None
          else case t ! fd of
            None \<Rightarrow> Some (s, -1)
          | Some a \<Rightarrow>
              let s = s\<lparr>heap := on_node a (\<lambda>n. n\<lparr>ref_count := ref_count n - 1\<rparr>) (heap s)\<rparr> in
              Option.bind
                (if ref_count (heap s ! a) = 0 then
                   Option.bind (close_fd a s) (\<lambda>s.
                     Some (free_fd_properties a (s\<lparr>heap := on_node a (\<lambda>n. n\<lparr>filename := None\<rparr>) (heap s)\<rparr>)))
                 else Some s)
                (\<lambda>s. Some (s\<lparr>props := Some (t[fd := None])\<rparr>, 0)))"

text \<open>
  \<^verbatim>\<open>_close\<close> for a descriptor without an extension: DOS closes the handle (\<open>dos_close\<close> says whether it succeeds)
  and the properties are cleared.
\<close>

definition close_handle :: "(nat \<Rightarrow> bool) \<Rightarrow> nat \<Rightarrow> fdstate \<Rightarrow> fdstate option" where
  "close_handle dos_close fd s =
     (if \<not> dos_close fd then Some s
      else case props s of
        Some t \<Rightarrow> if fd < length t \<and> t ! fd \<noteq> None then map_option fst (clear_fd_properties fd s) else Some s
      | None \<Rightarrow> Some s)"

fun cleanup_loop :: "(nat \<Rightarrow> bool) \<Rightarrow> nat list \<Rightarrow> fdstate \<Rightarrow> fdstate option" where
  "cleanup_loop dos_close [] s = Some s"
| "cleanup_loop dos_close (fd # fds) s =
     Option.bind
       (case props s of
          Some t \<Rightarrow> if fd < length t \<and> t ! fd \<noteq> None then close_handle dos_close fd s else Some s
        | None \<Rightarrow> None)
       (cleanup_loop dos_close fds)"

definition exit_cleanup :: "(nat \<Rightarrow> bool) \<Rightarrow> fdstate \<Rightarrow> fdstate option" where
  "exit_cleanup dos_close s =
     (if props s = None \<or> active_fds s = None then Some s else cleanup_loop dos_close [0..<255] s)"

definition fd_init :: "nat \<Rightarrow> fdstate" where
  "fd_init mem = \<lparr>heap = [], props = None, active_fds = None, cached_fds = None, bss_seen = 0, hook = False,
     removed = [], memory = mem\<rparr>"

definition junk0 :: fdp where
  "junk0 = \<lparr>ref_count = 7, filename = None, flags = 9, prev_p = None, next_p = None\<rparr>"

text \<open>The runs of a program: any descriptor may be set up or cleared, and copied into a free one.\<close>

inductive fd_reach :: "fdstate \<Rightarrow> bool" where
  init: "fd_reach (fd_init mem)"
| set: "fd_reach s \<Longrightarrow> set_fd_properties bss truename junk fd file open_flags s = Some (s', r) \<Longrightarrow> fd_reach s'"
| dup: "fd_reach s \<Longrightarrow> props s = Some t \<Longrightarrow> to < length t \<Longrightarrow> t ! to = None \<Longrightarrow>
    dup_fd_properties frm to s = Some s' \<Longrightarrow> fd_reach s'"
| clear: "fd_reach s \<Longrightarrow> clear_fd_properties fd s = Some (s', r) \<Longrightarrow> fd_reach s'"

section \<open>What the list operations keep\<close>

definition same_body :: "fdp list \<Rightarrow> fdp list \<Rightarrow> bool" where
  "same_body h h' \<longleftrightarrow> length h' = length h \<and>
     (\<forall>a < length h. ref_count (h' ! a) = ref_count (h ! a) \<and> filename (h' ! a) = filename (h ! a))"

lemma same_body_refl: "same_body h h"
  by (simp add: same_body_def)

lemma same_body_trans: "same_body h h' \<Longrightarrow> same_body h' h'' \<Longrightarrow> same_body h h''"
  by (simp add: same_body_def)

lemma nth_list_update': "xs[i := x] ! j = (if i = j \<and> i < length xs then x else xs ! j)"
  by (cases "i < length xs") (auto simp: list_update_beyond)

lemma same_body_step:
  assumes "same_body h h'" "\<And>n. ref_count (f n) = ref_count n" "\<And>n. filename (f n) = filename n"
  shows "same_body h (on_node a f h')"
proof -
  have "ref_count (h'[a := f (h' ! a)] ! b) = ref_count (h' ! b)" "filename (h'[a := f (h' ! a)] ! b) = filename (h' ! b)" for b
    using assms(2,3) by (simp_all add: list_update_beyond nth_list_update' )
  then show ?thesis using assms(1) by (simp add: same_body_def on_node_def)
qed

lemma insert_list_body: "same_body h (snd (insert_list head item h))"
  by (auto simp: insert_list_def Let_def split: option.splits intro!: same_body_step same_body_refl)

lemma remove_list_body: "same_body h (snd (remove_list head item h))"
  by (auto simp: remove_list_def Let_def split: option.splits intro!: same_body_step same_body_refl)

lemma remove_head: "a < length h \<Longrightarrow> fst (remove_list (Some a) a h) = None"
  by (auto simp: remove_list_def Let_def on_node_def split: option.splits)

lemma insert_head: "fst (insert_list head a h) = Some a"
  by (simp add: insert_list_def Let_def)

lemma count_list_upd:
  "i < length xs \<Longrightarrow> count_list (xs[i := x]) y + (if xs ! i = y then 1 else 0) = count_list xs y + (if x = y then 1 else 0)"
proof (induction xs arbitrary: i)
  case (Cons z xs)
  then show ?case
  proof (cases i)
    case (Suc j)
    then show ?thesis using Cons.IH [of j] Cons.prems by (auto split: if_splits)
  qed simp
qed simp

section \<open>Reference counts\<close>

definition counts_ok :: "nat option list \<Rightarrow> fdp list \<Rightarrow> bool" where
  "counts_ok t h \<longleftrightarrow> length t = 255 \<and>
     (\<forall>a. Some a \<in> set t \<longrightarrow> a < length h \<and> unat (ref_count (h ! a)) = count_list t (Some a))"

definition fd_ok :: "fdstate \<Rightarrow> bool" where
  "fd_ok s \<longleftrightarrow> (\<forall>t. props s = Some t \<longrightarrow> counts_ok t (heap s)
     \<and> (\<forall>c. cached_fds s = Some c \<longrightarrow> c < length (heap s) \<and> Some c \<notin> set t))"

lemma counts_ok_body: "counts_ok t h \<Longrightarrow> same_body h h' \<Longrightarrow> counts_ok t h'"
  by (auto simp: counts_ok_def same_body_def)

text \<open>A descriptor starts to use an object that none uses, whose count is 1.\<close>

lemma counts_ok_new:
  assumes "counts_ok t h" "fd < 255" "t ! fd = None" "Some a \<notin> set t" "a < length h'" "unat (ref_count (h' ! a)) = 1"
    "length h \<le> length h'" "\<And>b. b < length h \<Longrightarrow> b \<noteq> a \<Longrightarrow> ref_count (h' ! b) = ref_count (h ! b)"
  shows "counts_ok (t[fd := Some a]) h'"
proof -
  have l: "length t = 255" using assms(1) by (simp add: counts_ok_def)
  have "b < length h' \<and> unat (ref_count (h' ! b)) = count_list (t[fd := Some a]) (Some b)"
    if "Some b \<in> set (t[fd := Some a])" for b
  proof (cases "b = a")
    case True
    have "count_list t (Some a) = 0" using assms(4) by (simp add: count_list_0_iff)
    then show ?thesis using count_list_upd [of fd t "Some a" "Some a"] True assms(2,3,5,6) l by simp
  next
    case False
    then have "Some b \<in> set t" using that set_update_subset_insert [of t fd "Some a"] by auto
    then show ?thesis
      using count_list_upd [of fd t "Some a" "Some b"] False assms l by (auto simp: counts_ok_def)
  qed
  then show ?thesis using l by (simp add: counts_ok_def)
qed

lemma fd_ok_open: "fd_ok s \<Longrightarrow> fd_ok (open_fd a open_flags s)"
proof -
  assume "fd_ok s"
  moreover have "same_body (heap s) (heap (open_fd a open_flags s))"
    by (auto simp: open_fd_def Let_def intro!: same_body_step same_body_refl)
  moreover have "props (open_fd a open_flags s) = props s" "cached_fds (open_fd a open_flags s) = cached_fds s"
    by (simp_all add: open_fd_def Let_def)
  ultimately show ?thesis by (auto simp: fd_ok_def intro: counts_ok_body simp: same_body_def)
qed

text \<open>An allocated object is in use by no descriptor, and the cache is empty afterwards.\<close>

lemma alloc_fd:
  assumes "fd_ok s" "props s = Some t" "alloc_fd_properties junk s = (s1, x)" "x = Some a"
  shows "a < length (heap s1) \<and> Some a \<notin> set t \<and> cached_fds s1 = None \<and> length (heap s) \<le> length (heap s1)
    \<and> (\<forall>b. b < length (heap s) \<longrightarrow> b \<noteq> a \<longrightarrow> ref_count (heap s1 ! b) = ref_count (heap s ! b))"
proof (cases "cached_fds s")
  case None
  then have "s1 = s\<lparr>heap := on_node a (\<lambda>n. n\<lparr>prev_p := None, next_p := None, ref_count := 1\<rparr>) (heap s @ [junk]),
      memory := memory s - 1\<rparr>" "a = length (heap s)"
    using assms(3,4) by (auto simp: alloc_fd_properties_def Let_def split: if_splits)
  then show ?thesis using None assms(1,2) by (auto simp: fd_ok_def counts_ok_def on_node_def nth_append)
next
  case (Some c)
  have c: "c < length (heap s)" "Some c \<notin> set t" using assms(1,2) Some by (auto simp: fd_ok_def)
  obtain h where r: "remove_list (Some c) c (heap s) = (None, h)"
    using remove_head [OF c(1)] by (metis prod.collapse)
  then have b: "same_body (heap s) h" using remove_list_body [of "heap s" "Some c" c] by simp
  have "s1 = s\<lparr>heap := on_node c (\<lambda>n. n\<lparr>prev_p := None, next_p := None, ref_count := 1\<rparr>) h, cached_fds := None\<rparr>" "a = c"
    using assms(3,4) Some r by (auto simp: alloc_fd_properties_def Let_def)
  then show ?thesis using c b by (auto simp: same_body_def on_node_def)
qed

lemma set_fd_ok:
  assumes "fd_ok s" "set_fd_properties bss truename junk fd file open_flags s = Some (s', r)"
  shows "fd_ok s'"
proof -
  obtain s0 ok where i: "init_props bss s = (s0, ok)" by (cases "init_props bss s")
  have ok0: "fd_ok s0"
    using i assms(1) by (auto simp: init_props_def Let_def fd_ok_def counts_ok_def split: if_splits)
  show ?thesis
  proof (cases "ok \<and> (\<exists>t. props s0 = Some t \<and> fd < length t)")
    case False
    then show ?thesis using assms(2) i ok0 by (auto simp: set_fd_properties_def split: if_splits option.splits)
  next
    case True
    then obtain t where t: "ok" "props s0 = Some t" "fd < length t" by blast
    show ?thesis
    proof (cases "t ! fd")
      case (Some a)
      then have "s' = open_fd a open_flags s0" using assms(2) i t by (auto simp: set_fd_properties_def)
      then show ?thesis using ok0 by (simp add: fd_ok_open)
    next
      case None
      obtain s1 x where al: "alloc_fd_properties junk s0 = (s1, x)" by (cases "alloc_fd_properties junk s0")
      show ?thesis
      proof (cases x)
        case None
        then have "s1 = s0" using al by (auto simp: alloc_fd_properties_def Let_def split: option.splits if_splits prod.splits)
        then show ?thesis using None \<open>t ! fd = None\<close> assms(2) i t al ok0 by (auto simp: set_fd_properties_def)
      next
        case (Some a)
        let ?h = "on_node a (\<lambda>n. n\<lparr>ref_count := 1, filename := truename file\<rparr>) (heap s1)"
        obtain act h where ins: "insert_list (active_fds s1) a ?h = (act, h)" by (cases "insert_list (active_fds s1) a ?h")
        have s': "s' = open_fd a open_flags (s1\<lparr>props := Some (t[fd := Some a]), active_fds := act, heap := h\<rparr>)"
          using Some \<open>t ! fd = None\<close> assms(2) i t al ins by (auto simp: set_fd_properties_def)
        have a1: "a < length (heap s1)" "Some a \<notin> set t" "cached_fds s1 = None" "length (heap s0) \<le> length (heap s1)"
          "\<And>b. b < length (heap s0) \<Longrightarrow> b \<noteq> a \<Longrightarrow> ref_count (heap s1 ! b) = ref_count (heap s0 ! b)"
          using alloc_fd [OF ok0 t(2) al Some] by auto
        have b: "same_body ?h h" using insert_list_body [of ?h "active_fds s1" a] ins by simp
        have "counts_ok (t[fd := Some a]) h"
        proof (rule counts_ok_new)
          show "counts_ok t (heap s0)" "fd < 255" using ok0 t by (auto simp: fd_ok_def counts_ok_def)
          show "a < length h" "length (heap s0) \<le> length h" using a1 b by (auto simp: same_body_def on_node_def)
          show "unat (ref_count (h ! a)) = 1" using a1 b by (simp add: same_body_def on_node_def)
          show "ref_count (h ! c) = ref_count (heap s0 ! c)" if "c < length (heap s0)" "c \<noteq> a" for c
            using that a1 b by (simp add: same_body_def on_node_def)
        qed fact+
        then show ?thesis unfolding s' using a1(3) by (intro fd_ok_open) (auto simp: fd_ok_def)
      qed
    qed
  qed
qed

lemma dup_fd_ok:
  assumes "fd_ok s" "props s = Some t" "to < length t" "t ! to = None" "dup_fd_properties frm to s = Some s'"
  shows "fd_ok s'"
proof -
  have t: "counts_ok t (heap s)" "length t = 255" and c: "\<And>c. cached_fds s = Some c \<Longrightarrow> Some c \<notin> set t"
    using assms(1,2) by (auto simp: fd_ok_def counts_ok_def)
  show ?thesis
  proof (cases "t ! frm")
    case None
    then show ?thesis using assms by (auto simp: dup_fd_properties_def split: if_splits)
  next
    case (Some a)
    have s': "s' = s\<lparr>props := Some (t[to := Some a]), heap := on_node a (\<lambda>n. n\<lparr>ref_count := ref_count n + 1\<rparr>) (heap s)\<rparr>"
      and frm: "frm < 255"
      using assms(2,5) Some t(2) by (auto simp: dup_fd_properties_def split: if_splits)
    have a: "Some a \<in> set t" using Some frm t(2) by (metis nth_mem)
    then have ua: "a < length (heap s)" "unat (ref_count (heap s ! a)) = count_list t (Some a)"
      using t(1) by (auto simp: counts_ok_def)
    have up: "count_list (t[to := Some a]) (Some b) = count_list t (Some b) + (if b = a then 1 else 0)" for b
      using count_list_upd [OF assms(3), of "Some a" "Some b"] assms(4) by auto
    have "count_list (t[to := Some a]) (Some a) \<le> 255"
      using count_le_length [of "t[to := Some a]" "Some a"] t(2) by simp
    then have small: "unat (ref_count (heap s ! a)) + 1 < 2 ^ 8" using up [of a] ua(2) by simp
    then have "unat (ref_count (heap s ! a) + 1) = unat (ref_count (heap s ! a)) + 1"
      by (simp add: unat_word_ariths)
    moreover have "Some b \<in> set (t[to := Some a]) \<Longrightarrow> Some b \<in> set t" for b
      using a set_update_subset_insert [of t to "Some a"] by auto
    ultimately show ?thesis
      using t c ua up assms(1,2) unfolding s' by (auto simp: fd_ok_def counts_ok_def on_node_def nth_list_update)
  qed
qed

lemma close_fd_body:
  assumes "close_fd a s = Some s'"
  shows "same_body (heap s) (heap s') \<and> props s' = props s \<and> cached_fds s' = cached_fds s \<and> active_fds s' = active_fds s"
  using assms
  by (auto simp: close_fd_def bind_eq_Some_conv split: if_splits option.splits intro!: same_body_step same_body_refl)

lemma free_fd_body:
  "same_body (heap s) (heap (free_fd_properties a s)) \<and> props (free_fd_properties a s) = props s
    \<and> cached_fds (free_fd_properties a s) = Some a"
proof -
  obtain act h where r: "remove_list (active_fds s) a (heap s) = (act, h)" by (cases "remove_list (active_fds s) a (heap s)")
  obtain c h' where i: "insert_list (cached_fds s) a h = (c, h')" by (cases "insert_list (cached_fds s) a h")
  have "same_body (heap s) h'"
    using remove_list_body [of "heap s" "active_fds s" a] insert_list_body [of h "cached_fds s" a] r i
    by (auto intro: same_body_trans)
  then show ?thesis using r i insert_head [of "cached_fds s" a h] by (simp add: free_fd_properties_def)
qed

text \<open>Clearing a descriptor: the object loses one user, and goes to the cache with its last one.\<close>

lemma clear_cases:
  assumes "props s = Some t" "fd < length t" "t ! fd = Some a" "a < length (heap s)"
    "clear_fd_properties fd s = Some (s', r)"
  shows "r = 0 \<and> props s' = Some (t[fd := None]) \<and> length (heap s') = length (heap s)
    \<and> (\<forall>b < length (heap s). ref_count (heap s' ! b) = (if b = a then ref_count (heap s ! a) - 1 else ref_count (heap s ! b)))
    \<and> cached_fds s' = (if ref_count (heap s ! a) = 1 then Some a else cached_fds s)"
proof -
  let ?s = "s\<lparr>heap := on_node a (\<lambda>n. n\<lparr>ref_count := ref_count n - 1\<rparr>) (heap s)\<rparr>"
  have rc: "ref_count (heap ?s ! a) = ref_count (heap s ! a) - 1" using assms(4) by (simp add: on_node_def)
  show ?thesis
  proof (cases "ref_count (heap s ! a) = 1")
    case False
    then have "s' = ?s\<lparr>props := Some (t[fd := None])\<rparr>" "r = 0"
      using assms rc by (auto simp: clear_fd_properties_def Let_def)
    then show ?thesis using False by (auto simp: on_node_def nth_list_update')
  next
    case True
    then obtain s1 where c: "close_fd a ?s = Some s1" and r: "r = 0"
      and s': "s' = (free_fd_properties a (s1\<lparr>heap := on_node a (\<lambda>n. n\<lparr>filename := None\<rparr>) (heap s1)\<rparr>))\<lparr>props := Some (t[fd := None])\<rparr>"
      using assms rc by (auto simp: clear_fd_properties_def Let_def bind_eq_Some_conv)
    let ?s1 = "s1\<lparr>heap := on_node a (\<lambda>n. n\<lparr>filename := None\<rparr>) (heap s1)\<rparr>"
    have b: "same_body (heap ?s) (heap s1)" using close_fd_body [OF c] by blast
    have f: "same_body (heap ?s1) (heap s')" "cached_fds s' = Some a" "props s' = Some (t[fd := None])"
      using free_fd_body [of ?s1 a] s' by simp_all
    have "ref_count (heap s' ! x) = ref_count (heap ?s ! x)" if "x < length (heap s)" for x
      using that b f(1) by (auto simp: same_body_def on_node_def nth_list_update')
    moreover have "length (heap s') = length (heap s)" using b f(1) by (simp add: same_body_def on_node_def)
    ultimately show ?thesis using f r True by (simp add: on_node_def nth_list_update')
  qed
qed

lemma clear_fd_ok:
  assumes ok: "fd_ok s" and c: "clear_fd_properties fd s = Some (s', r)"
  shows "fd_ok s'"
proof -
  obtain t where t: "props s = Some t" "fd < length t"
    using c by (auto simp: clear_fd_properties_def split: option.splits if_splits)
  show ?thesis
  proof (cases "t ! fd")
    case None
    then show ?thesis using c t ok by (auto simp: clear_fd_properties_def split: if_splits)
  next
    case (Some a)
    then have "Some a \<in> set t" using t(2) by (metis nth_mem)
    then have a: "a < length (heap s)" "unat (ref_count (heap s ! a)) = count_list t (Some a)"
      and len: "length t = 255" using ok t(1) by (auto simp: fd_ok_def counts_ok_def)
    note res = clear_cases [OF t Some a(1) c]
    have cnt: "count_list (t[fd := None]) (Some b) + (if b = a then 1 else 0) = count_list t (Some b)" for b
      using count_list_upd [OF t(2), of None "Some b"] Some by auto
    have sub: "Some b \<in> set (t[fd := None]) \<Longrightarrow> Some b \<in> set t" for b
      using set_update_subset_insert [of t fd None] by auto
    have pos: "1 \<le> unat (ref_count (heap s ! a))" using cnt [of a] a(2) by simp
    then have dec: "unat (ref_count (heap s ! a) - 1) = unat (ref_count (heap s ! a)) - 1"
      by (simp add: unat_sub_if_size)
    have "counts_ok (t[fd := None]) (heap s')"
      unfolding counts_ok_def
    proof (intro conjI allI impI)
      fix b assume "Some b \<in> set (t[fd := None])"
      then have b: "b < length (heap s)" "unat (ref_count (heap s ! b)) = count_list t (Some b)"
        using sub ok t(1) by (auto simp: fd_ok_def counts_ok_def)
      then show "b < length (heap s')" "unat (ref_count (heap s' ! b)) = count_list (t[fd := None]) (Some b)"
        using res cnt [of b] dec a(2) by (auto split: if_splits)
    qed (use len in simp)
    moreover have "Some a \<notin> set (t[fd := None])" if "ref_count (heap s ! a) = 1"
      using that a(2) cnt [of a] by (simp add: count_list_0_iff [symmetric])
    ultimately show ?thesis using res ok t(1) a(1) sub unfolding fd_ok_def by (auto split: if_splits)
  qed
qed

lemma reach_ok: "fd_reach s \<Longrightarrow> fd_ok s"
proof (induction rule: fd_reach.induct)
  case (init mem)
  then show ?case by (simp add: fd_init_def fd_ok_def)
qed (blast intro: set_fd_ok dup_fd_ok clear_fd_ok)+

section \<open>Properties\<close>

text \<open>
  C13. In every run, the reference count of the object of a descriptor is the number of descriptors that
  share it, and it never overflows its byte; clearing a descriptor whose file is not temporary succeeds,
  leaves the other descriptors alone and takes one off the count.
\<close>

theorem fd_reference_counts:
  assumes "fd_reach s" "props s = Some t" "fd < 255" "t ! fd = Some a"
  shows "length t = 255 \<and> a < length (heap s) \<and> unat (ref_count (heap s ! a)) = count_list t (Some a)
    \<and> (flags (heap s ! a) AND FILE_DESC_TEMPORARY = 0 \<longrightarrow>
        (\<exists>s'. clear_fd_properties fd s = Some (s', 0) \<and> props s' = Some (t[fd := None])
          \<and> unat (ref_count (heap s' ! a)) = count_list t (Some a) - 1))"
proof -
  have ok: "counts_ok t (heap s)" using reach_ok [OF assms(1)] assms(2) by (simp add: fd_ok_def)
  then have len: "length t = 255" by (simp add: counts_ok_def)
  then have "Some a \<in> set t" using assms(3,4) by (metis nth_mem)
  then have a: "a < length (heap s)" "unat (ref_count (heap s ! a)) = count_list t (Some a)"
    using ok by (auto simp: counts_ok_def)
  have "1 \<le> count_list t (Some a)" using \<open>Some a \<in> set t\<close> by (simp add: count_list_0_iff Suc_leI neq0_conv [symmetric])
  then have dec: "unat (ref_count (heap s ! a) - 1) = count_list t (Some a) - 1"
    using a(2) by (simp add: unat_sub_if_size)
  have "\<exists>s'. clear_fd_properties fd s = Some (s', 0)" if "flags (heap s ! a) AND FILE_DESC_TEMPORARY = 0"
    using that assms len a(1) by (simp add: clear_fd_properties_def Let_def close_fd_def on_node_def)
  moreover have "props s' = Some (t[fd := None]) \<and> unat (ref_count (heap s' ! a)) = count_list t (Some a) - 1"
    if "clear_fd_properties fd s = Some (s', 0)" for s'
    using clear_cases [OF assms(2) _ assms(4) a(1) that] assms(3) len a(1) dec by simp
  ultimately show ?thesis using a len by blast
qed

text \<open>A file opened on descriptor 5, copied to descriptor 6.\<close>

definition fd_shared :: fdstate where
  "fd_shared = the (dup_fd_properties 5 6 (fst (the (set_fd_properties 1 Some junk0 5 ''a'' 0 (fd_init 10)))))"

lemma fd_shared_reach: "fd_reach fd_shared"
proof -
  have "set_fd_properties 1 Some junk0 5 ''a'' 0 (fd_init 10) \<noteq> None" by code_simp
  then obtain s1 r where s1: "set_fd_properties 1 Some junk0 5 ''a'' 0 (fd_init 10) = Some (s1, r)" by auto
  have "case props (fst (the (set_fd_properties 1 Some junk0 5 ''a'' 0 (fd_init 10)))) of
      Some t \<Rightarrow> 6 < length t \<and> t ! 6 = None | None \<Rightarrow> False" by code_simp
  then obtain t where t: "props s1 = Some t" "6 < length t" "t ! 6 = None" using s1 by (auto split: option.splits)
  have "dup_fd_properties 5 6 (fst (the (set_fd_properties 1 Some junk0 5 ''a'' 0 (fd_init 10)))) \<noteq> None" by code_simp
  then have "dup_fd_properties 5 6 s1 = Some fd_shared" using s1 by (auto simp: fd_shared_def)
  then show ?thesis using fd_reach.dup [OF fd_reach.set [OF fd_reach.init s1] t] by blast
qed

theorem fd_reference_counts_witness:
  "\<exists>t. props fd_shared = Some t \<and> count_list t (Some 0) = 2 \<and> unat (ref_count (heap fd_shared ! 0)) = 2"
proof -
  have "case props fd_shared of Some t \<Rightarrow> t ! 5 = Some 0 \<and> count_list t (Some 0) = 2 | None \<Rightarrow> False" by code_simp
  then obtain t where t: "props fd_shared = Some t" "t ! 5 = Some 0" "count_list t (Some 0) = 2"
    by (auto split: option.splits)
  from fd_reference_counts [OF fd_shared_reach t(1) _ t(2)] t show ?thesis by simp
qed

text \<open>
  When the object of the newest descriptor is closed, the list of objects in use becomes empty,
  whatever else is on it: the removal clears the link to the rest before the head follows it. The cleanup
  at exit, which looks at that list first, then closes nothing, so that temporary files of other
  descriptors are not deleted.
\<close>

theorem closing_newest_empties_active_list:
  assumes "props s = Some t" "fd < length t" "t ! fd = Some a" "a < length (heap s)" "active_fds s = Some a"
    "ref_count (heap s ! a) = 1" "flags (heap s ! a) AND FILE_DESC_TEMPORARY = 0"
  shows "\<exists>s'. clear_fd_properties fd s = Some (s', 0) \<and> active_fds s' = None
    \<and> exit_cleanup dos_close s' = Some s' \<and> removed s' = removed s"
proof -
  let ?h = "on_node a (\<lambda>n. n\<lparr>filename := None\<rparr>) (on_node a (\<lambda>n. n\<lparr>ref_count := ref_count n - 1\<rparr>) (heap s))"
  have "fst (remove_list (Some a) a ?h) = None" using assms(4) by (intro remove_head) (simp add: on_node_def)
  then obtain h where "remove_list (Some a) a ?h = (None, h)" by (cases "remove_list (Some a) a ?h") simp
  moreover have "close_fd a (s\<lparr>heap := on_node a (\<lambda>n. n\<lparr>ref_count := ref_count n - 1\<rparr>) (heap s)\<rparr>)
      = Some (s\<lparr>heap := on_node a (\<lambda>n. n\<lparr>ref_count := ref_count n - 1\<rparr>) (heap s)\<rparr>)"
    using assms(4,7) by (simp add: close_fd_def on_node_def)
  moreover have "ref_count (on_node a (\<lambda>n. n\<lparr>ref_count := ref_count n - 1\<rparr>) (heap s) ! a) = 0"
    using assms(4,6) by (simp add: on_node_def)
  ultimately show ?thesis
    using assms(1-3,5)
    by (simp add: clear_fd_properties_def Let_def free_fd_properties_def exit_cleanup_def split: prod.split)
qed

text \<open>A temporary file on descriptor 5 and another file on descriptor 6, which is then closed.\<close>

definition fd_two :: fdstate where
  "fd_two = fst (the (set_fd_properties 1 Some junk0 6 ''b'' 0
     (fst (the (set_fd_properties 1 Some junk0 5 ''a'' O_TEMPORARY (fd_init 10))))))"

theorem closing_newest_empties_active_list_witness:
  "\<exists>s'. clear_fd_properties 6 fd_two = Some (s', 0) \<and> exit_cleanup (\<lambda>_. True) s' = Some s' \<and> removed s' = []
     \<and> flags (heap fd_two ! 0) AND FILE_DESC_TEMPORARY \<noteq> 0"
proof -
  have "case props fd_two of Some t \<Rightarrow> 6 < length t \<and> t ! 6 = Some 1 | None \<Rightarrow> False" by code_simp
  then obtain t where t: "props fd_two = Some t" "6 < length t" "t ! 6 = Some 1" by (auto split: option.splits)
  have "1 < length (heap fd_two) \<and> active_fds fd_two = Some 1 \<and> ref_count (heap fd_two ! 1) = 1
    \<and> flags (heap fd_two ! 1) AND FILE_DESC_TEMPORARY = 0 \<and> removed fd_two = []
    \<and> flags (heap fd_two ! 0) AND FILE_DESC_TEMPORARY \<noteq> 0" by code_simp
  with closing_newest_empties_active_list [OF t, of "\<lambda>_. True"] show ?thesis by auto
qed

end
