(* ===== verification/Fsext.thy ===== *)
theory Fsext
  imports Prelude
begin

text \<open>
  \<^verbatim>\<open>fsext/fsext.c\<close>: the table of file system extensions, one function and one datum per descriptor, grown in
  chunks. The interface \<open>fd_table\<close> is a table of named entries; the two columns together provide it.
\<close>

section \<open>State\<close>

record fsext_entry =
  efunction :: nat
  edata :: nat

text \<open>
  Functions and data are numbers, 0 for the null pointer; \<open>fsext_list\<close> is \<^term>\<open>None\<close> when null. \<open>null_dev\<close>
  is the handle of the NUL device, -1 when there is none. \<open>fmemory\<close> is what the next calls of \<^verbatim>\<open>realloc\<close> will do: each
  number is the largest size that is granted then; when the list is used up, every call fails.
\<close>

record fsext =
  num_fds :: int
  fsext_list :: "fsext_entry list option"
  init_count :: int
  exit_hook :: bool
  null_dev :: int
  fmemory :: "nat list"

definition no_entry :: fsext_entry where
  "no_entry = \<lparr>efunction = 0, edata = 0\<rparr>"

section \<open>Operations\<close>

text \<open>\<open>bss\<close> is \<^verbatim>\<open>__bss_count\<close>.\<close>

definition init :: "int \<Rightarrow> fsext \<Rightarrow> fsext \<times> bool" where
  "init bss s =
     (if init_count s = bss then (s, False)
      else (s\<lparr>init_count := bss, num_fds := 0, fsext_list := None, exit_hook := True\<rparr>, True))"

definition granted :: "nat \<Rightarrow> fsext \<Rightarrow> bool" where
  "granted n s \<longleftrightarrow> (case fmemory s of [] \<Rightarrow> False | l # _ \<Rightarrow> n \<le> l)"

text \<open>
  The new number of entries is an \<^verbatim>\<open>int\<close> and the size in bytes a \<^verbatim>\<open>size_t\<close>, both of 32 bits; the block that \<^verbatim>\<open>realloc\<close>
  returns has room for that size only. The result is \<^term>\<open>None\<close> when the loop clears entries behind the block; its second
  part is true when the table could not be grown.
\<close>

definition new_fds :: "int \<Rightarrow> int" where
  "new_fds fd = (let chunk_sz = 256 in signed_take_bit 31 ((fd + chunk_sz) AND NOT (chunk_sz - 1)))"

definition table_bytes :: "int \<Rightarrow> nat" where
  "table_bytes n = nat (n * 8 mod 2 ^ 32)"

definition grow_table :: "int \<Rightarrow> int \<Rightarrow> fsext \<Rightarrow> (fsext \<times> bool) option" where
  "grow_table bss fd s =
     (let s = fst (init bss s) in
      if fd < 0 then Some (s, True)
      else if num_fds s \<le> fd then
        let old_fds = num_fds s;
            n = new_fds fd;
            entries = table_bytes n div 8;
            t = take entries (case fsext_list s of Some t \<Rightarrow> t | None \<Rightarrow> []);
            grants = granted (table_bytes n) s;
            s = s\<lparr>fmemory := tl (fmemory s)\<rparr> in
        if \<not> grants then Some (s, True)
        else if old_fds < n \<and> int entries < n then None
        else Some (s\<lparr>num_fds := n, fsext_list := Some (t @ replicate (nat (n - old_fds)) no_entry)\<rparr>, False)
      else Some (s, False))"

text \<open>Reading or storing \<^verbatim>\<open>fsext_list[_fd]\<close> through a null pointer or behind the block is \<^term>\<open>None\<close>.\<close>

definition ext_at :: "int \<Rightarrow> fsext \<Rightarrow> fsext_entry option" where
  "ext_at fd s = (case fsext_list s of None \<Rightarrow> None | Some t \<Rightarrow> if nat fd < length t then Some (t ! nat fd) else None)"

definition set_ext :: "int \<Rightarrow> (fsext_entry \<Rightarrow> fsext_entry) \<Rightarrow> fsext \<Rightarrow> fsext option" where
  "set_ext fd u s =
     (case fsext_list s of
        None \<Rightarrow> None
      | Some t \<Rightarrow> if nat fd < length t then Some (s\<lparr>fsext_list := Some (t[nat fd := u (t ! nat fd)])\<rparr>) else None)"

definition FSEXT_set_function :: "int \<Rightarrow> int \<Rightarrow> nat \<Rightarrow> fsext \<Rightarrow> (fsext \<times> int) option" where
  "FSEXT_set_function bss fd f s = do {
     (s, failed) \<leftarrow> grow_table bss fd s;
     if failed then Some (s, 1)
     else do { s \<leftarrow> set_ext fd (efunction_update (\<lambda>_. f)) s; Some (s, 0) }
   }"

definition FSEXT_get_function :: "int \<Rightarrow> int \<Rightarrow> fsext \<Rightarrow> (fsext \<times> nat) option" where
  "FSEXT_get_function bss fd s =
     (let s = fst (init bss s) in
      if fd < 0 \<or> num_fds s \<le> fd then Some (s, 0) else do { e \<leftarrow> ext_at fd s; Some (s, efunction e) })"

definition FSEXT_set_data :: "int \<Rightarrow> int \<Rightarrow> nat \<Rightarrow> fsext \<Rightarrow> (fsext \<times> nat) option" where
  "FSEXT_set_data bss fd d s = do {
     (s, failed) \<leftarrow> grow_table bss fd s;
     if failed then Some (s, 0)
     else do { s \<leftarrow> set_ext fd (edata_update (\<lambda>_. d)) s; Some (s, d) }
   }"

definition FSEXT_get_data :: "int \<Rightarrow> int \<Rightarrow> fsext \<Rightarrow> (fsext \<times> nat) option" where
  "FSEXT_get_data bss fd s =
     (let s = fst (init bss s) in
      if fd < 0 \<or> num_fds s \<le> fd then Some (s, 0) else do { e \<leftarrow> ext_at fd s; Some (s, edata e) })"

text \<open>
  \<^verbatim>\<open>__FSEXT_alloc_fd\<close>: \<open>dos_open\<close> and \<open>dos_dup\<close> are the two DOS calls, a handle or an error code. The result is
  the descriptor or -1 with the error code for \<^verbatim>\<open>errno\<close>.
\<close>

definition FSEXT_alloc_fd ::
  "(int + int) \<Rightarrow> (int \<Rightarrow> int + int) \<Rightarrow> int \<Rightarrow> nat \<Rightarrow> fsext \<Rightarrow> (fsext \<times> (int + int)) option" where
  "FSEXT_alloc_fd dos_open dos_dup bss f s =
     (case init bss s of (s, fresh) \<Rightarrow>
        let first = fresh \<or> null_dev s = -1;
            s = (if first then s\<lparr>null_dev := (case dos_open of Inr h \<Rightarrow> h | Inl e \<Rightarrow> -1)\<rparr> else s);
            r = (if null_dev s \<noteq> -1 then dos_dup (null_dev s) else dos_open) in
        case r of
          Inl e \<Rightarrow> Some (s, Inl e)
        | Inr fd \<Rightarrow> Option.bind (FSEXT_set_function bss fd f s) (\<lambda>(s, _). Some (s, Inr fd)))"

text \<open>
  What \<^verbatim>\<open>_close\<close> does to this table for a descriptor with an extension, whether the extension handles the call
  or not: the function is forgotten.
\<close>

definition close_ext :: "int \<Rightarrow> int \<Rightarrow> fsext \<Rightarrow> fsext option" where
  "close_ext bss fd s =
     Option.bind (FSEXT_get_function bss fd s) (\<lambda>(s, f).
       if f = 0 then Some s else map_option fst (FSEXT_set_function bss fd 0 s))"

text \<open>The loop of \<^verbatim>\<open>__FSEXT_close_all\<close>, which also lists the descriptors that it closes.\<close>

fun close_all_loop :: "int \<Rightarrow> nat list \<Rightarrow> fsext \<Rightarrow> (fsext \<times> nat list) option" where
  "close_all_loop bss [] s = Some (s, [])"
| "close_all_loop bss (i # is) s =
     (case fsext_list s of
        None \<Rightarrow> None
      | Some t \<Rightarrow>
          if efunction (t ! i) \<noteq> 0 then
            Option.bind (close_ext bss (int i) s) (\<lambda>s.
              Option.bind (close_all_loop bss is s) (\<lambda>(s, cs). Some (s, i # cs)))
          else close_all_loop bss is s)"

definition FSEXT_close_all :: "int \<Rightarrow> fsext \<Rightarrow> (fsext \<times> nat list) option" where
  "FSEXT_close_all bss s =
     (if fsext_list s = None then Some (s, [])
      else Option.bind (close_all_loop bss [0..<nat (num_fds s)] (s\<lparr>exit_hook := False\<rparr>))
             (\<lambda>(s, cs). Some (s\<lparr>fsext_list := None\<rparr>, cs)))"

definition fsext_start :: "nat list \<Rightarrow> fsext" where
  "fsext_start mem = \<lparr>num_fds = 0, fsext_list = None, init_count = -1, exit_hook = False, null_dev = -1, fmemory = mem\<rparr>"

section \<open>The table as a map\<close>

text \<open>
  The interface: a partial write, which may fail, a read and the states in which the table is sound.
  A read after a write returns what was written, and entries with other names stay.
\<close>

locale fd_table =
  fixes put_e :: "'k \<Rightarrow> 'v \<Rightarrow> 's \<Rightarrow> 's option" and get_e :: "'k \<Rightarrow> 's \<Rightarrow> 'v option" and ok :: "'s \<Rightarrow> bool"
  assumes write_ok: "ok s \<Longrightarrow> put_e k v s = Some s' \<Longrightarrow> ok s'"
    and read_total: "ok s \<Longrightarrow> get_e k s \<noteq> None"
    and read_same: "ok s \<Longrightarrow> put_e k v s = Some s' \<Longrightarrow> get_e k s' = Some v"
    and read_other: "ok s \<Longrightarrow> put_e k v s = Some s' \<Longrightarrow> k' \<noteq> k \<Longrightarrow> get_e k' s' = get_e k' s"
begin

primrec writes :: "('k \<times> 'v) list \<Rightarrow> 's \<Rightarrow> 's option" where
  "writes [] s = Some s"
| "writes (p # ps) s = Option.bind (put_e (fst p) (snd p) s) (writes ps)"

lemma writes_ok: "ok s \<Longrightarrow> writes ps s = Some s' \<Longrightarrow> ok s'"
  by (induction ps arbitrary: s) (auto simp: bind_eq_Some_conv dest: write_ok)

text \<open>After any sequence of successful writes an entry holds the last value written to it.\<close>

lemma last_write_wins:
  "ok s \<Longrightarrow> writes ps s = Some s' \<Longrightarrow>
     get_e k s' = (case map_of (rev ps) k of Some v \<Rightarrow> Some v | None \<Rightarrow> get_e k s)"
proof (induction ps arbitrary: s)
  case (Cons p ps)
  obtain s1 where s1: "put_e (fst p) (snd p) s = Some s1" "writes ps s1 = Some s'"
    using Cons.prems(2) by (auto simp: bind_eq_Some_conv)
  have "ok s1" using Cons.prems(1) s1(1) by (rule write_ok)
  then show ?case
    using Cons.IH [OF _ s1(2)] s1(1) Cons.prems(1) read_same read_other
    by (cases p) (auto simp: map_add_def split: option.splits)
qed simp

end

text \<open>A sound table has as many entries as \<^verbatim>\<open>num_fds\<close> says.\<close>

definition table_ok :: "int \<Rightarrow> fsext \<Rightarrow> bool" where
  "table_ok bss s \<longleftrightarrow> init_count s = bss \<and> 0 \<le> num_fds s \<and>
     (case fsext_list s of None \<Rightarrow> num_fds s = 0 | Some t \<Rightarrow> int (length t) = num_fds s)"

text \<open>The names of the entries: a column and a descriptor. A write that the code refuses is \<^term>\<open>None\<close> here too.\<close>

datatype column = Function | Data

fun write_entry :: "int \<Rightarrow> column \<times> int \<Rightarrow> nat \<Rightarrow> fsext \<Rightarrow> fsext option" where
  "write_entry bss (Function, fd) v s = do { (s', r) \<leftarrow> FSEXT_set_function bss fd v s; if r = 0 then Some s' else None }"
| "write_entry bss (Data, fd) v s = do {
     (_, failed) \<leftarrow> grow_table bss fd s; (s', _) \<leftarrow> FSEXT_set_data bss fd v s; if failed then None else Some s' }"

fun read_entry :: "int \<Rightarrow> column \<times> int \<Rightarrow> fsext \<Rightarrow> nat option" where
  "read_entry bss (Function, fd) s = map_option snd (FSEXT_get_function bss fd s)"
| "read_entry bss (Data, fd) s = map_option snd (FSEXT_get_data bss fd s)"

text \<open>The field of an entry.\<close>

fun col_of :: "column \<Rightarrow> fsext_entry \<Rightarrow> nat" where
  "col_of Function e = efunction e"
| "col_of Data e = edata e"

fun col_set :: "column \<Rightarrow> nat \<Rightarrow> fsext_entry \<Rightarrow> fsext_entry" where
  "col_set Function v e = e\<lparr>efunction := v\<rparr>"
| "col_set Data v e = e\<lparr>edata := v\<rparr>"

lemma col_of_set: "col_of c (col_set c' v e) = (if c = c' then v else col_of c e)"
  by (cases c; cases c') simp_all

lemma chunk_eq: "(fd + 256) AND NOT 255 = (fd + 256) div 256 * 256" for fd :: int
proof -
  have "(a AND NOT m) AND (a AND m) = 0" "(a AND NOT m) OR (a AND m) = a" for a m :: int
    by (rule bit_eqI; auto simp: bit_simps)+
  then have "(a AND NOT m) + (a AND m) = a" for a m :: int using disjunctive_add_eq_or by metis
  moreover have "(fd + 256) AND 255 = (fd + 256) mod 256"
    using take_bit_eq_mask [of 8 "fd + 256"] by (simp only: take_bit_eq_mod mask_eq_exp_minus_1) simp
  ultimately have "(fd + 256) AND NOT 255 = (fd + 256) - (fd + 256) mod 256" by (metis add_diff_cancel_right')
  then show ?thesis by (simp only: minus_mod_eq_div_mult)
qed

text \<open>Below \<open>2 ^ 29\<close> entries nothing wraps around; above, the block is too small or the number negative.\<close>

lemma new_fds_small:
  assumes "0 \<le> fd" "fd < 2 ^ 29 - 256"
  shows "fd < new_fds fd" "new_fds fd \<le> fd + 256" "table_bytes (new_fds fd) = 8 * nat (new_fds fd)"
proof -
  have c: "new_fds fd = signed_take_bit 31 ((fd + 256) div 256 * 256)" using chunk_eq [of fd] by (simp add: new_fds_def)
  have m: "fd < (fd + 256) div 256 * 256" "(fd + 256) div 256 * 256 \<le> fd + 256" "(fd + 256) div 256 * 256 < 2 ^ 29"
    using assms by presburger+
  have n: "new_fds fd = (fd + 256) div 256 * 256" unfolding c using assms m by (intro signed_take_bit_int_eq_self) auto
  then show f: "fd < new_fds fd" "new_fds fd \<le> fd + 256" using m by simp_all
  have "new_fds fd * 8 mod 2 ^ 32 = new_fds fd * 8" using m n assms(1) by (intro mod_pos_pos_trivial) auto
  then show "table_bytes (new_fds fd) = 8 * nat (new_fds fd)" by (simp add: table_bytes_def nat_mult_distrib)
qed

lemma new_fds_large:
  assumes "2 ^ 29 - 256 \<le> fd" "fd < 2 ^ 31"
  shows "new_fds fd < 0 \<and> table_bytes (new_fds fd) = 0 \<or> fd < new_fds fd \<and> int (table_bytes (new_fds fd) div 8) < new_fds fd"
proof -
  let ?m = "(fd + 256) div 256 * 256"
  have c: "new_fds fd = signed_take_bit 31 ?m" using chunk_eq [of fd] by (simp add: new_fds_def)
  have b: "536870656 \<le> fd" "fd < 2147483648" using assms by simp_all
  obtain q where q: "q = (fd + 256) div 256" by blast
  have "fd < q * 256" "q * 256 \<le> fd + 256" unfolding q by presburger+
  then have "fd < ?m" "536870912 \<le> ?m" "?m \<le> 2147483648" unfolding q [symmetric] using b by simp_all
  then have m: "fd < ?m" "2 ^ 29 \<le> ?m" "?m \<le> 2 ^ 31" by simp_all
  show ?thesis
  proof (cases "?m = 2 ^ 31")
    case True
    have "new_fds fd = - (2 ^ 31)" unfolding c True by simp
    then show ?thesis by (simp add: table_bytes_def)
  next
    case False
    then have n: "new_fds fd = ?m" unfolding c using m by (intro signed_take_bit_int_eq_self) auto
    have "?m * 8 mod 2 ^ 32 = 8 * (?m mod 2 ^ 29)" using mult_mod_right [of 8 ?m "2 ^ 29"] by (simp add: mult.commute)
    then have "int (table_bytes (new_fds fd) div 8) = ?m mod 2 ^ 29" unfolding n table_bytes_def by (simp add: zdiv_int)
    moreover have "?m mod 2 ^ 29 < 2 ^ 29" by simp
    ultimately show ?thesis using m unfolding n by linarith
  qed
qed

text \<open>A table that has been grown and has the entry is sound and reads as before.\<close>

lemma grow_table_ok:
  assumes "table_ok bss s" "grow_table bss fd s = Some (s', False)" "set_ext fd u s' \<noteq> None"
  shows "\<exists>t. fsext_list s' = Some t \<and> table_ok bss s' \<and> 0 \<le> fd \<and> fd < num_fds s' \<and> int (length t) = num_fds s'
    \<and> num_fds s \<le> num_fds s'
    \<and> (\<forall>i < length t. t ! i = (if int i < num_fds s then the (fsext_list s) ! i else no_entry))"
proof -
  have i: "init bss s = (s, False)" using assms(1) by (simp add: init_def table_ok_def)
  then have fd: "0 \<le> fd" using assms(2) by (auto simp: grow_table_def Let_def split: if_splits)
  show ?thesis
  proof (cases "num_fds s \<le> fd")
    case False
    then have "s' = s" using assms(2) i by (auto simp: grow_table_def Let_def split: if_splits)
    moreover obtain t where "fsext_list s = Some t" using assms(1) False fd by (auto simp: table_ok_def split: option.splits)
    ultimately show ?thesis using assms(1) False fd by (auto simp: table_ok_def)
  next
    case True
    define n where "n = new_fds fd"
    define k where "k = table_bytes n div 8"
    define l where "l = (case fsext_list s of Some t \<Rightarrow> t | None \<Rightarrow> [])"
    have s': "s' = s\<lparr>fmemory := tl (fmemory s), num_fds := n,
        fsext_list := Some (take k l @ replicate (nat (n - num_fds s)) no_entry)\<rparr>" and c: "\<not> (num_fds s < n \<and> int k < n)"
      using assms(2) i True fd unfolding n_def k_def l_def by (auto simp: grow_table_def Let_def split: if_splits)
    have l: "int (length l) = num_fds s" "0 \<le> num_fds s" "fsext_list s = None \<Longrightarrow> num_fds s = 0" "num_fds s \<noteq> 0 \<Longrightarrow> the (fsext_list s) = l"
      using assms(1) by (auto simp: table_ok_def l_def split: option.splits)
    have e: "nat fd < length (take k l @ replicate (nat (n - num_fds s)) no_entry)"
      using assms(3) unfolding s' by (auto simp: set_ext_def split: if_splits)
    then have n: "num_fds s < n" using True l(1) fd by auto
    then have k: "length l \<le> k" using c l(1) by linarith
    have "take k l = l" using k by simp
    then have "fsext_list s' = Some (l @ replicate (nat (n - num_fds s)) no_entry)" "num_fds s' = n" "init_count s' = init_count s"
      unfolding s' by simp_all
    then show ?thesis
      using assms(1) n True fd l e k by (auto simp: table_ok_def nth_append)
  qed
qed

lemma read_entry_eq:
  "table_ok bss s \<Longrightarrow> read_entry bss (c, fd) s =
     Some (if 0 \<le> fd \<and> fd < num_fds s then col_of c (the (fsext_list s) ! nat fd) else 0)"
  by (cases c) (auto simp: FSEXT_get_function_def FSEXT_get_data_def ext_at_def init_def table_ok_def Let_def split: option.splits)

lemma write_entry_eq:
  assumes "write_entry bss (c, fd) v s = Some s'"
  obtains s1 where "grow_table bss fd s = Some (s1, False)" "set_ext fd (col_set c v) s1 = Some s'"
proof -
  have "efunction_update (\<lambda>_. v) = col_set Function v" "edata_update (\<lambda>_. v) = col_set Data v" by auto
  then show ?thesis
    using assms that by (cases c) (auto simp: FSEXT_set_function_def FSEXT_set_data_def split: bind_splits if_splits prod.splits)
qed

interpretation ext_table: fd_table "write_entry bss" "read_entry bss" "table_ok bss" for bss
proof unfold_locales
  fix s s' :: fsext and k k' :: "column \<times> int" and v
  assume ok: "table_ok bss s"
  obtain c fd c' fd' where k: "k = (c, fd)" "k' = (c', fd')" by (cases k; cases k')
  show "read_entry bss k s \<noteq> None" using ok by (simp add: k read_entry_eq)
  assume w: "write_entry bss k v s = Some s'"
  obtain s1 where g: "grow_table bss fd s = Some (s1, False)" "set_ext fd (col_set c v) s1 = Some s'"
    using write_entry_eq [OF w [unfolded k]] .
  obtain t where s1: "fsext_list s1 = Some t" "table_ok bss s1" "0 \<le> fd" "fd < num_fds s1" "int (length t) = num_fds s1"
      "num_fds s \<le> num_fds s1" "\<And>i. i < length t \<Longrightarrow> t ! i = (if int i < num_fds s then the (fsext_list s) ! i else no_entry)"
    using grow_table_ok [OF ok g(1)] g(2) by blast
  have s': "s' = s1\<lparr>fsext_list := Some (t[nat fd := col_set c v (t ! nat fd)])\<rparr>"
    using g(2) s1(1) by (auto simp: set_ext_def split: if_splits)
  show ok': "table_ok bss s'" using s1 by (simp add: table_ok_def s')
  have nd: "nat fd < length t" using s1(3-5) by simp
  show "read_entry bss k s' = Some v"
    unfolding k read_entry_eq [OF ok'] using s1(3,4) nd by (simp add: s' col_of_set)
  show "read_entry bss k' s' = read_entry bss k' s" if "k' \<noteq> k"
  proof -
    have z: "col_of c' no_entry = 0" by (cases c') (simp_all add: no_entry_def)
    have "col_of c' (t[nat fd := col_set c v (t ! nat fd)] ! nat fd') = col_of c' (t ! nat fd')"
      if "0 \<le> fd'" "fd' < num_fds s1"
      using that \<open>k' \<noteq> k\<close> k nd s1(3) by (cases "fd' = fd") (auto simp: col_of_set)
    then show ?thesis
      unfolding k read_entry_eq [OF ok'] read_entry_eq [OF ok]
      using s1(5-7) by (auto simp: s' z)
  qed
qed

section \<open>Properties\<close>

lemma close_all_loop_closes:
  assumes "table_ok bss s" "fsext_list s = Some t" "distinct is" "\<forall>i \<in> set is. i < length t"
  shows "\<exists>s'. close_all_loop bss is s = Some (s', filter (\<lambda>i. efunction (t ! i) \<noteq> 0) is) \<and> num_fds s' = num_fds s
    \<and> init_count s' = bss"
  using assms
proof (induction "is" arbitrary: s t)
  case Nil
  then show ?case by (simp add: table_ok_def)
next
  case (Cons i "is")
  show ?case
  proof (cases "efunction (t ! i) = 0")
    case True
    then show ?thesis using Cons by simp
  next
    case False
    let ?t = "t[i := (t ! i)\<lparr>efunction := 0\<rparr>]" let ?s = "s\<lparr>fsext_list := Some ?t\<rparr>"
    have i: "int i < num_fds s" "init bss s = (s, False)" using Cons.prems by (auto simp: table_ok_def init_def)
    have "close_ext bss (int i) s = Some ?s"
      using False Cons.prems(2) i Cons.prems(1,4)
      by (simp add: close_ext_def FSEXT_set_function_def grow_table_def set_ext_def ext_at_def FSEXT_get_function_def)
    moreover have "table_ok bss ?s" using Cons.prems(1,2) by (simp add: table_ok_def)
    moreover have "filter (\<lambda>j. efunction (?t ! j) \<noteq> 0) is = filter (\<lambda>j. efunction (t ! j) \<noteq> 0) is"
    proof (rule filter_cong [OF refl])
      fix j assume "j \<in> set is"
      then have "j \<noteq> i" using Cons.prems(3) by auto
      then show "(efunction (?t ! j) \<noteq> 0) = (efunction (t ! j) \<noteq> 0)" by simp
    qed
    ultimately show ?thesis
      using Cons.IH [of ?s ?t] Cons.prems False by auto
  qed
qed

lemma grow_refused:
  assumes "table_ok bss s" "fd < 0 \<or> num_fds s \<le> fd \<and> fmemory s = []"
  shows "grow_table bss fd s = Some (s, True)"
  using assms by (auto simp: grow_table_def init_def table_ok_def granted_def Let_def)

lemma grow_table_beyond:
  assumes "table_ok bss s" "0 \<le> fd" "num_fds s \<le> fd" "granted (table_bytes (new_fds fd)) s"
  shows "grow_table bss fd s =
    (if num_fds s < new_fds fd \<and> int (table_bytes (new_fds fd) div 8) < new_fds fd then None
     else Some (s\<lparr>fmemory := tl (fmemory s), num_fds := new_fds fd, fsext_list := Some (take (table_bytes (new_fds fd) div 8)
       (case fsext_list s of Some t \<Rightarrow> t | None \<Rightarrow> []) @ replicate (nat (new_fds fd - num_fds s)) no_entry)\<rparr>, False))"
  using assms by (simp add: grow_table_def init_def table_ok_def Let_def)

lemma grow_granted:
  assumes "table_ok bss s" "0 \<le> fd" "fd < 2 ^ 29 - 256" "fmemory s = l # ls" "8 * (nat fd + 256) \<le> l"
  shows "write_entry bss (c, fd) v s \<noteq> None"
proof (cases "num_fds s \<le> fd")
  case False
  have i: "init bss s = (s, False)" using assms(1) by (simp add: init_def table_ok_def)
  obtain t where "fsext_list s = Some t" "int (length t) = num_fds s"
    using assms(1,2) False by (auto simp: table_ok_def split: option.splits)
  then show ?thesis
    using False assms(2) i by (cases c) (auto simp: FSEXT_set_function_def FSEXT_set_data_def grow_table_def set_ext_def)
next
  case True
  note n = new_fds_small [OF assms(2,3)]
  define t where "t = (case fsext_list s of Some t \<Rightarrow> t | None \<Rightarrow> [])"
  have t: "int (length t) = num_fds s" using assms(1) by (auto simp: table_ok_def t_def split: option.splits)
  have "granted (table_bytes (new_fds fd)) s" using n assms(2,4,5) by (simp add: granted_def)
  from grow_table_beyond [OF assms(1,2) True this]
  have "grow_table bss fd s = Some (s\<lparr>fmemory := tl (fmemory s), num_fds := new_fds fd,
      fsext_list := Some (t @ replicate (nat (new_fds fd - num_fds s)) no_entry)\<rparr>, False)"
    using n t True assms(2) unfolding t_def [symmetric] by simp
  moreover have "nat fd < length (t @ replicate (nat (new_fds fd - num_fds s)) no_entry)" using t n(1) True assms(2) by simp
  ultimately show ?thesis by (cases c) (auto simp: FSEXT_set_function_def FSEXT_set_data_def set_ext_def)
qed

text \<open>For larger descriptors the size in bytes wraps around and memory behind the block is written.\<close>

lemma grow_overruns:
  assumes "table_ok bss s" "2 ^ 29 - 256 \<le> fd" "fd < 2 ^ 31" "num_fds s \<le> fd" "fmemory s = l # ls" "2 ^ 32 \<le> l"
  shows "FSEXT_set_function bss fd f s = None" "FSEXT_set_data bss fd f s = None"
proof -
  have "table_bytes n \<le> 2 ^ 32" for n
    using pos_mod_bound [of "2 ^ 32" "n * 8"] by (simp add: table_bytes_def nat_le_iff)
  from this [of "new_fds fd"] have g: "granted (table_bytes (new_fds fd)) s" using assms(5,6) by (simp add: granted_def)
  have fd: "0 \<le> fd" using assms(2) by simp
  note grow = grow_table_beyond [OF assms(1) fd assms(4) g]
  have "num_fds s \<ge> 0" using assms(1) by (simp add: table_ok_def)
  then show "FSEXT_set_function bss fd f s = None" "FSEXT_set_data bss fd f s = None"
    using new_fds_large [OF assms(2,3)] assms(4)
    by (auto simp: FSEXT_set_function_def FSEXT_set_data_def grow set_ext_def)
qed

text \<open>
  C38. The extension table is a map from columns and descriptors to values: after any sequence of successful settings of
  functions and data, mixed in any order, each of the two entries of every descriptor reads as the last value that was
  set for it and, if none was, as before; setting a function leaves the data alone and the other way round. A negative
  descriptor is refused, and so is one beyond the table when \<^verbatim>\<open>realloc\<close> fails; every entry then reads as before. A
  descriptor below \<open>2 ^ 29 - 256\<close> is accepted when \<^verbatim>\<open>realloc\<close> grants the memory. From there on the size in bytes wraps
  around, and a setting that is granted memory writes behind the block.
\<close>

theorem fsext_table_map:
  assumes "table_ok bss s"
  shows "(fd_table.writes (write_entry bss) ps s = Some s' \<longrightarrow> table_ok bss s' \<and>
        (\<forall>k. read_entry bss k s' = (case map_of (rev ps) k of Some v \<Rightarrow> Some v | None \<Rightarrow> read_entry bss k s)))
    \<and> (fd < 0 \<or> num_fds s \<le> fd \<and> fmemory s = [] \<longrightarrow>
        FSEXT_set_function bss fd v s = Some (s, 1) \<and> FSEXT_set_data bss fd v s = Some (s, 0))
    \<and> (0 \<le> fd \<and> fd < 2 ^ 29 - 256 \<and> fmemory s = l # ls \<and> 8 * (nat fd + 256) \<le> l \<longrightarrow> write_entry bss (c, fd) v s \<noteq> None)
    \<and> (2 ^ 29 - 256 \<le> fd \<and> fd < 2 ^ 31 \<and> num_fds s \<le> fd \<and> fmemory s = l # ls \<and> 2 ^ 32 \<le> l \<longrightarrow>
        FSEXT_set_function bss fd v s = None \<and> FSEXT_set_data bss fd v s = None)"
  using assms ext_table.writes_ok ext_table.last_write_wins grow_refused [OF assms, of fd] grow_granted [OF assms, of fd]
    grow_overruns [OF assms, of fd]
  by (auto simp: FSEXT_set_function_def FSEXT_set_data_def)

theorem fsext_table_map_witness:
  "\<exists>s'. fd_table.writes (write_entry 1) [((Function, 300), 7), ((Data, 300), 9), ((Function, 20), 5)] (fst (init 1 (fsext_start [5000])))
       = Some s' \<and> read_entry 1 (Function, 300) s' = Some 7 \<and> read_entry 1 (Data, 300) s' = Some 9 \<and> read_entry 1 (Data, 20) s' = Some 0"
proof -
  let ?s = "fst (init 1 (fsext_start [5000]))" and ?ps = "[((Function, 300), 7), ((Data, 300), 9), ((Function, 20), 5)]"
  have ok: "table_ok 1 ?s" "read_entry 1 (Data, 20) ?s = Some 0" by code_simp+
  have "\<not> Option.is_none (do { s \<leftarrow> write_entry 1 (Function, 300) 7 ?s; s \<leftarrow> write_entry 1 (Data, 300) 9 s; write_entry 1 (Function, 20) 5 s })"
    by code_simp
  then obtain s' where s': "fd_table.writes (write_entry 1) ?ps ?s = Some s'" by (auto simp: Option.is_none_def split: bind_splits)
  then have "read_entry 1 k s' = (case map_of (rev ?ps) k of Some v \<Rightarrow> Some v | None \<Rightarrow> read_entry 1 k ?s)" for k
    using fsext_table_map [OF ok(1), of ?ps s'] by blast
  from this [of "(Function, 300)"] this [of "(Data, 300)"] this [of "(Data, 20)"] show ?thesis using s' ok(2) by (simp del: read_entry.simps write_entry.simps)
qed

text \<open>
  \<^verbatim>\<open>__FSEXT_close_all\<close> closes exactly the descriptors that have a function, in increasing order, and frees
  the table; but it keeps the number of entries, so that the next look at any of those descriptors reads
  through the null pointer.
\<close>

theorem fsext_close_all:
  assumes "table_ok bss s" "fsext_list s = Some t"
  shows "\<exists>s'. FSEXT_close_all bss s = Some (s', filter (\<lambda>i. efunction (t ! i) \<noteq> 0) [0..<length t])
    \<and> fsext_list s' = None
    \<and> (\<forall>fd. 0 \<le> fd \<and> fd < int (length t) \<longrightarrow> FSEXT_get_function bss fd s' = None)"
proof -
  have ok: "table_ok bss (s\<lparr>exit_hook := False\<rparr>)" and n: "num_fds s = int (length t)"
    using assms by (simp_all add: table_ok_def)
  then obtain s' where s': "close_all_loop bss [0..<length t] (s\<lparr>exit_hook := False\<rparr>)
      = Some (s', filter (\<lambda>i. efunction (t ! i) \<noteq> 0) [0..<length t])" "num_fds s' = num_fds s" "init_count s' = bss"
    using close_all_loop_closes [OF ok, of t "[0..<length t]"] assms(2) by auto
  then show ?thesis
    using assms(2) n by (auto simp: FSEXT_close_all_def FSEXT_get_function_def ext_at_def init_def)
qed

theorem fsext_close_all_witness:
  "\<exists>s'. FSEXT_close_all 1 (the (write_entry 1 (Function, 3) 7 (fst (init 1 (fsext_start [5000]))))) = Some (s', [3])
     \<and> FSEXT_get_function 1 0 s' = None"
proof -
  let ?s = "the (write_entry 1 (Function, 3) 7 (fst (init 1 (fsext_start [5000]))))"
  have t: "table_ok 1 ?s" "fsext_list ?s \<noteq> None" "filter (\<lambda>i. efunction (the (fsext_list ?s) ! i) \<noteq> 0) [0..<256] = [3]"
    "length (the (fsext_list ?s)) = 256" by code_simp+
  then obtain t where "fsext_list ?s = Some t" by auto
  with fsext_close_all [OF t(1) this] t show ?thesis by auto
qed

end
