(* ===== verification/Fnmatch.thy ===== *)
theory Fnmatch
  imports Ctype
begin

text \<open>
  \<^verbatim>\<open>posix/fnmatch/fnmatch.c\<close>: matching a file name against a pattern. Pattern and string are their bytes without the
  NUL. The matcher, which treats stars in runs, at the end and before slashes specially, is shown equal to
  a reference matcher that takes a star to stand for any run of characters.
\<close>

section \<open>Model\<close>

definition FNM_NOESCAPE :: "32 word" where "FNM_NOESCAPE = 0x01"

definition FNM_PATHNAME :: "32 word" where "FNM_PATHNAME = 0x02"

definition FNM_NOCASE :: "32 word" where "FNM_NOCASE = 0x08"

definition isslash :: "byte \<Rightarrow> bool" where
  "isslash c \<longleftrightarrow> c = 92 \<or> c = 47"

fun find_slash :: "byte list \<Rightarrow> byte list option" where
  "find_slash [] = None"
| "find_slash (c # s) = (if isslash c then Some (c # s) else find_slash s)"

text \<open>The loop of \<^verbatim>\<open>rangematch\<close>; \<^verbatim>\<open>char\<close> is signed, so that the first comparison of a range is signed.\<close>

fun range_loop :: "byte list \<Rightarrow> byte \<Rightarrow> bool \<Rightarrow> bool \<Rightarrow> (bool \<times> byte list) option" where
  "range_loop [] test nocase ok = None"
| "range_loop (c # p) test nocase ok =
     (if c = 93 then Some (ok, p)
      else case p of
        d # c2 # p' \<Rightarrow>
          if d = 45 \<and> c2 \<noteq> 93 then
            range_loop p' test nocase
              (ok \<or> sint c \<le> sint test \<and> sint test \<le> sint c2
               \<or> nocase \<and> toupper_byte c \<le> toupper_byte test \<and> toupper_byte test \<le> toupper_byte c2)
          else range_loop p test nocase (ok \<or> c = test \<or> nocase \<and> toupper_byte c = toupper_byte test)
      | _ \<Rightarrow> range_loop p test nocase (ok \<or> c = test \<or> nocase \<and> toupper_byte c = toupper_byte test))"

definition rangematch :: "byte list \<Rightarrow> byte \<Rightarrow> bool \<Rightarrow> byte list option" where
  "rangematch pattern test nocase =
     (let negate = (pattern \<noteq> [] \<and> hd pattern = 33);
          pattern = (if negate then tl pattern else pattern) in
      case range_loop pattern test nocase False of
        None \<Rightarrow> None
      | Some (ok, p) \<Rightarrow> if ok = negate then None else Some p)"

lemma range_loop_length: "range_loop p test nocase ok = Some (r, p') \<Longrightarrow> length p' < length p"
proof (induction p test nocase ok rule: range_loop.induct)
  case (2 c p test nocase ok)
  then show ?case by (auto split: if_splits list.splits)
qed simp

declare range_loop.simps [simp del]

lemma rangematch_length:
  assumes "rangematch p test nocase = Some p'"
  shows "length p' < length p"
proof -
  let ?q = "if p \<noteq> [] \<and> hd p = 33 then tl p else p"
  obtain ok where "range_loop ?q test nocase False = Some (ok, p')"
    using assms by (auto simp: rangematch_def Let_def split: option.splits prod.splits if_splits)
  then have "length p' < length ?q" by (rule range_loop_length)
  also have "length ?q \<le> length p" by simp
  finally show ?thesis .
qed

text \<open>The comparison of the default case.\<close>

definition same_char :: "32 word \<Rightarrow> byte \<Rightarrow> byte \<Rightarrow> bool" where
  "same_char flags c t \<longleftrightarrow> isslash c \<and> isslash t \<or>
     (if flags AND FNM_NOCASE \<noteq> 0 then toupper_byte c = toupper_byte t else c = t)"

lemma find_slash_length: "find_slash s = Some t \<Longrightarrow> length t \<le> length s"
  by (induction s) (auto split: if_splits)

lemma dropWhile_length: "length (dropWhile P xs) \<le> length xs"
  by (induction xs) auto

lemma star_measure:
  "length t \<le> length s \<Longrightarrow> 2 * length (dropWhile P p) + 2 * length t < Suc (Suc (2 * length p + 2 * length s))"
  "2 * length (dropWhile P p) < Suc (2 * length p)"
  using dropWhile_length [of P p] by linarith+

text \<open>
  \<open>behind\<close> is the byte behind the NUL of the pattern, which the test for an escape reads when the pattern ends
  in a backslash. The result is whether \<^verbatim>\<open>fnmatch\<close> returns 0; \<open>fnmatch_star\<close> is the loop for a star.
\<close>

definition escape_test :: "byte \<Rightarrow> 32 word \<Rightarrow> byte list \<Rightarrow> bool" where
  "escape_test behind flags pattern =
     (let next_but_one = (case pattern of [] \<Rightarrow> behind | [c] \<Rightarrow> 0 | c # d # p \<Rightarrow> d) in
      flags AND FNM_NOESCAPE = 0 \<and> next_but_one \<noteq> 0 \<and> next_but_one \<in> set [42, 63, 91, 92])"

function fnmatch :: "byte \<Rightarrow> 32 word \<Rightarrow> byte list \<Rightarrow> byte list \<Rightarrow> bool"
  and fnmatch_star :: "byte \<Rightarrow> 32 word \<Rightarrow> byte list \<Rightarrow> byte list \<Rightarrow> bool" where
  "fnmatch behind flags [] string = (string = [])"
| "fnmatch behind flags (c # pattern) string =
     (if c = 63 then
        case string of
          [] \<Rightarrow> False
        | test # string \<Rightarrow>
            if isslash test \<and> flags AND FNM_PATHNAME \<noteq> 0 then False else fnmatch behind flags pattern string
      else if c = 42 then
        let pattern = dropWhile (\<lambda>c. c = 42) pattern in
        if pattern = [] then (if flags AND FNM_PATHNAME \<noteq> 0 then find_slash string = None else True)
        else if isslash (hd pattern) \<and> flags AND FNM_PATHNAME \<noteq> 0 then
          case find_slash string of None \<Rightarrow> False | Some string \<Rightarrow> fnmatch behind flags pattern string
        else fnmatch_star behind flags pattern string
      else if c = 91 then
        case string of
          [] \<Rightarrow> False
        | test # string \<Rightarrow>
            if isslash test \<and> flags AND FNM_PATHNAME \<noteq> 0 then False
            else case rangematch pattern test (flags AND FNM_NOCASE \<noteq> 0) of
                   None \<Rightarrow> False
                 | Some pattern \<Rightarrow> fnmatch behind flags pattern string
      else if c = 92 \<and> escape_test behind flags pattern then
        case string of
          [] \<Rightarrow> False
        | test # string \<Rightarrow>
            (case pattern of
               [] \<Rightarrow> c = test \<and> fnmatch behind flags [] string
             | d # pattern \<Rightarrow> d = test \<and> fnmatch behind flags pattern string)
      else
        case string of
          [] \<Rightarrow> False
        | test # string \<Rightarrow> same_char flags c test \<and> fnmatch behind flags pattern string)"
| "fnmatch_star behind flags pattern [] = False"
| "fnmatch_star behind flags pattern (test # string) =
     (if fnmatch behind flags pattern (test # string) then True
      else if isslash test \<and> flags AND FNM_PATHNAME \<noteq> 0 then False
      else fnmatch_star behind flags pattern string)"
  by pat_completeness auto
termination
proof (relation "measure (\<lambda>x. case x of Inl (b, f, p, s) \<Rightarrow> 2 * (length p + length s)
      | Inr (b, f, p, s) \<Rightarrow> 2 * (length p + length s) + 1)")
qed (auto simp: star_measure dest!: rangematch_length find_slash_length)

declare fnmatch.simps [simp del]
declare fnmatch_star.simps [simp del]

section \<open>Reference matcher\<close>

function fnm :: "32 word \<Rightarrow> byte list \<Rightarrow> byte list \<Rightarrow> bool" where
  "fnm flags [] s = (s = [])"
| "fnm flags (c # p) [] = (c = 42 \<and> fnm flags p [])"
| "fnm flags (c # p) (t # s) =
     (if c = 42 then fnm flags p (t # s) \<or> \<not> (isslash t \<and> flags AND FNM_PATHNAME \<noteq> 0) \<and> fnm flags (c # p) s
      else if c = 63 then \<not> (isslash t \<and> flags AND FNM_PATHNAME \<noteq> 0) \<and> fnm flags p s
      else if c = 91 then \<not> (isslash t \<and> flags AND FNM_PATHNAME \<noteq> 0) \<and>
        (case rangematch p t (flags AND FNM_NOCASE \<noteq> 0) of None \<Rightarrow> False | Some p' \<Rightarrow> fnm flags p' s)
      else same_char flags c t \<and> fnm flags p s)"
  by pat_completeness auto
termination
  by (relation "measure (\<lambda>(flags, p, s). length p + length s)") (auto dest: rangematch_length)

declare fnm.simps [simp del]

lemma fnm_simps:
  "fnm flags [] s = (s = [])"
  "fnm flags (c # p) [] = (c = 42 \<and> fnm flags p [])"
  "fnm flags (42 # p) (t # s) =
     (fnm flags p (t # s) \<or> \<not> (isslash t \<and> flags AND FNM_PATHNAME \<noteq> 0) \<and> fnm flags (42 # p) s)"
  by (simp_all add: fnm.simps)

lemma fnm_two_stars: "fnm flags (42 # 42 # p) s = fnm flags (42 # p) s"
  by (induction s) (auto simp: fnm_simps)

lemma fnm_stars: "fnm flags (42 # p) s = fnm flags (42 # dropWhile (\<lambda>c. c = 42) p) s"
  by (induction p) (auto simp: fnm_two_stars)

lemma fnm_last_star: "fnm flags [42] s = (flags AND FNM_PATHNAME \<noteq> 0 \<longrightarrow> find_slash s = None)"
  by (induction s) (auto simp: fnm_simps)

lemma fnm_star_slash:
  assumes "isslash c" "flags AND FNM_PATHNAME \<noteq> 0"
  shows "fnm flags (42 # c # p) s = (case find_slash s of None \<Rightarrow> False | Some t \<Rightarrow> fnm flags (c # p) t)"
proof -
  have c: "c \<noteq> 42" "c \<noteq> 63" "c \<noteq> 91" using assms(1) by (auto simp: isslash_def)
  have ne: "\<not> fnm flags (c # p) (t # s)" if "\<not> isslash t" for t s
  proof -
    have "toupper_byte c \<noteq> toupper_byte t" "c \<noteq> t"
      using that assms(1) by (auto simp: isslash_def word_uint_eq_iff uint_toupper_byte split: if_splits)
    then show ?thesis using that c by (auto simp: fnm.simps same_char_def)
  qed
  show ?thesis
  proof (induction s)
    case Nil
    then show ?case using c by (simp add: fnm_simps)
  next
    case (Cons t s)
    then show ?case using assms(2) ne [of t s] by (auto simp: fnm_simps)
  qed
qed

lemma range_loop_set: "range_loop p test nocase ok = Some (r, p') \<Longrightarrow> set p' \<subseteq> set p"
proof (induction p test nocase ok rule: range_loop.induct)
  case (2 c p test nocase ok)
  then show ?case by (auto simp: range_loop.simps(2) [of c] split: if_splits list.splits)
qed (simp add: range_loop.simps)

lemma rangematch_set:
  assumes "rangematch p test nocase = Some p'"
  shows "set p' \<subseteq> set p"
proof -
  let ?q = "if p \<noteq> [] \<and> hd p = 33 then tl p else p"
  obtain ok where "range_loop ?q test nocase False = Some (ok, p')"
    using assms by (auto simp: rangematch_def Let_def split: option.splits prod.splits if_splits)
  then have "set p' \<subseteq> set ?q" by (rule range_loop_set)
  also have "set ?q \<subseteq> set p" by (auto intro: list.set_sel)
  finally show ?thesis .
qed

lemma dropWhile_set: "x \<in> set (dropWhile P xs) \<Longrightarrow> x \<in> set xs"
  using set_dropWhileD [of x P xs] by simp

lemma fnmatch_simps:
  "fnmatch b flags [] s = (s = [])"
  "fnmatch b flags (63 # p) [] = False"
  "fnmatch b flags (63 # p) (t # s) = (\<not> (isslash t \<and> flags AND FNM_PATHNAME \<noteq> 0) \<and> fnmatch b flags p s)"
  "fnmatch b flags (91 # p) [] = False"
  "fnmatch b flags (91 # p) (t # s) = (\<not> (isslash t \<and> flags AND FNM_PATHNAME \<noteq> 0) \<and>
     (case rangematch p t (flags AND FNM_NOCASE \<noteq> 0) of None \<Rightarrow> False | Some p' \<Rightarrow> fnmatch b flags p' s))"
  "fnmatch b flags (42 # p) s =
     (let q = dropWhile (\<lambda>c. c = 42) p in
      if q = [] then (flags AND FNM_PATHNAME \<noteq> 0 \<longrightarrow> find_slash s = None)
      else if isslash (hd q) \<and> flags AND FNM_PATHNAME \<noteq> 0
      then (case find_slash s of None \<Rightarrow> False | Some t \<Rightarrow> fnmatch b flags q t)
      else fnmatch_star b flags q s)"
  by (simp_all add: fnmatch.simps(1) fnmatch.simps(2) [of b flags 63] fnmatch.simps(2) [of b flags 91]
      fnmatch.simps(2) [of b flags 42 p s] Let_def)

lemma fnmatch_other:
  "c \<notin> {42, 63, 91, 92} \<Longrightarrow> fnmatch b flags (c # p) s =
     (case s of [] \<Rightarrow> False | t # s' \<Rightarrow> same_char flags c t \<and> fnmatch b flags p s')"
  by (subst fnmatch.simps) simp

lemma fnmatch_fnm:
  "92 \<notin> set p \<Longrightarrow> fnmatch b flags p s = fnm flags p s"
  "92 \<notin> set p \<Longrightarrow> p \<noteq> [] \<Longrightarrow> hd p \<noteq> 42 \<Longrightarrow> fnmatch_star b flags p s = fnm flags (42 # p) s"
proof (induction b flags p s and b flags p s rule: fnmatch_fnmatch_star.induct)
  case (1 b flags s)
  then show ?case by (simp add: fnmatch.simps fnm_simps)
next
  case (2 b flags c p s)
  consider "c = 63" | "c = 42" | "c = 91" | "c \<noteq> 63" "c \<noteq> 42" "c \<noteq> 91" by blast
  then show ?case
  proof cases
    case 1
    then show ?thesis using 2 by (cases s) (auto simp: fnmatch_simps fnm.simps)
  next
    case c: 2
    let ?p = "dropWhile (\<lambda>c. c = 42) p"
    have np: "92 \<notin> set ?p" using "2.prems" dropWhile_set [of 92 _ p] by auto
    have hd: "?p \<noteq> [] \<Longrightarrow> hd ?p \<noteq> 42" using hd_dropWhile [of "\<lambda>c. c = 42" p] by auto
    have st: "fnm flags (c # p) s = fnm flags (42 # ?p) s" using c fnm_stars by simp
    consider "?p = []" | "?p \<noteq> []" "isslash (hd ?p) \<and> flags AND FNM_PATHNAME \<noteq> 0"
      | "?p \<noteq> []" "\<not> (isslash (hd ?p) \<and> flags AND FNM_PATHNAME \<noteq> 0)" by blast
    then show ?thesis
    proof cases
      case 1
      then have "fnmatch b flags (c # p) s = (flags AND FNM_PATHNAME \<noteq> 0 \<longrightarrow> find_slash s = None)"
        unfolding c by (simp add: fnmatch_simps(6) Let_def)
      then show ?thesis unfolding st by (simp only: 1 fnm_last_star)
    next
      case 2
      then obtain d q where p: "?p = d # q" by (cases ?p) auto
      have "fnmatch b flags ?p t = fnm flags ?p t" if "find_slash s = Some t" for t
        using "2.IH"(2) [of ?p t] 2 that np c by auto
      then show ?thesis
        unfolding st using 2 c p fnm_star_slash [of d flags q s]
        by (auto simp: fnmatch_simps(6) Let_def split: option.splits)
    next
      case 3
      have "fnmatch_star b flags ?p s = fnm flags (42 # ?p) s"
        using "2.IH"(3) [of ?p] 3 np hd c by auto
      then show ?thesis unfolding st using 3 c by (auto simp: fnmatch_simps(6) Let_def)
    qed
  next
    case 3
    show ?thesis
    proof (cases s)
      case (Cons t s')
      have "fnmatch b flags p' s' = fnm flags p' s'"
        if "\<not> (isslash t \<and> flags AND FNM_PATHNAME \<noteq> 0)" "rangematch p t (flags AND FNM_NOCASE \<noteq> 0) = Some p'" for p'
        using "2.IH"(4) [of t s' p'] 3 Cons that rangematch_set [OF that(2)] "2.prems" by auto
      then show ?thesis using 3 Cons
        by (auto simp: fnmatch_simps fnm.simps split: option.splits)
    qed (use 3 in \<open>simp add: fnmatch_simps fnm_simps\<close>)
  next
    case 4
    then show ?thesis
      using 2 by (cases s) (auto simp: fnmatch_other fnm.simps)
  qed
next
  case (3 b flags p)
  then show ?case by (cases p) (auto simp: fnmatch_star.simps fnm_simps)
next
  case (4 b flags p t s)
  then show ?case by (auto simp: fnmatch_star.simps(2) [of b flags p] fnm_simps)
qed

section \<open>Properties\<close>

text \<open>
  C15. On every pattern without a backslash \<^verbatim>\<open>fnmatch\<close> ends and agrees with the reference matcher, with and
  without the flags for path names and case. The escape of the documentation does not work: the test
  looks at the character behind the one to be escaped, so that an escaped star does not match a star.
\<close>

theorem fnmatch_correct:
  "(92 \<notin> set pattern \<longrightarrow> fnmatch behind flags pattern string = fnm flags pattern string)
   \<and> \<not> fnmatch 0 0 [92, 42] [42] \<and> fnmatch 0 0 [92, 42] [47, 97]"
proof (intro conjI impI)
  show "\<not> fnmatch 0 0 [92, 42] [42]" "fnmatch 0 0 [92, 42] [47, 97]" by code_simp+
qed (rule fnmatch_fnm)

theorem fnmatch_correct_witness:
  "fnmatch 0 FNM_PATHNAME [97, 42, 42, 46, 91, 98, 45, 100, 93] [97, 120, 46, 99]"
proof -
  have "fnm FNM_PATHNAME [97, 42, 42, 46, 91, 98, 45, 100, 93] [97, 120, 46, 99]" by code_simp
  with fnmatch_correct [of "[97, 42, 42, 46, 91, 98, 45, 100, 93]" 0] show ?thesis by simp
qed

end
