(* ===== verification/Getopt.thy ===== *)
theory Getopt
  imports Prelude
begin

text \<open>
  \<^verbatim>\<open>posix/unistd/getopt.c\<close>: one call of \<^verbatim>\<open>getopt\<close> as a function of its static and global variables, and the loop of a
  program that calls it until it returns -1. The arguments are strings without their NULs; \<open>place\<close> is the
  rest of the argument being processed, empty for \<^verbatim>\<open>EMSG\<close>.
\<close>

section \<open>Model\<close>

record getopt_state =
  opterr :: bool
  optind :: nat
  optopt :: int
  optarg :: "string option"
  place :: string
  messages :: "string list"

definition getopt_init :: getopt_state where
  "getopt_init = \<lparr>opterr = True, optind = 1, optopt = 0, optarg = None, place = [], messages = []\<rparr>"

text \<open>A \<^verbatim>\<open>char\<close>, which is signed, as an \<^verbatim>\<open>int\<close>.\<close>

definition char_int :: "char \<Rightarrow> int" where
  "char_int c = (let n = int (of_char c :: nat) in if 128 \<le> n then n - 256 else n)"

definition BADOPT :: int where "BADOPT = 63"

definition BADARG :: int where "BADARG = 58"

text \<open>What follows the first occurrence of a character.\<close>

fun behind :: "char \<Rightarrow> string \<Rightarrow> string option" where
  "behind c [] = None"
| "behind c (d # s) = (if c = d then Some s else behind c s)"

fun last_slash :: "string \<Rightarrow> string \<Rightarrow> string" where
  "last_slash p [] = p"
| "last_slash p (c # s) = last_slash (if c = CHR ''/'' then s else p) s"

definition complain :: "string list \<Rightarrow> string \<Rightarrow> string \<Rightarrow> char \<Rightarrow> getopt_state \<Rightarrow> getopt_state" where
  "complain nargv ostr msg c st =
     (if opterr st \<and> \<not> (ostr \<noteq> [] \<and> hd ostr = CHR '':'')
      then st\<lparr>messages := messages st @ [last_slash (nargv ! 0) (nargv ! 0) @ msg @ [c]]\<rparr> else st)"

text \<open>The part behind the choice of the argument: \<open>c\<close> is the option letter and \<open>p\<close> what follows it.\<close>

definition getopt_letter :: "string list \<Rightarrow> string \<Rightarrow> char \<Rightarrow> string \<Rightarrow> getopt_state \<Rightarrow> int \<times> getopt_state" where
  "getopt_letter nargv ostr c p st =
     (let st = st\<lparr>optopt := char_int c, place := p\<rparr>;
          oli = behind c ostr in
      if c = CHR '':'' \<or> oli = None then
        if c = CHR ''-'' then (-1, st)
        else
          let st = (if p = [] then st\<lparr>optind := optind st + 1\<rparr> else st) in
          (BADOPT, complain nargv ostr '': illegal option -- '' c st)
      else if \<not> (the oli \<noteq> [] \<and> hd (the oli) = CHR '':'') then
        let st = st\<lparr>optarg := None\<rparr> in
        (char_int c, if p = [] then st\<lparr>optind := optind st + 1\<rparr> else st)
      else if p \<noteq> [] then
        (char_int c, st\<lparr>optarg := Some p, place := [], optind := optind st + 1\<rparr>)
      else
        let st = st\<lparr>optind := optind st + 1\<rparr> in
        if length nargv \<le> optind st then
          let st = complain nargv ostr '': option requires an argument -- '' c (st\<lparr>place := []\<rparr>) in
          (if ostr \<noteq> [] \<and> hd ostr = CHR '':'' then BADARG else BADOPT, st)
        else (char_int c, st\<lparr>optarg := Some (nargv ! optind st), place := [], optind := optind st + 1\<rparr>))"

definition getopt :: "string list \<Rightarrow> string \<Rightarrow> getopt_state \<Rightarrow> int \<times> getopt_state" where
  "getopt nargv ostr st =
     (if place st = [] then
        if length nargv \<le> optind st then (-1, st\<lparr>place := []\<rparr>)
        else
          let a = nargv ! optind st in
          if a = [] \<or> hd a \<noteq> CHR ''-'' then (-1, st\<lparr>place := []\<rparr>)
          else if tl a \<noteq> [] then
            if hd (tl a) = CHR ''-'' then (-1, st\<lparr>optind := optind st + 1, place := []\<rparr>)
            else getopt_letter nargv ostr (hd (tl a)) (tl (tl a)) st
          else getopt_letter nargv ostr (hd a) (tl a) st
      else getopt_letter nargv ostr (hd (place st)) (tl (place st)) st)"

text \<open>The loop \<^verbatim>\<open>while ((c = getopt(...)) != -1)\<close> with a bound on the number of calls.\<close>

fun getopt_run :: "nat \<Rightarrow> string list \<Rightarrow> string \<Rightarrow> getopt_state \<Rightarrow> ((int \<times> string option) list \<times> getopt_state) option" where
  "getopt_run 0 nargv ostr st = None"
| "getopt_run (Suc n) nargv ostr st =
     (case getopt nargv ostr st of (r, st) \<Rightarrow>
        if r = -1 then Some ([], st)
        else case getopt_run n nargv ostr st of
               None \<Rightarrow> None
             | Some (rs, st') \<Rightarrow> Some ((r, optarg st) # rs, st'))"

section \<open>Command lines\<close>

text \<open>
  A group of options as a user writes it: letters without an argument in one word, the last of which may take
  an argument in the same word or in the next one.
\<close>

datatype optgroup =
    Flags "char list"
  | Attached "char list" char string
  | Separate "char list" char string

fun words_of :: "optgroup \<Rightarrow> string list" where
  "words_of (Flags fs) = [CHR ''-'' # fs]"
| "words_of (Attached fs c a) = [CHR ''-'' # fs @ c # a]"
| "words_of (Separate fs c a) = [CHR ''-'' # fs @ [c], a]"

fun meaning :: "optgroup \<Rightarrow> (int \<times> string option) list" where
  "meaning (Flags fs) = map (\<lambda>f. (char_int f, None)) fs"
| "meaning (Attached fs c a) = map (\<lambda>f. (char_int f, None)) fs @ [(char_int c, Some a)]"
| "meaning (Separate fs c a) = map (\<lambda>f. (char_int f, None)) fs @ [(char_int c, Some a)]"

definition takes_arg :: "string \<Rightarrow> char \<Rightarrow> bool" where
  "takes_arg ostr c \<longleftrightarrow> (\<exists>s. behind c ostr = Some (CHR '':'' # s))"

definition letter_ok :: "string \<Rightarrow> char \<Rightarrow> bool" where
  "letter_ok ostr c \<longleftrightarrow> c \<noteq> CHR '':'' \<and> c \<noteq> CHR ''-'' \<and> behind c ostr \<noteq> None \<and> char_int c \<noteq> -1"

fun group_ok :: "string \<Rightarrow> optgroup \<Rightarrow> bool" where
  "group_ok ostr (Flags fs) \<longleftrightarrow> fs \<noteq> [] \<and> (\<forall>f \<in> set fs. letter_ok ostr f \<and> \<not> takes_arg ostr f)"
| "group_ok ostr (Attached fs c a) \<longleftrightarrow> a \<noteq> [] \<and> letter_ok ostr c \<and> takes_arg ostr c
     \<and> (\<forall>f \<in> set fs. letter_ok ostr f \<and> \<not> takes_arg ostr f)"
| "group_ok ostr (Separate fs c a) \<longleftrightarrow> letter_ok ostr c \<and> takes_arg ostr c
     \<and> (\<forall>f \<in> set fs. letter_ok ostr f \<and> \<not> takes_arg ostr f)"

section \<open>One call\<close>

text \<open>Being about to read the characters \<open>cs\<close> of the word at \<open>optind\<close>.\<close>

definition reading :: "string list \<Rightarrow> getopt_state \<Rightarrow> nat \<Rightarrow> string \<Rightarrow> bool" where
  "reading nargv st i cs \<longleftrightarrow> optind st = i \<and> i < length nargv \<and>
     (if place st = [] then nargv ! i = CHR ''-'' # cs \<and> cs \<noteq> [] \<and> hd cs \<noteq> CHR ''-'' else place st = cs)"

lemma reading_letter:
  "reading nargv st i (c # cs) \<Longrightarrow> getopt nargv ostr st = getopt_letter nargv ostr c cs st"
  by (auto simp: reading_def getopt_def Let_def split: if_splits)

lemma letter_flag:
  "letter_ok ostr c \<Longrightarrow> \<not> takes_arg ostr c \<Longrightarrow> getopt_letter nargv ostr c cs st =
     (char_int c, st\<lparr>optopt := char_int c, place := cs, optarg := None, optind := optind st + (if cs = [] then 1 else 0)\<rparr>)"
  by (auto simp: getopt_letter_def letter_ok_def takes_arg_def Let_def neq_Nil_conv)

lemma letter_attached:
  "letter_ok ostr c \<Longrightarrow> takes_arg ostr c \<Longrightarrow> a \<noteq> [] \<Longrightarrow> getopt_letter nargv ostr c a st =
     (char_int c, st\<lparr>optopt := char_int c, place := [], optarg := Some a, optind := optind st + 1\<rparr>)"
  by (auto simp: getopt_letter_def letter_ok_def takes_arg_def Let_def)

lemma letter_separate:
  "letter_ok ostr c \<Longrightarrow> takes_arg ostr c \<Longrightarrow> optind st + 1 < length nargv \<Longrightarrow> getopt_letter nargv ostr c [] st =
     (char_int c, st\<lparr>optopt := char_int c, place := [], optarg := Some (nargv ! (optind st + 1)), optind := optind st + 2\<rparr>)"
  by (auto simp: getopt_letter_def letter_ok_def takes_arg_def Let_def)

section \<open>Whole words\<close>

definition then_run ::
  "(int \<times> string option) list \<Rightarrow> ((int \<times> string option) list \<times> getopt_state) option
     \<Rightarrow> ((int \<times> string option) list \<times> getopt_state) option" where
  "then_run rs x = map_option (\<lambda>(ss, st). (rs @ ss, st)) x"

lemma then_run_append: "then_run (rs @ ss) x = then_run rs (then_run ss x)"
  by (simp add: then_run_def option.map_comp comp_def split_def)

lemma run_step:
  "getopt nargv ostr st = (r, st1) \<Longrightarrow> r \<noteq> -1 \<Longrightarrow>
     getopt_run (Suc n) nargv ostr st = then_run [(r, optarg st1)] (getopt_run n nargv ostr st1)"
  by (auto simp: then_run_def split: option.splits)

lemma run_flags:
  assumes "\<forall>f \<in> set fs. letter_ok ostr f \<and> \<not> takes_arg ostr f" "cs \<noteq> []"
  shows "reading nargv st i (fs @ cs) \<Longrightarrow> \<exists>st'. reading nargv st' i cs \<and>
    (\<forall>n. getopt_run (length fs + n) nargv ostr st =
       then_run (map (\<lambda>f. (char_int f, None)) fs) (getopt_run n nargv ostr st'))"
  using assms(1)
proof (induction fs arbitrary: st)
  case Nil
  then show ?case by (auto simp: then_run_def option.map_id)
next
  case (Cons f fs)
  let ?st = "st\<lparr>optopt := char_int f, place := fs @ cs, optarg := None, optind := optind st\<rparr>"
  have g: "getopt nargv ostr st = (char_int f, ?st)"
    using reading_letter [of nargv st i f "fs @ cs" ostr] Cons.prems letter_flag [of ostr f nargv "fs @ cs" st] assms(2)
    by simp
  have "reading nargv ?st i (fs @ cs)" using Cons.prems(1) assms(2) by (auto simp: reading_def)
  then have "\<exists>st'. reading nargv st' i cs \<and> (\<forall>n. getopt_run (length fs + n) nargv ostr ?st =
       then_run (map (\<lambda>f. (char_int f, None)) fs) (getopt_run n nargv ostr st'))"
    using Cons.prems(2) by (intro Cons.IH) simp_all
  then obtain st' where st': "reading nargv st' i cs"
    "\<And>n. getopt_run (length fs + n) nargv ostr ?st =
       then_run (map (\<lambda>f. (char_int f, None)) fs) (getopt_run n nargv ostr st')"
    by blast
  have "getopt_run (length (f # fs) + n) nargv ostr st =
      then_run (map (\<lambda>f. (char_int f, None)) (f # fs)) (getopt_run n nargv ostr st')" for n
    using run_step [OF g, of "length fs + n"] Cons.prems(2) st'(2) [of n]
      then_run_append [of "[(char_int f, None)]" "map (\<lambda>f. (char_int f, None)) fs"]
    by (simp add: letter_ok_def)
  then show ?case using st'(1) by blast
qed

definition at_word :: "getopt_state \<Rightarrow> nat \<Rightarrow> bool" where
  "at_word st i \<longleftrightarrow> place st = [] \<and> optind st = i"

lemma run_group:
  assumes g: "group_ok ostr g" and w: "nargv = before @ words_of g @ rest" and st: "at_word st (length before)"
  shows "\<exists>st'. at_word st' (length before + length (words_of g)) \<and>
    (\<forall>n. getopt_run (length (meaning g) + n) nargv ostr st = then_run (meaning g) (getopt_run n nargv ostr st'))"
proof -
  let ?i = "length before"
  obtain fs c cs a where shape: "nargv ! ?i = CHR ''-'' # fs @ c # cs"
    "\<forall>f \<in> set fs. letter_ok ostr f \<and> \<not> takes_arg ostr f" "letter_ok ostr c"
    "meaning g = map (\<lambda>f. (char_int f, None)) fs @ [(char_int c, a)]"
    "\<not> takes_arg ostr c \<and> cs = [] \<and> a = None \<and> length (words_of g) = 1
     \<or> takes_arg ostr c \<and> cs \<noteq> [] \<and> a = Some cs \<and> length (words_of g) = 1
     \<or> takes_arg ostr c \<and> cs = [] \<and> a = Some (nargv ! (?i + 1)) \<and> length (words_of g) = 2"
  proof (cases g)
    case (Flags fs)
    then obtain es e where fs: "fs = es @ [e]" using g by (cases fs rule: rev_cases) auto
    show ?thesis using that [of es e "[]" None] g w Flags fs by auto
  next
    case (Attached fs c a)
    then show ?thesis using that [of fs c a "Some a"] g w by auto
  next
    case (Separate fs c a)
    have "nargv ! (?i + 1) = a" using w Separate by (simp add: nth_append)
    then show ?thesis using that [of fs c "[]" "Some a"] g w Separate by auto
  qed
  have len: "?i + length (words_of g) \<le> length nargv" using w by simp
  then have i: "?i < length nargv" using shape(5) by auto
  have "reading nargv st ?i (fs @ c # cs)"
    using st shape(1-3) i by (cases fs) (auto simp: reading_def at_word_def letter_ok_def)
  then obtain st1 where st1: "reading nargv st1 ?i (c # cs)"
    "\<And>n. getopt_run (length fs + n) nargv ostr st =
       then_run (map (\<lambda>f. (char_int f, None)) fs) (getopt_run n nargv ostr st1)"
    using run_flags [OF shape(2), of "c # cs"] by blast
  have oi: "optind st1 = ?i" using st1(1) by (simp add: reading_def)
  have "\<exists>st2. getopt nargv ostr st1 = (char_int c, st2) \<and> optarg st2 = a \<and> at_word st2 (?i + length (words_of g))"
    using shape(3,5) reading_letter [OF st1(1), of ostr] oi len
      letter_flag [of ostr c nargv "[]" st1] letter_attached [of ostr c cs nargv st1] letter_separate [of ostr c st1 nargv]
    by (auto simp: at_word_def)
  then obtain st2 where st2: "getopt nargv ostr st1 = (char_int c, st2)" "optarg st2 = a"
    "at_word st2 (?i + length (words_of g))" by blast
  have "getopt_run (length (meaning g) + n) nargv ostr st = then_run (meaning g) (getopt_run n nargv ostr st2)" for n
    using st1(2) [of "Suc n"] run_step [OF st2(1), of n] st2(2) shape(3,4) by (simp add: then_run_append letter_ok_def)
  then show ?thesis using st2(3) by blast
qed

lemma run_groups:
  assumes "\<forall>g \<in> set gs. group_ok ostr g" "nargv = before @ concat (map words_of gs) @ rest" "at_word st (length before)"
  shows "\<exists>st'. at_word st' (length before + length (concat (map words_of gs))) \<and>
    (\<forall>n. getopt_run (length (concat (map meaning gs)) + n) nargv ostr st =
       then_run (concat (map meaning gs)) (getopt_run n nargv ostr st'))"
  using assms
proof (induction gs arbitrary: before st)
  case Nil
  then show ?case by (auto simp: then_run_def option.map_id)
next
  case (Cons g gs)
  obtain st1 where st1: "at_word st1 (length before + length (words_of g))"
    "\<And>n. getopt_run (length (meaning g) + n) nargv ostr st = then_run (meaning g) (getopt_run n nargv ostr st1)"
    using run_group [of ostr g nargv before "concat (map words_of gs) @ rest" st] Cons.prems by auto
  obtain st2 where st2: "at_word st2 (length before + length (words_of g) + length (concat (map words_of gs)))"
    "\<And>n. getopt_run (length (concat (map meaning gs)) + n) nargv ostr st1 =
       then_run (concat (map meaning gs)) (getopt_run n nargv ostr st2)"
    using Cons.IH [of "before @ words_of g" st1] Cons.prems st1(1) by auto
  have "getopt_run (length (concat (map meaning (g # gs))) + n) nargv ostr st =
       then_run (concat (map meaning (g # gs))) (getopt_run n nargv ostr st2)" for n
    using st1(2) [of "length (concat (map meaning gs)) + n"] st2(2) [of n] by (simp add: then_run_append add.assoc)
  then show ?case using st2(1) by (auto simp: add.assoc)
qed

section \<open>Properties\<close>

text \<open>
  C20. Reading a command line back: for any groups of options that the option string allows, written as
  words in front of operands, a program that calls \<^verbatim>\<open>getopt\<close> until it returns -1 sees exactly those options
  with their arguments, in order, and afterwards \<^verbatim>\<open>optind\<close> is the index of the first operand. The operands
  are introduced by \<^verbatim>\<open>--\<close>, or the first of them is a word that starts with no hyphen, or there are none.
\<close>

theorem getopt_reads_back:
  assumes "\<forall>g \<in> set gs. group_ok ostr g"
    "sep = [] \<and> (operands = [] \<or> hd operands = [] \<or> hd (hd operands) \<noteq> CHR ''-'') \<or> sep = [''--'']"
    "nargv = [prog] @ concat (map words_of gs) @ sep @ operands"
  shows "\<exists>st'. getopt_run (length (concat (map meaning gs)) + 1) nargv ostr getopt_init = Some (concat (map meaning gs), st')
    \<and> drop (optind st') nargv = operands"
proof -
  let ?i = "1 + length (concat (map words_of gs))"
  obtain st1 where st1: "at_word st1 ?i"
    "\<And>n. getopt_run (length (concat (map meaning gs)) + n) nargv ostr getopt_init =
       then_run (concat (map meaning gs)) (getopt_run n nargv ostr st1)"
    using run_groups [of gs ostr nargv "[prog]" "sep @ operands" getopt_init] assms(1,3)
    by (auto simp: at_word_def getopt_init_def)
  have len: "length nargv = ?i + length sep + length operands" using assms(3) by simp
  have d: "drop ?i nargv = sep @ operands" using assms(3) by simp
  have "\<exists>st'. getopt nargv ostr st1 = (-1, st') \<and> drop (optind st') nargv = operands"
    using assms(2)
  proof
    assume s: "sep = [] \<and> (operands = [] \<or> hd operands = [] \<or> hd (hd operands) \<noteq> CHR ''-'')"
    have "nargv ! ?i = hd operands" if "operands \<noteq> []"
      using that s d len by (metis hd_drop_conv_nth append_Nil length_greater_0_conv less_add_same_cancel1 list.size(3) add_0_right)
    then show ?thesis using s st1(1) d len by (auto simp: getopt_def at_word_def Let_def)
  next
    assume s: "sep = [''--'']"
    have "nargv ! ?i = ''--''" using s assms(3) by (simp add: nth_append)
    moreover have "drop (Suc ?i) nargv = operands" using s assms(3) by simp
    ultimately show ?thesis using s st1(1) len by (auto simp: getopt_def at_word_def Let_def)
  qed
  then show ?thesis using st1(2) [of 1] by (auto simp: then_run_def)
qed

theorem getopt_reads_back_witness:
  "\<exists>st'. getopt_run 4 [''ls'', ''-ab'', ''-ofile'', ''--'', ''-x''] ''abo:'' getopt_init
      = Some ([(97, None), (98, None), (111, Some ''file'')], st') \<and> drop (optind st') [''ls'', ''-ab'', ''-ofile'', ''--'', ''-x''] = [''-x'']"
proof -
  let ?gs = "[Flags ''ab'', Attached [] (CHR ''o'') ''file'']"
  have "\<forall>g \<in> set ?gs. group_ok ''abo:'' g" by (simp add: letter_ok_def takes_arg_def char_int_def)
  from getopt_reads_back [OF this, of "[''--'']" "[''-x'']" _ "''ls''"] show ?thesis
    by (simp add: char_int_def eval_nat_numeral)
qed

end
