(* ===== verification/Spec2Isabelle.thy ===== *)
theory Spec2Isabelle
  imports Strtok Nmalign Hsearch Lsearch Mktime Tzfile Qsort Dosexec Fixpath Stdlib_Num Rand Random_State Strerror Doserr Env Signals Fd_Props Fsext Paths Fnmatch Getopt
begin

text \<open>
  Verification of the C library of DJGPP, \<^verbatim>\<open>src/src/libc\<close>: the 32-bit ANSI, POSIX and DOS library of a
  development system for DOS. The development models library components that keep state or have a contract of
  their own and proves the contract, or states precisely what the code does where it differs from it. All paths
  below are relative to \<^verbatim>\<open>src/src/libc\<close>.

  \<^bold>\<open>Conventions.\<close> Machine integers are words of their width (\<^verbatim>\<open>int\<close> and \<^verbatim>\<open>long\<close> have 32 bits, \<^verbatim>\<open>long long\<close> 64);
  where a routine only computes with values that cannot overflow they are integers or natural numbers. Memory of
  the string routines is one list of bytes, with addresses as indices and 0 as the null pointer; components that
  only pass strings around use character lists. Reading or writing memory that the routine must not touch is the
  value \<^term>\<open>None\<close>, so a theorem with a result \<^term>\<open>Some\<close> is also a memory-safety statement. Static variables of a C
  file are the fields of a record that the functions take and return; \<^verbatim>\<open>__bss_count\<close>, which tells a restarted
  program from a continued one, is an argument. The answers of \<^verbatim>\<open>malloc\<close>, of DOS and of other code outside the
  library are arguments too. Loops are structural recursion or recursion with a termination proof; the loop
  over a linked list that a damaged list could make endless, the expansion of response files, the probing of hash tables and the
  search for the year of a time are \<open>partial_function\<close>s into options. No fuel is used
  except for the number of calls in the run of \<^verbatim>\<open>getopt\<close>, where the property says how many calls are enough.

  \<^bold>\<open>Theories.\<close>

  \<^item> \<open>Prelude\<close>: byte memory, NUL-terminated strings in it, facts on words and lists that several components use.

  \<^item> \<open>Ctype\<close> (\<^verbatim>\<open>ansi/ctype\<close>, \<^verbatim>\<open>ansi/ctype/ct_*.c\<close>): the classification and case tables and the functions on them.
    The theorems give the codes of each class, those of ASCII in the C locale, and the case conversion of every argument;
    \<^verbatim>\<open>EOF\<close> is converted to 0.

  \<^item> \<open>Cstring\<close> (\<^verbatim>\<open>ansi/string\<close>, \<^verbatim>\<open>compat/string\<close>): routines that only read: comparisons are the
    lexicographic order of unsigned bytes, searches return the first or last occurrence, spans are maximal, and
    \<^verbatim>\<open>strnlen\<close> reads one byte too far.

  \<^item> \<open>Cstring_Write\<close>: routines that write: what is written, where, what is returned, that nothing else
    changes, and that the bounded copies never exceed their buffer.

  \<^item> \<open>Strtok\<close>: \<^verbatim>\<open>strtok\<close>, \<^verbatim>\<open>strtok_r\<close> and \<^verbatim>\<open>strsep\<close> run until they are exhausted.

  \<^item> \<open>Strtol\<close> (\<^verbatim>\<open>ansi/stdlib/strto*.c\<close>, \<^verbatim>\<open>ato*.c\<close>): conversions of text to integers with clamping and
    wrap-around.

  \<^item> \<open>Stdlib_Num\<close>: \<^verbatim>\<open>itoa\<close>, \<^verbatim>\<open>l64a\<close>, \<^verbatim>\<open>a64l\<close>, \<^verbatim>\<open>bsearch\<close>, division and absolute values, the first two as
    round trips with the routines that read the text back.

  \<^item> \<open>Rand\<close> (\<^verbatim>\<open>rand.c\<close>, \<^verbatim>\<open>rand48.c\<close>): a locale of linear congruential generators proves the full period once and is
    interpreted for both.

  \<^item> \<open>Random_State\<close> (\<^verbatim>\<open>random.c\<close>): the additive generators over the caller's state arrays, with pointers into a
    word memory: a refinement of the additive recurrence, the round trip through \<^verbatim>\<open>initstate\<close> and
    \<^verbatim>\<open>setstate\<close>, the initial table.

  \<^item> \<open>Strerror\<close>, \<open>Doserr\<close>: error numbers and messages; their composition, from a DOS error code to a
    message, is the theorem below.

  \<^item> \<open>Fd_Props\<close> (\<^verbatim>\<open>dos/io/fd_props.c\<close>, \<^verbatim>\<open>_close.c\<close>): property objects shared by descriptors, with reference counts
    and two linked lists in an explicit store: the counting invariant of every reachable state, and what
    closing the newest descriptor does to the others.

  \<^item> \<open>Fsext\<close> (\<^verbatim>\<open>fsext/fsext.c\<close>): the growing table of file-system extensions, an interpretation of a locale of tables whose
    entries are named by a column and a descriptor; sizes have 32 bits, and from \<open>2 ^ 29 - 256\<close> on a descriptor overruns the table.

  \<^item> \<open>Paths\<close> (\<^verbatim>\<open>fnsplit.c\<close>, \<^verbatim>\<open>fnmerge.c\<close>, \<^verbatim>\<open>basename.c\<close>, \<^verbatim>\<open>dirname.c\<close>, \<^verbatim>\<open>is_dos83.c\<close>, \<^verbatim>\<open>lfnshort.c\<close>): DOS path names; the
    decomposition of \<^verbatim>\<open>fnsplit\<close> is the only one with the documented shapes.

  \<^item> \<open>Fixpath\<close> (\<^verbatim>\<open>posix/sys/stat/fixpath.c\<close>): canonical paths. The scanning of the path with its output buffer is proved to resolve
    components on a stack, within the buffer if there is room; at one length it stores a byte behind the buffer.

  \<^item> \<open>Fnmatch\<close> (\<^verbatim>\<open>fnmatch.c\<close>): wildcard matching agrees with a reference matcher.

  \<^item> \<open>Getopt\<close> (\<^verbatim>\<open>getopt.c\<close>): command lines are read back option by option.

  \<^item> \<open>Signals\<close> (\<^verbatim>\<open>posix/signal\<close>, \<^verbatim>\<open>signal\<close> and \<^verbatim>\<open>raise\<close> of \<^verbatim>\<open>go32/dpmiexcp.c\<close>): signal sets as an interpretation of a
    locale of bit sets, and \<^verbatim>\<open>sigprocmask\<close> as a simulation of a machine with a set of blocked signals. A
    handler of the program is recorded when it runs; that it does not itself change handlers or masks is assumed.

  \<^item> \<open>Env\<close> (\<^verbatim>\<open>putenv.c\<close>, \<^verbatim>\<open>getenv.c\<close>, \<^verbatim>\<open>setenv.c\<close>, \<^verbatim>\<open>unsetenv.c\<close>): the environment as an interpretation of a locale of
    maps with update and delete.

  \<^item> \<open>Nmalloc\<close>, \<open>Nheap\<close>, \<open>Nmalloc_Props\<close>, \<open>Allocator\<close>, \<open>Nmalign\<close> (\<^verbatim>\<open>ansi/stdlib/nmalloc.c\<close>, \<^verbatim>\<open>nmalign.c\<close>, \<^verbatim>\<open>nmalcdef.h\<close>): the
    allocator that is built, over byte memory in which the block headers are stored. \<open>Nmalloc\<close> has the operations,
    \<open>Nheap\<close> the consistency of headers and free lists and how unlinking, linking, joining and splitting keep it,
    \<open>Nmalloc_Props\<close> the operations one by one, \<open>Allocator\<close> what they promise a program: a locale of servers that follow a
    specification is interpreted on \<^verbatim>\<open>malloc\<close>, \<^verbatim>\<open>calloc\<close>, \<^verbatim>\<open>realloc\<close> and \<^verbatim>\<open>free\<close> with a map from pointers to contents as the
    specification. \<^verbatim>\<open>sbrk\<close> is an argument with a promise (\<open>sbrk_ok\<close>): memory inside the address space, not below the end of what
    it gave before, as the comment of \<^verbatim>\<open>nmalloc\<close> assumes; \<^verbatim>\<open>crt0.S\<close>, which is assembler, does not ensure this when the DPMI host hands out
    blocks at falling addresses. \<^verbatim>\<open>badcallabort\<close> is the result \<^term>\<open>None\<close>. Hooks and debugging output are left out. The sizes for which the code rounds beyond \<open>2 ^ 32\<close>, a second \<^verbatim>\<open>free\<close> of the topmost block and
    small parts in \<^verbatim>\<open>memalign\<close> are excluded by hypotheses, and lemmas show what goes wrong there.

  \<^item> \<open>Qsort\<close> (\<^verbatim>\<open>ansi/stdlib/qsort.c\<close>): quicksort with a fat pivot. The routines are proved in two locales: what they rely on in the
    exchange of elements gives that the array is rearranged whatever the comparison answers, and with a comparison that
    orders the elements that the array is sorted. Both are interpreted on the bytes of the array and the pieces in
    which \<^verbatim>\<open>Swap\<close> moves them. The number of elements is small enough for their indices not to overflow.

  \<^item> \<open>Crt0_Args\<close> (\<^verbatim>\<open>crt0/c1args.c\<close>): from the command line to \<^verbatim>\<open>argv\<close>. The splitting in place is proved equal to a splitting of
    character lists, the expansion of response files to end when their names are well-founded and not to end for a file
    that names itself (it is a \<open>partial_function\<close> into options), and the vector to have just the room it needs.

  \<^item> \<open>Dosexec\<close> (\<^verbatim>\<open>dos/process/dosexec.c\<close>, the command lines for programs that DJGPP did not build): what the quoting writes, within which
    bounds, and that it fits the splitting of \<open>Crt0_Args\<close>. Programs of DJGPP itself are started through a proxy, which is not modelled.

  \<^item> \<open>Hash2v\<close>, \<open>Hsearch\<close>, \<open>Lsearch\<close> (\<^verbatim>\<open>posix/search\<close>, \<^verbatim>\<open>compat/search\<close>): the hash function of the tables agrees with the original that is kept beside it;
    a locale of probe sequences that visit every slot once is interpreted on the slots that the odd increment reaches, and gives that
    \<^verbatim>\<open>hsearch\<close> implements a map and ends also in a full table. \<^verbatim>\<open>hcreate\<close> and \<^verbatim>\<open>hdestroy\<close> take the table from the allocator of \<open>Allocator\<close> and give
    it back. Linear search and the queues of \<^verbatim>\<open>insque\<close> and \<^verbatim>\<open>remque\<close> are in \<open>Lsearch\<close>.

  \<^item> \<open>Calendar\<close>, \<open>Ctime\<close>, \<open>Mktime\<close>, \<open>Tzparse\<close>, \<open>Tzfile\<close> (\<^verbatim>\<open>ansi/time/ctime.c\<close>): \<open>Calendar\<close> is the Gregorian calendar as a reference. \<open>Ctime\<close> has \<^verbatim>\<open>timesub\<close>,
    \<^verbatim>\<open>gmtsub\<close> and \<^verbatim>\<open>localsub\<close>, which agree with it; \<open>Mktime\<close> the normalising of fields and the bisection over all times, an inverse of the
    conversion in zones without transitions; \<open>Tzparse\<close> the strings of \<^verbatim>\<open>TZ\<close>, from the characters to the local time that is shown; \<open>Tzfile\<close> the
    zone files, which are read back as they were written and, whatever they contain, keep the conversion inside of its tables. A
    \<^verbatim>\<open>time_t\<close> is an unsigned word of 32 bits; the loop over the days of the years is a \<open>partial_function\<close> and proved to end. What
    \<^verbatim>\<open>open\<close> and \<^verbatim>\<open>read\<close> deliver is an argument, and so is what the code reads from memory before or behind the entries in use.

  \<^bold>\<open>Interfaces.\<close> The string theories share the byte memory of the prelude; \<open>Stdlib_Num\<close> relies on \<open>Strtol\<close> and
  \<open>Cstring_Write\<close> for its round trips; \<open>Strtok\<close> on the span lemmas of \<open>Cstring\<close>; \<open>Fnmatch\<close>, \<open>Strtol\<close> and the case
  conversions on \<open>Ctype\<close>; \<open>Crt0_Args\<close> on \<open>Ctype\<close> and \<^verbatim>\<open>strlen\<close> of \<open>Cstring\<close>; \<open>Fixpath\<close> on the 8.3 names of \<open>Paths\<close>; \<open>Dosexec\<close> on
  \<open>Crt0_Args\<close>; \<open>Env\<close> and \<open>Signals\<close> on the error numbers of \<open>Doserr\<close>; \<open>Hsearch\<close> on the allocator, on \<open>Hash2v\<close> and on \<^verbatim>\<open>strcmp\<close> of \<open>Cstring\<close>; \<open>Mktime\<close> and
  \<open>Tzparse\<close> on \<open>Ctime\<close>, \<open>Tzfile\<close> on \<open>Tzparse\<close>.

  \<^bold>\<open>Not modelled.\<close> The mathematics library and the coprocessor emulator (floating point), the assembler, the
  debuggers, the loader stubs and DPMI servers (other programs of the distribution, mostly hardware and binary
  formats), the generated and vendored parts (zone information, \<^verbatim>\<open>djtar\<close>, regular expressions), and in the library:
  standard input and output (the formatting needs floating point), the choice of the zone by the environment in \<^verbatim>\<open>tzset\<close>, the
  formatting of times and the locale, the loading of programs, directory walking, and the thin wrappers around DOS, BIOS
  and DPMI calls. The next components would be the search for programs in \<^verbatim>\<open>dosexec.c\<close>, \<^verbatim>\<open>tzset\<close> and the buffering of \<^verbatim>\<open>ansi/stdio\<close>.
\<close>

section \<open>From DOS error codes to messages\<close>

text \<open>
  Every DOS error code leads to a message: for any code \<^verbatim>\<open>__doserr_to_errno\<close> stores the code in \<^verbatim>\<open>_doserrno\<close> and returns an
  \<^verbatim>\<open>errno\<close> value for which \<^verbatim>\<open>strerror\<close> has a message of its own; codes outside of the table give \<^verbatim>\<open>EINVAL\<close>. The table has 255
  entries although the comments count up to 0xff, so that 0xff is outside.
\<close>

theorem dos_errors_have_messages:
  assumes "doserr_to_errno d s = (s', e)"
  shows "doserrno s' = d \<and> 0 \<le> e \<and> e < sys_nerr \<and> strerror ebuf e = (ebuf, sys_errlist ! nat e)
    \<and> (d < 0 \<or> 0xff \<le> d \<longrightarrow> e = EINVAL)"
proof -
  have e: "e = (if 0 \<le> d \<and> d < 255 then doserr_map ! nat d else EINVAL)" and s': "doserrno s' = d"
    using assms by (auto simp: doserr_to_errno_def doserr_map_length Let_def split: if_splits)
  have range: "0 \<le> e \<and> e \<le> 38"
    using doserr_range by (auto simp: e list_all_length doserr_map_length EINVAL_def)
  have "sys_nerr = 42" by (simp add: sys_nerr_def sys_errlist_def)
  then have "e < sys_nerr" "strerror ebuf e = (ebuf, sys_errlist ! nat e)"
    using range by (simp_all add: strerror_def)
  then show ?thesis using s' range e by auto
qed

theorem dos_errors_have_messages_witness:
  "doserr_to_errno 0x12 \<lparr>doserrno = 0\<rparr> = (\<lparr>doserrno = 0x12\<rparr>, 38) \<and>
     strerror (replicate 40 CHR 0x00) 38 = (replicate 40 CHR 0x00, ''No more files (ENMFILE)'')"
proof -
  have "doserr_to_errno 0x12 \<lparr>doserrno = 0\<rparr> = (\<lparr>doserrno = 0x12\<rparr>, 38)" by code_simp
  with dos_errors_have_messages [OF this, of "replicate 40 CHR 0x00"] show ?thesis
    by (simp add: sys_errlist_def)
qed

end
